(* ===== verification/Cpp_Prelude.thy ===== *)
theory Cpp_Prelude
  imports Main "HOL-Library.Word" "HOL-Library.Log_Nat" "HOL-Library.Monad_Syntax"
begin

text \<open>
  Shared vocabulary of the development: the machine types of the C++ sources, undefined
  behaviour as \<open>None\<close>, the decimal printer behind \<open>std::to_string\<close>, the two container
  classes the sources use (\<open>std::unordered_map\<close> and \<open>std::map\<close>) behind one interface, and
  round-to-nearest-even floating point. The host is taken to be x86-64, as in the
  repository's own set-up notes: little endian, \<open>int\<close> of 32 and \<open>long\<close> of 64 bits, and a
  \<open>long double\<close> with a 64-bit significand.
\<close>

unbundle bit_operations_syntax

named_theorems cpp_simps "rewrite rules for the C++ operators of the prelude"
named_theorems insn_simps "field and jump rewriting for classifier instructions"
named_theorems prog_intros "well-formedness of classifier programs"

type_synonym byte = "8 word"
type_synonym u16 = "16 word"
type_synonym u32 = "32 word"

section \<open>Undefined behaviour and short-circuit conditions\<close>

text \<open>
  A computation that may run into undefined behaviour (a read outside a buffer, a signed
  overflow, a failed assertion) has an \<open>option\<close> type, and \<open>None\<close> is the undefined outcome.
\<close>

definition INT_MAX :: int where
  "INT_MAX = 2147483647"

definition int_inc :: "int \<Rightarrow> int option" where
  "int_inc i = (if i < INT_MAX then Some (i + 1) else None)"

definition sc_and :: "bool option \<Rightarrow> bool option \<Rightarrow> bool option" where
  "sc_and a b = (case a of None \<Rightarrow> None | Some x \<Rightarrow> if x then b else Some False)"

definition sc_or :: "bool option \<Rightarrow> bool option \<Rightarrow> bool option" where
  "sc_or a b = (case a of None \<Rightarrow> None | Some x \<Rightarrow> if x then Some True else b)"

lemma sc_and_simps [simp, cpp_simps]:
  "sc_and (Some True) b = b" "sc_and (Some False) b = Some False" "sc_and None b = None"
  by (simp_all add: sc_and_def)

lemma sc_or_simps [simp, cpp_simps]:
  "sc_or (Some True) b = Some True" "sc_or (Some False) b = b" "sc_or None b = None"
  by (simp_all add: sc_or_def)

lemma sc_and_Some_Some [simp]: "sc_and (Some a) (Some b) = Some (a \<and> b)"
  by (cases a) simp_all

lemma sc_or_Some_Some [simp]: "sc_or (Some a) (Some b) = Some (a \<or> b)"
  by (cases a) simp_all

lemma sc_and_defined: "a \<noteq> None \<Longrightarrow> b \<noteq> None \<Longrightarrow> sc_and a b \<noteq> None"
  by (auto simp: sc_and_def)

lemma sc_or_defined: "a \<noteq> None \<Longrightarrow> b \<noteq> None \<Longrightarrow> sc_or a b \<noteq> None"
  by (auto simp: sc_or_def)

lemma int_inc_Some_iff: "int_inc i = Some k \<longleftrightarrow> i < INT_MAX \<and> k = i + 1"
  by (auto simp: int_inc_def)

lemma int_inc_small [simp]: "i < INT_MAX \<Longrightarrow> int_inc i = Some (i + 1)"
  by (simp add: int_inc_def)

section \<open>Lists\<close>

lemma separator_append_eq:
  assumes "x \<notin> set xs" "x \<notin> set xs'"
  shows "xs @ x # ys = xs' @ x # ys' \<longleftrightarrow> xs = xs' \<and> ys = ys'"
  using assms
proof (induction xs arbitrary: xs')
  case Nil
  then show ?case by (cases xs') auto
next
  case (Cons a xs)
  then show ?case by (cases xs') auto
qed

section \<open>Decimal strings\<close>

definition digit_char :: "nat \<Rightarrow> char" where
  "digit_char n = char_of (48 + n)"

text \<open>\<open>std::to_string\<close> on an unsigned value, and on a signed one.\<close>

fun to_string_nat :: "nat \<Rightarrow> string" where
  "to_string_nat n =
     (if n < 10 then [digit_char n] else to_string_nat (n div 10) @ [digit_char (n mod 10)])"

declare to_string_nat.simps [simp del]

definition to_string_int :: "int \<Rightarrow> string" where
  "to_string_int i = (if i < 0 then CHR ''-'' # to_string_nat (nat (- i)) else to_string_nat (nat i))"

definition dec_value :: "string \<Rightarrow> nat" where
  "dec_value s = foldl (\<lambda>a c. 10 * a + (of_char c - 48)) 0 s"

lemma of_char_digit [simp]: "n < 10 \<Longrightarrow> (of_char (digit_char n) :: nat) = 48 + n"
  by (simp add: digit_char_def)

lemma digit_char_eqs [simp]:
  "digit_char 0 = CHR ''0''" "digit_char (Suc 0) = CHR ''1''" "digit_char 1 = CHR ''1''"
  "digit_char 2 = CHR ''2''" "digit_char 3 = CHR ''3''" "digit_char 4 = CHR ''4''"
  "digit_char 5 = CHR ''5''" "digit_char 6 = CHR ''6''" "digit_char 7 = CHR ''7''"
  "digit_char 8 = CHR ''8''" "digit_char 9 = CHR ''9''"
  by code_simp+

lemma dec_value_snoc: "dec_value (s @ [c]) = 10 * dec_value s + (of_char c - 48)"
  by (simp add: dec_value_def)

lemma dec_value_to_string: "dec_value (to_string_nat n) = n"
proof (induction n rule: to_string_nat.induct)
  case (1 n)
  show ?case
  proof (cases "n < 10")
    case True
    then show ?thesis by (simp add: to_string_nat.simps [of n] dec_value_def)
  next
    case False
    with 1 have "dec_value (to_string_nat (n div 10)) = n div 10" by simp
    with False show ?thesis
      by (simp add: to_string_nat.simps [of n] dec_value_snoc)
  qed
qed

lemma to_string_nat_inject [simp]: "to_string_nat m = to_string_nat n \<longleftrightarrow> m = n"
  by (metis dec_value_to_string)

lemma to_string_nat_digits: "c \<in> set (to_string_nat n) \<Longrightarrow> \<exists>d < 10. c = digit_char d"
proof (induction n rule: to_string_nat.induct)
  case (1 n)
  show ?case
  proof (cases "n < 10")
    case True
    with 1(2) show ?thesis by (auto simp: to_string_nat.simps [of n])
  next
    case False
    with 1(2) have "c \<in> set (to_string_nat (n div 10)) \<or> c = digit_char (n mod 10)"
      by (auto simp: to_string_nat.simps [of n])
    moreover have "n mod 10 < 10" by simp
    ultimately show ?thesis using 1(1) False by blast
  qed
qed

lemma to_string_nat_no_sep:
  assumes "(of_char c :: nat) < 48 \<or> 57 < (of_char c :: nat)"
  shows "c \<notin> set (to_string_nat n)"
proof
  assume "c \<in> set (to_string_nat n)"
  then obtain d where "d < 10" "c = digit_char d" using to_string_nat_digits by blast
  with assms show False by auto
qed

lemma to_string_nat_no_dot [simp]: "CHR ''.'' \<notin> set (to_string_nat n)"
  and to_string_nat_no_colon [simp]: "CHR '':'' \<notin> set (to_string_nat n)"
  by (rule to_string_nat_no_sep, simp)+

lemma to_string_nat_small: "n < 10 \<Longrightarrow> to_string_nat n = [digit_char n]"
  by (simp add: to_string_nat.simps)

section \<open>Containers\<close>

text \<open>
  The interface the clients of a C++ map rely on: \<open>get\<close> is \<open>find\<close>, \<open>put\<close> is assignment
  through \<open>operator[]\<close>, and \<open>inv\<close> is the representation invariant.
\<close>

locale cpp_map =
  fixes mempty :: "'m"
    and get :: "'m \<Rightarrow> 'k \<Rightarrow> 'v option"
    and put :: "'k \<Rightarrow> 'v \<Rightarrow> 'm \<Rightarrow> 'm"
    and inv :: "'m \<Rightarrow> bool"
  assumes get_empty: "get mempty k = None"
    and get_put: "inv m \<Longrightarrow> get (put k v m) = (get m)(k \<mapsto> v)"
    and inv_empty: "inv mempty"
    and inv_put: "inv m \<Longrightarrow> inv (put k v m)"
begin

lemma get_put_same: "inv m \<Longrightarrow> get (put k v m) k = Some v"
  by (simp add: get_put)

lemma get_put_other: "inv m \<Longrightarrow> k' \<noteq> k \<Longrightarrow> get (put k v m) k' = get m k'"
  by (simp add: get_put)

lemma dom_put: "inv m \<Longrightarrow> dom (get (put k v m)) = insert k (dom (get m))"
  by (simp add: get_put)

lemma inv_fold_put: "inv m \<Longrightarrow> inv (fold (\<lambda>(k, v). put k v) kvs m)"
  by (induction kvs arbitrary: m) (auto simp: inv_put)

lemma dom_fold_put:
  "inv m \<Longrightarrow> dom (get (fold (\<lambda>(k, v). put k v) kvs m)) = dom (get m) \<union> fst ` set kvs"
  by (induction kvs arbitrary: m) (simp_all add: inv_put dom_put split_beta)

end

text \<open>
  \<open>std::unordered_map\<close>: a finite map whose iteration order is unspecified. \<open>um_index\<close> is
  \<open>operator[]\<close> used as an rvalue: it inserts the value-initialised element when the key is
  missing.
\<close>

type_synonym ('k, 'v) umap = "'k \<rightharpoonup> 'v"

definition um_put :: "'k \<Rightarrow> 'v \<Rightarrow> ('k, 'v) umap \<Rightarrow> ('k, 'v) umap" where
  "um_put k v m = m(k \<mapsto> v)"

definition um_touch :: "'v \<Rightarrow> 'k \<Rightarrow> ('k, 'v) umap \<Rightarrow> ('k, 'v) umap" where
  "um_touch z k m = (case m k of None \<Rightarrow> m(k \<mapsto> z) | Some _ \<Rightarrow> m)"

definition um_value :: "'v \<Rightarrow> 'k \<Rightarrow> ('k, 'v) umap \<Rightarrow> 'v" where
  "um_value z k m = (case m k of None \<Rightarrow> z | Some v \<Rightarrow> v)"

interpretation um: cpp_map Map.empty "\<lambda>m k. m k" um_put "\<lambda>m. finite (dom m)"
  by unfold_locales (auto simp: um_put_def)

lemma um_touch_apply [simp, cpp_simps]:
  "um_touch z k m k' = (if k' = k \<and> m k = None then Some z else m k')"
  by (auto simp: um_touch_def split: option.splits)

lemma um_value_touch [simp, cpp_simps]: "um_value z k' (um_touch z k m) = um_value z k' m"
  by (auto simp: um_value_def um_touch_def split: option.splits)

lemma um_value_put [simp, cpp_simps]:
  "um_value z k' (um_put k v m) = (if k' = k then v else um_value z k' m)"
  by (simp add: um_value_def um_put_def)

lemma um_value_empty [simp, cpp_simps]: "um_value z k Map.empty = z"
  by (simp add: um_value_def)

lemma dom_um_touch [simp]: "dom (um_touch z k m) = insert k (dom m)"
  by (auto simp: um_touch_def split: option.splits)

lemma dom_um_put [simp]: "dom (um_put k v m) = insert k (dom m)"
  by (simp add: um_put_def)

text \<open>\<open>std::map\<close>: iterated in increasing order of the keys.\<close>

type_synonym ('k, 'v) omap = "('k \<times> 'v) list"

fun om_put :: "'k::linorder \<Rightarrow> 'v \<Rightarrow> ('k, 'v) omap \<Rightarrow> ('k, 'v) omap" where
  "om_put k v [] = [(k, v)]"
| "om_put k v ((k', v') # m) =
     (if k < k' then (k, v) # (k', v') # m
      else if k = k' then (k, v) # m
      else (k', v') # om_put k v m)"

definition om_inv :: "('k::linorder, 'v) omap \<Rightarrow> bool" where
  "om_inv m \<longleftrightarrow> sorted_wrt (<) (map fst m)"

lemma om_put_keys: "set (map fst (om_put k v m)) = insert k (set (map fst m))"
  by (induction k v m rule: om_put.induct) auto

lemma om_put_inv: "om_inv m \<Longrightarrow> om_inv (om_put k v m)"
proof (induction m)
  case Nil
  then show ?case by (simp add: om_inv_def)
next
  case (Cons kv m)
  then have "om_inv (om_put k v m)" by (simp add: om_inv_def)
  moreover have "set (map fst (om_put k v m)) = insert k (set (map fst m))"
    by (rule om_put_keys)
  ultimately show ?case using Cons.prems
    by (cases kv) (force simp: om_inv_def)
qed

lemma map_of_om_put: "om_inv m \<Longrightarrow> map_of (om_put k v m) = (map_of m)(k \<mapsto> v)"
proof (induction m)
  case Nil
  then show ?case by simp
next
  case (Cons kv m)
  obtain k' v' where kv: "kv = (k', v')" by (cases kv)
  have "k < k' \<Longrightarrow> map_of m k = None"
    using Cons.prems kv by (fastforce simp: om_inv_def map_of_eq_None_iff)
  then show ?case using Cons kv
    by (auto simp: om_inv_def fun_eq_iff)
qed

interpretation om: cpp_map "[]" map_of om_put om_inv
  by unfold_locales (simp_all add: map_of_om_put om_put_inv, simp add: om_inv_def)

lemma om_put_values: "set (map snd (om_put k v m)) \<subseteq> insert v (set (map snd m))"
  by (induction k v m rule: om_put.induct) auto

lemma om_put_length: "length (om_put k v m) \<le> Suc (length m)"
  by (induction m) auto

section \<open>Floating point\<close>

text \<open>
  Round to nearest, ties to even, to a significand of \<open>p\<close> bits. The exponent range is not
  bounded: the quantities of the model (megabits seen within one second) neither overflow
  nor come near the subnormal range.
\<close>

definition pow2 :: "int \<Rightarrow> rat" where
  "pow2 e = (if 0 \<le> e then 2 ^ nat e else 1 / 2 ^ nat (- e))"

definition round_half_even :: "rat \<Rightarrow> int" where
  "round_half_even x =
     (let f = \<lfloor>x\<rfloor>; r = x - of_int f
      in if r < 1 / 2 then f else if 1 / 2 < r then f + 1 else if even f then f else f + 1)"

definition fl_exp :: "rat \<Rightarrow> int" where
  "fl_exp x =
     (let (a, b) = quotient_of x; e = bitlen a - bitlen b
      in if x < pow2 e then e - 1 else e)"

definition fl_round :: "nat \<Rightarrow> rat \<Rightarrow> rat" where
  "fl_round p x =
     (if x = 0 then 0
      else let e = fl_exp \<bar>x\<bar> - (int p - 1)
           in of_int (round_half_even (x / pow2 e)) * pow2 e)"

definition double_round :: "rat \<Rightarrow> rat" where
  "double_round x = fl_round 53 x"

definition ldouble_round :: "rat \<Rightarrow> rat" where
  "ldouble_round x = fl_round 64 x"

text \<open>Conversion of a floating value to \<open>int\<close>: truncation, undefined outside the range.\<close>

definition ld_to_int :: "rat \<Rightarrow> int option" where
  "ld_to_int x =
     (let i = (if x < 0 then \<lceil>x\<rceil> else \<lfloor>x\<rfloor>)
      in if - INT_MAX - 1 \<le> i \<and> i \<le> INT_MAX then Some i else None)"

lemma pow2_pos [simp]: "0 < pow2 e"
  by (simp add: pow2_def)

lemma round_half_even_nonneg: "0 \<le> x \<Longrightarrow> 0 \<le> round_half_even x"
  by (auto simp: round_half_even_def Let_def)

lemma fl_round_zero [simp]: "fl_round p 0 = 0"
  by (simp add: fl_round_def)

lemma fl_round_nonneg: "0 \<le> x \<Longrightarrow> 0 \<le> fl_round p x"
  unfolding fl_round_def Let_def
  by (simp add: round_half_even_nonneg mult_nonneg_nonneg less_imp_le del: mult_le_0_iff)

lemma ldouble_round_nonneg: "0 \<le> x \<Longrightarrow> 0 \<le> ldouble_round x"
  by (simp add: ldouble_round_def fl_round_nonneg)

lemma double_round_nonneg: "0 \<le> x \<Longrightarrow> 0 \<le> double_round x"
  by (simp add: double_round_def fl_round_nonneg)

lemma pow2_power_int: "pow2 e = power_int 2 e"
  by (simp add: pow2_def power_int_def power_one_over inverse_eq_divide)

lemma fl_exp_lower: assumes "0 < x" shows "pow2 (fl_exp x) \<le> x"
proof -
  obtain a b where ab: "quotient_of x = (a, b)" by fastforce
  have b: "0 < b" using quotient_of_denom_pos [OF ab] .
  have x: "x = of_int a / of_int b" using quotient_of_div [OF ab] .
  have a: "0 < a" using assms b unfolding x by (simp add: zero_less_divide_iff)
  have la: "2 ^ nat (bitlen a - 1) \<le> a" using bitlen_bounds [OF a] by simp
  have lb: "b < 2 ^ nat (bitlen b)" using bitlen_bounds [OF b] by simp
  have "pow2 (bitlen a - bitlen b - 1) = pow2 (bitlen a - 1) / pow2 (bitlen b)"
    by (simp add: pow2_power_int power_int_diff)
  also have "\<dots> \<le> of_int a / of_int b"
  proof (rule frac_le)
    show "pow2 (bitlen a - 1) \<le> of_int a"
      using la bitlen_nonneg [of a] a by (simp add: pow2_def)
    show "(of_int b :: rat) \<le> pow2 (bitlen b)"
      using lb bitlen_nonneg [of b] by (simp add: pow2_def)
  qed (use a b in auto)
  finally have low: "pow2 (bitlen a - bitlen b - 1) \<le> x" by (simp add: x)
  show ?thesis
    using low by (simp add: fl_exp_def ab Let_def)
qed

lemma round_half_even_error: "\<bar>of_int (round_half_even x) - x\<bar> \<le> 1 / 2"
proof -
  have "of_int \<lfloor>x\<rfloor> \<le> x" "x < of_int \<lfloor>x\<rfloor> + 1" by linarith+
  then show ?thesis
    unfolding round_half_even_def Let_def by (auto simp: abs_le_iff)
qed

lemma fl_round_bound: "\<bar>fl_round (Suc p) x\<bar> \<le> 2 * \<bar>x\<bar>"
proof (cases "x = 0")
  case False
  let ?e = "fl_exp \<bar>x\<bar> - int p"
  let ?r = "of_int (round_half_even (x / pow2 ?e)) :: rat"
  have "pow2 ?e \<le> pow2 (fl_exp \<bar>x\<bar>)"
    unfolding pow2_power_int by (rule power_int_increasing) simp_all
  also have "\<dots> \<le> \<bar>x\<bar>" by (rule fl_exp_lower) (use False in simp)
  finally have e: "pow2 ?e \<le> \<bar>x\<bar>" .
  have "fl_round (Suc p) x = ?r * pow2 ?e"
    using False by (simp add: fl_round_def Let_def)
  then have "fl_round (Suc p) x - x = (?r - x / pow2 ?e) * pow2 ?e"
    using less_imp_neq [OF pow2_pos [of ?e]] by (simp add: left_diff_distrib)
  then have "\<bar>fl_round (Suc p) x - x\<bar> = \<bar>?r - x / pow2 ?e\<bar> * pow2 ?e"
    by (simp add: abs_mult less_imp_le)
  also have "\<dots> \<le> 1 / 2 * pow2 ?e"
    by (intro mult_right_mono round_half_even_error less_imp_le pow2_pos)
  finally show ?thesis using e by (auto simp: abs_if split: if_splits)
qed simp

lemma ldouble_round_bound: "\<bar>ldouble_round x\<bar> \<le> 2 * \<bar>x\<bar>"
  using fl_round_bound [of 63 x] by (simp add: ldouble_round_def)

lemma double_round_bound: "\<bar>double_round x\<bar> \<le> 2 * \<bar>x\<bar>"
  using fl_round_bound [of 52 x] by (simp add: double_round_def)

lemma ld_to_int_defined:
  assumes "\<bar>x\<bar> \<le> 2147483647"
  shows "\<exists>i. ld_to_int x = Some i \<and> \<bar>i\<bar> \<le> INT_MAX"
proof -
  have "- 2147483647 \<le> \<lceil>x\<rceil>" "\<lceil>x\<rceil> \<le> 2147483647" "- 2147483647 \<le> \<lfloor>x\<rfloor>" "\<lfloor>x\<rfloor> \<le> 2147483647"
    using assms by (simp_all add: ceiling_le_iff le_floor_iff le_ceiling_iff floor_le_iff abs_le_iff)
  then show ?thesis unfolding ld_to_int_def Let_def INT_MAX_def
    by (cases "x < 0") (simp_all only: if_True if_False, simp_all, linarith+) 
qed

end
