(* ===== verification/Packet_Buffer.thy ===== *)
theory Packet_Buffer
  imports Cpp_Prelude
begin

text \<open>
  The view of \<open>Packet\<close> (\<open>src/click/include/click/packet.hh\<close>) the classifiers have: the bytes
  from \<open>data()\<close> to the end of the underlying buffer, and the number of them that belong to
  the packet, \<open>length()\<close>. Bytes past \<open>length()\<close> are tail room: reading them is a defined
  access with an unspecified value; reading past the buffer is undefined behaviour.
\<close>

record packet =
  pbuf :: "byte list"
  plen :: nat

text \<open>\<open>length()\<close> is a 32-bit number.\<close>

definition plength :: "packet \<Rightarrow> u32" where
  "plength p = of_nat (plen p)"

definition packet_ok :: "packet \<Rightarrow> bool" where
  "packet_ok p \<longleftrightarrow> plen p \<le> length (pbuf p) \<and> length (pbuf p) < 2 ^ 31"

definition rd :: "packet \<Rightarrow> nat \<Rightarrow> byte option" where
  "rd p k = (if k < length (pbuf p) then Some (pbuf p ! k) else None)"

definition byte_is :: "packet \<Rightarrow> nat \<Rightarrow> byte \<Rightarrow> bool option" where
  "byte_is p k v = map_option (\<lambda>b. b = v) (rd p k)"

lemma rd_defined [simp]: "k < length (pbuf p) \<Longrightarrow> rd p k = Some (pbuf p ! k)"
  by (simp add: rd_def)

lemma rd_undefined: "length (pbuf p) \<le> k \<Longrightarrow> rd p k = None"
  by (simp add: rd_def)

lemma byte_is_defined [simp]: "k < length (pbuf p) \<Longrightarrow> byte_is p k v = Some (pbuf p ! k = v)"
  by (simp add: byte_is_def)

text \<open>
  \<open>memmem\<close>: whether the needle occurs in the \<open>n\<close> bytes that start at offset \<open>off\<close>. Handing
  it a region that is not inside the buffer is undefined.
\<close>

fun occurs_in :: "'a list \<Rightarrow> 'a list \<Rightarrow> bool" where
  "occurs_in needle [] = (needle = [])"
| "occurs_in needle (x # hay) =
     (take (length needle) (x # hay) = needle \<or> occurs_in needle hay)"

definition memmem :: "packet \<Rightarrow> nat \<Rightarrow> nat \<Rightarrow> byte list \<Rightarrow> bool option" where
  "memmem p off n needle =
     (if off + n \<le> length (pbuf p)
      then Some (occurs_in needle (take n (drop off (pbuf p)))) else None)"

lemma occurs_in_iff: "occurs_in needle hay \<longleftrightarrow> (\<exists>ps ss. hay = ps @ needle @ ss)"
proof (induction hay)
  case Nil
  then show ?case by auto
next
  case (Cons x hay)
  have pre: "take (length needle) (x # hay) = needle \<longleftrightarrow> (\<exists>ss. x # hay = needle @ ss)"
    by (metis append_eq_conv_conj append_take_drop_id)
  have post: "(\<exists>ps ss. x # hay = ps @ needle @ ss) \<longleftrightarrow>
      (\<exists>ss. x # hay = needle @ ss) \<or> (\<exists>ps ss. hay = ps @ needle @ ss)"
    by (metis append_Cons append_Nil list.sel(3) neq_Nil_conv)
  show ?case using Cons pre post by simp
qed

end
