(* ===== verification/Ersa_Classifier.thy ===== *)
theory Ersa_Classifier
  imports Packet_Buffer
begin

text \<open>
  The measurement-tool classifier of the repository, \<open>src/classifier.cc\<close> and
  \<open>src/classifier.hh\<close>: \<open>Classifier::push\<close> watches the traffic, builds a burst profile of
  the last seconds, and sends each packet to output 0 (the throttled link) or to output 1
  (the unthrottled link) when it believes that the packet belongs to a bandwidth
  measurement. \<open>is_flagged_ips\<close> is a static member, one table for all classifier elements
  of the router; the other members belong to one element.
\<close>

section \<open>State\<close>

type_synonym flag_table = "(string, bool) umap"

record classifier =
  behavior_definitions :: "(string, bool) umap"
  time_burst_map :: "(int, rat) umap"
  current_behavior_map :: "(int, int) omap"
  found_first_burst :: bool
  burst_threshold :: int
  low_burst_rate_counter :: int
  max_m_bits_per_second :: rat
  start_burst :: int
  observation_threshold :: int
  throttled_counter :: int
  unthrottled_counter :: int

text \<open>What a call does besides changing the state, in program order.\<close>

datatype effect =
    Cout_behavior string
  | Print_statistics int int flag_table
  | Output_push nat packet

text \<open>The library of burst profiles the constructor installs.\<close>

definition behavior_library :: "string list" where
  "behavior_library = [
    ''20111'', ''201111111'', ''20111111111'', ''20111111111001'', ''21111'', ''211111'',
    ''2111111'', ''21111111'', ''211111111'', ''2111111111'', ''21111111111'',
    ''211111111111'', ''2111111111111110'', ''222121'', ''2221212100'', ''222121210021'',
    ''2221212100212'', ''222121210021211'', ''2221212100212112'', ''22212121002121121'',
    ''21011'', ''2101100'', ''2101100012'', ''2101100012111'', ''2101100012111111'',
    ''21011000121111110'', ''21011'', ''21011000'', ''210110001'', ''2101100012'',
    ''21011000121'', ''210110001211'', ''2101100012111'', ''21011000121111'',
    ''210110001211111'', ''2101100012111111'', ''21111'', ''211111'', ''2111112'',
    ''21111120'', ''211111200'', ''2111112000'', ''21111120001'', ''211111200011'',
    ''2111112000111'', ''2000'', ''20001'', ''200011'', ''2000110'', ''20001100'',
    ''200011001'', ''2000110012'', ''20001100120'', ''200011001201'', ''2000110012011'',
    ''20001100120110'', ''20211'', ''202111'', ''2021112'', ''20211121'', ''202111211'',
    ''2021112111'', ''20211121110'', ''202111211101'', ''2021112111011'', ''20211121110111'',
    ''202111211101110'', ''2021112111011100'', ''20111'', ''201112'', ''2011121'',
    ''20111211'', ''201112112'', ''2011121121'', ''20111211210'', ''201112112102'',
    ''2011121121021'', ''20111211210210'', ''201112112102100'', ''2011121121021001'',
    ''20111211210210011'', ''201112112102100111'', ''2011121121021001111'',
    ''20111211210210011111'', ''201112112102100111111'', ''2011121121021001111111'',
    ''20111211210210011111111'', ''201112112102100111111111'', ''2011121121021001111111110'']"

definition new_classifier :: classifier where
  "new_classifier = \<lparr>
     behavior_definitions = fold (\<lambda>(k, v). um_put k v) (map (\<lambda>b. (b, True)) behavior_library) Map.empty,
     time_burst_map = Map.empty,
     current_behavior_map = [],
     found_first_burst = True,
     burst_threshold = 10,
     low_burst_rate_counter = 0,
     max_m_bits_per_second = 0,
     start_burst = 0,
     observation_threshold = 30,
     throttled_counter = 0,
     unthrottled_counter = 0\<rparr>"

text \<open>The host names searched for in a TLS hello, in the order of the disjunction.\<close>

definition bytes_of_string :: "string \<Rightarrow> byte list" where
  "bytes_of_string s = map (\<lambda>c. of_nat (of_char c)) s"

definition tool_host_names :: "byte list list" where
  "tool_host_names = map bytes_of_string
    [''cdn.speedof.me'',
     ''speedof.me'',
     ''fast.com'',
     ''api.fast.com'',
     ''ichnaea-web.netflix.com'',
     ''oca.nflxvideo.net'',
     ''www.speedcheck.org'',
     ''cdn.speedcheck.org'',
     ''api.speedspot.org'',
     ''b1.etrality.com'',
     ''www.speedtest.net'',
     ''b.cdnst.net'',
     ''cdn.ziffstatic.com'',
     ''www.googletagmanager.com'',
     ''d3div1mtym39ic.cloudfront.net'',
     ''c.amazon-adsystem.com'',
     ''acdn.adnxs.com'',
     ''contextual.media.net'',
     ''image6.pubmatic.com'',
     ''simage4.pubmatic.com'']"

section \<open>Helpers\<close>

fun get_ip_string :: "byte list \<Rightarrow> string" where
  "get_ip_string [] = []"
| "get_ip_string [b] = to_string_nat (unat b)"
| "get_ip_string (b # bs) = to_string_nat (unat b) @ CHR ''.'' # get_ip_string bs"

definition get_current_behavior_string :: "classifier \<Rightarrow> string" where
  "get_current_behavior_string c = concat (map (\<lambda>(_, v). to_string_int v) (current_behavior_map c))"

text \<open>
  The session id bytes are copied into an array of \<open>char\<close>, which is signed on the host, so
  each of them is printed as a signed number.
\<close>

fun read_bytes :: "packet \<Rightarrow> nat \<Rightarrow> nat \<Rightarrow> byte list option" where
  "read_bytes p k 0 = Some []"
| "read_bytes p k (Suc n) =
     (case rd p k of None \<Rightarrow> None | Some b \<Rightarrow> map_option (Cons b) (read_bytes p (Suc k) n))"

definition get_tls_session_id :: "packet \<Rightarrow> string option" where
  "get_tls_session_id p = do {
     n \<leftarrow> rd p 97;
     curr_chars \<leftarrow> read_bytes p 98 (unat n);
     Some (concat (map (\<lambda>b. to_string_int (sint b)) curr_chars))
   }"

text \<open>
  The lines written to the console and to the statistics file. The order in which an
  \<open>unordered_map\<close> is iterated is unspecified: \<open>keys\<close> is that order.
\<close>

definition print_statistics :: "string list \<Rightarrow> int \<Rightarrow> int \<Rightarrow> string list" where
  "print_statistics keys throttled unthrottled =
     [''# THROTTLED PACKETS: '' @ to_string_int throttled,
      ''# UNTHROTTLED PACKETS: '' @ to_string_int unthrottled,
      ''BANDWIDTH MEASUREMENT TOOL IPS: ''] @ keys"

section \<open>Reading the packet\<close>

definition is_tcp :: "packet \<Rightarrow> bool option" where
  "is_tcp p = sc_and (byte_is p 12 0x08) (sc_and (byte_is p 13 0x00) (byte_is p 23 0x06))"

definition is_udp :: "packet \<Rightarrow> bool option" where
  "is_udp p = sc_and (byte_is p 12 0x08) (sc_and (byte_is p 13 0x00) (byte_is p 23 0x11))"

definition is_dns :: "bool \<Rightarrow> bool \<Rightarrow> packet \<Rightarrow> bool option" where
  "is_dns tcp udp p =
     sc_and (Some (tcp \<or> udp)) (sc_and (byte_is p 44 0x01) (byte_is p 45 0x00))"

definition flow_key :: "string \<Rightarrow> string \<Rightarrow> string" where
  "flow_key a b = a @ '':'' @ b"

definition looks_like_hello :: "bool \<Rightarrow> packet \<Rightarrow> bool option" where
  "looks_like_hello tcp p =
     sc_and (Some tcp) (sc_and (Some (56 < plen p)) (sc_and (byte_is p 55 0x03)
       (sc_or (byte_is p 56 0x00) (sc_or (byte_is p 56 0x01) (byte_is p 56 0x02)))))"

definition tls_length :: "packet \<Rightarrow> nat option" where
  "tls_length p = do {
     lo \<leftarrow> rd p 57;
     hi \<leftarrow> rd p 58;
     let l = unat lo + 256 * unat hi;
     Some (if plen p < l then plen p else l)
   }"

fun any_host_name :: "packet \<Rightarrow> nat \<Rightarrow> byte list list \<Rightarrow> bool option" where
  "any_host_name p n [] = Some False"
| "any_host_name p n (h # hs) = sc_or (memmem p 57 n h) (any_host_name p n hs)"

definition is_measurement_tool_hello :: "bool \<Rightarrow> packet \<Rightarrow> bool option" where
  "is_measurement_tool_hello tcp p = do {
     hello \<leftarrow> looks_like_hello tcp p;
     if hello then do {
       n \<leftarrow> tls_length p;
       any_host_name p n tool_host_names
     } else Some False
   }"

section \<open>The burst profile\<close>

text \<open>
  \<open>operator[]\<close> never throws, so the handler for \<open>out_of_range\<close> in the source is never
  entered: the entry of the current second exists, with value 0 at first, after the \<open>try\<close>.
\<close>

definition packet_m_bits :: "packet \<Rightarrow> rat" where
  "packet_m_bits p = double_round (of_nat ((plen p * 8) mod 2 ^ 32) / 1000000)"

definition account_packet :: "int \<Rightarrow> packet \<Rightarrow> classifier \<Rightarrow> classifier" where
  "account_packet now p c =
     (let tb = um_touch 0 now (time_burst_map c);
          rate = ldouble_round (um_value 0 now tb + packet_m_bits p);
          c = c\<lparr>time_burst_map := um_put now rate tb\<rparr>
      in if max_m_bits_per_second c < rate then c\<lparr>max_m_bits_per_second := rate\<rparr> else c)"

definition cpp_abs :: "int \<Rightarrow> int option" where
  "cpp_abs i = (if i = - INT_MAX - 1 then None else Some \<bar>i\<bar>)"

text \<open>0: decrease, 1: constant, 2: increase.\<close>

definition burst_behavior :: "int \<Rightarrow> int \<Rightarrow> int option" where
  "burst_behavior threshold difference = do {
     a \<leftarrow> cpp_abs difference;
     let increased_rate = threshold < a \<and> 0 < difference;
     let decreased_rate = a < threshold \<and> difference < 0;
     Some (if increased_rate then 2 else if decreased_rate then 0 else 1)
   }"

definition track_behavior :: "int \<Rightarrow> classifier \<Rightarrow> classifier option" where
  "track_behavior now c =
     (if 0 < um_value 0 now (time_burst_map c) then do {
        let tb = um_touch 0 (now - 1) (time_burst_map c);
        burst_difference \<leftarrow> ld_to_int (ldouble_round (um_value 0 now tb - um_value 0 (now - 1) tb));
        curr_behavior \<leftarrow> burst_behavior (burst_threshold c) burst_difference;
        let c = c\<lparr>time_burst_map := tb\<rparr>;
        let c = (if curr_behavior = 2 \<and> found_first_burst c
                 then c\<lparr>current_behavior_map := [], found_first_burst := False\<rparr> else c);
        Some (c\<lparr>current_behavior_map := om_put now curr_behavior (current_behavior_map c)\<rparr>)
      } else Some c)"

definition count_low_rate :: "int \<Rightarrow> classifier \<Rightarrow> classifier option" where
  "count_low_rate now c =
     (if um_value 0 now (time_burst_map c) < 1 then do {
        n \<leftarrow> int_inc (low_burst_rate_counter c);
        Some (c\<lparr>low_burst_rate_counter := n\<rparr>)
      } else Some c)"

section \<open>The observation window\<close>

definition observation_over :: "int \<Rightarrow> classifier \<Rightarrow> bool" where
  "observation_over now c \<longleftrightarrow>
     (0 < start_burst c \<and> observation_threshold c < now - start_burst c) \<or>
     observation_threshold c < int (length (current_behavior_map c))"

definition reset_observation :: "classifier \<Rightarrow> classifier" where
  "reset_observation c = c\<lparr>
     found_first_burst := True,
     low_burst_rate_counter := 0,
     start_burst := 0,
     throttled_counter := 0,
     unthrottled_counter := 0,
     current_behavior_map := []\<rparr>"

definition throttle :: "packet \<Rightarrow> flag_table \<Rightarrow> classifier \<Rightarrow> effect list
    \<Rightarrow> (flag_table \<times> classifier \<times> effect list) option" where
  "throttle p g c es = do {
     n \<leftarrow> int_inc (throttled_counter c);
     Some (g, c\<lparr>throttled_counter := n\<rparr>, es @ [Output_push 0 p])
   }"

definition unthrottle :: "packet \<Rightarrow> flag_table \<Rightarrow> classifier \<Rightarrow> effect list
    \<Rightarrow> (flag_table \<times> classifier \<times> effect list) option" where
  "unthrottle p g c es = do {
     n \<leftarrow> int_inc (unthrottled_counter c);
     Some (g, c\<lparr>unthrottled_counter := n\<rparr>, es @ [Output_push 1 p])
   }"

definition flag_flow :: "string \<Rightarrow> string \<Rightarrow> flag_table \<Rightarrow> flag_table" where
  "flag_flow k1 k2 g = um_put k2 True (um_put k1 True g)"

definition start_observation :: "int \<Rightarrow> classifier \<Rightarrow> classifier" where
  "start_observation now c = (if start_burst c = 0 then c\<lparr>start_burst := now\<rparr> else c)"

text \<open>
  \<open>is_flagged_ips[k1] || is_flagged_ips[k2]\<close>: both subscripts may insert the key with the
  value false, the second only when the first is not flagged.
\<close>

definition lookup_flow :: "string \<Rightarrow> string \<Rightarrow> flag_table \<Rightarrow> bool \<times> flag_table" where
  "lookup_flow k1 k2 g =
     (let g1 = um_touch False k1 g in
      if um_value False k1 g1 then (True, g1)
      else let g2 = um_touch False k2 g1 in (um_value False k2 g2, g2))"

section \<open>Classifier::push\<close>

definition iperf_ip :: string where
  "iperf_ip = ''45.147.210.189''"

definition push_observed :: "int \<Rightarrow> packet \<Rightarrow> bool \<Rightarrow> string \<Rightarrow> string \<Rightarrow> string
    \<Rightarrow> flag_table \<Rightarrow> classifier \<Rightarrow> effect list
    \<Rightarrow> (flag_table \<times> classifier \<times> effect list) option" where
  "push_observed now p tcp curr_behavior k1 k2 g c es = do {
     let over = observation_over now c;
     let es = (if over then es @ [Print_statistics (throttled_counter c) (unthrottled_counter c) g] else es);
     let g = (if over then Map.empty else g);
     let c = (if over then reset_observation c else c);
     let (flagged, g) = lookup_flow k1 k2 g;
     if flagged then unthrottle p g c es
     else do {
       hello \<leftarrow> is_measurement_tool_hello tcp p;
       if hello then unthrottle p (flag_flow k1 k2 g) (start_observation now c) es
       else if behavior_definitions c curr_behavior \<noteq> None
       then unthrottle p (flag_flow k1 k2 g) (start_observation now c) es
       else throttle p g c es
     }
   }"

definition push :: "int \<Rightarrow> packet \<Rightarrow> flag_table \<Rightarrow> classifier
    \<Rightarrow> (flag_table \<times> classifier \<times> effect list) option" where
  "push now p g c = do {
     tcp \<leftarrow> is_tcp p;
     udp \<leftarrow> is_udp p;
     dns \<leftarrow> is_dns tcp udp p;
     source_ip \<leftarrow> map_option get_ip_string (read_bytes p 26 4);
     destination_ip \<leftarrow> map_option get_ip_string (read_bytes p 30 4);
     let suspected_ips_1 = flow_key source_ip destination_ip;
     let suspected_ips_2 = flow_key destination_ip source_ip;
     let c = account_packet now p c;
     c \<leftarrow> track_behavior now c;
     let curr_behavior = get_current_behavior_string c;
     let es = [Cout_behavior curr_behavior];
     c \<leftarrow> count_low_rate now c;
     if source_ip = iperf_ip \<or> destination_ip = iperf_ip
     then unthrottle p (flag_flow suspected_ips_1 suspected_ips_2 g) c es
     else do {
       let is_other_protocol = (\<not> tcp \<and> \<not> udp) \<or> dns;
       if is_other_protocol \<or> 115 < low_burst_rate_counter c
       then throttle p g (if is_other_protocol then c else c\<lparr>low_burst_rate_counter := 0\<rparr>) es
       else push_observed now p tcp curr_behavior suspected_ips_1 suspected_ips_2 g c es
     }
   }"

section \<open>Addresses and flow keys\<close>

lemma get_ip_string_Cons2:
  "get_ip_string (a # b # bs) = to_string_nat (unat a) @ CHR ''.'' # get_ip_string (b # bs)"
  by simp

lemma to_string_nat_nonempty [simp]: "to_string_nat n \<noteq> []"
  by (simp add: to_string_nat.simps [of n])

lemma get_ip_string_no_colon [simp]: "CHR '':'' \<notin> set (get_ip_string bs)"
  by (induction bs rule: get_ip_string.induct) simp_all

lemma get_ip_string_single_no_dot:
  "get_ip_string [a] = to_string_nat (unat a)" "CHR ''.'' \<notin> set (get_ip_string [a])"
  by simp_all

lemma get_ip_string_inject: "get_ip_string as = get_ip_string bs \<longleftrightarrow> as = bs"
proof (induction as arbitrary: bs rule: get_ip_string.induct)
  case 1
  then show ?case by (cases bs rule: get_ip_string.cases) (auto dest: sym)
next
  case (2 a)
  show ?case
  proof (cases bs rule: get_ip_string.cases)
    case (3 b c cs)
    have "CHR ''.'' \<in> set (get_ip_string bs)" using 3 by simp
    then have "get_ip_string [a] \<noteq> get_ip_string bs"
      using get_ip_string_single_no_dot(2) [of a] by metis
    with 3 show ?thesis by simp
  qed (simp_all add: word_unat_eq_iff)
next
  case (3 a a' as)
  show ?case
  proof (cases bs rule: get_ip_string.cases)
    case (2 b)
    have "CHR ''.'' \<in> set (get_ip_string (a # a' # as))" by simp
    then have "get_ip_string (a # a' # as) \<noteq> get_ip_string bs"
      using get_ip_string_single_no_dot(2) [of b] 2 by metis
    with 2 show ?thesis by simp
  next
    case (3 b b' bs')
    then show ?thesis
      using "3.IH" [of "b' # bs'"] by (simp add: separator_append_eq word_unat_eq_iff)
  qed simp_all
qed

lemma flow_key_eq_iff:
  assumes "CHR '':'' \<notin> set a" "CHR '':'' \<notin> set a'"
  shows "flow_key a b = flow_key a' b' \<longleftrightarrow> a = a' \<and> b = b'"
  using assms by (simp add: flow_key_def separator_append_eq)

text \<open>
  C21: The key under which a flow is stored identifies its two endpoints: dotted-decimal
  strings built by \<open>get_ip_string\<close>, joined by a colon, are equal only for equal source and
  equal destination addresses. Flagging one pair of hosts never flags another one.
\<close>

theorem flow_key_identifies_flow:
  "flow_key (get_ip_string src) (get_ip_string dst) = flow_key (get_ip_string src') (get_ip_string dst')
     \<longleftrightarrow> src = src' \<and> dst = dst'"
  by (simp add: flow_key_eq_iff get_ip_string_inject)

section \<open>Reads inside the buffer\<close>

definition tcp_packet :: "packet \<Rightarrow> bool" where
  "tcp_packet p \<longleftrightarrow> pbuf p ! 12 = 8 \<and> pbuf p ! 13 = 0 \<and> pbuf p ! 23 = 6"

definition udp_packet :: "packet \<Rightarrow> bool" where
  "udp_packet p \<longleftrightarrow> pbuf p ! 12 = 8 \<and> pbuf p ! 13 = 0 \<and> pbuf p ! 23 = 0x11"

definition dns_packet :: "packet \<Rightarrow> bool" where
  "dns_packet p \<longleftrightarrow> (tcp_packet p \<or> udp_packet p) \<and> pbuf p ! 44 = 1 \<and> pbuf p ! 45 = 0"

definition other_protocol :: "packet \<Rightarrow> bool" where
  "other_protocol p \<longleftrightarrow> (\<not> tcp_packet p \<and> \<not> udp_packet p) \<or> dns_packet p"

definition source_of :: "packet \<Rightarrow> string" where
  "source_of p = get_ip_string (take 4 (drop 26 (pbuf p)))"

definition destination_of :: "packet \<Rightarrow> string" where
  "destination_of p = get_ip_string (take 4 (drop 30 (pbuf p)))"

definition forward_key :: "packet \<Rightarrow> string" where
  "forward_key p = flow_key (source_of p) (destination_of p)"

definition backward_key :: "packet \<Rightarrow> string" where
  "backward_key p = flow_key (destination_of p) (source_of p)"

lemma read_bytes_eq:
  "k + n \<le> length (pbuf p) \<Longrightarrow> read_bytes p k n = Some (take n (drop k (pbuf p)))"
proof (induction n arbitrary: k)
  case 0
  then show ?case by simp
next
  case (Suc n)
  then have "k < length (pbuf p)" by simp
  then have "drop k (pbuf p) = pbuf p ! k # drop (Suc k) (pbuf p)" by (rule Cons_nth_drop_Suc [symmetric])
  with Suc show ?case by simp
qed

lemma read_bytes_undefined: "length (pbuf p) < k + n \<Longrightarrow> 0 < n \<Longrightarrow> read_bytes p k n = None"
proof (induction n arbitrary: k)
  case 0
  then show ?case by simp
next
  case (Suc n)
  then show ?case by (cases n) (auto simp: rd_def split: option.splits)
qed

lemma header_reads:
  assumes "46 \<le> length (pbuf p)"
  shows "is_tcp p = Some (tcp_packet p)"
    and "is_udp p = Some (udp_packet p)"
    and "is_dns (tcp_packet p) (udp_packet p) p = Some (dns_packet p)"
    and "map_option get_ip_string (read_bytes p 26 4) = Some (source_of p)"
    and "map_option get_ip_string (read_bytes p 30 4) = Some (destination_of p)"
  using assms
  by (simp_all add: is_tcp_def is_udp_def is_dns_def tcp_packet_def udp_packet_def dns_packet_def
      source_of_def destination_of_def read_bytes_eq)

text \<open>The state just before the verdict.\<close>

definition observed :: "int \<Rightarrow> packet \<Rightarrow> classifier \<Rightarrow> classifier option" where
  "observed now p c = do {
     c1 \<leftarrow> track_behavior now (account_packet now p c);
     count_low_rate now c1
   }"

lemma count_low_rate_Some:
  "count_low_rate now c = Some c' \<Longrightarrow>
     c' = c\<lparr>low_burst_rate_counter := low_burst_rate_counter c'\<rparr>"
  by (auto simp: count_low_rate_def split: if_splits Option.bind_splits)

lemma count_low_rate_behavior:
  "count_low_rate now c = Some c' \<Longrightarrow>
     get_current_behavior_string c' = get_current_behavior_string c"
  by (auto simp: count_low_rate_def get_current_behavior_string_def split: if_splits Option.bind_splits)

lemma push_eq:
  assumes "46 \<le> length (pbuf p)"
  shows "push now p g c = do {
     c \<leftarrow> observed now p c;
     let es = [Cout_behavior (get_current_behavior_string c)];
     if source_of p = iperf_ip \<or> destination_of p = iperf_ip
     then unthrottle p (flag_flow (forward_key p) (backward_key p) g) c es
     else if other_protocol p \<or> 115 < low_burst_rate_counter c
     then throttle p g (if other_protocol p then c else c\<lparr>low_burst_rate_counter := 0\<rparr>) es
     else push_observed now p (tcp_packet p) (get_current_behavior_string c)
            (forward_key p) (backward_key p) g c es
   }"
proof (cases "track_behavior now (account_packet now p c)")
  case None
  then show ?thesis
    by (simp add: push_def observed_def header_reads [OF assms])
next
  case (Some c1)
  show ?thesis
  proof (cases "count_low_rate now c1")
    case None
    with Some show ?thesis
      by (simp add: push_def observed_def header_reads [OF assms])
  next
    case Some2: (Some c2)
    note beh = count_low_rate_behavior [OF Some2]
    show ?thesis
      using Some Some2
      by (simp add: push_def observed_def header_reads [OF assms] Let_def beh
          forward_key_def backward_key_def other_protocol_def)
  qed
qed

lemma push_needs_header: "push now p g c = Some r \<Longrightarrow> 34 \<le> length (pbuf p)"
  using read_bytes_undefined [of p 30 4]
  by (fastforce simp: push_def split: Option.bind_splits)

section \<open>The verdict\<close>

fun delivered :: "effect list \<Rightarrow> nat list" where
  "delivered [] = []"
| "delivered (Output_push port _ # es) = port # delivered es"
| "delivered (_ # es) = delivered es"

fun reports :: "effect list \<Rightarrow> flag_table list" where
  "reports [] = []"
| "reports (Print_statistics _ _ g # es) = g # reports es"
| "reports (_ # es) = reports es"

text \<open>
  What the classifier promises: a packet of the fixed iPerf3 server is unthrottled; other
  protocols and traffic in a slow phase are throttled; of the rest, a packet is
  unthrottled when its flow was flagged within the current observation, when it is a
  TLS hello for a known host, or when the burst profile is in the library.
\<close>

definition flow_flagged :: "flag_table \<Rightarrow> packet \<Rightarrow> bool" where
  "flow_flagged g p \<longleftrightarrow> um_value False (forward_key p) g \<or> um_value False (backward_key p) g"

definition tool_hello :: "packet \<Rightarrow> bool" where
  "tool_hello p \<longleftrightarrow> is_measurement_tool_hello (tcp_packet p) p = Some True"

definition verdict :: "int \<Rightarrow> packet \<Rightarrow> flag_table \<Rightarrow> classifier \<Rightarrow> nat" where
  "verdict now p g c =
     (if source_of p = iperf_ip \<or> destination_of p = iperf_ip then 1
      else if other_protocol p \<or> 115 < low_burst_rate_counter c then 0
      else if (\<not> observation_over now c \<and> flow_flagged g p) \<or> tool_hello p
        \<or> behavior_definitions c (get_current_behavior_string c) \<noteq> None then 1
      else 0)"

lemma delivered_append [simp]: "delivered (es @ fs) = delivered es @ delivered fs"
  by (induction es rule: delivered.induct) simp_all

lemma reports_append [simp]: "reports (es @ fs) = reports es @ reports fs"
  by (induction es rule: reports.induct) simp_all

lemma lookup_flow_flagged: "fst (lookup_flow k1 k2 g) \<longleftrightarrow> um_value False k1 g \<or> um_value False k2 g"
  by (simp add: lookup_flow_def Let_def)

lemma lookup_flow_keeps: "um_value False k (snd (lookup_flow k1 k2 g)) = um_value False k g"
  by (simp add: lookup_flow_def Let_def)

lemma lookup_flow_empty:
  "lookup_flow k1 k2 Map.empty = (False, um_touch False k2 (um_touch False k1 Map.empty))"
  by (simp add: lookup_flow_def Let_def)

lemma unthrottle_Some_iff:
  "unthrottle p g c es = Some r \<longleftrightarrow>
     unthrottled_counter c < INT_MAX \<and>
     r = (g, c\<lparr>unthrottled_counter := unthrottled_counter c + 1\<rparr>, es @ [Output_push 1 p])"
  by (auto simp: unthrottle_def int_inc_def)

lemma throttle_Some_iff:
  "throttle p g c es = Some r \<longleftrightarrow>
     throttled_counter c < INT_MAX \<and>
     r = (g, c\<lparr>throttled_counter := throttled_counter c + 1\<rparr>, es @ [Output_push 0 p])"
  by (auto simp: throttle_def int_inc_def)

lemma reset_observation_simps [simp]:
  "behavior_definitions (reset_observation c) = behavior_definitions c"
  "time_burst_map (reset_observation c) = time_burst_map c"
  "current_behavior_map (reset_observation c) = []"
  "start_burst (reset_observation c) = 0"
  "throttled_counter (reset_observation c) = 0"
  "unthrottled_counter (reset_observation c) = 0"
  "low_burst_rate_counter (reset_observation c) = 0"
  "burst_threshold (reset_observation c) = burst_threshold c"
  "observation_threshold (reset_observation c) = observation_threshold c"
  by (simp_all add: reset_observation_def)

lemma start_observation_simps [simp]:
  "behavior_definitions (start_observation now c) = behavior_definitions c"
  "time_burst_map (start_observation now c) = time_burst_map c"
  "current_behavior_map (start_observation now c) = current_behavior_map c"
  "throttled_counter (start_observation now c) = throttled_counter c"
  "unthrottled_counter (start_observation now c) = unthrottled_counter c"
  "low_burst_rate_counter (start_observation now c) = low_burst_rate_counter c"
  by (simp_all add: start_observation_def)

text \<open>The flag table and the state the verdict of \<open>push_observed\<close> is taken in.\<close>

definition window_table :: "int \<Rightarrow> flag_table \<Rightarrow> classifier \<Rightarrow> flag_table" where
  "window_table now g c = (if observation_over now c then Map.empty else g)"

definition window_state :: "int \<Rightarrow> classifier \<Rightarrow> classifier" where
  "window_state now c = (if observation_over now c then reset_observation c else c)"

definition window_report :: "int \<Rightarrow> flag_table \<Rightarrow> classifier \<Rightarrow> effect list" where
  "window_report now g c =
     (if observation_over now c then [Print_statistics (throttled_counter c) (unthrottled_counter c) g]
      else [])"

lemmas window_defs = window_table_def window_state_def window_report_def

lemma push_observed_cases:
  assumes "push_observed now p tcp b k1 k2 g c es = Some r"
  obtains (known) "um_value False k1 (window_table now g c) \<or> um_value False k2 (window_table now g c)"
      "unthrottle p (snd (lookup_flow k1 k2 (window_table now g c))) (window_state now c)
         (es @ window_report now g c) = Some r"
  | (fresh) hello where "\<not> um_value False k1 (window_table now g c)"
      "\<not> um_value False k2 (window_table now g c)"
      "is_measurement_tool_hello tcp p = Some hello" "hello \<or> behavior_definitions c b \<noteq> None"
      "unthrottle p (flag_flow k1 k2 (snd (lookup_flow k1 k2 (window_table now g c))))
         (start_observation now (window_state now c)) (es @ window_report now g c) = Some r"
  | (plain) "\<not> um_value False k1 (window_table now g c)"
      "\<not> um_value False k2 (window_table now g c)"
      "is_measurement_tool_hello tcp p = Some False" "behavior_definitions c b = None"
      "throttle p (snd (lookup_flow k1 k2 (window_table now g c))) (window_state now c)
         (es @ window_report now g c) = Some r"
proof -
  obtain fl g' where lf: "lookup_flow k1 k2 (window_table now g c) = (fl, g')" by fastforce
  then have fl: "fl \<longleftrightarrow> um_value False k1 (window_table now g c) \<or> um_value False k2 (window_table now g c)"
    using lookup_flow_flagged [of k1 k2 "window_table now g c"] by simp
  have bd: "behavior_definitions (window_state now c) = behavior_definitions c"
    by (simp add: window_state_def)
  have "push_observed now p tcp b k1 k2 g c es =
      (if fl then unthrottle p g' (window_state now c) (es @ window_report now g c)
       else do {
         hello \<leftarrow> is_measurement_tool_hello tcp p;
         if hello then unthrottle p (flag_flow k1 k2 g') (start_observation now (window_state now c))
                         (es @ window_report now g c)
         else if behavior_definitions c b \<noteq> None
         then unthrottle p (flag_flow k1 k2 g') (start_observation now (window_state now c))
                (es @ window_report now g c)
         else throttle p g' (window_state now c) (es @ window_report now g c)
       })"
    using lf by (cases "observation_over now c") (simp_all add: push_observed_def Let_def window_defs cong: if_cong)
  with assms fl lf bd show ?thesis
    by (cases fl) (auto split: Option.bind_splits if_splits intro: known fresh plain)
qed

lemma reports_window [simp]:
  "reports (window_report now g c) = (if observation_over now c then [g] else [])"
  by (simp add: window_report_def)

lemma delivered_window [simp]: "delivered (window_report now g c) = []"
  by (simp add: window_report_def)

lemma push_observed_verdict:
  assumes "push_observed now p (tcp_packet p) (get_current_behavior_string c)
      (forward_key p) (backward_key p) g c es = Some (g', c', es')"
  shows "delivered es' = delivered es @
      [if (\<not> observation_over now c \<and> flow_flagged g p) \<or> tool_hello p
         \<or> behavior_definitions c (get_current_behavior_string c) \<noteq> None then 1 else 0]"
  using assms
proof (cases rule: push_observed_cases)
  case known
  then have "\<not> observation_over now c \<and> flow_flagged g p"
    by (auto simp: window_table_def flow_flagged_def split: if_splits)
  with known show ?thesis by (auto simp: unthrottle_Some_iff)
next
  case (fresh hello)
  then have "tool_hello p \<or> behavior_definitions c (get_current_behavior_string c) \<noteq> None"
    by (auto simp: tool_hello_def)
  with fresh show ?thesis by (auto simp: unthrottle_Some_iff)
next
  case plain
  then have "observation_over now c \<or> \<not> flow_flagged g p"
    by (auto simp: window_table_def flow_flagged_def split: if_splits)
  with plain show ?thesis by (auto simp: throttle_Some_iff tool_hello_def)
qed

lemma push_verdict:
  assumes "46 \<le> length (pbuf p)" and "push now p g c = Some (g', c', es)"
  shows "\<exists>c1. observed now p c = Some c1 \<and> delivered es = [verdict now p g c1]"
proof -
  from assms(2) obtain c1 where c1: "observed now p c = Some c1"
    unfolding push_eq [OF assms(1)] by (auto split: Option.bind_splits)
  have "delivered es = [verdict now p g c1]"
    using assms(2) c1 push_observed_verdict [of now p c1 g]
    unfolding push_eq [OF assms(1)] verdict_def
    by (auto simp: Let_def unthrottle_Some_iff throttle_Some_iff split: if_splits)
  with c1 show ?thesis by blast
qed

text \<open>
  C1: \<open>push\<close> implements the verdict. Whenever a packet with a readable header is handled
  without undefined behaviour it is delivered to exactly one output, and that output is the
  one the specification names for the state after the burst bookkeeping.
\<close>

theorem push_delivers_verdict:
  assumes "46 \<le> length (pbuf p)" and "push now p g c = Some (g', c', es)"
  shows "\<exists>c1. observed now p c = Some c1 \<and> delivered es = [verdict now p g c1]"
  using assms by (rule push_verdict)

section \<open>Counters and flags after a push\<close>

lemma account_packet_simps [simp]:
  "behavior_definitions (account_packet now p c) = behavior_definitions c"
  "current_behavior_map (account_packet now p c) = current_behavior_map c"
  "found_first_burst (account_packet now p c) = found_first_burst c"
  "burst_threshold (account_packet now p c) = burst_threshold c"
  "observation_threshold (account_packet now p c) = observation_threshold c"
  "start_burst (account_packet now p c) = start_burst c"
  "low_burst_rate_counter (account_packet now p c) = low_burst_rate_counter c"
  "throttled_counter (account_packet now p c) = throttled_counter c"
  "unthrottled_counter (account_packet now p c) = unthrottled_counter c"
  by (simp_all add: account_packet_def Let_def)

lemma time_burst_account:
  "time_burst_map (account_packet now p c) =
     (time_burst_map c)(now \<mapsto> ldouble_round (um_value 0 now (time_burst_map c) + packet_m_bits p))"
  by (auto simp: account_packet_def Let_def um_put_def fun_eq_iff)

lemma track_behavior_frame:
  assumes "track_behavior now c = Some c'"
  shows "behavior_definitions c' = behavior_definitions c"
    and "burst_threshold c' = burst_threshold c"
    and "observation_threshold c' = observation_threshold c"
    and "start_burst c' = start_burst c"
    and "low_burst_rate_counter c' = low_burst_rate_counter c"
    and "throttled_counter c' = throttled_counter c"
    and "unthrottled_counter c' = unthrottled_counter c"
  using assms by (auto simp: track_behavior_def Let_def split: if_splits Option.bind_splits)

lemma observed_frame:
  assumes "observed now p c = Some c'"
  shows "behavior_definitions c' = behavior_definitions c"
    and "start_burst c' = start_burst c"
    and "throttled_counter c' = throttled_counter c"
    and "unthrottled_counter c' = unthrottled_counter c"
    and "observation_threshold c' = observation_threshold c"
proof -
  from assms obtain c1 where 1: "track_behavior now (account_packet now p c) = Some c1"
    and 2: "count_low_rate now c1 = Some c'"
    by (auto simp: observed_def split: Option.bind_splits)
  have "c' = c1\<lparr>low_burst_rate_counter := low_burst_rate_counter c'\<rparr>"
    by (rule count_low_rate_Some [OF 2])
  then have *: "behavior_definitions c' = behavior_definitions c1" "start_burst c' = start_burst c1"
    "throttled_counter c' = throttled_counter c1" "unthrottled_counter c' = unthrottled_counter c1"
    "observation_threshold c' = observation_threshold c1"
    by (metis classifier.select_convs classifier.surjective classifier.update_convs(6))+
  show "behavior_definitions c' = behavior_definitions c" "start_burst c' = start_burst c"
    "throttled_counter c' = throttled_counter c" "unthrottled_counter c' = unthrottled_counter c"
    "observation_threshold c' = observation_threshold c"
    using * track_behavior_frame [OF 1] by simp_all
qed

definition counters_after :: "nat \<Rightarrow> int \<Rightarrow> int \<Rightarrow> classifier \<Rightarrow> bool" where
  "counters_after port t u c \<longleftrightarrow>
     throttled_counter c = t + (if port = 0 then 1 else 0) \<and>
     unthrottled_counter c = u + (if port = 1 then 1 else 0)"

lemma push_observed_counters:
  assumes "push_observed now p tcp b k1 k2 g c es = Some (g', c', es')" "reports es = []" "delivered es = []"
  shows "\<exists>port \<in> {0, 1}. delivered es' = [port] \<and>
     (if reports es' = [] then counters_after port (throttled_counter c) (unthrottled_counter c) c'
      else counters_after port 0 0 c')"
  using assms(1)
  by (cases rule: push_observed_cases)
    (auto simp: unthrottle_Some_iff throttle_Some_iff counters_after_def window_state_def assms(2,3)
      split: if_splits)

text \<open>
  C20: Every packet is counted once, on the side it was sent to. A push delivers the packet to
  exactly one output; the counter of that output grows by one and the other keeps its value,
  from the previous values or, when the push closed an observation, from zero.
\<close>

theorem push_counts_packet_once:
  assumes "46 \<le> length (pbuf p)" and "push now p g c = Some (g', c', es)"
  shows "\<exists>port \<in> {0, 1}. delivered es = [port] \<and>
     (if reports es = [] then counters_after port (throttled_counter c) (unthrottled_counter c) c'
      else counters_after port 0 0 c')"
proof -
  from assms(2) obtain c1 where c1: "observed now p c = Some c1"
    unfolding push_eq [OF assms(1)] by (auto split: Option.bind_splits)
  show ?thesis
  proof (cases "source_of p = iperf_ip \<or> destination_of p = iperf_ip \<or> other_protocol p
      \<or> 115 < low_burst_rate_counter c1")
    case True
    then show ?thesis
      using assms(2) c1 observed_frame [OF c1] unfolding push_eq [OF assms(1)]
      by (auto simp: Let_def unthrottle_Some_iff throttle_Some_iff counters_after_def split: if_splits)
  next
    case False
    then have "push_observed now p (tcp_packet p) (get_current_behavior_string c1)
        (forward_key p) (backward_key p) g c1 [Cout_behavior (get_current_behavior_string c1)]
        = Some (g', c', es)"
      using assms(2) c1 unfolding push_eq [OF assms(1)] by (simp add: Let_def)
    from push_observed_counters [OF this] show ?thesis
      unfolding observed_frame(3,4) [OF c1] by simp
  qed
qed

lemma flow_flagged_lookup [simp]:
  "flow_flagged (snd (lookup_flow k1 k2 g)) p = flow_flagged g p"
  by (simp add: flow_flagged_def lookup_flow_keeps)

lemma flow_flagged_flag [simp]: "flow_flagged (flag_flow (forward_key p) (backward_key p) g) p"
  by (simp add: flow_flagged_def flag_flow_def)

lemma push_unthrottled_flags:
  assumes "46 \<le> length (pbuf p)" and "push now p g c = Some (g', c', es)" and "delivered es = [1]"
  shows "flow_flagged g' p"
proof -
  from assms(2) obtain c1 where c1: "observed now p c = Some c1"
    unfolding push_eq [OF assms(1)] by (auto split: Option.bind_splits)
  show ?thesis
  proof (cases "source_of p = iperf_ip \<or> destination_of p = iperf_ip \<or> other_protocol p
      \<or> 115 < low_burst_rate_counter c1")
    case True
    then show ?thesis
      using assms(2,3) c1 unfolding push_eq [OF assms(1)]
      by (auto simp: Let_def unthrottle_Some_iff throttle_Some_iff split: if_splits)
  next
    case False
    then have "push_observed now p (tcp_packet p) (get_current_behavior_string c1)
        (forward_key p) (backward_key p) g c1 [Cout_behavior (get_current_behavior_string c1)]
        = Some (g', c', es)"
      using assms(2) c1 unfolding push_eq [OF assms(1)] by (simp add: Let_def)
    then show ?thesis
    proof (cases rule: push_observed_cases)
      case known
      then have "flow_flagged (window_table now g c1) p" by (simp add: flow_flagged_def)
      with known show ?thesis by (simp add: unthrottle_Some_iff)
    next
      case (fresh hello)
      then show ?thesis by (simp add: unthrottle_Some_iff)
    next
      case plain
      then show ?thesis using assms(3) by (simp add: throttle_Some_iff)
    qed
  qed
qed

definition same_hosts :: "packet \<Rightarrow> packet \<Rightarrow> bool" where
  "same_hosts p q \<longleftrightarrow>
     (source_of p = source_of q \<and> destination_of p = destination_of q) \<or>
     (source_of p = destination_of q \<and> destination_of p = source_of q)"

lemma flow_flagged_same_hosts: "same_hosts p q \<Longrightarrow> flow_flagged g p = flow_flagged g q"
  by (auto simp: same_hosts_def flow_flagged_def forward_key_def backward_key_def)

section \<open>Invariant of the classifiers of a router\<close>

definition classifier_inv :: "classifier \<Rightarrow> bool" where
  "classifier_inv c \<longleftrightarrow>
     om_inv (current_behavior_map c) \<and>
     snd ` set (current_behavior_map c) \<subseteq> {0, 1, 2} \<and>
     (\<forall>v \<in> ran (time_burst_map c). 0 \<le> v \<and> v \<le> max_m_bits_per_second c) \<and>
     0 \<le> max_m_bits_per_second c \<and>
     0 \<le> low_burst_rate_counter c \<and> 0 \<le> throttled_counter c \<and> 0 \<le> unthrottled_counter c"

lemma push_cases:
  assumes "push now p g c = Some (g', c', es)"
  obtains c1 where "observed now p c = Some c1"
      "unthrottle p (flag_flow (forward_key p) (backward_key p) g) c1
         [Cout_behavior (get_current_behavior_string c1)] = Some (g', c', es)"
  | c1 n where "observed now p c = Some c1"
      "n \<in> {0, low_burst_rate_counter c1}"
      "throttle p g (c1\<lparr>low_burst_rate_counter := n\<rparr>)
         [Cout_behavior (get_current_behavior_string c1)] = Some (g', c', es)"
  | c1 tcp where "observed now p c = Some c1"
      "push_observed now p tcp (get_current_behavior_string c1) (forward_key p) (backward_key p) g c1
         [Cout_behavior (get_current_behavior_string c1)] = Some (g', c', es)"
proof -
  from push_needs_header [OF assms]
  have ips: "map_option get_ip_string (read_bytes p 26 4) = Some (source_of p)"
    "map_option get_ip_string (read_bytes p 30 4) = Some (destination_of p)"
    by (simp_all add: read_bytes_eq source_of_def destination_of_def)
  from assms obtain tcp udp dns where r: "is_tcp p = Some tcp" "is_udp p = Some udp"
      "is_dns tcp udp p = Some dns"
    by (auto simp: push_def split: Option.bind_splits)
  from assms obtain c0 where c0: "track_behavior now (account_packet now p c) = Some c0"
    by (auto simp: push_def ips r Let_def split: Option.bind_splits)
  with assms obtain c1 where c1: "count_low_rate now c0 = Some c1"
    by (auto simp: push_def ips r Let_def split: Option.bind_splits)
  have ob: "observed now p c = Some c1" using c0 c1 by (simp add: observed_def)
  have beh: "get_current_behavior_string c0 = get_current_behavior_string c1"
    using count_low_rate_behavior [OF c1] by simp
  let ?es = "[Cout_behavior (get_current_behavior_string c1)]"
  let ?other = "(\<not> tcp \<and> \<not> udp) \<or> dns"
  have eq: "push now p g c =
      (if source_of p = iperf_ip \<or> destination_of p = iperf_ip
       then unthrottle p (flag_flow (forward_key p) (backward_key p) g) c1 ?es
       else if ?other \<or> 115 < low_burst_rate_counter c1
       then throttle p g (c1\<lparr>low_burst_rate_counter :=
              (if ?other then low_burst_rate_counter c1 else 0)\<rparr>) ?es
       else push_observed now p tcp (get_current_behavior_string c1) (forward_key p) (backward_key p)
              g c1 ?es)"
    by (simp add: push_def ips r Let_def c0 c1 beh forward_key_def backward_key_def)
  consider "source_of p = iperf_ip \<or> destination_of p = iperf_ip"
    | "\<not> (source_of p = iperf_ip \<or> destination_of p = iperf_ip)"
      "?other \<or> 115 < low_burst_rate_counter c1"
    | "\<not> (source_of p = iperf_ip \<or> destination_of p = iperf_ip)"
      "\<not> (?other \<or> 115 < low_burst_rate_counter c1)"
    by blast
  then show ?thesis
  proof cases
    case 1
    with assms eq have "unthrottle p (flag_flow (forward_key p) (backward_key p) g) c1 ?es
        = Some (g', c', es)" by simp
    from that(1) [OF ob this] show ?thesis .
  next
    case 2
    with assms eq have "throttle p g (c1\<lparr>low_burst_rate_counter :=
        (if ?other then low_burst_rate_counter c1 else 0)\<rparr>) ?es = Some (g', c', es)" by simp
    from that(2) [OF ob _ this] show ?thesis by simp
  next
    case 3
    with assms eq have "push_observed now p tcp (get_current_behavior_string c1) (forward_key p)
        (backward_key p) g c1 ?es = Some (g', c', es)" by (simp only: if_False)
    from that(3) [OF ob this] show ?thesis .
  qed
qed

lemma packet_m_bits_nonneg: "0 \<le> packet_m_bits p"
  by (simp add: packet_m_bits_def double_round_nonneg)

lemma um_value_nonneg: "\<forall>v \<in> ran m. (0::rat) \<le> v \<Longrightarrow> 0 \<le> um_value 0 k m"
  by (auto simp: um_value_def ran_def split: option.splits)

lemma ran_touch: "v \<in> ran (um_touch z k m) \<Longrightarrow> v = z \<or> v \<in> ran m"
  by (auto simp: ran_def split: if_splits)

lemma account_packet_inv:
  assumes "classifier_inv c"
  shows "classifier_inv (account_packet now p c)"
proof -
  let ?r = "ldouble_round (um_value 0 now (time_burst_map c) + packet_m_bits p)"
  have r: "0 \<le> ?r"
    using assms um_value_nonneg [of "time_burst_map c" now]
    by (auto simp: classifier_inv_def intro!: ldouble_round_nonneg add_nonneg_nonneg packet_m_bits_nonneg)
  have m: "max_m_bits_per_second (account_packet now p c) = max (max_m_bits_per_second c) ?r"
    by (simp add: account_packet_def Let_def max_def)
  show ?thesis
    using assms r unfolding classifier_inv_def m time_burst_account
    by (fastforce simp: ran_def split: if_splits)
qed

lemma burst_behavior_range: "burst_behavior th d = Some v \<Longrightarrow> v \<in> {0, 1, 2}"
  by (auto simp: burst_behavior_def Let_def split: Option.bind_splits if_splits)

lemma track_behavior_inv:
  assumes "classifier_inv c" "track_behavior now c = Some c'"
  shows "classifier_inv c'"
proof (cases "0 < um_value 0 now (time_burst_map c)")
  case False
  with assms show ?thesis by (simp add: track_behavior_def)
next
  case True
  let ?tb = "um_touch 0 (now - 1) (time_burst_map c)"
  let ?d = "ldouble_round (um_value 0 now (time_burst_map c) - um_value 0 (now - 1) (time_burst_map c))"
  from True assms(2) obtain i where i: "ld_to_int ?d = Some i"
    by (auto simp: track_behavior_def split: Option.bind_splits)
  with True assms(2) obtain b where bb: "burst_behavior (burst_threshold c) i = Some b"
    by (auto simp: track_behavior_def split: Option.bind_splits)
  have b: "b \<in> {0, 1, 2}" by (rule burst_behavior_range [OF bb])
  define f where "f \<longleftrightarrow> b = 2 \<and> found_first_burst c"
  define m where "m = (if f then [] else current_behavior_map c)"
  have c'_eq: "c' = c\<lparr>time_burst_map := ?tb, current_behavior_map := om_put now b m,
      found_first_burst := (if f then False else found_first_burst c)\<rparr>"
    using True assms(2) i bb
    by (cases f) (auto simp: track_behavior_def m_def f_def Let_def)
  have m: "m \<in> {[], current_behavior_map c}" by (simp add: m_def)
  have mi: "om_inv m" "snd ` set m \<subseteq> {0, 1, 2}"
    using m assms(1) by (auto simp: classifier_inv_def om.inv_empty)
  have "om_inv (om_put now b m)" using mi(1) by (rule om.inv_put)
  moreover have "snd ` set (om_put now b m) \<subseteq> {0, 1, 2}"
    using om_put_values [of now b m] mi(2) b by auto
  moreover have "\<forall>v \<in> ran ?tb. 0 \<le> v \<and> v \<le> max_m_bits_per_second c"
    using assms(1) ran_touch [of _ 0 "now - 1" "time_burst_map c"] by (auto simp: classifier_inv_def)
  ultimately show ?thesis using assms(1) by (simp add: c'_eq classifier_inv_def)
qed

lemma low_rate_inv: "classifier_inv c \<Longrightarrow> 0 \<le> n \<Longrightarrow> classifier_inv (c\<lparr>low_burst_rate_counter := n\<rparr>)"
  by (simp add: classifier_inv_def)

lemma classifier_inv_nonneg: "classifier_inv c \<Longrightarrow> 0 \<le> low_burst_rate_counter c"
  by (simp add: classifier_inv_def)

lemma observed_inv:
  assumes "classifier_inv c" "observed now p c = Some c'"
  shows "classifier_inv c'"
proof -
  from assms(2) obtain c1 where 1: "track_behavior now (account_packet now p c) = Some c1"
    and 2: "count_low_rate now c1 = Some c'"
    by (auto simp: observed_def split: Option.bind_splits)
  have "classifier_inv c1" by (rule track_behavior_inv [OF account_packet_inv [OF assms(1)] 1])
  then show ?thesis
    using 2 low_rate_inv [of c1 "low_burst_rate_counter c1 + 1"]
    by (auto simp: count_low_rate_def int_inc_Some_iff classifier_inv_nonneg
        split: if_splits Option.bind_splits)
qed

lemma window_state_inv: "classifier_inv c \<Longrightarrow> classifier_inv (window_state now c)"
  by (auto simp: window_state_def reset_observation_def classifier_inv_def om.inv_empty)

lemma start_observation_inv: "classifier_inv c \<Longrightarrow> classifier_inv (start_observation now c)"
  by (auto simp: start_observation_def classifier_inv_def)

lemma unthrottle_inv:
  "classifier_inv c \<Longrightarrow> unthrottle p g c es = Some (g', c', es') \<Longrightarrow> classifier_inv c'"
  by (auto simp: unthrottle_Some_iff classifier_inv_def)

lemma throttle_inv:
  "classifier_inv c \<Longrightarrow> throttle p g c es = Some (g', c', es') \<Longrightarrow> classifier_inv c'"
  by (auto simp: throttle_Some_iff classifier_inv_def)

lemma push_inv:
  assumes "classifier_inv c" "push now p g c = Some (g', c', es)"
  shows "classifier_inv c'"
  using assms(2)
proof (cases rule: push_cases)
  case (1 c1)
  then show ?thesis using observed_inv [OF assms(1)] unthrottle_inv by blast
next
  case (2 c1 n)
  have i: "classifier_inv c1" using observed_inv [OF assms(1)] 2(1) by blast
  then have "0 \<le> n" using 2(2) by (auto simp: classifier_inv_def)
  then show ?thesis using low_rate_inv [OF i] throttle_inv 2(3) by blast
next
  case (3 c1 tcp)
  have i: "classifier_inv (window_state now c1)"
    using observed_inv [OF assms(1)] 3(1) window_state_inv by blast
  from 3(2) show ?thesis
    by (cases rule: push_observed_cases)
      (blast intro: i start_observation_inv unthrottle_inv throttle_inv)+
qed

lemma new_classifier_inv: "classifier_inv new_classifier"
  by (simp add: new_classifier_def classifier_inv_def om.inv_empty)

text \<open>
  A router with any number of classifier elements: one step is some element handling some
  packet at some time. The elements share the flag table.
\<close>

inductive router_step :: "flag_table \<times> (nat \<Rightarrow> classifier) \<Rightarrow> flag_table \<times> (nat \<Rightarrow> classifier) \<Rightarrow> bool"
  where
  handle: "push now p g (cs i) = Some (g', c', es) \<Longrightarrow> router_step (g, cs) (g', cs(i := c'))"

inductive router_reachable :: "flag_table \<times> (nat \<Rightarrow> classifier) \<Rightarrow> bool" where
  start: "router_reachable (Map.empty, \<lambda>_. new_classifier)"
| step: "router_reachable s \<Longrightarrow> router_step s s' \<Longrightarrow> router_reachable s'"

inductive_cases router_stepE: "router_step s s'"

lemma router_reachable_inv: "router_reachable s \<Longrightarrow> classifier_inv (snd s i)"
proof (induction rule: router_reachable.induct)
  case start
  show ?case by (simp add: new_classifier_inv)
next
  case (step s s')
  from step.hyps(2) show ?case
    by (rule router_stepE) (use step.IH push_inv in \<open>auto split: if_splits\<close>)
qed

lemma behavior_string_digits:
  assumes "classifier_inv c"
  shows "set (get_current_behavior_string c) \<subseteq> {CHR ''0'', CHR ''1'', CHR ''2''}"
    and "length (get_current_behavior_string c) = length (current_behavior_map c)"
proof -
  have digits: "to_string_int 0 = ''0''" "to_string_int 1 = ''1''" "to_string_int 2 = ''2''"
    by code_simp+
  have "snd ` set m \<subseteq> {0, 1, 2} \<Longrightarrow>
      set (concat (map (\<lambda>(_, v). to_string_int v) m)) \<subseteq> {CHR ''0'', CHR ''1'', CHR ''2''} \<and>
      length (concat (map (\<lambda>(_, v). to_string_int v) m)) = length m" for m :: "(int, int) omap"
    by (induction m) (auto simp: digits)
  with assms show "set (get_current_behavior_string c) \<subseteq> {CHR ''0'', CHR ''1'', CHR ''2''}"
    "length (get_current_behavior_string c) = length (current_behavior_map c)"
    by (auto simp: classifier_inv_def get_current_behavior_string_def)
qed

text \<open>
  C17: In every state a router can reach, whatever the interleaving of its classifiers, each
  classifier keeps its invariant: the behaviour map is sorted by second, its values are 0, 1
  or 2, every recorded rate lies between 0 and the recorded maximum, and the counters are not
  negative; so the behaviour abstraction has one character 0, 1 or 2 per recorded second.
\<close>

theorem router_classifiers_invariant:
  assumes "router_reachable (g, cs)"
  shows "classifier_inv (cs i)
    \<and> set (get_current_behavior_string (cs i)) \<subseteq> {CHR ''0'', CHR ''1'', CHR ''2''}
    \<and> length (get_current_behavior_string (cs i)) = length (current_behavior_map (cs i))"
proof -
  have i: "classifier_inv (cs i)" using router_reachable_inv [OF assms] by simp
  with behavior_string_digits [OF i] show ?thesis by simp
qed

section \<open>Flagged flows\<close>

text \<open>
  A sequence of pushes of the classifiers of a router: which element handles which packet at what
  time. The effects of each push are recorded.
\<close>

fun router_run :: "(nat \<times> int \<times> packet) list \<Rightarrow> flag_table \<times> (nat \<Rightarrow> classifier)
    \<Rightarrow> ((flag_table \<times> (nat \<Rightarrow> classifier)) \<times> effect list list) option" where
  "router_run [] s = Some (s, [])"
| "router_run ((i, now, p) # evs) (g, cs) = do {
     (g', c', fx) \<leftarrow> push now p g (cs i);
     (s', fxs) \<leftarrow> router_run evs (g', cs(i := c'));
     Some (s', fx # fxs)
   }"

lemma flow_flagged_more: "flow_flagged g p \<Longrightarrow> flow_flagged (flag_flow k1 k2 g) p"
  by (auto simp: flow_flagged_def flag_flow_def um_value_def um_put_def)

text \<open>A push that does not close an observation takes no flag away, and only a closed observation is reported.\<close>

lemma push_keeps_flags:
  assumes "push now q g c = Some (g', c', es)" "reports es = []" "flow_flagged g p"
  shows "flow_flagged g' p"
  using assms(1)
proof (cases rule: push_cases)
  case (1 c1)
  then show ?thesis using flow_flagged_more [OF assms(3)] by (simp add: unthrottle_Some_iff)
next
  case (2 c1 n)
  then show ?thesis using assms(3) by (simp add: throttle_Some_iff)
next
  case (3 c1 tcp)
  from 3(2) show ?thesis
  proof (cases rule: push_observed_cases)
    case known
    then show ?thesis using assms(2,3) by (auto simp: unthrottle_Some_iff window_table_def split: if_splits)
  next
    case (fresh hello)
    then show ?thesis using assms(2,3) flow_flagged_more by (auto simp: unthrottle_Some_iff window_table_def split: if_splits)
  next
    case plain
    then show ?thesis using assms(2,3) by (auto simp: throttle_Some_iff window_table_def split: if_splits)
  qed
qed

lemma push_no_report:
  assumes "push now q g c = Some (g', c', es)" "observed now q c = Some d" "\<not> observation_over now d"
  shows "reports es = []"
  using assms(1)
proof (cases rule: push_cases)
  case (3 c1 tcp)
  have "c1 = d" using 3(1) assms(2) by simp
  from 3(2) show ?thesis
    by (cases rule: push_observed_cases) (auto simp: unthrottle_Some_iff throttle_Some_iff \<open>c1 = d\<close> assms(3))
qed (auto simp: unthrottle_Some_iff throttle_Some_iff)

lemma push_flagged_unthrottled:
  assumes "46 \<le> length (pbuf q)" "push now q g c = Some (g', c', es)" "reports es = []" "flow_flagged g q"
    "observed now q c = Some d" "\<not> other_protocol q" "low_burst_rate_counter d \<le> 115"
  shows "delivered es = [1]"
proof (cases "source_of q = iperf_ip \<or> destination_of q = iperf_ip")
  case True
  then show ?thesis using push_verdict [OF assms(1,2)] by (auto simp: verdict_def)
next
  case False
  then have o: "push_observed now q (tcp_packet q) (get_current_behavior_string d) (forward_key q) (backward_key q) g d
      [Cout_behavior (get_current_behavior_string d)] = Some (g', c', es)"
    using assms(2,5-7) unfolding push_eq [OF assms(1)] by (simp add: Let_def)
  have "\<not> observation_over now d"
    using o assms(3) by (cases rule: push_observed_cases) (auto simp: unthrottle_Some_iff throttle_Some_iff split: if_splits)
  then have "verdict now q g d = 1" using assms(4,6,7) by (simp add: verdict_def)
  then show ?thesis using push_verdict [OF assms(1,2)] assms(5) by simp
qed

lemma router_run_keeps_flags:
  assumes "router_run evs (g, cs) = Some ((g', cs'), fxs)" "\<forall>fx \<in> set fxs. reports fx = []" "flow_flagged g p"
  shows "flow_flagged g' p"
  using assms
proof (induction evs arbitrary: g cs fxs)
  case (Cons e evs)
  obtain i now q where e: "e = (i, now, q)" by (cases e)
  obtain g1 c1 fx fxs1 where 1: "push now q g (cs i) = Some (g1, c1, fx)" "router_run evs (g1, cs(i := c1)) = Some ((g', cs'), fxs1)"
    "fxs = fx # fxs1"
    using Cons.prems(1) e by (auto split: Option.bind_splits)
  then have "flow_flagged g1 p" using push_keeps_flags [OF 1(1)] Cons.prems(2,3) by simp
  then show ?case using Cons.IH [OF 1(2)] Cons.prems(2) 1(3) by simp
qed simp

text \<open>
  C2: A measurement flow stays unthrottled, in both directions and at every classifier of the
  router, until some observation ends. Let a classifier send a packet between two hosts to the
  unthrottled output, and let any elements of the router handle any packets after it, none of which closes an
  observation (that push would print the statistics and clear the shared table). Then a TCP or UDP packet that is not DNS, between the
  same hosts in either direction, is unthrottled by any element that is not in a slow phase
  and does not close its own observation with this packet.
\<close>

theorem flagged_flow_unthrottled_everywhere:
  assumes "46 \<le> length (pbuf p)" and "push t p g (cs i) = Some (g1, c1, fx)" and "delivered fx = [1]"
    and "router_run evs (g1, cs(i := c1)) = Some ((g2, cs2), fxs)" and "\<forall>fx \<in> set fxs. reports fx = []"
    and "46 \<le> length (pbuf q)" and "same_hosts p q" and "push t' q g2 (cs2 j) = Some (g3, c3, fx3)" and "reports fx3 = []"
    and "observed t' q (cs2 j) = Some d" and "\<not> other_protocol q" and "low_burst_rate_counter d \<le> 115"
  shows "delivered fx3 = [1] \<and> flow_flagged g3 q"
proof -
  have "flow_flagged g1 q"
    using push_unthrottled_flags [OF assms(1-3)] flow_flagged_same_hosts [OF assms(7)] by simp
  then have "flow_flagged g2 q" by (rule router_run_keeps_flags [OF assms(4,5)])
  then have "delivered fx3 = [1]" using push_flagged_unthrottled [OF assms(6,8,9) _ assms(10-12)] by simp
  with push_unthrottled_flags [OF assms(6,8)] show ?thesis by simp
qed

section \<open>Freedom from undefined behaviour, and where it is lost\<close>

text \<open>The number of bytes the TLS record claims to have, and the region that is searched.\<close>

definition declared_length :: "packet \<Rightarrow> nat" where
  "declared_length p = unat (pbuf p ! 57) + 256 * unat (pbuf p ! 58)"

definition hello_region_ok :: "packet \<Rightarrow> bool" where
  "hello_region_ok p \<longleftrightarrow>
     looks_like_hello (tcp_packet p) p \<noteq> None \<and>
     (looks_like_hello (tcp_packet p) p = Some True \<longrightarrow>
        59 \<le> length (pbuf p) \<and> 57 + min (plen p) (declared_length p) \<le> length (pbuf p))"

definition rates_bounded :: "classifier \<Rightarrow> bool" where
  "rates_bounded c \<longleftrightarrow> (\<forall>v \<in> ran (time_burst_map c). 0 \<le> v \<and> v \<le> 2 ^ 20)"

definition counters_small :: "classifier \<Rightarrow> bool" where
  "counters_small c \<longleftrightarrow> low_burst_rate_counter c < INT_MAX \<and>
     throttled_counter c < INT_MAX \<and> unthrottled_counter c < INT_MAX"

lemma tls_length_eq:
  "59 \<le> length (pbuf p) \<Longrightarrow> tls_length p = Some (min (plen p) (declared_length p))"
  by (auto simp: tls_length_def declared_length_def Let_def)

lemma any_host_name_defined:
  "57 + n \<le> length (pbuf p) \<Longrightarrow>
     any_host_name p n hs = Some (\<exists>h \<in> set hs. occurs_in h (take n (drop 57 (pbuf p))))"
  by (induction hs) (simp_all add: memmem_def)

lemma any_host_name_undefined:
  "length (pbuf p) < 57 + n \<Longrightarrow> any_host_name p n (h # hs) = None"
  by (simp add: memmem_def)

lemma hello_defined: "hello_region_ok p \<Longrightarrow> is_measurement_tool_hello (tcp_packet p) p \<noteq> None"
  by (auto simp: hello_region_ok_def is_measurement_tool_hello_def tls_length_eq any_host_name_defined
      split: Option.bind_splits)

lemma um_value_bounded: "\<forall>v \<in> ran m. (0::rat) \<le> v \<and> v \<le> B \<Longrightarrow> 0 \<le> B \<Longrightarrow>
    0 \<le> um_value 0 k m \<and> um_value 0 k m \<le> B"
  by (auto simp: um_value_def ran_def split: option.splits)

lemma packet_m_bits_bound: "packet_m_bits p \<le> 8590"
proof -
  have n: "(plen p * 8) mod 2 ^ 32 \<le> 2 ^ 32" by (simp add: order_less_imp_le)
  then have "(of_nat ((plen p * 8) mod 2 ^ 32) :: rat) \<le> of_nat (2 ^ 32)"
    by (rule of_nat_mono)
  then show ?thesis
    using double_round_bound [of "of_nat ((plen p * 8) mod 2 ^ 32) / 1000000"]
    by (simp add: packet_m_bits_def)
qed

lemma track_behavior_defined:
  assumes "rates_bounded c"
  shows "track_behavior now (account_packet now p c) \<noteq> None"
proof -
  let ?tb = "time_burst_map (account_packet now p c)"
  have old: "0 \<le> um_value 0 k (time_burst_map c) \<and> um_value 0 k (time_burst_map c) \<le> 2 ^ 20" for k
    using assms unfolding rates_bounded_def by (rule um_value_bounded) simp
  have sum: "0 \<le> um_value 0 now (time_burst_map c) + packet_m_bits p"
    "um_value 0 now (time_burst_map c) + packet_m_bits p \<le> 2 ^ 20 + 8590"
    using old [of now] packet_m_bits_nonneg [of p] packet_m_bits_bound [of p] by auto
  have new: "0 \<le> um_value 0 now ?tb" "um_value 0 now ?tb \<le> 2 * (2 ^ 20 + 8590)"
    using sum ldouble_round_nonneg [OF sum(1)]
      ldouble_round_bound [of "um_value 0 now (time_burst_map c) + packet_m_bits p"]
    by (auto simp: time_burst_account um_value_def)
  have prev: "0 \<le> um_value 0 (now - 1) ?tb" "um_value 0 (now - 1) ?tb \<le> 2 ^ 20"
    using old [of "now - 1"] by (auto simp: time_burst_account um_value_def)
  let ?d = "ldouble_round (um_value 0 now ?tb - um_value 0 (now - 1) ?tb)"
  have "\<bar>um_value 0 now ?tb - um_value 0 (now - 1) ?tb\<bar> \<le> 2 * (2 ^ 20 + 8590)"
    using new prev by (auto simp: abs_le_iff)
  then have "\<bar>?d\<bar> \<le> 2147483647"
    using ldouble_round_bound [of "um_value 0 now ?tb - um_value 0 (now - 1) ?tb"] by simp
  then obtain i where "ld_to_int ?d = Some i" "\<bar>i\<bar> \<le> INT_MAX"
    using ld_to_int_defined by blast
  then show ?thesis
    by (auto simp: track_behavior_def burst_behavior_def cpp_abs_def INT_MAX_def Let_def)
qed

lemma observed_defined:
  assumes "rates_bounded c" "counters_small c"
  shows "observed now p c \<noteq> None"
proof -
  from track_behavior_defined [OF assms(1)] obtain c1
    where c1: "track_behavior now (account_packet now p c) = Some c1" by blast
  with track_behavior_frame [OF c1] assms(2) show ?thesis
    by (simp add: observed_def count_low_rate_def counters_small_def)
qed

lemma push_defined:
  assumes "46 \<le> length (pbuf p)" "hello_region_ok p" "rates_bounded c" "counters_small c"
  shows "\<exists>g' c' es. push now p g c = Some (g', c', es)"
proof -
  from observed_defined [OF assms(3,4)] obtain c1 where c1: "observed now p c = Some c1" by blast
  from hello_defined [OF assms(2)] obtain h
    where h: "is_measurement_tool_hello (tcp_packet p) p = Some h" by blast
  have cnt: "throttled_counter c1 < INT_MAX" "unthrottled_counter c1 < INT_MAX" "0 < INT_MAX"
    using observed_frame [OF c1] assms(4) by (auto simp: counters_small_def INT_MAX_def)
  show ?thesis
    using c1 h cnt unfolding push_eq [OF assms(1)]
    by (auto simp: Let_def throttle_def unthrottle_def push_observed_def split: prod.splits)
qed

text \<open>
  C18: \<open>push\<close> has no undefined behaviour on packets with at least 46 readable bytes whose TLS
  search region, if any, lies inside the buffer, as long as no second has seen more than
  2 to the 20 megabits and the packet counters have not reached the largest \<open>int\<close>.
\<close>

theorem push_no_undefined_behaviour:
  assumes "46 \<le> length (pbuf p)" and "hello_region_ok p" and "rates_bounded c" and "counters_small c"
  shows "push now p g c \<noteq> None"
  using push_defined [OF assms, of now g] by auto

text \<open>
  C19: The clamp on the TLS length does not keep the search inside the packet: it compares the
  declared length with the length of the packet, although the search starts at byte 57. A
  TCP packet with no tail room that looks like a hello and declares more bytes than follow
  byte 57 makes \<open>push\<close> read outside the packet's buffer, unless it was decided earlier.
\<close>

theorem hello_search_leaves_buffer:
  assumes "length (pbuf p) = plen p" and "59 \<le> plen p"
    and "looks_like_hello (tcp_packet p) p = Some True"
    and "plen p < 57 + declared_length p"
    and "observed now p c = Some c1"
    and "source_of p \<noteq> iperf_ip" and "destination_of p \<noteq> iperf_ip"
    and "\<not> other_protocol p" and "low_burst_rate_counter c1 \<le> 115"
    and "\<not> flow_flagged g p"
  shows "push now p g c = None"
proof -
  have 46: "46 \<le> length (pbuf p)" using assms(1,2) by simp
  have out: "length (pbuf p) < 57 + min (plen p) (declared_length p)"
    using assms(1,4) by (simp add: min_def)
  have hello: "is_measurement_tool_hello (tcp_packet p) p = None"
    using assms(1-3) out
    by (simp add: is_measurement_tool_hello_def tls_length_eq tool_host_names_def any_host_name_undefined
        del: any_host_name.simps)
  have nf: "\<not> fst (lookup_flow (forward_key p) (backward_key p) g')"
    if "g' = g \<or> g' = Map.empty" for g'
    using assms(10) that by (auto simp: lookup_flow_flagged flow_flagged_def)
  show ?thesis
    using assms(5-9) hello nf [of g] nf [of Map.empty] unfolding push_eq [OF 46]
    by (auto simp: Let_def push_observed_def split: prod.splits)
qed

section \<open>Behaviour of the burst profile\<close>

text \<open>
  The burst profile, on every branch. A rise of more than the threshold is an increase
  (2); a fall is a decrease (0) only when it is smaller than the threshold; every other
  change is reported as constant (1), among them each fall by the threshold or more.
\<close>

theorem burst_behavior_table:
  assumes "0 \<le> th" and "\<bar>d\<bar> \<le> INT_MAX"
  shows "burst_behavior th d =
     Some (if th < d then 2 else if - th < d \<and> d < 0 then 0 else 1)"
  using assms by (auto simp: burst_behavior_def cpp_abs_def INT_MAX_def Let_def)

section \<open>Tables that only grow\<close>

text \<open>
  The statistics name flows that were never flagged. When a TCP or UDP packet passes all
  tests and is throttled, the lookup has inserted its key with the value false; the report
  of measurement-tool addresses prints every key of the table, this one included.
\<close>

theorem statistics_name_unflagged_flow:
  assumes "46 \<le> length (pbuf p)" and "push now p g c = Some (g', c', es)"
    and "observed now p c = Some c1" and "\<not> other_protocol p" and "low_burst_rate_counter c1 \<le> 115"
    and "delivered es = [0]" and "set keys = dom g'"
  shows "forward_key p \<in> set (print_statistics keys t u) \<and> \<not> flow_flagged g' p"
proof -
  have "source_of p \<noteq> iperf_ip" "destination_of p \<noteq> iperf_ip"
    using assms(1-3,6) push_verdict [OF assms(1,2)] by (auto simp: verdict_def split: if_splits)
  then have "push_observed now p (tcp_packet p) (get_current_behavior_string c1)
        (forward_key p) (backward_key p) g c1 [Cout_behavior (get_current_behavior_string c1)]
        = Some (g', c', es)"
    using assms(2-5) unfolding push_eq [OF assms(1)] by (simp add: Let_def)
  then have "forward_key p \<in> dom g' \<and> \<not> flow_flagged g' p"
  proof (cases rule: push_observed_cases)
    case known
    with assms(6) show ?thesis by (simp add: unthrottle_Some_iff)
  next
    case (fresh hello)
    with assms(6) show ?thesis by (simp add: unthrottle_Some_iff)
  next
    case plain
    then have "g' = snd (lookup_flow (forward_key p) (backward_key p) (window_table now g c1))"
      by (simp add: throttle_Some_iff)
    moreover have "k1 \<in> dom (snd (lookup_flow k1 k2 h))" for k1 k2 h
      by (simp add: lookup_flow_def Let_def)
    ultimately show ?thesis using plain(1,2) by (auto simp: flow_flagged_def lookup_flow_keeps)
  qed
  with assms(7) show ?thesis by (simp add: print_statistics_def)
qed

lemma track_behavior_dom:
  "track_behavior now c = Some c' \<Longrightarrow> dom (time_burst_map c) \<subseteq> dom (time_burst_map c')"
  by (auto simp: track_behavior_def Let_def split: Option.bind_splits if_splits)

lemma observed_dom:
  assumes "observed now p c = Some c'"
  shows "insert now (dom (time_burst_map c)) \<subseteq> dom (time_burst_map c')"
proof -
  from assms obtain c1 where 1: "track_behavior now (account_packet now p c) = Some c1"
    and 2: "count_low_rate now c1 = Some c'"
    by (auto simp: observed_def split: Option.bind_splits)
  have "time_burst_map c' = time_burst_map c1"
    using 2 by (auto simp: count_low_rate_def split: Option.bind_splits if_splits)
  with track_behavior_dom [OF 1] show ?thesis by (auto simp: time_burst_account)
qed

lemma push_time_burst:
  assumes "push now p g c = Some (g', c', es)"
  shows "insert now (dom (time_burst_map c)) \<subseteq> dom (time_burst_map c')"
  using assms
proof (cases rule: push_cases)
  case (3 c1 tcp)
  have w: "time_burst_map (window_state now c1) = time_burst_map c1" by (simp add: window_state_def)
  from 3(2) have "time_burst_map c' = time_burst_map c1"
    by (cases rule: push_observed_cases) (auto simp: unthrottle_Some_iff throttle_Some_iff w)
  with observed_dom [OF 3(1)] show ?thesis by simp
qed (use observed_dom in \<open>force simp: unthrottle_Some_iff throttle_Some_iff\<close>)+

fun push_all :: "(int \<times> packet) list \<Rightarrow> flag_table \<Rightarrow> classifier \<Rightarrow> (flag_table \<times> classifier) option" where
  "push_all [] g c = Some (g, c)"
| "push_all ((now, p) # ps) g c =
     (case push now p g c of None \<Rightarrow> None | Some (g', c', _) \<Rightarrow> push_all ps g' c')"

text \<open>
  The per-second rate table is never pruned: after any sequence of packets it still holds
  an entry for every second in which one of them arrived, observation resets included.
\<close>

theorem time_burst_map_never_pruned:
  assumes "push_all ps g c = Some (g', c')"
  shows "fst ` set ps \<union> dom (time_burst_map c) \<subseteq> dom (time_burst_map c')"
  using assms
proof (induction ps arbitrary: g c)
  case Nil
  then show ?case by simp
next
  case (Cons x ps)
  obtain now p where x: "x = (now, p)" by (cases x)
  with Cons.prems obtain g1 c1 es where 1: "push now p g c = Some (g1, c1, es)"
    and 2: "push_all ps g1 c1 = Some (g', c')"
    by (auto split: option.splits)
  from Cons.IH [OF 2] push_time_burst [OF 1] show ?case
    unfolding x list.set image_insert fst_conv by blast
qed


section \<open>Witnesses\<close>

text \<open>
  Two packets from 10.0.0.1 to 10.0.0.2: a UDP datagram, and a TCP segment that looks like a
  hello whose record claims 255 bytes.
\<close>

definition udp_sample :: packet where
  "udp_sample = \<lparr>pbuf = replicate 12 0 @ [8, 0] @ replicate 9 0 @ [0x11, 0, 0, 10, 0, 0, 1, 10, 0, 0, 2]
     @ replicate 26 0, plen = 60\<rparr>"

definition hello_sample :: packet where
  "hello_sample = \<lparr>pbuf = replicate 12 0 @ [8, 0] @ replicate 9 0 @ [6, 0, 0, 10, 0, 0, 1, 10, 0, 0, 2]
     @ replicate 21 0 @ [3, 1, 255, 0, 0], plen = 60\<rparr>"

lemmas sample_simps = udp_sample_def hello_sample_def tcp_packet_def udp_packet_def dns_packet_def
  other_protocol_def source_of_def destination_of_def declared_length_def nth_append
  to_string_nat.simps

lemma udp_sample_facts:
  "length (pbuf udp_sample) = 60" "\<not> tcp_packet udp_sample" "udp_packet udp_sample"
  "\<not> other_protocol udp_sample"
  "source_of udp_sample = ''10.0.0.1''" "destination_of udp_sample = ''10.0.0.2''"
  by (simp_all add: sample_simps)

lemma udp_sample_hello: "is_measurement_tool_hello (tcp_packet udp_sample) udp_sample = Some False"
    "hello_region_ok udp_sample"
  by (simp_all add: udp_sample_facts is_measurement_tool_hello_def looks_like_hello_def hello_region_ok_def)

lemma hello_sample_facts:
  "length (pbuf hello_sample) = 60" "plen hello_sample = 60" "tcp_packet hello_sample"
  "\<not> other_protocol hello_sample" "declared_length hello_sample = 255"
  "source_of hello_sample = ''10.0.0.1''" "destination_of hello_sample = ''10.0.0.2''"
  by (simp_all add: sample_simps)

lemma hello_sample_hello: "looks_like_hello (tcp_packet hello_sample) hello_sample = Some True"
  unfolding looks_like_hello_def by (simp add: hello_sample_facts) (simp add: sample_simps)

lemma new_classifier_ready: "rates_bounded new_classifier" "counters_small new_classifier"
  by (simp_all add: new_classifier_def rates_bounded_def counters_small_def INT_MAX_def)

lemma low_rate_after_one_packet:
  assumes "observed now p new_classifier = Some c1"
  shows "low_burst_rate_counter c1 \<le> 115" "\<not> observation_over now c1"
proof -
  from assms obtain c0 where 1: "track_behavior now (account_packet now p new_classifier) = Some c0"
    and 2: "count_low_rate now c0 = Some c1"
    by (auto simp: observed_def split: Option.bind_splits)
  have "low_burst_rate_counter c0 = 0"
    using track_behavior_frame(5) [OF 1] by (simp add: new_classifier_def)
  with 2 show "low_burst_rate_counter c1 \<le> 115"
    by (auto simp: count_low_rate_def int_inc_Some_iff split: if_splits Option.bind_splits)
  have "length (current_behavior_map c0) \<le> 1"
    using 1 by (auto simp: track_behavior_def Let_def new_classifier_def split: if_splits Option.bind_splits)
  moreover have "current_behavior_map c1 = current_behavior_map c0"
    using 2 by (auto simp: count_low_rate_def split: if_splits Option.bind_splits)
  moreover have "start_burst c1 = 0" "observation_threshold c1 = 30"
    using observed_frame [OF assms] by (simp_all add: new_classifier_def)
  ultimately show "\<not> observation_over now c1" by (simp add: observation_over_def)
qed

lemma udp_sample_push: "\<exists>g' c' es. push 100 udp_sample g new_classifier = Some (g', c', es)"
  by (rule push_defined) (simp_all add: udp_sample_facts udp_sample_hello new_classifier_ready)

theorem push_delivers_verdict_witness:
  "\<exists>g' c' es c1. push 100 udp_sample Map.empty new_classifier = Some (g', c', es) \<and>
     observed 100 udp_sample new_classifier = Some c1 \<and>
     delivered es = [verdict 100 udp_sample Map.empty c1]"
proof -
  obtain g' c' es where p: "push 100 udp_sample Map.empty new_classifier = Some (g', c', es)"
    using udp_sample_push by blast
  have "46 \<le> length (pbuf udp_sample)" by (simp add: udp_sample_facts)
  from push_delivers_verdict [OF this p] p show ?thesis by blast
qed

theorem push_counts_packet_once_witness:
  "\<exists>g' c' es. push 100 udp_sample Map.empty new_classifier = Some (g', c', es) \<and>
     throttled_counter c' + unthrottled_counter c' = 1"
proof -
  obtain g' c' es where p: "push 100 udp_sample Map.empty new_classifier = Some (g', c', es)"
    using udp_sample_push by blast
  have "46 \<le> length (pbuf udp_sample)" by (simp add: udp_sample_facts)
  from push_counts_packet_once [OF this p]
  have "throttled_counter c' + unthrottled_counter c' = 1"
    by (auto simp: counters_after_def new_classifier_def split: if_splits)
  with p show ?thesis by blast
qed

text \<open>A flow that is already flagged is unthrottled by two classifiers in turn.\<close>

definition flagged_table :: flag_table where
  "flagged_table = flag_flow (forward_key udp_sample) (backward_key udp_sample) Map.empty"

lemma udp_sample_unthrottled:
  assumes "flow_flagged g udp_sample" "push 100 udp_sample g new_classifier = Some (g', c', es)"
  shows "delivered es = [1]"
proof -
  have "46 \<le> length (pbuf udp_sample)" by (simp add: udp_sample_facts)
  from push_verdict [OF this assms(2)] obtain c1 where
    c1: "observed 100 udp_sample new_classifier = Some c1" and d: "delivered es = [verdict 100 udp_sample g c1]"
    by blast
  with low_rate_after_one_packet [OF c1] assms(1) show ?thesis
    by (simp add: verdict_def udp_sample_facts)
qed

theorem flagged_flow_unthrottled_everywhere_witness:
  "\<exists>g1 c1 es1 g2 cs2 fxs g3 c3 es3.
     push 100 udp_sample flagged_table new_classifier = Some (g1, c1, es1) \<and>
     router_run [(1, 100, udp_sample)] (g1, (\<lambda>_. new_classifier)(0 := c1)) = Some ((g2, cs2), fxs) \<and>
     push 100 udp_sample g2 (cs2 2) = Some (g3, c3, es3) \<and> delivered es3 = [1]"
proof -
  have f: "flow_flagged flagged_table udp_sample" by (simp add: flagged_table_def)
  have l: "46 \<le> length (pbuf udp_sample)" by (simp add: udp_sample_facts)
  have s: "same_hosts udp_sample udp_sample" by (simp add: same_hosts_def)
  obtain g1 c1 es1 where p1: "push 100 udp_sample flagged_table new_classifier = Some (g1, c1, es1)"
    using udp_sample_push by blast
  obtain g2 c2 es2 where p2: "push 100 udp_sample g1 new_classifier = Some (g2, c2, es2)"
    using udp_sample_push by blast
  obtain g3 c3 es3 where p3: "push 100 udp_sample g2 new_classifier = Some (g3, c3, es3)"
    using udp_sample_push by blast
  obtain d where d: "observed 100 udp_sample new_classifier = Some d"
    using observed_defined [OF new_classifier_ready] by blast
  let ?cs = "(\<lambda>_. new_classifier)(0 := c1) :: nat \<Rightarrow> classifier"
  have run: "router_run [(1, 100, udp_sample)] (g1, ?cs) = Some ((g2, ?cs(1 := c2)), [es2])" using p2 by simp
  have r: "reports es2 = []" "reports es3 = []"
    using push_no_report [OF p2 d] push_no_report [OF p3 d] low_rate_after_one_packet(2) [OF d] by simp_all
  have p3': "push 100 udp_sample g2 ((?cs(1 := c2)) 2) = Some (g3, c3, es3)" and d': "observed 100 udp_sample ((?cs(1 := c2)) 2) = Some d"
    using p3 d by simp_all
  have p1': "push 100 udp_sample flagged_table ((\<lambda>_. new_classifier) (0 :: nat)) = Some (g1, c1, es1)" using p1 by simp
  have "delivered es3 = [1] \<and> flow_flagged g3 udp_sample"
    by (rule flagged_flow_unthrottled_everywhere [OF l p1' udp_sample_unthrottled [OF f p1] run _ l s p3' r(2) d' _ low_rate_after_one_packet(1) [OF d]])
      (simp_all add: r udp_sample_facts)
  then show ?thesis using p1 run p3' by blast
qed

theorem router_classifiers_invariant_witness:
  "\<exists>g c. router_reachable (g, (\<lambda>_. new_classifier)(0 := c)) \<and> classifier_inv c"
proof -
  obtain g c es where "push 100 udp_sample Map.empty new_classifier = Some (g, c, es)"
    using udp_sample_push by blast
  then have "router_step (Map.empty, \<lambda>_. new_classifier) (g, (\<lambda>_. new_classifier)(0 := c))"
    by (rule router_step.handle)
  then have "router_reachable (g, (\<lambda>_. new_classifier)(0 := c))"
    by (rule router_reachable.step [OF router_reachable.start])
  from router_classifiers_invariant [OF this, of 0] this show ?thesis by auto
qed

theorem push_no_undefined_behaviour_witness:
  "hello_region_ok udp_sample \<and> push 100 udp_sample Map.empty new_classifier \<noteq> None"
  using push_no_undefined_behaviour [of udp_sample new_classifier 100 Map.empty]
  by (simp add: udp_sample_facts udp_sample_hello new_classifier_ready)

theorem hello_search_leaves_buffer_witness:
  "push 100 hello_sample Map.empty new_classifier = None"
proof -
  obtain c1 where c1: "observed 100 hello_sample new_classifier = Some c1"
    using observed_defined [OF new_classifier_ready] by blast
  show ?thesis
    by (rule hello_search_leaves_buffer [OF _ _ hello_sample_hello _ c1])
      (simp_all add: hello_sample_facts low_rate_after_one_packet [OF c1] iperf_ip_def flow_flagged_def)
qed

theorem burst_behavior_table_witness:
  "burst_behavior 10 (- 25) = Some 1 \<and> burst_behavior 10 (- 4) = Some 0 \<and> burst_behavior 10 25 = Some 2"
  using burst_behavior_table [of 10 "- 25"] burst_behavior_table [of 10 "- 4"]
    burst_behavior_table [of 10 25]
  by (simp add: INT_MAX_def)

lemma behavior_library_installed: "dom (behavior_definitions new_classifier) = set behavior_library"
proof -
  have "dom (fold (\<lambda>(k, v). um_put k v) (map (\<lambda>b. (b, True)) behavior_library) Map.empty)
      = set behavior_library"
    using um.dom_fold_put [of Map.empty "map (\<lambda>b. (b, True)) behavior_library"]
    by (simp add: image_image)
  then show ?thesis by (simp add: new_classifier_def)
qed

lemma udp_sample_m_bits: "packet_m_bits udp_sample = double_round (3 / 6250)"
  by (simp add: packet_m_bits_def udp_sample_def)

lemma udp_sample_rate:
  "0 < ldouble_round (packet_m_bits udp_sample)"
  "ld_to_int (ldouble_round (ldouble_round (packet_m_bits udp_sample))) = Some 0"
  unfolding udp_sample_m_bits by code_simp+

lemma udp_sample_behavior:
  assumes "observed 100 udp_sample new_classifier = Some c1"
  shows "get_current_behavior_string c1 = ''1''"
proof -
  from assms obtain c0 where 1: "track_behavior 100 (account_packet 100 udp_sample new_classifier) = Some c0"
    and 2: "count_low_rate 100 c0 = Some c1"
    by (auto simp: observed_def split: Option.bind_splits)
  let ?c = "account_packet 100 udp_sample new_classifier"
  have v: "um_value 0 100 (time_burst_map ?c) = ldouble_round (packet_m_bits udp_sample)"
    "um_value 0 99 (time_burst_map ?c) = 0"
    by (simp_all add: time_burst_account um_value_def new_classifier_def)
  have th: "burst_threshold ?c = 10" "current_behavior_map ?c = []"
    by (simp_all add: new_classifier_def)
  have b: "burst_behavior 10 0 = Some 1" by (simp add: burst_behavior_def cpp_abs_def INT_MAX_def)
  have "current_behavior_map c0 = [(100, 1)]"
    using 1 udp_sample_rate v th b by (auto simp: track_behavior_def Let_def)
  then have "get_current_behavior_string c0 = ''1''"
    by (simp add: get_current_behavior_string_def to_string_int_def to_string_nat_small)
  with count_low_rate_behavior [OF 2] show ?thesis by simp
qed

lemma udp_sample_throttled:
  assumes "push 100 udp_sample Map.empty new_classifier = Some (g', c', es)"
  shows "delivered es = [0]"
proof -
  have "46 \<le> length (pbuf udp_sample)" by (simp add: udp_sample_facts)
  from push_verdict [OF this assms] obtain c1 where c1: "observed 100 udp_sample new_classifier = Some c1"
    and d: "delivered es = [verdict 100 udp_sample Map.empty c1]" by blast
  have "''1'' \<notin> set behavior_library" by (simp add: behavior_library_def)
  then have "behavior_definitions c1 (get_current_behavior_string c1) = None"
    using behavior_library_installed observed_frame(1) [OF c1] udp_sample_behavior [OF c1] by auto
  moreover have "\<not> tool_hello udp_sample" by (simp add: tool_hello_def udp_sample_hello)
  ultimately show ?thesis using d
    by (simp add: verdict_def flow_flagged_def udp_sample_facts iperf_ip_def)
qed

theorem statistics_name_unflagged_flow_witness:
  "\<exists>g' c' es. push 100 udp_sample Map.empty new_classifier = Some (g', c', es) \<and>
     (\<forall>keys. set keys = dom g' \<longrightarrow>
        ''10.0.0.1:10.0.0.2'' \<in> set (print_statistics keys 1 0) \<and> \<not> flow_flagged g' udp_sample)"
proof -
  obtain g' c' es where p: "push 100 udp_sample Map.empty new_classifier = Some (g', c', es)"
    using udp_sample_push by blast
  obtain d where d: "observed 100 udp_sample new_classifier = Some d"
    using observed_defined [OF new_classifier_ready] by blast
  have k: "forward_key udp_sample = ''10.0.0.1:10.0.0.2''"
    by (simp add: forward_key_def flow_key_def udp_sample_facts)
  have l: "46 \<le> length (pbuf udp_sample)" by (simp add: udp_sample_facts)
  from statistics_name_unflagged_flow [OF l p d _ _ udp_sample_throttled [OF p]] p k
    low_rate_after_one_packet [OF d]
  show ?thesis by (fastforce simp: udp_sample_facts)
qed

theorem time_burst_map_never_pruned_witness:
  "\<exists>g' c'. push_all [(100, udp_sample)] Map.empty new_classifier = Some (g', c') \<and>
     100 \<in> dom (time_burst_map c')"
proof -
  obtain g' c' es where "push 100 udp_sample Map.empty new_classifier = Some (g', c', es)"
    using udp_sample_push by blast
  then have a: "push_all [(100, udp_sample)] Map.empty new_classifier = Some (g', c')" by simp
  from time_burst_map_never_pruned [OF this] a show ?thesis by auto
qed

end
