(* ===== verification/Fifo_Interface.thy ===== *)
theory Fifo_Interface
  imports Cpp_Prelude "HOL-Library.Multiset"
begin

text \<open>
  The contract of a bounded first-in first-out queue, as the elements downstream of a queue
  rely on it: \<open>push\<close> stores the packet or hands it back when the queue is full, \<open>pull\<close>
  returns the oldest packet. What follows for whole sequences of calls is proved here once,
  for every queue element that satisfies the contract.
\<close>

datatype 'p fifo_op = Push 'p | Pull

text \<open>The packets stored, delivered and handed back in a sequence of calls.\<close>

record 'p fifo_log =
  l_stored :: "'p list"
  l_pulled :: "'p list"
  l_refused :: "'p list"

fun run_ops ::
  "('p \<Rightarrow> 's \<Rightarrow> 's \<times> 'p option) \<Rightarrow> ('s \<Rightarrow> 's \<times> 'p option) \<Rightarrow> 'p fifo_op list \<Rightarrow> 's \<Rightarrow> 's \<times> 'p fifo_log" where
  "run_ops push pull [] s = (s, \<lparr>l_stored = [], l_pulled = [], l_refused = []\<rparr>)"
| "run_ops push pull (Push p # ops) s =
     (let (s1, r) = push p s; (s', l) = run_ops push pull ops s1
      in (s', case r of None \<Rightarrow> l\<lparr>l_stored := p # l_stored l\<rparr> | Some x \<Rightarrow> l\<lparr>l_refused := x # l_refused l\<rparr>))"
| "run_ops push pull (Pull # ops) s =
     (let (s1, r) = pull s; (s', l) = run_ops push pull ops s1
      in (s', case r of None \<Rightarrow> l | Some x \<Rightarrow> l\<lparr>l_pulled := x # l_pulled l\<rparr>))"

fun pushes :: "'p fifo_op list \<Rightarrow> 'p list" where
  "pushes [] = []"
| "pushes (Push p # ops) = p # pushes ops"
| "pushes (Pull # ops) = pushes ops"

locale bounded_fifo =
  fixes inv :: "'s \<Rightarrow> bool"
    and items :: "'s \<Rightarrow> 'p list"
    and cap :: "'s \<Rightarrow> nat"
    and push :: "'p \<Rightarrow> 's \<Rightarrow> 's \<times> 'p option"
    and pull :: "'s \<Rightarrow> 's \<times> 'p option"
  assumes items_bound: "inv s \<Longrightarrow> length (items s) \<le> cap s"
    and push_inv: "inv s \<Longrightarrow> inv (fst (push p s)) \<and> cap (fst (push p s)) = cap s"
    and push_room: "inv s \<Longrightarrow> length (items s) < cap s \<Longrightarrow>
          items (fst (push p s)) = items s @ [p] \<and> snd (push p s) = None"
    and push_full: "inv s \<Longrightarrow> length (items s) = cap s \<Longrightarrow>
          items (fst (push p s)) = items s \<and> snd (push p s) = Some p"
    and pull_inv: "inv s \<Longrightarrow> inv (fst (pull s)) \<and> cap (fst (pull s)) = cap s"
    and pull_items: "inv s \<Longrightarrow> items (fst (pull s)) = tl (items s)
          \<and> snd (pull s) = (case items s of [] \<Rightarrow> None | p # ps \<Rightarrow> Some p)"
begin

lemma push_outcome:
  assumes "inv s"
  obtains (stored) "items (fst (push p s)) = items s @ [p]" "snd (push p s) = None"
  | (refused) "items (fst (push p s)) = items s" "snd (push p s) = Some p" "length (items s) = cap s"
  using items_bound [OF assms] push_room [OF assms, of p] push_full [OF assms, of p]
  by (cases "length (items s) < cap s") auto

text \<open>Nothing is lost, duplicated or reordered: what was stored is what came out, then what is left.\<close>

lemma run_conserves:
  assumes "inv s" "run_ops push pull ops s = (s', l)"
  shows "inv s' \<and> cap s' = cap s \<and> items s @ l_stored l = l_pulled l @ items s'
    \<and> mset (pushes ops) = mset (l_stored l) + mset (l_refused l)"
  using assms
proof (induction ops arbitrary: s l)
  case Nil
  then show ?case by auto
next
  case (Cons op ops)
  show ?case
  proof (cases op)
    case (Push p)
    obtain s1 r where 1: "push p s = (s1, r)" by (cases "push p s")
    obtain l1 where 2: "run_ops push pull ops s1 = (s', l1)"
      "l = (case r of None \<Rightarrow> l1\<lparr>l_stored := p # l_stored l1\<rparr> | Some x \<Rightarrow> l1\<lparr>l_refused := x # l_refused l1\<rparr>)"
      using Cons.prems(2) Push 1 by (auto simp: Let_def split: prod.splits)
    have "inv s1" "cap s1 = cap s" using push_inv [OF Cons.prems(1), of p] 1 by simp_all
    with Cons.IH [OF _ 2(1)] show ?thesis
      using push_outcome [OF Cons.prems(1), of p] 1 2(2) Push by (cases rule: push_outcome [OF Cons.prems(1), of p]) auto
  next
    case Pull
    obtain s1 r where 1: "pull s = (s1, r)" by (cases "pull s")
    obtain l1 where 2: "run_ops push pull ops s1 = (s', l1)"
      "l = (case r of None \<Rightarrow> l1 | Some x \<Rightarrow> l1\<lparr>l_pulled := x # l_pulled l1\<rparr>)"
      using Cons.prems(2) Pull 1 by (auto simp: Let_def split: prod.splits)
    have "inv s1" "cap s1 = cap s" "items s1 = tl (items s)" "r = (case items s of [] \<Rightarrow> None | p # ps \<Rightarrow> Some p)"
      using pull_inv [OF Cons.prems(1)] pull_items [OF Cons.prems(1)] 1 by simp_all
    with Cons.IH [OF _ 2(1)] show ?thesis using 2(2) Pull by (cases "items s") auto
  qed
qed

text \<open>Packets come out in the order in which they were stored.\<close>

lemma run_order:
  assumes "inv s" "items s = []" "run_ops push pull ops s = (s', l)"
  shows "\<exists>rest. l_stored l = l_pulled l @ rest \<and> items s' = rest \<and> length rest \<le> cap s"
  using run_conserves [OF assms(1,3)] items_bound [of s'] assms(2) by auto

text \<open>A queue with room for all the packets of a sequence of calls refuses none of them.\<close>

lemma run_room:
  assumes "inv s" "length (items s) + length (pushes ops) \<le> cap s" "run_ops push pull ops s = (s', l)"
  shows "l_refused l = [] \<and> l_stored l = pushes ops"
  using assms
proof (induction ops arbitrary: s l)
  case Nil
  then show ?case by auto
next
  case (Cons op ops)
  show ?case
  proof (cases op)
    case (Push p)
    have i: "items (fst (push p s)) = items s @ [p]" "snd (push p s) = None"
      using push_room [OF Cons.prems(1), of p] Cons.prems(2) Push by simp_all
    obtain s1 where 1: "push p s = (s1, None)" using i(2) by (cases "push p s") auto
    obtain l1 where 2: "run_ops push pull ops s1 = (s', l1)" "l = l1\<lparr>l_stored := p # l_stored l1\<rparr>"
      using Cons.prems(3) Push 1 by (auto simp: Let_def split: prod.splits)
    have "inv s1 \<and> cap s1 = cap s" using push_inv [OF Cons.prems(1), of p] 1 by simp
    with Cons.IH [OF _ _ 2(1)] i(1) 1 Cons.prems(2) Push 2(2) show ?thesis by simp
  next
    case Pull
    obtain s1 r where 1: "pull s = (s1, r)" by (cases "pull s")
    obtain l1 where 2: "run_ops push pull ops s1 = (s', l1)"
      "l = (case r of None \<Rightarrow> l1 | Some x \<Rightarrow> l1\<lparr>l_pulled := x # l_pulled l1\<rparr>)"
      using Cons.prems(3) Pull 1 by (auto simp: Let_def split: prod.splits)
    have "inv s1" "cap s1 = cap s" "items s1 = tl (items s)"
      using pull_inv [OF Cons.prems(1)] pull_items [OF Cons.prems(1)] 1 by simp_all
    with Cons.IH [OF _ _ 2(1)] Cons.prems(2) Pull 2(2) show ?thesis by (auto split: option.splits)
  qed
qed

end

end
