(* ===== verification/Click_Storage.thy ===== *)
theory Click_Storage
  imports Fifo_Interface
begin

text \<open>
  The ring buffer of Click's queues: class \<open>Storage\<close> (\<open>include/click/standard/storage.hh\<close>)
  and the element \<open>SimpleQueue\<close> (\<open>elements/standard/simplequeue.{cc,hh}\<close>). The array \<open>_q\<close> of
  packet pointers is a list of options, \<open>None\<close> being the null pointer and the content of
  memory that was never written; it is the empty list before \<open>initialize\<close>. Packets that an
  operation hands to output 1 or kills are part of its result.

  The operations are shown to act on the sequence of stored packets as a bounded FIFO list.
\<close>

section \<open>Storage\<close>

definition next_i :: "u32 \<Rightarrow> u32 \<Rightarrow> u32" where
  "next_i cap i = (if i \<noteq> cap then i + 1 else 0)"

definition prev_i :: "u32 \<Rightarrow> u32 \<Rightarrow> u32" where
  "prev_i cap i = (if i \<noteq> 0 then i - 1 else cap)"

definition storage_size :: "u32 \<Rightarrow> u32 \<Rightarrow> u32 \<Rightarrow> int" where
  "storage_size cap head tail =
     (let x = tail - head in if 0 \<le> sint x then sint x else sint (cap + x + 1))"

record 'p simple_queue =
  sq_capacity :: u32
  sq_head :: u32
  sq_tail :: u32
  sq_q :: "'p option list"
  sq_drops :: int
  sq_highwater :: int

definition queue_size :: "('p, 'z) simple_queue_scheme \<Rightarrow> int" where
  "queue_size q = storage_size (sq_capacity q) (sq_head q) (sq_tail q)"

section \<open>SimpleQueue\<close>

definition new_queue :: "u32 \<Rightarrow> 'p simple_queue" where
  "new_queue capacity = \<lparr>sq_capacity = capacity, sq_head = 0, sq_tail = 0, sq_q = [],
     sq_drops = 0, sq_highwater = 0\<rparr>"

text \<open>\<open>initialize\<close>; \<open>mem_ok\<close> says whether the allocation succeeds.\<close>

definition queue_initialize :: "bool \<Rightarrow> ('p, 'z) simple_queue_scheme \<Rightarrow> ('p, 'z) simple_queue_scheme option" where
  "queue_initialize mem_ok q =
     (if mem_ok then Some (q\<lparr>sq_q := replicate (unat (sq_capacity q) + 1) None, sq_drops := 0, sq_highwater := 0\<rparr>)
      else None)"

definition store_tail :: "'p \<Rightarrow> ('p, 'z) simple_queue_scheme \<Rightarrow> ('p, 'z) simple_queue_scheme" where
  "store_tail p q =
     (let t = sq_tail q; nt = next_i (sq_capacity q) t; s = storage_size (sq_capacity q) (sq_head q) nt
      in q\<lparr>sq_q := (sq_q q)[unat t := Some p], sq_tail := nt,
           sq_highwater := (if sq_highwater q < s then s else sq_highwater q)\<rparr>)"

definition queue_full :: "('p, 'z) simple_queue_scheme \<Rightarrow> bool" where
  "queue_full q \<longleftrightarrow> next_i (sq_capacity q) (sq_tail q) = sq_head q"

text \<open>\<open>push\<close>: the new state and the packet that overflows to output 1, if any.\<close>

definition queue_push :: "'p \<Rightarrow> ('p, 'z) simple_queue_scheme \<Rightarrow> ('p, 'z) simple_queue_scheme \<times> 'p option" where
  "queue_push p q =
     (if \<not> queue_full q then (store_tail p q, None)
      else (q\<lparr>sq_drops := sq_drops q + 1\<rparr>, Some p))"

text \<open>\<open>enq\<close>: like \<open>push\<close>, but the packet is killed and the result says whether it was stored.\<close>

definition enq :: "'p \<Rightarrow> ('p, 'z) simple_queue_scheme \<Rightarrow> ('p, 'z) simple_queue_scheme \<times> bool" where
  "enq p q =
     (if \<not> queue_full q then (store_tail p q, True)
      else (q\<lparr>sq_drops := sq_drops q + 1\<rparr>, False))"

definition lifo_enq :: "'p \<Rightarrow> ('p, 'z) simple_queue_scheme \<Rightarrow> ('p, 'z) simple_queue_scheme \<times> 'p option" where
  "lifo_enq p q =
     (let cap = sq_capacity q; ph = prev_i cap (sq_head q);
          (q1, killed) = (if ph = sq_tail q
                          then let t = prev_i cap (sq_tail q) in (q\<lparr>sq_tail := t\<rparr>, sq_q q ! unat t)
                          else (q, None))
      in (q1\<lparr>sq_q := (sq_q q1)[unat ph := Some p], sq_head := ph\<rparr>, killed))"

definition deq :: "('p, 'z) simple_queue_scheme \<Rightarrow> ('p, 'z) simple_queue_scheme \<times> 'p option" where
  "deq q =
     (let h = sq_head q in
      if h \<noteq> sq_tail q then (q\<lparr>sq_head := next_i (sq_capacity q) h\<rparr>, sq_q q ! unat h) else (q, None))"

text \<open>
  The indices that \<open>for (i = from; i != tail; i = next_i(i))\<close> visits. The array has one
  slot more than the capacity, so as many rounds are enough (\<open>walk_all\<close> below).
\<close>

fun walk :: "nat \<Rightarrow> u32 \<Rightarrow> u32 \<Rightarrow> u32 \<Rightarrow> u32 list" where
  "walk 0 cap i t = []"
| "walk (Suc fuel) cap i t = (if i = t then [] else i # walk fuel cap (next_i cap i) t)"

definition stored_indices :: "('p, 'z) simple_queue_scheme \<Rightarrow> u32 list" where
  "stored_indices q = walk (unat (sq_capacity q) + 1) (sq_capacity q) (sq_head q) (sq_tail q)"

text \<open>
  \<open>yank1\<close>: the packet found is taken out by moving the packets before it one slot back; the
  loop runs from the slot found down to the head.
\<close>

fun shift_back :: "u32 \<Rightarrow> u32 list \<Rightarrow> 'p option list \<Rightarrow> 'p option list" where
  "shift_back trav [] A = A"
| "shift_back trav (prev # before) A = shift_back prev before (A[unat trav := A ! unat prev])"

fun find_split :: "('a \<Rightarrow> bool) \<Rightarrow> 'a list \<Rightarrow> 'a list \<Rightarrow> ('a list \<times> 'a) option" where
  "find_split P before [] = None"
| "find_split P before (x # xs) = (if P x then Some (before, x) else find_split P (x # before) xs)"

definition yank1 :: "('p option \<Rightarrow> bool) \<Rightarrow> ('p, 'z) simple_queue_scheme \<Rightarrow> ('p, 'z) simple_queue_scheme \<times> 'p option" where
  "yank1 filter_fn q =
     (case find_split (\<lambda>i. filter_fn (sq_q q ! unat i)) [] (stored_indices q) of
        None \<Rightarrow> (q, None)
      | Some (before, trav) \<Rightarrow>
          (q\<lparr>sq_q := shift_back trav before (sq_q q), sq_head := next_i (sq_capacity q) (sq_head q)\<rparr>,
           sq_q q ! unat trav))"

definition yank1_peek :: "('p option \<Rightarrow> bool) \<Rightarrow> ('p, 'z) simple_queue_scheme \<Rightarrow> 'p option" where
  "yank1_peek filter_fn q =
     (case find (\<lambda>i. filter_fn (sq_q q ! unat i)) (stored_indices q) of
        None \<Rightarrow> None | Some trav \<Rightarrow> sq_q q ! unat trav)"

text \<open>\<open>yank\<close>: the packets that match, the last first; the others are compacted towards the tail.\<close>

fun yank_loop ::
  "('p option \<Rightarrow> bool) \<Rightarrow> u32 \<Rightarrow> u32 list \<Rightarrow> u32 \<Rightarrow> 'p option list \<Rightarrow> 'p option list
     \<Rightarrow> u32 \<times> 'p option list \<times> 'p option list" where
  "yank_loop filter_fn cap [] w A yanked = (w, A, yanked)"
| "yank_loop filter_fn cap (trav # is) w A yanked =
     (if filter_fn (A ! unat trav) then yank_loop filter_fn cap is w A (yanked @ [A ! unat trav])
      else let w' = prev_i cap w in yank_loop filter_fn cap is w' (A[unat w' := A ! unat trav]) yanked)"

definition yank ::
  "('p option \<Rightarrow> bool) \<Rightarrow> ('p, 'z) simple_queue_scheme \<Rightarrow> ('p, 'z) simple_queue_scheme \<times> 'p option list" where
  "yank filter_fn q =
     (let (w, A, yanked) = yank_loop filter_fn (sq_capacity q) (rev (stored_indices q)) (sq_tail q) (sq_q q) []
      in (q\<lparr>sq_q := A, sq_head := w\<rparr>, yanked))"

text \<open>The copy into a new array; packets that do not fit are killed.\<close>

fun copy_packets ::
  "u32 \<Rightarrow> 'p option list \<Rightarrow> u32 list \<Rightarrow> u32 \<Rightarrow> 'p option list \<Rightarrow> 'p option list \<times> u32 \<times> 'p option list" where
  "copy_packets limit A [] j B = (B, j, [])"
| "copy_packets limit A (i # is) j B =
     (if j \<noteq> limit then copy_packets limit A is (j + 1) (B[unat j := A ! unat i])
      else (B, j, map (\<lambda>i. A ! unat i) (i # is)))"

definition live_reconfigure ::
  "bool \<Rightarrow> u32 \<Rightarrow> ('p, 'z) simple_queue_scheme \<Rightarrow> (('p, 'z) simple_queue_scheme \<times> 'p option list) option" where
  "live_reconfigure mem_ok new_capacity q =
     (if new_capacity = sq_capacity q \<or> sq_q q = [] then Some (q\<lparr>sq_capacity := new_capacity\<rparr>, [])
      else if \<not> mem_ok then None
      else let (B, j, killed) = copy_packets new_capacity (sq_q q) (stored_indices q) 0
                 (replicate (unat new_capacity + 1) None)
           in Some (q\<lparr>sq_q := B, sq_head := 0, sq_tail := j, sq_capacity := new_capacity\<rparr>, killed))"

text \<open>
  \<open>take_state\<close>: this queue, the emptied old queue and the killed packets; \<open>None\<close> when this
  queue is in use already.
\<close>

definition take_state ::
  "('p, 'y) simple_queue_scheme \<Rightarrow> ('p, 'z) simple_queue_scheme
     \<Rightarrow> (('p, 'z) simple_queue_scheme \<times> ('p, 'y) simple_queue_scheme \<times> 'p option list) option" where
  "take_state old q =
     (if sq_tail q \<noteq> sq_head q \<or> sq_head q \<noteq> 0 then None
      else let (B, i, killed) = copy_packets (sq_capacity q) (sq_q old) (stored_indices old) 0 (sq_q q);
               q1 = q\<lparr>sq_q := B, sq_head := 0, sq_tail := i\<rparr>
           in Some (q1\<lparr>sq_highwater := queue_size q1\<rparr>, old\<lparr>sq_head := 0, sq_tail := 0\<rparr>, killed))"

definition cleanup :: "('p, 'z) simple_queue_scheme \<Rightarrow> ('p, 'z) simple_queue_scheme \<times> 'p option list" where
  "cleanup q = (q\<lparr>sq_q := []\<rparr>, map (\<lambda>i. sq_q q ! unat i) (stored_indices q))"

text \<open>\<open>reset\<close>: pulls until the queue is empty and hands the packets to output 1.\<close>

fun drain :: "nat \<Rightarrow> ('p, 'z) simple_queue_scheme \<Rightarrow> ('p, 'z) simple_queue_scheme \<times> 'p list" where
  "drain 0 q = (q, [])"
| "drain (Suc fuel) q =
     (case deq q of
        (q', None) \<Rightarrow> (q', [])
      | (q', Some p) \<Rightarrow> (let (q'', ps) = drain fuel q' in (q'', p # ps)))"

definition reset :: "('p, 'z) simple_queue_scheme \<Rightarrow> ('p, 'z) simple_queue_scheme \<times> 'p list" where
  "reset q = drain (unat (sq_capacity q) + 1) q"

definition reset_counts :: "('p, 'z) simple_queue_scheme \<Rightarrow> ('p, 'z) simple_queue_scheme" where
  "reset_counts q = q\<lparr>sq_drops := 0, sq_highwater := queue_size q\<rparr>"

definition read_handler :: "nat \<Rightarrow> ('p, 'z) simple_queue_scheme \<Rightarrow> string" where
  "read_handler which q =
     (if which = 0 then to_string_int (queue_size q)
      else if which = 1 then to_string_int (sq_highwater q)
      else if which = 2 then to_string_int (sint (sq_capacity q))
      else if which = 3 then to_string_int (sq_drops q)
      else [])"

section \<open>Ring arithmetic\<close>

definition ring_len :: "nat \<Rightarrow> nat \<Rightarrow> nat \<Rightarrow> nat" where
  "ring_len n h t = (if h \<le> t then t - h else t + n - h)"

definition ring_idx :: "nat \<Rightarrow> nat \<Rightarrow> nat \<Rightarrow> nat" where
  "ring_idx n h k = (if h + k < n then h + k else h + k - n)"

definition ring_list :: "'a list \<Rightarrow> nat \<Rightarrow> nat \<Rightarrow> nat \<Rightarrow> 'a list" where
  "ring_list A n h t = map (\<lambda>k. A ! ring_idx n h k) [0..<ring_len n h t]"

definition ring_next :: "nat \<Rightarrow> nat \<Rightarrow> nat" where
  "ring_next n i = (if Suc i = n then 0 else Suc i)"

definition ring_prev :: "nat \<Rightarrow> nat \<Rightarrow> nat" where
  "ring_prev n i = (if i = 0 then n - 1 else i - 1)"

named_theorems ring_defs "unfolding of the ring arithmetic"

lemmas [ring_defs] = ring_len_def ring_idx_def ring_next_def ring_prev_def

lemma length_ring_list [simp]: "length (ring_list A n h t) = ring_len n h t"
  by (simp add: ring_list_def)

lemma ring_list_nth [simp]: "k < ring_len n h t \<Longrightarrow> ring_list A n h t ! k = A ! ring_idx n h k"
  by (simp add: ring_list_def)

lemma ring_len_bound: "h < n \<Longrightarrow> t < n \<Longrightarrow> ring_len n h t < n"
  by (auto simp: ring_defs)

lemma ring_len_0 [simp]: "h < n \<Longrightarrow> t < n \<Longrightarrow> ring_len n h t = 0 \<longleftrightarrow> h = t"
  by (auto simp: ring_defs)

lemma ring_step_bounds [simp]:
  "i < n \<Longrightarrow> ring_next n i < n" "i < n \<Longrightarrow> ring_prev n i < n"
  "h < n \<Longrightarrow> k < n \<Longrightarrow> ring_idx n h k < n"
  by (auto simp: ring_defs)

lemma ring_prev_next [simp]: "i < n \<Longrightarrow> ring_prev n (ring_next n i) = i" "i < n \<Longrightarrow> ring_next n (ring_prev n i) = i"
  by (auto simp: ring_defs)

lemma ring_full: "h < n \<Longrightarrow> t < n \<Longrightarrow> ring_next n t = h \<longleftrightarrow> ring_len n h t = n - 1"
  by (auto simp: ring_defs)

lemma ring_list_push:
  assumes "h < n" "t < n" "length A = n" "ring_next n t \<noteq> h"
  shows "ring_list (A[t := x]) n h (ring_next n t) = ring_list A n h t @ [x]"
proof -
  have len: "ring_len n h (ring_next n t) = Suc (ring_len n h t)" using assms by (auto simp: ring_defs)
  show ?thesis
  proof (rule nth_equalityI)
    fix k assume "k < length (ring_list (A[t := x]) n h (ring_next n t))"
    then have k: "k \<le> ring_len n h t" by (simp add: len)
    have "ring_idx n h k = t \<longleftrightarrow> k = ring_len n h t" using assms(1,2) k by (auto simp: ring_defs)
    moreover have "ring_idx n h k < n"
      using k ring_len_bound [OF assms(1,2)] assms(1) by (intro ring_step_bounds(3)) simp_all
    ultimately show "ring_list (A[t := x]) n h (ring_next n t) ! k = (ring_list A n h t @ [x]) ! k"
      using k len assms(3) by (auto simp: nth_append nth_list_update)
  qed (simp add: len)
qed

lemma ring_list_pop:
  assumes "h < n" "t < n" "h \<noteq> t"
  shows "ring_list A n h t = A ! h # ring_list A n (ring_next n h) t"
proof -
  have len: "ring_len n h t = Suc (ring_len n (ring_next n h) t)" using assms by (auto simp: ring_defs)
  have "ring_idx n h 0 = h" "\<And>k. k < ring_len n (ring_next n h) t \<Longrightarrow> ring_idx n h (Suc k) = ring_idx n (ring_next n h) k"
    using assms by (auto simp: ring_defs)
  then show ?thesis
    unfolding ring_list_def len by (simp add: upt_conv_Cons map_Suc_upt [symmetric] del: upt_Suc)
qed

lemma ring_list_last:
  assumes "h < n" "t < n" "h \<noteq> t"
  shows "ring_list A n h t = ring_list A n h (ring_prev n t) @ [A ! ring_prev n t]"
proof -
  have "ring_len n h t = Suc (ring_len n h (ring_prev n t))" "ring_idx n h (ring_len n h (ring_prev n t)) = ring_prev n t"
    using assms by (auto simp: ring_defs)
  then show ?thesis by (simp add: ring_list_def)
qed

lemma ring_list_upd_outside:
  assumes "h < n" "t < n" "\<And>k. k < ring_len n h t \<Longrightarrow> ring_idx n h k \<noteq> i"
  shows "ring_list (A[i := x]) n h t = ring_list A n h t"
proof -
  have "A[i := x] ! ring_idx n h k = A ! ring_idx n h k" if "k < ring_len n h t" for k
    using assms(3) [OF that] by simp
  then show ?thesis by (simp add: ring_list_def)
qed

lemma ring_list_prepend:
  assumes "h < n" "t < n" "length A = n" "ring_prev n h \<noteq> t"
  shows "ring_list (A[ring_prev n h := x]) n (ring_prev n h) t = x # ring_list A n h t"
proof -
  have "ring_list (A[ring_prev n h := x]) n h t = ring_list A n h t"
    by (rule ring_list_upd_outside) (use assms in \<open>auto simp: ring_defs split: if_splits\<close>)
  then show ?thesis using ring_list_pop [of "ring_prev n h" n t "A[ring_prev n h := x]"] assms by simp
qed

section \<open>The queue as a list\<close>

definition sq_inv :: "('p, 'z) simple_queue_scheme \<Rightarrow> bool" where
  "sq_inv q \<longleftrightarrow> unat (sq_capacity q) < 2 ^ 31 - 1 \<and> length (sq_q q) = unat (sq_capacity q) + 1
     \<and> sq_head q \<le> sq_capacity q \<and> sq_tail q \<le> sq_capacity q
     \<and> None \<notin> set (ring_list (sq_q q) (unat (sq_capacity q) + 1) (unat (sq_head q)) (unat (sq_tail q)))"

definition queue_list :: "('p, 'z) simple_queue_scheme \<Rightarrow> 'p list" where
  "queue_list q = map the (ring_list (sq_q q) (unat (sq_capacity q) + 1) (unat (sq_head q)) (unat (sq_tail q)))"

lemma unat_u32_less: "unat (w :: u32) < 4294967296"
  using unsigned_less [of w] by simp

lemma uint_u32_less: "uint (w :: u32) < 4294967296"
proof -
  have "uint w < 2 ^ LENGTH(32)" by (rule unsigned_less)
  then show ?thesis by simp
qed

lemma sint_u32: "sint (w :: u32) = (if unat w < 2147483648 then int (unat w) else int (unat w) - 4294967296)"
proof -
  have u: "uint w = int (unat w)" "int (unat w) < 4294967296" using unat_u32_less [of w] by (simp_all del: of_nat_unat add: uint_nat)
  have "sint w = signed_take_bit 31 (uint w)" by (simp add: sint_uint)
  also have "\<dots> = uint w - 4294967296 * of_bool (bit (uint w) 31)"
    using u by (simp add: signed_take_bit_eq_take_bit_minus take_bit_int_eq_self del: of_nat_unat)
  also have "bit (uint w) 31 \<longleftrightarrow> \<not> unat w < 2147483648"
  proof (cases "unat w < 2147483648")
    case True
    then show ?thesis using u by (simp add: bit_iff_odd del: of_nat_unat)
  next
    case False
    then have "int (unat w) div 2147483648 = 1"
      using u by (intro int_div_pos_eq [of _ _ _ "int (unat w) - 2147483648"]) (simp_all del: of_nat_unat)
    with False u show ?thesis by (simp add: bit_iff_odd del: of_nat_unat)
  qed
  finally show ?thesis using u(1) by (simp del: of_nat_unat)
qed

lemma unat_next_i:
  assumes "i \<le> cap"
  shows "unat (next_i cap i) = ring_next (unat cap + 1) (unat i)"
proof (cases "i = cap")
  case False
  with assms have "unat i < unat cap" by (simp add: word_less_nat_alt [symmetric])
  then show ?thesis
    using False unat_u32_less [of cap] by (simp add: next_i_def ring_next_def unat_plus_if')
qed (simp add: next_i_def ring_next_def)

lemma unat_prev_i: "i \<le> cap \<Longrightarrow> unat (prev_i cap i) = ring_prev (unat cap + 1) (unat i)"
  by (auto simp: prev_i_def ring_prev_def unat_eq_0 unat_minus_one)

lemma storage_size_ring:
  assumes "unat cap < 2 ^ 31 - 1" "h \<le> cap" "t \<le> cap"
  shows "storage_size cap h t = int (ring_len (unat cap + 1) (unat h) (unat t))"
proof (cases "h \<le> t")
  case True
  then have "unat (t - h) = unat t - unat h" by (rule unat_sub)
  moreover have "unat t < 2147483648" using assms(1,3) by (simp add: word_le_nat_alt)
  ultimately have "sint (t - h) = int (unat t - unat h)" by (simp add: sint_u32)
  moreover have "0 \<le> int (unat t - unat h)" by simp
  ultimately have "storage_size cap h t = int (unat t - unat h)" by (simp only: storage_size_def Let_def if_True)
  then show ?thesis using True by (simp add: ring_len_def word_le_nat_alt)
next
  case False
  have b: "unat h \<le> unat cap" "unat t < unat h" using assms(2) False by (simp_all add: word_le_nat_alt)
  have x: "unat (t - h) = unat t + 4294967296 - unat h"
    using b False unat_u32_less [of h] by (simp add: unat_sub_if' word_le_nat_alt)
  then have neg: "\<not> 0 \<le> sint (t - h)" using b assms(1) by (simp add: sint_u32 del: of_nat_unat)
  have "unat (cap + (t - h) + 1) = unat cap + 1 + unat t - unat h"
  proof -
    have e: "unat cap + (unat t + 4294967296 - unat h) = (unat cap + unat t - unat h) + 4294967296"
      using b unat_u32_less [of h] by linarith
    have "(unat cap + unat t - unat h + 4294967296) mod 4294967296 = unat cap + unat t - unat h"
      using b assms(1) by (subst mod_add_self2) simp
    then have "unat (cap + (t - h)) = unat cap + unat t - unat h" using x e by (simp add: unat_word_ariths)
    then show ?thesis using b assms(1) by (subst unat_plus_if') (simp add: Suc_diff_le trans_le_add1)
  qed
  then have "sint (cap + (t - h) + 1) = int (unat cap + 1 + unat t - unat h)"
    using b assms(1) by (simp add: sint_u32 del: of_nat_unat)
  then show ?thesis using neg b by (simp add: storage_size_def ring_len_def word_le_nat_alt)
qed

section \<open>Operations on the list\<close>

lemma sq_ring:
  assumes "sq_inv q"
  defines "n \<equiv> unat (sq_capacity q) + 1"
  shows "unat (sq_head q) < n" "unat (sq_tail q) < n" "length (sq_q q) = n" "n < 2 ^ 31"
  using assms by (auto simp: sq_inv_def word_le_nat_alt)

lemma queue_size_list: "sq_inv q \<Longrightarrow> queue_size q = int (length (queue_list q))"
  by (simp add: queue_size_def queue_list_def sq_inv_def storage_size_ring)

lemma queue_list_bound: "sq_inv q \<Longrightarrow> length (queue_list q) \<le> unat (sq_capacity q)"
  using ring_len_bound [OF sq_ring(1,2)] by (fastforce simp: queue_list_def)

lemma index_in_range: "sq_inv q \<Longrightarrow> unat (sq_head q) < length (sq_q q) \<and> unat (sq_tail q) < length (sq_q q)"
  using sq_ring [of q] by simp

lemma queue_full_iff: "sq_inv q \<Longrightarrow> queue_full q \<longleftrightarrow> length (queue_list q) = unat (sq_capacity q)"
proof -
  assume i: "sq_inv q"
  then have "queue_full q \<longleftrightarrow> unat (next_i (sq_capacity q) (sq_tail q)) = unat (sq_head q)"
    by (simp add: queue_full_def word_unat_eq_iff)
  also have "\<dots> \<longleftrightarrow> length (queue_list q) = unat (sq_capacity q)"
    using ring_full [OF sq_ring(1,2) [OF i]] i by (simp add: unat_next_i sq_inv_def queue_list_def)
  finally show ?thesis .
qed

lemma next_i_le: "i \<le> cap \<Longrightarrow> next_i cap i \<le> cap"
  by (simp add: word_le_nat_alt [of "next_i cap i"] unat_next_i) (auto simp: word_le_nat_alt ring_next_def)

lemma prev_i_le: "i \<le> cap \<Longrightarrow> prev_i cap i \<le> cap"
  by (simp add: word_le_nat_alt [of "prev_i cap i"] unat_prev_i) (auto simp: word_le_nat_alt ring_prev_def)

lemma store_tail_correct:
  assumes "sq_inv q" "\<not> queue_full q"
  shows "sq_inv (store_tail p q)" "queue_list (store_tail p q) = queue_list q @ [p]"
    "sq_highwater (store_tail p q) = max (sq_highwater q) (int (length (queue_list q)) + 1)"
proof -
  let ?n = "unat (sq_capacity q) + 1" and ?t = "unat (sq_tail q)" and ?h = "unat (sq_head q)"
  have t: "sq_tail q \<le> sq_capacity q" "sq_head q \<le> sq_capacity q" using assms(1) by (simp_all add: sq_inv_def)
  have "ring_next ?n ?t \<noteq> ?h"
    using assms t by (simp add: queue_full_def word_unat_eq_iff unat_next_i)
  from ring_list_push [OF sq_ring(1-3) [OF assms(1)] this, of "Some p"]
  have l: "ring_list ((sq_q q)[?t := Some p]) ?n ?h (ring_next ?n ?t) = ring_list (sq_q q) ?n ?h ?t @ [Some p]" .
  then show "queue_list (store_tail p q) = queue_list q @ [p]" "sq_inv (store_tail p q)"
    using assms(1) t next_i_le [OF t(1)] by (simp_all add: queue_list_def store_tail_def Let_def unat_next_i sq_inv_def)
  have "ring_len ?n ?h (ring_next ?n ?t) = ring_len ?n ?h ?t + 1" using arg_cong [OF l, of length] by simp
  then have "storage_size (sq_capacity q) (sq_head q) (next_i (sq_capacity q) (sq_tail q)) = int (length (queue_list q)) + 1"
    using assms(1) t next_i_le [OF t(1)] by (simp add: storage_size_ring unat_next_i sq_inv_def queue_list_def)
  then show "sq_highwater (store_tail p q) = max (sq_highwater q) (int (length (queue_list q)) + 1)"
    by (simp add: store_tail_def Let_def max_def)
qed

lemma deq_correct:
  assumes "sq_inv q"
  shows "deq q = (case queue_list q of [] \<Rightarrow> (q, None) | p # ps \<Rightarrow> (q\<lparr>sq_head := next_i (sq_capacity q) (sq_head q)\<rparr>, Some p))"
    "sq_inv (fst (deq q))" "queue_list (fst (deq q)) = tl (queue_list q)"
proof -
  let ?n = "unat (sq_capacity q) + 1" and ?t = "unat (sq_tail q)" and ?h = "unat (sq_head q)"
  have h: "sq_head q \<le> sq_capacity q" using assms by (simp add: sq_inv_def)
  note r = sq_ring [OF assms]
  have "deq q = (case queue_list q of [] \<Rightarrow> (q, None) | p # ps \<Rightarrow> (q\<lparr>sq_head := next_i (sq_capacity q) (sq_head q)\<rparr>, Some p))
    \<and> sq_inv (fst (deq q)) \<and> queue_list (fst (deq q)) = tl (queue_list q)"
  proof (cases "sq_head q = sq_tail q")
    case True
    then have "queue_list q = []" using r by (simp add: queue_list_def ring_list_def ring_len_def)
    then show ?thesis using True assms by (simp add: deq_def)
  next
    case False
    then have "?h \<noteq> ?t" by (simp add: word_unat_eq_iff)
    from ring_list_pop [OF r(1,2) this, of "sq_q q"]
    have l: "ring_list (sq_q q) ?n ?h ?t = sq_q q ! ?h # ring_list (sq_q q) ?n (ring_next ?n ?h) ?t" .
    moreover obtain p where "sq_q q ! ?h = Some p" using assms l by (cases "sq_q q ! ?h") (auto simp: sq_inv_def)
    ultimately show ?thesis
      using False assms h next_i_le [OF h]
      by (auto simp: deq_def queue_list_def sq_inv_def unat_next_i Let_def)
  qed
  then show "deq q = (case queue_list q of [] \<Rightarrow> (q, None) | p # ps \<Rightarrow> (q\<lparr>sq_head := next_i (sq_capacity q) (sq_head q)\<rparr>, Some p))"
    "sq_inv (fst (deq q))" "queue_list (fst (deq q)) = tl (queue_list q)" by blast+
qed
text \<open>The loops over the stored packets.\<close>

lemma walk_all:
  assumes "i \<le> cap" "t \<le> cap" "ring_len (unat cap + 1) (unat i) (unat t) \<le> fuel"
  shows "map (\<lambda>i. A ! unat i) (walk fuel cap i t) = ring_list A (unat cap + 1) (unat i) (unat t)"
  using assms
proof (induction fuel arbitrary: i)
  case 0
  then show ?case by (simp add: ring_list_def)
next
  case (Suc fuel)
  let ?n = "unat cap + 1"
  have b: "unat i < ?n" "unat t < ?n" using Suc.prems by (simp_all add: word_le_nat_alt)
  show ?case
  proof (cases "i = t")
    case True
    then show ?thesis by (simp add: ring_list_def ring_len_def)
  next
    case False
    then have ne: "unat i \<noteq> unat t" by (simp add: word_unat_eq_iff)
    have l: "ring_list A ?n (unat i) (unat t) = A ! unat i # ring_list A ?n (unat (next_i cap i)) (unat t)" for A :: "'a list"
      using ring_list_pop [OF b ne, of A] Suc.prems(1) by (simp add: unat_next_i)
    have "ring_len ?n (unat (next_i cap i)) (unat t) \<le> fuel"
      using Suc.prems(3) arg_cong [OF l, of length A] by simp
    then show ?thesis using Suc.IH [of "next_i cap i"] Suc.prems(1,2) next_i_le False l [of A] by simp
  qed
qed

lemma stored_values:
  assumes "sq_inv q"
  shows "map (\<lambda>i. A ! unat i) (stored_indices q)
    = ring_list A (unat (sq_capacity q) + 1) (unat (sq_head q)) (unat (sq_tail q))"
  unfolding stored_indices_def
  by (rule walk_all) (use assms ring_len_bound [OF sq_ring(1,2) [OF assms]] in \<open>auto simp: sq_inv_def\<close>)

lemma stored_packets:
  assumes "sq_inv q"
  shows "map (\<lambda>i. sq_q q ! unat i) (stored_indices q) = map Some (queue_list q)"
proof -
  have "None \<notin> set (map (\<lambda>i. sq_q q ! unat i) (stored_indices q))"
    using assms by (simp only: stored_values [OF assms]) (simp add: sq_inv_def)
  then show ?thesis
    unfolding queue_list_def stored_values [OF assms, symmetric] by (auto simp: image_iff)
qed

lemma ring_list_prefix: "t < n \<Longrightarrow> length B = n \<Longrightarrow> ring_list B n 0 t = take t B"
  by (rule nth_equalityI) (auto simp: ring_list_def ring_len_def ring_idx_def)

lemma copy_packets_spec:
  assumes "j \<le> limit" "length B = unat limit + 1" "copy_packets limit A is j B = (B', j', killed)"
  defines "vals \<equiv> map (\<lambda>i. A ! unat i) is"
  shows "j' \<le> limit \<and> length B' = unat limit + 1
    \<and> take (unat j') B' = take (unat j) B @ take (unat limit - unat j) vals
    \<and> killed = drop (unat limit - unat j) vals"
  using assms(1-3) unfolding vals_def
proof (induction "is" arbitrary: j B)
  case (Cons i "is")
  show ?case
  proof (cases "j = limit")
    case True
    then show ?thesis using Cons.prems by auto
  next
    case False
    with Cons.prems(1) have "unat j < unat limit" by (simp add: word_less_nat_alt [symmetric])
    with unat_u32_less [of limit] have j: "unat j < unat limit" "unat (j + 1) = unat j + 1"
      by (simp_all add: unat_plus_if')
    then have "j + 1 \<le> limit" by (simp add: word_le_nat_alt)
    from Cons.IH [OF this, of "B[unat j := A ! unat i]"] Cons.prems False j
    show ?thesis by (auto simp: take_Suc_conv_app_nth Suc_diff_Suc Cons_eq_append_conv take_Cons' drop_Cons')
  qed
qed auto

lemma live_reconfigure_correct:
  assumes "sq_inv q" "unat new_capacity < 2 ^ 31 - 1" "live_reconfigure mem_ok new_capacity q = Some (q', killed)"
  shows "sq_inv q'" "sq_capacity q' = new_capacity"
    "new_capacity \<noteq> sq_capacity q \<Longrightarrow> queue_list q' = take (unat new_capacity) (queue_list q)
       \<and> killed = map Some (drop (unat new_capacity) (queue_list q))"
proof -
  have ne: "sq_q q \<noteq> []" using sq_ring(3) [OF assms(1)] by auto
  have "sq_inv q' \<and> sq_capacity q' = new_capacity \<and> (new_capacity \<noteq> sq_capacity q \<longrightarrow>
    queue_list q' = take (unat new_capacity) (queue_list q) \<and> killed = map Some (drop (unat new_capacity) (queue_list q)))"
  proof (cases "new_capacity = sq_capacity q")
    case True
    then show ?thesis using assms ne by (auto simp: live_reconfigure_def)
  next
    case False
    obtain B j kl where c: "copy_packets new_capacity (sq_q q) (stored_indices q) 0
        (replicate (unat new_capacity + 1) None) = (B, j, kl)"
      by (cases "copy_packets new_capacity (sq_q q) (stored_indices q) 0 (replicate (unat new_capacity + 1) None)")
    note s = copy_packets_spec [OF _ _ c, simplified]
    have B: "j \<le> new_capacity" "length B = unat new_capacity + 1"
      "take (unat j) B = map Some (take (unat new_capacity) (queue_list q))"
      "kl = map Some (drop (unat new_capacity) (queue_list q))"
      using s stored_packets [OF assms(1)] by (simp_all add: take_map drop_map)
    have q': "q' = q\<lparr>sq_q := B, sq_head := 0, sq_tail := j, sq_capacity := new_capacity\<rparr>" "killed = kl"
      using assms(3) c ne False by (auto simp: live_reconfigure_def Let_def split: if_splits)
    have "ring_list B (unat new_capacity + 1) 0 (unat j) = map Some (take (unat new_capacity) (queue_list q))"
      using ring_list_prefix [of "unat j" "unat new_capacity + 1" B] B by (simp add: word_le_nat_alt)
    moreover have "queue_list q' = map the (ring_list B (unat new_capacity + 1) 0 (unat j))"
      by (simp add: q'(1) queue_list_def)
    ultimately have "queue_list q' = take (unat new_capacity) (queue_list q)" "sq_inv q'"
      using q'(1) B(1,2) assms(2) by (auto simp: comp_def sq_inv_def)
    then show ?thesis using q' B(4) by simp
  qed
  then show "sq_inv q'" "sq_capacity q' = new_capacity"
    "new_capacity \<noteq> sq_capacity q \<Longrightarrow> queue_list q' = take (unat new_capacity) (queue_list q)
       \<and> killed = map Some (drop (unat new_capacity) (queue_list q))" by blast+
qed

lemma counters_irrelevant [simp]:
  "sq_inv (q\<lparr>sq_highwater := s\<rparr>) = sq_inv q" "queue_list (q\<lparr>sq_highwater := s\<rparr>) = queue_list q"
  "sq_inv (q\<lparr>sq_drops := d\<rparr>) = sq_inv q" "queue_list (q\<lparr>sq_drops := d\<rparr>) = queue_list q"
  by (simp_all add: sq_inv_def queue_list_def)

lemma take_state_correct:
  assumes "sq_inv old" "sq_inv q" "take_state old q = Some (q', old', killed)"
  shows "sq_inv q' \<and> queue_list q' = take (unat (sq_capacity q)) (queue_list old)
    \<and> killed = map Some (drop (unat (sq_capacity q)) (queue_list old))
    \<and> sq_inv old' \<and> queue_list old' = [] \<and> sq_highwater q' = int (length (queue_list q'))"
proof -
  obtain B j kl where c: "copy_packets (sq_capacity q) (sq_q old) (stored_indices old) 0 (sq_q q) = (B, j, kl)"
    by (cases "copy_packets (sq_capacity q) (sq_q old) (stored_indices old) 0 (sq_q q)")
  let ?q1 = "q\<lparr>sq_q := B, sq_head := 0, sq_tail := j\<rparr>"
  have B: "j \<le> sq_capacity q" "length B = unat (sq_capacity q) + 1"
    "take (unat j) B = map Some (take (unat (sq_capacity q)) (queue_list old))"
    "kl = map Some (drop (unat (sq_capacity q)) (queue_list old))"
    using copy_packets_spec [OF _ _ c, simplified] stored_packets [OF assms(1)] assms(2)
    by (simp_all add: take_map drop_map sq_inv_def)
  have "ring_list B (unat (sq_capacity q) + 1) 0 (unat j) = map Some (take (unat (sq_capacity q)) (queue_list old))"
    using ring_list_prefix [of "unat j" "unat (sq_capacity q) + 1" B] B by (simp add: word_le_nat_alt)
  then have "sq_inv ?q1 \<and> queue_list ?q1 = take (unat (sq_capacity q)) (queue_list old)"
    using B(1,2) assms(2) unfolding queue_list_def [of ?q1] by (auto simp: comp_def sq_inv_def)
  moreover have "sq_inv (old\<lparr>sq_head := 0, sq_tail := 0\<rparr>) \<and> queue_list (old\<lparr>sq_head := 0, sq_tail := 0\<rparr>) = []"
    using assms(1) by (simp add: sq_inv_def queue_list_def ring_list_def ring_len_def)
  moreover have "q' = ?q1\<lparr>sq_highwater := queue_size ?q1\<rparr>" "old' = old\<lparr>sq_head := 0, sq_tail := 0\<rparr>" "killed = kl"
    using assms(3) c by (auto simp: take_state_def Let_def split: if_splits)
  ultimately show ?thesis using B(4) queue_size_list [of ?q1] by simp
qed

lemma drain_correct:
  assumes "sq_inv q" "length (queue_list q) < fuel"
  shows "sq_inv (fst (drain fuel q)) \<and> queue_list (fst (drain fuel q)) = [] \<and> snd (drain fuel q) = queue_list q"
  using assms
proof (induction fuel arbitrary: q)
  case (Suc fuel)
  show ?case
  proof (cases "queue_list q")
    case Nil
    then show ?thesis using Suc.prems deq_correct(1) [of q] by simp
  next
    case (Cons p ps)
    then obtain q1 where d: "deq q = (q1, Some p)" using deq_correct(1) [OF Suc.prems(1)] by simp
    then show ?thesis
      using Suc.IH [of q1] Suc.prems Cons deq_correct(2,3) [OF Suc.prems(1)]
      by (simp add: case_prod_beta Let_def)
  qed
qed simp

lemma reset_correct: "sq_inv q \<Longrightarrow> sq_inv (fst (reset q)) \<and> queue_list (fst (reset q)) = [] \<and> snd (reset q) = queue_list q"
  unfolding reset_def by (rule drain_correct) (auto dest: queue_list_bound)
text \<open>
  Removal from the middle. Positions are counted from the head: \<open>ring_idx n h k\<close> is slot \<open>k\<close>.
\<close>

lemma ring_idx_inj: "h < n \<Longrightarrow> k < n \<Longrightarrow> k' < n \<Longrightarrow> ring_idx n h k = ring_idx n h k' \<longleftrightarrow> k = k'"
  by (auto simp: ring_defs split: if_splits)

lemma ring_prev_idx: "h < n \<Longrightarrow> k < n \<Longrightarrow> 0 < k \<Longrightarrow> ring_prev n (ring_idx n h k) = ring_idx n h (k - 1)"
  by (auto simp: ring_defs split: if_splits)

lemma ring_idx_tail: "h < n \<Longrightarrow> t < n \<Longrightarrow> ring_idx n h (ring_len n h t) = t"
  by (auto simp: ring_defs)

lemma ring_list_from:
  assumes "h < n" "t < n" "k \<le> ring_len n h t"
  shows "ring_list A n (ring_idx n h k) t = map (\<lambda>i. A ! ring_idx n h i) [k..<ring_len n h t]"
proof (rule nth_equalityI)
  have l: "ring_len n (ring_idx n h k) t = ring_len n h t - k" using assms by (auto simp: ring_defs split: if_splits)
  then show "length (ring_list A n (ring_idx n h k) t) = length (map (\<lambda>i. A ! ring_idx n h i) [k..<ring_len n h t])"
    by simp
  fix i assume "i < length (ring_list A n (ring_idx n h k) t)"
  then have "i < ring_len n h t - k" by (simp add: l)
  moreover from this have "ring_idx n (ring_idx n h k) i = ring_idx n h (k + i)"
    using assms by (auto simp: ring_defs split: if_splits)
  ultimately show "ring_list A n (ring_idx n h k) t ! i = map (\<lambda>i. A ! ring_idx n h i) [k..<ring_len n h t] ! i"
    by (simp add: l)
qed

lemma walk_le: "x \<in> set (walk fuel cap i t) \<Longrightarrow> i \<le> cap \<Longrightarrow> x \<le> cap"
  by (induction fuel arbitrary: i) (auto simp: next_i_le split: if_splits)

lemma stored_indices_nth:
  assumes "sq_inv q" "k < length (stored_indices q)"
  shows "unat (stored_indices q ! k) = ring_idx (unat (sq_capacity q) + 1) (unat (sq_head q)) k"
proof -
  let ?n = "unat (sq_capacity q) + 1"
  have m: "map unat (stored_indices q) = ring_list [0..<?n] ?n (unat (sq_head q)) (unat (sq_tail q))"
  proof -
    have "map unat (stored_indices q) = map (\<lambda>i. [0..<?n] ! unat i) (stored_indices q)"
    proof (rule map_cong [OF refl])
      fix i assume "i \<in> set (stored_indices q)"
      then have "i \<le> sq_capacity q"
        unfolding stored_indices_def by (rule walk_le) (use assms(1) in \<open>simp add: sq_inv_def\<close>)
      then show "unat i = [0..<?n] ! unat i" by (simp add: word_le_nat_alt nth_append)
    qed
    then show ?thesis using stored_values [OF assms(1), of "[0..<?n]"] by (simp only:)
  qed
  then have "k < ring_len ?n (unat (sq_head q)) (unat (sq_tail q))" using assms(2) by (metis length_map length_ring_list)
  then show ?thesis
    using arg_cong [OF m, of "\<lambda>xs. xs ! k"] assms(2) ring_len_bound [OF sq_ring(1,2) [OF assms(1)]] sq_ring(1) [OF assms(1)]
    by (simp del: upt_Suc)
qed

lemma length_stored_indices: "sq_inv q \<Longrightarrow> length (stored_indices q) = length (queue_list q)"
  using arg_cong [OF stored_packets, of q length] by simp

text \<open>
  The invariant of the compaction loop: the first \<open>r\<close> slots are still to be visited and
  unchanged, the slots from \<open>s\<close> on hold the packets kept so far.
\<close>

lemma yank_loop_spec:
  fixes n h L :: nat and cap :: u32
  defines "n \<equiv> unat cap + 1"
  assumes "h < n" "L < n" "length A = n" "length is = r" "\<forall>k < r. unat (is ! k) = ring_idx n h k"
    and "unat w = ring_idx n h s" "w \<le> cap" "r \<le> s" "s \<le> L"
    and "yank_loop f cap (rev is) w A ys = (w', A', ys')"
  shows "\<exists>s' \<le> L. unat w' = ring_idx n h s' \<and> w' \<le> cap \<and> length A' = n
    \<and> map (\<lambda>i. A' ! ring_idx n h i) [s'..<L]
      = filter (\<lambda>x. \<not> f x) (map (\<lambda>i. A ! ring_idx n h i) [0..<r]) @ map (\<lambda>i. A ! ring_idx n h i) [s..<L]
    \<and> ys' = ys @ rev (filter f (map (\<lambda>i. A ! ring_idx n h i) [0..<r]))"
  using assms(2-)
proof (induction r arbitrary: "is" w A ys s)
  case 0
  then show ?case by auto
next
  case (Suc r)
  obtain js i where js: "is = js @ [i]" "length js = r" using Suc.prems(4) by (cases "is" rule: rev_cases) auto
  have i: "unat i = ring_idx n h r" and jk: "\<forall>k < r. unat (js ! k) = ring_idx n h k"
    using Suc.prems(5) js by (auto simp: nth_append split: if_splits)
  show ?case
  proof (cases "f (A ! unat i)")
    case True
    then have "yank_loop f cap (rev js) w A (ys @ [A ! unat i]) = (w', A', ys')"
      using Suc.prems(10) js by simp
    from Suc.IH [OF Suc.prems(1-3) js(2) jk Suc.prems(6,7) _ Suc.prems(9) this] Suc.prems(8) True i
    show ?thesis by simp
  next
    case False
    let ?w = "prev_i cap w"
    have w: "unat ?w = ring_idx n h (s - 1)" "?w \<le> cap"
      using unat_prev_i [OF Suc.prems(7)] ring_prev_idx [of h n s] Suc.prems(1,2,6-9) prev_i_le [OF Suc.prems(7)]
      by (simp_all add: n_def)
    let ?A = "A[unat ?w := A ! unat i]"
    have e: "yank_loop f cap (rev js) ?w ?A ys = (w', A', ys')"
      using Suc.prems(10) js False by (simp add: Let_def)
    have nth: "?A ! ring_idx n h k = (if k = s - 1 then A ! unat i else A ! ring_idx n h k)" if "k < n" for k
    proof -
      have "ring_idx n h (s - 1) = ring_idx n h k \<longleftrightarrow> s - 1 = k"
        using ring_idx_inj [of h n "s - 1" k] that Suc.prems(1,2,9) by simp
      moreover have "ring_idx n h k < length A" using that Suc.prems(1,3) by simp
      ultimately show ?thesis unfolding w(1) by (auto simp: nth_list_update)
    qed
    have m: "map (\<lambda>i. ?A ! ring_idx n h i) [0..<r] = map (\<lambda>i. A ! ring_idx n h i) [0..<r]"
      "map (\<lambda>i. ?A ! ring_idx n h i) [s - 1..<L] = A ! unat i # map (\<lambda>i. A ! ring_idx n h i) [s..<L]"
      using Suc.prems(2,8,9) nth by (auto simp: upt_conv_Cons)
    have "r \<le> s - 1" "s - 1 \<le> L" "length ?A = n" using Suc.prems(3,8,9) by simp_all
    from Suc.IH [OF Suc.prems(1,2) this(3) js(2) jk w this(1,2) e, unfolded m] False i
    show ?thesis by simp
  qed
qed

lemma yank_correct:
  assumes "sq_inv q" "yank f q = (q', yanked)"
  shows "sq_inv q'" "queue_list q' = filter (\<lambda>p. \<not> f (Some p)) (queue_list q)"
    "yanked = rev (map Some (filter (\<lambda>p. f (Some p)) (queue_list q)))"
proof -
  let ?n = "unat (sq_capacity q) + 1" and ?h = "unat (sq_head q)" and ?t = "unat (sq_tail q)"
  let ?L = "ring_len ?n ?h ?t"
  note r = sq_ring [OF assms(1)]
  have L: "?L < ?n" by (rule ring_len_bound [OF r(1,2)])
  obtain w A where y: "yank_loop f (sq_capacity q) (rev (stored_indices q)) (sq_tail q) (sq_q q) [] = (w, A, yanked)"
    "q' = q\<lparr>sq_q := A, sq_head := w\<rparr>"
    using assms(2) by (auto simp: yank_def Let_def split: prod.splits)
  have len: "length (stored_indices q) = ?L"
    using arg_cong [OF stored_values [OF assms(1), of "sq_q q"], of length] by simp
  have all: "map (\<lambda>i. sq_q q ! ring_idx ?n ?h i) [0..<?L] = map Some (queue_list q)"
    using stored_packets [OF assms(1)] stored_values [OF assms(1), of "sq_q q"] by (simp add: ring_list_def)
  have tl: "sq_tail q \<le> sq_capacity q" using assms(1) by (simp add: sq_inv_def)
  have nth: "\<forall>k < ?L. unat (stored_indices q ! k) = ring_idx ?n ?h k"
    using stored_indices_nth [OF assms(1)] len by simp
  obtain s where s: "s \<le> ?L" "unat w = ring_idx ?n ?h s" "w \<le> sq_capacity q" "length A = ?n"
    "map (\<lambda>i. A ! ring_idx ?n ?h i) [s..<?L] = filter (\<lambda>x. \<not> f x) (map Some (queue_list q))"
    "yanked = rev (filter f (map Some (queue_list q)))"
    using yank_loop_spec [OF r(1) L r(3) len nth _ tl order_refl order_refl y(1)]
      ring_idx_tail [OF r(1,2)] unfolding all by auto
  have "ring_list A ?n (unat w) ?t = filter (\<lambda>x. \<not> f x) (map Some (queue_list q))"
    using ring_list_from [OF r(1,2) s(1), of A] s(2,5) by simp
  then have l: "ring_list A ?n (unat w) ?t = map Some (filter (\<lambda>p. \<not> f (Some p)) (queue_list q))"
    by (simp add: filter_map comp_def)
  then show "queue_list q' = filter (\<lambda>p. \<not> f (Some p)) (queue_list q)"
    by (simp add: y(2) queue_list_def [of "q\<lparr>sq_q := A, sq_head := w\<rparr>"] comp_def)
  show "sq_inv q'" using l s(3,4) assms(1) by (auto simp: y(2) sq_inv_def)
  show "yanked = rev (map Some (filter (\<lambda>p. f (Some p)) (queue_list q)))"
    using s(6) by (simp add: filter_map comp_def)
qed
lemma find_split_Some:
  "find_split P bs xs = Some (b, x) \<Longrightarrow> \<exists>ys zs. xs = ys @ x # zs \<and> b = rev ys @ bs \<and> P x \<and> (\<forall>y \<in> set ys. \<not> P y)"
proof (induction xs arbitrary: bs)
  case (Cons z xs)
  show ?case
  proof (cases "P z")
    case True
    then show ?thesis using Cons.prems by (intro exI [of _ "[]"] exI [of _ xs]) auto
  next
    case False
    then obtain ys zs where "xs = ys @ x # zs" "b = rev ys @ z # bs" "P x" "\<forall>y \<in> set ys. \<not> P y"
      using Cons.IH [of "z # bs"] Cons.prems by auto
    then show ?thesis using False by (intro exI [of _ "z # ys"] exI [of _ zs]) auto
  qed
qed simp

lemma find_split_None: "find_split P bs xs = None \<Longrightarrow> \<forall>x \<in> set xs. \<not> P x"
  by (induction xs arbitrary: bs) (auto split: if_splits)

lemma shift_back_spec:
  assumes "h < n" "length A = n" "m < n" "length js = m" "\<forall>k < m. unat (js ! k) = ring_idx n h k"
    and "unat i = ring_idx n h m"
  shows "length (shift_back i (rev js) A) = n
    \<and> (\<forall>k < n. shift_back i (rev js) A ! ring_idx n h k
         = A ! ring_idx n h (if 0 < k \<and> k \<le> m then k - 1 else k))"
  using assms
proof (induction m arbitrary: js i A)
  case 0
  then show ?case by simp
next
  case (Suc m)
  obtain js' j where js: "js = js' @ [j]" "length js' = m" using Suc.prems(4) by (cases js rule: rev_cases) auto
  have j: "unat j = ring_idx n h m" "\<forall>k < m. unat (js' ! k) = ring_idx n h k"
    using Suc.prems(5) js by (auto simp: nth_append split: if_splits)
  let ?A = "A[unat i := A ! unat j]"
  have nth: "?A ! ring_idx n h k = (if k = Suc m then A ! ring_idx n h m else A ! ring_idx n h k)" if "k < n" for k
    using ring_idx_inj [of h n "Suc m" k] that Suc.prems(1-3,6) j(1) by (auto simp: nth_list_update)
  have "length (shift_back j (rev js') ?A) = n \<and> (\<forall>k < n. shift_back j (rev js') ?A ! ring_idx n h k
      = ?A ! ring_idx n h (if 0 < k \<and> k \<le> m then k - 1 else k))"
    by (rule Suc.IH) (use Suc.prems j js in auto)
  then have IH: "length (shift_back i (rev js) A) = n" "\<And>k. k < n \<Longrightarrow> shift_back i (rev js) A ! ring_idx n h k
      = ?A ! ring_idx n h (if 0 < k \<and> k \<le> m then k - 1 else k)" using js by auto
  have "shift_back i (rev js) A ! ring_idx n h k = A ! ring_idx n h (if 0 < k \<and> k \<le> Suc m then k - 1 else k)"
    if "k < n" for k
    using IH(2) [OF that] nth [of "if 0 < k \<and> k \<le> m then k - 1 else k"] that
    by (cases "k = Suc m") (auto split: if_splits)
  with IH(1) show ?case by blast
qed

lemma upt_append: "i \<le> j \<Longrightarrow> j \<le> k \<Longrightarrow> [i..<j] @ [j..<k] = [i..<k]"
  by (metis le_add_diff_inverse upt_add_eq_append)

lemma upt_split: "m < L \<Longrightarrow> [0..<L] = [0..<m] @ m # [Suc m..<L]"
  using upt_append [of 0 m L] by (simp add: upt_conv_Cons)

lemma ring_list_shifted:
  assumes "h < n" "t < n" "m < ring_len n h t"
    and "\<And>k. k < n \<Longrightarrow> A' ! ring_idx n h k = A ! ring_idx n h (if 0 < k \<and> k \<le> m then k - 1 else k)"
  shows "ring_list A' n (ring_next n h) t
    = map (\<lambda>k. A ! ring_idx n h k) [0..<m] @ map (\<lambda>k. A ! ring_idx n h k) [Suc m..<ring_len n h t]"
proof -
  let ?L = "ring_len n h t"
  have L: "?L < n" by (rule ring_len_bound [OF assms(1,2)])
  then have "ring_next n h = ring_idx n h 1" using assms by (auto simp: ring_defs)
  then have "ring_list A' n (ring_next n h) t = map (\<lambda>k. A' ! ring_idx n h k) [1..<?L]"
    using ring_list_from [OF assms(1,2), of 1 A'] assms(3) by simp
  also have "[1..<?L] = map Suc [0..<m] @ [Suc m..<?L]"
    using upt_append [of 1 "Suc m" ?L] assms(3) by (simp add: map_Suc_upt)
  finally show ?thesis using assms(3,4) L by (simp add: comp_def)
qed

lemma yank1_found:
  assumes "sq_inv q" "find_split (\<lambda>i. f (sq_q q ! unat i)) [] (stored_indices q) = Some (b, i)"
  obtains ys p zs where "queue_list q = ys @ p # zs" "sq_q q ! unat i = Some p" "f (Some p)" "\<forall>y \<in> set ys. \<not> f (Some y)"
    "length (shift_back i b (sq_q q)) = length (sq_q q)"
    "ring_list (shift_back i b (sq_q q)) (unat (sq_capacity q) + 1) (ring_next (unat (sq_capacity q) + 1) (unat (sq_head q)))
       (unat (sq_tail q)) = map Some (ys @ zs)"
proof -
  let ?n = "unat (sq_capacity q) + 1" and ?h = "unat (sq_head q)" and ?t = "unat (sq_tail q)"
  let ?L = "ring_len ?n ?h ?t" and ?v = "\<lambda>k. sq_q q ! ring_idx ?n ?h k"
  note rg = sq_ring [OF assms(1)]
  obtain js ks where js: "stored_indices q = js @ i # ks" "b = rev js" "f (sq_q q ! unat i)" "\<forall>j \<in> set js. \<not> f (sq_q q ! unat j)"
    using find_split_Some [OF assms(2)] by auto
  let ?m = "length js"
  have len: "length (stored_indices q) = ?L" using arg_cong [OF stored_values [OF assms(1), of "sq_q q"], of length] by simp
  then have m: "?m < ?L" "?L < ?n" using js(1) ring_len_bound [OF rg(1,2)] by auto
  have ni: "unat (stored_indices q ! k) = ring_idx ?n ?h k" if "k < ?L" for k
    using stored_indices_nth [OF assms(1)] len that by simp
  have "js ! k = stored_indices q ! k" if "k < ?m" for k using that by (simp add: js(1) nth_append)
  then have idx: "\<forall>k < ?m. unat (js ! k) = ring_idx ?n ?h k" "unat i = ring_idx ?n ?h ?m"
    using ni m(1) ni [OF m(1)] by (simp_all add: js(1))
  note sb = shift_back_spec [OF rg(1,3) _ refl idx, folded js(2)]
  have "map Some (queue_list q) = map ?v [0..<?L]"
    using stored_packets [OF assms(1)] stored_values [OF assms(1), of "sq_q q"] by (simp add: ring_list_def)
  then have "map Some (queue_list q) = map ?v [0..<?m] @ ?v ?m # map ?v [Suc ?m..<?L]" unfolding upt_split [OF m(1)] by simp
  then obtain ys p zs where ql: "queue_list q = ys @ p # zs" "map Some ys = map ?v [0..<?m]" "Some p = ?v ?m"
    "map Some zs = map ?v [Suc ?m..<?L]" by (auto simp: map_eq_append_conv map_eq_Cons_conv)
  have "map Some ys = map (\<lambda>j. sq_q q ! unat j) js" unfolding ql(2) using idx(1) by (auto intro!: nth_equalityI)
  then have "set (map Some ys) = set (map (\<lambda>j. sq_q q ! unat j) js)" by simp
  with js(4) have "\<forall>y \<in> set (map Some ys). \<not> f y" by (simp only:) simp
  then have "\<forall>y \<in> set ys. \<not> f (Some y)" by simp
  moreover have "length (shift_back i b (sq_q q)) = length (sq_q q)" using sb m rg(3) by simp
  moreover have "ring_list (shift_back i b (sq_q q)) ?n (ring_next ?n ?h) ?t = map Some (ys @ zs)"
    using ring_list_shifted [OF rg(1,2) m(1), of "shift_back i b (sq_q q)" "sq_q q"] sb m ql(2,4) by simp
  moreover have "sq_q q ! unat i = Some p" "f (Some p)" using ql(3) js(3) idx(2) by simp_all
  ultimately show ?thesis using that [of ys p zs] ql(1) by blast
qed

lemma yank1_correct:
  assumes "sq_inv q" "yank1 f q = (q', r)"
  shows "sq_inv q' \<and> (case r of
      None \<Rightarrow> q' = q \<and> (\<forall>p \<in> set (queue_list q). \<not> f (Some p))
    | Some p \<Rightarrow> \<exists>ys zs. queue_list q = ys @ p # zs \<and> queue_list q' = ys @ zs \<and> f (Some p)
        \<and> (\<forall>y \<in> set ys. \<not> f (Some y)))"
proof (cases "find_split (\<lambda>i. f (sq_q q ! unat i)) [] (stored_indices q)")
  case None
  have "\<forall>x \<in> set (map (\<lambda>i. sq_q q ! unat i) (stored_indices q)). \<not> f x" using find_split_None [OF None] by simp
  then show ?thesis using assms None unfolding stored_packets [OF assms(1)] by (auto simp: yank1_def)
next
  case (Some bt)
  obtain b i where bt: "bt = (b, i)" by (cases bt)
  have h: "sq_head q \<le> sq_capacity q" using assms(1) by (simp add: sq_inv_def)
  obtain ys p zs where y: "queue_list q = ys @ p # zs" "sq_q q ! unat i = Some p" "f (Some p)" "\<forall>y \<in> set ys. \<not> f (Some y)"
    "length (shift_back i b (sq_q q)) = length (sq_q q)"
    "ring_list (shift_back i b (sq_q q)) (unat (sq_capacity q) + 1) (unat (next_i (sq_capacity q) (sq_head q)))
       (unat (sq_tail q)) = map Some (ys @ zs)"
    using yank1_found [OF assms(1) Some [unfolded bt]] h by (auto simp: unat_next_i)
  have q': "q' = q\<lparr>sq_q := shift_back i b (sq_q q), sq_head := next_i (sq_capacity q) (sq_head q)\<rparr>" "r = Some p"
    using assms(2) Some y(2) by (simp_all add: yank1_def bt)
  have "queue_list q' = ys @ zs" using y(6) by (simp add: q'(1) queue_list_def comp_def)
  moreover have "sq_inv q'" using y(5,6) assms(1) next_i_le [OF h] by (auto simp: q'(1) sq_inv_def)
  ultimately show ?thesis using y q'(2) by auto
qed

lemma lifo_enq_correct:
  assumes "sq_inv q" "0 < sq_capacity q" "lifo_enq p q = (q', killed)"
  shows "sq_inv q' \<and> (if queue_full q
      then queue_list q' = p # butlast (queue_list q) \<and> killed = Some (last (queue_list q))
      else queue_list q' = p # queue_list q \<and> killed = None)"
proof -
  let ?n = "unat (sq_capacity q) + 1" and ?h = "unat (sq_head q)" and ?t = "unat (sq_tail q)"
  let ?ph = "prev_i (sq_capacity q) (sq_head q)" and ?pt = "prev_i (sq_capacity q) (sq_tail q)"
  have le: "sq_head q \<le> sq_capacity q" "sq_tail q \<le> sq_capacity q" using assms(1) by (simp_all add: sq_inv_def)
  note pl = prev_i_le [OF le(1)] prev_i_le [OF le(2)]
  note pu = unat_prev_i [OF le(1)] unat_prev_i [OF le(2)]
  note rg = sq_ring [OF assms(1)]
  have full: "queue_full q \<longleftrightarrow> ?ph = sq_tail q"
    using rg(1,2) le(2) by (auto simp: queue_full_def word_unat_eq_iff unat_next_i pu ring_defs split: if_splits)
  show ?thesis
  proof (cases "queue_full q")
    case False
    then have "ring_prev ?n ?h \<noteq> ?t" using full by (simp add: word_unat_eq_iff pu)
    note l = ring_list_prepend [OF rg(1-3) this, of "Some p"]
    have "q' = q\<lparr>sq_q := (sq_q q)[unat ?ph := Some p], sq_head := ?ph\<rparr>" "killed = None"
      using assms(3) False full by (simp_all add: lifo_enq_def Let_def)
    then show ?thesis using False l assms(1) pl by (simp add: sq_inv_def queue_list_def pu)
  next
    case True
    then have L: "length (queue_list q) = unat (sq_capacity q)" using queue_full_iff [OF assms(1)] by simp
    have "0 < unat (sq_capacity q)" using assms(2) by (simp add: word_less_nat_alt)
    then have ne: "?h \<noteq> ?t" using L rg by (auto simp: queue_list_def ring_list_def ring_len_def)
    note last = ring_list_last [OF rg(1,2) ne, of "sq_q q"]
    have pt: "ring_prev ?n ?t < ?n" "ring_prev ?n ?h \<noteq> ring_prev ?n ?t"
      using rg(1,2) ne by (simp, metis ring_prev_next(2))
    note l = ring_list_prepend [OF rg(1) pt(1) rg(3) pt(2), of "Some p"]
    have "q' = q\<lparr>sq_tail := ?pt, sq_q := (sq_q q)[unat ?ph := Some p], sq_head := ?ph\<rparr>" "killed = sq_q q ! unat ?pt"
      using assms(3) True full by (simp_all add: lifo_enq_def Let_def)
    moreover obtain x where "sq_q q ! ring_prev ?n ?t = Some x"
      using last assms(1) by (cases "sq_q q ! ring_prev ?n ?t") (auto simp: sq_inv_def)
    ultimately show ?thesis using True l last assms(1) pl by (auto simp: sq_inv_def queue_list_def pu)
  qed
qed
section \<open>SimpleQueue is a bounded FIFO\<close>

lemma queue_push_cases:
  "queue_push p q = (if queue_full q then (q\<lparr>sq_drops := sq_drops q + 1\<rparr>, Some p) else (store_tail p q, None))"
  by (simp add: queue_push_def)

lemma capacity_kept [simp]:
  "sq_capacity (store_tail p q) = sq_capacity q" "sq_capacity (fst (deq q)) = sq_capacity q"
  by (simp_all add: store_tail_def deq_def Let_def)

interpretation sq: bounded_fifo "sq_inv :: 'p simple_queue \<Rightarrow> bool" queue_list "\<lambda>q. unat (sq_capacity q)" queue_push deq
proof unfold_locales
  fix q :: "'p simple_queue" and p
  assume i: "sq_inv q"
  show "length (queue_list q) \<le> unat (sq_capacity q)" by (rule queue_list_bound [OF i])
  show "sq_inv (fst (queue_push p q)) \<and> unat (sq_capacity (fst (queue_push p q))) = unat (sq_capacity q)"
    using i store_tail_correct(1) [OF i] by (simp add: queue_push_cases)
  show "queue_list (fst (queue_push p q)) = queue_list q @ [p] \<and> snd (queue_push p q) = None"
    if "length (queue_list q) < unat (sq_capacity q)"
    using that store_tail_correct(2) [OF i] by (simp add: queue_push_cases queue_full_iff [OF i])
  show "queue_list (fst (queue_push p q)) = queue_list q \<and> snd (queue_push p q) = Some p"
    if "length (queue_list q) = unat (sq_capacity q)"
    using that by (simp add: queue_push_cases queue_full_iff [OF i])
  show "sq_inv (fst (deq q)) \<and> unat (sq_capacity (fst (deq q))) = unat (sq_capacity q)"
    using deq_correct(2) [OF i] by simp
  show "queue_list (fst (deq q)) = tl (queue_list q)
      \<and> snd (deq q) = (case queue_list q of [] \<Rightarrow> None | p # ps \<Rightarrow> Some p)"
    using deq_correct(1,3) [OF i] by (auto split: list.splits)
qed

section \<open>Every operation keeps the queue well formed\<close>

text \<open>
  The steps of a queue in a running router: pushes, pulls and handler calls, in any order.
  \<open>lifo_enq\<close> is only called on queues with room for one packet.
\<close>

inductive queue_step :: "'p simple_queue \<Rightarrow> 'p simple_queue \<Rightarrow> bool" where
  step_push: "queue_step q (fst (queue_push p q))"
| step_pull: "queue_step q (fst (deq q))"
| step_enq: "queue_step q (fst (enq p q))"
| step_lifo: "0 < sq_capacity q \<Longrightarrow> queue_step q (fst (lifo_enq p q))"
| step_yank1: "queue_step q (fst (yank1 f q))"
| step_yank: "queue_step q (fst (yank f q))"
| step_capacity: "unat c < 2 ^ 31 - 1 \<Longrightarrow> live_reconfigure mem_ok c q = Some (q', killed) \<Longrightarrow> queue_step q q'"
| step_reset: "queue_step q (fst (reset q))"
| step_counts: "queue_step q (reset_counts q)"
| step_take: "sq_inv (old :: 'p simple_queue) \<Longrightarrow> take_state old q = Some (q', old', killed) \<Longrightarrow> queue_step q q'"

inductive_cases queue_stepE: "queue_step q q'"

lemma enq_push: "fst (enq p q) = fst (queue_push p q)"
  by (simp add: enq_def queue_push_def)

lemma queue_step_inv:
  assumes "queue_step q q'" "sq_inv q"
  shows "sq_inv q'"
  using assms(1)
proof (cases rule: queue_step.cases)
  case (step_lifo p)
  then show ?thesis using lifo_enq_correct [OF assms(2), of p] by (cases "lifo_enq p q") auto
next
  case (step_yank1 f)
  then show ?thesis using yank1_correct [OF assms(2), of f] by (cases "yank1 f q") auto
next
  case (step_yank f)
  then show ?thesis using yank_correct(1) [OF assms(2), of f] by (cases "yank f q") auto
next
  case (step_capacity c mem_ok killed)
  then show ?thesis using live_reconfigure_correct(1) [OF assms(2)] by simp
next
  case (step_take old old' killed)
  then show ?thesis using take_state_correct [OF step_take(1) assms(2) step_take(2)] by simp
qed (simp_all add: assms(2) sq.push_inv sq.pull_inv enq_push reset_correct reset_counts_def)

lemma initialized_queue:
  "unat c < 2 ^ 31 - 1 \<Longrightarrow> queue_initialize True (new_queue c) = Some q \<Longrightarrow> sq_inv q \<and> queue_list q = []"
  by (auto simp: queue_initialize_def new_queue_def sq_inv_def queue_list_def ring_list_def ring_len_def)

section \<open>Properties\<close>

text \<open>
  C30: an initialised queue stays well formed under any sequence of pushes, pulls, yanks,
  capacity changes, state transfers and handler calls: the indices it uses stay inside the
  allocated array, no slot between head and tail is a null pointer, the reported size is the
  number of packets stored, and it never exceeds the capacity.
\<close>

theorem queue_reachable:
  assumes "unat c < 2 ^ 31 - 1" "queue_initialize True (new_queue c) = Some q0" "queue_step\<^sup>*\<^sup>* q0 q"
  shows "unat (sq_head q) < length (sq_q q) \<and> unat (sq_tail q) < length (sq_q q)
    \<and> map (\<lambda>i. sq_q q ! unat i) (stored_indices q) = map Some (queue_list q)
    \<and> queue_size q = int (length (queue_list q)) \<and> length (queue_list q) \<le> unat (sq_capacity q)"
proof -
  have "sq_inv q"
    using assms(3) by (induction rule: rtranclp_induct) (use initialized_queue [OF assms(1,2)] queue_step_inv in blast)+
  then show ?thesis
    using index_in_range stored_packets queue_size_list queue_list_bound by blast
qed

theorem queue_reachable_witness:
  "let q0 = the (queue_initialize True (new_queue 2 :: nat simple_queue));
       q = fst (queue_push 7 (fst (queue_push 5 q0)))
   in queue_size q = int (length (queue_list q)) \<and> queue_list q = [5, 7]"
proof -
  let ?init = "the (queue_initialize True (new_queue 2 :: nat simple_queue))"
  let ?q = "fst (queue_push 7 (fst (queue_push 5 ?init)))"
  have i: "queue_initialize True (new_queue 2 :: nat simple_queue) = Some ?init" by (simp add: queue_initialize_def)
  have "queue_step ?init (fst (queue_push 5 ?init))" "queue_step (fst (queue_push 5 ?init)) ?q" by (rule step_push)+
  then have r: "queue_step\<^sup>*\<^sup>* ?init ?q" by simp
  have "queue_list ?q = [5, 7]" by code_simp
  moreover have "queue_size ?q = int (length (queue_list ?q))" using queue_reachable [OF _ i r] by simp
  ultimately show ?thesis unfolding Let_def by blast
qed

text \<open>
  \<open>yank\<close> is \<open>filter\<close>: it takes out exactly the packets the filter accepts, the last one
  first, and leaves the others in their order.
\<close>

theorem yank_is_filter:
  assumes "sq_inv q"
  shows "queue_list (fst (yank f q)) = filter (\<lambda>p. \<not> f (Some p)) (queue_list q)
    \<and> snd (yank f q) = rev (map Some (filter (\<lambda>p. f (Some p)) (queue_list q)))"
  using yank_correct [OF assms, of f "fst (yank f q)" "snd (yank f q)"] by simp

theorem yank_is_filter_witness:
  "let q = fst (queue_push 6 (fst (queue_push 5 (fst (queue_push 4 (the (queue_initialize True (new_queue 3 :: nat simple_queue))))))))
   in queue_list (fst (yank (\<lambda>x. even (the x)) q)) = [5]"
proof -
  let ?init = "the (queue_initialize True (new_queue 3 :: nat simple_queue))"
  let ?q = "fst (queue_push 6 (fst (queue_push 5 (fst (queue_push 4 ?init)))))"
  have "sq_inv ?init" using initialized_queue [of 3 ?init] by (simp add: queue_initialize_def)
  then have i: "sq_inv ?q" by (simp add: sq.push_inv)
  have "queue_list ?q = [4, 5, 6]" by code_simp
  then show ?thesis using yank_is_filter [OF i, of "\<lambda>x. even (the x)"] by simp
qed

text \<open>
  A capacity change at run time keeps the oldest packets, as many as fit, in their order,
  and kills the others.
\<close>

theorem live_reconfigure_keeps_oldest:
  assumes "sq_inv q" "unat c < 2 ^ 31 - 1" "c \<noteq> sq_capacity q" "live_reconfigure mem_ok c q = Some (q', killed)"
  shows "queue_list q' = take (unat c) (queue_list q) \<and> sq_capacity q' = c
    \<and> killed = map Some (drop (unat c) (queue_list q)) \<and> sq_inv q'"
  using live_reconfigure_correct [OF assms(1,2,4)] assms(3) by blast

theorem live_reconfigure_keeps_oldest_witness:
  "let q = fst (queue_push 6 (fst (queue_push 5 (the (queue_initialize True (new_queue 3 :: nat simple_queue))))))
   in \<exists>q' killed. live_reconfigure True 1 q = Some (q', killed) \<and> queue_list q' = [5] \<and> killed = [Some 6]"
proof -
  let ?init = "the (queue_initialize True (new_queue 3 :: nat simple_queue))"
  let ?q = "fst (queue_push 6 (fst (queue_push 5 ?init)))"
  have "sq_inv ?init" using initialized_queue [of 3 ?init] by (simp add: queue_initialize_def)
  then have i: "sq_inv ?q" by (simp add: sq.push_inv)
  have l: "queue_list ?q = [5, 6]" "sq_capacity ?q = 3" by code_simp+
  have "live_reconfigure True 1 ?q \<noteq> None" by code_simp
  then obtain q' killed where r: "live_reconfigure True 1 ?q = Some (q', killed)" by (cases "live_reconfigure True 1 ?q") auto
  then show ?thesis using live_reconfigure_keeps_oldest [OF i _ _ r] l by (auto simp: Let_def)
qed

end
