(* ===== verification/Click_Note_Queue.thy ===== *)
theory Click_Note_Queue
  imports Click_Storage
begin

text \<open>
  The queues with notification: \<open>NotifierQueue\<close> and \<open>FullNoteQueue\<close>, the element that
  configurations call \<open>Queue\<close> (\<open>elements/standard/notifierqueue.{cc,hh}\<close>,
  \<open>fullnotequeue.{cc,hh}\<close>). An \<open>ActiveNotifier\<close> (\<open>include/click/notifier.hh\<close>) is the bit of
  its signal; a result of type \<open>bool\<close> says whether its listeners are rescheduled.
\<close>

section \<open>Definitions\<close>

definition SLEEPINESS_TRIGGER :: int where "SLEEPINESS_TRIGGER = 9"

record 'p note_queue = "'p simple_queue" +
  nq_sleepiness :: int
  nq_empty_note :: bool
  nq_full_note :: bool

text \<open>\<open>ActiveNotifier::set_active\<close> on a signal: the new signal, and whether listeners are scheduled.\<close>

definition set_active :: "bool \<Rightarrow> bool \<Rightarrow> bool \<Rightarrow> bool \<times> bool" where
  "set_active active schedule was_active = (active, active \<and> schedule \<and> \<not> was_active)"

definition wake_empty :: "'p note_queue \<Rightarrow> 'p note_queue \<times> bool" where
  "wake_empty q = (let (a, woken) = set_active True True (nq_empty_note q) in (q\<lparr>nq_empty_note := a\<rparr>, woken))"

definition sleep_empty :: "'p note_queue \<Rightarrow> 'p note_queue" where
  "sleep_empty q = q\<lparr>nq_empty_note := fst (set_active False True (nq_empty_note q))\<rparr>"

definition wake_full :: "'p note_queue \<Rightarrow> 'p note_queue \<times> bool" where
  "wake_full q = (let (a, woken) = set_active True True (nq_full_note q) in (q\<lparr>nq_full_note := a\<rparr>, woken))"

definition sleep_full :: "'p note_queue \<Rightarrow> 'p note_queue" where
  "sleep_full q = q\<lparr>nq_full_note := fst (set_active False True (nq_full_note q))\<rparr>"

text \<open>A configured and initialised queue: both signals are active.\<close>

definition new_note_queue :: "u32 \<Rightarrow> 'p note_queue" where
  "new_note_queue c = \<lparr>sq_capacity = c, sq_head = 0, sq_tail = 0, sq_q = replicate (unat c + 1) None,
     sq_drops = 0, sq_highwater = 0, nq_sleepiness = 0, nq_empty_note = True, nq_full_note = True\<rparr>"

text \<open>\<open>NotifierQueue\<close>: state, overflow to output 1, and whether listeners of the signal are scheduled.\<close>

definition notifier_push :: "'p \<Rightarrow> 'p note_queue \<Rightarrow> 'p note_queue \<times> 'p option \<times> bool" where
  "notifier_push p q =
     (if \<not> queue_full q then let (q1, woken) = wake_empty (store_tail p q) in (q1, None, woken)
      else (q\<lparr>sq_drops := sq_drops q + 1\<rparr>, Some p, False))"

definition notifier_pull :: "'p note_queue \<Rightarrow> 'p note_queue \<times> 'p option" where
  "notifier_pull q =
     (case deq q of
        (q1, Some p) \<Rightarrow> (q1\<lparr>nq_sleepiness := 0\<rparr>, Some p)
      | (q1, None) \<Rightarrow>
          (if SLEEPINESS_TRIGGER \<le> nq_sleepiness q1
           then let q2 = sleep_empty q1 in (if queue_size q2 \<noteq> 0 then fst (wake_empty q2) else q2, None)
           else (q1\<lparr>nq_sleepiness := nq_sleepiness q1 + 1\<rparr>, None)))"

text \<open>\<open>FullNoteQueue\<close>.\<close>

definition push_success :: "'p \<Rightarrow> 'p note_queue \<Rightarrow> 'p note_queue" where
  "push_success p q =
     (let q1 = store_tail p q; s = storage_size (sq_capacity q) (sq_head q) (sq_tail q1);
          q2 = fst (wake_empty q1)
      in if s = sint (sq_capacity q)
         then let q3 = sleep_full q2
              in if queue_size q3 < sint (sq_capacity q3) then fst (wake_full q3) else q3
         else q2)"

definition push_failure :: "'p \<Rightarrow> 'p note_queue \<Rightarrow> 'p note_queue \<times> 'p option" where
  "push_failure p q = (q\<lparr>sq_drops := sq_drops q + 1\<rparr>, Some p)"

definition pull_success :: "'p note_queue \<Rightarrow> 'p note_queue \<times> 'p option" where
  "pull_success q =
     (let h = sq_head q; p = sq_q q ! unat h; q1 = q\<lparr>sq_head := next_i (sq_capacity q) h, nq_sleepiness := 0\<rparr>
      in (fst (wake_full q1), p))"

definition pull_failure :: "'p note_queue \<Rightarrow> 'p note_queue \<times> 'p option" where
  "pull_failure q =
     (if SLEEPINESS_TRIGGER \<le> nq_sleepiness q
      then let q1 = sleep_empty q in (if queue_size q1 \<noteq> 0 then fst (wake_empty q1) else q1, None)
      else (q\<lparr>nq_sleepiness := nq_sleepiness q + 1\<rparr>, None))"

definition full_push :: "'p \<Rightarrow> 'p note_queue \<Rightarrow> 'p note_queue \<times> 'p option" where
  "full_push p q = (if \<not> queue_full q then (push_success p q, None) else push_failure p q)"

definition full_pull :: "'p note_queue \<Rightarrow> 'p note_queue \<times> 'p option" where
  "full_pull q = (if sq_head q \<noteq> sq_tail q then pull_success q else pull_failure q)"

definition full_live_reconfigure ::
  "bool \<Rightarrow> u32 \<Rightarrow> 'p note_queue \<Rightarrow> ('p note_queue \<times> 'p option list) option" where
  "full_live_reconfigure mem_ok c q =
     map_option (\<lambda>(q1, killed).
       (if queue_size q1 < sint (sq_capacity q1) \<and> sq_q q1 \<noteq> [] then fst (wake_full q1) else q1, killed))
       (live_reconfigure mem_ok c q)"

text \<open>\<open>reset\<close> is inherited, but calls the virtual \<open>pull\<close>.\<close>

fun full_drain :: "nat \<Rightarrow> 'p note_queue \<Rightarrow> 'p note_queue \<times> 'p list" where
  "full_drain 0 q = (q, [])"
| "full_drain (Suc fuel) q =
     (case full_pull q of
        (q', None) \<Rightarrow> (q', [])
      | (q', Some p) \<Rightarrow> (let (q'', ps) = full_drain fuel q' in (q'', p # ps)))"

definition full_reset :: "'p note_queue \<Rightarrow> 'p note_queue \<times> 'p list" where
  "full_reset q = full_drain (unat (sq_capacity q) + 1) q"

section \<open>The signals\<close>

lemma note_irrelevant [simp]:
  "sq_inv (q\<lparr>nq_empty_note := a\<rparr>) = sq_inv q" "queue_list (q\<lparr>nq_empty_note := a\<rparr>) = queue_list q"
  "sq_inv (q\<lparr>nq_full_note := a\<rparr>) = sq_inv q" "queue_list (q\<lparr>nq_full_note := a\<rparr>) = queue_list q"
  "sq_inv (q\<lparr>nq_sleepiness := n\<rparr>) = sq_inv q" "queue_list (q\<lparr>nq_sleepiness := n\<rparr>) = queue_list q"
  by (simp_all add: sq_inv_def queue_list_def)

lemma signal_simps [simp]:
  "fst (wake_empty q) = q\<lparr>nq_empty_note := True\<rparr>" "sleep_empty q = q\<lparr>nq_empty_note := False\<rparr>"
  "fst (wake_full q) = q\<lparr>nq_full_note := True\<rparr>" "sleep_full q = q\<lparr>nq_full_note := False\<rparr>"
  by (simp_all add: wake_empty_def sleep_empty_def wake_full_def sleep_full_def set_active_def)

text \<open>
  The contract of the two signals: the empty signal is active whenever there is a packet to
  pull, the full signal whenever there is room for one.
\<close>

definition note_inv :: "'p note_queue \<Rightarrow> bool" where
  "note_inv q \<longleftrightarrow> sq_inv q \<and> 0 \<le> nq_sleepiness q \<and> nq_sleepiness q \<le> SLEEPINESS_TRIGGER
     \<and> (queue_list q \<noteq> [] \<longrightarrow> nq_empty_note q) \<and> (\<not> queue_full q \<longrightarrow> nq_full_note q)"

lemma new_note_queue_inv: "unat c < 2 ^ 31 - 1 \<Longrightarrow> note_inv (new_note_queue c :: 'p note_queue) \<and> queue_list (new_note_queue c :: 'p note_queue) = []"
  by (auto simp: note_inv_def new_note_queue_def sq_inv_def queue_list_def ring_list_def ring_len_def SLEEPINESS_TRIGGER_def)

lemma sint_capacity: "sq_inv q \<Longrightarrow> sint (sq_capacity q) = int (unat (sq_capacity q))"
  by (simp add: sq_inv_def sint_u32)

lemma store_tail_notes [simp]:
  "nq_sleepiness (store_tail p q) = nq_sleepiness q" "nq_empty_note (store_tail p q) = nq_empty_note q"
  "nq_full_note (store_tail p q) = nq_full_note q"
  by (simp_all add: store_tail_def Let_def)

lemma push_success_correct:
  assumes "note_inv q" "\<not> queue_full q"
  shows "note_inv (push_success p q)" "queue_list (push_success p q) = queue_list q @ [p]"
    "sq_capacity (push_success p q) = sq_capacity q"
proof -
  have i: "sq_inv q" using assms(1) by (simp add: note_inv_def)
  note st = store_tail_correct(1,2) [OF i assms(2), of p]
  have s: "storage_size (sq_capacity q) (sq_head q) (sq_tail (store_tail p q)) = queue_size (store_tail p q)"
    by (simp add: queue_size_def store_tail_def Let_def)
  have sz: "queue_size (store_tail p q) = int (length (queue_list q)) + 1"
    using queue_size_list [OF st(1)] st(2) by simp
  have ir: "queue_size (r\<lparr>nq_empty_note := a, nq_full_note := b\<rparr>) = queue_size r"
    "queue_full (r\<lparr>nq_empty_note := a\<rparr>) = queue_full r" "queue_full (r\<lparr>nq_full_note := b\<rparr>) = queue_full r" for r :: "'a note_queue" and a b
    by (simp_all add: queue_size_def queue_full_def)
  have e: "push_success p q = (if int (length (queue_list q)) + 1 = sint (sq_capacity q)
      then (store_tail p q)\<lparr>nq_empty_note := True, nq_full_note := False\<rparr>
      else (store_tail p q)\<lparr>nq_empty_note := True\<rparr>)"
    by (simp add: push_success_def Let_def s sz ir)
  show "queue_list (push_success p q) = queue_list q @ [p]" "sq_capacity (push_success p q) = sq_capacity q"
    using st by (simp_all add: e)
  have "queue_full (store_tail p q) \<longleftrightarrow> int (length (queue_list q)) + 1 = sint (sq_capacity q)"
    using queue_full_iff [OF st(1)] st(2) by (simp add: sint_capacity [OF i] del: of_nat_unat) linarith
  then show "note_inv (push_success p q)"
    using assms(1) st assms(2) by (auto simp: e note_inv_def ir)
qed

lemma queue_list_empty: "sq_inv q \<Longrightarrow> queue_list q = [] \<longleftrightarrow> sq_head q = sq_tail q"
  using ring_len_0 [OF sq_ring(1,2), of q] by (simp add: queue_list_def word_unat_eq_iff flip: length_0_conv)

lemma full_push_correct:
  assumes "note_inv q"
  shows "note_inv (fst (full_push p q)) \<and> sq_capacity (fst (full_push p q)) = sq_capacity q
    \<and> queue_list (fst (full_push p q)) = (if queue_full q then queue_list q else queue_list q @ [p])
    \<and> snd (full_push p q) = (if queue_full q then Some p else None)"
proof (cases "queue_full q")
  case True
  then show ?thesis
    using assms by (auto simp: full_push_def push_failure_def note_inv_def queue_full_def)
qed (use push_success_correct [OF assms] in \<open>simp add: full_push_def\<close>)

lemma full_pull_correct:
  assumes "note_inv q"
  shows "note_inv (fst (full_pull q)) \<and> sq_capacity (fst (full_pull q)) = sq_capacity q
    \<and> queue_list (fst (full_pull q)) = tl (queue_list q)
    \<and> snd (full_pull q) = (case queue_list q of [] \<Rightarrow> None | p # ps \<Rightarrow> Some p)"
proof -
  have i: "sq_inv q" using assms by (simp add: note_inv_def)
  show ?thesis
  proof (cases "queue_list q")
    case Nil
    then have "sq_head q = sq_tail q" using queue_list_empty [OF i] by simp
    moreover have "queue_size (q\<lparr>nq_empty_note := False\<rparr>) = 0"
      using queue_size_list [OF i] Nil by (simp add: queue_size_def)
    ultimately show ?thesis
      using assms Nil by (auto simp: full_pull_def pull_failure_def note_inv_def Let_def queue_full_def SLEEPINESS_TRIGGER_def)
  next
    case (Cons p ps)
    then have d: "sq_head q \<noteq> sq_tail q" "sq_q q ! unat (sq_head q) = Some p"
      using deq_correct(1) [OF i] by (auto simp: deq_def Let_def split: if_splits)
    let ?q = "q\<lparr>sq_head := next_i (sq_capacity q) (sq_head q)\<rparr>"
    have "fst (deq q) = ?q" using d by (simp add: deq_def)
    then have q': "sq_inv ?q" "queue_list ?q = ps" using deq_correct(2,3) [OF i] Cons by simp_all
    have e: "full_pull q = (?q\<lparr>nq_sleepiness := 0, nq_full_note := True\<rparr>, Some p)"
      using d by (simp add: full_pull_def pull_success_def Let_def)
    show ?thesis using assms q' Cons by (auto simp: e note_inv_def SLEEPINESS_TRIGGER_def)
  qed
qed

interpretation fq: bounded_fifo note_inv queue_list "\<lambda>q. unat (sq_capacity q)" full_push full_pull
proof unfold_locales
  fix q :: "'p note_queue" and p
  assume n: "note_inv q"
  then have i: "sq_inv q" by (simp add: note_inv_def)
  show "length (queue_list q) \<le> unat (sq_capacity q)" by (rule queue_list_bound [OF i])
  note pc = full_push_correct [OF n, of p] and uc = full_pull_correct [OF n] and f = queue_full_iff [OF i]
  show "note_inv (fst (full_push p q)) \<and> unat (sq_capacity (fst (full_push p q))) = unat (sq_capacity q)" using pc by simp
  show "queue_list (fst (full_push p q)) = queue_list q @ [p] \<and> snd (full_push p q) = None"
    if "length (queue_list q) < unat (sq_capacity q)" using that pc f by simp
  show "queue_list (fst (full_push p q)) = queue_list q \<and> snd (full_push p q) = Some p"
    if "length (queue_list q) = unat (sq_capacity q)" using that pc f by simp
  show "note_inv (fst (full_pull q)) \<and> unat (sq_capacity (fst (full_pull q))) = unat (sq_capacity q)" using uc by simp
  show "queue_list (fst (full_pull q)) = tl (queue_list q)
      \<and> snd (full_pull q) = (case queue_list q of [] \<Rightarrow> None | p # ps \<Rightarrow> Some p)" using uc by simp
qed
section \<open>Reachable states\<close>

text \<open>
  The steps of a \<open>FullNoteQueue\<close>: packets, handlers, and the transfer of state at a hot swap,
  when no one has pulled from the new queue yet.
\<close>

inductive full_step :: "'p note_queue \<Rightarrow> 'p note_queue \<Rightarrow> bool" where
  full_step_push: "full_step q (fst (full_push p q))"
| full_step_pull: "full_step q (fst (full_pull q))"
| full_step_capacity: "unat c < 2 ^ 31 - 1 \<Longrightarrow> full_live_reconfigure mem_ok c q = Some (q', killed) \<Longrightarrow> full_step q q'"
| full_step_reset: "full_step q (fst (full_reset q))"
| full_step_counts: "full_step q (reset_counts q)"
| full_step_take: "sq_inv (old :: 'p note_queue) \<Longrightarrow> nq_empty_note q \<Longrightarrow> nq_full_note q \<Longrightarrow>
    take_state old q = Some (q', old', killed) \<Longrightarrow> full_step q q'"

lemma full_drain_inv: "note_inv q \<Longrightarrow> note_inv (fst (full_drain fuel q))"
proof (induction fuel arbitrary: q)
  case (Suc fuel)
  obtain q1 r where 1: "full_pull q = (q1, r)" by (cases "full_pull q")
  then have "note_inv q1" using full_pull_correct [OF Suc.prems] by simp
  then show ?case using Suc.IH [of q1] 1 by (auto simp: case_prod_beta Let_def split: option.splits)
qed simp

lemma full_reset_inv: "note_inv q \<Longrightarrow> note_inv (fst (full_reset q))"
  unfolding full_reset_def by (rule full_drain_inv)

lemma full_drain_all:
  "note_inv q \<Longrightarrow> length (queue_list q) < fuel \<Longrightarrow>
     queue_list (fst (full_drain fuel q)) = [] \<and> snd (full_drain fuel q) = queue_list q"
proof (induction fuel arbitrary: q)
  case (Suc fuel)
  obtain q1 r where 1: "full_pull q = (q1, r)" by (cases "full_pull q")
  note c = full_pull_correct [OF Suc.prems(1)]
  show ?case
  proof (cases "queue_list q")
    case Nil
    then show ?thesis using c 1 by simp
  next
    case (Cons p ps)
    then show ?thesis using Suc.IH [of q1] Suc.prems c 1 by (auto simp: case_prod_beta Let_def)
  qed
qed simp

lemma reconfigured_notes:
  assumes "live_reconfigure mem_ok c q = Some (q', killed)"
  shows "nq_empty_note q' = nq_empty_note q" "nq_full_note q' = nq_full_note q" "nq_sleepiness q' = nq_sleepiness q"
  using assms by (auto simp: live_reconfigure_def Let_def split: if_splits prod.splits)

lemma full_live_reconfigure_inv:
  assumes "note_inv q" "unat c < 2 ^ 31 - 1" "full_live_reconfigure mem_ok c q = Some (q', killed)"
  shows "note_inv q'"
proof -
  obtain q1 where 1: "live_reconfigure mem_ok c q = Some (q1, killed)"
    "q' = (if queue_size q1 < sint (sq_capacity q1) \<and> sq_q q1 \<noteq> [] then q1\<lparr>nq_full_note := True\<rparr> else q1)"
    using assms(3) by (auto simp: full_live_reconfigure_def)
  have i: "sq_inv q" using assms(1) by (simp add: note_inv_def)
  note lc = live_reconfigure_correct [OF i assms(2) 1(1)]
  have ne: "sq_q q1 \<noteq> []" using sq_ring(3) [OF lc(1)] by auto
  have "queue_list q \<noteq> []" if "queue_list q1 \<noteq> []"
  proof (cases "c = sq_capacity q")
    case True
    then have "q1 = q" using 1(1) by (cases q) (auto simp: live_reconfigure_def)
    then show ?thesis using that by simp
  qed (use lc(3) that in auto)
  moreover have "queue_full q1 \<longleftrightarrow> \<not> queue_size q1 < sint (sq_capacity q1)"
    using queue_full_iff [OF lc(1)] queue_list_bound [OF lc(1)]
    by (simp add: queue_size_list [OF lc(1)] sint_capacity [OF lc(1)] del: of_nat_unat)
  moreover have "queue_full (q1\<lparr>nq_full_note := True\<rparr>) = queue_full q1" by (simp add: queue_full_def)
  ultimately show ?thesis
    using assms(1) lc(1) reconfigured_notes [OF 1(1)] ne by (auto simp: 1(2) note_inv_def)
qed

lemma full_step_inv:
  assumes "full_step q q'" "note_inv q"
  shows "note_inv q'"
  using assms(1)
proof (cases rule: full_step.cases)
  case (full_step_capacity c mem_ok killed)
  then show ?thesis using full_live_reconfigure_inv [OF assms(2)] by simp
next
  case full_step_reset
  then show ?thesis using full_reset_inv [OF assms(2)] by simp
next
  case full_step_counts
  then show ?thesis using assms(2) by (simp add: reset_counts_def note_inv_def queue_full_def)
next
  case (full_step_take old old' killed)
  have i: "sq_inv q" using assms(2) by (simp add: note_inv_def)
  have "nq_empty_note q' = nq_empty_note q" "nq_full_note q' = nq_full_note q" "nq_sleepiness q' = nq_sleepiness q"
    using full_step_take(4) by (auto simp: take_state_def Let_def split: if_splits prod.splits)
  then show ?thesis
    using take_state_correct [OF full_step_take(1) i full_step_take(4)] full_step_take(2,3) assms(2)
    by (simp add: note_inv_def)
qed (simp_all add: assms(2) fq.push_inv fq.pull_inv)

section \<open>Properties\<close>

text \<open>
  C6: a \<open>Queue\<close> loses, duplicates and reorders nothing. Over any sequence of pushes and pulls
  the packets it held and those it accepted are the packets it delivered, in this order,
  followed by those it still holds; every packet pushed was accepted or handed back; and as
  long as there is room for all of them, none is handed back.
\<close>

theorem queue_conserves:
  assumes "note_inv q" "run_ops full_push full_pull ops q = (q', l)"
  shows "queue_list q @ l_stored l = l_pulled l @ queue_list q'
    \<and> mset (pushes ops) = mset (l_stored l) + mset (l_refused l)
    \<and> length (queue_list q') \<le> unat (sq_capacity q)
    \<and> (length (queue_list q) + length (pushes ops) \<le> unat (sq_capacity q) \<longrightarrow> l_refused l = [] \<and> l_stored l = pushes ops)"
  using fq.run_conserves [OF assms] fq.run_room [OF assms(1) _ assms(2)] fq.items_bound by metis

theorem queue_conserves_witness:
  "let (q', l) = run_ops full_push full_pull [Push 1, Push 2, Push 3, Pull, Push 4] (new_note_queue 2 :: nat note_queue)
   in l_stored l = [1, 2, 4] \<and> l_pulled l = [1] \<and> l_refused l = [3]
      \<and> queue_list (new_note_queue 2 :: nat note_queue) @ l_stored l = l_pulled l @ queue_list q'"
proof -
  let ?ops = "[Push 1, Push 2, Push 3, Pull, Push 4] :: nat fifo_op list" and ?new = "new_note_queue 2 :: nat note_queue"
  obtain q' l where r: "run_ops full_push full_pull ?ops ?new = (q', l)" by (cases "run_ops full_push full_pull ?ops ?new")
  have "snd (run_ops full_push full_pull ?ops ?new) = \<lparr>l_stored = [1, 2, 4], l_pulled = [1], l_refused = [3]\<rparr>"
    by code_simp
  then have "l = \<lparr>l_stored = [1, 2, 4], l_pulled = [1], l_refused = [3]\<rparr>" unfolding r snd_conv .
  moreover have "note_inv ?new" using new_note_queue_inv [of 2, where ?'p = nat] by simp
  ultimately show ?thesis using queue_conserves [OF _ r] unfolding r by simp
qed

text \<open>
  C13: in every state a \<open>Queue\<close> can reach, its empty signal is active whenever it holds a
  packet and its full signal whenever it has room, so that a scheduler that looks at the
  signal before pulling never leaves a packet behind.
\<close>

theorem queue_signals_sound:
  assumes "unat c < 2 ^ 31 - 1" "full_step\<^sup>*\<^sup>* (new_note_queue c) q"
  shows "(queue_list q \<noteq> [] \<longrightarrow> nq_empty_note q) \<and> (\<not> queue_full q \<longrightarrow> nq_full_note q)"
proof -
  have "note_inv q"
    using assms(2) by (induction rule: rtranclp_induct) (use new_note_queue_inv [OF assms(1)] full_step_inv in blast)+
  then show ?thesis by (simp add: note_inv_def)
qed

theorem queue_signals_sound_witness:
  "let q = fst (full_push 5 (new_note_queue 2 :: nat note_queue)) in queue_list q = [5] \<and> nq_empty_note q"
proof -
  let ?new = "new_note_queue 2 :: nat note_queue"
  let ?q = "fst (full_push 5 ?new)"
  have "full_step\<^sup>*\<^sup>* ?new ?q" by (rule r_into_rtranclp) (rule full_step_push)
  moreover have "queue_list ?q = [5]" by code_simp
  ultimately show ?thesis using queue_signals_sound [of 2 ?q] by simp
qed

text \<open>
  C31: an idle queue goes to sleep: after ten pulls in a row that find it empty the empty
  signal is inactive, and the next packet that is stored activates it again.
\<close>

fun failed_pulls :: "nat \<Rightarrow> 'p note_queue \<Rightarrow> 'p note_queue" where
  "failed_pulls 0 q = q"
| "failed_pulls (Suc n) q = failed_pulls n (fst (full_pull q))"

lemma failed_pull_step:
  assumes "note_inv q" "queue_list q = []"
  shows "fst (full_pull q) = (if nq_sleepiness q = SLEEPINESS_TRIGGER then q\<lparr>nq_empty_note := False\<rparr>
    else q\<lparr>nq_sleepiness := nq_sleepiness q + 1\<rparr>)"
proof -
  have i: "sq_inv q" using assms(1) by (simp add: note_inv_def)
  have "queue_size (q\<lparr>nq_empty_note := False\<rparr>) = 0" using queue_size_list [OF i] assms(2) by (simp add: queue_size_def)
  then show ?thesis
    using assms queue_list_empty [OF i] by (auto simp: full_pull_def pull_failure_def note_inv_def Let_def)
qed

lemma failed_pulls_sleep:
  assumes "note_inv q" "queue_list q = []" "SLEEPINESS_TRIGGER - nq_sleepiness q < int n"
  shows "\<not> nq_empty_note (failed_pulls n q) \<and> note_inv (failed_pulls n q) \<and> queue_list (failed_pulls n q) = []"
proof -
  have keep: "\<not> nq_empty_note (failed_pulls m r) \<and> note_inv (failed_pulls m r) \<and> queue_list (failed_pulls m r) = []"
    if "note_inv r" "queue_list r = []" "\<not> nq_empty_note r" for m and r :: "'a note_queue"
    using that
  proof (induction m arbitrary: r)
    case (Suc m)
    have "note_inv (fst (full_pull r))" "queue_list (fst (full_pull r)) = []"
      using full_pull_correct [OF Suc.prems(1)] Suc.prems(2) by simp_all
    moreover have "\<not> nq_empty_note (fst (full_pull r))" using failed_pull_step [OF Suc.prems(1,2)] Suc.prems(3) by simp
    ultimately show ?case using Suc.IH by simp
  qed simp
  show ?thesis
    using assms
  proof (induction n arbitrary: q)
    case 0
    then show ?case by (simp add: note_inv_def)
  next
    case (Suc n)
    note c = full_pull_correct [OF Suc.prems(1)] and st = failed_pull_step [OF Suc.prems(1,2)]
    have n: "note_inv (fst (full_pull q))" "queue_list (fst (full_pull q)) = []" using c Suc.prems(2) by simp_all
    show ?case
    proof (cases "nq_sleepiness q = SLEEPINESS_TRIGGER")
      case True
      then show ?thesis using keep [OF n] st by simp
    next
      case False
      then show ?thesis using Suc.IH [OF n] Suc.prems(3) st by simp
    qed
  qed
qed

theorem idle_queue_sleeps:
  assumes "note_inv q" "queue_list q = []" "0 < sq_capacity q"
  shows "\<not> nq_empty_note (failed_pulls 10 q) \<and> nq_empty_note (fst (full_push p (failed_pulls 10 q)))"
proof -
  have s: "\<not> nq_empty_note (failed_pulls 10 q) \<and> note_inv (failed_pulls 10 q) \<and> queue_list (failed_pulls 10 q) = []"
    by (rule failed_pulls_sleep) (use assms in \<open>auto simp: note_inv_def SLEEPINESS_TRIGGER_def\<close>)
  have "sq_capacity (failed_pulls n r) = sq_capacity r" if "note_inv r" for n and r :: "'a note_queue"
    using that by (induction n arbitrary: r) (simp_all add: full_pull_correct)
  then have "0 < unat (sq_capacity (failed_pulls 10 q))" using assms(1,3) by (simp add: word_less_nat_alt)
  then have "queue_list (fst (full_push p (failed_pulls 10 q))) \<noteq> []"
    using fq.push_room [of "failed_pulls 10 q" p] s by simp
  then show ?thesis using full_push_correct [of "failed_pulls 10 q" p] s by (simp add: note_inv_def)
qed

theorem idle_queue_sleeps_witness:
  "\<not> nq_empty_note (failed_pulls 10 (new_note_queue 4 :: nat note_queue))"
proof -
  have "0 < sq_capacity (new_note_queue 4 :: nat note_queue)" by (simp add: new_note_queue_def)
  then show ?thesis using idle_queue_sleeps [of "new_note_queue 4 :: nat note_queue" 0] new_note_queue_inv [of 4, where ?'p = nat] by simp
qed

end
