(* ===== verification/Click_Rate.thy ===== *)
theory Click_Rate
  imports Click_Note_Queue Packet_Buffer
begin

text \<open>
  Rate limiting: \<open>GapRate\<close> (\<open>include/click/gaprate.hh\<close>, \<open>lib/gaprate.cc\<close>), and the elements
  \<open>Shaper\<close> and \<open>BandwidthShaper\<close> that hold packets back with it
  (\<open>elements/standard/shaper.cc\<close>, \<open>bandwidthshaper.cc\<close>). The clock is read by
  \<open>Timestamp::now()\<close>: its values are arguments of the operations. Timestamps have the
  precision of the user-level driver, seconds in 32 bits and microseconds. A division by
  zero and a signed overflow are undefined, \<open>None\<close>.
\<close>

section \<open>Definitions\<close>

record timestamp =
  ts_sec :: u32
  ts_usec :: u32

record gap_rate =
  gr_ugap :: u32
  gr_sec_count :: u32
  gr_tv_sec :: u32
  gr_rate :: u32

definition UGAP_SHIFT :: nat where "UGAP_SHIFT = 12"

definition MAX_RATE :: u32 where "MAX_RATE = 4096000000"

definition gap_reset :: "gap_rate \<Rightarrow> gap_rate" where
  "gap_reset g = g\<lparr>gr_tv_sec := - 1\<rparr>"

definition initialize_rate :: "u32 \<Rightarrow> gap_rate \<Rightarrow> gap_rate" where
  "initialize_rate r g = g\<lparr>gr_rate := r, gr_ugap := (if r = 0 then MAX_RATE + 1 else MAX_RATE div r)\<rparr>"

text \<open>The constructors leave \<open>_sec_count\<close> as it was in memory.\<close>

definition new_gap_rate :: "u32 \<Rightarrow> u32 \<Rightarrow> gap_rate" where
  "new_gap_rate garbage r = gap_reset (initialize_rate r \<lparr>gr_ugap = 0, gr_sec_count = garbage, gr_tv_sec = 0, gr_rate = 0\<rparr>)"

definition set_rate :: "timestamp \<Rightarrow> u32 \<Rightarrow> gap_rate \<Rightarrow> gap_rate" where
  "set_rate now r g =
     (let r = (if MAX_RATE < r then MAX_RATE else r)
      in if gr_rate g \<noteq> r
         then let g1 = initialize_rate r g
              in if 0 \<le> sint (gr_tv_sec g1) \<and> r \<noteq> 0
                 then g1\<lparr>gr_sec_count := push_bit UGAP_SHIFT (ts_usec now) div gr_ugap g1\<rparr> else g1
         else g)"

text \<open>The variant with an error handler also reports whether it lowered the rate.\<close>

definition set_rate_errh :: "timestamp \<Rightarrow> u32 \<Rightarrow> gap_rate \<Rightarrow> gap_rate \<times> bool" where
  "set_rate_errh now r g = (set_rate now r g, MAX_RATE < r)"

definition need_update :: "timestamp \<Rightarrow> gap_rate \<Rightarrow> (gap_rate \<times> bool) option" where
  "need_update now g =
     (if gr_ugap g = 0 then None
      else
        let u = push_bit UGAP_SHIFT (ts_usec now);
            need = u div gr_ugap g;
            g' = (if sint (gr_tv_sec g) < 0
                  then g\<lparr>gr_tv_sec := ts_sec now,
                         gr_sec_count := need + (if gr_ugap g div 2 < u - need * gr_ugap g then 1 else 0)\<rparr>
                  else if sint (gr_tv_sec g) < sint (ts_sec now)
                  then (if 0 < sint (gr_sec_count g)
                        then g\<lparr>gr_tv_sec := ts_sec now, gr_sec_count := gr_sec_count g - gr_rate g\<rparr>
                        else g\<lparr>gr_tv_sec := ts_sec now\<rparr>)
                  else g)
        in Some (g', sint (gr_sec_count g') \<le> sint need))"

definition update_with :: "int \<Rightarrow> gap_rate \<Rightarrow> gap_rate option" where
  "update_with delta g =
     (let c = sint (gr_sec_count g) + delta
      in if - INT_MAX - 1 \<le> c \<and> c \<le> INT_MAX then Some (g\<lparr>gr_sec_count := of_int c\<rparr>) else None)"

definition gap_update :: "gap_rate \<Rightarrow> gap_rate option" where
  "gap_update g = update_with 1 g"

definition expiry :: "gap_rate \<Rightarrow> timestamp" where
  "expiry g =
     (if sint (gr_tv_sec g) < 0 \<or> gr_rate g = 0 then \<lparr>ts_sec = 0, ts_usec = 0\<rparr>
      else if sint (gr_sec_count g) < 0 then \<lparr>ts_sec = gr_tv_sec g, ts_usec = 0\<rparr>
      else
        let count = gr_sec_count g;
            (sec, count) = (if gr_rate g \<le> count then (gr_tv_sec g + count div gr_rate g, count mod gr_rate g)
                            else (gr_tv_sec g, count))
        in \<lparr>ts_sec = sec, ts_usec = drop_bit UGAP_SHIFT (count * gr_ugap g)\<rparr>)"

text \<open>
  \<open>Shaper::pull\<close> and \<open>BandwidthShaper::pull\<close>: the state is the rate and whatever is upstream,
  and \<open>pull\<close> is \<open>input(0).pull()\<close>.
\<close>

definition shaper_pull ::
  "timestamp \<Rightarrow> ('s \<Rightarrow> 's \<times> packet option) \<Rightarrow> nat \<Rightarrow> gap_rate \<times> 's \<Rightarrow> ((gap_rate \<times> 's) \<times> packet option) option" where
  "shaper_pull now pull port st =
     (case need_update now (fst st) of
        None \<Rightarrow> None
      | Some (g, need) \<Rightarrow>
          (if port = 0 \<and> need
           then (case pull (snd st) of
                   (s, Some p) \<Rightarrow> map_option (\<lambda>g'. ((g', s), Some p)) (gap_update g)
                 | (s, None) \<Rightarrow> Some ((g, s), None))
           else if port = 1 \<and> \<not> need
           then (let (s, r) = pull (snd st) in Some ((g, s), r))
           else Some ((g, snd st), None)))"

definition bandwidth_pull ::
  "timestamp \<Rightarrow> ('s \<Rightarrow> 's \<times> packet option) \<Rightarrow> gap_rate \<times> 's \<Rightarrow> ((gap_rate \<times> 's) \<times> packet option) option" where
  "bandwidth_pull now pull st =
     (case need_update now (fst st) of
        None \<Rightarrow> None
      | Some (g, need) \<Rightarrow>
          (if need
           then (case pull (snd st) of
                   (s, Some p) \<Rightarrow> map_option (\<lambda>g'. ((g', s), Some p)) (update_with (int (plen p)) g)
                 | (s, None) \<Rightarrow> Some ((g, s), None))
           else Some ((g, snd st), None)))"

text \<open>\<open>Shaper::configure\<close> with a rate that was parsed, and the \<open>reset\<close> write handler.\<close>

definition shaper_configure :: "timestamp \<Rightarrow> u32 \<Rightarrow> gap_rate \<Rightarrow> gap_rate \<times> bool" where
  "shaper_configure now rate g = set_rate_errh now rate g"

text \<open>A sequence of pulls: the packets that left and when.\<close>

fun bandwidth_run ::
  "('s \<Rightarrow> 's \<times> packet option) \<Rightarrow> timestamp list \<Rightarrow> gap_rate \<times> 's \<Rightarrow>
   ((gap_rate \<times> 's) \<times> (timestamp \<times> packet) list) option" where
  "bandwidth_run pull [] st = Some (st, [])"
| "bandwidth_run pull (now # ts) st =
     (case bandwidth_pull now pull st of
        None \<Rightarrow> None
      | Some (st1, r) \<Rightarrow>
          map_option (\<lambda>(st', l). (st', (case r of None \<Rightarrow> l | Some p \<Rightarrow> (now, p) # l))) (bandwidth_run pull ts st1))"

section \<open>The counter as an integer\<close>

text \<open>
  The count of the current second, and the count the true rate has reached after \<open>u\<close>
  microseconds of a second.
\<close>

definition needed :: "gap_rate \<Rightarrow> timestamp \<Rightarrow> int" where
  "needed g t = (uint (ts_usec t) * 4096) div uint (gr_ugap g)"

definition gap_count :: "gap_rate \<Rightarrow> int" where
  "gap_count g = sint (gr_sec_count g)"

definition ts_ok :: "timestamp \<Rightarrow> bool" where
  "ts_ok t \<longleftrightarrow> 0 \<le> sint (ts_sec t) \<and> ts_usec t < 1000000"

definition MAX_LENGTH :: int where "MAX_LENGTH = 2 ^ 29"

definition rate_ok :: "gap_rate \<Rightarrow> bool" where
  "rate_ok g \<longleftrightarrow> 0 < gr_rate g \<and> gr_rate g \<le> 2 ^ 30 \<and> gr_ugap g = MAX_RATE div gr_rate g"

definition gap_inv :: "gap_rate \<Rightarrow> bool" where
  "gap_inv g \<longleftrightarrow> rate_ok g
     \<and> (0 \<le> sint (gr_tv_sec g) \<longrightarrow> - uint (gr_rate g) < gap_count g \<and> gap_count g \<le> 1365331968 + MAX_LENGTH)"

lemma ugap_bounds:
  assumes "rate_ok g"
  shows "3 \<le> uint (gr_ugap g)" "uint (gr_ugap g) * uint (gr_rate g) \<le> 4096000000"
    "4096000000 < (uint (gr_ugap g) + 1) * uint (gr_rate g)" "uint (gr_ugap g) \<le> 4096000000"
proof -
  let ?r = "uint (gr_rate g)"
  have r: "0 < ?r" "?r \<le> 2 ^ 30" using assms by (simp_all add: rate_ok_def word_less_def word_le_def)
  have u: "uint (gr_ugap g) = 4096000000 div ?r"
    using assms by (simp add: rate_ok_def MAX_RATE_def uint_div)
  have "4096000000 div ?r \<ge> 4096000000 div 2 ^ 30" by (rule zdiv_mono2) (use r in simp_all)
  then show "3 \<le> uint (gr_ugap g)" unfolding u by simp
  have "4096000000 div ?r * ?r + 4096000000 mod ?r = 4096000000" "0 \<le> 4096000000 mod ?r" "4096000000 mod ?r < ?r"
    using r(1) by (simp_all only: div_mult_mod_eq pos_mod_sign pos_mod_bound)
  then show "uint (gr_ugap g) * ?r \<le> 4096000000" "4096000000 < (uint (gr_ugap g) + 1) * ?r"
    unfolding u distrib_right by linarith+
  show "uint (gr_ugap g) \<le> 4096000000" unfolding u using zdiv_mono2 [of 4096000000 1 ?r] r by simp
qed

lemma shifted_usec: "ts_ok t \<Longrightarrow> uint (push_bit UGAP_SHIFT (ts_usec t)) = uint (ts_usec t) * 4096"
  by (simp add: ts_ok_def UGAP_SHIFT_def push_bit_eq_mult uint_word_ariths word_less_def)

lemma needed_bounds:
  assumes "rate_ok g" "ts_ok t"
  shows "0 \<le> needed g t" "needed g t \<le> 1365331968"
proof -
  note u = ugap_bounds [OF assms(1)]
  have "uint (ts_usec t) < 1000000" using assms(2) by (simp add: ts_ok_def word_less_def)
  then have "needed g t \<le> 4095995904 div 3"
    unfolding needed_def using u(1) by (intro order_trans [OF zdiv_mono2 zdiv_mono1]) auto
  then show "needed g t \<le> 1365331968" by simp
  show "0 \<le> needed g t" using u(1) by (simp add: needed_def pos_imp_zdiv_nonneg_iff)
qed

section \<open>One pull\<close>

lemma sint_small: "uint (w :: u32) < 2 ^ 31 \<Longrightarrow> sint w = uint w"
proof -
  assume "uint w < 2 ^ 31"
  then have "int (unat w) < 2147483648" unfolding of_nat_unat by simp
  then have "unat w < 2147483648" by linarith
  then show ?thesis using sint_u32 [of w] by simp
qed

lemma uint_range: "0 \<le> uint (w :: u32)" "uint w < 4294967296"
  using uint_bounded [of w] by simp_all

lemma sint_of_int32: "- 2147483648 \<le> c \<Longrightarrow> c < 2147483648 \<Longrightarrow> sint (word_of_int c :: u32) = c"
  by (simp add: sint_sbintrunc' signed_take_bit_int_eq_self)

text \<open>A call of \<open>need_update\<close> on a rate that has seen a call before.\<close>

lemma need_word:
  assumes "rate_ok g" "ts_ok now"
  shows "sint (push_bit UGAP_SHIFT (ts_usec now) div gr_ugap g) = needed g now"
    "gr_ugap g \<noteq> 0"
proof -
  have e: "uint (push_bit UGAP_SHIFT (ts_usec now) div gr_ugap g) = needed g now"
    by (simp add: uint_div shifted_usec [OF assms(2)] needed_def)
  show "sint (push_bit UGAP_SHIFT (ts_usec now) div gr_ugap g) = needed g now"
    using needed_bounds [OF assms] by (subst sint_small) (simp_all add: e)
  show "gr_ugap g \<noteq> 0" using ugap_bounds(1) [OF assms(1)] by auto
qed

lemma need_update_running:
  assumes "gap_inv g" "0 \<le> sint (gr_tv_sec g)" "ts_ok now"
  obtains g' k where "need_update now g = Some (g', gap_count g' \<le> needed g now)" "gap_inv g'"
    "gr_rate g' = gr_rate g" "gr_ugap g' = gr_ugap g" "sint (gr_tv_sec g') = max (sint (gr_tv_sec g)) (sint (ts_sec now))"
    "gap_count g' = gap_count g - k * uint (gr_rate g)" "0 \<le> k" "k \<le> sint (gr_tv_sec g') - sint (gr_tv_sec g)"
    "k = (if sint (gr_tv_sec g) < sint (ts_sec now) \<and> 0 < gap_count g then 1 else 0)"
proof -
  have ok: "rate_ok g" using assms(1) by (simp add: gap_inv_def)
  note nd = need_word [OF ok assms(3)]
  have c: "- uint (gr_rate g) < gap_count g" "gap_count g \<le> 1365331968 + MAX_LENGTH" "uint (gr_rate g) \<le> 1073741824"
    using assms(1,2) ok by (simp_all add: gap_inv_def rate_ok_def word_le_def)
  consider (same) "\<not> sint (gr_tv_sec g) < sint (ts_sec now)"
    | (less) "sint (gr_tv_sec g) < sint (ts_sec now)" "\<not> 0 < gap_count g"
    | (dec) "sint (gr_tv_sec g) < sint (ts_sec now)" "0 < gap_count g" by blast
  then show thesis
  proof cases
    case same
    then show thesis using assms nd by (intro that [of g 0]) (simp_all add: need_update_def gap_count_def Let_def)
  next
    case less
    let ?g = "g\<lparr>gr_tv_sec := ts_sec now\<rparr>"
    have "gap_inv ?g" using assms(1,2) by (simp add: gap_inv_def rate_ok_def gap_count_def)
    then show thesis using less assms nd by (intro that [of ?g 0]) (simp_all add: need_update_def gap_count_def Let_def)
  next
    case dec
    let ?g = "g\<lparr>gr_tv_sec := ts_sec now, gr_sec_count := gr_sec_count g - gr_rate g\<rparr>"
    have "gr_sec_count g - gr_rate g = word_of_int (gap_count g - uint (gr_rate g))" by (simp add: gap_count_def)
    then have "gap_count ?g = sint (word_of_int (gap_count g - uint (gr_rate g)) :: u32)" by (simp add: gap_count_def)
    also have "\<dots> = gap_count g - uint (gr_rate g)"
      by (rule sint_of_int32) (use c [unfolded MAX_LENGTH_def, simplified] dec uint_range [of "gr_rate g"] in linarith)+
    finally have e: "gap_count ?g = gap_count g - uint (gr_rate g)" .
    moreover have "gap_count g - uint (gr_rate g) \<le> 1365331968 + MAX_LENGTH"
      using c(2) uint_range(1) [of "gr_rate g"] by linarith
    ultimately have "gap_inv ?g" using assms(1) dec by (simp add: gap_inv_def rate_ok_def)
    then show thesis
      using dec assms nd e by (intro that [of ?g 1]) (simp_all add: need_update_def gap_count_def Let_def)
  qed
qed

text \<open>The first call after a reset synchronises the counter with the true rate.\<close>

lemma need_update_reset:
  assumes "gap_inv g" "sint (gr_tv_sec g) < 0" "ts_ok now"
  obtains g' where "need_update now g = Some (g', gap_count g' \<le> needed g now)" "gap_inv g'"
    "gr_rate g' = gr_rate g" "gr_ugap g' = gr_ugap g" "gr_tv_sec g' = ts_sec now"
    "needed g now \<le> gap_count g'" "gap_count g' \<le> needed g now + 1"
proof -
  have ok: "rate_ok g" using assms(1) by (simp add: gap_inv_def)
  note nd = need_word [OF ok assms(3)] and nb = needed_bounds [OF ok assms(3)]
  let ?u = "push_bit UGAP_SHIFT (ts_usec now)"
  let ?n = "?u div gr_ugap g" 
  let ?b = "if gr_ugap g div 2 < ?u - ?n * gr_ugap g then 1 else 0"
  let ?g = "g\<lparr>gr_tv_sec := ts_sec now, gr_sec_count := ?n + ?b\<rparr>"
  have n: "?n = word_of_int (needed g now)" by (simp flip: nd(1))
  have "?n + ?b = word_of_int (needed g now + (if gr_ugap g div 2 < ?u - ?n * gr_ugap g then 1 else 0))"
    by (simp add: n)
  then have e: "gap_count ?g = needed g now + (if gr_ugap g div 2 < ?u - ?n * gr_ugap g then 1 else 0)"
    using nb by (simp add: gap_count_def sint_of_int32 del: of_int_add)
  then have "gap_inv ?g"
    using ok nb ugap_bounds by (auto simp: gap_inv_def rate_ok_def MAX_LENGTH_def word_less_def)
  then show thesis
    using e nd assms by (intro that [of ?g]) (simp_all add: need_update_def gap_count_def Let_def)
qed

text \<open>So the first call has the effect of a call on a counter that starts at that time.\<close>

lemma need_update_first:
  assumes "gap_inv g" "sint (gr_tv_sec g) < 0" "ts_ok t0"
  obtains g1 where "need_update t0 g = need_update t0 g1" "gap_inv g1" "gr_rate g1 = gr_rate g" "gr_ugap g1 = gr_ugap g"
    "gr_tv_sec g1 = ts_sec t0" "needed g t0 \<le> gap_count g1"
proof -
  obtain g1 where 1: "need_update t0 g = Some (g1, gap_count g1 \<le> needed g t0)" "gap_inv g1"
    "gr_rate g1 = gr_rate g" "gr_ugap g1 = gr_ugap g" "gr_tv_sec g1 = ts_sec t0" "needed g t0 \<le> gap_count g1"
    using need_update_reset [OF assms] by blast
  have "needed g1 t0 = needed g t0" by (simp add: needed_def 1(4))
  then have "need_update t0 g1 = Some (g1, gap_count g1 \<le> needed g t0)"
    using 1 assms(3) need_word [of g1 t0] by (auto simp: need_update_def ts_ok_def gap_inv_def gap_count_def Let_def)
  then show thesis using that [of g1] 1 by simp
qed

lemma update_with_inv:
  assumes "gap_inv g" "gap_count g \<le> needed g now" "ts_ok now" "0 \<le> sint (gr_tv_sec g)" "0 \<le> d" "d \<le> MAX_LENGTH"
  obtains g' where "update_with d g = Some g'" "gap_inv g'" "gap_count g' = gap_count g + d"
    "gr_rate g' = gr_rate g" "gr_ugap g' = gr_ugap g" "gr_tv_sec g' = gr_tv_sec g"
proof -
  have ok: "rate_ok g" using assms(1) by (simp add: gap_inv_def)
  have c: "- uint (gr_rate g) < gap_count g" "uint (gr_rate g) \<le> 2 ^ 30"
    using assms(1,4) ok by (simp_all add: gap_inv_def rate_ok_def word_le_def)
  note nb = needed_bounds [OF ok assms(3)]
  let ?g = "g\<lparr>gr_sec_count := of_int (gap_count g + d)\<rparr>"
  have e: "gap_count ?g = gap_count g + d"
    using c nb assms(2,5,6) by (simp add: gap_count_def MAX_LENGTH_def sint_of_int32 del: of_int_add)
  then have "gap_inv ?g" using assms(1,2,5,6) nb by (auto simp: gap_inv_def rate_ok_def)
  then show thesis
    using c nb assms(2,5,6) e by (intro that [of ?g]) (simp_all add: update_with_def gap_count_def INT_MAX_def MAX_LENGTH_def Let_def)
qed

lemma bandwidth_pull_first:
  "need_update now g = need_update now g1 \<Longrightarrow> bandwidth_pull now pull (g, s) = bandwidth_pull now pull (g1, s)"
  unfolding bandwidth_pull_def fst_conv snd_conv by simp

section \<open>A sequence of pulls\<close>

text \<open>
  What a shaper relies on: its input keeps an invariant under which no packet it hands out
  is longer than 512 megabytes.
\<close>

definition sent :: "(timestamp \<times> packet) list \<Rightarrow> int" where
  "sent l = (\<Sum>(t, p) \<leftarrow> l. int (plen p))"

lemma sent_Nil [simp]: "sent [] = 0"
  and sent_Cons [simp]: "sent ((t, p) # l) = int (plen p) + sent l"
  by (simp_all add: sent_def)

locale packet_source =
  fixes inv :: "'s \<Rightarrow> bool"
    and pull :: "'s \<Rightarrow> 's \<times> packet option"
  assumes pull_inv: "inv s \<Longrightarrow> inv (fst (pull s))"
    and pull_length: "inv s \<Longrightarrow> snd (pull s) = Some p \<Longrightarrow> int (plen p) \<le> MAX_LENGTH"
begin

lemma bandwidth_pull_running:
  assumes "inv s" "gap_inv g" "0 \<le> sint (gr_tv_sec g)" "ts_ok now"
  obtains g' s' r k where "bandwidth_pull now pull (g, s) = Some ((g', s'), r)" "inv s'" "gap_inv g'"
    "gr_rate g' = gr_rate g" "gr_ugap g' = gr_ugap g" "sint (gr_tv_sec g') = max (sint (gr_tv_sec g)) (sint (ts_sec now))"
    "gap_count g' = gap_count g - k * uint (gr_rate g) + (case r of None \<Rightarrow> 0 | Some p \<Rightarrow> int (plen p))"
    "0 \<le> k" "k \<le> sint (gr_tv_sec g') - sint (gr_tv_sec g)"
    "r \<noteq> None \<Longrightarrow> gap_count g - k * uint (gr_rate g) \<le> needed g now"
proof -
  obtain g1 k where 1: "need_update now g = Some (g1, gap_count g1 \<le> needed g now)" "gap_inv g1"
    "gr_rate g1 = gr_rate g" "gr_ugap g1 = gr_ugap g" "sint (gr_tv_sec g1) = max (sint (gr_tv_sec g)) (sint (ts_sec now))"
    "gap_count g1 = gap_count g - k * uint (gr_rate g)" "0 \<le> k" "k \<le> sint (gr_tv_sec g1) - sint (gr_tv_sec g)"
    using need_update_running [OF assms(2-4)] by blast
  have n: "needed g now = needed g1 now" by (simp add: needed_def 1(4))
  obtain s1 r where p: "pull s = (s1, r)" by (cases "pull s")
  show thesis
  proof (cases "gap_count g1 \<le> needed g now \<and> r \<noteq> None")
    case False
    then show thesis
      using 1 p assms(1) pull_inv [OF assms(1)]
      by (intro that [of g1 "if gap_count g1 \<le> needed g now then s1 else s" None k]) (auto simp: bandwidth_pull_def)
  next
    case True
    then obtain q where q: "r = Some q" by auto
    have c: "gap_count g1 \<le> needed g1 now" "0 \<le> sint (gr_tv_sec g1)" "int (plen q) \<le> MAX_LENGTH"
      using True n 1(5) assms(3) pull_length [OF assms(1)] p q by simp_all
    obtain g2 where 2: "update_with (int (plen q)) g1 = Some g2" "gap_inv g2" "gap_count g2 = gap_count g1 + int (plen q)"
      "gr_rate g2 = gr_rate g1" "gr_ugap g2 = gr_ugap g1" "gr_tv_sec g2 = gr_tv_sec g1"
      using update_with_inv [OF 1(2) c(1) assms(4) c(2) _ c(3)] by auto
    then show thesis
      using 1 p q True pull_inv [OF assms(1)] by (intro that [of g2 s1 r k]) (auto simp: bandwidth_pull_def)
  qed
qed

text \<open>A pull is defined in every state, also right after a reset, and takes at most what its input gives.\<close>

lemma bandwidth_pull_ok:
  assumes "inv s" "gap_inv g" "ts_ok now"
  obtains g' s' r where "bandwidth_pull now pull (g, s) = Some ((g', s'), r)" "inv s'" "gap_inv g'" "0 \<le> sint (gr_tv_sec g')"
    "(s', r) = pull s \<or> s' = s \<and> r = None"
proof -
  obtain g1 where 1: "need_update now g = Some (g1, gap_count g1 \<le> needed g1 now)" "gap_inv g1" "0 \<le> sint (gr_tv_sec g1)"
  proof (cases "sint (gr_tv_sec g) < 0")
    case True
    then show thesis
      using need_update_reset [OF assms(2) _ assms(3)] assms(3) that unfolding ts_ok_def needed_def by metis
  next
    case False
    then have "0 \<le> sint (gr_tv_sec g)" by simp
    then show thesis
      using need_update_running [OF assms(2) _ assms(3)] that unfolding needed_def by (metis max.coboundedI1)
  qed
  obtain s1 r where p: "pull s = (s1, r)" by (cases "pull s")
  show thesis
  proof (cases "gap_count g1 \<le> needed g1 now \<and> r \<noteq> None")
    case False
    then show thesis
      using 1 p assms(1) pull_inv [OF assms(1)]
      by (intro that [of g1 "if gap_count g1 \<le> needed g1 now then s1 else s" None]) (auto simp: bandwidth_pull_def)
  next
    case True
    then obtain q where q: "r = Some q" by auto
    have l: "int (plen q) \<le> MAX_LENGTH" using pull_length [OF assms(1)] p q by simp
    obtain g2 where "update_with (int (plen q)) g1 = Some g2" "gap_inv g2" "gr_tv_sec g2 = gr_tv_sec g1"
      using update_with_inv [OF 1(2) _ assms(3) 1(3) _ l] True by auto
    then show thesis using 1 p q True pull_inv [OF assms(1)] by (intro that [of g2 s1 r]) (auto simp: bandwidth_pull_def)
  qed
qed

text \<open>Every packet leaves within the allowance of the true rate.\<close>

lemma bandwidth_run_running:
  assumes "inv s" "gap_inv g" "0 \<le> sint (gr_tv_sec g)" "list_all ts_ok ts"
    "sorted (map (sint \<circ> ts_sec) ts)" "\<forall>t \<in> set ts. sint (gr_tv_sec g) \<le> sint (ts_sec t)"
  shows "\<exists>g' s' l. bandwidth_run pull ts (g, s) = Some ((g', s'), l) \<and> inv s' \<and> gap_inv g'
    \<and> (\<forall>i < length l. sent (take i l) + gap_count g \<le>
        uint (gr_rate g) * (sint (ts_sec (fst (l ! i))) - sint (gr_tv_sec g)) + needed g (fst (l ! i)))"
  using assms
proof (induction ts arbitrary: g s)
  case (Cons now ts)
  have ok: "ts_ok now" using Cons.prems(4) by simp
  obtain g1 s1 r k where 1: "bandwidth_pull now pull (g, s) = Some ((g1, s1), r)" "inv s1" "gap_inv g1"
    "gr_rate g1 = gr_rate g" "gr_ugap g1 = gr_ugap g" "sint (gr_tv_sec g1) = max (sint (gr_tv_sec g)) (sint (ts_sec now))"
    "gap_count g1 = gap_count g - k * uint (gr_rate g) + (case r of None \<Rightarrow> 0 | Some p \<Rightarrow> int (plen p))"
    "0 \<le> k" "k \<le> sint (gr_tv_sec g1) - sint (gr_tv_sec g)"
    "r \<noteq> None \<Longrightarrow> gap_count g - k * uint (gr_rate g) \<le> needed g now"
    using bandwidth_pull_running [OF Cons.prems(1-3) ok] by blast
  have tv: "sint (gr_tv_sec g1) = sint (ts_sec now)" using 1(6) Cons.prems(6) by simp
  have "\<exists>g' s' l. bandwidth_run pull ts (g1, s1) = Some ((g', s'), l) \<and> inv s' \<and> gap_inv g'
    \<and> (\<forall>i < length l. sent (take i l) + gap_count g1 \<le>
        uint (gr_rate g1) * (sint (ts_sec (fst (l ! i))) - sint (gr_tv_sec g1)) + needed g1 (fst (l ! i)))"
    by (rule Cons.IH) (use 1 Cons.prems tv in auto)
  then obtain g' s' l where 2: "bandwidth_run pull ts (g1, s1) = Some ((g', s'), l)" "inv s'" "gap_inv g'"
    "\<And>i. i < length l \<Longrightarrow> sent (take i l) + gap_count g1 \<le>
        uint (gr_rate g) * (sint (ts_sec (fst (l ! i))) - sint (ts_sec now)) + needed g (fst (l ! i))"
    by (auto simp: 1(4) tv needed_def 1(5))
  have k: "uint (gr_rate g) * k \<le> uint (gr_rate g) * (sint (ts_sec now) - sint (gr_tv_sec g))"
    by (rule mult_left_mono) (use 1(9) tv in simp_all)
  let ?l = "case r of None \<Rightarrow> l | Some p \<Rightarrow> (now, p) # l"
  have "sent (take i ?l) + gap_count g \<le>
      uint (gr_rate g) * (sint (ts_sec (fst (?l ! i))) - sint (gr_tv_sec g)) + needed g (fst (?l ! i))" if "i < length ?l" for i
  proof (cases r)
    case None
    then show ?thesis using 2(4) [of i] that 1(7) k by (simp add: algebra_simps)
  next
    case (Some p)
    then show ?thesis using 2(4) [of "i - 1"] that 1(7,10) k by (cases i) (simp_all add: algebra_simps)
  qed
  then show ?case using 1(1) 2(1-3) by simp
qed simp

text \<open>The same from a reset, where the first pull fixes the origin of time.\<close>

lemma bandwidth_run_reset:
  assumes "inv s" "gap_inv g" "sint (gr_tv_sec g) < 0" "list_all ts_ok (t0 # ts)" "sorted (map (sint \<circ> ts_sec) (t0 # ts))"
  shows "\<exists>g' s' l. bandwidth_run pull (t0 # ts) (g, s) = Some ((g', s'), l) \<and> inv s' \<and> gap_inv g'
    \<and> (\<forall>i < length l. sent (take i l) + needed g t0 \<le>
        uint (gr_rate g) * (sint (ts_sec (fst (l ! i))) - sint (ts_sec t0)) + needed g (fst (l ! i)))"
proof -
  have ok: "ts_ok t0" using assms(4) by simp
  obtain g1 where 1: "need_update t0 g = need_update t0 g1" "gap_inv g1" "gr_rate g1 = gr_rate g" "gr_ugap g1 = gr_ugap g"
    "gr_tv_sec g1 = ts_sec t0" "needed g t0 \<le> gap_count g1"
    by (rule need_update_first [OF assms(2,3) ok])
  have n: "needed g1 t = needed g t" for t by (simp add: needed_def 1(4))
  have "bandwidth_run pull (t0 # ts) (g, s) = bandwidth_run pull (t0 # ts) (g1, s)"
    by (simp add: bandwidth_pull_first [OF 1(1)])
  moreover have "\<exists>g' s' l. bandwidth_run pull (t0 # ts) (g1, s) = Some ((g', s'), l) \<and> inv s' \<and> gap_inv g'
    \<and> (\<forall>i < length l. sent (take i l) + gap_count g1 \<le>
        uint (gr_rate g1) * (sint (ts_sec (fst (l ! i))) - sint (gr_tv_sec g1)) + needed g1 (fst (l ! i)))"
    by (rule bandwidth_run_running) (use assms 1 ok in \<open>auto simp: ts_ok_def\<close>)
  ultimately show ?thesis using 1(3,5,6) by (fastforce simp: n)
qed

end

text \<open>A queue of packets of at most 512 megabytes is such an input.\<close>

definition short_packets :: "packet note_queue \<Rightarrow> bool" where
  "short_packets q \<longleftrightarrow> note_inv q \<and> (\<forall>p \<in> set (queue_list q). int (plen p) \<le> MAX_LENGTH)"

interpretation qs: packet_source short_packets full_pull
proof unfold_locales
  fix q :: "packet note_queue" and p
  assume i: "short_packets q"
  then have n: "note_inv q" by (simp add: short_packets_def)
  note c = full_pull_correct [OF n]
  show "short_packets (fst (full_pull q))"
    using i c by (cases "queue_list q") (simp_all add: short_packets_def)
  show "int (plen p) \<le> MAX_LENGTH" if "snd (full_pull q) = Some p"
    using that i c by (auto simp: short_packets_def split: list.splits)
qed

text \<open>The counter of a shaper that has been configured.\<close>

lemma configured_rate:
  assumes "0 < r" "r \<le> 2 ^ 30"
  shows "gap_inv (fst (shaper_configure now r (new_gap_rate garbage 0)))"
    "sint (gr_tv_sec (fst (shaper_configure now r (new_gap_rate garbage 0)))) < 0"
    "gr_rate (fst (shaper_configure now r (new_gap_rate garbage 0))) = r"
    "gr_ugap (fst (shaper_configure now r (new_gap_rate garbage 0))) = MAX_RATE div r"
proof -
  have "\<not> MAX_RATE < r" using assms(2) by (simp add: MAX_RATE_def not_less order.trans [OF assms(2)])
  then have e: "fst (shaper_configure now r (new_gap_rate garbage 0)) =
      \<lparr>gr_ugap = MAX_RATE div r, gr_sec_count = garbage, gr_tv_sec = - 1, gr_rate = r\<rparr>"
    using less_imp_neq [OF assms(1)] by (simp add: shaper_configure_def set_rate_errh_def set_rate_def new_gap_rate_def gap_reset_def
        initialize_rate_def Let_def)
  show "gap_inv (fst (shaper_configure now r (new_gap_rate garbage 0)))"
    "sint (gr_tv_sec (fst (shaper_configure now r (new_gap_rate garbage 0)))) < 0"
    "gr_rate (fst (shaper_configure now r (new_gap_rate garbage 0))) = r"
    "gr_ugap (fst (shaper_configure now r (new_gap_rate garbage 0))) = MAX_RATE div r"
    using assms unfolding e by (simp_all add: gap_inv_def rate_ok_def)
qed

section \<open>Expiry\<close>

lemma scaled_less:
  fixes c :: int
  assumes "0 < a" "0 \<le> c"
  shows "u < (c * a) div 4096 \<Longrightarrow> (u * 4096) div a < c" "(c * a) div 4096 < u \<Longrightarrow> c \<le> (u * 4096) div a"
proof -
  have d: "(c * a) div 4096 * 4096 \<le> c * a" "c * a < (c * a) div 4096 * 4096 + 4096"
    using div_mult_mod_eq [of "c * a" 4096] pos_mod_bound [of 4096 "c * a"] pos_mod_sign [of 4096 "c * a"] by linarith+
  have e: "c \<le> x div a \<longleftrightarrow> c * a \<le> x" for x
    using assms(1) by (metis div_mult_mod_eq mult.commute mult_le_cancel_left_pos nonzero_mult_div_cancel_right
        less_irrefl order_trans zdiv_mono1 le_add_same_cancel1 pos_mod_sign)
  show "(u * 4096) div a < c" if "u < (c * a) div 4096" using that d(1) e [of "u * 4096"] by linarith
  show "c \<le> (u * 4096) div a" if "(c * a) div 4096 < u" using that d(2) e [of "u * 4096"] by linarith
qed

lemma expiry_count:
  assumes "gap_inv g" "0 \<le> sint (gr_tv_sec g)" "0 \<le> c" "c < uint (gr_rate g)" "uint w = c"
  shows "uint (drop_bit UGAP_SHIFT (w * gr_ugap g)) = (c * uint (gr_ugap g)) div 4096"
proof -
  have u: "uint (gr_ugap g) * uint (gr_rate g) \<le> 4096000000" using ugap_bounds(2) assms(1) by (simp add: gap_inv_def)
  have "c * uint (gr_ugap g) \<le> uint (gr_rate g) * uint (gr_ugap g)" by (rule mult_right_mono) (use assms(4) in simp_all)
  then have b: "c * uint (gr_ugap g) < 2 ^ 32" "0 \<le> c * uint (gr_ugap g)" using u assms(3) by (simp_all add: mult.commute)
  have "uint (w * gr_ugap g) = c * uint (gr_ugap g)" using b by (simp add: uint_word_ariths assms(5))
  then show ?thesis by (simp add: UGAP_SHIFT_def drop_bit_eq_div uint_div)
qed

lemma expiry_int:
  assumes "gap_inv g" "0 \<le> sint (gr_tv_sec g)" "0 \<le> gap_count g" "gap_count g < 2 * uint (gr_rate g)"
    "sint (gr_tv_sec g) < 2147483647"
  shows "sint (ts_sec (expiry g)) = sint (gr_tv_sec g) + gap_count g div uint (gr_rate g)"
    "uint (ts_usec (expiry g)) = (gap_count g mod uint (gr_rate g) * uint (gr_ugap g)) div 4096"
proof -
  have r: "0 < uint (gr_rate g)" "gr_rate g \<noteq> 0"
    using assms(1) by (auto simp: gap_inv_def rate_ok_def word_less_def)
  have c: "uint (gr_sec_count g) = gap_count g"
    using assms(3) uint_range(2) [of "gr_sec_count g"] unfolding gap_count_def sint_u32 by (auto split: if_splits)
  let ?c = "gap_count g" and ?r = "uint (gr_rate g)"
  show "sint (ts_sec (expiry g)) = sint (gr_tv_sec g) + ?c div ?r"
    "uint (ts_usec (expiry g)) = (?c mod ?r * uint (gr_ugap g)) div 4096"
  proof -
    have l: "gr_rate g \<le> gr_sec_count g \<longleftrightarrow> ?r \<le> ?c" by (simp add: word_le_def c)
    have sn: "\<not> sint (gr_sec_count g) < 0" "\<not> sint (gr_tv_sec g) < 0" using assms(2,3) by (simp_all add: gap_count_def)
    have "uint (gr_sec_count g mod gr_rate g) = ?c mod ?r" by (simp add: uint_mod c)
    moreover have "gr_sec_count g = gr_sec_count g mod gr_rate g" if "\<not> ?r \<le> ?c"
      using that assms(3) by (simp add: word_uint_eq_iff uint_mod c)
    ultimately show "uint (ts_usec (expiry g)) = (?c mod ?r * uint (gr_ugap g)) div 4096"
      using r l sn expiry_count [OF assms(1,2), of "?c mod ?r"] by (auto simp: expiry_def Let_def)
    show "sint (ts_sec (expiry g)) = sint (gr_tv_sec g) + ?c div ?r"
    proof (cases "?r \<le> ?c")
      case True
      have 1: "?c div ?r = 1" using True assms(4) div_pos_geq [of ?r ?c] r(1) div_pos_pos_trivial [of "?c - ?r" ?r] by simp
      then have "gr_sec_count g div gr_rate g = 1" by (simp add: word_uint_eq_iff uint_div c)
      moreover have "sint (gr_tv_sec g + 1) = sint (gr_tv_sec g) + 1"
        using sint_of_int32 [of "sint (gr_tv_sec g) + 1"] assms(2,5) by simp
      ultimately show ?thesis using True r l sn 1 by (simp add: expiry_def Let_def)
    next
      case False
      then show ?thesis using r l sn assms(3) div_pos_pos_trivial [of ?c ?r] by (simp add: expiry_def Let_def)
    qed
  qed
qed

section \<open>Boundary cases\<close>

text \<open>A rate above the maximum that is passed to the constructor is not lowered: the next call divides by zero.\<close>

lemma unclamped_rate: "MAX_RATE < r \<Longrightarrow> need_update now (new_gap_rate garbage r) = None"
  by (auto simp: need_update_def new_gap_rate_def gap_reset_def initialize_rate_def word_div_def word_less_def uint_range
      div_pos_pos_trivial MAX_RATE_def)

text \<open>
  With rate 0 the first call after a reset asks for an event when it is made in the first
  half of a second, and no later call does once the event has been counted.
\<close>

lemma rate_zero_first: "sint (ts_sec now) \<ge> 0 \<Longrightarrow> ts_usec now \<le> 500000 \<Longrightarrow>
  need_update now (new_gap_rate garbage 0) = Some (\<lparr>gr_ugap = 4096000001, gr_sec_count = 0, gr_tv_sec = ts_sec now, gr_rate = 0\<rparr>, True)"
proof -
  assume a: "sint (ts_sec now) \<ge> 0" "ts_usec now \<le> 500000"
  then have u: "uint (push_bit UGAP_SHIFT (ts_usec now)) \<le> 2048000000"
    by (subst shifted_usec) (simp_all add: ts_ok_def word_le_def order.strict_trans1 [OF a(2)])
  then have "push_bit UGAP_SHIFT (ts_usec now) div 4096000001 = 0"
    using uint_range by (simp add: word_uint_eq_iff uint_div div_pos_pos_trivial)
  moreover have "\<not> (2048000000 :: u32) < push_bit UGAP_SHIFT (ts_usec now)" using u by (simp add: word_less_def)
  ultimately show ?thesis
    by (simp add: need_update_def new_gap_rate_def gap_reset_def initialize_rate_def MAX_RATE_def Let_def)
qed

text \<open>\<open>set_rate\<close> on a running counter keeps the current second: it does not reset.\<close>

lemma set_rate_no_reset: "gr_tv_sec (set_rate now r g) = gr_tv_sec g"
  by (simp add: set_rate_def initialize_rate_def Let_def)

text \<open>At the time \<open>expiry\<close> announces, \<open>need_update\<close> can still be false.\<close>

lemma expiry_too_early:
  "let g = \<lparr>gr_ugap = MAX_RATE div 3, gr_sec_count = 1, gr_tv_sec = 5, gr_rate = 3\<rparr>
   in gap_inv g \<and> map_option snd (need_update (expiry g) g) = Some False"
  by (simp add: gap_inv_def rate_ok_def MAX_RATE_def gap_count_def MAX_LENGTH_def expiry_def need_update_def UGAP_SHIFT_def
      push_bit_eq_mult drop_bit_eq_div)

text \<open>Packets leave at the times of pulls.\<close>

lemma bandwidth_run_times: "bandwidth_run pull ts st = Some (st', l) \<Longrightarrow> fst ` set l \<subseteq> set ts"
  by (induction pull ts st arbitrary: st' l rule: bandwidth_run.induct) (fastforce split: option.splits prod.splits)+

section \<open>The configured rate\<close>

text \<open>
  The microseconds of a time, and the bytes that rounding may add to the configured rate: the gap is a
  whole number of 4096ths of a microsecond, which is too short by up to one such unit per byte.
\<close>

definition ts_usecs :: "timestamp \<Rightarrow> int" where
  "ts_usecs t = sint (ts_sec t) * 1000000 + uint (ts_usec t)"

definition rounding :: "int \<Rightarrow> int" where
  "rounding r = r div (4096000000 div r) + 2"

lemma scaled_difference:
  fixes G :: int
  assumes "0 < G"
  shows "G * (x div G - y div G) \<le> x - y + (G - 1)"
proof -
  have "G * (x div G) \<le> x" "y - (G - 1) \<le> G * (y div G)"
    using assms mult_div_mod_eq [of G x] mult_div_mod_eq [of G y] pos_mod_sign [of G x] pos_mod_bound [of G y] by linarith+
  then show ?thesis by (simp add: right_diff_distrib)
qed

lemma needed_rate:
  assumes "rate_ok g" "ts_ok t" "ts_ok t0"
  shows "1000000 * (uint (gr_rate g) * (sint (ts_sec t) - sint (ts_sec t0)) + needed g t - needed g t0)
    \<le> uint (gr_rate g) * (ts_usecs t - ts_usecs t0) + 1000000 * rounding (uint (gr_rate g))"
proof -
  define r G u u0 where "r = uint (gr_rate g)" and "G = uint (gr_ugap g)" and "u = uint (ts_usec t)" and "u0 = uint (ts_usec t0)"
  have G: "G = 4096000000 div r" "0 < G" using ugap_bounds(1) [OF assms(1)] assms(1)
    by (simp_all add: rate_ok_def MAX_RATE_def uint_div r_def G_def)
  have r: "0 < r" using assms(1) by (simp add: rate_ok_def word_less_def r_def)
  have "u < 1000000" "0 \<le> u0" using assms(2) by (simp_all add: ts_ok_def word_less_def u_def u0_def)
  then have uu: "u - u0 \<le> 1000000" by linarith
  have R: "0 \<le> 4096000000 - r * G" "4096000000 - r * G < r"
    using ugap_bounds(2,3) [OF assms(1)] by (simp_all add: r_def G_def algebra_simps)
  have "(4096000000 - r * G) * (u - u0) \<le> r * 1000000"
  proof (cases "0 \<le> u - u0")
    case True
    then show ?thesis using R uu by (intro mult_mono) simp_all
  next
    case False
    then have "(4096000000 - r * G) * (u - u0) \<le> 0" using R(1) by (intro mult_nonneg_nonpos) simp_all
    then show ?thesis using r by simp
  qed
  moreover have "r \<le> G * (r div G) + (G - 1)" using mult_div_mod_eq [of G r] pos_mod_bound [OF G(2), of r] by linarith
  moreover have "G * (needed g t - needed g t0) \<le> (u * 4096) - (u0 * 4096) + (G - 1)"
    using scaled_difference [OF G(2)] unfolding needed_def u_def u0_def G_def by simp
  ultimately have "G * (1000000 * (needed g t - needed g t0)) \<le> G * (r * (u - u0) + 1000000 * (r div G + 2))"
    using G(2) by (simp add: algebra_simps)
  then have "1000000 * (needed g t - needed g t0) \<le> r * (u - u0) + 1000000 * rounding r"
    using G by (simp add: rounding_def mult_le_cancel_left_pos)
  then show ?thesis by (simp add: ts_usecs_def r_def u_def u0_def algebra_simps)
qed

section \<open>Properties\<close>

text \<open>
  C7: a \<open>BandwidthShaper\<close> keeps its configured rate. Configured with \<open>r\<close> bytes per second, at most \<open>2 ^ 30\<close>,
  and pulled from a queue at seconds that do not decrease, it always has a defined result, and whenever a packet leaves, the bytes
  that left before it are at most \<open>r\<close> times the time since the first pull, to the microsecond, and \<open>rounding r\<close> bytes
  more, however long it runs. So with the packet that leaves it is ahead of \<open>r\<close> by at most that packet and \<open>rounding r\<close>, which is \<open>r\<close>
  divided by the gap, plus 2: 383 bytes for the 10 Mbit/s of the test bed, and about a third of a
  second for the largest rate.
\<close>

theorem bandwidth_limit:
  assumes "0 < r" "r \<le> 2 ^ 30" "note_inv q" "\<forall>p \<in> set (queue_list q). int (plen p) \<le> 2 ^ 29"
    "\<forall>t \<in> set (t0 # ts). 0 \<le> sint (ts_sec t) \<and> ts_usec t < 1000000" "sorted (map (sint \<circ> ts_sec) (t0 # ts))"
  shows "\<exists>g' q' l. bandwidth_run full_pull (t0 # ts) (fst (shaper_configure now r (new_gap_rate garbage 0)), q) = Some ((g', q'), l)
    \<and> (\<forall>i < length l. 1000000 * (\<Sum>(_, p) \<leftarrow> take i l. int (plen p))
            \<le> uint r * (ts_usecs (fst (l ! i)) - ts_usecs t0) + 1000000 * rounding (uint r))"
proof -
  let ?g = "fst (shaper_configure now r (new_gap_rate garbage 0))"
  note c = configured_rate [OF assms(1,2), of now garbage]
  have q: "short_packets q" using assms(3,4) by (simp add: short_packets_def MAX_LENGTH_def)
  have ok: "list_all ts_ok (t0 # ts)" using assms(5) by (simp add: list_all_iff ts_ok_def)
  have g: "rate_ok ?g" using c(1) by (simp add: gap_inv_def)
  obtain g' q' l where l: "bandwidth_run full_pull (t0 # ts) (?g, q) = Some ((g', q'), l)"
    "\<And>i. i < length l \<Longrightarrow> sent (take i l) + needed ?g t0 \<le>
        uint r * (sint (ts_sec (fst (l ! i))) - sint (ts_sec t0)) + needed ?g (fst (l ! i))"
    using qs.bandwidth_run_reset [OF q c(1,2) ok assms(6)] unfolding c(3) by blast
  have t: "ts_ok (fst x)" if "x \<in> set l" for x
    using bandwidth_run_times [OF l(1)] that ok by (auto simp: list_all_iff)
  have "1000000 * sent (take i l) \<le> uint r * (ts_usecs (fst (l ! i)) - ts_usecs t0) + 1000000 * rounding (uint r)" if "i < length l" for i
    using needed_rate [OF g, of "fst (l ! i)" t0] l(2) [OF that] t [OF nth_mem [OF that]] ok unfolding c(3) by simp
  then show ?thesis using l(1) by (auto simp: sent_def)
qed

theorem bandwidth_limit_witness:
  "let p = \<lparr>pbuf = replicate 60 0, plen = 60\<rparr>;
       q = fst (full_push p (fst (full_push p (new_note_queue 4))));
       g = fst (shaper_configure \<lparr>ts_sec = 7, ts_usec = 0\<rparr> 1250000 (new_gap_rate 0 0))
   in \<exists>g' q' l. bandwidth_run full_pull [\<lparr>ts_sec = 7, ts_usec = 0\<rparr>, \<lparr>ts_sec = 7, ts_usec = 20\<rparr>, \<lparr>ts_sec = 7, ts_usec = 49\<rparr>] (g, q)
        = Some ((g', q'), l)
      \<and> (\<forall>i < length l. 1000000 * (\<Sum>(_, p) \<leftarrow> take i l. int (plen p)) \<le> 1250000 * (ts_usecs (fst (l ! i)) - 7000000) + 383000000)"
proof -
  let ?p = "\<lparr>pbuf = replicate 60 0, plen = 60\<rparr>"
  let ?q1 = "fst (full_push ?p (new_note_queue 4))"
  have n: "note_inv (new_note_queue 4 :: packet note_queue)" "queue_list (new_note_queue 4 :: packet note_queue) = []"
    using new_note_queue_inv [of 4, where ?'p = packet] by simp_all
  have n1: "note_inv ?q1" "set (queue_list ?q1) \<subseteq> {?p}"
    using full_push_correct [OF n(1), of ?p] n(2) by (auto split: if_splits)
  have "note_inv (fst (full_push ?p ?q1))" "\<forall>p \<in> set (queue_list (fst (full_push ?p ?q1))). int (plen p) \<le> 2 ^ 29"
    using full_push_correct [OF n1(1), of ?p] n1(2) by (auto split: if_splits)
  moreover have "rounding 1250000 = 383" "ts_usecs \<lparr>ts_sec = 7, ts_usec = 0\<rparr> = 7000000" by (simp_all add: rounding_def ts_usecs_def)
  ultimately show ?thesis
    using bandwidth_limit [of 1250000 "fst (full_push ?p ?q1)" "\<lparr>ts_sec = 7, ts_usec = 0\<rparr>"
        "[\<lparr>ts_sec = 7, ts_usec = 20\<rparr>, \<lparr>ts_sec = 7, ts_usec = 49\<rparr>]" "\<lparr>ts_sec = 7, ts_usec = 0\<rparr>" 0]
    unfolding Let_def by auto
qed

text \<open>
  \<open>GapRate::expiry\<close> is exact to a microsecond: before the time it returns \<open>need_update\<close>
  is false, and from the next microsecond of that second on it is true.
\<close>

theorem expiry_tight:
  assumes "gap_inv g" "0 \<le> sint (gr_tv_sec g)" "sint (gr_tv_sec g) < 2147483647" "0 \<le> gap_count g"
    "gap_count g < 2 * uint (gr_rate g)" "0 \<le> sint (ts_sec t)" "ts_usec t < 1000000" "ts_sec t = ts_sec (expiry g)"
  shows "(ts_usec t < ts_usec (expiry g) \<longrightarrow> map_option snd (need_update t g) = Some False)
    \<and> (ts_usec (expiry g) < ts_usec t \<longrightarrow> map_option snd (need_update t g) = Some True)"
proof -
  let ?r = "uint (gr_rate g)" and ?c = "gap_count g"
  have t: "ts_ok t" using assms(6,7) by (simp add: ts_ok_def)
  have ok: "rate_ok g" using assms(1) by (simp add: gap_inv_def)
  have r: "0 < ?r" using ok by (simp add: rate_ok_def word_less_def)
  note e = expiry_int [OF assms(1,2,4,5,3)]
  obtain g' k where "need_update t g = Some (g', gap_count g' \<le> needed g t)" "gap_count g' = ?c - k * ?r"
    "k = (if sint (gr_tv_sec g) < sint (ts_sec t) \<and> 0 < ?c then 1 else 0)"
    using need_update_running [OF assms(1,2) t] by blast
  moreover have "?c div ?r = (if ?r \<le> ?c then 1 else 0)"
    using assms(4,5) r div_pos_geq [of ?r ?c] div_pos_pos_trivial [of "?c - ?r" ?r] by simp
  ultimately have "map_option snd (need_update t g) = Some (?c mod ?r \<le> needed g t)"
    using e(1) r by (auto simp: assms(8) minus_div_mult_eq_mod [symmetric] split: if_splits)
  moreover have "needed g t < ?c mod ?r" if "uint (ts_usec t) < uint (ts_usec (expiry g))"
    unfolding needed_def by (rule scaled_less(1)) (use that e(2) ugap_bounds(1) [OF ok] r in simp_all)
  moreover have "?c mod ?r \<le> needed g t" if "uint (ts_usec (expiry g)) < uint (ts_usec t)"
    unfolding needed_def by (rule scaled_less(2)) (use that e(2) ugap_bounds(1) [OF ok] r in simp_all)
  ultimately show ?thesis by (auto simp: word_less_def)
qed

theorem expiry_tight_witness:
  "let g = \<lparr>gr_ugap = MAX_RATE div 3, gr_sec_count = 1, gr_tv_sec = 5, gr_rate = 3\<rparr>
   in expiry g = \<lparr>ts_sec = 5, ts_usec = 333333\<rparr>
      \<and> map_option snd (need_update \<lparr>ts_sec = 5, ts_usec = 333334\<rparr> g) = Some True"
proof -
  let ?g = "\<lparr>gr_ugap = MAX_RATE div 3, gr_sec_count = 1, gr_tv_sec = 5, gr_rate = 3\<rparr>"
  have e: "expiry ?g = \<lparr>ts_sec = 5, ts_usec = 333333\<rparr>"
    by (simp add: expiry_def MAX_RATE_def UGAP_SHIFT_def drop_bit_eq_div)
  have "gap_inv ?g" by (simp add: gap_inv_def rate_ok_def MAX_RATE_def gap_count_def MAX_LENGTH_def)
  then show ?thesis
    using expiry_tight [of ?g "\<lparr>ts_sec = 5, ts_usec = 333334\<rparr>"] e by (simp add: gap_count_def)
qed

end
