(* ===== verification/Click_Sched.thy ===== *)
theory Click_Sched
  imports Click_Note_Queue
begin

text \<open>
  Packet schedulers: \<open>PrioSched\<close> and \<open>RRSched\<close>
  (\<open>elements/standard/priosched.cc\<close>, \<open>rrsched.cc\<close>). A scheduler has the state of
  whatever is upstream of each input, \<open>sig\<close> reads the signal of an input and \<open>pull\<close> pulls
  from it; \<open>None\<close> as the result of a pull is undefined behaviour upstream, and the scheduler
  never catches it.
\<close>

section \<open>Definitions\<close>

type_synonym ('s, 'p) puller = "'s \<Rightarrow> ('s \<times> 'p option) option"

fun prio_pull :: "('s \<Rightarrow> bool) \<Rightarrow> ('s, 'p) puller \<Rightarrow> 's list \<Rightarrow> ('s list \<times> 'p option) option" where
  "prio_pull sig pull [] = Some ([], None)"
| "prio_pull sig pull (s # ss) =
     (if sig s
      then (case pull s of
              None \<Rightarrow> None
            | Some (s', Some p) \<Rightarrow> Some (s' # ss, Some p)
            | Some (s', None) \<Rightarrow> map_option (\<lambda>(ss', r). (s' # ss', r)) (prio_pull sig pull ss))
      else map_option (\<lambda>(ss', r). (s # ss', r)) (prio_pull sig pull ss))"

record 's rr_sched =
  rr_next :: nat
  rr_inputs :: "'s list"

text \<open>The loop of \<open>RRSched::pull\<close>: \<open>j\<close> inputs are left to look at, \<open>i\<close> is the next one.\<close>

fun rr_loop ::
  "('s \<Rightarrow> bool) \<Rightarrow> ('s, 'p) puller \<Rightarrow> nat \<Rightarrow> nat \<Rightarrow> 's rr_sched \<Rightarrow> ('s rr_sched \<times> 'p option) option" where
  "rr_loop sig pull 0 i r = Some (r, None)"
| "rr_loop sig pull (Suc j) i r =
     (let n = length (rr_inputs r); s = rr_inputs r ! i; i' = (if n \<le> i + 1 then 0 else i + 1)
      in case (if sig s then pull s else Some (s, None)) of
           None \<Rightarrow> None
         | Some (s', Some p) \<Rightarrow> Some (r\<lparr>rr_next := i', rr_inputs := (rr_inputs r)[i := s']\<rparr>, Some p)
         | Some (s', None) \<Rightarrow> rr_loop sig pull j i' (r\<lparr>rr_inputs := (rr_inputs r)[i := s']\<rparr>))"

definition rr_pull :: "('s \<Rightarrow> bool) \<Rightarrow> ('s, 'p) puller \<Rightarrow> 's rr_sched \<Rightarrow> ('s rr_sched \<times> 'p option) option" where
  "rr_pull sig pull r = rr_loop sig pull (length (rr_inputs r)) (rr_next r) r"

text \<open>A number of pulls that all return a packet.\<close>

fun rr_pulls ::
  "('s \<Rightarrow> bool) \<Rightarrow> ('s, 'p) puller \<Rightarrow> nat \<Rightarrow> 's rr_sched \<Rightarrow> ('s rr_sched \<times> 'p list) option" where
  "rr_pulls sig pull 0 r = Some (r, [])"
| "rr_pulls sig pull (Suc m) r =
     (case rr_pull sig pull r of
        Some (r', Some p) \<Rightarrow> map_option (\<lambda>(r'', ps). (r'', p # ps)) (rr_pulls sig pull m r')
      | _ \<Rightarrow> None)"

section \<open>What a scheduler relies on\<close>

lemma list_all_update: "list_all P xs \<Longrightarrow> P x \<Longrightarrow> list_all P (xs[i := x])"
  by (auto simp: list_all_iff dest: set_update_subset_insert [THEN subsetD])

text \<open>
  An input hands out the oldest packet upstream of it or nothing, and its signal is on
  whenever there is a packet. An eager input hands out a packet whenever there is one.
\<close>

lemma mod_add_cancel_lt: "(a + b) mod n = (a + c) mod n \<Longrightarrow> b < n \<Longrightarrow> c < n \<Longrightarrow> b = (c :: nat)"
proof (induction b c rule: linorder_wlog)
  case (le b c)
  then have "n dvd c - b" using mod_eq_dvd_iff_nat [of "a + b" "a + c" n] by simp
  then show ?case using le by (auto dest: dvd_imp_le)
qed simp

text \<open>
  Of the inputs in the order in which a round robin scheduler visits them, those before \<open>D\<close> have
  lost at most their oldest packet, \<open>D\<close> has lost exactly that, and those after \<open>D\<close> have lost nothing.
\<close>

definition served_once :: "('s \<Rightarrow> 'p list) \<Rightarrow> nat \<Rightarrow> nat \<Rightarrow> 's rr_sched \<Rightarrow> 's rr_sched \<Rightarrow> bool" where
  "served_once items n D r r' \<longleftrightarrow> length (rr_inputs r') = n \<and>
     (\<forall>e < n. let s = items (rr_inputs r ! ((rr_next r + e) mod n)); s' = items (rr_inputs r' ! ((rr_next r + e) mod n))
        in if e < D then s' = s \<or> s' = tl s else if e = D then s' = tl s else s' = s)"

locale pull_source =
  fixes inv :: "'s \<Rightarrow> bool"
    and items :: "'s \<Rightarrow> 'p list"
    and sig :: "'s \<Rightarrow> bool"
    and pull :: "('s, 'p) puller"
  assumes pull_defined: "inv s \<Longrightarrow> \<exists>s' r. pull s = Some (s', r)"
    and pull_inv: "inv s \<Longrightarrow> pull s = Some (s', r) \<Longrightarrow> inv s'"
    and pull_some: "inv s \<Longrightarrow> pull s = Some (s', Some p) \<Longrightarrow> items s = p # items s'"
    and pull_none: "inv s \<Longrightarrow> pull s = Some (s', None) \<Longrightarrow> items s' = items s"
    and sig_sound: "inv s \<Longrightarrow> items s \<noteq> [] \<Longrightarrow> sig s"
begin

text \<open>A pull guarded by the signal behaves as the pull.\<close>

lemma guarded_pull:
  assumes "inv s"
  obtains s' r where "(if sig s then pull s else Some (s, None)) = Some (s', r)" "inv s'"
    "items s = (case r of None \<Rightarrow> [] | Some p \<Rightarrow> [p]) @ items s'"
proof (cases "sig s")
  case True
  obtain s' r where "pull s = Some (s', r)" using pull_defined [OF assms] by blast
  then show thesis
    using that [of s' r] True pull_inv [OF assms] pull_some [OF assms] pull_none [OF assms] by (cases r) auto
next
  case False
  then show thesis using that [of s None] assms by simp
qed

text \<open>\<open>PrioSched\<close>: a packet comes from one input, all the inputs before it yielded nothing.\<close>

lemma prio_pull_correct:
  assumes "list_all inv ss"
  shows "\<exists>ss' r. prio_pull sig pull ss = Some (ss', r) \<and> list_all inv ss' \<and> length ss' = length ss
    \<and> (case r of
         None \<Rightarrow> map items ss' = map items ss
       | Some p \<Rightarrow> \<exists>i < length ss. items (ss ! i) = p # items (ss' ! i) \<and> map items ss' = (map items ss)[i := items (ss' ! i)]
           \<and> (\<forall>j < i. sig (ss ! j) \<longrightarrow> (\<exists>s. pull (ss ! j) = Some (s, None))))"
  using assms
proof (induction ss)
  case (Cons s ss)
  have i: "inv s" "list_all inv ss" using Cons.prems by simp_all
  obtain s' r where 1: "(if sig s then pull s else Some (s, None)) = Some (s', r)" "inv s'"
    "items s = (case r of None \<Rightarrow> [] | Some p \<Rightarrow> [p]) @ items s'"
    using guarded_pull [OF i(1)] by blast
  obtain ss' r' where 2: "prio_pull sig pull ss = Some (ss', r')" "list_all inv ss'" "length ss' = length ss"
    "case r' of None \<Rightarrow> map items ss' = map items ss
       | Some p \<Rightarrow> \<exists>i < length ss. items (ss ! i) = p # items (ss' ! i) \<and> map items ss' = (map items ss)[i := items (ss' ! i)]
           \<and> (\<forall>j < i. sig (ss ! j) \<longrightarrow> (\<exists>s. pull (ss ! j) = Some (s, None)))"
    using Cons.IH [OF i(2)] by blast
  show ?case
  proof (cases r)
    case (Some p)
    then show ?thesis using 1 i by (auto split: if_splits intro!: exI [of _ 0])
  next
    case None
    then have e: "prio_pull sig pull (s # ss) = Some (s' # ss', r')" using 1 2(1) by (auto split: if_splits)
    have s: "sig s \<longrightarrow> (\<exists>s'. pull s = Some (s', None))" using 1(1) None by (auto split: if_splits)
    show ?thesis
    proof (cases r')
      case None
      then show ?thesis using e 1 2 \<open>r = None\<close> by simp
    next
      case (Some p)
      then obtain k where k: "k < length ss" "items (ss ! k) = p # items (ss' ! k)" "map items ss' = (map items ss)[k := items (ss' ! k)]"
        "\<forall>j < k. sig (ss ! j) \<longrightarrow> (\<exists>s. pull (ss ! j) = Some (s, None))" using 2(4) by auto
      have "\<forall>j < Suc k. sig ((s # ss) ! j) \<longrightarrow> (\<exists>s'. pull ((s # ss) ! j) = Some (s', None))"
        using k(4) s by (auto simp: less_Suc_eq_0_disj)
      then show ?thesis using e 1 2(2,3) k Some \<open>r = None\<close> by (auto intro!: exI [of _ "Suc k"])
    qed
  qed
qed simp

end

locale eager_source = pull_source +
  assumes pull_ready: "inv s \<Longrightarrow> items s \<noteq> [] \<Longrightarrow> \<exists>s' p. pull s = Some (s', Some p)"
begin

lemma eager_pull:
  assumes "inv s"
  obtains (empty) s' where "(if sig s then pull s else Some (s, None)) = Some (s', None)" "inv s'" "items s = []" "items s' = []"
  | (ready) s' p where "(if sig s then pull s else Some (s, None)) = Some (s', Some p)" "inv s'" "items s = p # items s'"
proof -
  obtain s' r where 1: "(if sig s then pull s else Some (s, None)) = Some (s', r)" "inv s'"
    "items s = (case r of None \<Rightarrow> [] | Some p \<Rightarrow> [p]) @ items s'"
    using guarded_pull [OF assms] by blast
  show thesis
  proof (cases r)
    case (Some p)
    then show thesis using ready [of s' p] 1 by simp
  next
    case None
    then have "items s = []" using pull_ready [OF assms] sig_sound [OF assms] 1(1) by fastforce
    then show thesis using empty [of s'] 1 None by simp
  qed
qed

text \<open>\<open>PrioSched\<close> over eager inputs serves the first that has a packet.\<close>

lemma prio_pull_eager:
  assumes "list_all inv ss" "prio_pull sig pull ss = Some (ss', r)"
  shows "(r = None \<longleftrightarrow> (\<forall>s \<in> set ss. items s = []))
    \<and> (\<forall>p. r = Some p \<longrightarrow> (\<exists>i < length ss. items (ss ! i) = p # items (ss' ! i) \<and> (\<forall>j < i. items (ss ! j) = [])))"
  using assms
proof (induction ss arbitrary: ss' r)
  case (Cons s ss)
  have i: "inv s" "list_all inv ss" using Cons.prems(1) by simp_all
  from i(1) show ?case
  proof (cases rule: eager_pull)
    case (empty s1)
    then obtain ss1 where 1: "prio_pull sig pull ss = Some (ss1, r)" "ss' = s1 # ss1"
      using Cons.prems(2) by (auto split: if_splits)
    have "\<exists>i < length (s # ss). items ((s # ss) ! i) = p # items (ss' ! i) \<and> (\<forall>j < i. items ((s # ss) ! j) = [])"
      if rp: "r = Some p" for p
    proof -
      obtain k where "k < length ss" "items (ss ! k) = p # items (ss1 ! k)" "\<forall>j < k. items (ss ! j) = []"
        using Cons.IH [OF i(2) 1(1)] rp by blast
      then show ?thesis using empty(3) 1(2) by (intro exI [of _ "Suc k"]) (auto simp: less_Suc_eq_0_disj)
    qed
    then show ?thesis using Cons.IH [OF i(2) 1(1)] empty(3) by simp
  next
    case (ready s1 p)
    then show ?thesis using Cons.prems(2) by (auto split: if_splits)
  qed
qed simp

text \<open>\<open>RRSched\<close> over eager inputs serves the first that has a packet, from the one after the last served.\<close>

lemma rr_loop_eager:
  assumes "list_all inv (rr_inputs r)" "i < length (rr_inputs r)" "n = length (rr_inputs r)"
  shows "\<exists>r' res. rr_loop sig pull j i r = Some (r', res) \<and> list_all inv (rr_inputs r') \<and> length (rr_inputs r') = n
    \<and> (case res of
         None \<Rightarrow> map items (rr_inputs r') = map items (rr_inputs r) \<and> rr_next r' = rr_next r
                 \<and> (\<forall>e < j. items (rr_inputs r ! ((i + e) mod n)) = [])
       | Some p \<Rightarrow> \<exists>d < j. let k = (i + d) mod n in
                   items (rr_inputs r ! k) = p # items (rr_inputs r' ! k) \<and> rr_next r' = (k + 1) mod n
                   \<and> map items (rr_inputs r') = (map items (rr_inputs r))[k := items (rr_inputs r' ! k)]
                   \<and> (\<forall>e < d. items (rr_inputs r ! ((i + e) mod n)) = []))"
  using assms
proof (induction j arbitrary: i r)
  case (Suc j)
  let ?s = "rr_inputs r ! i" 
  define i1 where i1: "i1 = (if n \<le> i + 1 then 0 else i + 1)"
  have i': "i1 = (i + 1) mod n" "i1 < n" using Suc.prems(2,3) by (unfold i1, cases "n = i + 1", auto)+
  have inv: "inv ?s" using Suc.prems by (simp add: list_all_length)
  from inv show ?case
  proof (cases rule: eager_pull)
    case (ready s' p)
    have "list_all inv ((rr_inputs r)[i := s'])" using Suc.prems(1) ready(2) by (rule list_all_update)
    then show ?thesis
      using ready Suc.prems i'(1) by (auto simp: Let_def map_update i1 split: if_splits intro!: exI [of _ 0])
  next
    case (empty s')
    let ?r = "r\<lparr>rr_inputs := (rr_inputs r)[i := s']\<rparr>"
    have l: "list_all inv (rr_inputs ?r)" using list_all_update [OF Suc.prems(1) empty(2)] by simp
    have m: "map items (rr_inputs ?r) = map items (rr_inputs r)"
      using empty(3,4) Suc.prems(2) by (simp add: map_update list_update_same_conv)
    have it: "items (rr_inputs ?r ! k) = items (rr_inputs r ! k)" if "k < n" for k
      using m that Suc.prems(3) by (metis length_map length_list_update nth_map rr_sched.select_convs(2) rr_sched.update_convs(2) list_update_same_conv)
    have s: "(i1 + e) mod n = (i + Suc e) mod n" for e unfolding i'(1) by (simp add: mod_simps)
    have z: "items (rr_inputs r ! (i mod n)) = []" using empty(3) Suc.prems(2,3) by simp
    have 0: "(\<forall>e < Suc d. items (rr_inputs r ! ((i + e) mod n)) = []) \<longleftrightarrow>
        (\<forall>e < d. items (rr_inputs r ! ((i1 + e) mod n)) = [])" for d
      using z by (simp only: All_less_Suc2 s add_0_right simp_thms)
    obtain r' res where IH: "rr_loop sig pull j i1 ?r = Some (r', res)" "list_all inv (rr_inputs r')" "length (rr_inputs r') = n"
      "case res of
         None \<Rightarrow> map items (rr_inputs r') = map items (rr_inputs ?r) \<and> rr_next r' = rr_next ?r
                 \<and> (\<forall>e < j. items (rr_inputs ?r ! ((i1 + e) mod n)) = [])
       | Some p \<Rightarrow> \<exists>d < j. let k = (i1 + d) mod n in
                   items (rr_inputs ?r ! k) = p # items (rr_inputs r' ! k) \<and> rr_next r' = (k + 1) mod n
                   \<and> map items (rr_inputs r') = (map items (rr_inputs ?r))[k := items (rr_inputs r' ! k)]
                   \<and> (\<forall>e < d. items (rr_inputs ?r ! ((i1 + e) mod n)) = [])"
      using Suc.IH [of ?r i1] l i'(2) Suc.prems(3) by auto
    have e: "rr_loop sig pull (Suc j) i r = Some (r', res)"
      using IH(1) empty(1) Suc.prems(3) by (auto simp: Let_def i1 split: if_splits)
    have nx: "rr_next ?r = rr_next r" by simp
    have n0: "0 < n" using i'(2) by simp
    have ms: "(i1 + d) mod n < n" for d using n0 by simp
    show ?thesis
    proof (cases res)
      case None
      then show ?thesis
        using e IH(2-4) m 0 [of j] it [OF ms] nx by (intro exI [of _ r'] exI [of _ res]) (simp only: option.case simp_thms, blast)
    next
      case (Some p)
      then obtain d where d: "d < j" "items (rr_inputs ?r ! ((i1 + d) mod n)) = p # items (rr_inputs r' ! ((i1 + d) mod n))"
        "rr_next r' = ((i1 + d) mod n + 1) mod n"
        "map items (rr_inputs r') = (map items (rr_inputs ?r))[(i1 + d) mod n := items (rr_inputs r' ! ((i1 + d) mod n))]"
        "\<forall>e < d. items (rr_inputs ?r ! ((i1 + e) mod n)) = []" using IH(4) by (auto simp: Let_def)
      have a: "\<forall>e < Suc d. items (rr_inputs r ! ((i + e) mod n)) = []" using d(5) it [OF ms] 0 [of d] by simp
      have "\<exists>d < Suc j. let k = (i + d) mod n in
                   items (rr_inputs r ! k) = p # items (rr_inputs r' ! k) \<and> rr_next r' = (k + 1) mod n
                   \<and> map items (rr_inputs r') = (map items (rr_inputs r))[k := items (rr_inputs r' ! k)]
                   \<and> (\<forall>e < d. items (rr_inputs r ! ((i + e) mod n)) = [])"
        unfolding Let_def by (rule exI [of _ "Suc d"]) (intro conjI d(2) [unfolded it [OF ms], unfolded s] d(3,4) [unfolded m s] a, use d(1) in simp)
      then show ?thesis using e IH(2,3) Some by (intro exI [of _ r'] exI [of _ res]) (simp only: option.case simp_thms)
    qed
  qed
qed simp

text \<open>No input starves: its oldest packet leaves after at most one packet of every other input.\<close>

lemma served_once_first:
  assumes "D < n" "length (rr_inputs r) = n" "length (rr_inputs r') = n"
    "items (rr_inputs r ! ((rr_next r + D) mod n)) = q # items (rr_inputs r' ! ((rr_next r + D) mod n))"
    "map items (rr_inputs r') = (map items (rr_inputs r))[(rr_next r + D) mod n := items (rr_inputs r' ! ((rr_next r + D) mod n))]"
  shows "served_once items n D r r'"
proof -
  have n0: "0 < n" using assms(1) by simp
  have "items (rr_inputs r' ! ((rr_next r + e) mod n)) = items (rr_inputs r ! ((rr_next r + e) mod n))" if "e < n" "e \<noteq> D" for e
  proof -
    have "(rr_next r + D) mod n \<noteq> (rr_next r + e) mod n" using that assms(1) by (metis mod_add_cancel_lt)
    then have "map items (rr_inputs r') ! ((rr_next r + e) mod n) = map items (rr_inputs r) ! ((rr_next r + e) mod n)"
      unfolding assms(5) by simp
    then show ?thesis using n0 assms(2,3) by (simp add: nth_map)
  qed
  then show ?thesis using assms(3,4) by (auto simp: served_once_def Let_def)
qed

lemma served_once_step:
  assumes "D < n" "d < D" "length (rr_inputs r) = n" "length (rr_inputs r1) = n" "rr_next r1 = ((rr_next r + d) mod n + 1) mod n"
    "items (rr_inputs r ! ((rr_next r + d) mod n)) = q # items (rr_inputs r1 ! ((rr_next r + d) mod n))"
    "map items (rr_inputs r1) = (map items (rr_inputs r))[(rr_next r + d) mod n := items (rr_inputs r1 ! ((rr_next r + d) mod n))]"
    "served_once items n (D - d - 1) r1 r'"
  shows "served_once items n D r r'"
proof -
  have n0: "0 < n" using assms(1) by simp
  have other: "items (rr_inputs r1 ! ((rr_next r + e) mod n)) = items (rr_inputs r ! ((rr_next r + e) mod n))" if "e < n" "e \<noteq> d" for e
  proof -
    have "(rr_next r + d) mod n \<noteq> (rr_next r + e) mod n" using that assms(1,2) by (metis mod_add_cancel_lt less_trans)
    then have "map items (rr_inputs r1) ! ((rr_next r + e) mod n) = map items (rr_inputs r) ! ((rr_next r + e) mod n)"
      unfolding assms(7) by simp
    then show ?thesis using n0 assms(3,4) by (simp add: nth_map)
  qed
  have at: "items (rr_inputs r1 ! ((rr_next r + d) mod n)) = tl (items (rr_inputs r ! ((rr_next r + d) mod n)))" using assms(6) by simp
  have pos: "(rr_next r1 + ((e + n - d - 1) mod n)) mod n = (rr_next r + e) mod n" if "e < n" for e
  proof -
    have "(rr_next r1 + ((e + n - d - 1) mod n)) mod n = (rr_next r + d + 1 + (e + n - d - 1)) mod n"
      unfolding assms(5) by (simp add: mod_simps)
    also have "rr_next r + d + 1 + (e + n - d - 1) = rr_next r + e + n" using assms(1,2) by simp
    finally show ?thesis by simp
  qed
  have idx: "(e + n - d - 1) mod n = (if d < e then e - d - 1 else e + n - d - 1)" if "e < n" for e
  proof (cases "d < e")
    case True
    then have "e + n - d - 1 = (e - d - 1) + n" by simp
    then have "(e + n - d - 1) mod n = (e - d - 1) mod n" by (simp only: mod_add_self2)
    then show ?thesis using True that by simp
  next
    case False
    then show ?thesis using assms(1,2) by simp
  qed
  have all: "let s = items (rr_inputs r1 ! ((rr_next r + e) mod n)); s' = items (rr_inputs r' ! ((rr_next r + e) mod n));
      f = (if d < e then e - d - 1 else e + n - d - 1)
      in if f < D - d - 1 then s' = s \<or> s' = tl s else if f = D - d - 1 then s' = tl s else s' = s" if "e < n" for e
  proof -
    have "(e + n - d - 1) mod n < n" using n0 by simp
    from assms(8) [unfolded served_once_def, THEN conjunct2, rule_format, OF this] show ?thesis
      unfolding pos [OF that] unfolding idx [OF that] by (simp only: Let_def)
  qed
  have "let s = items (rr_inputs r ! ((rr_next r + e) mod n)); s' = items (rr_inputs r' ! ((rr_next r + e) mod n))
        in if e < D then s' = s \<or> s' = tl s else if e = D then s' = tl s else s' = s" if e: "e < n" for e
  proof -
    consider "e < d" | "e = d" | "d < e" "e < D" | "e = D" | "D < e" using assms(2) by linarith
    then show ?thesis
      using all [OF e] other [OF e] at assms(1,2) by cases (auto simp: Let_def split: if_splits)
  qed
  then show ?thesis using assms(8) by (simp add: served_once_def)
qed

lemma rr_pulls_reach:
  assumes "list_all inv (rr_inputs r)" "rr_next r < n" "n = length (rr_inputs r)" "D < n"
    "items (rr_inputs r ! ((rr_next r + D) mod n)) = p # ps"
  shows "\<exists>m \<le> D. \<exists>r' out. rr_pulls sig pull (Suc m) r = Some (r', out @ [p]) \<and> served_once items n D r r'"
  using assms
proof (induction D arbitrary: r rule: less_induct)
  case (less D)
  let ?k = "(rr_next r + D) mod n"
  obtain r' res where 1: "rr_pull sig pull r = Some (r', res)" "list_all inv (rr_inputs r')" "length (rr_inputs r') = n"
    "case res of
         None \<Rightarrow> map items (rr_inputs r') = map items (rr_inputs r) \<and> rr_next r' = rr_next r
                 \<and> (\<forall>e < n. items (rr_inputs r ! ((rr_next r + e) mod n)) = [])
       | Some p \<Rightarrow> \<exists>d < n. let k = (rr_next r + d) mod n in
                   items (rr_inputs r ! k) = p # items (rr_inputs r' ! k) \<and> rr_next r' = (k + 1) mod n
                   \<and> map items (rr_inputs r') = (map items (rr_inputs r))[k := items (rr_inputs r' ! k)]
                   \<and> (\<forall>e < d. items (rr_inputs r ! ((rr_next r + e) mod n)) = [])"
    using rr_loop_eager [OF less.prems(1) less.prems(2) [unfolded less.prems(3)] less.prems(3), of n]
    unfolding rr_pull_def less.prems(3) [symmetric] by blast
  then obtain q where res: "res = Some q" using less.prems(4,5) by (cases res) auto
  obtain d where d: "d < n" "items (rr_inputs r ! ((rr_next r + d) mod n)) = q # items (rr_inputs r' ! ((rr_next r + d) mod n))"
    "rr_next r' = ((rr_next r + d) mod n + 1) mod n"
    "map items (rr_inputs r') = (map items (rr_inputs r))[(rr_next r + d) mod n := items (rr_inputs r' ! ((rr_next r + d) mod n))]"
    "\<forall>e < d. items (rr_inputs r ! ((rr_next r + e) mod n)) = []" using 1(4) res by (auto simp: Let_def)
  have "d \<le> D" using d(5) less.prems(5) by (metis linorder_not_less list.distinct(1))
  show ?case
  proof (cases "d = D")
    case True
    then have "rr_pulls sig pull (Suc 0) r = Some (r', [] @ [p])" using 1(1) res d(2) less.prems(5) by simp
    moreover have "served_once items n D r r'" by (rule served_once_first) (use True d 1(3) less.prems(3,4) in simp_all)
    ultimately show ?thesis by blast
  next
    case False
    let ?D = "D - d - 1"
    have D: "?D < D" "?D < n" using \<open>d \<le> D\<close> False less.prems(4) by simp_all
    have "(rr_next r' + ?D) mod n = (rr_next r + d + 1 + ?D) mod n" unfolding d(3) by (simp add: mod_simps)
    then have k: "(rr_next r' + ?D) mod n = ?k" using \<open>d \<le> D\<close> False by simp
    have kn: "?k < n" using less.prems(4) by simp
    have ne: "(rr_next r + d) mod n \<noteq> ?k" using False d(1) less.prems(4) by (metis mod_add_cancel_lt)
    have "items (rr_inputs r' ! ?k) = map items (rr_inputs r') ! ?k" using 1(3) less.prems(4) by (simp add: nth_map)
    also have "\<dots> = items (rr_inputs r ! ?k)" unfolding d(4) using ne kn less.prems(3) by simp
    finally have it: "items (rr_inputs r' ! ((rr_next r' + ?D) mod n)) = p # ps" using k less.prems(5) by simp
    have nx: "rr_next r' < n" unfolding d(3) using less.prems(4) by simp
    obtain m r'' out where m: "m \<le> ?D" "rr_pulls sig pull (Suc m) r' = Some (r'', out @ [p])" "served_once items n ?D r' r''"
      using less.IH [OF D(1) 1(2) nx 1(3) [symmetric] D(2) it] by blast
    have "rr_pulls sig pull (Suc (Suc m)) r = Some (r'', (q # out) @ [p])"
      by (simp only: rr_pulls.simps(2) [of _ _ "Suc m" r] 1(1) res m(2) option.case prod.case option.map append_Cons)
    moreover have "Suc m \<le> D" using m(1) D(1) by simp
    moreover have "served_once items n D r r''"
      by (rule served_once_step [OF less.prems(4) _ less.prems(3) [symmetric] 1(3) d(3,2,4) m(3)]) (use \<open>d \<le> D\<close> False in simp)
    ultimately show ?thesis by blast
  qed
qed

end

text \<open>The queues with notification are eager inputs.\<close>

abbreviation queue_pull :: "('p note_queue, 'p) puller" where
  "queue_pull q \<equiv> Some (full_pull q)"

interpretation qe: eager_source note_inv queue_list nq_empty_note queue_pull
proof unfold_locales
  fix q q' :: "'p note_queue" and r p
  assume n: "note_inv q"
  note c = full_pull_correct [OF n]
  show "\<exists>s' r. Some (full_pull q) = Some (s', r)" by (cases "full_pull q") simp
  show "note_inv q'" if "Some (full_pull q) = Some (q', r)" using that c by simp
  show "queue_list q = p # queue_list q'" if "Some (full_pull q) = Some (q', Some p)"
    using that c by (cases "queue_list q") simp_all
  show "queue_list q' = queue_list q" if "Some (full_pull q) = Some (q', None)"
    using that c by (cases "queue_list q") simp_all
  show "nq_empty_note q" if "queue_list q \<noteq> []" using that n by (simp add: note_inv_def)
  show "\<exists>s' p. Some (full_pull q) = Some (s', Some p)" if "queue_list q \<noteq> []"
    using that c by (cases "full_pull q", cases "queue_list q") auto
qed

section \<open>Properties\<close>

text \<open>
  C8: \<open>PrioSched\<close> over queues is strict priority and work conserving. It returns nothing
  exactly when every queue is empty; otherwise it returns the oldest packet of the first
  queue that is not empty, and takes it out of that queue and of no other.
\<close>

theorem prio_sched_strict:
  assumes "\<forall>q \<in> set qs. note_inv q"
  shows "\<exists>qs' r. prio_pull nq_empty_note queue_pull qs = Some (qs', r) \<and> (\<forall>q \<in> set qs'. note_inv q)
    \<and> (r = None \<longleftrightarrow> (\<forall>q \<in> set qs. queue_list q = []))
    \<and> (\<forall>p. r = Some p \<longrightarrow> (\<exists>i < length qs. (\<forall>j < i. queue_list (qs ! j) = [])
         \<and> map queue_list qs' = (map queue_list qs)[i := tl (queue_list (qs ! i))] \<and> queue_list (qs ! i) = p # tl (queue_list (qs ! i))))"
proof -
  have l: "list_all note_inv qs" using assms by (simp add: list_all_iff)
  obtain qs' r where 1: "prio_pull nq_empty_note queue_pull qs = Some (qs', r)" "list_all note_inv qs'" "length qs' = length qs"
    "case r of None \<Rightarrow> map queue_list qs' = map queue_list qs
       | Some p \<Rightarrow> \<exists>i < length qs. queue_list (qs ! i) = p # queue_list (qs' ! i)
           \<and> map queue_list qs' = (map queue_list qs)[i := queue_list (qs' ! i)]
           \<and> (\<forall>j < i. nq_empty_note (qs ! j) \<longrightarrow> (\<exists>s. Some (full_pull (qs ! j)) = Some (s, None)))"
    using qe.prio_pull_correct [OF l] by blast
  have "\<exists>i < length qs. (\<forall>j < i. queue_list (qs ! j) = [])
         \<and> map queue_list qs' = (map queue_list qs)[i := tl (queue_list (qs ! i))] \<and> queue_list (qs ! i) = p # tl (queue_list (qs ! i))"
    if p: "r = Some p" for p
  proof -
    obtain i where i: "i < length qs" "queue_list (qs ! i) = p # queue_list (qs' ! i)"
      "map queue_list qs' = (map queue_list qs)[i := queue_list (qs' ! i)]"
      "\<forall>j < i. nq_empty_note (qs ! j) \<longrightarrow> (\<exists>s. Some (full_pull (qs ! j)) = Some (s, None))" using 1(4) p by auto
    have "queue_list (qs ! j) = []" if "j < i" for j
    proof (rule ccontr)
      assume ne: "queue_list (qs ! j) \<noteq> []"
      have "note_inv (qs ! j)" using l that i(1) by (simp add: list_all_length)
      then show False using qe.sig_sound qe.pull_ready ne i(4) that by fastforce
    qed
    then show ?thesis using i by auto
  qed
  then show ?thesis using 1 qe.prio_pull_eager [OF l 1(1)] by (auto simp: list_all_iff)
qed

theorem prio_sched_strict_witness:
  "let q0 = new_note_queue 2 :: nat note_queue; q1 = fst (full_push 8 q0)
   in map_option snd (prio_pull nq_empty_note queue_pull [q0, q1]) = Some (Some 8)
      \<and> (\<exists>qs' r. prio_pull nq_empty_note queue_pull [q0, q1] = Some (qs', r) \<and> (\<forall>q \<in> set qs'. note_inv q))"
proof -
  let ?q0 = "new_note_queue 2 :: nat note_queue"
  have n: "note_inv ?q0" using new_note_queue_inv [of 2, where ?'p = nat] by simp
  have "note_inv (fst (full_push 8 ?q0))" using full_push_correct [OF n, of 8] by simp
  moreover have "map_option snd (prio_pull nq_empty_note queue_pull [?q0, fst (full_push 8 ?q0)]) = Some (Some 8)" by code_simp
  moreover have "\<forall>q \<in> set [?q0, fst (full_push 8 ?q0)]. note_inv q" using calculation(1) n by simp
  ultimately show ?thesis using prio_sched_strict [of "[?q0, fst (full_push 8 ?q0)]"] unfolding Let_def by blast
qed

text \<open>
  C33: \<open>RRSched\<close> starves no queue: the oldest packet of a queue leaves after at most one packet
  of every other queue. There is a number of pulls, at most the number of queues, that all return
  a packet, the last of them the oldest of queue \<open>k\<close>; until then every other queue has lost at most its
  oldest packet, and \<open>k\<close> nothing but this one.
\<close>

theorem rr_sched_no_starvation:
  assumes "\<forall>q \<in> set (rr_inputs r). note_inv q" "rr_next r < length (rr_inputs r)" "k < length (rr_inputs r)"
    "queue_list (rr_inputs r ! k) = p # ps"
  shows "\<exists>m \<le> length (rr_inputs r). \<exists>r' out. rr_pulls nq_empty_note queue_pull m r = Some (r', out @ [p])
    \<and> queue_list (rr_inputs r' ! k) = ps
    \<and> (\<forall>j < length (rr_inputs r). j \<noteq> k \<longrightarrow>
         queue_list (rr_inputs r' ! j) = queue_list (rr_inputs r ! j) \<or> queue_list (rr_inputs r' ! j) = tl (queue_list (rr_inputs r ! j)))"
proof -
  let ?n = "length (rr_inputs r)" 
  have pos: "(rr_next r + (j + ?n - rr_next r) mod ?n) mod ?n = j" if "j < ?n" for j
  proof -
    have "(rr_next r + (j + ?n - rr_next r) mod ?n) mod ?n = (rr_next r + (j + ?n - rr_next r)) mod ?n" by (simp add: mod_simps)
    also have "\<dots> = (j + ?n) mod ?n" using assms(2) by simp
    finally show ?thesis using that by simp
  qed
  define D where "D = (k + ?n - rr_next r) mod ?n"
  have D: "D < ?n" unfolding D_def by (rule mod_less_divisor) (use assms(3) in linarith)
  have k: "(rr_next r + D) mod ?n = k" unfolding D_def by (rule pos [OF assms(3)])
  obtain m r' out where m: "m \<le> D" "rr_pulls nq_empty_note queue_pull (Suc m) r = Some (r', out @ [p])" "served_once queue_list ?n D r r'"
    using qe.rr_pulls_reach [of r ?n D p ps] assms(1,2,4) k D by (auto simp: list_all_iff simp del: rr_pulls.simps)
  have s: "let s = queue_list (rr_inputs r ! j); s' = queue_list (rr_inputs r' ! j); e = (j + ?n - rr_next r) mod ?n
      in if e < D then s' = s \<or> s' = tl s else if e = D then s' = tl s else s' = s" if "j < ?n" for j
  proof -
    have "(j + ?n - rr_next r) mod ?n < ?n" by (rule mod_less_divisor) (use assms(3) in linarith)
    from m(3) [unfolded served_once_def, THEN conjunct2, rule_format, OF this] show ?thesis
      unfolding pos [OF that] by (simp add: Let_def)
  qed
  have "queue_list (rr_inputs r' ! k) = ps" using s [OF assms(3)] assms(4) by (simp add: D_def [symmetric])
  moreover have "queue_list (rr_inputs r' ! j) = queue_list (rr_inputs r ! j) \<or> queue_list (rr_inputs r' ! j) = tl (queue_list (rr_inputs r ! j))"
    if "j < ?n" for j using s [OF that] by (auto simp: Let_def split: if_splits)
  moreover have "Suc m \<le> ?n" using m(1) D by simp
  ultimately show ?thesis using m(2) by blast
qed

theorem rr_sched_no_starvation_witness:
  "let q0 = new_note_queue 2 :: nat note_queue; q1 = fst (full_push 8 q0); q2 = fst (full_push 9 q0)
   in \<exists>m \<le> 3. \<exists>r' out. rr_pulls nq_empty_note queue_pull m \<lparr>rr_next = 1, rr_inputs = [q0, q1, q2]\<rparr> = Some (r', out @ [9])
      \<and> queue_list (rr_inputs r' ! 2) = []"
proof -
  let ?q0 = "new_note_queue 2 :: nat note_queue"
  let ?q1 = "fst (full_push 8 ?q0)" and ?q2 = "fst (full_push 9 ?q0)"
  let ?r = "\<lparr>rr_next = 1, rr_inputs = [?q0, ?q1, ?q2]\<rparr>"
  have n: "note_inv ?q0" using new_note_queue_inv [of 2, where ?'p = nat] by simp
  have "note_inv ?q1" "note_inv ?q2" using full_push_correct [OF n, of 8] full_push_correct [OF n, of 9] by simp_all
  moreover have "queue_list ?q2 = [9]" by code_simp
  ultimately have h: "\<forall>q \<in> set (rr_inputs ?r). note_inv q" "rr_next ?r < length (rr_inputs ?r)" "2 < length (rr_inputs ?r)"
    "queue_list (rr_inputs ?r ! 2) = [9]" using n by simp_all
  have "length (rr_inputs ?r) = 3" by simp
  then show ?thesis using rr_sched_no_starvation [OF h] unfolding Let_def by metis
qed

end
