(* ===== verification/Ersa_Pipeline.thy ===== *)
theory Ersa_Pipeline
  imports Ersa_Classifier Click_Rate Click_Sched
begin

text \<open>
  One direction of the router of \<open>sandbox_tester.click\<close>: the classifier sends a packet to the
  queue of the throttled traffic (output 0) or to that of the measurement tools (output 1);
  the throttled queue is emptied through a \<open>BandwidthShaper\<close>, and a \<open>PrioSched\<close> that prefers
  the measurement tools feeds the device. \<open>Print\<close> hands every packet on as it is.
\<close>

section \<open>Definitions\<close>

record link =
  lk_table :: flag_table
  lk_classifier :: classifier
  lk_throttled :: "packet note_queue"
  lk_rate :: gap_rate
  lk_tool :: "packet note_queue"

definition QUEUE_CAPACITY :: u32 where "QUEUE_CAPACITY = 80000000"

definition SHAPER_RATE :: u32 where "SHAPER_RATE = 1250000"

definition new_link :: "timestamp \<Rightarrow> u32 \<Rightarrow> link" where
  "new_link now garbage = \<lparr>lk_table = Map.empty, lk_classifier = new_classifier, lk_throttled = new_note_queue QUEUE_CAPACITY,
     lk_rate = fst (shaper_configure now SHAPER_RATE (new_gap_rate garbage 0)), lk_tool = new_note_queue QUEUE_CAPACITY\<rparr>"

text \<open>What an output port of the classifier is connected to. A packet a queue refuses is killed.\<close>

definition link_output :: "nat \<Rightarrow> packet \<Rightarrow> link \<Rightarrow> link" where
  "link_output port p l =
     (if port = 0 then l\<lparr>lk_throttled := fst (full_push p (lk_throttled l))\<rparr>
      else if port = 1 then l\<lparr>lk_tool := fst (full_push p (lk_tool l))\<rparr> else l)"

fun link_effect :: "effect \<Rightarrow> link \<Rightarrow> link" where
  "link_effect (Output_push port p) l = link_output port p l"
| "link_effect (Cout_behavior s) l = l"
| "link_effect (Print_statistics t u g) l = l"

definition link_arrive :: "int \<Rightarrow> packet \<Rightarrow> link \<Rightarrow> link option" where
  "link_arrive now p l =
     (case push now p (lk_table l) (lk_classifier l) of
        None \<Rightarrow> None
      | Some (g, c, es) \<Rightarrow> Some (fold link_effect es (l\<lparr>lk_table := g, lk_classifier := c\<rparr>)))"

text \<open>The two inputs of the scheduler. Packets carry the output of the classifier they came from.\<close>

datatype arm = Tool_arm "packet note_queue" | Throttled_arm gap_rate "packet note_queue"

fun arm_signal :: "arm \<Rightarrow> bool" where
  "arm_signal (Tool_arm q) = nq_empty_note q"
| "arm_signal (Throttled_arm g q) = nq_empty_note q"

fun arm_pull :: "timestamp \<Rightarrow> (arm, nat \<times> packet) puller" where
  "arm_pull now (Tool_arm q) = (let (q', r) = full_pull q in Some (Tool_arm q', map_option (Pair 1) r))"
| "arm_pull now (Throttled_arm g q) =
     map_option (\<lambda>((g', q'), r). (Throttled_arm g' q', map_option (Pair 0) r)) (bandwidth_pull now full_pull (g, q))"

fun set_arm :: "arm \<Rightarrow> link \<Rightarrow> link" where
  "set_arm (Tool_arm q) l = l\<lparr>lk_tool := q\<rparr>"
| "set_arm (Throttled_arm g q) l = l\<lparr>lk_rate := g, lk_throttled := q\<rparr>"

definition link_pull :: "timestamp \<Rightarrow> link \<Rightarrow> (link \<times> (nat \<times> packet) option) option" where
  "link_pull now l =
     map_option (\<lambda>(arms, r). (fold set_arm arms l, r))
       (prio_pull arm_signal (arm_pull now) [Tool_arm (lk_tool l), Throttled_arm (lk_rate l) (lk_throttled l)])"

datatype link_event = Arrive int packet | Device_pull timestamp

fun link_run :: "link_event list \<Rightarrow> link \<Rightarrow> (link \<times> (timestamp \<times> nat \<times> packet) list) option" where
  "link_run [] l = Some (l, [])"
| "link_run (Arrive now p # es) l = (case link_arrive now p l of None \<Rightarrow> None | Some l' \<Rightarrow> link_run es l')"
| "link_run (Device_pull now # es) l =
     (case link_pull now l of
        None \<Rightarrow> None
      | Some (l', r) \<Rightarrow> map_option (\<lambda>(l'', out). (l'', (case r of None \<Rightarrow> out | Some x \<Rightarrow> (now, x) # out))) (link_run es l'))"

section \<open>The arms keep the contract of a scheduler input\<close>

definition arm_inv :: "timestamp \<Rightarrow> arm \<Rightarrow> bool" where
  "arm_inv now a \<longleftrightarrow> ts_ok now \<and> (case a of Tool_arm q \<Rightarrow> short_packets q | Throttled_arm g q \<Rightarrow> gap_inv g \<and> short_packets q)"

fun arm_items :: "arm \<Rightarrow> (nat \<times> packet) list" where
  "arm_items (Tool_arm q) = map (Pair 1) (queue_list q)"
| "arm_items (Throttled_arm g q) = map (Pair 0) (queue_list q)"

text \<open>One pull of the shaper, whether or not it has been pulled before.\<close>

lemma shaper_pull_ok:
  assumes "short_packets q" "gap_inv g" "ts_ok now"
  obtains g' q' r where "bandwidth_pull now full_pull (g, q) = Some ((g', q'), r)" "short_packets q'" "gap_inv g'"
    "queue_list q = (case r of None \<Rightarrow> [] | Some p \<Rightarrow> [p]) @ queue_list q'" "sq_capacity q' = sq_capacity q"
proof -
  have n: "note_inv q" using assms(1) by (simp add: short_packets_def)
  obtain g' q' r where 1: "bandwidth_pull now full_pull (g, q) = Some ((g', q'), r)" "short_packets q'" "gap_inv g'"
    "(q', r) = full_pull q \<or> q' = q \<and> r = None"
    using qs.bandwidth_pull_ok [OF assms] by metis
  moreover have "queue_list q = (case r of None \<Rightarrow> [] | Some p \<Rightarrow> [p]) @ queue_list q'"
    using 1(4) full_pull_correct [OF n] by (cases "queue_list q"; cases "full_pull q") auto
  moreover have "sq_capacity q' = sq_capacity q" using 1(4) full_pull_correct [OF n] by (metis fst_conv)
  ultimately show thesis using that by blast
qed

interpretation arm: pull_source "arm_inv now" arm_items arm_signal "arm_pull now"
proof unfold_locales
  fix a a' r p
  assume i: "arm_inv now a"
  have "\<exists>a' r. arm_pull now a = Some (a', r) \<and> arm_inv now a' \<and> arm_items a = (case r of None \<Rightarrow> [] | Some p \<Rightarrow> [p]) @ arm_items a'"
  proof (cases a)
    case (Tool_arm q)
    then have n: "note_inv q" "short_packets q" using i by (simp_all add: arm_inv_def short_packets_def)
    obtain q' r where "full_pull q = (q', r)" by (cases "full_pull q")
    then show ?thesis
      using Tool_arm i full_pull_correct [OF n(1)] qs.pull_inv [OF n(2)]
      by (cases "queue_list q") (auto simp: arm_inv_def)
  next
    case (Throttled_arm g q)
    then have i': "short_packets q" "gap_inv g" "ts_ok now" using i by (simp_all add: arm_inv_def)
    obtain g' q' r where "bandwidth_pull now full_pull (g, q) = Some ((g', q'), r)" "short_packets q'" "gap_inv g'"
      "queue_list q = (case r of None \<Rightarrow> [] | Some p \<Rightarrow> [p]) @ queue_list q'" using shaper_pull_ok [OF i'] by blast
    then show ?thesis using Throttled_arm i' by (cases r) (simp_all add: arm_inv_def)
  qed
  then obtain b s where b: "arm_pull now a = Some (b, s)" "arm_inv now b" "arm_items a = (case s of None \<Rightarrow> [] | Some p \<Rightarrow> [p]) @ arm_items b"
    by blast
  show "\<exists>s' r. arm_pull now a = Some (s', r)" using b(1) by blast
  show "arm_inv now a'" if "arm_pull now a = Some (a', r)" using that b by simp
  show "arm_items a = p # arm_items a'" if "arm_pull now a = Some (a', Some p)" using that b by simp
  show "arm_items a' = arm_items a" if "arm_pull now a = Some (a', None)" using that b by simp
  show "arm_signal a" if "arm_items a \<noteq> []"
    using that i by (cases a) (simp_all add: arm_inv_def short_packets_def note_inv_def)
qed

section \<open>Arrivals\<close>

definition link_inv :: "link \<Rightarrow> bool" where
  "link_inv l \<longleftrightarrow> short_packets (lk_throttled l) \<and> short_packets (lk_tool l) \<and> gap_inv (lk_rate l)"

lemma throttle_output: "throttle p g c es = Some (g', c', es') \<Longrightarrow> es' = es @ [Output_push 0 p]"
  and unthrottle_output: "unthrottle p g c es = Some (g', c', es') \<Longrightarrow> es' = es @ [Output_push 1 p]"
  by (auto simp: throttle_def unthrottle_def split: Option.bind_splits)

lemma push_observed_output:
  assumes "push_observed now p tcp b k1 k2 g c es = Some (g', c', es')" "delivered es = []"
  shows "\<exists>es0. \<exists>port \<in> {0, 1}. es' = es0 @ [Output_push port p] \<and> delivered es0 = []"
  using assms
  by (auto simp: push_observed_def Let_def split: Option.bind_splits prod.splits if_splits
      dest!: throttle_output unthrottle_output)

lemma push_output:
  assumes "push now p g c = Some (g', c', es)"
  shows "\<exists>es0. \<exists>port \<in> {0, 1}. es = es0 @ [Output_push port p] \<and> delivered es0 = []"
  using assms
  by (auto simp: push_def Let_def split: Option.bind_splits if_splits
      dest!: throttle_output unthrottle_output push_observed_output)

lemma fold_no_output: "delivered es = [] \<Longrightarrow> fold link_effect es l = l"
  by (induction es rule: delivered.induct) simp_all

text \<open>The class of an arriving packet: the output to which the classifier sends it.\<close>

definition link_class :: "int \<Rightarrow> packet \<Rightarrow> link \<Rightarrow> nat" where
  "link_class now p l =
     (case push now p (lk_table l) (lk_classifier l) of Some (g, c, es) \<Rightarrow> hd (delivered es) | None \<Rightarrow> 0)"

lemma link_arrive_output:
  assumes "link_arrive now p l = Some l'"
  obtains g c port where "port \<in> {0, 1}" "l' = link_output port p (l\<lparr>lk_table := g, lk_classifier := c\<rparr>)" "link_class now p l = port"
proof -
  obtain g c es where 1: "push now p (lk_table l) (lk_classifier l) = Some (g, c, es)"
    "l' = fold link_effect es (l\<lparr>lk_table := g, lk_classifier := c\<rparr>)"
    using assms by (auto simp: link_arrive_def split: option.splits)
  obtain es0 port where "port \<in> {0, 1}" "es = es0 @ [Output_push port p]" "delivered es0 = []"
    using push_output [OF 1(1)] by blast
  then show thesis using that [of port c g] 1 by (simp add: fold_no_output link_class_def)
qed

lemma short_push:
  assumes "short_packets q" "int (plen p) \<le> MAX_LENGTH"
  shows "short_packets (fst (full_push p q))"
  using assms full_push_correct [of q p] by (auto simp: short_packets_def)

lemma link_arrive_inv:
  assumes "link_inv l" "link_arrive now p l = Some l'" "int (plen p) \<le> MAX_LENGTH"
  shows "link_inv l' \<and> lk_rate l' = lk_rate l"
  using assms(2)
proof (cases rule: link_arrive_output)
  case (1 g c port)
  then show ?thesis using assms(1,3) short_push by (auto simp: link_output_def link_inv_def)
qed

section \<open>Pulls\<close>

lemma link_pull_cases:
  assumes "link_inv l" "ts_ok now"
  obtains (tool) l' p where "link_pull now l = Some (l', Some (1, p))" "link_inv l'" "queue_list (lk_tool l) = p # queue_list (lk_tool l')"
      "lk_rate l' = lk_rate l" "lk_throttled l' = lk_throttled l" "sq_capacity (lk_tool l') = sq_capacity (lk_tool l)"
  | (idle) l' where "link_pull now l = Some (l', None)" "link_inv l'" "queue_list (lk_tool l) = []" "queue_list (lk_tool l') = []"
      "lk_rate l' = lk_rate l" "lk_throttled l' = lk_throttled l" "queue_list (lk_throttled l) = []" "sq_capacity (lk_tool l') = sq_capacity (lk_tool l)"
  | (shaper) l' r where "link_pull now l = Some (l', map_option (Pair 0) r)" "link_inv l'" "queue_list (lk_tool l) = []"
      "queue_list (lk_tool l') = []" "bandwidth_pull now full_pull (lk_rate l, lk_throttled l) = Some ((lk_rate l', lk_throttled l'), r)"
      "queue_list (lk_throttled l) = (case r of None \<Rightarrow> [] | Some p \<Rightarrow> [p]) @ queue_list (lk_throttled l')"
      "sq_capacity (lk_tool l') = sq_capacity (lk_tool l)" "sq_capacity (lk_throttled l') = sq_capacity (lk_throttled l)"
      "nq_empty_note (lk_throttled l)"
proof -
  have i: "short_packets (lk_throttled l)" "short_packets (lk_tool l)" "gap_inv (lk_rate l)" "note_inv (lk_tool l)" "note_inv (lk_throttled l)"
    using assms(1) by (simp_all add: link_inv_def short_packets_def)
  obtain q r where q: "full_pull (lk_tool l) = (q, r)" by (cases "full_pull (lk_tool l)")
  have qi: "short_packets q" "queue_list q = tl (queue_list (lk_tool l))"
      "r = (case queue_list (lk_tool l) of [] \<Rightarrow> None | p # ps \<Rightarrow> Some p)" "sq_capacity q = sq_capacity (lk_tool l)"
    using full_pull_correct [OF i(4)] qs.pull_inv [OF i(2)] q by simp_all
  obtain g' t' rt where t: "bandwidth_pull now full_pull (lk_rate l, lk_throttled l) = Some ((g', t'), rt)" "short_packets t'" "gap_inv g'"
    "queue_list (lk_throttled l) = (case rt of None \<Rightarrow> [] | Some p \<Rightarrow> [p]) @ queue_list t'"
    "sq_capacity t' = sq_capacity (lk_throttled l)"
    using shaper_pull_ok [OF i(1,3) assms(2)] by blast
  let ?q = "if nq_empty_note (lk_tool l) then q else lk_tool l"
  show thesis
  proof (cases "queue_list (lk_tool l)")
    case (Cons p ps)
    then have "nq_empty_note (lk_tool l)" using i(4) by (simp add: note_inv_def)
    then show thesis
      using tool [of "l\<lparr>lk_tool := q\<rparr>" p] i q qi Cons by (simp add: link_pull_def link_inv_def)
  next
    case Nil
    have e: "short_packets ?q" "queue_list ?q = []" "sq_capacity ?q = sq_capacity (lk_tool l)" using qi(1,2,4) i(2) Nil by simp_all
    show thesis
    proof (cases "nq_empty_note (lk_throttled l)")
      case True
      then have "link_pull now l = Some (l\<lparr>lk_tool := ?q, lk_rate := g', lk_throttled := t'\<rparr>, map_option (Pair 0) rt)"
        using q qi(3) Nil t(1) by (cases rt) (simp_all add: link_pull_def)
      then show thesis
        using shaper [of "l\<lparr>lk_tool := ?q, lk_rate := g', lk_throttled := t'\<rparr>" rt] e t Nil True by (simp add: link_inv_def)
    next
      case False
      then have n: "queue_list (lk_throttled l) = []" using i(5) by (auto simp: note_inv_def)
      have "link_pull now l = Some (l\<lparr>lk_tool := ?q\<rparr>, None)" using False q qi(3) Nil by (simp add: link_pull_def)
      then show thesis using idle [of "l\<lparr>lk_tool := ?q\<rparr>"] e i n Nil by (simp add: link_inv_def)
    qed
  qed
qed

section \<open>Runs\<close>

fun arrivals :: "link_event list \<Rightarrow> packet list" where
  "arrivals [] = []"
| "arrivals (Arrive now p # es) = p # arrivals es"
| "arrivals (Device_pull now # es) = arrivals es"

fun pull_times :: "link_event list \<Rightarrow> timestamp list" where
  "pull_times [] = []"
| "pull_times (Arrive now p # es) = pull_times es"
| "pull_times (Device_pull now # es) = now # pull_times es"

text \<open>The packets of one class that left.\<close>

definition departures :: "nat \<Rightarrow> (timestamp \<times> nat \<times> packet) list \<Rightarrow> packet list" where
  "departures c out = map (snd \<circ> snd) (filter (\<lambda>(t, k, p). k = c) out)"

lemma departures_simps [simp]:
  "departures c [] = []" "departures c ((t, k, p) # out) = (if k = c then [p] else []) @ departures c out"
  by (simp_all add: departures_def)

definition throttled_bytes :: "(timestamp \<times> nat \<times> packet) list \<Rightarrow> int" where
  "throttled_bytes out = (\<Sum>p \<leftarrow> departures 0 out. int (plen p))"

lemma throttled_bytes_simps [simp]:
  "throttled_bytes [] = 0" "throttled_bytes ((t, k, p) # out) = (if k = 0 then int (plen p) else 0) + throttled_bytes out"
  by (simp_all add: throttled_bytes_def)

lemma link_pull_conserves:
  assumes "link_inv l" "ts_ok now"
  obtains l' r where "link_pull now l = Some (l', r)" "link_inv l'"
    "queue_list (lk_throttled l) = (case r of Some (c, p) \<Rightarrow> (if c = 0 then [p] else []) | None \<Rightarrow> []) @ queue_list (lk_throttled l')"
    "queue_list (lk_tool l) = (case r of Some (c, p) \<Rightarrow> (if c = 1 then [p] else []) | None \<Rightarrow> []) @ queue_list (lk_tool l')"
    "sq_capacity (lk_throttled l') = sq_capacity (lk_throttled l)" "sq_capacity (lk_tool l') = sq_capacity (lk_tool l)"
  using assms
proof (cases rule: link_pull_cases)
  case (tool l' p)
  then show thesis using that [of l' "Some (1, p)"] by simp
next
  case (idle l')
  then show thesis using that [of l' None] by simp
next
  case (shaper l' r)
  then show thesis using that [of l' "map_option (Pair 0) r"] by (cases r) simp_all
qed

text \<open>
  The fate of every packet that arrives in a run: its class, and whether the queue of its class
  had room at that time.
\<close>

definition has_room :: "packet note_queue \<Rightarrow> bool" where
  "has_room q \<longleftrightarrow> length (queue_list q) < unat (sq_capacity q)"

fun link_fates :: "link_event list \<Rightarrow> link \<Rightarrow> (nat \<times> bool \<times> packet) list" where
  "link_fates [] l = []"
| "link_fates (Arrive now p # es) l =
     (case link_arrive now p l of
        None \<Rightarrow> []
      | Some l' \<Rightarrow> (link_class now p l, has_room (if link_class now p l = 0 then lk_throttled l else lk_tool l), p) # link_fates es l')"
| "link_fates (Device_pull now # es) l =
     (case link_pull now l of None \<Rightarrow> [] | Some (l', r) \<Rightarrow> link_fates es l')"

definition accepted :: "nat \<Rightarrow> (nat \<times> bool \<times> packet) list \<Rightarrow> packet list" where
  "accepted c fates = map (snd \<circ> snd) (filter (\<lambda>(k, room, p). k = c \<and> room) fates)"

lemma accepted_simps [simp]:
  "accepted c [] = []" "accepted c ((k, room, p) # fates) = (if k = c \<and> room then [p] else []) @ accepted c fates"
  by (simp_all add: accepted_def)

lemma full_push_room:
  assumes "note_inv q"
  shows "queue_list (fst (full_push p q)) = queue_list q @ (if has_room q then [p] else [])"
  using fq.push_room [OF assms, of p] fq.push_full [OF assms, of p] fq.items_bound [OF assms]
  by (cases "has_room q") (simp_all add: has_room_def)

lemma link_arrive_accepted:
  assumes "link_inv l" "link_arrive now p l = Some l'"
  shows "link_class now p l \<in> {0, 1}"
    "queue_list (lk_throttled l') = queue_list (lk_throttled l) @ (if link_class now p l = 0 \<and> has_room (lk_throttled l) then [p] else [])"
    "queue_list (lk_tool l') = queue_list (lk_tool l) @ (if link_class now p l = 1 \<and> has_room (lk_tool l) then [p] else [])"
proof -
  have n: "note_inv (lk_throttled l)" "note_inv (lk_tool l)" using assms(1) by (simp_all add: link_inv_def short_packets_def)
  obtain g c port where "port \<in> {0, 1}" "l' = link_output port p (l\<lparr>lk_table := g, lk_classifier := c\<rparr>)" "link_class now p l = port"
    by (rule link_arrive_output [OF assms(2)])
  then show "link_class now p l \<in> {0, 1}"
    "queue_list (lk_throttled l') = queue_list (lk_throttled l) @ (if link_class now p l = 0 \<and> has_room (lk_throttled l) then [p] else [])"
    "queue_list (lk_tool l') = queue_list (lk_tool l) @ (if link_class now p l = 1 \<and> has_room (lk_tool l) then [p] else [])"
    using full_push_room [OF n(1), of p] full_push_room [OF n(2), of p] by (auto simp: link_output_def)
qed

lemma link_run_conserves:
  assumes "link_inv l" "link_run es l = Some (l', out)" "\<forall>p \<in> set (arrivals es). int (plen p) \<le> MAX_LENGTH"
    "\<forall>t \<in> set (pull_times es). ts_ok t"
  shows "map (snd \<circ> snd) (link_fates es l) = arrivals es \<and> fst ` set (link_fates es l) \<subseteq> {0, 1}
    \<and> queue_list (lk_throttled l) @ accepted 0 (link_fates es l) = departures 0 out @ queue_list (lk_throttled l')
    \<and> queue_list (lk_tool l) @ accepted 1 (link_fates es l) = departures 1 out @ queue_list (lk_tool l')"
  using assms
proof (induction es arbitrary: l out)
  case (Cons e es)
  show ?case
  proof (cases e)
    case (Arrive now p)
    obtain l1 where 1: "link_arrive now p l = Some l1" "link_run es l1 = Some (l', out)"
      using Cons.prems(2) Arrive by (auto split: option.splits)
    have "link_inv l1" using link_arrive_inv [OF Cons.prems(1) 1(1)] Cons.prems(3) Arrive by simp
    then show ?thesis
      using Cons.IH [OF _ 1(2)] Cons.prems(3,4) link_arrive_accepted [OF Cons.prems(1) 1(1)] 1(1) Arrive by auto
  next
    case (Device_pull now)
    have ok: "ts_ok now" using Cons.prems(4) Device_pull by simp
    obtain l1 r where 1: "link_pull now l = Some (l1, r)" "link_inv l1"
      "queue_list (lk_throttled l) = (case r of Some (c, p) \<Rightarrow> (if c = 0 then [p] else []) | None \<Rightarrow> []) @ queue_list (lk_throttled l1)"
      "queue_list (lk_tool l) = (case r of Some (c, p) \<Rightarrow> (if c = 1 then [p] else []) | None \<Rightarrow> []) @ queue_list (lk_tool l1)"
      using link_pull_conserves [OF Cons.prems(1) ok] by blast
    obtain out1 where 2: "link_run es l1 = Some (l', out1)" "out = (case r of None \<Rightarrow> out1 | Some x \<Rightarrow> (now, x) # out1)"
      using Cons.prems(2) Device_pull 1(1) by auto
    have "departures 0 out = (case r of Some (c, p) \<Rightarrow> (if c = 0 then [p] else []) | None \<Rightarrow> []) @ departures 0 out1"
      "departures 1 out = (case r of Some (c, p) \<Rightarrow> (if c = 1 then [p] else []) | None \<Rightarrow> []) @ departures 1 out1"
      by (simp_all add: 2(2) split: option.split)
    then show ?thesis using Cons.IH [OF 1(2) 2(1)] Cons.prems(3,4) 1(1) Device_pull unfolding 1(3,4) by simp
  qed
qed simp

lemma link_pull_account:
  assumes "link_inv l" "0 \<le> sint (gr_tv_sec (lk_rate l))" "ts_ok now" "sint (gr_tv_sec (lk_rate l)) \<le> sint (ts_sec now)"
  obtains l' r k where "link_pull now l = Some (l', r)" "link_inv l'" "gr_rate (lk_rate l') = gr_rate (lk_rate l)"
    "gr_ugap (lk_rate l') = gr_ugap (lk_rate l)" "sint (gr_tv_sec (lk_rate l)) \<le> sint (gr_tv_sec (lk_rate l'))"
    "sint (gr_tv_sec (lk_rate l')) \<le> sint (ts_sec now)"
    "gap_count (lk_rate l') = gap_count (lk_rate l) - k * uint (gr_rate (lk_rate l)) + (case r of Some (c, p) \<Rightarrow> (if c = 0 then int (plen p) else 0) | None \<Rightarrow> 0)"
    "0 \<le> k" "k \<le> sint (gr_tv_sec (lk_rate l')) - sint (gr_tv_sec (lk_rate l))"
    "\<And>p. r = Some (0, p) \<Longrightarrow> gap_count (lk_rate l) - k * uint (gr_rate (lk_rate l)) \<le> needed (lk_rate l) now"
  using assms(1,3)
proof (cases rule: link_pull_cases)
  case (tool l' p)
  then show thesis using that [of l' "Some (1, p)" 0] assms(4) by simp
next
  case (idle l')
  then show thesis using that [of l' None 0] assms(4) by simp
next
  case (shaper l' r)
  have "short_packets (lk_throttled l)" "gap_inv (lk_rate l)" using assms(1) by (simp_all add: link_inv_def)
  from this assms(2,3) show thesis
  proof (cases rule: qs.bandwidth_pull_running)
    case (1 g' s' r' k)
    then have "r' = r" "g' = lk_rate l'" using shaper(5) by simp_all
    then show thesis
      using that [of l' "map_option (Pair 0) r" k] shaper(1,2) 1 assms(4) by (cases r) simp_all
  qed
qed

text \<open>The shaper's allowance bounds the throttled bytes, whatever arrives and however the device pulls.\<close>

lemma link_run_rate:
  assumes "link_inv l" "link_run es l = Some (l', out)" "\<forall>p \<in> set (arrivals es). int (plen p) \<le> MAX_LENGTH"
    "\<forall>t \<in> set (pull_times es). ts_ok t \<and> sint (gr_tv_sec (lk_rate l)) \<le> sint (ts_sec t)" "sorted (map (sint \<circ> ts_sec) (pull_times es))"
    "0 \<le> sint (gr_tv_sec (lk_rate l))"
  shows "\<forall>i < length out. fst (snd (out ! i)) = 0 \<longrightarrow> throttled_bytes (take i out) + gap_count (lk_rate l) \<le>
      uint (gr_rate (lk_rate l)) * (sint (ts_sec (fst (out ! i))) - sint (gr_tv_sec (lk_rate l))) + needed (lk_rate l) (fst (out ! i))"
  using assms
proof (induction es arbitrary: l out)
  case (Cons e es)
  show ?case
  proof (cases e)
    case (Arrive now p)
    obtain l1 where 1: "link_arrive now p l = Some l1" "link_run es l1 = Some (l', out)"
      using Cons.prems(2) Arrive by (auto split: option.splits)
    have "link_inv l1" "lk_rate l1 = lk_rate l" using link_arrive_inv [OF Cons.prems(1) 1(1)] Cons.prems(3) Arrive by simp_all
    then show ?thesis using Cons.IH [OF _ 1(2)] Cons.prems(3-6) Arrive by simp
  next
    case (Device_pull now)
    have ok: "ts_ok now" using Cons.prems(4) Device_pull by simp
    obtain l1 r k where 1: "link_pull now l = Some (l1, r)" "link_inv l1" "gr_rate (lk_rate l1) = gr_rate (lk_rate l)"
      "gr_ugap (lk_rate l1) = gr_ugap (lk_rate l)" "sint (gr_tv_sec (lk_rate l)) \<le> sint (gr_tv_sec (lk_rate l1))"
      "sint (gr_tv_sec (lk_rate l1)) \<le> sint (ts_sec now)"
      "gap_count (lk_rate l1) = gap_count (lk_rate l) - k * uint (gr_rate (lk_rate l)) + (case r of Some (c, p) \<Rightarrow> (if c = 0 then int (plen p) else 0) | None \<Rightarrow> 0)"
      "0 \<le> k" "k \<le> sint (gr_tv_sec (lk_rate l1)) - sint (gr_tv_sec (lk_rate l))"
      "\<And>p. r = Some (0, p) \<Longrightarrow> gap_count (lk_rate l) - k * uint (gr_rate (lk_rate l)) \<le> needed (lk_rate l) now"
      using link_pull_account [OF Cons.prems(1,6) ok] Cons.prems(4) Device_pull by (metis list.set_intros(1) pull_times.simps(3))
    obtain out1 where 2: "link_run es l1 = Some (l', out1)" "out = (case r of None \<Rightarrow> out1 | Some x \<Rightarrow> (now, x) # out1)"
      using Cons.prems(2) Device_pull 1(1) by auto
    let ?R = "uint (gr_rate (lk_rate l))" and ?T = "sint (gr_tv_sec (lk_rate l))" and ?T1 = "sint (gr_tv_sec (lk_rate l1))"
    have later: "\<forall>t \<in> set (pull_times es). ts_ok t \<and> ?T1 \<le> sint (ts_sec t)"
      using Cons.prems(4,5) 1(6) Device_pull by (auto intro: order_trans)
    have IH: "throttled_bytes (take i out1) + gap_count (lk_rate l1) \<le> ?R * (sint (ts_sec (fst (out1 ! i))) - ?T1) + needed (lk_rate l) (fst (out1 ! i))"
      if "i < length out1" "fst (snd (out1 ! i)) = 0" for i
      using Cons.IH [OF 1(2) 2(1) _ later] Cons.prems(3,5,6) 1(3-5) Device_pull that by (simp add: needed_def)
    have k: "?R * k \<le> ?R * (?T1 - ?T)" by (rule mult_left_mono) (use 1(9) in simp_all)
    have k0: "?R * k \<le> ?R * (sint (ts_sec now) - ?T)" by (rule order_trans [OF k], rule mult_left_mono) (use 1(6) in simp_all)
    show ?thesis
    proof (intro allI impI)
      fix i
      assume i: "i < length out" "fst (snd (out ! i)) = 0"
      show "throttled_bytes (take i out) + gap_count (lk_rate l) \<le> ?R * (sint (ts_sec (fst (out ! i))) - ?T) + needed (lk_rate l) (fst (out ! i))"
      proof (cases r)
        case None
        then show ?thesis using IH [of i] i 2(2) 1(7) k by (simp add: algebra_simps)
      next
        case (Some x)
        obtain c p where x: "x = (c, p)" by (cases x)
        show ?thesis
        proof (cases i)
          case 0
          then show ?thesis using i 2(2) Some x 1(10) [of p] k0 by (simp add: algebra_simps)
        next
          case (Suc j)
          then show ?thesis using IH [of j] i 2(2) 1(7) Some x k by (auto simp: algebra_simps)
        qed
      qed
    qed
  qed
qed auto

text \<open>
  From a reset the first time at which the shaper is asked fixes the origin. Until then no throttled
  packet leaves.
\<close>

lemma link_pull_first:
  assumes "need_update now (lk_rate l) = need_update now g1" "link_inv l" "ts_ok now" "queue_list (lk_tool l) = []" "nq_empty_note (lk_throttled l)"
  shows "link_pull now l = link_pull now (l\<lparr>lk_rate := g1\<rparr>)"
proof -
  obtain q where q: "full_pull (lk_tool l) = (q, None)"
    using full_pull_correct [of "lk_tool l"] assms(2,4) by (cases "full_pull (lk_tool l)") (simp add: link_inv_def short_packets_def)
  have i: "short_packets (lk_throttled l)" "gap_inv (lk_rate l)" using assms(2) by (simp_all add: link_inv_def)
  obtain g' t' rt where t: "bandwidth_pull now full_pull (lk_rate l, lk_throttled l) = Some ((g', t'), rt)"
    using shaper_pull_ok [OF i assms(3)] by blast
  then show ?thesis
    using q assms(5) bandwidth_pull_first [OF assms(1), of full_pull "lk_throttled l"] by (cases rt) (simp_all add: link_pull_def)
qed

lemma link_run_rate_fresh:
  assumes "link_inv l" "link_run es l = Some (l', out)" "\<forall>p \<in> set (arrivals es). int (plen p) \<le> MAX_LENGTH"
    "\<forall>t \<in> set (pull_times es). ts_ok t" "sorted (map (sint \<circ> ts_sec) (pull_times es))"
    "sint (gr_tv_sec (lk_rate l)) < 0" "i < length out" "fst (snd (out ! i)) = 0"
  shows "\<exists>t0 \<in> set (pull_times es). throttled_bytes (take i out) + needed (lk_rate l) t0 \<le>
      uint (gr_rate (lk_rate l)) * (sint (ts_sec (fst (out ! i))) - sint (ts_sec t0)) + needed (lk_rate l) (fst (out ! i))"
  using assms
proof (induction es arbitrary: l out i)
  case (Cons e es)
  show ?case
  proof (cases e)
    case (Arrive now p)
    obtain l1 where 1: "link_arrive now p l = Some l1" "link_run es l1 = Some (l', out)"
      using Cons.prems(2) Arrive by (auto split: option.splits)
    have "link_inv l1" "lk_rate l1 = lk_rate l" using link_arrive_inv [OF Cons.prems(1) 1(1)] Cons.prems(3) Arrive by simp_all
    then show ?thesis using Cons.IH [OF _ 1(2), of i] Cons.prems(3-8) Arrive by simp
  next
    case (Device_pull now)
    have ok: "ts_ok now" using Cons.prems(4) Device_pull by simp
    from Cons.prems(1) ok show ?thesis
    proof (cases rule: link_pull_cases)
      case (tool l1 p)
      then obtain out1 where 2: "link_run es l1 = Some (l', out1)" "out = (now, 1, p) # out1" using Cons.prems(2) Device_pull by auto
      then obtain j where "i = Suc j" using Cons.prems(8) by (cases i) auto
      then show ?thesis using Cons.IH [OF tool(2) 2(1), of j] Cons.prems(3-8) Device_pull tool(4) 2(2) by auto
    next
      case (idle l1)
      then have 2: "link_run es l1 = Some (l', out)" using Cons.prems(2) Device_pull by auto
      then show ?thesis using Cons.IH [OF idle(2) 2, of i] Cons.prems(3-8) Device_pull idle(5) by auto
    next
      case (shaper l1 r)
      have gi: "gap_inv (lk_rate l)" using Cons.prems(1) by (simp add: link_inv_def)
      obtain g1 where g1: "need_update now (lk_rate l) = need_update now g1" "gap_inv g1" "gr_rate g1 = gr_rate (lk_rate l)"
        "gr_ugap g1 = gr_ugap (lk_rate l)" "gr_tv_sec g1 = ts_sec now" "needed (lk_rate l) now \<le> gap_count g1"
        by (rule need_update_first [OF gi Cons.prems(6) ok])
      let ?l = "l\<lparr>lk_rate := g1\<rparr>"
      have "link_pull now l = link_pull now ?l" by (rule link_pull_first [OF g1(1) Cons.prems(1) ok shaper(3,9)])
      then have run: "link_run (e # es) ?l = Some (l', out)" using Cons.prems(2) Device_pull by simp
      have i: "link_inv ?l" using Cons.prems(1) g1(2) by (simp add: link_inv_def)
      have t: "\<forall>t \<in> set (pull_times (e # es)). ts_ok t \<and> sint (gr_tv_sec (lk_rate ?l)) \<le> sint (ts_sec t)" "0 \<le> sint (gr_tv_sec (lk_rate ?l))"
        using Cons.prems(4,5) Device_pull g1(5) ok by (auto simp: ts_ok_def)
      have "throttled_bytes (take i out) + gap_count g1 \<le>
          uint (gr_rate (lk_rate l)) * (sint (ts_sec (fst (out ! i))) - sint (ts_sec now)) + needed (lk_rate l) (fst (out ! i))"
        using link_run_rate [OF i run Cons.prems(3) t(1) Cons.prems(5) t(2)] Cons.prems(7,8) g1(3-5) by (simp add: needed_def)
      then show ?thesis using g1(6) Device_pull by (intro bexI [of _ now]) simp_all
    qed
  qed
qed simp

lemma usecs_sec: "ts_ok t \<Longrightarrow> sint (ts_sec t) = ts_usecs t div 1000000"
  by (simp add: ts_usecs_def ts_ok_def word_less_def div_pos_pos_trivial)

lemma link_run_times: "link_run es l = Some (l', out) \<Longrightarrow> x \<in> set out \<Longrightarrow> fst x \<in> set (pull_times es)"
  by (induction es l arbitrary: out rule: link_run.induct) (fastforce split: option.splits prod.splits)+

section \<open>The configured router\<close>

lemma new_link_inv: "link_inv (new_link now garbage)"
proof -
  have "gap_inv (fst (shaper_configure now SHAPER_RATE (new_gap_rate garbage 0)))"
    by (rule configured_rate(1)) (simp_all add: SHAPER_RATE_def)
  moreover have "short_packets (new_note_queue QUEUE_CAPACITY)"
    using new_note_queue_inv [of QUEUE_CAPACITY, where ?'p = packet] by (simp add: short_packets_def QUEUE_CAPACITY_def)
  ultimately show ?thesis by (simp add: link_inv_def new_link_def)
qed

lemma refused_by_shaper:
  assumes "note_inv q" "queue_list q \<noteq> []" "bandwidth_pull now full_pull (g, q) = Some (gq, None)"
  shows "map_option snd (need_update now g) = Some False"
  using assms full_pull_correct [OF assms(1)]
  by (cases "queue_list q") (auto simp: bandwidth_pull_def split: option.splits prod.splits if_splits)

text \<open>A packet that is neither TCP nor UDP, and its way through the configured link.\<close>

definition arp_sample :: packet where
  "arp_sample = \<lparr>pbuf = replicate 60 0, plen = 60\<rparr>"

lemma arp_sample_throttled:
  "\<exists>g c es. push 100 arp_sample Map.empty new_classifier = Some (g, c, es) \<and> delivered es = [0]"
proof -
  have f: "46 \<le> length (pbuf arp_sample)" "other_protocol arp_sample" "hello_region_ok arp_sample"
    by (simp_all add: arp_sample_def other_protocol_def tcp_packet_def udp_packet_def hello_region_ok_def looks_like_hello_def)
  have a: "source_of arp_sample = ''0.0.0.0''" "destination_of arp_sample = ''0.0.0.0''" by code_simp+
  obtain g c es where p: "push 100 arp_sample Map.empty new_classifier = Some (g, c, es)"
    using push_defined [OF f(1,3) new_classifier_ready] by blast
  then show ?thesis using push_verdict [OF f(1) p] f(2) a by (auto simp: verdict_def iperf_ip_def)
qed

lemma arp_run:
  "\<exists>l'. link_run [Arrive 100 arp_sample, Device_pull \<lparr>ts_sec = 100, ts_usec = 0\<rparr>] (new_link \<lparr>ts_sec = 99, ts_usec = 0\<rparr> 0)
     = Some (l', [(\<lparr>ts_sec = 100, ts_usec = 0\<rparr>, 0, arp_sample)])"
proof -
  let ?t = "\<lparr>ts_sec = 100, ts_usec = 0\<rparr>" and ?l = "new_link \<lparr>ts_sec = 99, ts_usec = 0\<rparr> 0"
  have q: "queue_list (new_note_queue QUEUE_CAPACITY :: packet note_queue) = []"
    using new_note_queue_inv [of QUEUE_CAPACITY, where ?'p = packet] by (simp add: QUEUE_CAPACITY_def)
  have c: "link_class 100 arp_sample ?l = 0" "\<exists>l1. link_arrive 100 arp_sample ?l = Some l1"
    using arp_sample_throttled by (auto simp: link_class_def link_arrive_def new_link_def)
  then obtain l1 where l1: "link_arrive 100 arp_sample ?l = Some l1" by blast
  have "has_room (lk_throttled ?l)" using q by (simp add: has_room_def new_link_def new_note_queue_def QUEUE_CAPACITY_def)
  then have ql: "queue_list (lk_throttled l1) = [arp_sample]" "queue_list (lk_tool l1) = []"
    using link_arrive_accepted [OF new_link_inv l1] c(1) q by (simp_all add: new_link_def)
  have i: "link_inv l1" "lk_rate l1 = lk_rate ?l" using link_arrive_inv [OF new_link_inv l1] by (simp_all add: arp_sample_def MAX_LENGTH_def)
  have n: "note_inv (lk_throttled l1)" using i(1) by (simp add: link_inv_def short_packets_def)
  have nu: "map_option snd (need_update ?t (lk_rate l1)) = Some True"
    unfolding i(2) by (simp add: new_link_def SHAPER_RATE_def shaper_configure_def set_rate_errh_def set_rate_def new_gap_rate_def gap_reset_def
        initialize_rate_def MAX_RATE_def need_update_def UGAP_SHIFT_def Let_def)
  have "ts_ok ?t" by (simp add: ts_ok_def)
  with i(1) have "\<exists>l'. link_pull ?t l1 = Some (l', Some (0, arp_sample))"
  proof (cases rule: link_pull_cases)
    case (shaper l' r)
    have "r \<noteq> None" using refused_by_shaper [OF n, of ?t "lk_rate l1"] shaper(5) nu ql(1) by (cases r) auto
    then show ?thesis using shaper(1,6) ql(1) by (cases r) auto
  qed (use ql in simp_all)
  then show ?thesis using l1 by auto
qed

section \<open>Properties\<close>

text \<open>
  C3: the link loses nothing but to a full queue, and reorders nothing within a class. Every
  packet that arrives has one of the two classes, which is the output the classifier sends it to, and is
  accepted if the queue of this class has room when it arrives, and lost otherwise. In each class the packets that left,
  followed by those still queued, are those queued at the start, followed by the accepted packets of
  the class in the order of their arrival.
\<close>

theorem link_conserves:
  assumes "link_inv l" "link_run es l = Some (l', out)" "\<forall>p \<in> set (arrivals es). int (plen p) \<le> 2 ^ 29"
    "\<forall>t \<in> set (pull_times es). ts_ok t"
  shows "map (snd \<circ> snd) (link_fates es l) = arrivals es \<and> fst ` set (link_fates es l) \<subseteq> {0, 1}
    \<and> queue_list (lk_throttled l) @ accepted 0 (link_fates es l) = departures 0 out @ queue_list (lk_throttled l')
    \<and> queue_list (lk_tool l) @ accepted 1 (link_fates es l) = departures 1 out @ queue_list (lk_tool l')"
  using link_run_conserves [OF assms(1,2) _ assms(4)] assms(3) by (simp add: MAX_LENGTH_def)

theorem link_conserves_witness:
  "let l = new_link \<lparr>ts_sec = 99, ts_usec = 0\<rparr> 0; es = [Arrive 100 udp_sample, Device_pull \<lparr>ts_sec = 100, ts_usec = 7\<rparr>]
   in \<exists>l' out. link_run es l = Some (l', out) \<and> map (snd \<circ> snd) (link_fates es l) = [udp_sample]
     \<and> accepted 0 (link_fates es l) = departures 0 out @ queue_list (lk_throttled l')
     \<and> accepted 1 (link_fates es l) = departures 1 out @ queue_list (lk_tool l')"
proof -
  let ?l = "new_link \<lparr>ts_sec = 99, ts_usec = 0\<rparr> 0" and ?t = "\<lparr>ts_sec = 100, ts_usec = 7\<rparr>"
  let ?es = "[Arrive 100 udp_sample, Device_pull ?t]"
  have t: "ts_ok ?t" by (simp add: ts_ok_def)
  have "queue_list (new_note_queue QUEUE_CAPACITY :: packet note_queue) = []"
    using new_note_queue_inv [of QUEUE_CAPACITY, where ?'p = packet] by (simp add: QUEUE_CAPACITY_def)
  then have l: "queue_list (lk_throttled ?l) = []" "queue_list (lk_tool ?l) = []" by (simp_all add: new_link_def)
  have "\<exists>l1. link_arrive 100 udp_sample ?l = Some l1"
    using udp_sample_push [of Map.empty] by (auto simp: link_arrive_def new_link_def)
  then obtain l1 where 1: "link_arrive 100 udp_sample ?l = Some l1" ..
  have "plen udp_sample = 60" by (simp add: udp_sample_def)
  then have p: "int (plen udp_sample) \<le> MAX_LENGTH" by (simp add: MAX_LENGTH_def)
  have "link_inv l1" using link_arrive_inv [OF new_link_inv 1 p] by simp
  then obtain l' r where "link_pull ?t l1 = Some (l', r)" using t by (rule link_pull_conserves)
  then have "\<exists>out. link_run ?es ?l = Some (l', out)" using 1 by simp
  then obtain out where run: "link_run ?es ?l = Some (l', out)" ..
  have "\<forall>q \<in> set (arrivals ?es). int (plen q) \<le> 2 ^ 29" "\<forall>t \<in> set (pull_times ?es). ts_ok t"
    using p t by (simp_all add: MAX_LENGTH_def)
  from link_conserves [OF new_link_inv run this] show ?thesis
    unfolding Let_def l append_Nil using run by (intro exI [of _ l'] exI [of _ out]) (simp only: arrivals.simps simp_thms)
qed

text \<open>
  C4: measurement tools go first, and the link is work conserving. A pull of the device never
  fails; it takes the oldest packet of the measurement tools when there is one; a throttled
  packet leaves only when there is none; and nothing leaves only when both queues are empty
  or the shaper is ahead of its rate.
\<close>

theorem link_tool_first:
  assumes "link_inv l" "ts_ok now"
  shows "\<exists>l' r. link_pull now l = Some (l', r)
    \<and> (queue_list (lk_tool l) \<noteq> [] \<longrightarrow> r = Some (1, hd (queue_list (lk_tool l))) \<and> queue_list (lk_tool l') = tl (queue_list (lk_tool l)))
    \<and> (\<forall>p. r = Some (0, p) \<longrightarrow> queue_list (lk_tool l) = [] \<and> queue_list (lk_throttled l) = p # queue_list (lk_throttled l'))
    \<and> (r = None \<longrightarrow> queue_list (lk_tool l) = [] \<and>
         (queue_list (lk_throttled l) = [] \<or> map_option snd (need_update now (lk_rate l)) = Some False))"
  using assms
proof (cases rule: link_pull_cases)
  case (shaper l' r)
  have n: "note_inv (lk_throttled l)" using assms(1) by (simp add: link_inv_def short_packets_def)
  then show ?thesis using shaper refused_by_shaper [OF n] by (cases r) auto
qed auto

theorem link_tool_first_witness:
  "let l = (new_link \<lparr>ts_sec = 99, ts_usec = 0\<rparr> 0)\<lparr>lk_tool := fst (full_push udp_sample (new_note_queue 4)),
     lk_throttled := fst (full_push hello_sample (new_note_queue 4))\<rparr>
   in \<exists>l'. link_pull \<lparr>ts_sec = 100, ts_usec = 7\<rparr> l = Some (l', Some (1, udp_sample)) \<and> queue_list (lk_tool l') = []"
proof -
  let ?n = "new_note_queue 4 :: packet note_queue"
  let ?l = "(new_link \<lparr>ts_sec = 99, ts_usec = 0\<rparr> 0)\<lparr>lk_tool := fst (full_push udp_sample ?n), lk_throttled := fst (full_push hello_sample ?n)\<rparr>"
  have n: "note_inv ?n" "queue_list ?n = []" using new_note_queue_inv [of 4, where ?'p = packet] by simp_all
  then have "short_packets ?n" by (simp add: short_packets_def)
  then have "link_inv ?l"
    using new_link_inv short_push [of ?n] by (simp add: link_inv_def MAX_LENGTH_def udp_sample_def hello_sample_def)
  moreover have "queue_list (lk_tool ?l) = [udp_sample]"
    using fq.push_room [OF n(1), of udp_sample] n(2) by (simp add: new_note_queue_def)
  ultimately show ?thesis
    using link_tool_first [of ?l "\<lparr>ts_sec = 100, ts_usec = 7\<rparr>"] unfolding Let_def by (auto simp: ts_ok_def)
qed

text \<open>
  C5: throttled traffic is held to 10 Mbit/s, whatever arrives, whatever the classifier decides
  and however often the device pulls. In every run of the configured link in which the clock does not
  go back, whenever a throttled packet leaves, the throttled bytes that left before it are at most
  1250000 for each second since the first pull of the device, to the microsecond, and 383 bytes more.
\<close>

theorem link_throttled_rate:
  assumes "link_run es (new_link now garbage) = Some (l', out)" "\<forall>p \<in> set (arrivals es). int (plen p) \<le> 2 ^ 29"
    "\<forall>t \<in> set (pull_times es). ts_ok t" "sorted (map ts_usecs (pull_times es))" "i < length out" "out ! i = (t, 0, p)"
  shows "1000000 * throttled_bytes (take i out) \<le> 1250000 * (ts_usecs t - ts_usecs (hd (pull_times es))) + 1000000 * 383"
proof -
  let ?g = "lk_rate (new_link now garbage)"
  have g: "gap_inv ?g" "sint (gr_tv_sec ?g) < 0" "uint (gr_rate ?g) = 1250000"
    using configured_rate [of SHAPER_RATE now garbage] by (simp_all add: new_link_def SHAPER_RATE_def)
  have "sorted (map (sint \<circ> ts_sec) (pull_times es))"
    using assms(3,4) by (auto simp: sorted_iff_nth_mono usecs_sec intro: zdiv_mono1)
  then obtain t0 where t0: "t0 \<in> set (pull_times es)" "throttled_bytes (take i out) + needed ?g t0 \<le>
      1250000 * (sint (ts_sec t) - sint (ts_sec t0)) + needed ?g t"
    using link_run_rate_fresh [OF new_link_inv assms(1) _ assms(3) _ g(2) assms(5)] assms(2,6) g(3) by (auto simp: MAX_LENGTH_def)
  have "t \<in> set (pull_times es)" using link_run_times [OF assms(1) nth_mem [OF assms(5)]] assms(6) by simp
  then have "1000000 * (1250000 * (sint (ts_sec t) - sint (ts_sec t0)) + needed ?g t - needed ?g t0)
      \<le> 1250000 * (ts_usecs t - ts_usecs t0) + 1000000 * rounding 1250000"
    using needed_rate [of ?g t t0] g assms(3) t0(1) by (simp add: gap_inv_def)
  moreover have "rounding 1250000 = 383" by (simp add: rounding_def)
  moreover have "ts_usecs (hd (pull_times es)) \<le> ts_usecs t0"
    using assms(4) t0(1) by (cases "pull_times es") auto
  ultimately show ?thesis using t0(2) by simp
qed

theorem link_throttled_rate_witness:
  "let t = \<lparr>ts_sec = 100, ts_usec = 0\<rparr>; es = [Arrive 100 arp_sample, Device_pull t]
   in \<exists>l'. link_run es (new_link \<lparr>ts_sec = 99, ts_usec = 0\<rparr> 0) = Some (l', [(t, 0, arp_sample)])
      \<and> 1000000 * throttled_bytes (take 0 [(t, 0, arp_sample)]) \<le> 383000000"
proof -
  let ?t = "\<lparr>ts_sec = 100, ts_usec = 0\<rparr>" and ?l = "new_link \<lparr>ts_sec = 99, ts_usec = 0\<rparr> 0"
  let ?es = "[Arrive 100 arp_sample, Device_pull ?t]"
  obtain l' where run: "link_run ?es ?l = Some (l', [(?t, 0, arp_sample)])" using arp_run by blast
  have "1000000 * throttled_bytes (take 0 [(?t, 0, arp_sample)]) \<le> 1250000 * (ts_usecs ?t - ts_usecs (hd (pull_times ?es))) + 1000000 * 383"
    by (rule link_throttled_rate [OF run, where p = arp_sample]) (simp_all add: ts_ok_def arp_sample_def)
  then show ?thesis using run unfolding Let_def by auto
qed

end
