(* ===== verification/Wordwise_Insn.thy ===== *)
theory Wordwise_Insn
  imports Cpp_Prelude
begin

text \<open>
  Instructions of the packet classification machine (\<open>struct Insn\<close> of
  \<open>src/click/elements/standard/classification.hh\<close> and the first part of
  \<open>classification.cc\<close>). An instruction masks four bytes of the packet and compares them with
  a value; it has two jump targets. A positive target is another instruction, a target that
  is not positive is the negated number of an output, and the smallest three integers are
  the symbolic targets of a program under construction.
\<close>

section \<open>Instructions\<close>

definition j_never :: int where "j_never = - 2147483647"

definition j_failure :: int where "j_failure = - 2147483646"

definition j_success :: int where "j_success = - 2147483645"

record insn =
  i_offset :: u16
  i_short :: bool
  i_mask :: u32
  i_value :: u32
  i_no :: int
  i_yes :: int

text \<open>The unions of \<open>struct Insn\<close>: byte \<open>i\<close> of a word, in the byte order of the host.\<close>

definition wbyte :: "u32 \<Rightarrow> nat \<Rightarrow> byte" where
  "wbyte u i = ucast (drop_bit (8 * i) u)"

definition set_wbyte :: "u32 \<Rightarrow> nat \<Rightarrow> byte \<Rightarrow> u32" where
  "set_wbyte u i b = (u AND NOT (push_bit (8 * i) 0xFF)) OR push_bit (8 * i) (ucast b)"

definition ntohl :: "u32 \<Rightarrow> nat" where
  "ntohl u = unat (wbyte u 0) * 2 ^ 24 + unat (wbyte u 1) * 2 ^ 16 + unat (wbyte u 2) * 2 ^ 8
     + unat (wbyte u 3)"

definition new_insn :: "int \<Rightarrow> u32 \<Rightarrow> u32 \<Rightarrow> int \<Rightarrow> int \<Rightarrow> bool \<Rightarrow> insn" where
  "new_insn off val msk failure success short_output =
     \<lparr>i_offset = word_of_int off, i_short = short_output, i_mask = msk,
      i_value = val AND msk, i_no = failure, i_yes = success\<rparr>"

definition jump :: "insn \<Rightarrow> bool \<Rightarrow> int" where
  "jump x k = (if k then i_yes x else i_no x)"

definition set_jump :: "bool \<Rightarrow> int \<Rightarrow> insn \<Rightarrow> insn" where
  "set_jump k dst x = (if k then x\<lparr>i_yes := dst\<rparr> else x\<lparr>i_no := dst\<rparr>)"

definition map_jumps :: "(int \<Rightarrow> int) \<Rightarrow> insn \<Rightarrow> insn" where
  "map_jumps f x = x\<lparr>i_no := f (i_no x), i_yes := f (i_yes x)\<rparr>"

definition required_length :: "insn \<Rightarrow> nat" where
  "required_length x =
     (if i_mask x = 0 then 0
      else if wbyte (i_mask x) 3 \<noteq> 0 then unat (i_offset x) + 4
      else if wbyte (i_mask x) 2 \<noteq> 0 then unat (i_offset x) + 3
      else if wbyte (i_mask x) 1 \<noteq> 0 then unat (i_offset x) + 2
      else unat (i_offset x) + 1)"

definition offset_by :: "int \<Rightarrow> insn \<Rightarrow> insn" where
  "offset_by off x = map_jumps (\<lambda>j. if 0 < j then j + off else j) x"

text \<open>\<open>memcmp\<close> on the first twelve bytes: offset, padding, short output, mask, value.\<close>

definition insn_bytes :: "insn \<Rightarrow> nat list" where
  "insn_bytes x =
     [unat (i_offset x) mod 256, unat (i_offset x) div 256, 0, of_bool (i_short x)]
     @ map (\<lambda>i. unat (wbyte (i_mask x) i)) [0..<4] @ map (\<lambda>i. unat (wbyte (i_value x) i)) [0..<4]"

section \<open>Implication between tests\<close>

definition hard_implies_short_ok :: "insn \<Rightarrow> bool \<Rightarrow> insn \<Rightarrow> bool \<Rightarrow> nat \<Rightarrow> bool" where
  "hard_implies_short_ok y direction x next_direction known_length =
     (if i_short y \<noteq> direction then True
      else let r = required_length y
           in r \<le> known_length \<or> (r \<le> required_length x \<and> next_direction = i_short x))"

definition implies_short_ok :: "insn \<Rightarrow> bool \<Rightarrow> insn \<Rightarrow> bool \<Rightarrow> nat \<Rightarrow> bool" where
  "implies_short_ok y direction x next_direction known_length =
     (if i_short y \<noteq> direction \<or> unat (i_offset y) + 4 \<le> known_length then True
      else hard_implies_short_ok y direction x next_direction known_length)"

definition single_bit :: "u32 \<Rightarrow> bool" where
  "single_bit m \<longleftrightarrow> m AND (m - 1) = 0"

definition insn_implies :: "insn \<Rightarrow> insn \<Rightarrow> nat \<Rightarrow> bool" where
  "insn_implies y x known_length =
     (if i_mask x = 0 then True
      else if i_offset x \<noteq> i_offset y \<or> \<not> implies_short_ok y True x True known_length then False
      else let both_mask = i_mask y AND i_mask x
           in both_mask = i_mask x \<and> i_value y AND both_mask = i_value x)"

definition insn_not_implies :: "insn \<Rightarrow> insn \<Rightarrow> nat \<Rightarrow> bool" where
  "insn_not_implies y x known_length =
     (if i_mask x = 0 then True
      else if i_offset x \<noteq> i_offset y \<or> \<not> implies_short_ok y False x True known_length then False
      else single_bit (i_mask y) \<and> i_mask y = i_mask x \<and> i_value y \<noteq> i_value x)"

definition insn_implies_not :: "insn \<Rightarrow> insn \<Rightarrow> nat \<Rightarrow> bool" where
  "insn_implies_not y x known_length =
     (if i_mask x = 0 \<or> i_offset x \<noteq> i_offset y \<or> \<not> implies_short_ok y True x False known_length
      then False
      else let both_mask = i_mask y AND i_mask x
           in both_mask = i_mask x \<and> i_value y AND both_mask \<noteq> i_value x)"

definition insn_not_implies_not :: "insn \<Rightarrow> insn \<Rightarrow> nat \<Rightarrow> bool" where
  "insn_not_implies_not y x known_length =
     (if i_mask y = 0 then True
      else if i_offset x \<noteq> i_offset y \<or> \<not> implies_short_ok y False x False known_length then False
      else let both_mask = i_mask y AND i_mask x
           in both_mask = i_mask y \<and> i_value y = i_value x AND both_mask)"

definition compatible :: "insn \<Rightarrow> insn \<Rightarrow> bool \<Rightarrow> bool" where
  "compatible y x consider_short =
     (if i_mask y = 0 \<or> i_mask x = 0 then True
      else if i_offset x \<noteq> i_offset y
        \<or> (consider_short \<and> i_short x \<noteq> i_short y \<and> required_length y < required_length x)
      then False
      else let both_mask = i_mask y AND i_mask x
           in i_value y AND both_mask = i_value x AND both_mask)"

definition generalizable_or_pair :: "insn \<Rightarrow> insn \<Rightarrow> bool" where
  "generalizable_or_pair y x =
     (let value_diff = i_value y XOR i_value x in
      if i_offset y \<noteq> 0 \<and> i_offset x = i_offset y \<and> i_mask y \<noteq> 0 \<and> i_mask x = i_mask y
        \<and> (i_short y \<or> \<not> i_short x) \<and> i_yes y = i_yes x \<and> single_bit value_diff
      then required_length (new_insn (uint (i_offset y)) (i_value y AND NOT value_diff)
             (i_mask y AND NOT value_diff) j_failure j_success False) = required_length y
      else False)"

definition flippable :: "insn \<Rightarrow> bool" where
  "flippable x = (if i_mask x = 0 then False else single_bit (i_mask x))"

text \<open>The assertion of \<open>flip\<close> is its precondition \<open>flippable\<close>, which its callers check.\<close>

definition flip :: "insn \<Rightarrow> insn" where
  "flip x = x\<lparr>i_value := i_value x XOR i_mask x, i_no := i_yes x, i_yes := i_no x,
      i_short := \<not> i_short x\<rparr>"

section \<open>Printing\<close>

definition hex_digit :: "nat \<Rightarrow> char" where
  "hex_digit n = (if n < 10 then digit_char n else char_of (87 + n))"

definition hex_byte :: "byte \<Rightarrow> string" where
  "hex_byte b = [hex_digit (unat b div 16), hex_digit (unat b mod 16)]"

definition pad_left :: "nat \<Rightarrow> string \<Rightarrow> string" where
  "pad_left n s = replicate (n - length s) (CHR '' '') @ s"

definition jump_accum :: "int \<Rightarrow> string" where
  "jump_accum j =
     (if j \<le> j_success then ''['' @ [''X-+'' ! nat (j - j_never)] @ '']''
      else if j \<le> 0 then ''['' @ to_string_int (- j) @ '']''
      else ''step '' @ to_string_int j)"

definition unparse_insn :: "insn \<Rightarrow> string" where
  "unparse_insn x =
     pad_left 3 (to_string_nat (unat (i_offset x))) @ ''/''
     @ concat (map (\<lambda>i. hex_byte (wbyte (i_value x) i)) [0..<4]) @ ''%''
     @ concat (map (\<lambda>i. hex_byte (wbyte (i_mask x) i)) [0..<4])
     @ ''  yes->'' @ jump_accum (i_yes x) @ ''  no->'' @ jump_accum (i_no x)
     @ (if i_short x then ''  short->yes'' else [])"

section \<open>Jumps\<close>

lemma jump_simps [simp, insn_simps]:
  "jump x True = i_yes x" "jump x False = i_no x"
  by (simp_all add: jump_def)

lemma jump_set_jump [simp, insn_simps]:
  "jump (set_jump k dst x) k' = (if k' = k then dst else jump x k')"
  by (simp add: jump_def set_jump_def)

lemma set_jump_fields [simp, insn_simps]:
  "i_offset (set_jump k dst x) = i_offset x" "i_short (set_jump k dst x) = i_short x"
  "i_mask (set_jump k dst x) = i_mask x" "i_value (set_jump k dst x) = i_value x"
  by (simp_all add: set_jump_def)

lemma jump_map_jumps [simp, insn_simps]: "jump (map_jumps f x) k = f (jump x k)"
  by (simp add: jump_def map_jumps_def)

lemma map_jumps_fields [simp, insn_simps]:
  "i_offset (map_jumps f x) = i_offset x" "i_short (map_jumps f x) = i_short x"
  "i_mask (map_jumps f x) = i_mask x" "i_value (map_jumps f x) = i_value x"
  "i_no (map_jumps f x) = f (i_no x)" "i_yes (map_jumps f x) = f (i_yes x)"
  by (simp_all add: map_jumps_def)

lemma flip_fields [simp, insn_simps]:
  "i_offset (flip x) = i_offset x" "i_mask (flip x) = i_mask x" "i_no (flip x) = i_yes x"
  "i_yes (flip x) = i_no x" "i_short (flip x) = (\<not> i_short x)"
  "i_value (flip x) = i_value x XOR i_mask x" "jump (flip x) k = jump x (\<not> k)"
  by (simp_all add: flip_def jump_def)

lemma flip_flip: "flip (flip x) = x"
  by (simp add: flip_def xor.assoc)

section \<open>Tests on a word of the packet\<close>

text \<open>The masked value an instruction compares with never has a bit outside the mask.\<close>

definition value_masked :: "insn \<Rightarrow> bool" where
  "value_masked x \<longleftrightarrow> i_value x AND i_mask x = i_value x"

definition word_test :: "(u16 \<Rightarrow> u32) \<Rightarrow> insn \<Rightarrow> bool" where
  "word_test W x \<longleftrightarrow> W (i_offset x) AND i_mask x = i_value x"

lemma new_insn_masked [simp]: "value_masked (new_insn off v m f s sh)"
  by (simp add: value_masked_def new_insn_def and.assoc)

lemma word_test_set_jump [simp, insn_simps]: "word_test W (set_jump k d x) = word_test W x"
  by (simp add: word_test_def)

lemma word_test_map_jumps [simp, insn_simps]: "word_test W (map_jumps f x) = word_test W x"
  by (simp add: word_test_def)

lemma value_masked_bit: "value_masked x \<Longrightarrow> bit (i_value x) n \<Longrightarrow> bit (i_mask x) n"
  unfolding value_masked_def by (metis bit_and_iff)

lemma word_test_zero: "i_mask x = 0 \<Longrightarrow> value_masked x \<Longrightarrow> word_test W x"
  by (simp add: word_test_def value_masked_def)

lemma word_eq_bits: "(a::u32) = b \<longleftrightarrow> (\<forall>n. bit a n \<longleftrightarrow> bit b n)"
  by (metis bit_eqI)

text \<open>A word with no bit in common with its predecessor is zero or a power of two.\<close>

lemma nat_single_bit: "(n::nat) AND (n - 1) = 0 \<Longrightarrow> n = 0 \<or> (\<exists>k. n = 2 ^ k)"
proof (induction n rule: less_induct)
  case (less n)
  show ?case
  proof (cases "n = 0")
    case False
    show ?thesis
    proof (cases "even n")
      case True
      then obtain m where m: "n = 2 * m" by blast
      with False have "m \<noteq> 0" "n - 1 = 2 * (m - 1) + 1" by auto
      with less.prems m have "(2 * m) AND (2 * (m - 1) + 1) = (0::nat)" by simp
      then have "m AND (m - 1) = 0"
        by (simp add: and_rec [of "2 * m"])
      with less.IH [of m] m \<open>m \<noteq> 0\<close> obtain k where "m = 2 ^ k" by auto
      with m have "n = 2 ^ Suc k" by simp
      then show ?thesis by blast
    next
      case odd: False
      then obtain m where m: "n = 2 * m + 1" by (blast elim: oddE)
      with less.prems have "(2 * m + 1) AND (2 * m) = (0::nat)" by simp
      then have "m = 0" by (simp add: and_rec [of "2 * m + 1"] and_rec [of "Suc (2 * m)"])
      with m have "n = 2 ^ 0" by simp
      then show ?thesis by blast
    qed
  qed simp
qed

lemma single_bit_power:
  assumes "single_bit m" "m \<noteq> 0"
  obtains k where "k < 32" "m = push_bit k 1"
proof -
  have "unat m AND (unat m - 1) = 0"
    using assms unat_minus_one [OF assms(2)] by (metis single_bit_def unat_0 unsigned_and_eq)
  moreover have "unat m \<noteq> 0" using assms(2) by (simp add: unat_eq_0)
  ultimately obtain k where k: "unat m = 2 ^ k" using nat_single_bit [of "unat m"] by auto
  have "(2::nat) ^ k < 2 ^ 32" using unsigned_less [of m, where ?'a = nat] k by simp
  then have "k < 32" by (rule power_less_imp_less_exp [rotated]) simp
  moreover have "m = push_bit k 1"
  proof -
    have "m = word_of_nat (unat m)" by simp
    then have "m = word_of_nat (2 ^ k)" by (simp only: k)
    then show ?thesis by (simp add: push_bit_eq_mult)
  qed
  ultimately show ?thesis using that by blast
qed

lemma single_bit_bits:
  assumes "single_bit m" "m \<noteq> 0"
  obtains k where "k < 32" "\<And>n. bit m n \<longleftrightarrow> n = k"
proof -
  from assms obtain k where k: "k < 32" "m = push_bit k 1" by (rule single_bit_power)
  then have "bit m n \<longleftrightarrow> n = k" for n
    by (auto simp: bit_exp_iff)
  with k(1) show ?thesis by (rule that)
qed

lemma submask_single_bit:
  assumes "single_bit m" "v AND m = v"
  shows "v = 0 \<or> v = m"
proof (cases "m = 0")
  case False
  with assms(1) obtain k where k: "k < 32" "\<And>n. bit m n \<longleftrightarrow> n = k" by (rule single_bit_bits) blast
  have v: "bit v n \<Longrightarrow> n = k" for n
    using arg_cong [OF assms(2), of "\<lambda>x. bit x n"] k(2) [of n] by (simp add: bit_and_iff)
  show ?thesis
  proof (cases "bit v k")
    case True
    have "bit v n = bit m n" for n using v [of n] True k(2) [of n] by auto
    then have "v = m" by (simp add: word_eq_bits)
    then show ?thesis by simp
  next
    case False
    have "bit v n = bit (0 :: u32) n" for n using v [of n] False by auto
    then have "v = 0" by (simp add: word_eq_bits)
    then show ?thesis by simp
  qed
qed (use assms in simp)

text \<open>Flipping a single-bit test negates it.\<close>

lemma word_test_flip:
  assumes "flippable x" "value_masked x"
  shows "word_test W (flip x) = (\<not> word_test W x)"
proof -
  have sb: "single_bit (i_mask x)" "i_mask x \<noteq> 0" using assms(1) by (auto simp: flippable_def split: if_splits)
  let ?m = "i_mask x" and ?w = "W (i_offset x)"
  have v: "i_value x = 0 \<or> i_value x = ?m"
    using submask_single_bit [OF sb(1)] assms(2) by (simp add: value_masked_def)
  have w: "?w AND ?m = 0 \<or> ?w AND ?m = ?m"
    using submask_single_bit [OF sb(1), of "?w AND ?m"] by (simp add: and.assoc)
  from v w sb(2) show ?thesis by (auto simp: word_test_def)
qed

lemma value_masked_flip: "value_masked x \<Longrightarrow> value_masked (flip x)"
  unfolding value_masked_def by (simp add: bit_eq_iff bit_simps) blast

text \<open>
  The implication tests are sound for packets that hold every byte a test needs, whatever
  length they believe to be known.
\<close>

lemma insn_implies_sound:
  assumes "insn_implies y x kl" "word_test W y" "value_masked x"
  shows "word_test W x"
proof (cases "i_mask x = 0")
  case False
  with assms(1) have o: "i_offset x = i_offset y" and m: "i_mask y AND i_mask x = i_mask x"
    and v: "i_value y AND i_mask x = i_value x"
    by (auto simp: insn_implies_def Let_def split: if_splits)
  have "W (i_offset x) AND i_mask x = (W (i_offset y) AND i_mask y) AND i_mask x"
    using o m by (simp add: and.assoc)
  also have "\<dots> = i_value x" using assms(2) v by (simp add: word_test_def)
  finally show ?thesis by (simp add: word_test_def)
qed (use assms(3) word_test_zero in blast)

lemma insn_implies_not_sound:
  assumes "insn_implies_not y x kl" "word_test W y"
  shows "\<not> word_test W x"
proof -
  from assms(1) have o: "i_offset x = i_offset y" and m: "i_mask y AND i_mask x = i_mask x"
    and v: "i_value y AND i_mask x \<noteq> i_value x"
    by (auto simp: insn_implies_not_def Let_def split: if_splits)
  have "W (i_offset x) AND i_mask x = (W (i_offset y) AND i_mask y) AND i_mask x"
    using o m by (simp add: and.assoc)
  with assms(2) v show ?thesis by (simp add: word_test_def)
qed

lemma insn_not_implies_sound:
  assumes "insn_not_implies y x kl" "\<not> word_test W y" "value_masked x" "value_masked y"
  shows "word_test W x"
proof (cases "i_mask x = 0")
  case False
  with assms(1) have o: "i_offset x = i_offset y" and m: "i_mask y = i_mask x"
    and sb: "single_bit (i_mask x)" and v: "i_value y \<noteq> i_value x"
    by (auto simp: insn_not_implies_def split: if_splits)
  have "i_value y = 0 \<or> i_value y = i_mask x" "i_value x = 0 \<or> i_value x = i_mask x"
    "W (i_offset x) AND i_mask x = 0 \<or> W (i_offset x) AND i_mask x = i_mask x"
    using submask_single_bit [OF sb] assms(3,4) m by (auto simp: value_masked_def and.assoc)
  with assms(2) o m v show ?thesis by (auto simp: word_test_def)
qed (use assms(3) word_test_zero in blast)

lemma insn_not_implies_not_sound:
  assumes "insn_not_implies_not y x kl" "\<not> word_test W y" "value_masked y"
  shows "\<not> word_test W x"
proof (cases "i_mask y = 0")
  case True
  with assms(2,3) word_test_zero show ?thesis by blast
next
  case False
  with assms(1) have o: "i_offset x = i_offset y" and m: "i_mask y AND i_mask x = i_mask y"
    and v: "i_value y = i_value x AND i_mask y"
    by (auto simp: insn_not_implies_not_def Let_def split: if_splits)
  have m': "i_mask x AND i_mask y = i_mask y" using m by (simp add: and.commute)
  show ?thesis
  proof
    assume "word_test W x"
    then have "(W (i_offset y) AND i_mask x) AND i_mask y = i_value y"
      using o v by (simp add: word_test_def)
    then have "word_test W y" using m' by (simp add: word_test_def and.assoc)
    with assms(2) show False ..
  qed
qed

text \<open>Two compatible tests at one offset are one test for the union of their bits.\<close>

lemma and_or_merge:
  fixes w m1 m2 v1 v2 :: u32
  assumes "v1 AND m1 = v1" "v2 AND m2 = v2" "v2 AND (m2 AND m1) = v1 AND (m2 AND m1)"
  shows "w AND (m1 OR m2) = v1 OR v2 \<longleftrightarrow> w AND m1 = v1 \<and> w AND m2 = v2"
  using assms by (simp add: bit_eq_iff bit_simps) blast

text \<open>Two tests whose values differ in one bit are, as a disjunction, one test without that bit.\<close>

lemma and_or_generalize:
  fixes w m v1 v2 :: u32
  assumes "v1 AND m = v1" "v2 AND m = v2" "single_bit (v1 XOR v2)"
  shows "w AND (m AND NOT (v1 XOR v2)) = v1 AND NOT (v1 XOR v2) \<longleftrightarrow> w AND m = v1 \<or> w AND m = v2"
proof (cases "v1 XOR v2 = 0")
  case True
  then have "v1 = v2" by (metis xor.assoc xor.right_neutral xor_self_eq)
  then show ?thesis by simp
next
  case False
  with assms(3) obtain k where k: "k < 32" "\<And>n. bit (v1 XOR v2) n \<longleftrightarrow> n = k"
    by (rule single_bit_bits) blast
  have d: "bit v1 n \<noteq> bit v2 n \<longleftrightarrow> n = k" for n using k(2) [of n] by (simp add: bit_xor_iff)
  have s: "bit v1 n \<Longrightarrow> bit m n" "bit v2 n \<Longrightarrow> bit m n" for n
    using assms(1,2) by (metis bit_and_iff)+
  have mk: "bit m k" using d [of k] s by blast
  have L: "w AND (m AND NOT (v1 XOR v2)) = v1 AND NOT (v1 XOR v2) \<longleftrightarrow>
      (\<forall>n. n \<noteq> k \<longrightarrow> (bit w n \<and> bit m n \<longleftrightarrow> bit v1 n))"
    unfolding word_eq_bits bit_and_iff bit_not_iff k(2)
    using bit_imp_possible_bit by blast
  have R: "w AND m = u \<longleftrightarrow> (\<forall>n. bit w n \<and> bit m n \<longleftrightarrow> bit u n)" for u :: u32
    unfolding word_eq_bits bit_and_iff ..
  show ?thesis
  proof (cases "bit w k = bit v1 k")
    case True
    then show ?thesis unfolding L R using d mk by metis
  next
    case False
    then show ?thesis unfolding L R using d mk by metis
  qed
qed

end
