(* ===== verification/Wordwise_Exec.thy ===== *)
theory Wordwise_Exec
  imports Wordwise_Insn
begin

text \<open>
  Execution of classifier programs: \<open>Program::match\<close> (\<open>classification.hh\<close>) and
  \<open>Program::length_checked_match\<close> (\<open>classification.cc\<close>), and the facts about execution that
  the correctness proofs of the optimiser share. \<open>None\<close> stands for a run that has no
  defined result: it leaves the instruction array or never stops.
\<close>

section \<open>Programs and their execution\<close>

record program =
  p_insn :: "insn list"
  p_output_everything :: int
  p_safe_length :: u32
  p_align_offset :: u32

definition new_program :: "u32 \<Rightarrow> program" where
  "new_program align_offset = \<lparr>p_insn = [], p_output_everything = - j_never,
     p_safe_length = - 1, p_align_offset = align_offset\<rparr>"

text \<open>The loop of the matchers, for the outcome \<open>t\<close> of each test; the result is the last jump.\<close>

partial_function (option) exec :: "(insn \<Rightarrow> bool) \<Rightarrow> insn list \<Rightarrow> nat \<Rightarrow> int option" where
  "exec t P pos =
     (if pos < length P
      then let j = jump (P ! pos) (t (P ! pos)) in if 0 < j then exec t P (nat j) else Some j
      else None)"

text \<open>
  The packet as the matchers see it: the bytes around \<open>data()\<close>, which they may read on both
  sides of the packet before masking, and the packet's length.
\<close>

record packet_view =
  v_mem :: "int \<Rightarrow> byte"
  v_length :: nat

definition word_at :: "packet_view \<Rightarrow> int \<Rightarrow> u32" where
  "word_at v a = set_wbyte (set_wbyte (set_wbyte (set_wbyte 0 0 (v_mem v a)) 1 (v_mem v (a + 1)))
     2 (v_mem v (a + 2))) 3 (v_mem v (a + 3))"

definition packet_word :: "packet_view \<Rightarrow> nat \<Rightarrow> u16 \<Rightarrow> u32" where
  "packet_word v align off = word_at v (uint off - int align)"

definition fast_test :: "packet_view \<Rightarrow> nat \<Rightarrow> insn \<Rightarrow> bool" where
  "fast_test v align x = (packet_word v align (i_offset x) AND i_mask x = i_value x)"

definition checked_test :: "packet_view \<Rightarrow> nat \<Rightarrow> insn \<Rightarrow> bool" where
  "checked_test v align x =
     (let packet_length = v_length v + align; off = unat (i_offset x) in
      if off + 4 \<le> packet_length then fast_test v align x
      else if off < packet_length
        \<and> \<not> (wbyte (i_mask x) 3 \<noteq> 0
             \<or> (wbyte (i_mask x) 2 \<noteq> 0 \<and> packet_length - off \<le> 2)
             \<or> (wbyte (i_mask x) 1 \<noteq> 0 \<and> packet_length - off = 1))
      then fast_test v align x
      else i_short x)"

definition length_checked_match :: "program \<Rightarrow> packet_view \<Rightarrow> int option" where
  "length_checked_match p v =
     map_option uminus (exec (checked_test v (unat (p_align_offset p))) (p_insn p) 0)"

definition match_packet :: "program \<Rightarrow> packet_view \<Rightarrow> int option" where
  "match_packet p v =
     (if 0 \<le> p_output_everything p then Some (p_output_everything p)
      else if v_length v < unat (p_safe_length p) then length_checked_match p v
      else map_option uminus (exec (fast_test v (unat (p_align_offset p))) (p_insn p) 0))"

section \<open>Forward programs\<close>

text \<open>
  The programs the compiler builds are acyclic: every jump leads to a later instruction
  inside the program or to an output.
\<close>

definition jump_ok :: "nat \<Rightarrow> nat \<Rightarrow> int \<Rightarrow> bool" where
  "jump_ok n i j \<longleftrightarrow> j \<le> 0 \<or> (int i < j \<and> j < int n)"

definition insn_ok :: "nat \<Rightarrow> nat \<Rightarrow> insn \<Rightarrow> bool" where
  "insn_ok n i x \<longleftrightarrow> jump_ok n i (i_no x) \<and> jump_ok n i (i_yes x)"

definition forward :: "insn list \<Rightarrow> bool" where
  "forward P \<longleftrightarrow> (\<forall>i < length P. insn_ok (length P) i (P ! i))"

definition all_masked :: "insn list \<Rightarrow> bool" where
  "all_masked P \<longleftrightarrow> (\<forall>x \<in> set P. value_masked x)"

definition dest :: "(insn \<Rightarrow> bool) \<Rightarrow> insn list \<Rightarrow> int \<Rightarrow> int option" where
  "dest t P j = (if 0 < j then exec t P (nat j) else Some j)"

lemma insn_ok_jump: "insn_ok n i x \<Longrightarrow> jump_ok n i (jump x k)"
  by (simp add: insn_ok_def jump_def)

lemma insn_okI: "(\<And>k. jump_ok n i (jump x k)) \<Longrightarrow> insn_ok n i x"
  unfolding insn_ok_def by (metis jump_simps)

lemma forward_insn_ok: "forward P \<Longrightarrow> i < length P \<Longrightarrow> insn_ok (length P) i (P ! i)"
  by (simp add: forward_def)

lemma forward_jump [prog_intros]:
  "forward P \<Longrightarrow> i < length P \<Longrightarrow> 0 < jump (P ! i) k \<Longrightarrow>
     i < nat (jump (P ! i) k) \<and> nat (jump (P ! i) k) < length P"
  using insn_ok_jump [OF forward_insn_ok, of P i k] by (auto simp: jump_ok_def)

lemma jump_ok_trans:
  "jump_ok n i j \<Longrightarrow> 0 < j \<Longrightarrow> jump_ok n (nat j) j' \<Longrightarrow> jump_ok n i j'"
  by (auto simp: jump_ok_def)

lemma jump_ok_mono: "jump_ok n i j \<Longrightarrow> i' \<le> i \<Longrightarrow> jump_ok n i' j"
  by (auto simp: jump_ok_def)

lemma forward_update:
  "forward P \<Longrightarrow> insn_ok (length P) i x \<Longrightarrow> forward (P[i := x])"
  by (cases "i < length P") (auto simp: forward_def nth_list_update)

lemma all_masked_update: "all_masked P \<Longrightarrow> value_masked x \<Longrightarrow> all_masked (P[i := x])"
  using set_update_subset_insert [of P i x] by (auto simp: all_masked_def)

lemma all_masked_nth: "all_masked P \<Longrightarrow> i < length P \<Longrightarrow> value_masked (P ! i)"
  by (simp add: all_masked_def)

lemma exec_step:
  "pos < length P \<Longrightarrow> exec t P pos = dest t P (jump (P ! pos) (t (P ! pos)))"
  by (subst exec.simps) (simp add: dest_def Let_def)

lemma exec_outside: "length P \<le> pos \<Longrightarrow> exec t P pos = None"
  by (subst exec.simps) simp

lemma dest_final [simp]: "j \<le> 0 \<Longrightarrow> dest t P j = Some j"
  by (simp add: dest_def)

text \<open>Induction over the positions of a forward program, from its end.\<close>

lemma forward_induct [consumes 2, case_names step]:
  assumes "forward P" "i < length P"
    and "\<And>i. i < length P \<Longrightarrow>
      (\<And>k. 0 < jump (P ! i) k \<Longrightarrow> nat (jump (P ! i) k) < length P \<Longrightarrow> i < nat (jump (P ! i) k)
         \<Longrightarrow> Q (nat (jump (P ! i) k))) \<Longrightarrow> Q i"
  shows "Q i"
  using assms(2)
proof (induction "length P - i" arbitrary: i rule: less_induct)
  case less
  show ?case
  proof (rule assms(3) [OF less.prems])
    fix k
    assume "0 < jump (P ! i) k" "nat (jump (P ! i) k) < length P" "i < nat (jump (P ! i) k)"
    then show "Q (nat (jump (P ! i) k))" using less.hyps less.prems by simp
  qed
qed

lemma exec_defined:
  assumes "forward P" "pos < length P"
  shows "\<exists>r \<le> 0. exec t P pos = Some r"
  using assms
proof (induction rule: forward_induct)
  case (step i)
  let ?j = "jump (P ! i) (t (P ! i))"
  show ?case
  proof (cases "0 < ?j")
    case True
    with forward_jump [OF assms(1) step.hyps True] step.IH [of "t (P ! i)"] step.hyps
    show ?thesis by (simp add: exec_step dest_def)
  next
    case False
    with step.hyps show ?thesis by (simp add: exec_step)
  qed
qed

text \<open>Two programs that agree from a position on behave alike there.\<close>

lemma exec_agree_above:
  assumes "forward P" "length Q = length P" "s \<le> pos" "pos < length P"
    and "\<And>i. s \<le> i \<Longrightarrow> i < length P \<Longrightarrow> Q ! i = P ! i"
  shows "exec t Q pos = exec t P pos"
  using assms(1,4,3)
proof (induction rule: forward_induct)
  case (step i)
  have "Q ! i = P ! i" using assms(5) step.hyps step.prems by simp
  then show ?case
    using step assms(2) forward_jump [OF assms(1) step.hyps, of "t (P ! i)"]
    by (auto simp: exec_step dest_def)
qed

text \<open>
  Local replacement: an instruction may be replaced by one whose outcome leads to the same
  result. The optimisations that rewrite single instructions are instances of this lemma.
\<close>

lemma exec_replace:
  assumes "forward P" "insn_ok (length P) i x"
    and "dest t P (jump x (t x)) = dest t P (jump (P ! i) (t (P ! i)))"
    and "pos < length P"
  shows "exec t (P[i := x]) pos = exec t P pos"
proof -
  have fw: "forward (P[i := x])" by (rule forward_update [OF assms(1,2)])
  have "pos < length (P[i := x])" using assms(4) by simp
  with fw show ?thesis
  proof (induction rule: forward_induct)
    case (step q)
    let ?y = "P[i := x] ! q"
    have d: "dest t (P[i := x]) (jump ?y k) = dest t P (jump ?y k)" for k
      using step.IH [of k] forward_jump [OF fw step.hyps, of k] by (auto simp: dest_def)
    have "exec t (P[i := x]) q = dest t P (jump ?y (t ?y))"
      using step.hyps d by (simp add: exec_step)
    also have "\<dots> = exec t P q"
      using step.hyps assms(3) by (cases "q = i") (simp_all add: exec_step)
    finally show ?case .
  qed
qed

lemma dest_replace:
  assumes "forward P" "insn_ok (length P) i x"
    and "dest t P (jump x (t x)) = dest t P (jump (P ! i) (t (P ! i)))"
    and "j < int (length P)"
  shows "dest t (P[i := x]) j = dest t P j"
  using exec_replace [OF assms(1-3)] assms(4) by (auto simp: dest_def)

text \<open>Execution depends on the outcome of the tests only.\<close>

lemma exec_cong_test:
  assumes "forward P" "pos < length P" "\<And>x. x \<in> set P \<Longrightarrow> t x = t' x"
  shows "exec t P pos = exec t' P pos"
  using assms(1,2)
proof (induction rule: forward_induct)
  case (step i)
  have "t (P ! i) = t' (P ! i)" using assms(3) step.hyps by simp
  then show ?case
    using step forward_jump [OF assms(1) step.hyps, of "t (P ! i)"] by (auto simp: exec_step dest_def)
qed

section \<open>The two matchers agree\<close>

text \<open>A packet holds every byte that the test needs.\<close>

definition holds :: "packet_view \<Rightarrow> nat \<Rightarrow> insn \<Rightarrow> bool" where
  "holds v align x \<longleftrightarrow> required_length x \<le> v_length v + align"

lemma checked_test_holds:
  assumes "holds v align x" "i_mask x \<noteq> 0"
  shows "checked_test v align x = fast_test v align x"
  using assms by (auto simp: checked_test_def holds_def required_length_def Let_def split: if_splits)

lemma checked_test_short:
  assumes "\<not> holds v align x"
  shows "checked_test v align x = i_short x"
  using assms
  by (auto simp: checked_test_def holds_def required_length_def Let_def split: if_splits)

lemma fast_test_word: "fast_test v align = word_test (packet_word v align)"
  by (simp add: fun_eq_iff fast_test_def word_test_def)

end
