(* ===== verification/Wordwise_Program.thy ===== *)
theory Wordwise_Program
  imports Wordwise_Exec
begin

text \<open>
  Building classifier programs (\<open>Program::init_subtree\<close> to \<open>Program::negate_subtree\<close>,
  \<open>Program::set_failure\<close> and \<open>Program::add_or_program\<close> of \<open>classification.cc\<close>). A program
  under construction is a sequence of subtrees whose exits are the symbolic jumps
  \<open>j_success\<close> and \<open>j_failure\<close>; finishing a level links the exits of its subtrees. The tree
  vector holds the current level at index 0, and at index \<open>i + 1\<close> the level of the subtree
  that instruction \<open>i\<close> starts, or a negative number. It has one element more than the
  program has instructions, which every operation here keeps (\<open>tree_for\<close>).
\<close>

section \<open>Operations\<close>

datatype combiner = C_and | C_or | C_ternary

definition init_subtree :: "program \<Rightarrow> int list" where
  "init_subtree p = (replicate (length (p_insn p) + 1) (- 1))[0 := 0]"

definition start_subtree :: "int list \<Rightarrow> int list" where
  "start_subtree tree = tree[0 := tree ! 0 + 1]"

definition add_insn ::
  "int list \<Rightarrow> int \<Rightarrow> u32 \<Rightarrow> u32 \<Rightarrow> program \<Rightarrow> program \<times> int list" where
  "add_insn tree off val msk p =
     (p\<lparr>p_insn := p_insn p @ [new_insn off val msk j_failure j_success False],
        p_output_everything := - 1\<rparr>,
      tree @ [tree ! 0])"

definition redirect :: "int \<Rightarrow> int \<Rightarrow> int \<Rightarrow> int" where
  "redirect success failure j =
     (if j = j_success then success else if j = j_failure then failure else j)"

text \<open>Apply a function to the instructions \<open>first \<le> i < past\<close>.\<close>

definition map_range :: "(insn \<Rightarrow> insn) \<Rightarrow> nat \<Rightarrow> nat \<Rightarrow> insn list \<Rightarrow> insn list" where
  "map_range f first past P =
     map (\<lambda>i. if first \<le> i \<and> i < past then f (P ! i) else P ! i) [0..<length P]"

definition redirect_subtree ::
  "nat \<Rightarrow> nat \<Rightarrow> int \<Rightarrow> int \<Rightarrow> insn list \<Rightarrow> insn list" where
  "redirect_subtree first past success failure P =
     map_range (map_jumps (redirect success failure)) first past P"

text \<open>The scan backward to the parent subtree and the collection of the child subtrees.\<close>

fun parent_ptr :: "int list \<Rightarrow> int \<Rightarrow> nat \<Rightarrow> nat" where
  "parent_ptr tree level 0 = 0"
| "parent_ptr tree level (Suc ptr) =
     (if tree ! Suc ptr < 0 \<or> level \<le> tree ! Suc ptr then parent_ptr tree level ptr else Suc ptr)"

definition child_subtrees :: "int list \<Rightarrow> int \<Rightarrow> nat \<Rightarrow> nat list" where
  "child_subtrees tree level n =
     map (\<lambda>ptr. ptr - 1)
       (filter (\<lambda>ptr. tree ! ptr = level) [parent_ptr tree level n + 1..<n + 1])"

fun combine_subtrees ::
  "combiner \<Rightarrow> int \<Rightarrow> int \<Rightarrow> nat list \<Rightarrow> insn list \<Rightarrow> insn list" where
  "combine_subtrees c success failure [] P = P"
| "combine_subtrees c success failure [first] P =
     redirect_subtree first (length P) success failure P"
| "combine_subtrees C_and success failure (first # next # subtrees) P =
     combine_subtrees C_and success failure (next # subtrees)
       (redirect_subtree first next (int next) failure P)"
| "combine_subtrees C_or success failure (first # next # subtrees) P =
     combine_subtrees C_or success failure (next # subtrees)
       (redirect_subtree first next success (int next) P)"
| "combine_subtrees C_ternary success failure (first # next # next2 # subtrees) P =
     combine_subtrees C_ternary success failure (next2 # subtrees)
       (redirect_subtree next next2 success failure
         (redirect_subtree first next (int next) (int next2) P))"
| "combine_subtrees C_ternary success failure [first, next] P =
     combine_subtrees C_ternary success failure [next]
       (redirect_subtree first next (int next) failure P)"

definition mark_subtree :: "nat \<Rightarrow> int \<Rightarrow> int list \<Rightarrow> int list" where
  "mark_subtree first level tree =
     take (first + 1) tree @ [level] @ replicate (length tree - (first + 2)) (- 1)"

definition finish_subtree ::
  "int list \<Rightarrow> combiner \<Rightarrow> int \<Rightarrow> int \<Rightarrow> program \<Rightarrow> program \<times> int list" where
  "finish_subtree tree c success failure p =
     (let level = tree ! 0;
          subtrees = child_subtrees tree level (length (p_insn p));
          tree' = (if subtrees = [] then tree else mark_subtree (hd subtrees) (level - 1) tree)
      in (p\<lparr>p_insn := combine_subtrees c success failure subtrees (p_insn p)\<rparr>,
          tree'[0 := tree' ! 0 - 1]))"

text \<open>The scan for the start of the last subtree; \<open>None\<close> when no subtree of the level exists.\<close>

fun last_subtree :: "int list \<Rightarrow> int \<Rightarrow> nat \<Rightarrow> nat option" where
  "last_subtree tree level 0 = None"
| "last_subtree tree level (Suc n) =
     (if tree ! Suc n = level then Some n else last_subtree tree level n)"

definition negate_jump :: "int \<Rightarrow> int" where
  "negate_jump j = (if j = j_failure then j_success else if j = j_success then j_failure else j)"

definition negate_insn :: "bool \<Rightarrow> insn \<Rightarrow> insn" where
  "negate_insn flip_short x =
     (let y = map_jumps negate_jump x in if flip_short then y\<lparr>i_short := \<not> i_short y\<rparr> else y)"

definition negate_subtree :: "int list \<Rightarrow> bool \<Rightarrow> program \<Rightarrow> program" where
  "negate_subtree tree flip_short p =
     (case last_subtree tree (tree ! 0) (length (p_insn p)) of
        None \<Rightarrow> p
      | Some first \<Rightarrow>
          p\<lparr>p_insn := map_range (negate_insn flip_short) first (length (p_insn p)) (p_insn p)\<rparr>)"

text \<open>The assertion \<open>failure \<le> 0\<close> of \<open>set_failure\<close> is the \<open>None\<close> branch.\<close>

definition set_failure :: "int \<Rightarrow> program \<Rightarrow> program option" where
  "set_failure failure p =
     (if p_output_everything p = - j_failure \<and> 0 < failure then None
      else Some (p\<lparr>p_output_everything :=
            (if p_output_everything p = - j_failure then - failure else p_output_everything p),
          p_insn := map (map_jumps (\<lambda>j. if j = j_failure then failure else j)) (p_insn p)\<rparr>))"

definition add_or_program :: "program \<Rightarrow> program \<Rightarrow> program option" where
  "add_or_program next_program p =
     (if p_output_everything p < 0 \<or> p_output_everything p = - j_failure then
        let f = - p_output_everything next_program;
            failure = (if 0 < f then int (length (p_insn p)) else f)
        in map_option (\<lambda>p'. p'\<lparr>p_insn := p_insn p'
               @ map (offset_by (int (length (p_insn p')))) (p_insn next_program)\<rparr>)
             (set_failure failure p)
      else Some p)"

text \<open>The warnings of \<open>warn_unused_outputs\<close>: the outputs it complains about, in order.\<close>

definition warn_unused_outputs :: "nat \<Rightarrow> program \<Rightarrow> nat list" where
  "warn_unused_outputs noutputs p =
     filter (\<lambda>i. \<not> (if 0 \<le> p_output_everything p \<and> p_output_everything p < int noutputs
                     then int i = p_output_everything p
                     else \<exists>x \<in> set (p_insn p). i_no x = - int i \<or> i_yes x = - int i))
       [0..<noutputs]"

definition unparse :: "program \<Rightarrow> string" where
  "unparse p =
     concat (map (\<lambda>i. (if i < 10 then '' '' else []) @ to_string_nat i @ '' ''
         @ unparse_insn ((p_insn p ! i)\<lparr>i_offset := i_offset (p_insn p ! i)
                             - ucast (p_align_offset p)\<rparr>) @ [char_of (10 :: nat)])
       [0..<length (p_insn p)])
     @ (if p_insn p = [] then ''all->['' @ to_string_int (p_output_everything p) @ '']''
          @ [char_of (10 :: nat)] else [])
     @ ''safe length '' @ to_string_nat (unat (p_safe_length p)) @ [char_of (10 :: nat)]
     @ ''alignment offset '' @ to_string_nat (unat (p_align_offset p)) @ [char_of (10 :: nat)]"

section \<open>Linking subtrees\<close>

text \<open>The instructions \<open>a \<le> i < b\<close> jump forward among themselves or leave by an exit.\<close>

definition closed :: "insn list \<Rightarrow> nat \<Rightarrow> nat \<Rightarrow> bool" where
  "closed P a b \<longleftrightarrow> b \<le> length P \<and> (\<forall>i. a \<le> i \<longrightarrow> i < b \<longrightarrow> insn_ok b i (P ! i))"

lemma length_map_range [simp]: "length (map_range f a b P) = length P"
  by (simp add: map_range_def)

lemma nth_map_range [simp]:
  "i < length P \<Longrightarrow> map_range f a b P ! i = (if a \<le> i \<and> i < b then f (P ! i) else P ! i)"
  by (simp add: map_range_def)

lemma length_redirect_subtree [simp]: "length (redirect_subtree a b s f P) = length P"
  by (simp add: redirect_subtree_def)

lemma nth_redirect_subtree [simp]:
  "i < length P \<Longrightarrow> redirect_subtree a b s f P ! i =
     (if a \<le> i \<and> i < b then map_jumps (redirect s f) (P ! i) else P ! i)"
  by (simp add: redirect_subtree_def)

lemma closed_jump:
  assumes "closed P a b" "a \<le> i" "i < b"
  shows "jump (P ! i) k \<le> 0 \<or> (i < nat (jump (P ! i) k) \<and> nat (jump (P ! i) k) < b)"
  using assms insn_ok_jump [of b i "P ! i" k] by (auto simp: closed_def jump_ok_def)

lemma closed_induct [consumes 3, case_names step]:
  assumes "closed P a b" "a \<le> i" "i < b"
    and "\<And>i. a \<le> i \<Longrightarrow> i < b \<Longrightarrow>
      (\<And>k. 0 < jump (P ! i) k \<Longrightarrow> i < nat (jump (P ! i) k) \<Longrightarrow> nat (jump (P ! i) k) < b
         \<Longrightarrow> Q (nat (jump (P ! i) k))) \<Longrightarrow> Q i"
  shows "Q i"
  using assms(2,3)
proof (induction "b - i" arbitrary: i rule: less_induct)
  case less
  show ?case
    by (rule assms(4) [OF less.prems]) (use less in simp)
qed

lemma closed_exec_defined:
  assumes "closed P a b" "a \<le> i" "i < b"
  shows "\<exists>r \<le> 0. exec t P i = Some r"
  using assms
proof (induction rule: closed_induct)
  case (step i)
  have "i < length P" using step assms(1) by (auto simp: closed_def)
  then show ?case
    using step.IH [of "t (P ! i)"] closed_jump [OF assms(1) step.hyps, of "t (P ! i)"]
    by (cases "0 < jump (P ! i) (t (P ! i))") (auto simp: exec_step dest_def)
qed

text \<open>
  The behaviour of linked code: where the exits of a closed segment are renamed, running it
  is running the original segment and going on at the renamed exit.
\<close>

lemma exec_link:
  assumes "closed P a b" "a \<le> i" "i < b" "b \<le> length Q"
    and "\<And>q. a \<le> q \<Longrightarrow> q < b \<Longrightarrow> t (Q ! q) = t (P ! q)
           \<and> (\<forall>k. jump (Q ! q) k = (if 0 < jump (P ! q) k then jump (P ! q) k else g (jump (P ! q) k)))"
  shows "exec t Q i = Option.bind (exec t P i) (\<lambda>r. dest t Q (g r))"
  using assms(1-3)
proof (induction rule: closed_induct)
  case (step i)
  have l: "i < length P" "i < length Q" using step assms(1,4) by (auto simp: closed_def)
  note q = assms(5) [OF step.hyps]
  show ?case
  proof (cases "0 < jump (P ! i) (t (P ! i))")
    case True
    with closed_jump [OF assms(1) step.hyps, of "t (P ! i)"] step.IH [of "t (P ! i)"] q l
    show ?thesis by (simp add: exec_step dest_def)
  next
    case False
    with q l show ?thesis by (simp add: exec_step)
  qed
qed

text \<open>A closed segment behaves the same in every program that contains it.\<close>

lemma exec_same_segment:
  assumes "closed P a b" "a \<le> i" "i < b" "b \<le> length Q" "\<And>q. a \<le> q \<Longrightarrow> q < b \<Longrightarrow> Q ! q = P ! q"
  shows "exec t Q i = exec t P i"
  using assms(1-3)
proof (induction rule: closed_induct)
  case (step i)
  have l: "i < length P" "i < length Q" using step assms(1,4) by (auto simp: closed_def)
  let ?j = "jump (P ! i) (t (P ! i))"
  have "dest t Q ?j = dest t P ?j"
    using step.IH [of "t (P ! i)"] closed_jump [OF assms(1) step.hyps, of "t (P ! i)"]
    by (auto simp: dest_def)
  with l assms(5) [OF step.hyps] show ?case by (simp add: exec_step)
qed

text \<open>The tests the builder relies on do not look at the jumps of an instruction.\<close>

definition jump_blind :: "(insn \<Rightarrow> bool) \<Rightarrow> bool" where
  "jump_blind t \<longleftrightarrow> (\<forall>x n y. t (x\<lparr>i_no := n, i_yes := y\<rparr>) = t x)"

lemma jump_blind_map_jumps [simp]: "jump_blind t \<Longrightarrow> t (map_jumps f x) = t x"
  by (simp add: jump_blind_def map_jumps_def)

lemma jump_blind_tests [simp]:
  "jump_blind (word_test W)" "jump_blind (fast_test v al)" "jump_blind (checked_test v al)"
  by (auto simp: jump_blind_def word_test_def fast_test_def checked_test_def required_length_def Let_def)

lemma redirect_pos [simp]: "0 < j \<Longrightarrow> redirect s f j = j"
  by (simp add: redirect_def j_success_def j_failure_def)

lemma redirect_symbolic [simp]: "redirect s f j_success = s" "redirect s f j_failure = f"
  by (simp_all add: redirect_def j_success_def j_failure_def)

text \<open>A segment whose exits were redirected, inside a program that is otherwise arbitrary.\<close>

lemma exec_redirected:
  assumes "jump_blind t" "closed P a b" "a \<le> i" "i < b" "length Q = length P"
    and "\<And>q. a \<le> q \<Longrightarrow> q < b \<Longrightarrow> Q ! q = map_jumps (redirect s f) (P ! q)"
  shows "exec t Q i = Option.bind (exec t P i) (\<lambda>r. dest t Q (redirect s f r))"
  by (rule exec_link [OF assms(2-4)]) (use assms in \<open>simp_all add: closed_def\<close>)

text \<open>The boundaries of consecutive closed segments that fill the program to its end.\<close>

fun segments :: "nat list \<Rightarrow> insn list \<Rightarrow> bool" where
  "segments [] P = False"
| "segments [a] P = (a < length P \<and> closed P a (length P))"
| "segments (a # b # rest) P = (a < b \<and> closed P a b \<and> segments (b # rest) P)"

lemma segments_hd: "segments (a # rest) P \<Longrightarrow> a < length P"
  by (induction "a # rest" P arbitrary: a rest rule: segments.induct) (auto simp: closed_def)

lemma segments_cong:
  assumes "segments subs P" "length Q = length P" "\<And>i. hd subs \<le> i \<Longrightarrow> i < length P \<Longrightarrow> Q ! i = P ! i"
  shows "segments subs Q \<and> map (exec t Q) subs = map (exec t P) subs"
  using assms
proof (induction subs P rule: segments.induct)
  case (2 a P)
  then show ?case using exec_same_segment [of P a "length P" a Q t] by (auto simp: closed_def)
next
  case (3 a b rest P)
  have "closed Q a b" using 3 by (auto simp: closed_def)
  moreover have "exec t Q a = exec t P a"
    by (rule exec_same_segment [of P a b]) (use 3 in \<open>auto simp: closed_def\<close>)
  moreover have "segments (b # rest) Q \<and> map (exec t Q) (b # rest) = map (exec t P) (b # rest)"
    by (rule 3(1)) (use 3 in auto)
  ultimately show ?case using 3 by simp
qed simp

lemma length_combine_subtrees [simp]: "length (combine_subtrees c s f subs P) = length P"
  by (induction c s f subs P rule: combine_subtrees.induct) auto

lemma combine_subtrees_below:
  "sorted subs \<Longrightarrow> subs \<noteq> [] \<Longrightarrow> i < hd subs \<Longrightarrow> i < length P \<Longrightarrow> combine_subtrees c s f subs P ! i = P ! i"
  by (induction c s f subs P rule: combine_subtrees.induct) auto

lemma segments_sorted: "segments subs P \<Longrightarrow> sorted subs"
  by (induction subs P rule: segments.induct) (auto intro: le_trans less_imp_le)

text \<open>What the exits of the subtrees amount to under each combiner.\<close>

fun and_exit :: "int \<Rightarrow> int \<Rightarrow> int list \<Rightarrow> int" where
  "and_exit s f [] = s"
| "and_exit s f (r # rs) = (if r = j_success then and_exit s f rs else redirect s f r)"

fun or_exit :: "int \<Rightarrow> int \<Rightarrow> int list \<Rightarrow> int" where
  "or_exit s f [] = f"
| "or_exit s f (r # rs) = (if r = j_failure then or_exit s f rs else redirect s f r)"

fun ternary_exit :: "int \<Rightarrow> int \<Rightarrow> int list \<Rightarrow> int" where
  "ternary_exit s f (c # r # r' # rs) =
     (if c = j_success then redirect s f r
      else if c = j_failure then ternary_exit s f (r' # rs) else c)"
| "ternary_exit s f rs = and_exit s f rs"

fun combined_exit :: "combiner \<Rightarrow> int \<Rightarrow> int \<Rightarrow> int list \<Rightarrow> int" where
  "combined_exit C_and = and_exit"
| "combined_exit C_or = or_exit"
| "combined_exit C_ternary = ternary_exit"

definition exits :: "(insn \<Rightarrow> bool) \<Rightarrow> insn list \<Rightarrow> nat list \<Rightarrow> int list" where
  "exits t P subs = map (\<lambda>a. the (exec t P a)) subs"

lemma segments_redirect:
  assumes "segments (b # rest) P" "e \<le> b"
  shows "segments (b # rest) (redirect_subtree a e s f P)"
    "exits t (redirect_subtree a e s f P) (b # rest) = exits t P (b # rest)"
  using segments_cong [OF assms(1), of "redirect_subtree a e s f P" t] assms(2)
  by (auto simp: exits_def)

lemma exits_simps [simp]: "exits t P [] = []" "exits t P (a # subs) = the (exec t P a) # exits t P subs"
  by (simp_all add: exits_def)

lemma exec_combined_segment:
  assumes "jump_blind t" "closed P a b" "a < b" "segments (c # rest) P" "b \<le> c"
    and "length P1 = length P" "\<And>q. a \<le> q \<Longrightarrow> q < b \<Longrightarrow> P1 ! q = map_jumps (redirect s' f') (P ! q)"
  shows "exec t (combine_subtrees cb s f (c # rest) P1) a =
    Option.bind (exec t P a) (\<lambda>r. dest t (combine_subtrees cb s f (c # rest) P1) (redirect s' f' r))"
proof (rule exec_redirected [OF assms(1,2)])
  fix q assume q: "a \<le> q" "q < b"
  with assms(2,5,6) have "q < c" "q < length P1" by (auto simp: closed_def)
  with combine_subtrees_below [OF segments_sorted [OF assms(4)], of q P1 cb s f] assms(7) [OF q]
  show "combine_subtrees cb s f (c # rest) P1 ! q = map_jumps (redirect s' f') (P ! q)" by simp
qed (use assms in simp_all)

lemma segments_exec_defined:
  assumes "segments (a # rest) P"
  shows "\<exists>r \<le> 0. exec t P a = Some r"
  using assms by (cases rest) (auto intro: closed_exec_defined)

lemma dest_redirect:
  "r \<le> 0 \<Longrightarrow> dest t Q (redirect s f r) =
     (if r = j_success then dest t Q s else if r = j_failure then dest t Q f else Some r)"
  by (simp add: redirect_def)

lemma j_symbolic_neq [simp]: "j_failure \<noteq> j_success" "j_success \<noteq> j_failure" "j_success \<le> 0" "j_failure \<le> 0"
  by (simp_all add: j_success_def j_failure_def)

lemma combine_link:
  assumes "jump_blind t" "segments (a # b # subs) P"
  defines "P1 s' f' \<equiv> redirect_subtree a b s' f' P"
  shows "exec t (combine_subtrees cb s f (b # subs) (P1 s' f')) a =
      dest t (combine_subtrees cb s f (b # subs) (P1 s' f')) (redirect s' f' (the (exec t P a)))
    \<and> the (exec t P a) \<le> 0 \<and> segments (b # subs) (P1 s' f')
    \<and> exits t (P1 s' f') (b # subs) = exits t P (b # subs)"
proof -
  from assms(2) have a: "closed P a b" "a < b" "segments (b # subs) P" by auto
  obtain r where r: "exec t P a = Some r" "r \<le> 0"
    using segments_exec_defined [OF assms(2)] by blast
  have "exec t (combine_subtrees cb s f (b # subs) (P1 s' f')) a =
      dest t (combine_subtrees cb s f (b # subs) (P1 s' f')) (redirect s' f' r)"
    using exec_combined_segment [OF assms(1) a(1,2,3) order_refl, of "P1 s' f'" s' f' cb s f] a(1) r
    by (auto simp: closed_def P1_def)
  with r segments_redirect(1) [OF a(3) order_refl, of a s' f']
    segments_redirect(2) [OF a(3) order_refl, of t a s' f'] show ?thesis
    by (simp add: P1_def)
qed

text \<open>
  Finishing a level links its subtrees as its combiner says: conjunction stops at the first
  subtree that does not succeed, disjunction at the first that does not fail, and the ternary
  combiner chooses between pairs.
\<close>

lemma combine_subtrees_exec:
  assumes "jump_blind t" "s \<le> 0" "f \<le> 0" "segments subs P"
  shows "exec t (combine_subtrees cb s f subs P) (hd subs) =
    Some (combined_exit cb s f (exits t P subs))"
  using assms(2-4)
proof (induction cb s f subs P rule: combine_subtrees.induct)
  case (2 c s f a P)
  then have a: "closed P a (length P)" "a < length P" by auto
  obtain r where r: "exec t P a = Some r" "r \<le> 0"
    using segments_exec_defined [OF 2(3)] by blast
  have "exec t (redirect_subtree a (length P) s f P) a =
      Option.bind (exec t P a) (\<lambda>r. dest t (redirect_subtree a (length P) s f P) (redirect s f r))"
    by (rule exec_redirected [OF assms(1) a(1)]) (use a in simp_all)
  with r 2(1,2) show ?case by (cases c) (auto simp: dest_redirect redirect_def)
next
  case (3 s f a b subs P)
  note l = combine_link [OF assms(1) 3(4), of C_and s f "int b" f]
  from 3 l show ?case by (auto simp: dest_redirect redirect_def dest_def)
next
  case (4 s f a b subs P)
  note l = combine_link [OF assms(1) 4(4), of C_or s f s "int b"]
  from 4 l show ?case by (auto simp: dest_redirect redirect_def dest_def)
next
  case (5 s f a b c subs P)
  then have a: "closed P a b" "a < b" "closed P b c" "b < c" "segments (c # subs) P" "c \<le> length P"
    by (auto simp: closed_def)
  let ?P1 = "redirect_subtree a b (int b) (int c) P"
  let ?P2 = "redirect_subtree b c s f ?P1" and ?Q = "combine_subtrees C_ternary s f (a # b # c # subs) P"
  note l1 = combine_link [OF assms(1) 5(4), of C_ternary s f "int b" "int c"]
  then have "segments (b # c # subs) ?P1" by simp
  note l = combine_link [OF assms(1) this, of C_ternary s f s f]
  obtain r where r: "exec t P a = Some r" "r \<le> 0"
    using segments_exec_defined [OF 5(4)] by blast
  have "exec t ?Q a = Option.bind (exec t P a) (\<lambda>r. dest t ?Q (redirect (int b) (int c) r))"
    using exec_combined_segment [OF assms(1) a(1,2,5), of ?P2 "int b" "int c" C_ternary s f] a(4,6)
    by auto
  with r 5 l l1 a(2,4) show ?case by (auto simp: dest_redirect redirect_def dest_def)
next
  case (6 s f a b P)
  note l = combine_link [OF assms(1) 6(4), of C_ternary s f "int b" f]
  from 6 l show ?case by (auto simp: dest_redirect redirect_def dest_def)
qed simp

lemma map_jumps_ok:
  assumes "insn_ok b i x" "b \<le> n" "\<And>j. j \<le> 0 \<Longrightarrow> jump_ok n i (g j)" "\<And>j. 0 < j \<Longrightarrow> g j = j"
  shows "insn_ok n i (map_jumps g x)"
proof (rule insn_okI)
  fix k
  have "jump_ok b i (jump x k)" by (rule insn_ok_jump [OF assms(1)])
  then show "jump_ok n i (jump (map_jumps g x) k)"
    using assms(2-4) by (cases "0 < jump x k") (auto simp: jump_ok_def)
qed

lemma insn_ok_redirect:
  assumes "insn_ok b i x" "b \<le> n" "jump_ok n i s" "jump_ok n i f"
  shows "insn_ok n i (map_jumps (redirect s f) x)"
  by (rule map_jumps_ok [OF assms(1,2)]) (use assms(3,4) in \<open>auto simp: redirect_def jump_ok_def j_success_def j_failure_def\<close>)

lemma closed_extend:
  assumes "closed Q b n" "a \<le> b" "n = length Q" "\<And>i. a \<le> i \<Longrightarrow> i < b \<Longrightarrow> insn_ok n i (Q ! i)"
  shows "closed Q a n"
  using assms unfolding closed_def by (metis not_le)

lemma combine_redirected_closed:
  assumes "closed P a b" "segments (c # rest) P" "b \<le> c" "length P1 = length P"
    and "jump_ok (length P) (b - 1) s'" "jump_ok (length P) (b - 1) f'"
    and "\<And>q. a \<le> q \<Longrightarrow> q < b \<Longrightarrow> P1 ! q = map_jumps (redirect s' f') (P ! q)"
    and "a \<le> i" "i < b"
  shows "insn_ok (length P) i (combine_subtrees cb s f (c # rest) P1 ! i)"
proof -
  have "i < c" "i < length P1" using assms(1,3,4,9) by (auto simp: closed_def)
  then have "combine_subtrees cb s f (c # rest) P1 ! i = map_jumps (redirect s' f') (P ! i)"
    using combine_subtrees_below [OF segments_sorted [OF assms(2)], of i P1 cb s f] assms(7-9) by simp
  moreover have "jump_ok (length P) i s'" "jump_ok (length P) i f'"
    using assms(5,6,9) jump_ok_mono by (metis Suc_diff_1 diff_Suc_1 gr_implies_not0 less_Suc_eq_le not_gr_zero)+
  moreover have "insn_ok b i (P ! i)" "b \<le> length P" using assms(1,8,9) by (auto simp: closed_def)
  ultimately show ?thesis using insn_ok_redirect by simp
qed

lemma combine_subtrees_closed:
  assumes "s \<le> 0" "f \<le> 0" "segments subs P"
  shows "closed (combine_subtrees cb s f subs P) (hd subs) (length P)"
  using assms
proof (induction cb s f subs P rule: combine_subtrees.induct)
  case (2 c s f a P)
  then show ?case by (auto simp: closed_def jump_ok_def intro!: insn_ok_redirect)
next
  case (3 s f a b subs P)
  then have a: "closed P a b" "a < b" "segments (b # subs) P" by auto
  have "insn_ok (length P) i (combine_subtrees C_and s f (a # b # subs) P ! i)" if "a \<le> i" "i < b" for i
    using combine_redirected_closed [OF a(1,3) order_refl, of "redirect_subtree a b (int b) f P"
        "int b" f i C_and s f] that a segments_hd [OF a(3)] 3(3) by (simp add: jump_ok_def)
  then show ?case
    using closed_extend [OF 3(1)] 3(2,3) a segments_redirect(1) [OF a(3) order_refl] by simp
next
  case (4 s f a b subs P)
  then have a: "closed P a b" "a < b" "segments (b # subs) P" by auto
  have "insn_ok (length P) i (combine_subtrees C_or s f (a # b # subs) P ! i)" if "a \<le> i" "i < b" for i
    using combine_redirected_closed [OF a(1,3) order_refl, of "redirect_subtree a b s (int b) P"
        s "int b" i C_or s f] that a segments_hd [OF a(3)] 4(2) by (simp add: jump_ok_def)
  then show ?case
    using closed_extend [OF 4(1)] 4(2,3) a segments_redirect(1) [OF a(3) order_refl] by simp
next
  case (5 s f a b c subs P)
  then have a: "closed P a b" "a < b" "closed P b c" "b < c" "segments (c # subs) P" "c \<le> length P"
    by (auto simp: closed_def)
  let ?P2 = "redirect_subtree b c s f (redirect_subtree a b (int b) (int c) P)"
  let ?Q = "combine_subtrees C_ternary s f (a # b # c # subs) P"
  have "insn_ok (length P) i (?Q ! i)" if "a \<le> i" "i < b" for i
    using combine_redirected_closed [OF a(1,5), of ?P2 "int b" "int c" i C_ternary s f]
      that a segments_hd [OF a(5)] by (simp add: jump_ok_def)
  moreover have "insn_ok (length P) i (?Q ! i)" if "b \<le> i" "i < c" for i
    using combine_redirected_closed [OF a(3,5) order_refl, of ?P2 s f i C_ternary s f]
      that a segments_hd [OF a(5)] 5(2,3) by (simp add: jump_ok_def)
  ultimately have "insn_ok (length P) i (?Q ! i)" if "a \<le> i" "i < c" for i
    using that by (metis not_le)
  moreover have "segments (c # subs) ?P2"
    using segments_redirect(1) [OF segments_redirect(1) [OF a(5)] order_refl] a(4) by simp
  ultimately show ?case
    using closed_extend [OF 5(1)] 5(2,3) a(2,4) by simp
next
  case (6 s f a b P)
  then have a: "closed P a b" "a < b" "segments [b] P" by auto
  have "insn_ok (length P) i (combine_subtrees C_ternary s f [a, b] P ! i)" if "a \<le> i" "i < b" for i
    using combine_redirected_closed [OF a(1,3) order_refl, of "redirect_subtree a b (int b) f P"
        "int b" f i C_ternary s f] that a segments_hd [OF a(3)] 6(3) by (simp add: jump_ok_def)
  then show ?case
    using closed_extend [OF 6(1)] 6(2,3) a segments_redirect(1) [OF a(3) order_refl] by simp
qed simp

section \<open>The builder against stacks of outcomes\<close>

text \<open>
  Replacing the subtrees at the end of the program by one, and adding an instruction, leaves
  the subtrees before alone.
\<close>

lemma segments_tail: "segments (xs @ ys) P \<Longrightarrow> ys \<noteq> [] \<Longrightarrow> segments ys P"
proof (induction xs)
  case (Cons x xs)
  then show ?case by (cases "xs @ ys") auto
qed simp

lemma segments_replace_tail:
  assumes "segments (xs @ ys) P" "ys \<noteq> []" "length Q = length P"
    and "closed Q (hd ys) (length P)" "\<And>i. i < hd ys \<Longrightarrow> i < length P \<Longrightarrow> Q ! i = P ! i"
  shows "segments (xs @ [hd ys]) Q \<and> exits t Q xs = exits t P xs"
  using assms(1)
proof (induction xs)
  case Nil
  then show ?case using assms by (cases ys) (auto dest: segments_hd)
next
  case (Cons x xs)
  obtain z zs where z: "xs @ ys = z # zs" using assms(2) by (cases "xs @ ys") auto
  then have zh: "hd (xs @ [hd ys]) = z" by (cases xs) auto
  obtain ws where w: "xs @ [hd ys] = z # ws" using zh by (cases "xs @ [hd ys]") auto
  from Cons.prems z have x: "x < z" "closed P x z" "segments (xs @ ys) P" by auto
  have "z \<le> hd ys"
    using segments_sorted [OF x(3)] assms(2) z by (cases xs; cases ys) auto
  then have same: "Q ! i = P ! i" if "i < z" for i
    using assms(5) that x(2) by (simp add: closed_def)
  have "closed Q x z" using x(2) same assms(3) by (simp add: closed_def)
  moreover have "exec t Q x = exec t P x"
    by (rule exec_same_segment [OF x(2)]) (use x same assms(3) in \<open>auto simp: closed_def\<close>)
  ultimately show ?case using Cons.IH [OF x(3)] x(1) w by simp
qed

lemma segments_snoc:
  assumes "subs = [] \<or> segments subs P" "insn_ok (length P + 1) (length P) x"
  shows "segments (subs @ [length P]) (P @ [x]) \<and> exits t (P @ [x]) subs = exits t P subs"
  using assms(1)
proof (induction subs)
  case Nil
  show ?case using assms(2) by (auto simp: closed_def less_Suc_eq_le dest: le_antisym)
next
  case (Cons a subs)
  let ?e = "if subs = [] then length P else hd subs"
  have a: "a < ?e" "closed P a ?e" "subs = [] \<or> segments subs P"
    using Cons.prems by (cases subs; auto)+
  then have "closed (P @ [x]) a ?e" by (auto simp: closed_def nth_append)
  moreover have "exec t (P @ [x]) a = exec t P a"
    by (rule exec_same_segment [OF a(2)]) (use a in \<open>auto simp: closed_def nth_append\<close>)
  ultimately show ?case using Cons.IH [OF a(3)] a(1) by (cases subs) auto
qed

text \<open>The levels of a tree vector as a stack of lists of subtree starts, outermost first.\<close>

definition levels :: "int list \<Rightarrow> nat \<Rightarrow> nat list list \<Rightarrow> bool" where
  "levels tree n stk \<longleftrightarrow>
     (\<forall>l < length stk. \<forall>q \<in> set (stk ! l). q < n \<and> tree ! Suc q = int l + 1)"

definition tree_rep :: "int list \<Rightarrow> nat \<Rightarrow> nat list list \<Rightarrow> bool" where
  "tree_rep tree n stk \<longleftrightarrow> length tree = n + 1 \<and> tree ! 0 = int (length stk)
     \<and> sorted_wrt (<) (concat stk) \<and> levels tree n stk
     \<and> (\<forall>q < n. q \<notin> set (concat stk) \<longrightarrow> tree ! Suc q = - 1)"

lemma levels_snoc:
  "levels tree n (stk @ [subs]) \<longleftrightarrow>
     levels tree n stk \<and> (\<forall>q \<in> set subs. q < n \<and> tree ! Suc q = int (length stk) + 1)"
  by (auto simp: levels_def nth_append less_Suc_eq)

lemma levels_start:
  assumes "levels tree n stk" "q \<in> set (concat stk)"
  shows "q < n \<and> 0 < tree ! Suc q \<and> tree ! Suc q \<le> int (length stk)"
proof -
  obtain l where "l < length stk" "q \<in> set (stk ! l)"
    using assms(2) by (metis in_set_conv_nth set_concat UN_E)
  with assms(1) show ?thesis by (auto simp: levels_def)
qed

lemma levels_cong:
  assumes "levels tree n stk" "\<And>q. q \<in> set (concat stk) \<Longrightarrow> tree' ! Suc q = tree ! Suc q" "n \<le> n'"
  shows "levels tree' n' stk"
proof -
  have "q < n' \<and> tree' ! Suc q = int l + 1" if "l < length stk" "q \<in> set (stk ! l)" for l q
  proof -
    have "q \<in> set (concat stk)" using that by auto
    moreover have "q < n \<and> tree ! Suc q = int l + 1" using assms(1) that by (simp add: levels_def)
    ultimately show ?thesis using assms(2,3) by simp
  qed
  then show ?thesis by (simp add: levels_def)
qed

lemma tree_rep_init: "tree_rep (init_subtree p) (length (p_insn p)) []"
  by (simp add: tree_rep_def init_subtree_def levels_def)

lemma tree_rep_start:
  assumes "tree_rep tree n stk" shows "tree_rep (start_subtree tree) n (stk @ [[]])"
proof -
  have "0 < length tree" using assms by (simp add: tree_rep_def)
  with assms show ?thesis
    by (auto simp: tree_rep_def start_subtree_def levels_snoc intro: levels_cong)
qed

lemma tree_rep_add:
  assumes "tree_rep tree n (stk @ [subs])"
  shows "tree_rep (tree @ [tree ! 0]) (Suc n) (stk @ [subs @ [n]])"
proof -
  let ?tree = "tree @ [tree ! 0]"
  have l: "length tree = n + 1" and lv: "levels tree n (stk @ [subs])"
    using assms by (simp_all add: tree_rep_def)
  have n: "q < n" if "q \<in> set (concat (stk @ [subs]))" for q using levels_start [OF lv that] by simp
  have "levels ?tree (Suc n) (stk @ [subs])"
    by (rule levels_cong [OF lv]) (use n l in \<open>auto simp: nth_append\<close>)
  then have "levels ?tree (Suc n) (stk @ [subs @ [n]])"
    using assms l by (auto simp: levels_snoc tree_rep_def nth_append)
  moreover have "sorted_wrt (<) (concat (stk @ [subs @ [n]]))"
    using assms n by (auto simp: tree_rep_def sorted_wrt_append)
  ultimately show ?thesis using assms l by (auto simp: tree_rep_def nth_append less_Suc_eq)
qed

text \<open>The scan of \<open>finish_subtree\<close> finds the subtrees of the current level.\<close>

lemma parent_ptr_le: "parent_ptr tree level n \<le> n"
  by (induction n) auto

lemma parent_ptr_skips:
  "parent_ptr tree level n < ptr \<Longrightarrow> ptr \<le> n \<Longrightarrow> tree ! ptr < 0 \<or> level \<le> tree ! ptr"
  by (induction n) (auto split: if_splits simp: le_Suc_eq)

lemma parent_ptr_stops:
  "parent_ptr tree level n = 0 \<or>
     (0 \<le> tree ! parent_ptr tree level n \<and> tree ! parent_ptr tree level n < level)"
  by (induction n) auto

lemma child_subtrees_rep:
  assumes "tree_rep tree n (stk @ [subs])"
  shows "child_subtrees tree (int (length stk) + 1) n = subs"
proof (rule sorted_distinct_set_unique)
  let ?l = "int (length stk) + 1"
  let ?p = "parent_ptr tree ?l n"
  note r = assms [unfolded tree_rep_def levels_snoc]
  have srt: "sorted_wrt (<) subs" "\<And>q q'. q \<in> set (concat stk) \<Longrightarrow> q' \<in> set subs \<Longrightarrow> q < q'"
    using r by (auto simp: sorted_wrt_append)
  show "sorted subs" "distinct subs" using srt(1) by (auto simp: strict_sorted_iff)
  have c: "child_subtrees tree ?l n = filter (\<lambda>q. tree ! Suc q = ?l) [?p..<n]"
    unfolding child_subtrees_def
    by (simp add: map_Suc_upt [symmetric] filter_map comp_def del: map_Suc_upt upt_Suc)
  show "sorted (child_subtrees tree ?l n)" "distinct (child_subtrees tree ?l n)"
    by (simp_all add: c sorted_wrt_filter)
  have p: "?p \<le> q" if "q \<in> set subs" for q
  proof (cases ?p)
    case (Suc p')
    with parent_ptr_stops [of tree ?l n] have t: "0 \<le> tree ! Suc p'" "tree ! Suc p' < ?l" by auto
    have "p' < n" using Suc parent_ptr_le [of tree ?l n] by simp
    with t(1) r have "p' \<in> set (concat (stk @ [subs]))" by fastforce
    with t(2) r have "p' \<in> set (concat stk)" by auto
    with srt(2) that have "p' < q" by simp
    with Suc show ?thesis by simp
  qed simp
  show "set (child_subtrees tree ?l n) = set subs"
  proof
    show "set subs \<subseteq> set (child_subtrees tree ?l n)" using r p by (auto simp: c)
    show "set (child_subtrees tree ?l n) \<subseteq> set subs"
    proof
      fix q assume "q \<in> set (child_subtrees tree ?l n)"
      then have q: "q < n" "tree ! Suc q = ?l" by (auto simp: c)
      then have "q \<in> set (concat (stk @ [subs]))" using r by fastforce
      moreover have "q \<notin> set (concat stk)" using levels_start [of tree n stk q] r q by auto
      ultimately show "q \<in> set subs" by simp
    qed
  qed
qed

lemma tree_rep_finish_empty:
  assumes "tree_rep tree n (stk @ [[]])"
  shows "tree_rep (tree[0 := tree ! 0 - 1]) n stk"
  using assms by (auto simp: tree_rep_def levels_snoc intro: levels_cong)

lemma tree_rep_finish:
  assumes "tree_rep tree n (stk @ [parents, a # subs])"
  defines "tree' \<equiv> mark_subtree a (int (length stk) + 1) tree"
  shows "tree_rep (tree'[0 := tree' ! 0 - 1]) n (stk @ [parents @ [a]])"
proof -
  let ?t = "tree'[0 := tree' ! 0 - 1]"
  note r = assms(1) [unfolded tree_rep_def]
  have l: "length tree = n + 1" and lv: "levels tree n ((stk @ [parents]) @ [a # subs])"
    using r by simp_all
  have an: "a < n" using lv unfolding levels_snoc by simp
  have srt: "sorted_wrt (<) (concat (stk @ [parents]) @ a # subs)" using r by simp
  have below: "q < a" if "q \<in> set (concat (stk @ [parents]))" for q
    using srt that by (auto simp: sorted_wrt_append)
  have len: "length tree' = n + 1" using an l by (simp add: tree'_def mark_subtree_def)
  have nth: "?t ! Suc q = (if q < a then tree ! Suc q else if q = a then int (length stk) + 1 else - 1)"
    if "q < n" for q
    using that an l by (auto simp: tree'_def mark_subtree_def nth_append nth_Cons')
  have "?t ! 0 = int (length stk) + 1"
    using r an l len by (simp add: tree'_def mark_subtree_def nth_append)
  moreover have "levels ?t n (stk @ [parents])"
  proof (rule levels_cong [where tree = tree and n = n])
    show "levels tree n (stk @ [parents])" using lv unfolding levels_snoc [of _ _ "stk @ [parents]"] by blast
    show "?t ! Suc q = tree ! Suc q" if "q \<in> set (concat (stk @ [parents]))" for q
      using below [OF that] nth [of q] an by (simp only: if_True less_trans)
  qed simp
  then have "levels ?t n (stk @ [parents @ [a]])"
    using nth an by (auto simp: levels_snoc)
  moreover have "?t ! Suc q = - 1" if "q < n" "q \<notin> set (concat (stk @ [parents @ [a]]))" for q
  proof (cases "q < a")
    case True
    then have "q \<notin> set (a # subs)" using srt by (auto simp: sorted_wrt_append)
    with that r nth [OF that(1)] True show ?thesis by simp
  qed (use that nth in auto)
  moreover have "sorted_wrt (<) (concat (stk @ [parents @ [a]]))"
    using srt by (auto simp: sorted_wrt_append)
  ultimately show ?thesis using len by (simp add: tree_rep_def)
qed

lemma last_subtree_eqI:
  "q < n \<Longrightarrow> tree ! Suc q = level \<Longrightarrow> (\<And>q'. q < q' \<Longrightarrow> q' < n \<Longrightarrow> tree ! Suc q' \<noteq> level) \<Longrightarrow>
     last_subtree tree level n = Some q"
  by (induction n) (auto simp: less_Suc_eq)

lemma last_subtree_rep:
  assumes "tree_rep tree n (stk @ [subs @ [a]])"
  shows "last_subtree tree (tree ! 0) n = Some a"
proof (rule last_subtree_eqI)
  note r = assms [unfolded tree_rep_def levels_snoc]
  show "a < n" "tree ! Suc a = tree ! 0" using r by auto
  fix q assume q: "a < q" "q < n"
  have "sorted_wrt (<) ((concat stk @ subs) @ [a])" using r by simp
  then have "\<forall>q' \<in> set ((concat stk @ subs) @ [a]). q' \<le> a"
    by (metis (no_types, lifting) set_append UnE list.set_intros(1) order.strict_implies_order
        order_refl set_ConsD sorted_wrt_append empty_iff list.set(1))
  then have "q \<notin> set ((concat stk @ subs) @ [a])" using q(1) by (meson not_le)
  then have "q \<notin> set (concat (stk @ [subs @ [a]]))" by simp
  with r q show "tree ! Suc q \<noteq> tree ! 0" by simp
qed

text \<open>
  The abstract builder: for every level the outcomes of its subtrees on the packet at hand.
  \<open>builds base t tree P S\<close> relates the tree vector and the program under construction to it.
\<close>

definition push_level :: "int list list \<Rightarrow> int list list" where
  "push_level S = S @ [[]]"

definition put_exit :: "int \<Rightarrow> int list list \<Rightarrow> int list list" where
  "put_exit r S = butlast S @ [last S @ [r]]"

definition reduce_level :: "combiner \<Rightarrow> int \<Rightarrow> int \<Rightarrow> int list list \<Rightarrow> int list list" where
  "reduce_level c s f S =
     (if last S = [] then butlast S else put_exit (combined_exit c s f (last S)) (butlast S))"

definition negate_last :: "int list list \<Rightarrow> int list list" where
  "negate_last S = butlast S @ [butlast (last S) @ [negate_jump (last (last S))]]"

definition builds ::
  "nat \<Rightarrow> (insn \<Rightarrow> bool) \<Rightarrow> int list \<Rightarrow> insn list \<Rightarrow> int list list \<Rightarrow> bool" where
  "builds base t tree P S \<longleftrightarrow>
     (\<exists>stk. tree_rep tree (length P) stk \<and> S = map (exits t P) stk
        \<and> (concat stk = [] \<and> length P = base
           \<or> concat stk \<noteq> [] \<and> segments (concat stk) P \<and> hd (concat stk) = base))"

lemma builds_init: "builds (length (p_insn p)) t (init_subtree p) (p_insn p) []"
  by (simp add: builds_def tree_rep_init)

lemma builds_start:
  assumes "builds base t tree P S" shows "builds base t (start_subtree tree) P (push_level S)"
proof -
  obtain stk where "tree_rep tree (length P) stk" "S = map (exits t P) stk"
    "concat stk = [] \<and> length P = base \<or> concat stk \<noteq> [] \<and> segments (concat stk) P \<and> hd (concat stk) = base"
    using assms unfolding builds_def by blast
  then show ?thesis
    unfolding builds_def by (intro exI [of _ "stk @ [[]]"]) (auto simp: tree_rep_start push_level_def)
qed

lemma exits_concat_cong:
  "exits t Q (concat stk) = exits t P (concat stk) \<Longrightarrow> map (exits t Q) stk = map (exits t P) stk"
  by (auto simp: exits_def)

lemma builds_add:
  assumes "builds base t tree (p_insn p) S" "S \<noteq> []" "add_insn tree off v m p = (p', tree')"
  shows "builds base t tree' (p_insn p')
    (put_exit (if t (last (p_insn p')) then j_success else j_failure) S)"
proof -
  obtain stk where stk: "tree_rep tree (length (p_insn p)) stk" "S = map (exits t (p_insn p)) stk"
    "concat stk = [] \<and> length (p_insn p) = base
     \<or> concat stk \<noteq> [] \<and> segments (concat stk) (p_insn p) \<and> hd (concat stk) = base"
    using assms(1) unfolding builds_def by blast
  obtain os subs where os: "stk = os @ [subs]" using assms(2) stk(2) by (cases stk rule: rev_cases) auto
  define x where "x = new_insn off v m j_failure j_success False"
  have p': "p_insn p' = p_insn p @ [x]" "tree' = tree @ [tree ! 0]"
    using assms(3) by (auto simp: add_insn_def x_def)
  have "insn_ok (length (p_insn p) + 1) (length (p_insn p)) x"
    by (simp add: x_def new_insn_def insn_ok_def jump_ok_def)
  with segments_snoc [of "concat stk" "p_insn p" x t] stk(3)
  have seg: "segments (concat stk @ [length (p_insn p)]) (p_insn p')"
    "exits t (p_insn p') (concat stk) = exits t (p_insn p) (concat stk)" by (auto simp: p')
  have ex: "exec t (p_insn p') (length (p_insn p)) = Some (if t x then j_success else j_failure)"
    by (simp add: p' exec_step nth_append x_def new_insn_def)
  show ?thesis
    unfolding builds_def
  proof (intro exI [of _ "os @ [subs @ [length (p_insn p)]]"] conjI)
    show "tree_rep tree' (length (p_insn p')) (os @ [subs @ [length (p_insn p)]])"
      using tree_rep_add stk(1) os by (simp add: p')
    show "put_exit (if t (last (p_insn p')) then j_success else j_failure) S
        = map (exits t (p_insn p')) (os @ [subs @ [length (p_insn p)]])"
      using exits_concat_cong [OF seg(2)] ex stk(2) os by (simp add: put_exit_def p' exits_def)
  qed (use seg stk(3) os in \<open>auto simp: hd_append\<close>)
qed

lemma combine_replace_tail:
  fixes c :: combiner
  assumes "jump_blind t" "s \<le> 0" "f \<le> 0" "segments (xs @ a # subs) P"
  defines "Q \<equiv> combine_subtrees c s f (a # subs) P"
  shows "segments (xs @ [a]) Q"
    "exits t Q (xs @ [a]) = exits t P xs @ [combined_exit c s f (exits t P (a # subs))]"
proof -
  have seg: "segments (a # subs) P" by (rule segments_tail [OF assms(4)]) simp
  have "segments (xs @ [hd (a # subs)]) Q \<and> exits t Q xs = exits t P xs"
    using segments_replace_tail [OF assms(4), of Q t] combine_subtrees_closed [OF assms(2,3) seg, of c]
      combine_subtrees_below [OF segments_sorted [OF seg]] by (simp add: Q_def)
  moreover have "exec t Q a = Some (combined_exit c s f (exits t P (a # subs)))"
    using combine_subtrees_exec [OF assms(1-3) seg, of c] by (simp add: Q_def)
  ultimately show "segments (xs @ [a]) Q"
    "exits t Q (xs @ [a]) = exits t P xs @ [combined_exit c s f (exits t P (a # subs))]"
    by (simp_all add: exits_def)
qed

lemma builds_finish:
  assumes "builds base t tree (p_insn p) S" "2 \<le> length S" "jump_blind t" "s \<le> 0" "f \<le> 0"
    and "finish_subtree tree c s f p = (p', tree')"
  shows "builds base t tree' (p_insn p') (reduce_level c s f S)"
proof -
  let ?P = "p_insn p"
  obtain stk where stk: "tree_rep tree (length ?P) stk" "S = map (exits t ?P) stk"
    "concat stk = [] \<and> length ?P = base \<or> concat stk \<noteq> [] \<and> segments (concat stk) ?P \<and> hd (concat stk) = base"
    using assms(1) unfolding builds_def by blast
  have "2 \<le> length stk" using assms(2) stk(2) by simp
  then obtain os parents subs where os: "stk = os @ [parents, subs]"
    by (metis (no_types, lifting) append_assoc append_Cons append_Nil append_butlast_last_id
        butlast.simps(1) length_append_singleton length_butlast list.size(3) not_less_eq_eq
        numeral_2_eq_2 diff_Suc_1 le_zero_eq list.size(4) zero_neq_one)
  have lev: "tree ! 0 = int (length (os @ [parents])) + 1" using stk(1) os by (simp add: tree_rep_def)
  have ch: "child_subtrees tree (tree ! 0) (length ?P) = subs"
    using child_subtrees_rep [of tree "length ?P" "os @ [parents]" subs] stk(1) os lev by simp
  show ?thesis
  proof (cases subs)
    case Nil
    have "p_insn p' = ?P" "tree' = tree[0 := tree ! 0 - 1]"
      using assms(6) ch Nil by (auto simp: finish_subtree_def Let_def)
    moreover have "reduce_level c s f S = map (exits t ?P) (os @ [parents])"
      using stk(2) os Nil by (simp add: reduce_level_def exits_def butlast_append)
    ultimately show ?thesis
      unfolding builds_def using tree_rep_finish_empty [of tree "length ?P" "os @ [parents]"] stk os Nil
      by (intro exI [of _ "os @ [parents]"]) auto
  next
    case (Cons a as)
    let ?Q = "combine_subtrees c s f (a # as) ?P"
    have p': "p_insn p' = ?Q"
      "tree' = (mark_subtree a (int (length os) + 1) tree)
          [0 := mark_subtree a (int (length os) + 1) tree ! 0 - 1]"
      using assms(6) ch Cons lev by (auto simp: finish_subtree_def Let_def add.commute)
    have seg: "segments (concat (os @ [parents]) @ a # as) ?P" "hd (concat stk) = base"
      using stk(3) os Cons by auto
    note rt = combine_replace_tail [OF assms(3-5) seg(1), of c]
    have ex: "map (exits t ?Q) (os @ [parents]) = map (exits t ?P) (os @ [parents])"
      "exits t ?Q [a] = [combined_exit c s f (exits t ?P (a # as))]"
      using rt(2) by (intro exits_concat_cong, auto simp: exits_def)
    show ?thesis
      unfolding builds_def
    proof (intro exI [of _ "os @ [parents @ [a]]"] conjI)
      show "tree_rep tree' (length (p_insn p')) (os @ [parents @ [a]])"
        using tree_rep_finish [of tree "length ?P" os parents a as] stk(1) os Cons by (simp add: p')
      show "reduce_level c s f S = map (exits t (p_insn p')) (os @ [parents @ [a]])"
        using ex stk(2) os Cons by (simp add: p' reduce_level_def put_exit_def butlast_append exits_def)
    qed (use rt(1) seg(2) os Cons in \<open>auto simp: p' hd_append split: if_splits\<close>)
  qed
qed

text \<open>The last level: the finished program is closed and runs to the combined outcome.\<close>

lemma builds_finish_last:
  assumes "builds base t tree (p_insn p) [rs]" "rs \<noteq> []" "jump_blind t" "s \<le> 0" "f \<le> 0"
    and "finish_subtree tree c s f p = (p', tree')"
  shows "exec t (p_insn p') base = Some (combined_exit c s f rs)
    \<and> closed (p_insn p') base (length (p_insn p')) \<and> base < length (p_insn p')"
proof -
  let ?P = "p_insn p"
  obtain stk where stk: "tree_rep tree (length ?P) stk" "[rs] = map (exits t ?P) stk"
    "concat stk = [] \<and> length ?P = base \<or> concat stk \<noteq> [] \<and> segments (concat stk) ?P \<and> hd (concat stk) = base"
    using assms(1) unfolding builds_def by (elim exE conjE) (rule that)
  from stk(2) obtain subs where s: "stk = [subs]" "rs = exits t ?P subs" by (cases stk) simp_all
  then obtain a as where a: "subs = a # as" using assms(2) by (cases subs) (auto simp: exits_def)
  have seg: "segments (a # as) ?P" "a = base" using stk(3) unfolding s(1) a by auto
  have "child_subtrees tree (tree ! 0) (length ?P) = subs"
    using child_subtrees_rep [of tree "length ?P" "[]" subs] stk(1) unfolding s(1)
    by (simp add: tree_rep_def)
  then have p': "p_insn p' = combine_subtrees c s f (a # as) ?P"
    using assms(6) a by (auto simp: finish_subtree_def Let_def)
  have "exec t (p_insn p') base = Some (combined_exit c s f rs)"
    using combine_subtrees_exec [OF assms(3-5) seg(1), of c] by (simp only: p' list.sel(1) seg(2) s(2) a)
  moreover have "closed (p_insn p') base (length (p_insn p'))"
    using combine_subtrees_closed [OF assms(4,5) seg(1), of c]
    by (simp only: p' list.sel(1) seg(2) length_combine_subtrees)
  ultimately show ?thesis using segments_hd [OF seg(1)] by (simp add: p' seg(2))
qed

lemma negate_jump_ok [simp]: "j \<le> 0 \<Longrightarrow> negate_jump j \<le> 0" "0 < j \<Longrightarrow> negate_jump j = j"
  by (auto simp: negate_jump_def j_success_def j_failure_def)

lemma negate_insn_plain: "negate_insn False = map_jumps negate_jump"
  by (simp add: fun_eq_iff negate_insn_def Let_def)

lemma builds_negate:
  assumes "builds base t tree (p_insn p) S" "S \<noteq> []" "last S \<noteq> []" "jump_blind t"
  shows "builds base t tree (p_insn (negate_subtree tree False p)) (negate_last S)"
proof -
  let ?P = "p_insn p" and ?Q = "p_insn (negate_subtree tree False p)"
  obtain stk where stk: "tree_rep tree (length ?P) stk" "S = map (exits t ?P) stk"
    "concat stk = [] \<and> length ?P = base \<or> concat stk \<noteq> [] \<and> segments (concat stk) ?P \<and> hd (concat stk) = base"
    using assms(1) unfolding builds_def by blast
  obtain os bs where os: "stk = os @ [bs]" using assms(2) stk(2) by (cases stk rule: rev_cases) auto
  with assms(3) stk(2) have "bs \<noteq> []" by (auto simp: exits_def)
  then obtain subs a where a: "stk = os @ [subs @ [a]]" using os by (cases bs rule: rev_cases) auto
  have Q: "?Q = map_range (map_jumps negate_jump) a (length ?P) ?P"
    using last_subtree_rep [of tree "length ?P" os subs a] stk(1) a
    by (simp add: negate_subtree_def negate_insn_plain)
  have seg: "segments (concat (os @ [subs]) @ [a]) ?P" using stk(3) a by auto
  then have ca: "closed ?P a (length ?P)" "a < length ?P" using segments_tail [OF seg] by simp_all
  have "insn_ok (length ?P) i (map_jumps negate_jump (?P ! i))" if "a \<le> i" "i < length ?P" for i
    by (rule map_jumps_ok [of "length ?P"]) (use ca that in \<open>auto simp: closed_def jump_ok_def\<close>)
  then have "closed ?Q a (length ?P)" by (simp add: closed_def Q)
  then have sq: "segments (concat (os @ [subs]) @ [a]) ?Q"
    "exits t ?Q (concat (os @ [subs])) = exits t ?P (concat (os @ [subs]))"
    using segments_replace_tail [OF seg, of ?Q t] by (simp_all add: Q)
  have "exec t ?Q a = Option.bind (exec t ?P a) (\<lambda>r. dest t ?Q (negate_jump r))"
    by (rule exec_link [OF ca(1)]) (use ca assms(4) in \<open>auto simp: Q\<close>)
  with closed_exec_defined [OF ca(1) order_refl ca(2), of t]
  have ex: "the (exec t ?Q a) = negate_jump (the (exec t ?P a))" by auto
  show ?thesis
    unfolding builds_def
  proof (intro exI [of _ stk] conjI)
    show "tree_rep tree (length ?Q) stk" using stk(1) by (simp add: Q)
    show "negate_last S = map (exits t ?Q) stk"
      using exits_concat_cong [OF sq(2)] ex stk(2) a by (simp add: negate_last_def exits_def butlast_append)
  qed (use sq(1) stk(3) a in auto)
qed

section \<open>Properties\<close>

text \<open>The calls a parser makes to build the subtrees below the outermost level.\<close>

datatype build_op =
  Start | Add int u32 u32 | Finish combiner int int | Negate

fun build_step :: "build_op \<Rightarrow> program \<times> int list \<Rightarrow> program \<times> int list" where
  "build_step Start (p, tree) = (p, start_subtree tree)"
| "build_step (Add off v m) (p, tree) = add_insn tree off v m p"
| "build_step (Finish c s f) (p, tree) = finish_subtree tree c s f p"
| "build_step Negate (p, tree) = (negate_subtree tree False p, tree)"

text \<open>
  What these calls mean for one packet, whose tests have the outcomes \<open>t\<close>; \<open>None\<close> for calls
  that do not nest.
\<close>

fun stack_step :: "(insn \<Rightarrow> bool) \<Rightarrow> build_op \<Rightarrow> int list list \<Rightarrow> int list list option" where
  "stack_step t Start S = Some (push_level S)"
| "stack_step t (Add off v m) S =
     (if S = [] then None
      else Some (put_exit (if t (new_insn off v m j_failure j_success False)
                           then j_success else j_failure) S))"
| "stack_step t (Finish c s f) S =
     (if length S < 2 \<or> 0 < s \<or> 0 < f then None else Some (reduce_level c s f S))"
| "stack_step t Negate S = (if S = [] \<or> last S = [] then None else Some (negate_last S))"

fun stack_steps :: "(insn \<Rightarrow> bool) \<Rightarrow> build_op list \<Rightarrow> int list list \<Rightarrow> int list list option" where
  "stack_steps t [] S = Some S"
| "stack_steps t (b # bs) S = Option.bind (stack_step t b S) (stack_steps t bs)"

lemma build_step_refines:
  assumes "builds base t tree (p_insn p) S" "stack_step t b S = Some S'" "jump_blind t"
    and "build_step b (p, tree) = (p', tree')"
  shows "builds base t tree' (p_insn p') S'"
proof (cases b)
  case Start
  with assms show ?thesis using builds_start by auto
next
  case (Add off v m)
  with assms show ?thesis
    using builds_add [OF assms(1), of off v m p' tree'] by (auto simp: add_insn_def split: if_splits)
next
  case (Finish c s f)
  with assms show ?thesis using builds_finish [OF assms(1)] by (auto split: if_splits)
next
  case Negate
  with assms show ?thesis using builds_negate [OF assms(1)] by (auto split: if_splits)
qed

lemma build_steps_refine:
  assumes "builds base t tree (p_insn p) S" "stack_steps t bs S = Some S'" "jump_blind t"
    and "fold build_step bs (p, tree) = (p', tree')"
  shows "builds base t tree' (p_insn p') S'"
  using assms
proof (induction bs arbitrary: p tree S)
  case (Cons b bs)
  obtain p1 tree1 where b: "build_step b (p, tree) = (p1, tree1)" by (cases "build_step b (p, tree)")
  obtain S1 where S1: "stack_step t b S = Some S1" "stack_steps t bs S1 = Some S'"
    using Cons.prems(2) by (auto simp: bind_eq_Some_conv)
  show ?case
    by (rule Cons.IH [OF build_step_refines [OF Cons.prems(1) S1(1) Cons.prems(3) b] S1(2)])
      (use Cons.prems b in simp_all)
qed simp

lemma closed_forward: "closed P 0 (length P) \<longleftrightarrow> forward P"
  by (simp add: closed_def forward_def)

text \<open>
  C27: a program built by any properly nested sequence of \<open>start_subtree\<close>, \<open>add_insn\<close>,
  \<open>finish_subtree\<close> and \<open>negate_subtree\<close> calls and finished at the outermost level has only
  forward jumps inside the program, and it sends every packet, short ones included, to the
  outcome that the nested conjunctions, disjunctions, choices and negations of its tests
  have on that packet.
\<close>

theorem built_program_outcome:
  assumes "p_insn p = []" "jump_blind t"
    and "stack_steps t bs [[]] = Some [rs]" "rs \<noteq> []"
    and "fold build_step bs (p, start_subtree (init_subtree p)) = (p1, tree1)"
    and "s \<le> 0" "f \<le> 0" "finish_subtree tree1 c s f p1 = (p2, tree2)"
  shows "exec t (p_insn p2) 0 = Some (combined_exit c s f rs) \<and> forward (p_insn p2)"
proof -
  have "builds 0 t (start_subtree (init_subtree p)) (p_insn p) [[]]"
    using builds_start [OF builds_init [of p t]] assms(1) by (simp add: push_level_def)
  from builds_finish_last [OF build_steps_refine [OF this assms(3,2,5)] assms(4,2,6,7,8)]
  show ?thesis by (simp add: closed_forward)
qed

theorem built_program_outcome_witness:
  "let bs = [Start, Add 0 0x45 0xFF, Add 4 6 0xFF, Finish C_and 0 j_failure,
             Start, Add 8 1 1, Negate, Finish C_and (- 1) j_failure];
       (p1, tree1) = fold build_step bs (new_program 0, start_subtree (init_subtree (new_program 0)));
       (p2, tree2) = finish_subtree tree1 C_or j_never j_never p1
   in exec (word_test (\<lambda>_. 6)) (p_insn p2) 0 = Some (- 1)"
proof -
  let ?bs = "[Start, Add 0 0x45 0xFF, Add 4 6 0xFF, Finish C_and 0 j_failure,
             Start, Add 8 1 1, Negate, Finish C_and (- 1) j_failure]"
  let ?t = "word_test (\<lambda>_. 6)"
  obtain p1 tree1 where 1: "fold build_step ?bs (new_program 0, start_subtree (init_subtree (new_program 0)))
      = (p1, tree1)" by (cases "fold build_step ?bs (new_program 0, start_subtree (init_subtree (new_program 0)))")
  obtain p2 tree2 where 2: "finish_subtree tree1 C_or j_never j_never p1 = (p2, tree2)"
    by (cases "finish_subtree tree1 C_or j_never j_never p1")
  have s: "stack_steps ?t ?bs [[]] = Some [[j_failure, - 1]]"
    by code_simp
  have "exec ?t (p_insn p2) 0 = Some (combined_exit C_or j_never j_never [j_failure, - 1])"
    using built_program_outcome [OF _ _ s _ 1 _ _ 2] by (simp add: new_program_def j_never_def)
  then show ?thesis using 1 2 by (simp add: redirect_def j_success_def j_failure_def)
qed

text \<open>Code that was moved to the end of another program.\<close>

lemma exec_offset_by:
  assumes "jump_blind t" "forward R" "i < length R"
  shows "exec t (L @ map (offset_by (int (length L))) R) (length L + i) = exec t R i"
  using assms(2,3)
proof (induction rule: forward_induct)
  case (step i)
  let ?Q = "L @ map (offset_by (int (length L))) R" and ?j = "jump (R ! i) (t (R ! i))"
  have Q: "?Q ! (length L + i) = offset_by (int (length L)) (R ! i)"
    using step.hyps by (simp add: nth_append)
  have "exec t ?Q (length L + i) = dest t ?Q (if 0 < ?j then ?j + int (length L) else ?j)"
    using step.hyps assms(1) by (subst exec_step) (simp_all add: Q offset_by_def)
  also have "\<dots> = dest t R ?j"
    using step.IH [of "t (R ! i)"] forward_jump [OF assms(2) step.hyps, of "t (R ! i)"]
    by (auto simp: dest_def nat_add_distrib add.commute)
  finally show ?case using step.hyps by (simp add: exec_step)
qed

text \<open>Where a program sends a packet: \<open>_output_everything\<close> or the run of its instructions.\<close>

definition program_exit :: "(insn \<Rightarrow> bool) \<Rightarrow> program \<Rightarrow> int option" where
  "program_exit t p =
     (if 0 \<le> p_output_everything p then Some (- p_output_everything p) else exec t (p_insn p) 0)"

text \<open>
  Appending a program with \<open>add_or_program\<close> to one that still has instructions makes the
  second program decide exactly the packets on which the first one fails.
\<close>

theorem add_or_program_outcome:
  assumes "jump_blind t" "p_output_everything p < 0" "p_insn p \<noteq> []" "forward (p_insn p)"
    and "p_output_everything q < 0 \<longrightarrow> p_insn q \<noteq> [] \<and> forward (p_insn q)"
    and "add_or_program q p = Some r"
  shows "program_exit t r =
    Option.bind (program_exit t p) (\<lambda>e. if e = j_failure then program_exit t q else Some e)"
proof -
  let ?n = "length (p_insn p)"
  define g where "g = (\<lambda>j. if j = j_failure
    then if p_output_everything q < 0 then int ?n else - p_output_everything q else j)"
  define L where "L = map (map_jumps g) (p_insn p)"
  have r: "p_insn r = L @ map (offset_by (int (length L))) (p_insn q)"
    "p_output_everything r = p_output_everything p"
    using assms(2,6)
    by (auto simp: add_or_program_def set_failure_def Let_def g_def L_def j_failure_def cong: if_cong
        split: if_splits)
  have cl: "closed (p_insn p) 0 ?n" using assms(4) by (simp add: closed_forward)
  have n: "0 < ?n" using assms(3) by simp
  have g: "g j = j" if "0 < j" for j using that by (auto simp: g_def j_failure_def)
  have "exec t (p_insn r) 0 = Option.bind (exec t (p_insn p) 0) (\<lambda>e. dest t (p_insn r) (g e))"
    by (rule exec_link [OF cl]) (use assms(1) n g in \<open>auto simp: r L_def nth_append\<close>)
  moreover have "dest t (p_insn r) (g j_failure) = program_exit t q"
    using assms(5) n exec_offset_by [OF assms(1), of "p_insn q" 0 L]
    by (auto simp: g_def program_exit_def dest_def r L_def)
  ultimately show ?thesis
    using assms(2) r(2) exec_defined [OF assms(4) n, of t]
    by (auto simp: program_exit_def g_def)
qed

theorem add_or_program_outcome_witness:
  "let p = \<lparr>p_insn = [new_insn 0 1 1 j_failure 0 False], p_output_everything = - 1,
            p_safe_length = 4, p_align_offset = 0\<rparr>;
       q = \<lparr>p_insn = [new_insn 4 1 1 j_failure (- 1) False], p_output_everything = - 1,
            p_safe_length = 8, p_align_offset = 0\<rparr>
   in program_exit (word_test (\<lambda>a. if a = 0 then 2 else 3)) (the (add_or_program q p)) = Some (- 1)"
proof -
  let ?p = "\<lparr>p_insn = [new_insn 0 1 1 j_failure 0 False], p_output_everything = - 1,
            p_safe_length = 4, p_align_offset = 0\<rparr>"
  let ?q = "\<lparr>p_insn = [new_insn 4 1 1 j_failure (- 1) False], p_output_everything = - 1,
            p_safe_length = 8, p_align_offset = 0\<rparr>"
  let ?t = "word_test (\<lambda>a. if a = 0 then 2 else 3)"
  have r: "add_or_program ?q ?p = Some (the (add_or_program ?q ?p))"
    by (simp add: add_or_program_def set_failure_def j_failure_def)
  have "program_exit ?t (the (add_or_program ?q ?p)) =
    Option.bind (program_exit ?t ?p) (\<lambda>e. if e = j_failure then program_exit ?t ?q else Some e)"
    by (rule add_or_program_outcome [OF _ _ _ _ _ r])
      (simp_all add: forward_def insn_ok_def jump_ok_def new_insn_def)
  then show ?thesis
    by (simp add: program_exit_def exec_step new_insn_def word_test_def)
qed

text \<open>
  \<open>add_or_program\<close> on a program that rejects every packet (its instructions removed by
  \<open>optimize\<close>, \<open>_output_everything\<close> equal to \<open>-j_failure\<close>) does not pass the packets on to
  the second program: the result sends every packet to output 0, whatever the second
  program is. \<open>ninsn()\<close> is 0 there, and \<open>set_failure(0)\<close> means output 0. This is the merge
  that \<open>IPFilter::parse_program\<close> makes: two leading rules that can never match turn a filter
  into one that accepts everything.
\<close>

theorem add_or_program_accepts_everything:
  "p_output_everything p = - j_failure \<Longrightarrow> p_insn p = [] \<Longrightarrow> p_output_everything q < 0 \<Longrightarrow>
     \<exists>r. add_or_program q p = Some r \<and> program_exit t r = Some 0"
  by (simp add: add_or_program_def set_failure_def program_exit_def)

theorem add_or_program_accepts_everything_witness:
  "let p = (new_program 0)\<lparr>p_output_everything := - j_failure\<rparr>;
       q = \<lparr>p_insn = [new_insn 0 0 0 j_never j_never False], p_output_everything = - 1,
            p_safe_length = 0, p_align_offset = 0\<rparr>
   in program_exit (word_test (\<lambda>_. 0)) q = Some j_never
      \<and> (\<exists>r. add_or_program q p = Some r \<and> program_exit (word_test (\<lambda>_. 0)) r = Some 0)"
  unfolding Let_def
proof
  show "program_exit (word_test (\<lambda>_. 0)) \<lparr>p_insn = [new_insn 0 0 0 j_never j_never False], p_output_everything = - 1,
            p_safe_length = 0, p_align_offset = 0\<rparr> = Some j_never"
    by (simp add: program_exit_def exec_step new_insn_def jump_def j_never_def)
qed (rule add_or_program_accepts_everything; simp add: new_program_def)

text \<open>
  Every output that \<open>warn_unused_outputs\<close> complains about is one to which no packet is
  sent, provided the program's \<open>_output_everything\<close> is not out of range.
\<close>

theorem warned_output_unused:
  assumes "forward (p_insn p)" "p_insn p \<noteq> [] \<or> 0 \<le> p_output_everything p"
    and "o1 \<in> set (warn_unused_outputs noutputs p)"
  shows "program_exit t p \<noteq> Some (- int o1)"
proof (cases "0 \<le> p_output_everything p")
  case True
  with assms(3) show ?thesis
    by (auto simp: warn_unused_outputs_def program_exit_def split: if_splits)
next
  case False
  have no: "jump x k \<noteq> - int o1" if "x \<in> set (p_insn p)" for x k
    using assms(3) that False by (auto simp: warn_unused_outputs_def jump_def)
  have "exec t (p_insn p) i \<noteq> Some (- int o1)" if "i < length (p_insn p)" for i
    using assms(1) that
  proof (induction rule: forward_induct)
    case (step i)
    show ?case
      using step no [OF nth_mem [OF step.hyps], of "t (p_insn p ! i)"]
        forward_jump [OF assms(1) step.hyps, of "t (p_insn p ! i)"]
      by (auto simp: exec_step dest_def)
  qed
  with False assms(2) show ?thesis by (simp add: program_exit_def)
qed

theorem warned_output_unused_witness:
  "1 \<in> set (warn_unused_outputs 2 \<lparr>p_insn = [new_insn 0 1 1 j_never 0 False],
       p_output_everything = - 1, p_safe_length = 4, p_align_offset = 0\<rparr>)
   \<and> program_exit (word_test (\<lambda>_. 1)) \<lparr>p_insn = [new_insn 0 1 1 j_never 0 False],
       p_output_everything = - 1, p_safe_length = 4, p_align_offset = 0\<rparr> \<noteq> Some (- int 1)"
proof
  show w: "1 \<in> set (warn_unused_outputs 2 \<lparr>p_insn = [new_insn 0 1 1 j_never 0 False],
       p_output_everything = - 1, p_safe_length = 4, p_align_offset = 0\<rparr>)"
    by (simp add: warn_unused_outputs_def new_insn_def j_never_def)
  show "program_exit (word_test (\<lambda>_. 1)) \<lparr>p_insn = [new_insn 0 1 1 j_never 0 False],
       p_output_everything = - 1, p_safe_length = 4, p_align_offset = 0\<rparr> \<noteq> Some (- int 1)"
    by (rule warned_output_unused [OF _ _ w])
      (simp_all add: forward_def insn_ok_def jump_ok_def new_insn_def j_never_def)
qed

end
