(* ===== verification/Wordwise_Sort.thy ===== *)
theory Wordwise_Sort
  imports Wordwise_Program "HOL-Library.Multiset"
begin

text \<open>
  Sorting of conjunctions (\<open>Program::count_inbranches\<close>, \<open>Program::map_offset\<close>,
  \<open>Program::hard_map_offset\<close> and \<open>Program::bubble_sort_and_exprs\<close> of \<open>classification.cc\<close>).
  Two instructions that test the same conjunction or disjunction are swapped when the
  second has one predecessor only; the jumps of every position stay as they are.
\<close>

section \<open>Operations\<close>

definition offset_max :: int where "offset_max = 0x7FFFFFFF"

definition count_inbranch :: "nat \<Rightarrow> int \<Rightarrow> int list \<Rightarrow> int list" where
  "count_inbranch i j inb =
     (if 0 < j then inb[nat j := (if 0 \<le> inb ! nat j then 0 else int i)] else inb)"

definition count_inbranches :: "insn list \<Rightarrow> int list" where
  "count_inbranches P =
     fold (\<lambda>i inb. count_inbranch i (i_yes (P ! i)) (count_inbranch i (i_no (P ! i)) inb))
       [0..<length P] (replicate (length P) (- 1))"

text \<open>The offset map is an array of pairs: an offset and what it is mapped to.\<close>

function hard_map_offset :: "int \<Rightarrow> (int \<times> int) list \<Rightarrow> int" where
  "hard_map_offset off om =
     (if om = [] then off
      else let mid = length om div 2 in
        if fst (om ! mid) = off then snd (om ! mid)
        else if fst (om ! mid) < off then hard_map_offset off (drop (mid + 1) om)
        else hard_map_offset off [])"
  by auto
termination by (relation "measure (\<lambda>(off, om). length om)") auto

declare hard_map_offset.simps [simp del]

definition map_offset :: "int \<Rightarrow> (int \<times> int) list \<Rightarrow> int" where
  "map_offset off om =
     (if om = [] \<or> off < fst (hd om) \<or> fst (last om) < off then off else hard_map_offset off om)"

definition out_of_order :: "(int \<times> int) list \<Rightarrow> insn \<Rightarrow> insn \<Rightarrow> bool" where
  "out_of_order om e1 e2 =
     (let o1 = map_offset (uint (i_offset e1)) om; o2 = map_offset (uint (i_offset e2)) om in
      o1 > o2 \<or> (o1 = o2 \<and> (ntohl (i_mask e1) > ntohl (i_mask e2)
        \<or> (i_mask e1 = i_mask e2 \<and> ntohl (i_value e1) > ntohl (i_value e2)))))"

text \<open>One turn of the inner loop; \<open>None\<close> when a jump leaves the program.\<close>

definition swap_wanted ::
  "(int \<times> int) list \<Rightarrow> int \<Rightarrow> int list \<Rightarrow> insn list \<Rightarrow> nat \<Rightarrow> bool \<Rightarrow> bool option" where
  "swap_wanted om last_offset inb P i k =
     (let e1 = P ! i; j = jump e1 k in
      if j \<le> 0 \<or> last_offset mod 2 ^ 32 \<le> uint (i_offset e1) then Some False
      else if length P \<le> nat j then None
      else Some (0 < inb ! nat j \<and> jump e1 (\<not> k) = jump (P ! nat j) (\<not> k)
                 \<and> out_of_order om e1 (P ! nat j)))"

definition swap_insns :: "nat \<Rightarrow> bool \<Rightarrow> insn list \<Rightarrow> insn list" where
  "swap_insns i k P =
     (let e1 = P ! i; j = jump e1 k; e2 = P ! nat j in
      P[nat j := set_jump k (jump e2 k) e1, i := set_jump k j e2])"

definition sort_step ::
  "(int \<times> int) list \<Rightarrow> int \<Rightarrow> int list \<Rightarrow> insn list \<Rightarrow> nat \<Rightarrow> (insn list \<times> nat) option" where
  "sort_step om last_offset inb P i =
     (let stepped_back = (if 0 < inb ! i then nat (inb ! i) else i) in
      case swap_wanted om last_offset inb P i False of
        None \<Rightarrow> None
      | Some True \<Rightarrow> Some (swap_insns i False P, stepped_back)
      | Some False \<Rightarrow>
          (case swap_wanted om last_offset inb P i True of
             None \<Rightarrow> None
           | Some True \<Rightarrow> Some (swap_insns i True P, stepped_back)
           | Some False \<Rightarrow> Some (P, i + 1)))"

partial_function (option) sort_loop ::
  "(int \<times> int) list \<Rightarrow> int \<Rightarrow> int list \<Rightarrow> insn list \<Rightarrow> nat \<Rightarrow> insn list option" where
  "sort_loop om last_offset inb P i =
     (if i < length P
      then Option.bind (sort_step om last_offset inb P i)
             (\<lambda>(P', i'). sort_loop om last_offset inb P' i')
      else Some P)"

definition bubble_sort_and_exprs ::
  "(int \<times> int) list \<Rightarrow> int \<Rightarrow> insn list \<Rightarrow> insn list option" where
  "bubble_sort_and_exprs om last_offset P = sort_loop om last_offset (count_inbranches P) P 0"

section \<open>Predecessors\<close>

text \<open>The branches that lead to position \<open>j\<close>.\<close>

definition preds :: "insn list \<Rightarrow> nat \<Rightarrow> (nat \<times> bool) set" where
  "preds P j = {(i, k). i < length P \<and> jump (P ! i) k = int j}"

lemma length_count_inbranch [simp]: "length (count_inbranch i j inb) = length inb"
  by (simp add: count_inbranch_def)

text \<open>
  After the branches in \<open>A\<close> were counted: no branch leads to a position with a negative
  entry, and one only, from that instruction, to a position with a positive entry.
\<close>

definition counted :: "insn list \<Rightarrow> (nat \<times> bool) set \<Rightarrow> int list \<Rightarrow> bool" where
  "counted P A inb \<longleftrightarrow> length inb = length P \<and> (0 < length P \<longrightarrow> inb ! 0 < 0) \<and>
     (\<forall>j < length P. 0 < j \<longrightarrow>
        (inb ! j < 0 \<longrightarrow> preds P j \<inter> A = {}) \<and>
        (0 < inb ! j \<longrightarrow> (\<exists>k. preds P j \<inter> A = {(nat (inb ! j), k)})))"

lemma counted_step:
  assumes "counted P A inb" "i < length P" "(i, k) \<notin> A"
  shows "counted P (insert (i, k) A) (count_inbranch i (jump (P ! i) k) inb)"
proof -
  let ?j = "jump (P ! i) k"
  have pr: "preds P j \<inter> insert (i, k) A = (if ?j = int j then insert (i, k) (preds P j \<inter> A) else preds P j \<inter> A)" for j
    using assms(2) by (auto simp: preds_def)
  show ?thesis
    unfolding counted_def
  proof (intro conjI allI impI)
    show "length (count_inbranch i ?j inb) = length P" using assms(1) by (simp add: counted_def)
    show "count_inbranch i ?j inb ! 0 < 0" if "0 < length P"
      using assms(1) that by (simp add: counted_def count_inbranch_def)
    fix j assume j: "j < length P" "0 < j"
    then have c: "inb ! j < 0 \<Longrightarrow> preds P j \<inter> A = {}"
      "0 < inb ! j \<Longrightarrow> \<exists>k. preds P j \<inter> A = {(nat (inb ! j), k)}"
      using assms(1) by (auto simp: counted_def)
    have n: "count_inbranch i ?j inb ! j = (if ?j = int j then if 0 \<le> inb ! j then 0 else int i else inb ! j)"
      using j assms(1) by (auto simp: count_inbranch_def counted_def nth_list_update)
    show "preds P j \<inter> insert (i, k) A = {}" if "count_inbranch i ?j inb ! j < 0"
      using that c(1) by (simp add: pr n split: if_splits)
    show "\<exists>k'. preds P j \<inter> insert (i, k) A = {(nat (count_inbranch i ?j inb ! j), k')}"
      if "0 < count_inbranch i ?j inb ! j"
      using that c by (auto simp: pr n split: if_splits)
  qed
qed

lemma count_inbranches_counted: "counted P UNIV (count_inbranches P)"
proof -
  let ?f = "\<lambda>i inb. count_inbranch i (i_yes (P ! i)) (count_inbranch i (i_no (P ! i)) inb)"
  have "counted P ({..<n} \<times> UNIV) (fold ?f [0..<n] (replicate (length P) (- 1)))" if "n \<le> length P" for n
    using that
  proof (induction n)
    case 0
    then show ?case by (simp add: counted_def)
  next
    case (Suc n)
    have "{..<Suc n} \<times> UNIV = insert (n, True) (insert (n, False) ({..<n} \<times> (UNIV :: bool set)))"
      by (auto simp: less_Suc_eq)
    moreover have "counted P (insert (n, True) (insert (n, False) ({..<n} \<times> UNIV)))
        (?f n (fold ?f [0..<n] (replicate (length P) (- 1))))"
      using counted_step [OF counted_step [OF Suc.IH, of n False], of n True] Suc.prems by simp
    ultimately show ?case by simp
  qed
  from this [OF order_refl] have "counted P ({..<length P} \<times> UNIV) (count_inbranches P)"
    by (simp add: count_inbranches_def)
  moreover have "preds P j \<inter> {..<length P} \<times> UNIV = preds P j" for j by (auto simp: preds_def)
  ultimately show ?thesis by (simp add: counted_def)
qed

lemma unique_pred:
  assumes "counted P UNIV inb" "j < length P" "0 < j" "0 < inb ! j"
    and "jump (P ! i) k = int j" "i < length P"
  shows "preds P j = {(i, k)}"
proof -
  obtain k' where "preds P j = {(nat (inb ! j), k')}" using assms(1-4) by (auto simp: counted_def)
  moreover have "(i, k) \<in> preds P j" using assms(5,6) by (simp add: preds_def)
  ultimately show ?thesis by simp
qed

section \<open>Swapping keeps the behaviour\<close>

lemma swap_wanted_Some:
  assumes "swap_wanted om last_offset inb P i k = Some True"
  obtains j where "jump (P ! i) k = int j" "0 < j" "j < length P" "0 < inb ! j"
    "jump (P ! i) (\<not> k) = jump (P ! j) (\<not> k)" "out_of_order om (P ! i) (P ! j)"
  using assms by (auto simp: swap_wanted_def Let_def split: if_splits
      intro: that [of "nat (jump (P ! i) k)"])

text \<open>The effect of a swap on positions \<open>i\<close> and \<open>j\<close>: the tests change places, the jumps stay.\<close>

definition same_jumps :: "insn list \<Rightarrow> insn list \<Rightarrow> bool" where
  "same_jumps P Q \<longleftrightarrow> length Q = length P \<and> (\<forall>i < length P. \<forall>k. jump (Q ! i) k = jump (P ! i) k)"

definition with_jumps :: "insn \<Rightarrow> insn \<Rightarrow> insn" where
  "with_jumps x y = x\<lparr>i_no := i_no y, i_yes := i_yes y\<rparr>"

lemma with_jumps_simps [simp]:
  "i_offset (with_jumps x y) = i_offset x" "i_short (with_jumps x y) = i_short x"
  "i_mask (with_jumps x y) = i_mask x" "i_value (with_jumps x y) = i_value x"
  "jump (with_jumps x y) k = jump y k" "jump_blind t \<Longrightarrow> t (with_jumps x y) = t x"
  by (simp_all add: with_jumps_def jump_def jump_blind_def)

lemma insn_eqI:
  "i_offset x = i_offset y \<Longrightarrow> i_short x = i_short y \<Longrightarrow> i_mask x = i_mask y \<Longrightarrow>
     i_value x = i_value y \<Longrightarrow> jump x False = jump y False \<Longrightarrow> jump x True = jump y True \<Longrightarrow> (x::insn) = y"
  by (cases x; cases y) simp

lemma swap_insns_eq:
  assumes "jump (P ! i) k = int j" "jump (P ! i) (\<not> k) = jump (P ! j) (\<not> k)" "i \<noteq> j"
  shows "swap_insns i k P = P[j := with_jumps (P ! i) (P ! j), i := with_jumps (P ! j) (P ! i)]"
proof -
  have "set_jump k (jump (P ! j) k) (P ! i) = with_jumps (P ! i) (P ! j)"
    "set_jump k (int j) (P ! j) = with_jumps (P ! j) (P ! i)"
    using assms by (cases k; auto intro!: insn_eqI simp: set_jump_def with_jumps_def)+
  then show ?thesis using assms(1,3) by (simp add: swap_insns_def Let_def)
qed

lemma nth_list_update_if: "xs[i := x] ! j = (if i = j \<and> j < length xs then x else xs ! j)"
  by (metis list_update_beyond not_le_imp_less nth_list_update_eq nth_list_update_neq)

lemma swap_same_jumps:
  assumes "jump (P ! i) k = int j" "jump (P ! i) (\<not> k) = jump (P ! j) (\<not> k)" "i \<noteq> j"
  shows "same_jumps P (swap_insns i k P)"
  using swap_insns_eq [OF assms] by (auto simp: same_jumps_def nth_list_update_if)

lemma swap_exec:
  assumes "forward P" "jump_blind t" "i < length P" "preds P j = {(i, k)}" "j < length P"
    and "jump (P ! i) (\<not> k) = jump (P ! j) (\<not> k)" "0 < j" "pos < length P" "pos \<noteq> j"
  shows "exec t (swap_insns i k P) pos = exec t P pos"
proof -
  have j: "jump (P ! i) k = int j" using assms(4) by (auto simp: preds_def)
  have into: "q = i \<and> k' = k" if "q < length P" "jump (P ! q) k' = int j" for q k'
    using assms(4) that by (auto simp: preds_def)
  note j0 = assms(7)
  have ij: "i < j" using forward_jump [OF assms(1,3), of k] j j0 by simp
  let ?Q = "swap_insns i k P"
  have Q: "?Q = P[j := with_jumps (P ! i) (P ! j), i := with_jumps (P ! j) (P ! i)]"
    using swap_insns_eq [OF j assms(6)] ij by simp
  have lenQ: "length ?Q = length P" by (simp add: Q)
  show ?thesis
    using assms(8,9)
  proof (induction "length P - pos" arbitrary: pos rule: less_induct)
    case less
    have d: "dest t ?Q (jump (P ! q) k') = dest t P (jump (P ! q) k')"
      if "pos \<le> q" "q < length P" "(q, k') \<noteq> (i, k)" for q k'
    proof (cases "0 < jump (P ! q) k'")
      case True
      let ?e = "nat (jump (P ! q) k')"
      have "q < ?e" "?e < length P" using forward_jump [OF assms(1) that(2) True] by simp_all
      moreover have "?e \<noteq> j" using into [OF that(2), of k'] that(3) True by auto
      ultimately have "exec t ?Q ?e = exec t P ?e" using less.hyps [of ?e] that(1,2) by simp
      with True show ?thesis by (simp add: dest_def)
    qed simp
    show ?case
    proof (cases "pos = i")
      case True
      have ex: "exec t ?Q i = dest t ?Q (jump (P ! i) (t (P ! j)))"
        using assms(2,3) ij by (subst exec_step) (simp_all add: Q)
      have ej: "exec t ?Q j = dest t ?Q (jump (P ! j) (t (P ! i)))"
        using assms(2,5) ij by (subst exec_step) (simp_all add: Q)
      have "dest t ?Q (jump (P ! j) k') = dest t P (jump (P ! j) k')" for k'
        using d [of j k'] ij assms(5) True by simp
      moreover have "dest t ?Q (jump (P ! i) (\<not> k)) = dest t P (jump (P ! i) (\<not> k))"
        using d [of i "\<not> k"] assms(3) True by simp
      moreover have "dest t ?Q (int j) = exec t ?Q j" "dest t P (int j) = exec t P j"
        using j0 by (simp_all add: dest_def)
      ultimately show ?thesis
        using ex ej j assms(3,5,6) True
        by (cases "t (P ! i) = k"; cases "t (P ! j) = k") (simp_all add: exec_step)
    next
      case False
      then have "?Q ! pos = P ! pos" using less.prems by (simp add: Q)
      then show ?thesis using less.prems lenQ d [of pos "t (P ! pos)"] False by (simp add: exec_step)
    qed
  qed
qed

section \<open>The sort ends\<close>

lemma ntohl_less: "ntohl u < 2 ^ 32"
proof -
  have "unat (wbyte u i) \<le> 255" for i using unsigned_less [of "wbyte u i", where ?'a = nat] by simp
  from this [of 0] this [of 1] this [of 2] this [of 3] show ?thesis by (simp add: ntohl_def)
qed

lemma hard_map_offset_Nil [simp]: "hard_map_offset off [] = off"
  by (subst hard_map_offset.simps) simp

lemma hard_map_offset_step:
  "om \<noteq> [] \<Longrightarrow> hard_map_offset off om =
     (if fst (om ! (length om div 2)) = off then snd (om ! (length om div 2))
      else if fst (om ! (length om div 2)) < off then hard_map_offset off (drop (length om div 2 + 1) om)
      else off)"
  by (subst hard_map_offset.simps) (simp add: Let_def)

lemma hard_map_offset_cases: "hard_map_offset off om = off \<or> hard_map_offset off om \<in> snd ` set om"
proof (induction "length om" arbitrary: om rule: less_induct)
  case less
  let ?mid = "length om div 2"
  show ?case
  proof (cases "om = []")
    case False
    then have "?mid < length om" by simp
    moreover have "set (drop (?mid + 1) om) \<subseteq> set om" by (rule set_drop_subset)
    ultimately show ?thesis
      using less [of "drop (?mid + 1) om"] False by (auto simp: hard_map_offset_step)
  qed simp
qed

text \<open>The order of the instructions as a number, to bound how often they can be swapped.\<close>

definition sort_bound :: "(int \<times> int) list \<Rightarrow> int" where
  "sort_bound om = sum_list (map (\<lambda>p. \<bar>snd p\<bar>) om)"

definition order_key :: "(int \<times> int) list \<Rightarrow> insn \<Rightarrow> nat" where
  "order_key om x = (nat (map_offset (uint (i_offset x)) om + sort_bound om) * 2 ^ 32 + ntohl (i_mask x)) * 2 ^ 32
     + ntohl (i_value x)"

lemma order_key_with_jumps [simp]: "order_key om (with_jumps x y) = order_key om x"
  by (simp add: order_key_def)

lemma map_offset_bound: "0 \<le> map_offset (uint (off :: u16)) om + sort_bound om"
proof -
  have b: "\<bar>snd p\<bar> \<le> sort_bound om" if "p \<in> set om" for p
    unfolding sort_bound_def by (rule member_le_sum_list) (use that in auto)
  have "0 \<le> sort_bound om" by (auto simp: sort_bound_def intro!: sum_list_nonneg)
  moreover have "map_offset (uint off) om = uint off \<or> map_offset (uint off) om \<in> snd ` set om"
    using hard_map_offset_cases by (auto simp: map_offset_def)
  ultimately show ?thesis using b by fastforce
qed

lemma pair_less:
  assumes "a < b \<or> (a = b \<and> x < y)" "x < m"
  shows "a * m + x < b * m + (y :: nat)"
proof (cases "a = b")
  case False
  then have "Suc a * m \<le> b * m" using assms(1) by (intro mult_right_mono) auto
  with assms(2) show ?thesis by simp
qed (use assms(1) in simp)

lemma out_of_order_key:
  assumes "out_of_order om e1 e2" shows "order_key om e2 < order_key om e1"
proof -
  let ?n = "\<lambda>e. nat (map_offset (uint (i_offset e)) om + sort_bound om)"
  have "?n e2 < ?n e1 \<or> (?n e2 = ?n e1 \<and> (ntohl (i_mask e2) < ntohl (i_mask e1)
      \<or> (ntohl (i_mask e2) = ntohl (i_mask e1) \<and> ntohl (i_value e2) < ntohl (i_value e1))))"
    using assms map_offset_bound [of "i_offset e1" om] map_offset_bound [of "i_offset e2" om]
    by (auto simp: out_of_order_def Let_def)
  then show ?thesis
    unfolding order_key_def using pair_less [OF _ ntohl_less]
    by (metis (no_types, lifting))
qed

definition sort_potential :: "(int \<times> int) list \<Rightarrow> insn list \<Rightarrow> nat" where
  "sort_potential om P = (\<Sum>i < length P. (length P - i) * order_key om (P ! i))"

lemma swap_products:
  assumes "a < b" "c < (d :: nat)"
  shows "b * c + a * d < b * d + a * c"
proof -
  obtain e where e: "b = a + e" "0 < e" using assms(1) by (metis less_imp_add_positive)
  obtain g where g: "d = c + g" "0 < g" using assms(2) by (metis less_imp_add_positive)
  show ?thesis using e g by (simp add: algebra_simps)
qed

lemma swap_potential:
  assumes "i < j" "j < length P" "order_key om (P ! j) < order_key om (P ! i)"
    and "Q = P[j := with_jumps (P ! i) (P ! j), i := with_jumps (P ! j) (P ! i)]"
  shows "sort_potential om Q < sort_potential om P"
proof -
  let ?n = "length P"
  let ?f = "\<lambda>R x. (?n - x) * order_key om (R ! x)"
  have len: "length Q = ?n" using assms(4) by simp
  have split: "(\<Sum>x<?n. ?f R x) = ?f R i + ?f R j + (\<Sum>x\<in>{..<?n} - {i, j}. ?f R x)" for R
    using assms(1,2) by (subst sum.subset_diff [of "{i, j}"]) auto
  have "(\<Sum>x\<in>{..<?n} - {i, j}. ?f Q x) = (\<Sum>x\<in>{..<?n} - {i, j}. ?f P x)"
    by (rule sum.cong) (auto simp: assms(4))
  moreover have "Q ! i = with_jumps (P ! j) (P ! i)" "Q ! j = with_jumps (P ! i) (P ! j)"
    using assms(1,2,4) by auto
  moreover have "(?n - i) * order_key om (P ! j) + (?n - j) * order_key om (P ! i)
      < (?n - i) * order_key om (P ! i) + (?n - j) * order_key om (P ! j)"
    using swap_products [of "?n - j" "?n - i"] assms(1-3) by simp
  ultimately show ?thesis
    by (simp add: sort_potential_def len split)
qed

text \<open>Up to position \<open>i\<close> no two instructions are left to swap.\<close>

definition settled :: "(int \<times> int) list \<Rightarrow> int \<Rightarrow> int list \<Rightarrow> insn list \<Rightarrow> nat \<Rightarrow> bool" where
  "settled om last_offset inb P i \<longleftrightarrow>
     (\<forall>i' < i. \<forall>k. swap_wanted om last_offset inb P i' k = Some False)"

lemma swap_wanted_defined:
  assumes "forward P" "i < length P"
  shows "\<exists>b. swap_wanted om last_offset inb P i k = Some b"
  using forward_jump [OF assms, of k]
  by (cases "0 < jump (P ! i) k") (auto simp: swap_wanted_def Let_def)

lemma sort_step_cases:
  assumes "forward P" "i < length P"
  obtains (swap) k where "swap_wanted om last_offset inb P i k = Some True"
      "sort_step om last_offset inb P i =
         Some (swap_insns i k P, if 0 < inb ! i then nat (inb ! i) else i)"
    | (advance) "settled om last_offset inb P i \<longrightarrow> settled om last_offset inb P (i + 1)"
      "sort_step om last_offset inb P i = Some (P, i + 1)"
proof -
  obtain b c where bc: "swap_wanted om last_offset inb P i False = Some b"
    "swap_wanted om last_offset inb P i True = Some c"
    using swap_wanted_defined [OF assms] by blast
  have "settled om last_offset inb P i \<longrightarrow> settled om last_offset inb P (i + 1)" if "\<not> b" "\<not> c"
    using bc that by (auto simp: settled_def less_Suc_eq) (metis (full_types))
  with bc swap [of False] swap [of True] advance show ?thesis
    by (cases b; cases c) (auto simp: sort_step_def Let_def)
qed

lemma counted_same_jumps:
  assumes "counted P UNIV inb" "same_jumps P Q" shows "counted Q UNIV inb"
proof -
  have "preds Q j = preds P j" for j using assms(2) by (auto simp: preds_def same_jumps_def)
  with assms show ?thesis by (simp add: counted_def same_jumps_def)
qed

lemma forward_same_jumps: "forward P \<Longrightarrow> same_jumps P Q \<Longrightarrow> forward Q"
  unfolding forward_def same_jumps_def by (metis insn_okI insn_ok_jump)

lemma same_jumps_trans: "same_jumps P Q \<Longrightarrow> same_jumps Q R \<Longrightarrow> same_jumps P R"
  by (simp add: same_jumps_def)

text \<open>The test an instruction makes, without its jumps.\<close>

definition test_of :: "insn \<Rightarrow> u16 \<times> bool \<times> u32 \<times> u32" where
  "test_of x = (i_offset x, i_short x, i_mask x, i_value x)"

lemma swap_step:
  assumes "forward P" "counted P UNIV inb" "i < length P"
    and "swap_wanted om last_offset inb P i k = Some True" "settled om last_offset inb P i"
  defines "Q \<equiv> swap_insns i k P"
  shows "same_jumps P Q" "sort_potential om Q < sort_potential om P"
    "settled om last_offset inb Q (if 0 < inb ! i then nat (inb ! i) else i)"
    "mset (map test_of Q) = mset (map test_of P)"
    "jump_blind t \<Longrightarrow> exec t Q 0 = exec t P 0"
proof -
  obtain j where j: "jump (P ! i) k = int j" "0 < j" "j < length P" "0 < inb ! j"
    "jump (P ! i) (\<not> k) = jump (P ! j) (\<not> k)" "out_of_order om (P ! i) (P ! j)"
    by (rule swap_wanted_Some [OF assms(4)])
  have ij: "i < j" using forward_jump [OF assms(1,3), of k] j(1,2) by simp
  have pr: "preds P j = {(i, k)}" by (rule unique_pred [OF assms(2) j(3,2,4,1) assms(3)])
  have Q: "Q = P[j := with_jumps (P ! i) (P ! j), i := with_jumps (P ! j) (P ! i)]"
    unfolding Q_def by (rule swap_insns_eq [OF j(1,5)]) (use ij in simp)
  show sj: "same_jumps P Q" unfolding Q_def by (rule swap_same_jumps [OF j(1,5)]) (use ij in simp)
  show "sort_potential om Q < sort_potential om P"
    by (rule swap_potential [OF ij j(3) out_of_order_key [OF j(6)] Q])
  show "exec t Q 0 = exec t P 0" if "jump_blind t"
    unfolding Q_def using swap_exec [OF assms(1) that assms(3) pr j(3,5,2), of 0] j(2,3) by force
  have "map test_of Q = (map test_of P)[j := test_of (P ! i), i := test_of (P ! j)]"
    by (simp add: Q map_update test_of_def)
  also have "mset \<dots> = mset (map test_of P)"
    using mset_swap [of i "map test_of P" j] assms(3) j(3) ij by simp
  finally show "mset (map test_of Q) = mset (map test_of P)" .
  show "settled om last_offset inb Q (if 0 < inb ! i then nat (inb ! i) else i)"
    unfolding settled_def
  proof (intro allI impI)
    fix i' k' assume i': "i' < (if 0 < inb ! i then nat (inb ! i) else i)"
    have bk: "nat (inb ! i) < i \<and> (\<exists>k. preds P i = {(nat (inb ! i), k)})" if "0 < inb ! i"
    proof -
      have "0 < i" using assms(2,3) that by (cases i) (auto simp: counted_def)
      with assms(2,3) that obtain k1 where k1: "preds P i = {(nat (inb ! i), k1)}"
        by (auto simp: counted_def)
      then have "(nat (inb ! i), k1) \<in> preds P i" by simp
      then have "nat (inb ! i) < length P" "jump (P ! nat (inb ! i)) k1 = int i" by (auto simp: preds_def)
      with forward_jump [OF assms(1) this(1), of k1] k1 \<open>0 < i\<close> show ?thesis by auto
    qed
    have i'i: "i' < i" using i' bk by (auto split: if_splits)
    then have old: "swap_wanted om last_offset inb P i' k' = Some False" using assms(5) by (simp add: settled_def)
    have e: "Q ! i' = P ! i'" "length Q = length P" using i'i ij by (simp_all add: Q)
    define j' where "j' = nat (jump (P ! i') k')"
    consider "jump (P ! i') k' \<le> 0" | "length P \<le> j'" | "0 < jump (P ! i') k'" "j' < length P" "j' = i"
      | "0 < jump (P ! i') k'" "j' < length P" "j' \<noteq> i" by linarith
    then show "swap_wanted om last_offset inb Q i' k' = Some False"
    proof cases
      case 3
      then have "(i', k') \<in> preds P i" using i'i assms(3) by (auto simp: preds_def j'_def)
      then have "inb ! i \<le> 0" using bk i' by (force split: if_splits)
      with 3 old show ?thesis by (auto simp: swap_wanted_def Let_def e j'_def)
    next
      case 4
      have "(i', k') \<notin> preds P j" using pr i'i by auto
      then have "j' \<noteq> j" using 4 i'i assms(3) by (auto simp: preds_def j'_def)
      then have "Q ! j' = P ! j'" using 4 by (simp add: Q)
      then have "swap_wanted om last_offset inb Q i' k' = swap_wanted om last_offset inb P i' k'"
        by (simp add: swap_wanted_def Let_def e j'_def)
      with old show ?thesis by simp
    qed (use old in \<open>auto simp: swap_wanted_def Let_def e j'_def split: if_splits\<close>)
  qed
qed

lemma sort_loop_correct:
  assumes "forward P" "counted P UNIV inb" "settled om last_offset inb P i"
  shows "\<exists>Q. sort_loop om last_offset inb P i = Some Q \<and> same_jumps P Q
    \<and> settled om last_offset inb Q (length Q) \<and> mset (map test_of Q) = mset (map test_of P)
    \<and> (\<forall>t. jump_blind t \<longrightarrow> exec t Q 0 = exec t P 0)"
  using assms
proof (induction "(P, i)" arbitrary: P i
    rule: wf_induct [OF wf_measures [of "[\<lambda>(P, i). sort_potential om P, \<lambda>(P, i). length P - i]"]])
  case (1 P i)
  show ?case
  proof (cases "i < length P")
    case False
    with 1(4) show ?thesis
      by (subst sort_loop.simps) (auto simp: same_jumps_def settled_def)
  next
    case True
    show ?thesis
    proof (cases rule: sort_step_cases [OF 1(2) True, of om last_offset inb, case_names swap advance])
      case (swap k)
      let ?Q = "swap_insns i k P" and ?i = "if 0 < inb ! i then nat (inb ! i) else i"
      note s = swap_step [OF 1(2,3) True swap(1) 1(4)]
      have "\<exists>R. sort_loop om last_offset inb ?Q ?i = Some R \<and> same_jumps ?Q R
        \<and> settled om last_offset inb R (length R) \<and> mset (map test_of R) = mset (map test_of ?Q)
        \<and> (\<forall>t. jump_blind t \<longrightarrow> exec t R 0 = exec t ?Q 0)"
        by (rule 1(1) [rule_format])
          (use s(1,2,3) 1(2,3) in \<open>auto intro: forward_same_jumps counted_same_jumps\<close>)
      then show ?thesis
        using True swap(2) s(1,4,5) same_jumps_trans [OF s(1)]
        by (subst sort_loop.simps) auto
    next
      case advance
      have "\<exists>R. sort_loop om last_offset inb P (i + 1) = Some R \<and> same_jumps P R
        \<and> settled om last_offset inb R (length R) \<and> mset (map test_of R) = mset (map test_of P)
        \<and> (\<forall>t. jump_blind t \<longrightarrow> exec t R 0 = exec t P 0)"
        by (rule 1(1) [rule_format]) (use True 1(2-4) advance in auto)
      then show ?thesis
        using True advance by (subst sort_loop.simps) simp
    qed
  qed
qed

lemma bubble_sort_correct:
  assumes "forward P"
  obtains Q where "bubble_sort_and_exprs om last_offset P = Some Q" "same_jumps P Q"
    "settled om last_offset (count_inbranches Q) Q (length Q)"
    "mset (map test_of Q) = mset (map test_of P)"
    "\<And>t. jump_blind t \<Longrightarrow> exec t Q 0 = exec t P 0"
proof -
  have "settled om last_offset (count_inbranches P) P 0" by (simp add: settled_def)
  from sort_loop_correct [OF assms count_inbranches_counted this]
  obtain Q where Q: "bubble_sort_and_exprs om last_offset P = Some Q" "same_jumps P Q"
    "settled om last_offset (count_inbranches P) Q (length Q)"
    "mset (map test_of Q) = mset (map test_of P)"
    "\<And>t. jump_blind t \<Longrightarrow> exec t Q 0 = exec t P 0"
    unfolding bubble_sort_and_exprs_def by blast
  have "i_yes (Q ! i) = i_yes (P ! i)" "i_no (Q ! i) = i_no (P ! i)" if "i < length P" for i
    using Q(2) that unfolding same_jumps_def by (metis jump_simps)+
  then have "count_inbranches Q = count_inbranches P"
    using Q(2) unfolding count_inbranches_def same_jumps_def by (auto intro!: fold_cong)
  with Q that show ?thesis by metis
qed

section \<open>Properties\<close>

text \<open>
  C28: \<open>bubble_sort_and_exprs\<close> ends on every program with forward jumps. The program it
  leaves makes the same tests and has the same jumps at every position, it sends every
  packet, short ones included, where the original program sends it, and nowhere are two
  instructions left that the sort would still swap.
\<close>

theorem bubble_sort_correctness:
  assumes "forward P"
  shows "\<exists>Q. bubble_sort_and_exprs om last_offset P = Some Q \<and> forward Q
    \<and> length Q = length P \<and> mset (map test_of Q) = mset (map test_of P)
    \<and> (\<forall>v al. exec (checked_test v al) Q 0 = exec (checked_test v al) P 0)
    \<and> (\<forall>v al. exec (fast_test v al) Q 0 = exec (fast_test v al) P 0)
    \<and> (\<forall>i < length Q. \<forall>k. swap_wanted om last_offset (count_inbranches Q) Q i k = Some False)"
  using assms
proof (rule bubble_sort_correct [of P om last_offset])
  fix Q assume Q: "bubble_sort_and_exprs om last_offset P = Some Q" "same_jumps P Q"
    "settled om last_offset (count_inbranches Q) Q (length Q)"
    "mset (map test_of Q) = mset (map test_of P)"
    "\<And>t. jump_blind t \<Longrightarrow> exec t Q 0 = exec t P 0"
  have "forward Q" by (rule forward_same_jumps [OF assms Q(2)])
  moreover have "length Q = length P" using Q(2) by (simp add: same_jumps_def)
  ultimately show ?thesis using Q by (simp add: settled_def)
qed

theorem bubble_sort_correctness_witness:
  "let P = [new_insn 8 1 1 j_failure 1 False, new_insn 4 1 1 j_failure 2 False,
            new_insn 0 1 1 j_failure 0 False]
   in \<exists>Q. bubble_sort_and_exprs [] offset_max P = Some Q
      \<and> exec (fast_test \<lparr>v_mem = (\<lambda>_. 1), v_length = 12\<rparr> 0) Q 0
        = exec (fast_test \<lparr>v_mem = (\<lambda>_. 1), v_length = 12\<rparr> 0) P 0"
proof -
  have "forward [new_insn 8 1 1 j_failure 1 False, new_insn 4 1 1 j_failure 2 False,
            new_insn 0 1 1 j_failure 0 False]"
    by (simp add: forward_def insn_ok_def jump_ok_def new_insn_def less_Suc_eq)
  from bubble_sort_correctness [OF this, of "[]" offset_max] show ?thesis unfolding Let_def by blast
qed

text \<open>
  The offset map of \<open>bubble_sort_and_exprs\<close> is an array of pairs sorted by offset.
  \<open>hard_map_offset\<close> finds an entry in the middle or in the upper half of the part it still
  searches; for every offset below the middle entry it gives up (\<open>end = begin\<close> where the
  lower half is \<open>end = mid\<close>) and returns the offset unmapped.
\<close>

theorem map_offset_loses_lower_half:
  assumes "off < fst (om ! (length om div 2))"
  shows "map_offset off om = off"
  using assms by (cases "om = []") (simp_all add: map_offset_def hard_map_offset_step)

theorem map_offset_loses_lower_half_witness:
  "map_offset 1 [(1, 11), (2, 12), (3, 13)] = 1 \<and> (1, 11) \<in> set [(1, 11), (2, 12), (3, 13 :: int)]"
  using map_offset_loses_lower_half [of 1 "[(1, 11), (2, 12), (3, 13)]"] by simp

end
