(* ===== verification/Wordwise_Combine.thy ===== *)
theory Wordwise_Combine
  imports Wordwise_Sort
begin

text \<open>
  Local optimisations of classifier programs (\<open>Program::combine_compatible_states\<close> of
  \<open>classification.cc\<close>): pairs of tests on one word are merged into one test. \<open>None\<close> stands
  for a jump that leaves the program.
\<close>

section \<open>Operations\<close>

text \<open>The first half of the loop body: the instruction on the \<open>no\<close> branch.\<close>

datatype no_step = Unchanged | Flipped insn | Generalized insn

definition combine_no :: "insn \<Rightarrow> insn \<Rightarrow> no_step" where
  "combine_no x no_x =
     (if compatible no_x x False \<and> flippable x then Flipped (flip x)
      else if generalizable_or_pair x no_x then
        (let the_bit = i_value x XOR i_value no_x in
         Generalized (x\<lparr>i_value := i_value x AND NOT the_bit, i_mask := i_mask x AND NOT the_bit,
                        i_no := i_no no_x\<rparr>))
      else Unchanged)"

text \<open>The second half: the instruction on the \<open>yes\<close> branch, flipped first when that helps.\<close>

definition flip_yes :: "insn \<Rightarrow> insn \<Rightarrow> insn" where
  "flip_yes x yes_x = (if i_no x = i_yes yes_x \<and> flippable yes_x then flip yes_x else yes_x)"

definition merge_yes :: "insn \<Rightarrow> insn \<Rightarrow> insn option" where
  "merge_yes x yes_x =
     (if i_no x = i_no yes_x \<and> compatible yes_x x True then
        Some (x\<lparr>i_yes := i_yes yes_x,
                i_offset := (if i_mask x = 0 then i_offset yes_x else i_offset x),
                i_value := (i_value x AND i_mask x) OR (i_value yes_x AND i_mask yes_x),
                i_mask := i_mask x OR i_mask yes_x\<rparr>)
      else None)"

text \<open>
  One turn of the loop. The flag says whether the loop stays at this instruction
  (\<open>++i\<close> before the \<open>--i\<close> of the loop).
\<close>

definition combine_yes :: "insn list \<Rightarrow> nat \<Rightarrow> (insn list \<times> bool) option" where
  "combine_yes P i =
     (let x = P ! i in
      if i_yes x \<le> 0 then Some (P, False)
      else if length P \<le> nat (i_yes x) then None
      else let y = flip_yes x (P ! nat (i_yes x)); P' = P[nat (i_yes x) := y] in
        case merge_yes x y of
          None \<Rightarrow> Some (P', False)
        | Some z \<Rightarrow> Some (P'[i := z], True))"

definition combine_step :: "insn list \<Rightarrow> nat \<Rightarrow> (insn list \<times> bool) option" where
  "combine_step P i =
     (let x = P ! i in
      if i_no x \<le> 0 then combine_yes P i
      else if length P \<le> nat (i_no x) then None
      else case combine_no x (P ! nat (i_no x)) of
             Unchanged \<Rightarrow> combine_yes P i
           | Flipped z \<Rightarrow> combine_yes (P[i := z]) i
           | Generalized z \<Rightarrow> Some (P[i := z], True))"

partial_function (option) combine_loop :: "insn list \<Rightarrow> int \<Rightarrow> insn list option" where
  "combine_loop P i =
     (if i < 0 then Some P
      else Option.bind (combine_step P (nat i))
             (\<lambda>(P', stay). combine_loop P' (if stay then i else i - 1)))"

definition combine_compatible_states :: "insn list \<Rightarrow> insn list option" where
  "combine_compatible_states P = combine_loop P (int (length P) - 1)"

section \<open>Each rewriting keeps the behaviour\<close>

text \<open>
  The steps are rewritings: from a program whose values are masked and whose jumps go
  forward to one like it, with the same run from every position for every packet that has
  the words the tests read.
\<close>

definition equiv_on_words :: "insn list \<Rightarrow> insn list \<Rightarrow> bool" where
  "equiv_on_words P Q \<longleftrightarrow> length Q = length P \<and> (forward P \<longrightarrow> all_masked P \<longrightarrow>
     forward Q \<and> all_masked Q \<and>
     (\<forall>W pos. pos < length P \<longrightarrow> exec (word_test W) Q pos = exec (word_test W) P pos))"

lemma equiv_refl [simp, intro!]: "equiv_on_words P P"
  by (simp add: equiv_on_words_def)

lemma equiv_trans [trans]: "equiv_on_words P Q \<Longrightarrow> equiv_on_words Q R \<Longrightarrow> equiv_on_words P R"
  by (simp add: equiv_on_words_def)

lemma equiv_replace:
  assumes "i < length P"
    and "forward P \<Longrightarrow> all_masked P \<Longrightarrow> insn_ok (length P) i x \<and> value_masked x"
    and "\<And>W. forward P \<Longrightarrow> all_masked P \<Longrightarrow>
      dest (word_test W) P (jump x (word_test W x))
        = dest (word_test W) P (jump (P ! i) (word_test W (P ! i)))"
  shows "equiv_on_words P (P[i := x])"
  unfolding equiv_on_words_def
proof (intro conjI impI allI)
  assume "forward P" "all_masked P"
  then show "forward (P[i := x])" "all_masked (P[i := x])"
    using assms(2) forward_update all_masked_update by blast+
next
  fix W pos assume "forward P" "all_masked P" "pos < length P"
  then show "exec (word_test W) (P[i := x]) pos = exec (word_test W) P pos"
    using assms exec_replace by blast
qed simp

lemma insn_ok_flip [simp]: "insn_ok n i (flip x) = insn_ok n i x"
  by (auto simp: insn_ok_def)

lemma flip_equiv:
  assumes "i < length P" "flippable (P ! i)"
  shows "equiv_on_words P (P[i := flip (P ! i)])"
proof (rule equiv_replace [OF assms(1)])
  assume P: "forward P" "all_masked P"
  note m = all_masked_nth [OF P(2) assms(1)]
  show "insn_ok (length P) i (flip (P ! i)) \<and> value_masked (flip (P ! i))"
    using forward_insn_ok [OF P(1) assms(1)] value_masked_flip [OF m] by simp
  show "dest (word_test W) P (jump (flip (P ! i)) (word_test W (flip (P ! i)))) =
      dest (word_test W) P (jump (P ! i) (word_test W (P ! i)))" for W
    using word_test_flip [OF assms(2) m] by simp
qed

lemma dest_exec: "0 < j \<Longrightarrow> nat j < length P \<Longrightarrow>
    dest t P j = dest t P (jump (P ! nat j) (t (P ! nat j)))"
  by (simp add: dest_def [of t P j] exec_step)

lemma generalize_equiv:
  assumes "i < length P" "0 < i_no (P ! i)" "nat (i_no (P ! i)) < length P"
    and "combine_no (P ! i) (P ! nat (i_no (P ! i))) = Generalized z"
  shows "equiv_on_words P (P[i := z])"
proof (rule equiv_replace [OF assms(1)])
  assume P: "forward P" "all_masked P"
  let ?x = "P ! i" and ?y = "P ! nat (i_no (P ! i))"
  let ?d = "i_value ?x XOR i_value ?y"
  note m = all_masked_nth [OF P(2) assms(1)] all_masked_nth [OF P(2) assms(3)]
  have g: "i_offset ?y = i_offset ?x" "i_mask ?y = i_mask ?x" "i_yes ?x = i_yes ?y" "single_bit ?d"
    and z: "z = ?x\<lparr>i_value := i_value ?x AND NOT ?d, i_mask := i_mask ?x AND NOT ?d, i_no := i_no ?y\<rparr>"
    using assms(4) by (auto simp: combine_no_def generalizable_or_pair_def Let_def split: if_splits)
  have "insn_ok (length P) (nat (i_no ?x)) ?y" by (rule forward_insn_ok [OF P(1) assms(3)])
  moreover have "i < nat (i_no ?x)" using forward_jump [OF P(1) assms(1), of False] assms(2) by simp
  ultimately have "jump_ok (length P) i (i_no ?y)"
    by (meson insn_ok_def jump_ok_mono less_imp_le)
  then show "insn_ok (length P) i z \<and> value_masked z"
    using forward_insn_ok [OF P(1) assms(1)] m(1)
    by (simp add: z insn_ok_def value_masked_def) (simp add: bit_eq_iff bit_simps, blast)
  show "dest (word_test W) P (jump z (word_test W z)) = dest (word_test W) P (jump ?x (word_test W ?x))" for W
  proof -
    have "word_test W z \<longleftrightarrow> word_test W ?x \<or> word_test W ?y"
      using and_or_generalize [of "i_value ?x" "i_mask ?x" "i_value ?y" "W (i_offset ?x)"] m g
      by (simp add: z word_test_def value_masked_def)
    moreover have "jump z True = i_yes ?x" "jump z False = i_no ?y" by (simp_all add: z)
    ultimately show ?thesis
      using dest_exec [OF assms(2,3), of "word_test W"] g(3)
      by (cases "word_test W ?x"; cases "word_test W ?y") simp_all
  qed
qed

lemma merge_equiv:
  assumes "i < length P" "0 < i_yes (P ! i)" "nat (i_yes (P ! i)) < length P"
    and "merge_yes (P ! i) (P ! nat (i_yes (P ! i))) = Some z"
  shows "equiv_on_words P (P[i := z])"
proof (rule equiv_replace [OF assms(1)])
  assume P: "forward P" "all_masked P"
  let ?x = "P ! i" and ?y = "P ! nat (i_yes (P ! i))"
  note m = all_masked_nth [OF P(2) assms(1)] all_masked_nth [OF P(2) assms(3)]
  note m' = m [unfolded value_masked_def]
  have g: "i_no ?x = i_no ?y" "compatible ?y ?x True"
    and z: "z = ?x\<lparr>i_yes := i_yes ?y, i_offset := (if i_mask ?x = 0 then i_offset ?y else i_offset ?x),
        i_value := i_value ?x OR i_value ?y, i_mask := i_mask ?x OR i_mask ?y\<rparr>"
    using assms(4) m' by (auto simp: merge_yes_def split: if_splits)
  have "insn_ok (length P) (nat (i_yes ?x)) ?y" by (rule forward_insn_ok [OF P(1) assms(3)])
  moreover have "i < nat (i_yes ?x)" using forward_jump [OF P(1) assms(1), of True] assms(2) by simp
  ultimately have "jump_ok (length P) i (i_yes ?y)"
    by (meson insn_ok_def jump_ok_mono less_imp_le)
  moreover have "value_masked z"
    using m' by (simp add: z value_masked_def) (simp add: bit_eq_iff bit_simps, blast)
  ultimately show "insn_ok (length P) i z \<and> value_masked z"
    using forward_insn_ok [OF P(1) assms(1)] by (simp add: z insn_ok_def)
  show "dest (word_test W) P (jump z (word_test W z)) = dest (word_test W) P (jump ?x (word_test W ?x))" for W
  proof -
    have "word_test W z \<longleftrightarrow> word_test W ?x \<and> word_test W ?y"
    proof (cases "i_mask ?x = 0 \<or> i_mask ?y = 0")
      case True
      then show ?thesis
        using word_test_zero [OF _ m(1), of W] word_test_zero [OF _ m(2), of W] m'
        by (auto simp: z word_test_def)
    next
      case False
      then have "i_offset ?x = i_offset ?y"
        "i_value ?y AND (i_mask ?y AND i_mask ?x) = i_value ?x AND (i_mask ?y AND i_mask ?x)"
        using g(2) by (auto simp: compatible_def Let_def split: if_splits)
      with False and_or_merge [OF m' this(2), of "W (i_offset ?x)"] show ?thesis
        by (simp add: z word_test_def)
    qed
    moreover have "jump z True = i_yes ?y" "jump z False = i_no ?x" by (simp_all add: z)
    ultimately show ?thesis
      using dest_exec [OF assms(2,3), of "word_test W"] g(1)
      by (cases "word_test W ?x"; cases "word_test W ?y") simp_all
  qed
qed

section \<open>The loop ends and keeps the behaviour\<close>

definition jump_rank :: "nat \<Rightarrow> int \<Rightarrow> nat" where
  "jump_rank n j = (if 0 < j then nat (int n - j) else 0)"

definition insn_rank :: "nat \<Rightarrow> insn \<Rightarrow> nat" where
  "insn_rank n x = jump_rank n (i_no x) + jump_rank n (i_yes x)"

lemma jump_rank_less:
  "0 < j \<Longrightarrow> nat j < n \<Longrightarrow> jump_ok n (nat j) j' \<Longrightarrow> jump_rank n j' < jump_rank n j"
  by (auto simp: jump_rank_def jump_ok_def)

lemma insn_rank_flip [simp]: "insn_rank n (flip x) = insn_rank n x"
  by (simp add: insn_rank_def)

lemma flip_yes_equiv:
  assumes "j < length P" shows "equiv_on_words P (P[j := flip_yes x (P ! j)])"
  using flip_equiv [OF assms] by (simp add: flip_yes_def)

lemma combine_yes_correct:
  assumes "forward P" "i < length P"
  obtains Q stay where "combine_yes P i = Some (Q, stay)" "equiv_on_words P Q"
    "stay \<longrightarrow> insn_rank (length P) (Q ! i) < insn_rank (length P) (P ! i)"
proof (cases "0 < i_yes (P ! i)")
  case False
  then have "combine_yes P i = Some (P, False)" by (simp add: combine_yes_def Let_def)
  then show ?thesis by (rule that) simp_all
next
  case True
  let ?x = "P ! i" and ?j = "nat (i_yes (P ! i))"
  have j: "i < ?j" "?j < length P" using forward_jump [OF assms, of True] True by simp_all
  let ?y = "flip_yes ?x (P ! ?j)"
  let ?P = "P[?j := ?y]"
  have e: "equiv_on_words P ?P" by (rule flip_yes_equiv [OF j(2)])
  have nth: "?P ! i = ?x" "?P ! ?j = ?y" using j by simp_all
  show ?thesis
  proof (cases "merge_yes ?x ?y")
    case None
    then have "combine_yes P i = Some (?P, False)"
      using True j by (simp add: combine_yes_def Let_def)
    then show ?thesis by (rule that) (simp_all add: e)
  next
    case (Some z)
    then have c: "combine_yes P i = Some (?P[i := z], True)"
      using True j by (simp add: combine_yes_def Let_def)
    have "equiv_on_words ?P (?P[i := z])"
      by (rule merge_equiv) (use Some True j nth assms(2) in simp_all)
    moreover have "insn_ok (length P) ?j (P ! ?j)" by (rule forward_insn_ok [OF assms(1) j(2)])
    then have "jump_ok (length P) ?j (i_yes ?y)"
      by (simp add: insn_ok_def flip_yes_def)
    then have "jump_rank (length P) (i_yes ?y) < jump_rank (length P) (i_yes ?x)"
      by (rule jump_rank_less [OF True j(2)])
    moreover have "i_yes z = i_yes ?y" "i_no z = i_no ?x"
      using Some by (auto simp: merge_yes_def split: if_splits)
    ultimately show ?thesis
      using that [OF c] equiv_trans [OF e] assms(2) by (simp add: insn_rank_def)
  qed
qed

lemma combine_step_correct:
  assumes "forward P" "all_masked P" "i < length P"
  obtains Q stay where "combine_step P i = Some (Q, stay)" "equiv_on_words P Q"
    "stay \<longrightarrow> insn_rank (length P) (Q ! i) < insn_rank (length P) (P ! i)"
proof (cases "0 < i_no (P ! i)")
  case False
  then have "combine_step P i = combine_yes P i" by (simp add: combine_step_def Let_def)
  with combine_yes_correct [OF assms(1,3)] that show ?thesis by metis
next
  case True
  let ?x = "P ! i" and ?j = "nat (i_no (P ! i))"
  have j: "i < ?j" "?j < length P" using forward_jump [OF assms(1,3), of False] True by simp_all
  show ?thesis
  proof (cases "combine_no ?x (P ! ?j)")
    case Unchanged
    then have "combine_step P i = combine_yes P i" using True j by (simp add: combine_step_def Let_def)
    with combine_yes_correct [OF assms(1,3)] that show ?thesis by metis
  next
    case (Flipped z)
    then have z: "z = flip ?x" "flippable ?x"
      by (auto simp: combine_no_def Let_def split: if_splits)
    have e: "equiv_on_words P (P[i := z])" using flip_equiv [OF assms(3)] z by simp
    then have f: "forward (P[i := z])" using assms(1,2) by (simp add: equiv_on_words_def)
    have c: "combine_step P i = combine_yes (P[i := z]) i"
      using Flipped True j by (simp add: combine_step_def Let_def)
    obtain Q stay where Q: "combine_yes (P[i := z]) i = Some (Q, stay)" "equiv_on_words (P[i := z]) Q"
      "stay \<longrightarrow> insn_rank (length (P[i := z])) (Q ! i) < insn_rank (length (P[i := z])) (P[i := z] ! i)"
      using combine_yes_correct [OF f, of i] assms(3) by auto
    show ?thesis
      by (rule that [of Q stay]) (use c Q equiv_trans [OF e Q(2)] z assms(3) in simp_all)
  next
    case (Generalized z)
    then have c: "combine_step P i = Some (P[i := z], True)"
      using True j by (simp add: combine_step_def Let_def)
    have "equiv_on_words P (P[i := z])"
      by (rule generalize_equiv [OF assms(3) True j(2) Generalized])
    moreover have "jump_rank (length P) (i_no (P ! ?j)) < jump_rank (length P) (i_no ?x)"
      using jump_rank_less [OF True j(2)] forward_insn_ok [OF assms(1) j(2)] by (simp add: insn_ok_def)
    moreover have "i_yes z = i_yes ?x" "i_no z = i_no (P ! ?j)"
      using Generalized by (auto simp: combine_no_def Let_def split: if_splits)
    ultimately show ?thesis
      using that [OF c] assms(3) by (simp add: insn_rank_def)
  qed
qed

lemma combine_loop_correct:
  assumes "forward P" "all_masked P" "i < int (length P)"
  shows "\<exists>Q. combine_loop P i = Some Q \<and> equiv_on_words P Q"
  using assms
proof (induction "(P, i)" arbitrary: P i rule: wf_induct [OF wf_measures
      [of "[\<lambda>(P, i). nat (i + 1), \<lambda>(P, i). insn_rank (length P) (P ! nat i)]"]])
  case (1 P i)
  show ?case
  proof (cases "i < 0")
    case True
    then show ?thesis by (subst combine_loop.simps) simp
  next
    case False
    then have i: "nat i < length P" using 1(4) by simp
    obtain Q stay where Q: "combine_step P (nat i) = Some (Q, stay)" "equiv_on_words P Q"
      "stay \<longrightarrow> insn_rank (length P) (Q ! nat i) < insn_rank (length P) (P ! nat i)"
      using combine_step_correct [OF 1(2,3) i] by blast
    have len: "length Q = length P" using Q(2) by (simp add: equiv_on_words_def)
    have "\<exists>R. combine_loop Q (if stay then i else i - 1) = Some R \<and> equiv_on_words Q R"
      by (rule 1(1) [rule_format])
        (use Q(2,3) len False 1(2-4) in \<open>auto simp: equiv_on_words_def\<close>)
    then show ?thesis
      using False Q(1) equiv_trans [OF Q(2)] by (subst combine_loop.simps) auto
  qed
qed

lemma combine_compatible_states_correct:
  assumes "forward P" "all_masked P"
  obtains Q where "combine_compatible_states P = Some Q" "equiv_on_words P Q"
  using combine_loop_correct [OF assms, of "int (length P) - 1"]
  unfolding combine_compatible_states_def by auto

end
