(* ===== verification/Wordwise_Prune.thy ===== *)
theory Wordwise_Prune
  imports Wordwise_Combine
begin

text \<open>
  Removal of instructions (\<open>Program::remove_unused_states\<close> of \<open>classification.cc\<close>): jumps
  skip instructions whose outcome does not matter, a program that sends every packet to one
  output is recognised, and the instructions that are still reachable are renumbered and
  moved to the front.
\<close>

section \<open>Operations\<close>

definition interesting :: "insn \<Rightarrow> bool" where
  "interesting x \<longleftrightarrow> i_yes x \<noteq> i_no x \<and> i_mask x \<noteq> 0"

definition renumber :: "int list \<Rightarrow> int \<Rightarrow> int" where
  "renumber destination j = (if 0 < j then destination ! nat j else j)"

text \<open>The first pass, in reverse: skip uninteresting instructions already found.\<close>

definition skip_step :: "nat \<Rightarrow> insn list \<times> int list \<Rightarrow> insn list \<times> int list" where
  "skip_step i = (\<lambda>(P, destination).
     let x = map_jumps (renumber destination) (P ! i) in
     (P[i := x],
      destination[i := (if interesting x then int i
                        else if i_yes x \<le> 0 then i_yes x else destination ! nat (i_yes x))]))"

definition skip_uninteresting :: "insn list \<Rightarrow> insn list \<times> int list" where
  "skip_uninteresting P =
     fold skip_step (rev [0..<length P]) (P, replicate (length P) (- 1))"

definition check_first :: "insn list \<Rightarrow> int list \<Rightarrow> insn list \<times> int" where
  "check_first P destination =
     (if 0 < destination ! 0 then (P[0 := P ! nat (destination ! 0)], - 1)
      else if destination ! 0 < 0 then (P, - (destination ! 0))
      else if i_yes (P ! 0) = 0 \<and> (i_no (P ! 0) = 0 \<or> i_mask (P ! 0) = 0) then (P, 0)
      else (P, - 1))"

text \<open>The second pass: mark what is reachable and assign new positions.\<close>

definition mark_target :: "int \<Rightarrow> int list \<Rightarrow> int list" where
  "mark_target j destination = (if 0 < j then destination[nat j := 0] else destination)"

definition mark_step :: "insn list \<Rightarrow> nat \<Rightarrow> int list \<times> nat \<Rightarrow> int list \<times> nat" where
  "mark_step P i = (\<lambda>(destination, new_insn_index).
     if 0 \<le> destination ! i
     then (mark_target (i_yes (P ! i)) (mark_target (i_no (P ! i))
             (destination[i := int new_insn_index])), new_insn_index + 1)
     else (destination, new_insn_index))"

definition mark_reachable :: "insn list \<Rightarrow> int \<Rightarrow> int list \<times> nat" where
  "mark_reachable P output_everything =
     (let destination = replicate (length P) (- 1) in
      fold (mark_step P) [0..<length P]
        (if output_everything < 0 then destination[0 := 0] else destination, 0))"

text \<open>The third pass: move the instructions to their new positions.\<close>

definition move_step :: "int list \<Rightarrow> nat \<Rightarrow> insn list \<Rightarrow> insn list" where
  "move_step destination i P =
     (if 0 \<le> destination ! i
      then P[nat (destination ! i) := map_jumps (renumber destination) (P ! i)] else P)"

definition remove_unused_states :: "program \<Rightarrow> program" where
  "remove_unused_states p =
     (if p_insn p = [] then p
      else let (P1, skipped) = skip_uninteresting (p_insn p);
               (P2, output_everything) = check_first P1 skipped;
               (destination, new_insn_index) = mark_reachable P2 output_everything
           in p\<lparr>p_insn := take new_insn_index (fold (move_step destination) [0..<length P2] P2),
                p_output_everything := output_everything\<rparr>)"

section \<open>Skipping\<close>

text \<open>A test outcome that succeeds on instructions that compare nothing.\<close>

definition zero_succeeds :: "(insn \<Rightarrow> bool) \<Rightarrow> insn list \<Rightarrow> bool" where
  "zero_succeeds t P \<longleftrightarrow> jump_blind t \<and> (\<forall>x \<in> set P. i_mask x = 0 \<longrightarrow> t x)"

definition skip_from :: "insn list \<Rightarrow> nat \<Rightarrow> insn list \<times> int list" where
  "skip_from P s = fold skip_step (rev [s..<length P]) (P, replicate (length P) (- 1))"

lemma skip_from_Suc: "s < length P \<Longrightarrow> skip_from P s = skip_step s (skip_from P (Suc s))"
  by (simp add: skip_from_def upt_conv_Cons)

text \<open>What the first pass keeps, with the positions from \<open>s\<close> on done.\<close>

definition skipped_at ::
  "(insn \<Rightarrow> bool) \<Rightarrow> insn list \<Rightarrow> insn list \<Rightarrow> int list \<Rightarrow> nat \<Rightarrow> bool" where
  "skipped_at t P Q d i \<longleftrightarrow>
     (\<exists>g. Q ! i = map_jumps g (P ! i))
     \<and> exec t Q i = exec t P i
     \<and> (d ! i \<le> 0 \<or> (int i \<le> d ! i \<and> d ! i < int (length P) \<and> d ! nat (d ! i) = d ! i))
     \<and> (if interesting (Q ! i) then d ! i = int i else d ! i = i_yes (Q ! i) \<and> (d ! i = int i \<longrightarrow> i = 0))
     \<and> (0 < i \<or> d ! i \<noteq> 0 \<longrightarrow> dest t Q (d ! i) = exec t P i)
     \<and> (\<forall>k. 0 < jump (Q ! i) k \<longrightarrow> d ! nat (jump (Q ! i) k) = jump (Q ! i) k)"

definition skipped ::
  "(insn \<Rightarrow> bool) \<Rightarrow> insn list \<Rightarrow> nat \<Rightarrow> insn list \<Rightarrow> int list \<Rightarrow> bool" where
  "skipped t P s Q d \<longleftrightarrow> length Q = length P \<and> length d = length P \<and> forward Q
     \<and> (\<forall>i < s. i < length P \<longrightarrow> Q ! i = P ! i)
     \<and> (\<forall>i. s \<le> i \<longrightarrow> i < length P \<longrightarrow> skipped_at t P Q d i)"

text \<open>The facts about one position depend on the later positions only.\<close>

lemma skipped_at_cong:
  assumes "skipped_at t P Q d i" "forward Q" "length Q = length P" "length Q' = length P" "i < length P"
    and "\<And>j. i \<le> j \<Longrightarrow> j < length P \<Longrightarrow> Q' ! j = Q ! j \<and> d' ! j = d ! j"
  shows "skipped_at t P Q' d' i"
proof -
  note I = assms(1) [unfolded skipped_at_def]
  have same: "Q' ! i = Q ! i" "d' ! i = d ! i" using assms(5,6) by simp_all
  have ex: "exec t Q' j = exec t Q j" if "i \<le> j" "j < length P" for j
    by (rule exec_agree_above [OF assms(2) _ that(1)]) (use assms that in auto)
  have di: "d ! i \<le> 0 \<or> (int i \<le> d ! i \<and> d ! i < int (length P) \<and> d ! nat (d ! i) = d ! i)"
    using I by blast
  then have "dest t Q' (d ! i) = dest t Q (d ! i)" using ex [of "nat (d ! i)"] by (auto simp: dest_def)
  moreover have "d' ! nat (d ! i) = d ! nat (d ! i)" if "0 < d ! i"
    using di that assms(6) [of "nat (d ! i)"] by auto
  moreover have "d' ! nat (jump (Q ! i) k) = d ! nat (jump (Q ! i) k)" if "0 < jump (Q ! i) k" for k
    using forward_jump [OF assms(2) _ that] assms(3,5,6) by simp
  ultimately show ?thesis
    unfolding skipped_at_def same using I ex [OF order_refl assms(5)] by (cases "0 < d ! i") auto
qed

lemma skipped_init:
  "forward P \<Longrightarrow> skipped t P (length P) P (replicate (length P) (- 1))"
  by (simp add: skipped_def)

lemma skipped_step:
  assumes "skipped t P (Suc s) Q d" "forward P" "zero_succeeds t P" "s < length P"
    and "skip_step s (Q, d) = (Q', d')"
  shows "skipped t P s Q' d'"
proof -
  let ?n = "length P" and ?x = "map_jumps (renumber d) (P ! s)"
  note I = assms(1) [unfolded skipped_def]
  have at: "skipped_at t P Q d i" if "s < i" "i < ?n" for i using I that by simp
  have Qs: "Q ! s = P ! s" "length Q = ?n" "length d = ?n" "forward Q" using I assms(4) by auto
  define e where "e = (if interesting ?x then int s else if i_yes ?x \<le> 0 then i_yes ?x else d ! nat (i_yes ?x))"
  have Q': "Q' = Q[s := ?x]" "d' = d[s := e]"
    using assms(5) Qs by (auto simp: skip_step_def Let_def e_def)
  have tgt: "s < nat (jump (P ! s) k)" "nat (jump (P ! s) k) < ?n" if "0 < jump (P ! s) k" for k
    using forward_jump [OF assms(2,4) that] by simp_all
  have jx: "jump ?x k \<le> 0 \<or> (int s < jump ?x k \<and> jump ?x k < int ?n \<and> d ! nat (jump ?x k) = jump ?x k)" for k
  proof (cases "0 < jump (P ! s) k")
    case True
    with at [OF tgt [OF True]] have "d ! nat (jump (P ! s) k) \<le> 0 \<or> (jump (P ! s) k \<le> d ! nat (jump (P ! s) k)
        \<and> d ! nat (jump (P ! s) k) < int ?n \<and> d ! nat (d ! nat (jump (P ! s) k)) = d ! nat (jump (P ! s) k))"
      by (simp add: skipped_at_def)
    with True tgt [OF True] show ?thesis by (auto simp: renumber_def)
  qed (simp add: renumber_def)
  have ok: "insn_ok ?n s ?x" by (rule insn_okI) (use jx in \<open>auto simp: jump_ok_def\<close>)
  then have fw: "forward Q'" using forward_update [OF Qs(4)] Qs(2) by (simp add: Q')
  have above: "exec t Q' i = exec t Q i" if "s < i" "i < ?n" for i
    by (rule exec_agree_above [OF Qs(4), of _ "Suc s"]) (use that Qs(2) in \<open>auto simp: Q'\<close>)
  have dst: "dest t Q' j = dest t Q j" if "j \<le> 0 \<or> (int s < j \<and> j < int ?n)" for j
    using that above [of "nat j"] by (auto simp: dest_def)
  have dx: "dest t Q' (jump ?x k) = dest t P (jump (P ! s) k)" for k
  proof (cases "0 < jump (P ! s) k")
    case True
    with at [OF tgt [OF True]] tgt [OF True] have "dest t Q (d ! nat (jump (P ! s) k)) = exec t P (nat (jump (P ! s) k))"
      by (simp add: skipped_at_def)
    moreover have "jump ?x k = d ! nat (jump (P ! s) k)" using True by (simp add: renumber_def)
    moreover have "dest t Q' (jump ?x k) = dest t Q (jump ?x k)" using dst jx [of k] by blast
    ultimately show ?thesis using True by (simp add: dest_def [of t P])
  qed (simp add: renumber_def)
  have tx: "t ?x = t (P ! s)" "i_mask (P ! s) = 0 \<Longrightarrow> t (P ! s)"
    using assms(3,4) by (auto simp: zero_succeeds_def)
  have exs: "exec t Q' s = exec t P s"
    using assms(4) Qs(2) dx [of "t (P ! s)"] tx(1) by (simp add: exec_step Q')
  have e: "e = (if interesting ?x then int s else i_yes ?x)"
    using jx [of True] by (auto simp: e_def)
  have ds: "dest t Q' e = exec t P s" if "0 < s \<or> e \<noteq> 0"
  proof (cases "interesting ?x")
    case True
    then show ?thesis using that exs by (simp add: e dest_def)
  next
    case False
    then have "jump ?x (t (P ! s)) = jump ?x True" using tx(2) by (cases "t (P ! s)") (auto simp: interesting_def)
    then have "exec t P s = dest t Q' (jump ?x True)"
      using assms(4) dx [of "t (P ! s)"] by (metis exec_step)
    with False show ?thesis by (simp add: e)
  qed
  have es: "e \<le> 0 \<or> (int s \<le> e \<and> e < int ?n \<and> d' ! nat e = e)"
    using jx [of True] Qs(3) assms(4) by (auto simp: e Q' nth_list_update_if)
  have here: "d' ! s = e" "Q' ! s = ?x" using assms(4) Qs by (simp_all add: Q')
  have "d' ! nat (jump ?x k) = jump ?x k" if "0 < jump ?x k" for k
    using jx [of k] that by (auto simp: Q' nth_list_update_if)
  moreover have "e = int s \<longrightarrow> s = 0" if "\<not> interesting ?x" using jx [of True] that by (auto simp: e)
  ultimately have "skipped_at t P Q' d' s"
    unfolding skipped_at_def here using exs ds es e by auto
  moreover have "skipped_at t P Q' d' i" if "s < i" "i < ?n" for i
    by (rule skipped_at_cong [OF at [OF that] Qs(4,2)]) (use that Qs(2) in \<open>simp_all add: Q'\<close>)
  ultimately have "skipped_at t P Q' d' i" if "s \<le> i" "i < ?n" for i
    using that by (cases "i = s") auto
  then show ?thesis
    using Qs fw I by (simp add: skipped_def Q' nth_list_update_if)
qed

lemma skip_uninteresting_skipped:
  assumes "forward P" "zero_succeeds t P" "skip_uninteresting P = (Q, d)"
  shows "skipped t P 0 Q d"
proof -
  have "skipped t P (length P - m) (fst (skip_from P (length P - m))) (snd (skip_from P (length P - m)))"
    if "m \<le> length P" for m
    using that
  proof (induction m)
    case 0
    then show ?case using skipped_init [OF assms(1)] by (simp add: skip_from_def)
  next
    case (Suc m)
    let ?s = "length P - Suc m"
    have s: "Suc ?s = length P - m" "?s < length P" using Suc.prems by auto
    show ?case
      by (rule skipped_step [OF Suc.IH [unfolded s(1) [symmetric]] assms(1,2) s(2)])
        (use Suc.prems skip_from_Suc [OF s(2)] in simp_all)
  qed
  from this [of "length P"] assms(3) show ?thesis
    by (simp add: skip_from_def skip_uninteresting_def)
qed

section \<open>The first instruction\<close>

lemma skipped_jump_interesting:
  assumes "skipped t P 0 Q d" "i < length P" "0 < jump (Q ! i) k"
  shows "interesting (Q ! nat (jump (Q ! i) k))"
proof -
  let ?j = "nat (jump (Q ! i) k)"
  have "skipped_at t P Q d i" "forward Q" "length Q = length P" using assms(1,2) by (auto simp: skipped_def)
  then have "d ! ?j = jump (Q ! i) k" "?j < length P"
    using assms(3) forward_jump [of Q i k] assms(2) by (auto simp: skipped_at_def)
  moreover have "skipped_at t P Q d ?j" using assms(1) calculation(2) by (simp add: skipped_def)
  ultimately show ?thesis using assms(3) by (auto simp: skipped_at_def split: if_splits)
qed

lemma check_first_correct:
  assumes "skipped t P 0 Q d" "P \<noteq> []" "check_first Q d = (R, oe)" "zero_succeeds t P"
  shows "length R = length P" "forward R"
    "if 0 \<le> oe then exec t P 0 = Some (- oe) else exec t R 0 = exec t P 0 \<and> interesting (R ! 0)"
    "i < length P \<Longrightarrow> 0 < jump (R ! i) k \<Longrightarrow> interesting (R ! nat (jump (R ! i) k))"
proof -
  note S = assms(1) [unfolded skipped_def]
  have n: "0 < length P" and Q: "length Q = length P" "forward Q" using S assms(2) by auto
  have at0: "skipped_at t P Q d 0" using S n by blast
  note I = at0 [unfolded skipped_at_def]
  let ?j = "nat (d ! 0)"
  have j: "?j < length P" "interesting (Q ! ?j)" if "0 < d ! 0"
  proof -
    show l: "?j < length P" using I that by auto
    have "skipped_at t P Q d ?j" using S l by blast
    then show "interesting (Q ! ?j)" using that I by (auto simp: skipped_at_def split: if_splits)
  qed
  have R: "R = (if 0 < d ! 0 then Q[0 := Q ! ?j] else Q)"
    using assms(3) by (auto simp: check_first_def split: if_splits)
  have ok: "insn_ok (length P) 0 (Q ! ?j)" if "0 < d ! 0"
    using forward_insn_ok [OF Q(2), of ?j] j(1) [OF that] Q(1) jump_ok_mono
    unfolding insn_ok_def by (metis zero_le)
  show "length R = length P" by (simp add: R Q)
  show fw: "forward R" using forward_update [OF Q(2)] ok Q by (auto simp: R)
  show "interesting (R ! nat (jump (R ! i) k))" if "i < length P" "0 < jump (R ! i) k"
  proof -
    let ?i = "if 0 < d ! 0 \<and> i = 0 then ?j else i"
    have "?i < length P" "R ! i = Q ! ?i" using that(1) j(1) n by (auto simp: R Q(1) nth_list_update_if)
    then obtain i' where i': "i' < length P" "R ! i = Q ! i'" by blast
    have "interesting (Q ! nat (jump (R ! i) k))"
      using skipped_jump_interesting [OF assms(1) i'(1), of k] that(2) i'(2) by simp
    moreover have "R ! m = Q ! m" if "0 < m" for m using that by (simp add: R)
    ultimately show ?thesis using that(2) by (metis zero_less_nat_eq)
  qed
  show "if 0 \<le> oe then exec t P 0 = Some (- oe) else exec t R 0 = exec t P 0 \<and> interesting (R ! 0)"
  proof (cases "d ! 0" "0 :: int" rule: linorder_cases)
    case greater
    have "exec t R ?j = exec t Q ?j"
      by (rule exec_agree_above [OF Q(2), of _ 1]) (use greater j Q n in \<open>auto simp: R\<close>)
    moreover have "dest t Q (d ! 0) = exec t P 0" using I greater by simp
    moreover have "exec t R 0 = exec t R ?j"
      using greater j(1) n Q by (simp add: exec_step R)
    ultimately show ?thesis
      using greater assms(3) j(2) n Q by (auto simp: check_first_def dest_def R)
  next
    case less
    with I assms(3) show ?thesis by (auto simp: check_first_def)
  next
    case equal
    show ?thesis
    proof (cases "interesting (Q ! 0)")
      case True
      have "oe = - 1" "R = Q"
        using True equal assms(3) by (auto simp: check_first_def interesting_def split: if_splits)
      with True I show ?thesis by simp
    next
      case False
      obtain g where g: "Q ! 0 = map_jumps g (P ! 0)" using I by blast
      have tQ: "t (Q ! 0) = t (P ! 0)" "i_mask (Q ! 0) = 0 \<Longrightarrow> t (P ! 0)"
        using assms(4) n by (auto simp: g zero_succeeds_def)
      have y: "i_yes (Q ! 0) = 0" "i_no (Q ! 0) = 0 \<or> i_mask (Q ! 0) = 0"
        using I False equal by (auto simp: interesting_def)
      then have "jump (Q ! 0) (t (Q ! 0)) = 0" using tQ by (cases "t (Q ! 0)") auto
      then have "exec t P 0 = Some 0" using I n Q by (metis exec_step dest_final order_refl)
      with y equal assms(3) show ?thesis by (auto simp: check_first_def)
    qed
  qed
qed

section \<open>Renumbering\<close>

text \<open>The number of positions before \<open>i\<close> that are kept.\<close>

definition kept_before :: "int list \<Rightarrow> nat \<Rightarrow> nat" where
  "kept_before d i = card {j. j < i \<and> 0 \<le> d ! j}"

lemma kept_before_0 [simp]: "kept_before d 0 = 0"
  by (simp add: kept_before_def)

lemma kept_before_Suc [simp]:
  "kept_before d (Suc i) = kept_before d i + (if 0 \<le> d ! i then 1 else 0)"
proof -
  have "{j. j < Suc i \<and> 0 \<le> d ! j} = (if 0 \<le> d ! i then insert i {j. j < i \<and> 0 \<le> d ! j} else {j. j < i \<and> 0 \<le> d ! j})"
    by (auto simp: less_Suc_eq)
  then show ?thesis by (simp add: kept_before_def)
qed

lemma kept_before_le: "kept_before d i \<le> i"
  by (induction i) auto

lemma kept_before_mono: "i \<le> j \<Longrightarrow> kept_before d i \<le> kept_before d j"
  by (induction j) (auto simp: le_Suc_eq)

lemma kept_before_less: "i < j \<Longrightarrow> 0 \<le> d ! i \<Longrightarrow> kept_before d i < kept_before d j"
  using kept_before_mono [of "Suc i" j d] by simp

lemma kept_before_cong: "(\<And>j. j < i \<Longrightarrow> 0 \<le> d ! j \<longleftrightarrow> 0 \<le> d' ! j) \<Longrightarrow> kept_before d i = kept_before d' i"
  by (induction i) auto

text \<open>What the second pass keeps, with the positions below \<open>s\<close> done.\<close>

definition marked :: "insn list \<Rightarrow> nat \<Rightarrow> int list \<Rightarrow> nat \<Rightarrow> bool" where
  "marked P s d m \<longleftrightarrow> length d = length P \<and> m = kept_before d s
     \<and> (\<forall>i < s. 0 \<le> d ! i \<longrightarrow> d ! i = int (kept_before d i)
          \<and> (\<forall>k. 0 < jump (P ! i) k \<longrightarrow> 0 \<le> d ! nat (jump (P ! i) k)))"

lemma mark_target_nth:
  "mark_target j d ! i = (if 0 < j \<and> nat j = i \<and> i < length d then 0 else d ! i)"
  by (simp add: mark_target_def nth_list_update_if)

lemma length_mark_target [simp]: "length (mark_target j d) = length d"
  by (simp add: mark_target_def)

lemma marked_step:
  assumes "marked P s d m" "forward P" "s < length P" "mark_step P s (d, m) = (d', m')"
  shows "marked P (Suc s) d' m' \<and> (\<forall>i \<le> s. 0 \<le> d' ! i \<longleftrightarrow> 0 \<le> d ! i)"
proof (cases "0 \<le> d ! s")
  case False
  then have "d' = d" "m' = m" using assms(4) by (auto simp: mark_step_def)
  with False assms(1) show ?thesis by (auto simp: marked_def less_Suc_eq)
next
  case True
  note I = assms(1) [unfolded marked_def]
  have d': "d' = mark_target (i_yes (P ! s)) (mark_target (i_no (P ! s)) (d[s := int m]))" "m' = m + 1"
    using True assms(4) by (auto simp: mark_step_def)
  have tgt: "s < nat (jump (P ! s) k)" "nat (jump (P ! s) k) < length P" if "0 < jump (P ! s) k" for k
    using forward_jump [OF assms(2,3) that] by simp_all
  have below: "d' ! i = (if i = s then int m else d ! i)" if "i \<le> s" for i
    using that tgt [of True] tgt [of False] I assms(3) by (auto simp: d' mark_target_nth nth_list_update_if)
  have keep: "0 \<le> d' ! i" if "0 \<le> d ! i" for i
    using that by (auto simp: d' mark_target_nth nth_list_update_if)
  have new: "0 \<le> d' ! nat (jump (P ! s) k)" if "0 < jump (P ! s) k" for k
    using that tgt [OF that] I by (cases k) (auto simp: d' mark_target_nth nth_list_update_if)
  have sg: "0 \<le> d' ! i \<longleftrightarrow> 0 \<le> d ! i" if "i \<le> s" for i using below [OF that] True by auto
  have kb: "kept_before d' i = kept_before d i" if "i \<le> s" for i
    by (rule kept_before_cong) (use sg that in simp)
  have "d' ! i = int (kept_before d' i) \<and> (\<forall>k. 0 < jump (P ! i) k \<longrightarrow> 0 \<le> d' ! nat (jump (P ! i) k))"
    if "i < Suc s" "0 \<le> d' ! i" for i
  proof (cases "i = s")
    case True
    then show ?thesis using below [of s] kb [of s] I new by simp
  next
    case False
    with that have i: "i < s" "0 \<le> d ! i" using sg [of i] by auto
    then show ?thesis using I below [of i] kb [of i] keep by auto
  qed
  moreover have "m' = kept_before d' (Suc s)" using sg [of s] True kb [of s] I d'(2) by simp
  ultimately show ?thesis using I sg by (simp add: marked_def d'(1))
qed

lemma mark_reachable_marked:
  assumes "forward P" "P \<noteq> []" "mark_reachable P oe = (d, m)"
  shows "marked P (length P) d m" "oe < 0 \<Longrightarrow> d ! 0 = 0" "0 \<le> oe \<Longrightarrow> m = 0"
proof -
  define d0 where "d0 = (if oe < 0 then (replicate (length P) (- 1))[0 := 0] else replicate (length P) (- 1 :: int))"
  let ?f = "\<lambda>s. fold (mark_step P) [0..<s] (d0, 0)"
  have "marked P s (fst (?f s)) (snd (?f s)) \<and> (0 \<le> fst (?f s) ! 0 \<longleftrightarrow> 0 \<le> d0 ! 0)
      \<and> (0 \<le> oe \<longrightarrow> fst (?f s) = d0)" if "s \<le> length P" for s
    using that
  proof (induction s)
    case 0
    then show ?case by (simp add: marked_def d0_def)
  next
    case (Suc s)
    obtain d1 m1 where d1: "?f s = (d1, m1)" by (cases "?f s")
    obtain d2 m2 where d2: "mark_step P s (d1, m1) = (d2, m2)" by (cases "mark_step P s (d1, m1)")
    have "marked P s d1 m1" using Suc d1 by simp
    from marked_step [OF this assms(1) _ d2] Suc d1 have 1: "marked P (Suc s) d2 m2"
      "0 \<le> d2 ! 0 \<longleftrightarrow> 0 \<le> d0 ! 0" by auto
    moreover have "d2 = d0" if "0 \<le> oe"
    proof -
      have "d1 = d0" using Suc d1 that by simp
      moreover have "\<not> 0 \<le> d0 ! s" using Suc.prems that by (simp add: d0_def)
      ultimately show ?thesis using d2 by (simp add: mark_step_def)
    qed
    ultimately show ?case using d1 d2 by simp
  qed
  from this [OF order_refl] assms(3)
  have I: "marked P (length P) d m" "0 \<le> d ! 0 \<longleftrightarrow> 0 \<le> d0 ! 0" "0 \<le> oe \<longrightarrow> d = d0"
    by (auto simp: mark_reachable_def d0_def Let_def)
  show "marked P (length P) d m" by (rule I(1))
  show "d ! 0 = 0" if "oe < 0"
    using I assms(2) that by (auto simp: marked_def d0_def)
  show "m = 0" if "0 \<le> oe"
    using I that by (auto simp: marked_def d0_def kept_before_def card_eq_0_iff)
qed

text \<open>The third pass never overwrites an instruction that it still has to move.\<close>

lemma move_fold:
  assumes "marked P (length P) d m" "s \<le> length P"
  shows "length (fold (move_step d) [0..<s] P) = length P
    \<and> (\<forall>i < s. 0 \<le> d ! i \<longrightarrow> fold (move_step d) [0..<s] P ! nat (d ! i) = map_jumps (renumber d) (P ! i))
    \<and> (\<forall>i < length P. s \<le> i \<longrightarrow> fold (move_step d) [0..<s] P ! i = P ! i)"
  using assms(2)
proof (induction s)
  case (Suc s)
  let ?L = "fold (move_step d) [0..<s] P"
  have d: "d ! i = int (kept_before d i)" if "i < length P" "0 \<le> d ! i" for i
    using assms(1) that by (simp add: marked_def)
  show ?case
  proof (cases "0 \<le> d ! s")
    case False
    with Suc show ?thesis by (auto simp: move_step_def less_Suc_eq)
  next
    case True
    have L: "fold (move_step d) [0..<Suc s] P = ?L[kept_before d s := map_jumps (renumber d) (P ! s)]"
    proof -
      have "?L ! s = P ! s" using Suc by simp
      moreover have "fold (move_step d) [0..<Suc s] P = move_step d s ?L" by simp
      ultimately show ?thesis using True d [of s] Suc.prems by (simp add: move_step_def)
    qed
    have le: "kept_before d s \<le> s" by (rule kept_before_le)
    have "nat (d ! i) < kept_before d s" if "i < s" "0 \<le> d ! i" for i
      using kept_before_less [OF that] d [of i] that Suc.prems by simp
    then show ?thesis
      using Suc True d [of s] le unfolding L
      by (auto simp: less_Suc_eq nth_list_update_if) (metis less_irrefl)
  qed
qed simp

lemma kept_before_onto:
  "q < kept_before d n \<Longrightarrow> \<exists>i < n. 0 \<le> d ! i \<and> kept_before d i = q"
proof (induction n)
  case (Suc n)
  show ?case
  proof (cases "q < kept_before d n")
    case True
    with Suc.IH show ?thesis using less_SucI by blast
  next
    case False
    with Suc.prems have "0 \<le> d ! n" "kept_before d n = q" by (auto split: if_splits)
    then show ?thesis by blast
  qed
qed simp

text \<open>The program after the third pass, position by position.\<close>

lemma moved:
  assumes "marked P (length P) d m" "forward P" "0 \<le> d ! 0" "P \<noteq> []"
  defines "Q \<equiv> take m (fold (move_step d) [0..<length P] P)"
  shows "length Q = m" "0 < m"
    and "i < length P \<Longrightarrow> 0 \<le> d ! i \<Longrightarrow> kept_before d i < m
          \<and> Q ! kept_before d i = map_jumps (renumber d) (P ! i)"
    and "i < length P \<Longrightarrow> 0 \<le> d ! i \<Longrightarrow> 0 < jump (P ! i) k \<Longrightarrow>
          renumber d (jump (P ! i) k) = int (kept_before d (nat (jump (P ! i) k)))
          \<and> kept_before d i < kept_before d (nat (jump (P ! i) k))
          \<and> 0 \<le> d ! nat (jump (P ! i) k)"
proof -
  note I = assms(1) [unfolded marked_def]
  note mv = move_fold [OF assms(1) order_refl]
  have m: "m \<le> length P" using I kept_before_le by simp
  show "length Q = m" using mv m by (simp add: Q_def)
  show "0 < m" using I assms(3,4) kept_before_less [of 0 "length P" d] by simp
  show "kept_before d i < m \<and> Q ! kept_before d i = map_jumps (renumber d) (P ! i)"
    if "i < length P" "0 \<le> d ! i"
  proof -
    have "kept_before d i < m" using I that kept_before_less by simp
    moreover have "d ! i = int (kept_before d i)" using I that by blast
    ultimately show ?thesis using mv that by (auto simp: Q_def)
  qed
  show "renumber d (jump (P ! i) k) = int (kept_before d (nat (jump (P ! i) k)))
      \<and> kept_before d i < kept_before d (nat (jump (P ! i) k)) \<and> 0 \<le> d ! nat (jump (P ! i) k)"
    if "i < length P" "0 \<le> d ! i" "0 < jump (P ! i) k"
    using that I forward_jump [OF assms(2) that(1,3)] kept_before_less [of i _ d]
    by (simp add: renumber_def)
qed

lemma moved_exec:
  assumes "marked P (length P) d m" "forward P" "0 \<le> d ! 0" "P \<noteq> []" "jump_blind t"
    and "i < length P" "0 \<le> d ! i"
  shows "exec t (take m (fold (move_step d) [0..<length P] P)) (kept_before d i) = exec t P i"
  using assms(2,6,7)
proof (induction rule: forward_induct)
  case (step i)
  let ?Q = "take m (fold (move_step d) [0..<length P] P)" and ?j = "jump (P ! i) (t (P ! i))"
  note mv = moved [OF assms(1-4)]
  have "exec t ?Q (kept_before d i) = dest t ?Q (renumber d ?j)"
    using mv(1) mv(3) [OF step.hyps step.prems] assms(5) by (simp add: exec_step)
  also have "\<dots> = dest t P ?j"
  proof (cases "0 < ?j")
    case True
    note mj = mv(4) [OF step.hyps step.prems True]
    then have "0 < renumber d ?j" by simp
    then show ?thesis
      using True mj step.IH [OF True] forward_jump [OF assms(2) step.hyps True] by (simp add: dest_def)
  qed (simp add: renumber_def)
  finally show ?case using step.hyps by (simp add: exec_step)
qed

text \<open>Only targets of jumps are marked.\<close>

definition marks_targets :: "insn list \<Rightarrow> int list \<Rightarrow> bool" where
  "marks_targets P d \<longleftrightarrow>
     (\<forall>i. 0 < i \<longrightarrow> 0 \<le> d ! i \<longrightarrow> i < length d \<longrightarrow> (\<exists>i' < length P. \<exists>k. jump (P ! i') k = int i))"

lemma marks_targets_step:
  assumes "marks_targets P d" "s < length P" shows "marks_targets P (fst (mark_step P s (d, m)))"
proof -
  have mt: "marks_targets P (mark_target (jump (P ! s) k) d')" if "marks_targets P d'" for d' k
    using that assms(2) unfolding marks_targets_def
    by (auto simp: mark_target_nth)
  have "marks_targets P (d[s := int m])" if "0 \<le> d ! s"
    using assms(1) that unfolding marks_targets_def by (auto simp: nth_list_update_if)
  from mt [OF mt [OF this], of True False] assms(1) show ?thesis by (auto simp: mark_step_def)
qed

lemma mark_reachable_targets:
  assumes "mark_reachable P oe = (d, m)" shows "marks_targets P d"
proof -
  define d0 where "d0 = (if oe < 0 then (replicate (length P) (- 1))[0 := 0] else replicate (length P) (- 1 :: int))"
  have "marks_targets P (fst (fold (mark_step P) [0..<s] (d0, 0)))" if "s \<le> length P" for s
    using that
  proof (induction s)
    case 0
    then show ?case by (auto simp: marks_targets_def d0_def nth_list_update_if)
  next
    case (Suc s)
    then show ?case
      using marks_targets_step [of P "fst (fold (mark_step P) [0..<s] (d0, 0))" s
          "snd (fold (mark_step P) [0..<s] (d0, 0))"] by simp
  qed
  from this [OF order_refl] assms show ?thesis by (simp add: mark_reachable_def d0_def Let_def)
qed

lemma moved_interesting:
  assumes "marked P (length P) d m" "forward P" "0 \<le> d ! 0" "P \<noteq> []"
    and "interesting (P ! 0)" "marks_targets P d"
    and "\<And>i k. i < length P \<Longrightarrow> 0 < jump (P ! i) k \<Longrightarrow> interesting (P ! nat (jump (P ! i) k))"
    and "q < m"
  defines "Q \<equiv> take m (fold (move_step d) [0..<length P] P)"
  shows "insn_ok m q (Q ! q)" "interesting (Q ! q)"
proof -
  note mv = moved [OF assms(1-4), folded Q_def]
  obtain i where i: "i < length P" "0 \<le> d ! i" "q = kept_before d i"
    using kept_before_onto [of q d "length P"] assms(1,8) by (auto simp: marked_def)
  have Qq: "Q ! q = map_jumps (renumber d) (P ! i)" using mv(3) [OF i(1,2)] i(3) by simp
  show "insn_ok m q (Q ! q)"
  proof (rule insn_okI)
    fix k
    show "jump_ok m q (jump (Q ! q) k)"
    proof (cases "0 < jump (P ! i) k")
      case True
      note mj = mv(4) [OF i(1,2) True]
      moreover have "kept_before d (nat (jump (P ! i) k)) < m"
        using mv(3) forward_jump [OF assms(2) i(1) True] mj by blast
      ultimately show ?thesis unfolding Qq by (simp add: jump_ok_def i(3))
    qed (simp add: Qq renumber_def jump_ok_def)
  qed
  have inj: "renumber d (jump (P ! i) k) = renumber d (jump (P ! i) k') \<Longrightarrow> jump (P ! i) k = jump (P ! i) k'" for k k'
    using mv(4) [OF i(1,2), of k] mv(4) [OF i(1,2), of k']
      kept_before_less [of "nat (jump (P ! i) k)" "nat (jump (P ! i) k')" d]
      kept_before_less [of "nat (jump (P ! i) k')" "nat (jump (P ! i) k)" d]
    by (cases "0 < jump (P ! i) k"; cases "0 < jump (P ! i) k'") 
      (auto simp: renumber_def [where j = "jump _ _"] split: if_splits, metis linorder_less_linear)
  have "interesting (P ! i)"
  proof (cases "i = 0")
    case False
    then obtain i' k where "i' < length P" "jump (P ! i') k = int i"
      using assms(1,6) i(1,2) unfolding marks_targets_def marked_def by (metis not_gr_zero)
    with assms(7) [of i' k] False show ?thesis by simp
  qed (use assms(5) in simp)
  then show "interesting (Q ! q)"
    using Qq inj [of True False] by (auto simp: interesting_def)
qed

section \<open>The whole pass\<close>

text \<open>
  \<open>remove_unused_states\<close> sends every packet where the program sent it before, provided
  that instructions with an empty mask succeed on it. Afterwards every instruction makes a
  test that matters and jumps forward, and the program has instructions exactly when it
  does not send every packet to one output.
\<close>

lemma remove_unused_states_correct:
  assumes "forward (p_insn p)" "p_insn p \<noteq> []" "zero_succeeds t (p_insn p)"
  shows "program_exit t (remove_unused_states p) = exec t (p_insn p) 0
    \<and> forward (p_insn (remove_unused_states p))
    \<and> (\<forall>x \<in> set (p_insn (remove_unused_states p)). i_yes x \<noteq> i_no x \<and> i_mask x \<noteq> 0)
    \<and> (p_insn (remove_unused_states p) = [] \<longleftrightarrow> 0 \<le> p_output_everything (remove_unused_states p))"
proof -
  let ?P = "p_insn p"
  obtain P1 sk where 1: "skip_uninteresting ?P = (P1, sk)" by (cases "skip_uninteresting ?P")
  obtain P2 oe where 2: "check_first P1 sk = (P2, oe)" by (cases "check_first P1 sk")
  obtain d m where 3: "mark_reachable P2 oe = (d, m)" by (cases "mark_reachable P2 oe")
  let ?Q = "take m (fold (move_step d) [0..<length P2] P2)"
  have r: "remove_unused_states p = p\<lparr>p_insn := ?Q, p_output_everything := oe\<rparr>"
    using assms(2) 1 2 3 by (simp add: remove_unused_states_def)
  note cf = check_first_correct [OF skip_uninteresting_skipped [OF assms(1,3) 1] assms(2) 2 assms(3)]
  have ne: "P2 \<noteq> []" using cf(1) assms(2) by auto
  note mk = mark_reachable_marked [OF cf(2) ne 3]
  show ?thesis
  proof (cases "0 \<le> oe")
    case True
    then show ?thesis using cf(3) mk(3) by (simp add: r program_exit_def forward_def)
  next
    case False
    then have d0: "0 \<le> d ! 0" using mk(2) by simp
    note mv = moved [OF mk(1) cf(2) d0 ne]
    have int0: "interesting (P2 ! 0)" "exec t P2 0 = exec t ?P 0" using cf(3) False by auto
    have "exec t ?Q 0 = exec t P2 0"
      using moved_exec [OF mk(1) cf(2) d0 ne, of t 0] d0 ne assms(3) by (simp add: zero_succeeds_def)
    moreover have "insn_ok m q (?Q ! q)" "interesting (?Q ! q)" if "q < m" for q
      using moved_interesting [OF mk(1) cf(2) d0 ne int0(1) mark_reachable_targets [OF 3] _ that] cf(1,4)
      by auto
    ultimately show ?thesis
      using False int0(2) mv(1,2)
      by (auto simp: r program_exit_def forward_def interesting_def in_set_conv_nth)
  qed
qed

end
