(* ===== verification/Wordwise_Dominator.thy ===== *)
theory Wordwise_Dominator
  imports Wordwise_Prune "HOL-Library.List_Lexorder" "HOL-Library.Product_Lexorder"
begin

text \<open>
  The dominator optimiser (\<open>class DominatorOptimizer\<close> of \<open>classification.cc\<close> and
  \<open>classification.hh\<close>). For every state it keeps up to four lists of branches such that
  every path to the state takes all branches of one of the lists, and moves a branch past
  the tests that every list decides. \<open>None\<close> stands for a failed assertion, which includes
  an index outside a vector.

  The vectors \<open>_dom\<close>, \<open>_dom_start\<close> and \<open>_domlist_start\<close> are here one list of lists of
  branches for every state that has been visited. The chains through \<open>_pred_first\<close>,
  \<open>_pred_next\<close> and \<open>_pred_prev\<close> are one list of branches for every state, in the order of
  the chain. A list of \<open>pdom\<close>/\<open>pdom_end\<close> stays a reference (state, number of the list, end),
  because the branch at the end of a list is overwritten after the reference was taken.
\<close>

section \<open>State\<close>

definition brno :: "nat \<Rightarrow> bool \<Rightarrow> int" where "brno state br = 2 * int state + of_bool br"

definition stateno :: "int \<Rightarrow> nat" where "stateno b = nat (b div 2)"

definition br_yes :: "int \<Rightarrow> bool" where "br_yes b = odd b"

definition MAX_DOMLIST :: nat where "MAX_DOMLIST = 4"

record dominator =
  d_insn :: "insn list"
  d_known_length :: "nat list"
  d_insn_id :: "nat list"
  d_dom :: "int list list list"
  d_pred :: "int list list"

definition lower_known :: "int \<Rightarrow> nat \<Rightarrow> nat list \<Rightarrow> nat list" where
  "lower_known j len kl = (if 0 < j \<and> len < kl ! nat j then kl[nat j := len] else kl)"

definition known_step :: "insn list \<Rightarrow> nat \<Rightarrow> nat list \<Rightarrow> nat list" where
  "known_step P i kl =
     (let x = P ! i; tested_length = max (required_length x) (kl ! i);
          kl' = lower_known (jump x (\<not> i_short x)) tested_length kl
      in lower_known (jump x (i_short x)) (kl' ! i) kl')"

definition known_lengths :: "insn list \<Rightarrow> nat list" where
  "known_lengths P =
     fold (known_step P) [0..<length P] ((replicate (length P) 0x7FFFFFFF)[0 := 0])"

definition insn_permute :: "insn list \<Rightarrow> nat list" where
  "insn_permute P = sort_key (\<lambda>i. (insn_bytes (P ! i), i)) [0..<length P]"

definition id_step :: "insn list \<Rightarrow> nat list \<Rightarrow> nat \<Rightarrow> nat list \<Rightarrow> nat list" where
  "id_step P perm i ids =
     (if 0 < i \<and> insn_bytes (P ! (perm ! i)) = insn_bytes (P ! (perm ! (i - 1)))
      then ids[perm ! i := ids ! (perm ! (i - 1))] else ids[perm ! i := perm ! i])"

definition insn_ids :: "insn list \<Rightarrow> nat list" where
  "insn_ids P = fold (id_step P (insn_permute P)) [0..<length P] (replicate (length P) 0)"

definition push_pred :: "nat \<Rightarrow> bool \<Rightarrow> insn list \<Rightarrow> int list list \<Rightarrow> int list list" where
  "push_pred i k P pred =
     (let j = jump (P ! i) k in if 0 < j then pred[nat j := brno i k # pred ! nat j] else pred)"

definition find_predecessors :: "insn list \<Rightarrow> int list list" where
  "find_predecessors P =
     fold (\<lambda>i pred. push_pred i True P (push_pred i False P pred)) [0..<length P]
       (replicate (length P) [])"

definition new_dominator :: "insn list \<Rightarrow> dominator" where
  "new_dominator P = \<lparr>d_insn = P, d_known_length = known_lengths P, d_insn_id = insn_ids P,
     d_dom = [], d_pred = find_predecessors P\<rparr>"

section \<open>Branches\<close>

definition br_implies :: "dominator \<Rightarrow> int \<Rightarrow> nat \<Rightarrow> bool" where
  "br_implies D b state =
     (let from = d_insn D ! stateno b; kl = d_known_length D ! stateno b in
      if br_yes b then insn_implies from (d_insn D ! state) kl
      else insn_not_implies from (d_insn D ! state) kl)"

definition br_implies_not :: "dominator \<Rightarrow> int \<Rightarrow> nat \<Rightarrow> bool" where
  "br_implies_not D b state =
     (let from = d_insn D ! stateno b; kl = d_known_length D ! stateno b in
      if br_yes b then insn_implies_not from (d_insn D ! state) kl
      else insn_not_implies_not from (d_insn D ! state) kl)"

text \<open>The chain of a state gets a new branch before the first one that is not smaller.\<close>

definition chain_insert :: "int \<Rightarrow> int list \<Rightarrow> int list" where
  "chain_insert b chain = takeWhile (\<lambda>c. c < b) chain @ b # dropWhile (\<lambda>c. c < b) chain"

definition set_branch :: "nat \<Rightarrow> bool \<Rightarrow> int \<Rightarrow> dominator \<Rightarrow> dominator" where
  "set_branch from branch to_state D =
     (let x = d_insn D ! from; b = brno from branch; j = jump x branch; pred = d_pred D;
          pred' = (if 0 < j then pred[nat j := remove1 b (pred ! nat j)] else pred);
          pred'' = (if 0 < to_state
                    then pred'[nat to_state := chain_insert b (pred' ! nat to_state)] else pred')
      in D\<lparr>d_pred := pred'', d_insn := (d_insn D)[from := set_jump branch to_state x]\<rparr>)"

section \<open>Intersection of lists\<close>

definition list_bound :: "int list list \<Rightarrow> int" where
  "list_bound sufs = Max (insert (- 1) (set (concat sufs)))"

lemma list_bound_ge: "l \<in> set sufs \<Longrightarrow> v \<in> set l \<Longrightarrow> v \<le> list_bound sufs"
  by (auto simp: list_bound_def intro!: Max_ge)

lemma list_bound_mono: "set (concat sufs') \<subseteq> set (concat sufs) \<Longrightarrow> list_bound sufs' \<le> list_bound sufs"
  unfolding list_bound_def by (intro Max_mono) auto

lemma concat_update_dropWhile:
  assumes "p < length sufs"
  shows "set (concat (sufs[p := dropWhile f (sufs ! p)])) \<subseteq> set (concat sufs)"
proof -
  have "set (dropWhile f (sufs ! p)) \<subseteq> set (sufs ! p)" using set_dropWhileD by fastforce
  moreover have "set (sufs[p := dropWhile f (sufs ! p)]) \<subseteq> insert (dropWhile f (sufs ! p)) (set sufs)"
    by (rule set_update_subset_insert)
  ultimately show ?thesis using nth_mem [OF assms] by fastforce
qed

lemma hd_dropWhile_in: "dropWhile f l \<noteq> [] \<Longrightarrow> hd (dropWhile f l) \<in> set l \<and> \<not> f (hd (dropWhile f l))"
  using set_dropWhileD [of "hd (dropWhile f l)" f l] hd_dropWhile [of f l] by (auto simp del: dropWhile_eq_Nil_conv)

text \<open>
  The two nested loops of \<open>intersect_lists\<close>: \<open>sufs\<close> are the rests of the lists from \<open>pos\<close>
  on, \<open>p\<close> the list looked at, \<open>k\<close> how many lists in a row have \<open>x\<close>.
\<close>

function intersect_loop ::
  "int list list \<Rightarrow> nat \<Rightarrow> nat \<Rightarrow> int \<Rightarrow> int list \<Rightarrow> int list" where
  "intersect_loop sufs p k x out =
     (if length sufs \<le> p then out
      else let l = dropWhile (\<lambda>v. v < x) (sufs ! p) in
        if l = [] then out
        else let k' = (if x < hd l then 0 else k) + 1 in
          if k' < length sufs
          then intersect_loop (sufs[p := l]) (if p + 1 = length sufs then 0 else p + 1) k' (hd l) out
          else intersect_loop (sufs[p := l]) 0 0 (hd l + 1) (out @ [hd l]))"
  by auto
termination
proof (relation "measures [\<lambda>(sufs, p, k, x, out). nat (list_bound sufs + 1 - x),
    \<lambda>(sufs, p, k, x, out). length sufs - k]", goal_cases)
  case 1
  show ?case by simp
next
  case (2 sufs p k x out l k')
  have l: "hd l \<in> set (sufs ! p)" "x \<le> hd l" "sufs ! p \<in> set sufs"
    using 2 hd_dropWhile_in [of "\<lambda>v. v < x" "sufs ! p"] by (auto simp del: dropWhile_eq_Nil_conv)
  have "list_bound (sufs[p := l]) \<le> list_bound sufs"
    using concat_update_dropWhile [of p sufs] 2 by (intro list_bound_mono) auto
  with l list_bound_ge [OF l(3,1)] 2 show ?case by (auto split: if_splits)
next
  case (3 sufs p k x out l k')
  have l: "hd l \<in> set (sufs ! p)" "x \<le> hd l" "sufs ! p \<in> set sufs"
    using 3 hd_dropWhile_in [of "\<lambda>v. v < x" "sufs ! p"] by (auto simp del: dropWhile_eq_Nil_conv)
  have "list_bound (sufs[p := l]) \<le> list_bound sufs"
    using concat_update_dropWhile [of p sufs] 3 by (intro list_bound_mono) auto
  with l list_bound_ge [OF l(3,1)] 3 show ?case by (auto split: if_splits)
qed

declare intersect_loop.simps [simp del]

definition intersect_lists :: "int list list \<Rightarrow> int list" where
  "intersect_lists ls =
     (case ls of [] \<Rightarrow> [] | [l] \<Rightarrow> l | _ \<Rightarrow> intersect_loop ls 0 0 (- 1) [])"

text \<open>\<open>last_common_state_in_lists\<close>; \<open>None\<close> when the intersection has no last element.\<close>

definition last_common_state_in_lists :: "int list list \<Rightarrow> int option" where
  "last_common_state_in_lists ls =
     (let s = last (hd ls) in
      if s \<le> 0 \<and> (\<forall>l \<in> set ls. last l = s) then Some s
      else let common = intersect_lists ls in if common = [] then None else Some (last common))"

section \<open>Dominators of a state\<close>

definition set_last :: "'a \<Rightarrow> 'a list \<Rightarrow> 'a list" where
  "set_last v l = butlast l @ [v]"

text \<open>A path that takes the other branch of the same test cannot lead to the state.\<close>

definition impossible_path :: "int \<Rightarrow> int list \<Rightarrow> bool" where
  "impossible_path brid l \<longleftrightarrow> (\<exists>b \<in> set (butlast l). b XOR brid = 1)"

definition accepted_lists :: "dominator \<Rightarrow> nat \<Rightarrow> int \<Rightarrow> nat list" where
  "accepted_lists D s brid =
     filter (\<lambda>j. \<not> impossible_path brid (d_dom D ! s ! j)) [0..<length (d_dom D ! s)]"

definition enter_branch :: "nat \<Rightarrow> int \<Rightarrow> dominator \<Rightarrow> dominator" where
  "enter_branch s brid D =
     D\<lparr>d_dom := (d_dom D)[s := map (\<lambda>l. if impossible_path brid l then l else set_last brid l)
                               (d_dom D ! s)]\<rparr>"

type_synonym dom_ref = "nat \<times> nat \<times> nat"

text \<open>
  The loop over the predecessors; \<open>prev\<close> is the state of the predecessor before, and the
  second branch of a state that follows the first shortens the last list taken.
\<close>

fun collect_doms ::
  "nat option \<Rightarrow> int list \<Rightarrow> dom_ref list \<Rightarrow> dominator \<Rightarrow> (dominator \<times> dom_ref list) option" where
  "collect_doms prev [] pdom D = Some (D, pdom)"
| "collect_doms prev (br # brs) pdom D =
     (let s = stateno br; ident = d_insn_id D ! s in
      if prev = Some s then
        if brs \<noteq> [] \<and> stateno (hd brs) = ident then None
        else if pdom = [] then None
        else case last pdom of (s', j, e) \<Rightarrow>
          if e = 0 \<or> stateno (d_dom D ! s' ! j ! (e - 1)) \<noteq> ident then None
          else collect_doms (Some s) brs (butlast pdom @ [(s', j, e - 1)]) D
      else
        let brid = brno ident (br_yes br); js = accepted_lists D s brid in
        if \<exists>j \<in> set js. stateno (last (d_dom D ! s ! j)) \<noteq> ident then None
        else collect_doms (Some s) brs (pdom @ map (\<lambda>j. (s, j, length (d_dom D ! s ! j))) js)
               (enter_branch s brid D))"

definition dom_list :: "dominator \<Rightarrow> dom_ref \<Rightarrow> int list" where
  "dom_list D r = (case r of (s, j, e) \<Rightarrow> take e (d_dom D ! s ! j))"

text \<open>
  One dominator list of the state from one of a predecessor: a state that occurs again at the
  end of the list is skipped; the last branch of the list on this state's own test, if any,
  decides the test.
\<close>

definition kept_branches :: "int list \<Rightarrow> int list" where
  "kept_branches l =
     (if l = [] then [] else filter (\<lambda>b. \<not> b XOR last l \<le> 1) (butlast l) @ [last l])"

definition decided_branch :: "int \<Rightarrow> int list \<Rightarrow> int option" where
  "decided_branch mybr l = find (\<lambda>b. b XOR mybr \<le> 1) (rev l)"

text \<open>\<open>num\<close> is negative once two lists disagree or one does not decide the test.\<close>

fun extend_doms :: "int \<Rightarrow> int \<Rightarrow> int list list \<Rightarrow> int list list \<times> int \<times> int" where
  "extend_doms mybr num [] = ([], mybr, num)"
| "extend_doms mybr num (l # ls) =
     (let kept = kept_branches l;
          (mybr', num') =
            (case decided_branch mybr kept of
               None \<Rightarrow> (mybr, - 1)
             | Some b \<Rightarrow> if 0 \<le> num \<and> (num = 0 \<or> mybr = b) then (b, num + 1) else (mybr, - 1));
          (ls', res) = extend_doms mybr' num' ls
      in ((kept @ [mybr']) # ls', res))"

definition impossible_state :: "nat \<Rightarrow> dominator \<Rightarrow> dominator" where
  "impossible_state state D =
     (let D' = (if 0 < state then set_branch state True j_never (set_branch state False j_never D)
                else D)
      in D'\<lparr>d_dom := d_dom D' @ [if 0 < state then [] else [[brno state False]]]\<rparr>)"

definition redirect_preds :: "int list \<Rightarrow> int \<Rightarrow> dominator \<Rightarrow> dominator" where
  "redirect_preds brs new_state D =
     fold (\<lambda>b. set_branch (stateno b) (br_yes b) new_state) brs D"

text \<open>The list of state 0 starts the vector: if it is cut to nothing, index -1 is read.\<close>

definition calculate_dom :: "nat \<Rightarrow> dominator \<Rightarrow> dominator option" where
  "calculate_dom state D =
     (let brs = d_pred D ! state; mybr = brno (d_insn_id D ! state) False in
      case collect_doms None brs [] D of
        None \<Rightarrow> None
      | Some (D1, pdom) \<Rightarrow>
          let ls = map (dom_list D1) pdom in
          if MAX_DOMLIST < length pdom then
            Some (D1\<lparr>d_dom := d_dom D1 @ [[intersect_lists ls @ [mybr]]]\<rparr>)
          else if pdom = [] then Some (impossible_state state D1)
          else if \<exists>(s, j, e) \<in> set pdom. s = 0 \<and> e = 0 then None
          else let (doms, mybr', num) = extend_doms mybr 0 ls in
            if 0 < num then
              Some (impossible_state state
                (redirect_preds brs (jump (d_insn D1 ! state) (odd mybr')) D1))
            else Some (D1\<lparr>d_dom := d_dom D1 @ [doms]\<rparr>))"

section \<open>Moving a branch\<close>

text \<open>The inner loop of \<open>dom_shift_branch\<close>: where the last branch that decides it sends a state.\<close>

definition dom_next :: "dominator \<Rightarrow> int list \<Rightarrow> nat \<Rightarrow> int option" where
  "dom_next D l state =
     map_option (\<lambda>b. jump (d_insn D ! state) (br_implies D b state))
       (find (\<lambda>b. br_implies D b state \<or> br_implies_not D b state) (rev l))"

text \<open>The states \<open>dom_shift_branch\<close> collects; its result is the last of them.\<close>

partial_function (option) shift_path :: "dominator \<Rightarrow> int list \<Rightarrow> int \<Rightarrow> int list option" where
  "shift_path D l to_state =
     (if to_state \<le> 0 then Some [to_state]
      else if length (d_insn D) \<le> nat to_state then None
      else case dom_next D l (nat to_state) of
             None \<Rightarrow> Some [to_state]
           | Some to_state' \<Rightarrow>
               Option.bind (shift_path D l to_state') (\<lambda>path. Some (to_state # path)))"

fun shift_paths :: "dominator \<Rightarrow> int list list \<Rightarrow> int \<Rightarrow> int list list option" where
  "shift_paths D [] to_state = Some []"
| "shift_paths D (l # ls) to_state =
     Option.bind (shift_path D l to_state)
       (\<lambda>path. map_option (\<lambda>paths. path # paths) (shift_paths D ls to_state))"

definition shift_branch :: "nat \<Rightarrow> bool \<Rightarrow> dominator \<Rightarrow> dominator option" where
  "shift_branch state branch D =
     (let nexts = jump (d_insn D ! state) branch; doms = d_dom D ! state;
          ident = d_insn_id D ! state; brid = brno ident branch in
      if doms = [] \<or> nexts \<le> 0 then Some D
      else if \<exists>l \<in> set doms. l = [] \<or> stateno (last l) \<noteq> ident then None
      else let doms' = map (set_last brid) doms; D1 = D\<lparr>d_dom := (d_dom D)[state := doms']\<rparr> in
        case shift_paths D1 doms' nexts of
          None \<Rightarrow> None
        | Some paths \<Rightarrow>
            (case (if length doms' = 1 then Some (last (hd paths))
                   else last_common_state_in_lists paths) of
               None \<Rightarrow> None
             | Some new_nexts \<Rightarrow>
                 Some (if new_nexts = nexts then D1 else set_branch state branch new_nexts D1)))"

definition run_dominator :: "nat \<Rightarrow> dominator \<Rightarrow> dominator option" where
  "run_dominator state D =
     Option.bind (calculate_dom state D)
       (\<lambda>D1. Option.bind (shift_branch state True D1) (shift_branch state False))"

fun run_dominators :: "nat list \<Rightarrow> dominator \<Rightarrow> dominator option" where
  "run_dominators [] D = Some D"
| "run_dominators (s # ss) D = Option.bind (run_dominator s D) (run_dominators ss)"

definition dominator_optimize :: "insn list \<Rightarrow> insn list option" where
  "dominator_optimize P =
     map_option d_insn (run_dominators [0..<length P] (new_dominator P))"

end
