(* ===== verification/Wordwise_Dominator_Correct.thy ===== *)
theory Wordwise_Dominator_Correct
  imports Wordwise_Dominator
begin

text \<open>
  What the dominator optimiser keeps. The arguments follow one packet, given by the words
  its tests read: a state of the packet's path has a list of branches that the packet takes,
  and a branch is only moved to a state where the packet arrives anyway.
\<close>

section \<open>Intersections\<close>

lemma mod_cover:
  assumes "q < (n::nat)" "p < n"
  obtains i where "i < n" "(p + n - 1 - i) mod n = q"
proof (cases "q < p")
  case True
  then have "p - 1 - q < n" "(p + n - 1 - (p - 1 - q)) mod n = q"
    using assms by (auto simp: le_mod_geq)
  then show ?thesis by (rule that)
next
  case False
  then have "p + n - 1 - q < n" "(p + n - 1 - (p + n - 1 - q)) mod n = q"
    using assms by auto
  then show ?thesis by (rule that)
qed

lemma intersect_loop_step:
  assumes "p < length sufs" "l = dropWhile (\<lambda>v. v < x) (sufs ! p)" "l \<noteq> []"
    and "k' = (if x < hd l then 0 else k) + 1"
  shows "k' < length sufs \<Longrightarrow> intersect_loop sufs p k x out =
      intersect_loop (sufs[p := l]) (if p + 1 = length sufs then 0 else p + 1) k' (hd l) out"
    and "\<not> k' < length sufs \<Longrightarrow> intersect_loop sufs p k x out =
      intersect_loop (sufs[p := l]) 0 0 (hd l + 1) (out @ [hd l])"
proof -
  have "\<not> length sufs \<le> p" using assms(1) by simp
  then show "k' < length sufs \<Longrightarrow> intersect_loop sufs p k x out =
      intersect_loop (sufs[p := l]) (if p + 1 = length sufs then 0 else p + 1) k' (hd l) out"
    and "\<not> k' < length sufs \<Longrightarrow> intersect_loop sufs p k x out =
      intersect_loop (sufs[p := l]) 0 0 (hd l + 1) (out @ [hd l])"
    using assms(3) unfolding intersect_loop.simps [of sufs p k x out] Let_def
      assms(2) [symmetric] assms(4) [symmetric]
    by (simp_all only: if_False if_True not_False_eq_True)
qed

text \<open>Everything the loop puts out is on every list.\<close>

lemma intersect_loop_subset:
  assumes "length sufs = length ls" "\<And>q. q < length ls \<Longrightarrow> set (sufs ! q) \<subseteq> set (ls ! q)"
    and "k < length ls" "\<And>i. i < k \<Longrightarrow> x \<in> set (ls ! ((p + length ls - 1 - i) mod length ls))"
    and "p < length ls" "\<And>v l. v \<in> set out \<Longrightarrow> l \<in> set ls \<Longrightarrow> v \<in> set l"
  shows "\<forall>v \<in> set (intersect_loop sufs p k x out). \<forall>l \<in> set ls. v \<in> set l"
  using assms
proof (induction sufs p k x out rule: intersect_loop.induct)
  case (1 sufs p k x out)
  let ?n = "length ls" and ?l = "dropWhile (\<lambda>v. v < x) (sufs ! p)"
  let ?k = "(if x < hd ?l then 0 else k) + 1" and ?p = "if p + 1 = length ls then 0 else p + 1"
  show ?case
  proof (cases "?l = []")
    case True
    then show ?thesis using 1(7,8) 1(3) by (subst intersect_loop.simps) (auto simp: Let_def)
  next
    case False
    note hd = hd_dropWhile_in [OF False]
    have sub: "set (sufs[p := ?l] ! q) \<subseteq> set (ls ! q)" if "q < ?n" for q
      using 1(4) [OF that] 1(4) [OF 1(7)] 1(3) that set_dropWhileD [of _ "\<lambda>v. v < x" "sufs ! p"]
      by (auto simp: nth_list_update_if)
    have x: "hd ?l \<in> set (ls ! ((?p + ?n - 1 - i) mod ?n))" if "i < ?k" for i
    proof (cases i)
      case 0
      have "(?p + ?n - 1) mod ?n = p" using 1(7) by auto
      with 0 hd 1(4) [OF 1(7)] show ?thesis by auto
    next
      case (Suc i')
      then have "\<not> x < hd ?l" "i' < k" using that by (auto split: if_splits)
      then have "hd ?l = x" "x \<in> set (ls ! ((p + ?n - 1 - i') mod ?n))" using hd 1(6) by auto
      moreover have "(?p + ?n - 1 - i) mod ?n = (p + ?n - 1 - i') mod ?n"
        using Suc \<open>i' < k\<close> 1(5,7) by (auto simp: le_mod_geq)
      ultimately show ?thesis by simp
    qed
    show ?thesis
    proof (cases "?k < ?n")
      case True
      have "\<forall>v \<in> set (intersect_loop (sufs[p := ?l]) ?p ?k (hd ?l) out). \<forall>l \<in> set ls. v \<in> set l"
      proof (rule 1(1) [OF _ refl False refl, unfolded 1(3)])
        show "\<not> ?n \<le> p" using 1(7) by simp
        show "?k < ?n" by (rule True)
        then show "?k < ?n" .
        show "length (sufs[p := ?l]) = ?n" by (simp add: 1(3))
        show "?p < ?n" using 1(7) by auto
      qed (fact sub x 1(8))+
      then show ?thesis
        using intersect_loop_step(1) [OF _ refl False refl, of k out] 1(3,7) True by (simp only: 1(3) not_False_eq_True simp_thms)
    next
      case False2: False
      have all: "hd ?l \<in> set l" if "l \<in> set ls" for l
      proof -
        obtain q where q: "q < ?n" "l = ls ! q" using \<open>l \<in> set ls\<close> by (auto simp: in_set_conv_nth)
        obtain i where "i < ?n" "(?p + ?n - 1 - i) mod ?n = q"
          by (rule mod_cover [OF q(1), of ?p]) (use 1(7) in auto)
        with x [of i] False2 q(2) show ?thesis by auto
      qed
      have "\<forall>v \<in> set (intersect_loop (sufs[p := ?l]) 0 0 (hd ?l + 1) (out @ [hd ?l])). \<forall>l \<in> set ls. v \<in> set l"
      proof (rule 1(2) [OF _ refl False refl, unfolded 1(3)])
        show "\<not> ?n \<le> p" using 1(7) by simp
        show "\<not> ?k < ?n" by (rule False2)
        show "length (sufs[p := ?l]) = ?n" by (simp add: 1(3))
        show "0 < ?n" using 1(7) by linarith
        then show "0 < ?n" .
        show "v \<in> set l" if "v \<in> set (out @ [hd ?l])" "l \<in> set ls" for v l
          using that all 1(8) by auto
      qed (use sub in simp_all)
      then show ?thesis
        using intersect_loop_step(2) [OF _ refl False refl, of k out] 1(3,7) False2 by (simp only: 1(3) not_False_eq_True simp_thms)
    qed
  qed
qed

lemma intersect_lists_subset:
  assumes "v \<in> set (intersect_lists ls)" "l \<in> set ls" shows "v \<in> set l"
proof -
  consider "ls = []" | l where "ls = [l]" | a b c where "ls = a # b # c"
    by (metis list.exhaust)
  then show ?thesis
  proof cases
    case 3
    then show ?thesis
      using intersect_loop_subset [of ls ls 0 "- 1" 0 "[]"] assms by (auto simp: intersect_lists_def)
  qed (use assms in \<open>auto simp: intersect_lists_def\<close>)
qed

text \<open>The output is never taken back, and lists with one head have that head in common.\<close>

lemma intersect_loop_out: "\<exists>ys. intersect_loop sufs p k x out = out @ ys"
proof (induction sufs p k x out rule: intersect_loop.induct)
  case (1 sufs p k x out)
  show ?case
    using 1 by (subst intersect_loop.simps) (fastforce simp: Let_def)
qed

lemma intersect_loop_head:
  assumes "0 < k" "k \<le> length sufs" "\<And>l. l \<in> set sufs \<Longrightarrow> l \<noteq> [] \<and> hd l = h" "k < length sufs"
  shows "intersect_loop sufs k k h [] \<noteq> []"
  using assms(1,4)
proof (induction "length sufs - k" arbitrary: k rule: less_induct)
  case less
  let ?l = "sufs ! k"
  have l: "?l \<noteq> []" "hd ?l = h" using assms(3) [of ?l] less.prems by auto
  then have d: "dropWhile (\<lambda>v. v < h) ?l = ?l" by (cases ?l) auto
  show ?case
  proof (cases "k + 1 < length sufs")
    case True
    have "intersect_loop sufs k k h [] = intersect_loop sufs (k + 1) (k + 1) h []"
      using less.prems l d True by (subst intersect_loop.simps) (simp add: Let_def)
    with less.hyps [of "k + 1"] True less.prems show ?thesis by simp
  next
    case False
    then have "intersect_loop sufs k k h [] = intersect_loop sufs 0 0 (h + 1) [h]"
      using less.prems l d by (subst intersect_loop.simps) (simp add: Let_def)
    then show ?thesis using intersect_loop_out [of sufs 0 0 "h + 1" "[h]"] by auto
  qed
qed

lemma intersect_lists_head:
  assumes "ls \<noteq> []" "\<And>l. l \<in> set ls \<Longrightarrow> l \<noteq> [] \<and> hd l = h" "0 \<le> h"
  shows "intersect_lists ls \<noteq> []"
proof (cases "length ls = 1")
  case True
  then obtain l where "ls = [l]" by (cases ls) auto
  with assms(2) show ?thesis by (simp add: intersect_lists_def)
next
  case False
  then have n: "1 < length ls" using assms(1) by (cases ls) auto
  have l: "ls ! 0 \<noteq> []" "hd (ls ! 0) = h" using assms(1,2) by auto
  then have d: "dropWhile (\<lambda>v. v < - 1) (ls ! 0) = ls ! 0" using assms(3) by (cases "ls ! 0") auto
  have "intersect_loop ls 0 0 (- 1) [] = intersect_loop ls 1 1 h []"
    using n l d assms(1,3) by (subst intersect_loop.simps) (simp add: Let_def)
  moreover have "intersect_loop ls 1 1 h [] \<noteq> []"
    by (rule intersect_loop_head) (use n assms(2) in auto)
  moreover have "intersect_lists ls = intersect_loop ls 0 0 (- 1) []"
    using n by (cases ls; cases "tl ls") (auto simp: intersect_lists_def)
  ultimately show ?thesis by simp
qed

lemma last_common_state:
  assumes "ls \<noteq> []" "\<And>l. l \<in> set ls \<Longrightarrow> l \<noteq> [] \<and> hd l = h" "0 \<le> h"
  obtains z where "last_common_state_in_lists ls = Some z" "\<And>l. l \<in> set ls \<Longrightarrow> z \<in> set l"
proof (cases "last (hd ls) \<le> 0 \<and> (\<forall>l \<in> set ls. last l = last (hd ls))")
  case True
  then have "last_common_state_in_lists ls = Some (last (hd ls))"
    by (simp add: last_common_state_in_lists_def)
  moreover have "last (hd ls) \<in> set l" if "l \<in> set ls" for l
    using True assms(2) [OF that] that last_in_set by metis
  ultimately show ?thesis by (rule that)
next
  case False
  have ne: "intersect_lists ls \<noteq> []" by (rule intersect_lists_head [OF assms])
  then have "last_common_state_in_lists ls = Some (last (intersect_lists ls))"
    using False by (auto simp: last_common_state_in_lists_def Let_def)
  moreover have "last (intersect_lists ls) \<in> set l" if "l \<in> set ls" for l
    using intersect_lists_subset [OF last_in_set [OF ne] that] .
  ultimately show ?thesis by (rule that)
qed

section \<open>The path of a packet\<close>

inductive on_path :: "(insn \<Rightarrow> bool) \<Rightarrow> insn list \<Rightarrow> nat \<Rightarrow> bool" for t P where
  start: "on_path t P 0"
| step: "on_path t P i \<Longrightarrow> i < length P \<Longrightarrow> jump (P ! i) (t (P ! i)) = int j \<Longrightarrow> 0 < j \<Longrightarrow> on_path t P j"

lemma on_path_less: "on_path t P i \<Longrightarrow> forward P \<Longrightarrow> P \<noteq> [] \<Longrightarrow> i < length P"
proof (induction rule: on_path.induct)
  case (step i j)
  then show ?case using forward_jump [of P i "t (P ! i)"] by simp
qed simp

text \<open>Only the instructions on the path matter for the run of the packet.\<close>

lemma exec_off_path:
  assumes "forward P" "length Q = length P" "\<And>i. on_path t P i \<Longrightarrow> Q ! i = P ! i"
    and "on_path t P pos" "pos < length P"
  shows "exec t Q pos = exec t P pos"
  using assms(1,5,4)
proof (induction rule: forward_induct)
  case (step i)
  let ?j = "jump (P ! i) (t (P ! i))"
  have "on_path t P (nat ?j)" if "0 < ?j"
    using on_path.step [OF step.prems step.hyps, of "nat ?j"] that by simp
  then have "dest t Q ?j = dest t P ?j"
    using step.IH [of "t (P ! i)"] forward_jump [OF assms(1) step.hyps, of "t (P ! i)"]
    by (auto simp: dest_def)
  then show ?case using step assms(2,3) by (simp add: exec_step)
qed

text \<open>A branch may be moved to where the packet goes anyway, if the packet takes it at all.\<close>

lemma exec_move_branch:
  assumes "forward P" "jump_blind t" "i < length P" "jump_ok (length P) i j"
    and "on_path t P i \<Longrightarrow> t (P ! i) = k \<Longrightarrow> dest t P j = dest t P (jump (P ! i) k)"
  shows "exec t (P[i := set_jump k j (P ! i)]) 0 = exec t P 0"
proof -
  let ?x = "set_jump k j (P ! i)"
  have ne: "0 < length P" by (rule le_less_trans [OF zero_le assms(3)])
  have tx: "t ?x = t (P ! i)" using assms(2) by (simp add: set_jump_def jump_blind_def) (metis insn.surjective insn.update_convs(5,6))
  have ok: "insn_ok (length P) i ?x"
    using insn_ok_jump [OF forward_insn_ok [OF assms(1,3)]] assms(4) by (intro insn_okI) simp
  show ?thesis
  proof (cases "on_path t P i")
    case True
    then show ?thesis
      using exec_replace [OF assms(1) ok _ ne] assms(5) tx by (cases "t (P ! i) = k") auto
  next
    case False
    then show ?thesis
      by (intro exec_off_path [OF assms(1)]) (use ne on_path.start in \<open>auto simp: nth_list_update_if\<close>)
  qed
qed

lemma on_path_move_branch:
  assumes "on_path t (P[i := set_jump k j (P ! i)]) s" "forward P" "jump_blind t"
    and "s \<le> m" "j \<le> 0 \<or> int m < j"
  shows "on_path t P s"
  using assms(1,4)
proof (induction rule: on_path.induct)
  case start
  show ?case by (rule on_path.start)
next
  case (step a b)
  let ?Q = "P[i := set_jump k j (P ! i)]"
  have tx: "t (?Q ! a) = t (P ! a)"
    using assms(3) by (auto simp: nth_list_update_if set_jump_def jump_blind_def)
      (metis insn.surjective insn.update_convs(5,6))+
  have e: "jump (P ! a) (t (P ! a)) = int b"
    using step(2,3,4,6) assms(5) tx by (auto simp: nth_list_update_if split: if_splits)
  then have "a < b" using forward_jump [OF assms(2), of a "t (P ! a)"] step(2,4) by simp
  then show ?case using step e by (intro on_path.step [of t P a b]) auto
qed

section \<open>Chains of predecessors\<close>

definition pred_ok :: "insn list \<Rightarrow> int list list \<Rightarrow> bool" where
  "pred_ok P pred \<longleftrightarrow> length pred = length P \<and>
     (\<forall>j < length P. distinct (pred ! j) \<and>
        set (pred ! j) = {b. \<exists>i k. b = brno i k \<and> i < length P \<and> jump (P ! i) k = int j \<and> 0 < j})"

lemma brno_inject [simp]: "brno i k = brno i' k' \<longleftrightarrow> i = i' \<and> k = k'"
  by (cases k; cases k') (auto simp: brno_def, presburger+)

lemma brno_nonneg [simp]: "0 \<le> brno i k"
  by (simp add: brno_def)

lemma stateno_brno [simp]: "stateno (brno i k) = i" "br_yes (brno i k) = k"
  by (cases k; simp add: stateno_def brno_def br_yes_def)+

lemma set_chain_insert [simp]: "set (chain_insert b l) = insert b (set l)"
  unfolding chain_insert_def by (metis Un_insert_right list.simps(15) set_append takeWhile_dropWhile_id)

lemma distinct_chain_insert [simp]: "distinct (chain_insert b l) \<longleftrightarrow> b \<notin> set l \<and> distinct l"
proof -
  let ?a = "takeWhile (\<lambda>c. c < b) l" and ?b = "dropWhile (\<lambda>c. c < b) l"
  have "distinct (xs @ b # ys) \<longleftrightarrow> b \<notin> set (xs @ ys) \<and> distinct (xs @ ys)" for xs ys by auto
  from this [of ?a ?b] show ?thesis by (simp add: chain_insert_def)
qed

lemma pred_ok_set_branch:
  assumes "pred_ok P pred" "i < length P" "forward P" "jump_ok (length P) i j"
    and "D' = set_branch i k j D" "d_insn D = P" "d_pred D = pred"
  shows "pred_ok (d_insn D') (d_pred D')"
proof -
  let ?Q = "P[i := set_jump k j (P ! i)]" and ?b = "brno i k" and ?o = "jump (P ! i) k"
  let ?in = "\<lambda>R q. {b. \<exists>i k. b = brno i k \<and> i < length P \<and> jump (R ! i) k = int q \<and> 0 < q}"
  define p1 where "p1 = (if 0 < ?o then pred[nat ?o := remove1 ?b (pred ! nat ?o)] else pred)"
  define p2 where "p2 = (if 0 < j then p1[nat j := chain_insert ?b (p1 ! nat j)] else p1)"
  have D': "d_insn D' = ?Q" "d_pred D' = p2" by (simp_all add: assms(5-7) set_branch_def Let_def p1_def p2_def)
  have len: "length pred = length P" "length p1 = length P" "length p2 = length P"
    using assms(1) by (simp_all add: pred_ok_def p1_def p2_def)
  have o: "0 < ?o \<Longrightarrow> nat ?o < length P" using forward_jump [OF assms(3,2)] by blast
  have jn: "0 < j \<Longrightarrow> nat j < length P" using assms(4) by (auto simp: jump_ok_def)
  have P: "distinct (pred ! q)" "set (pred ! q) = ?in P q" if "q < length P" for q
    using assms(1) that by (auto simp: pred_ok_def)
  have p1: "distinct (p1 ! q)" "set (p1 ! q) = ?in P q - {?b}" if "q < length P" for q
  proof -
    have "?b \<in> ?in P q \<longleftrightarrow> ?o = int q \<and> 0 < q" using assms(2) by auto
    then show "distinct (p1 ! q)" "set (p1 ! q) = ?in P q - {?b}"
      using P [OF that] that len(1) by (auto simp: p1_def nth_list_update_if)
  qed
  have Q: "?in ?Q q = (?in P q - {?b}) \<union> (if j = int q \<and> 0 < q then {?b} else {})" for q
  proof -
    have key: "jump (?Q ! i') k' = (if i' = i \<and> k' = k then j else jump (P ! i') k')" if "i' < length P" for i' k'
      using that by (simp add: nth_list_update_if)
    have "b \<in> ?in ?Q q \<longleftrightarrow> b \<in> (?in P q - {?b}) \<union> (if j = int q \<and> 0 < q then {?b} else {})" for b
    proof (cases "b = ?b")
      case True
      then show ?thesis using assms(2) key [OF assms(2), of k] by auto
    next
      case False
      have key': "jump (?Q ! i') k' = jump (P ! i') k'" if "b = brno i' k'" "i' < length P" for i' k'
        using key [OF that(2), of k'] that(1) False by auto
      have "(\<exists>i k. b = brno i k \<and> i < length P \<and> jump (?Q ! i) k = int q \<and> 0 < q) \<longleftrightarrow>
          (\<exists>i k. b = brno i k \<and> i < length P \<and> jump (P ! i) k = int q \<and> 0 < q)"
        using key' by (metis (no_types, lifting))
      with False show ?thesis by simp
    qed
    then show ?thesis by blast
  qed
  have "distinct (p2 ! q) \<and> set (p2 ! q) = ?in ?Q q" if "q < length P" for q
  proof (cases "j = int q \<and> 0 < q")
    case True
    then have "p2 ! q = chain_insert ?b (p1 ! q)" using that len by (simp add: p2_def)
    then show ?thesis using True p1 [OF that] Q [of q] by auto
  next
    case False
    then have "p2 ! q = p1 ! q" by (auto simp: p2_def nth_list_update_if)
    then show ?thesis using False p1 [OF that] Q [of q] by auto
  qed
  then show ?thesis by (simp add: pred_ok_def D' len)
qed

section \<open>The invariants\<close>

lemma jump_blind_test_of:
  assumes "jump_blind t" "test_of x = test_of y" shows "t x = t y"
proof -
  have "y = x\<lparr>i_no := i_no y, i_yes := i_yes y\<rparr>"
    using assms(2) by (cases x; cases y) (simp add: test_of_def)
  with assms(1) show ?thesis unfolding jump_blind_def by metis
qed

definition ids_ok :: "insn list \<Rightarrow> nat list \<Rightarrow> bool" where
  "ids_ok P ids \<longleftrightarrow> length ids = length P \<and> (0 < length P \<longrightarrow> ids ! 0 = 0) \<and>
     (\<forall>i < length P. ids ! i < length P \<and> test_of (P ! (ids ! i)) = test_of (P ! i))"

text \<open>The packet takes a branch.\<close>

definition takes :: "(insn \<Rightarrow> bool) \<Rightarrow> insn list \<Rightarrow> int \<Rightarrow> bool" where
  "takes t P b \<longleftrightarrow> t (P ! stateno b) = br_yes b"

definition graph_inv :: "(insn \<Rightarrow> bool) \<Rightarrow> insn list \<Rightarrow> dominator \<Rightarrow> bool" where
  "graph_inv t P0 D \<longleftrightarrow> length (d_insn D) = length P0 \<and> forward (d_insn D)
     \<and> (\<forall>i < length P0. test_of (d_insn D ! i) = test_of (P0 ! i))
     \<and> exec t (d_insn D) 0 = exec t P0 0 \<and> pred_ok (d_insn D) (d_pred D)
     \<and> ids_ok P0 (d_insn_id D)"

definition lists_ok :: "nat \<Rightarrow> nat \<Rightarrow> int list list \<Rightarrow> bool" where
  "lists_ok n ident ls \<longleftrightarrow>
     (\<forall>l \<in> set ls. l \<noteq> [] \<and> stateno (last l) = ident \<and> (\<forall>b \<in> set l. 0 \<le> b \<and> stateno b < n))"

definition lists_inv :: "(insn \<Rightarrow> bool) \<Rightarrow> insn list \<Rightarrow> nat \<Rightarrow> dominator \<Rightarrow> bool" where
  "lists_inv t P0 s D \<longleftrightarrow> length (d_dom D) = s
     \<and> (\<forall>i < s. lists_ok (length P0) (d_insn_id D ! i) (d_dom D ! i))
     \<and> (\<forall>i < s. on_path t (d_insn D) i \<longrightarrow>
          (\<exists>l \<in> set (d_dom D ! i). \<forall>b \<in> set (butlast l). takes t P0 b))"

lemma set_branch_simps [simp]:
  "d_insn (set_branch i k j D) = (d_insn D)[i := set_jump k j (d_insn D ! i)]"
  "d_dom (set_branch i k j D) = d_dom D" "d_insn_id (set_branch i k j D) = d_insn_id D"
  "d_known_length (set_branch i k j D) = d_known_length D"
  by (simp_all add: set_branch_def Let_def)

lemma test_of_set_jump [simp]: "test_of (set_jump k j x) = test_of x"
  by (simp add: test_of_def)

lemma graph_inv_set_branch:
  assumes "graph_inv t P0 D" "jump_blind t" "i < length P0" "jump_ok (length P0) i j"
    and "on_path t (d_insn D) i \<Longrightarrow> t (d_insn D ! i) = k \<Longrightarrow>
      dest t (d_insn D) j = dest t (d_insn D) (jump (d_insn D ! i) k)"
  shows "graph_inv t P0 (set_branch i k j D)"
proof -
  let ?P = "d_insn D" and ?x = "set_jump k j (d_insn D ! i)"
  note g = assms(1) [unfolded graph_inv_def]
  have i: "i < length ?P" "jump_ok (length ?P) i j" using g assms(3,4) by simp_all
  have "insn_ok (length ?P) i ?x"
    using insn_ok_jump [OF forward_insn_ok [OF _ i(1)]] g i(2) by (intro insn_okI) simp
  then have "forward (?P[i := ?x])" using forward_update g by blast
  moreover have "exec t (?P[i := ?x]) 0 = exec t ?P 0"
    by (rule exec_move_branch [OF _ assms(2) i]) (use g assms(5) in auto)
  moreover have "pred_ok (d_insn (set_branch i k j D)) (d_pred (set_branch i k j D))"
    by (rule pred_ok_set_branch [OF _ i(1) _ i(2)]) (use g in auto)
  moreover have "test_of (?P[i := ?x] ! q) = test_of (P0 ! q)" if "q < length P0" for q
    using g that by (simp add: nth_list_update_if)
  ultimately show ?thesis using g by (simp add: graph_inv_def)
qed

lemma lists_inv_set_branch:
  assumes "lists_inv t P0 s D" "forward (d_insn D)" "jump_blind t" "j \<le> 0 \<or> int s \<le> j"
  shows "lists_inv t P0 s (set_branch i k j D)"
proof -
  have "on_path t (d_insn D) q" if "on_path t (d_insn (set_branch i k j D)) q" "q < s" for q
    by (rule on_path_move_branch [of t "d_insn D" i k j q q]) (use that assms in auto)
  then show ?thesis using assms(1) by (simp add: lists_inv_def)
qed

section \<open>The initial state\<close>

lemma push_pred_ok:
  assumes "length pred = length P" "\<And>j. j < length P \<Longrightarrow> distinct (pred ! j)
      \<and> set (pred ! j) = {b. \<exists>i k. b = brno i k \<and> (i, k) \<in> A \<and> jump (P ! i) k = int j \<and> 0 < j}"
    and "(i, k) \<notin> A" "j < length P"
  shows "length (push_pred i k P pred) = length P \<and> distinct (push_pred i k P pred ! j)
    \<and> set (push_pred i k P pred ! j) =
        {b. \<exists>i' k'. b = brno i' k' \<and> (i', k') \<in> insert (i, k) A \<and> jump (P ! i') k' = int j \<and> 0 < j}"
proof -
  have n: "brno i k \<notin> set (pred ! j)" using assms(2) [OF assms(4)] assms(3) by auto
  show ?thesis
  proof (cases "jump (P ! i) k = int j \<and> 0 < j")
    case True
    then have "push_pred i k P pred ! j = brno i k # pred ! j"
      using assms(1,4) by (simp add: push_pred_def)
    then show ?thesis using assms(1) assms(2) [OF assms(4)] n True by (auto simp: push_pred_def Let_def)
  next
    case False
    then have "push_pred i k P pred ! j = pred ! j"
      by (auto simp: push_pred_def Let_def nth_list_update_if)
    then show ?thesis using assms(1) assms(2) [OF assms(4)] False by (auto simp: push_pred_def Let_def)
  qed
qed

lemma find_predecessors_ok: "pred_ok P (find_predecessors P)"
proof -
  let ?f = "\<lambda>i pred. push_pred i True P (push_pred i False P pred)"
  let ?in = "\<lambda>A j. {b. \<exists>i k. b = brno i k \<and> (i, k) \<in> A \<and> jump (P ! i) k = int j \<and> 0 < j}"
  let ?p = "\<lambda>n. fold ?f [0..<n] (replicate (length P) [])"
  have "length (?p n) = length P \<and> (\<forall>j < length P. distinct (?p n ! j) \<and> set (?p n ! j) = ?in ({..<n} \<times> UNIV) j)" for n
  proof (induction n)
    case (Suc n)
    have A: "{..<Suc n} \<times> UNIV = insert (n, True) (insert (n, False) ({..<n} \<times> (UNIV :: bool set)))"
      by (auto simp: less_Suc_eq)
    have 1: "length (push_pred n False P (?p n)) = length P \<and> distinct (push_pred n False P (?p n) ! j)
        \<and> set (push_pred n False P (?p n) ! j) = ?in (insert (n, False) ({..<n} \<times> UNIV)) j" if "j < length P" for j
      by (rule push_pred_ok) (use Suc that in auto)
    have 2: "length (push_pred n True P (push_pred n False P (?p n))) = length P
        \<and> distinct (push_pred n True P (push_pred n False P (?p n)) ! j)
        \<and> set (push_pred n True P (push_pred n False P (?p n)) ! j)
          = ?in (insert (n, True) (insert (n, False) ({..<n} \<times> UNIV))) j" if "j < length P" for j
      by (rule push_pred_ok) (use 1 that in auto)
    have "length (?p (Suc n)) = length P"
      using Suc by (simp add: push_pred_def Let_def)
    with 2 show ?case by (simp add: A)
  qed (simp add: lessThan_empty_iff)
  from this [of "length P"] show ?thesis by (simp add: pred_ok_def find_predecessors_def)
qed

text \<open>Instructions with one identity make the same test, and the first keeps its number.\<close>

lemma wbyte_eqI:
  assumes "\<And>i. i < 4 \<Longrightarrow> wbyte u i = wbyte v i" shows "u = v"
proof (rule bit_eqI)
  fix n assume "possible_bit TYPE(u32) n"
  then have n: "n < 32" by simp
  have "bit (wbyte w (n div 8)) (n mod 8) = bit w n" for w
    using n by (simp add: wbyte_def bit_simps)
  from this [of u] this [of v] assms [of "n div 8"] n show "bit u n = bit v n" by simp
qed

lemma insn_bytes_test_of:
  assumes "insn_bytes x = insn_bytes y" shows "test_of x = test_of y"
proof -
  have l: "wbyte (i_mask x) i = wbyte (i_mask y) i \<and> wbyte (i_value x) i = wbyte (i_value y) i" if "i < 4" for i
  proof -
    have "insn_bytes x ! (4 + i) = insn_bytes y ! (4 + i)" "insn_bytes x ! (8 + i) = insn_bytes y ! (8 + i)"
      using assms by simp_all
    then show ?thesis using that by (simp add: insn_bytes_def nth_append word_unat_eq_iff)
  qed
  have "unat (i_offset x) mod 256 = unat (i_offset y) mod 256"
    "unat (i_offset x) div 256 = unat (i_offset y) div 256" "i_short x = i_short y"
    using assms by (cases "i_short x"; cases "i_short y"; auto simp: insn_bytes_def)+
  then have "unat (i_offset x) = unat (i_offset y)" by (metis mult_div_mod_eq)
  then have "i_offset x = i_offset y" by (simp add: word_unat_eq_iff)
  with l \<open>i_short x = i_short y\<close> show ?thesis
    unfolding test_of_def by (simp add: wbyte_eqI [of "i_mask x" "i_mask y"] wbyte_eqI [of "i_value x" "i_value y"])
qed

lemma insn_permute_props:
  "distinct (insn_permute P)" "set (insn_permute P) = {..<length P}" "length (insn_permute P) = length P"
  "sorted (map (\<lambda>i. (insn_bytes (P ! i), i)) (insn_permute P))"
  by (auto simp: insn_permute_def)

definition ids_upto :: "insn list \<Rightarrow> nat \<Rightarrow> nat list \<Rightarrow> bool" where
  "ids_upto P m ids \<longleftrightarrow> length ids = length P \<and>
     (\<forall>q < m. let i = insn_permute P ! q in
        ids ! i < length P \<and> insn_bytes (P ! (ids ! i)) = insn_bytes (P ! i) \<and> (i = 0 \<longrightarrow> ids ! i = 0))"

lemma ids_upto_step:
  assumes "ids_upto P m ids" "m < length P"
  shows "ids_upto P (Suc m) (id_step P (insn_permute P) m ids)"
proof -
  let ?perm = "insn_permute P"
  note pp = insn_permute_props [of P]
  have pn: "?perm ! q < length P" if "q < length P" for q using pp(2,3) that nth_mem by (metis lessThan_iff)
  have inj: "?perm ! q = ?perm ! q' \<longleftrightarrow> q = q'" if "q < length P" "q' < length P" for q q'
    using pp(1,3) that nth_eq_iff_index_eq by metis
  define same where "same \<longleftrightarrow> 0 < m \<and> insn_bytes (P ! (?perm ! m)) = insn_bytes (P ! (?perm ! (m - 1)))"
  define v where "v = (if same then ids ! (?perm ! (m - 1)) else ?perm ! m)"
  have I: "id_step P ?perm m ids = ids[?perm ! m := v]" by (simp add: id_step_def v_def same_def)
  have len: "length ids = length P" using assms(1) by (simp add: ids_upto_def)
  have zero: "\<not> same" if z: "?perm ! m = 0"
  proof
    assume same
    then have c: "0 < m" "insn_bytes (P ! (?perm ! m)) = insn_bytes (P ! (?perm ! (m - 1)))" by (simp_all add: same_def)
    then have "(insn_bytes (P ! (?perm ! (m - 1))), ?perm ! (m - 1)) \<le> (insn_bytes (P ! (?perm ! m)), ?perm ! m)"
      using sorted_nth_mono [OF pp(4), of "m - 1" m] assms(2) pp(3) by simp
    with z c have "?perm ! (m - 1) = 0" by simp
    with z c inj [of m "m - 1"] assms(2) show False by simp
  qed
  have v: "v < length P \<and> insn_bytes (P ! v) = insn_bytes (P ! (?perm ! m)) \<and> (?perm ! m = 0 \<longrightarrow> v = 0)"
  proof (cases same)
    case True
    then have m: "m - 1 < m" "insn_bytes (P ! (?perm ! m)) = insn_bytes (P ! (?perm ! (m - 1)))" by (simp_all add: same_def)
    have "v < length P \<and> insn_bytes (P ! v) = insn_bytes (P ! (?perm ! (m - 1)))"
      using assms(1) m(1) True unfolding ids_upto_def v_def Let_def by simp
    with m(2) zero True show ?thesis by auto
  qed (use pn [OF assms(2)] in \<open>simp add: v_def\<close>)
  show ?thesis
    unfolding ids_upto_def Let_def I
  proof (intro conjI allI impI)
    fix q assume q: "q < Suc m"
    let ?e = "ids[?perm ! m := v] ! (?perm ! q)"
    have e: "?e = (if q = m then v else ids ! (?perm ! q))"
      using q inj [of q m] assms(2) pn [OF assms(2)] len by (auto simp: nth_list_update_if)
    have o: "q \<noteq> m \<Longrightarrow> ids ! (?perm ! q) < length P \<and> insn_bytes (P ! (ids ! (?perm ! q))) = insn_bytes (P ! (?perm ! q))
        \<and> (?perm ! q = 0 \<longrightarrow> ids ! (?perm ! q) = 0)"
      using assms(1) q unfolding ids_upto_def Let_def by (metis less_SucE)
    show "?e < length P" "insn_bytes (P ! ?e) = insn_bytes (P ! (?perm ! q))"
      "?perm ! q = 0 \<Longrightarrow> ?e = 0" unfolding e using v o by auto
  qed (simp add: len)
qed

lemma insn_ids_ok: "ids_ok P (insn_ids P)"
proof -
  note pp = insn_permute_props [of P]
  have "ids_upto P m (fold (id_step P (insn_permute P)) [0..<m] (replicate (length P) 0))" if "m \<le> length P" for m
    using that
  proof (induction m)
    case (Suc m)
    then show ?case using ids_upto_step [of P m] by simp
  qed (simp add: ids_upto_def)
  from this [OF order_refl] have ids: "ids_upto P (length P) (insn_ids P)" by (simp add: insn_ids_def)
  have "insn_ids P ! i < length P \<and> test_of (P ! (insn_ids P ! i)) = test_of (P ! i) \<and> (i = 0 \<longrightarrow> insn_ids P ! i = 0)"
    if "i < length P" for i
  proof -
    have "i \<in> set (insn_permute P)" using that pp(2) by simp
    then obtain q where q: "q < length P" "insn_permute P ! q = i" using pp(3) by (metis in_set_conv_nth)
    have "insn_ids P ! i < length P \<and> insn_bytes (P ! (insn_ids P ! i)) = insn_bytes (P ! i) \<and> (i = 0 \<longrightarrow> insn_ids P ! i = 0)"
      using ids [unfolded ids_upto_def Let_def, THEN conjunct2, rule_format, OF q(1)] unfolding q(2) .
    then show ?thesis using insn_bytes_test_of [of "P ! (insn_ids P ! i)" "P ! i"] by (elim conjE, intro conjI) assumption+
  qed
  then show ?thesis using ids unfolding ids_ok_def ids_upto_def by blast
qed

lemma new_dominator_inv:
  assumes "forward P" shows "graph_inv t P (new_dominator P)" "lists_inv t P 0 (new_dominator P)"
  using assms by (simp_all add: graph_inv_def lists_inv_def new_dominator_def find_predecessors_ok insn_ids_ok)

end
