(* ===== verification/Wordwise_Dominator_Run.thy ===== *)
theory Wordwise_Dominator_Run
  imports Wordwise_Dominator_Correct
begin

text \<open>
  Runs of the dominator optimiser: \<open>calculate_dom\<close> and \<open>shift_branch\<close> keep the invariants of
  \<open>Wordwise_Dominator_Correct\<close>, as long as both branches of a state that lead to one place
  are next to each other in its chain and the state has one list of dominators.
\<close>

section \<open>Clean chains\<close>

fun clean_chain :: "dominator \<Rightarrow> int list \<Rightarrow> bool" where
  "clean_chain D [] = True"
| "clean_chain D [b] = True"
| "clean_chain D (b # c # brs) =
     (let s = stateno b in
      if stateno c = s then
        0 < s \<and> length (d_dom D ! s) = 1
        \<and> \<not> impossible_path (brno (d_insn_id D ! s) (br_yes b)) (hd (d_dom D ! s))
        \<and> (brs \<noteq> [] \<longrightarrow> stateno (hd brs) \<noteq> d_insn_id D ! s)
        \<and> s \<notin> stateno ` set brs \<and> clean_chain D brs
      else s \<notin> stateno ` set (c # brs) \<and> clean_chain D (c # brs))"

text \<open>The dominator lists such a chain contributes.\<close>

fun clean_doms :: "dominator \<Rightarrow> int list \<Rightarrow> int list list" where
  "clean_doms D [] = []"
| "clean_doms D (b # brs) =
     (let s = stateno b; brid = brno (d_insn_id D ! s) (br_yes b) in
      if brs \<noteq> [] \<and> stateno (hd brs) = s then butlast (hd (d_dom D ! s)) # clean_doms D (tl brs)
      else map (set_last brid) (filter (\<lambda>l. \<not> impossible_path brid l) (d_dom D ! s)) @ clean_doms D brs)"

lemma clean_cong:
  assumes "d_insn_id D' = d_insn_id D" "\<And>b. b \<in> set brs \<Longrightarrow> d_dom D' ! stateno b = d_dom D ! stateno b"
  shows "clean_chain D' brs = clean_chain D brs \<and> clean_doms D' brs = clean_doms D brs"
  using assms
proof (induction D brs rule: clean_chain.induct)
  case (3 D b c brs)
  show ?case
  proof (cases "stateno c = stateno b")
    case True
    have "clean_chain D' brs = clean_chain D brs \<and> clean_doms D' brs = clean_doms D brs"
      by (rule 3(1) [OF refl]) (use True 3 in auto)
    then show ?thesis using True 3(3,4) by (simp add: Let_def)
  next
    case False
    have "clean_chain D' (c # brs) = clean_chain D (c # brs) \<and> clean_doms D' (c # brs) = clean_doms D (c # brs)"
      by (rule 3(2) [OF refl]) (use False 3 in auto)
    then show ?thesis using False 3(3,4) by (simp add: Let_def del: clean_doms.simps(2)) (simp add: Let_def)
  qed
qed auto

text \<open>What the loop over the predecessors changes: the last branches of lists only.\<close>

definition same_but_lasts :: "dominator \<Rightarrow> dominator \<Rightarrow> bool" where
  "same_but_lasts D D' \<longleftrightarrow> D' = D\<lparr>d_dom := d_dom D'\<rparr> \<and> length (d_dom D') = length (d_dom D)
     \<and> (\<forall>s < length (d_dom D). map butlast (d_dom D' ! s) = map butlast (d_dom D ! s))"

lemma same_but_lasts_refl [simp]: "same_but_lasts D D"
  by (simp add: same_but_lasts_def)

lemma same_but_lasts_trans: "same_but_lasts D D' \<Longrightarrow> same_but_lasts D' D'' \<Longrightarrow> same_but_lasts D D''"
  unfolding same_but_lasts_def by (metis dominator.update_convs(4) dominator.surjective)

definition doms_ok :: "nat \<Rightarrow> dominator \<Rightarrow> bool" where
  "doms_ok n D \<longleftrightarrow> (\<forall>s < length (d_dom D). lists_ok n (d_insn_id D ! s) (d_dom D ! s))"

lemma butlast_set_last [simp]: "butlast (set_last v l) = butlast l" "set_last v l \<noteq> []" "last (set_last v l) = v"
  "set (set_last v l) = insert v (set (butlast l))" "l \<noteq> [] \<Longrightarrow> length (set_last v l) = length l"
  by (simp_all add: set_last_def)

lemma enter_branch_props:
  assumes "doms_ok n D" "s < length (d_dom D)" "stateno brid = d_insn_id D ! s" "d_insn_id D ! s < n" "0 \<le> brid"
  shows "same_but_lasts D (enter_branch s brid D)" "doms_ok n (enter_branch s brid D)"
    "d_insn_id (enter_branch s brid D) = d_insn_id D"
    "q \<noteq> s \<Longrightarrow> d_dom (enter_branch s brid D) ! q = d_dom D ! q"
    "d_dom (enter_branch s brid D) ! s = map (\<lambda>l. if impossible_path brid l then l else set_last brid l) (d_dom D ! s)"
proof -
  let ?f = "\<lambda>l. if impossible_path brid l then l else set_last brid l"
  show "same_but_lasts D (enter_branch s brid D)"
    by (auto simp: same_but_lasts_def enter_branch_def nth_list_update_if)
  show "d_insn_id (enter_branch s brid D) = d_insn_id D" by (simp add: enter_branch_def)
  show "q \<noteq> s \<Longrightarrow> d_dom (enter_branch s brid D) ! q = d_dom D ! q" by (simp add: enter_branch_def)
  show here: "d_dom (enter_branch s brid D) ! s = map ?f (d_dom D ! s)" using assms(2) by (simp add: enter_branch_def)
  have "lists_ok n (d_insn_id D ! s) (map ?f (d_dom D ! s))"
    using assms in_set_butlastD [of _ "_ :: int list"] by (auto simp: doms_ok_def lists_ok_def)
  then show "doms_ok n (enter_branch s brid D)"
    using assms(1,2) by (auto simp: doms_ok_def enter_branch_def nth_list_update_if)
qed

lemma accepted_lists_doms:
  assumes "\<And>l. l \<in> set (d_dom D ! s) \<Longrightarrow> l \<noteq> []" "s < length (d_dom D)"
  shows "map (dom_list (enter_branch s brid D)) (map (\<lambda>j. (s, j, length (d_dom D ! s ! j))) (accepted_lists D s brid))
    = map (set_last brid) (filter (\<lambda>l. \<not> impossible_path brid l) (d_dom D ! s))"
proof -
  let ?ls = "d_dom D ! s"
  have "map (\<lambda>j. dom_list (enter_branch s brid D) (s, j, length (?ls ! j))) (accepted_lists D s brid)
      = map (\<lambda>j. set_last brid (?ls ! j)) (accepted_lists D s brid)"
    using assms by (intro map_cong refl) (auto simp: accepted_lists_def dom_list_def enter_branch_def)
  also have "\<dots> = map (set_last brid) (map ((!) ?ls) (filter (\<lambda>j. \<not> impossible_path brid (?ls ! j)) [0..<length ?ls]))"
    by (simp add: accepted_lists_def comp_def)
  also have "map ((!) ?ls) (filter (\<lambda>j. \<not> impossible_path brid (?ls ! j)) [0..<length ?ls])
      = filter (\<lambda>l. \<not> impossible_path brid l) (map ((!) ?ls) [0..<length ?ls])"
    by (simp add: filter_map comp_def)
  finally show ?thesis by (simp add: comp_def map_nth)
qed

lemma clean_other:
  assumes "d_insn_id D' = d_insn_id D" "\<And>q. q \<noteq> s \<Longrightarrow> d_dom D' ! q = d_dom D ! q" "s \<notin> stateno ` set brs"
  shows "clean_chain D' brs = clean_chain D brs \<and> clean_doms D' brs = clean_doms D brs"
  by (rule clean_cong [OF assms(1)]) (metis assms(2,3) imageI)

text \<open>The outcome of the loop over a clean chain.\<close>

definition collected ::
  "nat \<Rightarrow> dominator \<Rightarrow> int list \<Rightarrow> nat option \<Rightarrow> dom_ref list \<Rightarrow> bool" where
  "collected n D brs prev pdom \<longleftrightarrow>
     (\<exists>D1 new. collect_doms prev brs pdom D = Some (D1, pdom @ new) \<and> same_but_lasts D D1 \<and> doms_ok n D1
        \<and> (\<forall>q. q \<notin> stateno ` set brs \<longrightarrow> d_dom D1 ! q = d_dom D ! q)
        \<and> map (dom_list D1) new = clean_doms D brs
        \<and> (\<forall>(s, j, e) \<in> set new. s \<in> stateno ` set brs \<and> (s = 0 \<longrightarrow> 0 < e)))"

lemma dom_list_cong: "d_dom D1 ! s = d_dom D ! s \<Longrightarrow> dom_list D1 (s, j, e) = dom_list D (s, j, e)"
  by (simp add: dom_list_def)

lemma collected_single:
  assumes "doms_ok n D" "\<And>s. s < length (d_dom D) \<Longrightarrow> d_insn_id D ! s < n"
    and "s = stateno b" "s < length (d_dom D)" "prev \<noteq> Some s" "s \<notin> stateno ` set brs"
    and "\<And>D' pdom. same_but_lasts D D' \<Longrightarrow> doms_ok n D' \<Longrightarrow> clean_doms D' brs = clean_doms D brs \<Longrightarrow>
      (\<And>q. q \<noteq> s \<Longrightarrow> d_dom D' ! q = d_dom D ! q) \<Longrightarrow> collected n D' brs (Some s) pdom"
  shows "collected n D (b # brs) prev pdom"
proof -
  define brid where "brid = brno (d_insn_id D ! s) (br_yes b)"
  let ?D = "enter_branch s brid D"
  let ?refs = "map (\<lambda>j. (s, j, length (d_dom D ! s ! j))) (accepted_lists D s brid)"
  note e = enter_branch_props [OF assms(1,4), of brid]
  have sb: "stateno brid = d_insn_id D ! s" "d_insn_id D ! s < n" "0 \<le> brid" using assms(2,4) by (simp_all add: brid_def)
  have ok: "l \<noteq> [] \<and> stateno (last l) = d_insn_id D ! s" if "l \<in> set (d_dom D ! s)" for l
    using assms(1,4) that by (auto simp: doms_ok_def lists_ok_def)
  have js: "j < length (d_dom D ! s)" if "j \<in> set (accepted_lists D s brid)" for j
    using that by (simp add: accepted_lists_def)
  have cd: "clean_doms ?D brs = clean_doms D brs"
    using clean_other [OF e(3) [OF sb] e(4) [OF sb] assms(6)] by blast
  obtain D1 new where c: "collect_doms (Some s) brs (pdom @ ?refs) ?D = Some (D1, (pdom @ ?refs) @ new)"
    "same_but_lasts ?D D1" "doms_ok n D1" "\<And>q. q \<notin> stateno ` set brs \<Longrightarrow> d_dom D1 ! q = d_dom ?D ! q"
    "map (dom_list D1) new = clean_doms ?D brs"
    "\<forall>(s, j, e) \<in> set new. s \<in> stateno ` set brs \<and> (s = 0 \<longrightarrow> 0 < e)"
    using assms(7) [OF e(1,2) [OF sb] cd e(4) [OF sb], of "pdom @ ?refs"] unfolding collected_def by auto
  have "collect_doms prev (b # brs) pdom D = Some (D1, pdom @ (?refs @ new))"
    using assms(5) ok js c(1) by (auto simp: assms(3) [symmetric] Let_def brid_def [symmetric])
  moreover have "map (dom_list D1) (?refs @ new) = clean_doms D (b # brs)"
  proof -
    have "map (dom_list D1) ?refs = map (dom_list ?D) ?refs"
      using dom_list_cong [OF c(4) [OF assms(6)]] by (auto simp: comp_def)
    also have "\<dots> = map (set_last brid) (filter (\<lambda>l. \<not> impossible_path brid l) (d_dom D ! s))"
      using accepted_lists_doms [OF _ assms(4)] ok by blast
    finally show ?thesis
      using c(5) cd assms(6) hd_in_set [of brs] by (auto simp: Let_def assms(3) [symmetric] brid_def [symmetric])
  qed
  moreover have "\<forall>(s', j, e) \<in> set (?refs @ new). s' \<in> stateno ` set (b # brs) \<and> (s' = 0 \<longrightarrow> 0 < e)"
    using c(6) assms(3) ok js nth_mem by (fastforce)
  moreover have "same_but_lasts D D1" using same_but_lasts_trans [OF e(1) [OF sb] c(2)] .
  moreover have "d_dom D1 ! q = d_dom D ! q" if "q \<notin> stateno ` set (b # brs)" for q
    using c(4) [of q] e(4) [OF sb, of q] that assms(3) by auto
  ultimately show ?thesis using c(3) unfolding collected_def by blast
qed

lemma collected_pair:
  assumes "doms_ok n D" "\<And>s. s < length (d_dom D) \<Longrightarrow> d_insn_id D ! s < n"
    and "s = stateno b" "stateno c = s" "s < length (d_dom D)" "prev \<noteq> Some s" "s \<notin> stateno ` set brs"
    and "0 < s" "length (d_dom D ! s) = 1" "\<not> impossible_path (brno (d_insn_id D ! s) (br_yes b)) (hd (d_dom D ! s))"
    and "brs \<noteq> [] \<longrightarrow> stateno (hd brs) \<noteq> d_insn_id D ! s"
    and "\<And>D' pdom. same_but_lasts D D' \<Longrightarrow> doms_ok n D' \<Longrightarrow> clean_doms D' brs = clean_doms D brs \<Longrightarrow>
      (\<And>q. q \<noteq> s \<Longrightarrow> d_dom D' ! q = d_dom D ! q) \<Longrightarrow> collected n D' brs (Some s) pdom"
  shows "collected n D (b # c # brs) prev pdom"
proof -
  define brid where "brid = brno (d_insn_id D ! s) (br_yes b)"
  let ?D = "enter_branch s brid D"
  obtain l where l: "d_dom D ! s = [l]" using assms(9) by (auto simp: length_Suc_conv)
  note e = enter_branch_props [OF assms(1,5), of brid]
  have sb: "stateno brid = d_insn_id D ! s" "d_insn_id D ! s < n" "0 \<le> brid" using assms(2,5) by (simp_all add: brid_def)
  have ok: "l \<noteq> []" "stateno (last l) = d_insn_id D ! s" using assms(1,5) l by (auto simp: doms_ok_def lists_ok_def)
  have imp: "\<not> impossible_path brid l" using assms(10) l by (simp add: brid_def)
  have Ds: "d_dom ?D ! s = [set_last brid l]" using e(5) [OF sb] l imp by simp
  have acc: "accepted_lists D s brid = [0]" using l imp by (simp add: accepted_lists_def)
  have cd: "clean_doms ?D brs = clean_doms D brs"
    using clean_other [OF e(3) [OF sb] e(4) [OF sb] assms(7)] by blast
  let ?r = "(s, 0, length l - 1)"
  obtain D1 new where c: "collect_doms (Some s) brs (pdom @ [?r]) ?D = Some (D1, (pdom @ [?r]) @ new)"
    "same_but_lasts ?D D1" "doms_ok n D1" "\<And>q. q \<notin> stateno ` set brs \<Longrightarrow> d_dom D1 ! q = d_dom ?D ! q"
    "map (dom_list D1) new = clean_doms ?D brs"
    "\<forall>(s, j, e) \<in> set new. s \<in> stateno ` set brs \<and> (s = 0 \<longrightarrow> 0 < e)"
    using assms(12) [OF e(1,2) [OF sb] cd e(4) [OF sb], of "pdom @ [?r]"] unfolding collected_def by auto
  have lst: "set_last brid l ! (length l - Suc 0) = brid" using ok(1) by (simp add: set_last_def nth_append)
  have "collect_doms prev (b # c # brs) pdom D = Some (D1, pdom @ (?r # new))"
    using assms(6,11) ok l c(1) acc Ds lst sb e(3) [OF sb]
    by (simp add: assms(3) [symmetric] assms(4) Let_def brid_def [symmetric]) blast
  moreover have "map (dom_list D1) (?r # new) = clean_doms D (b # c # brs)"
  proof -
    have "dom_list D1 ?r = butlast l"
      using c(4) [OF assms(7)] Ds ok(1) by (simp add: dom_list_def set_last_def)
    then show ?thesis using c(5) cd l assms(3,4) by (simp add: Let_def)
  qed
  moreover have "\<forall>(s', j, e) \<in> set (?r # new). s' \<in> stateno ` set (b # c # brs) \<and> (s' = 0 \<longrightarrow> 0 < e)"
    using c(6) assms(3,8) by auto
  moreover have "same_but_lasts D D1" using same_but_lasts_trans [OF e(1) [OF sb] c(2)] .
  moreover have "d_dom D1 ! q = d_dom D ! q" if "q \<notin> stateno ` set (b # c # brs)" for q
    using c(4) [of q] e(4) [OF sb, of q] that assms(3) by auto
  ultimately show ?thesis using c(3) unfolding collected_def by blast
qed

lemma collect_clean:
  assumes "clean_chain D brs" "doms_ok n D" "\<And>s. s < length (d_dom D) \<Longrightarrow> d_insn_id D ! s < n"
    and "\<And>b. b \<in> set brs \<Longrightarrow> stateno b < length (d_dom D)" "prev \<notin> Some ` stateno ` set brs"
  shows "collected n D brs prev pdom"
  using assms
proof (induction "length brs" arbitrary: D brs prev pdom rule: less_induct)
  case less
  have go: "collected n D' rest (Some s) pdom'"
    if "length rest < length brs" "set rest \<subseteq> set brs" "clean_chain D rest" "s \<notin> stateno ` set rest"
      "same_but_lasts D D'" "doms_ok n D'" "\<And>q. q \<noteq> s \<Longrightarrow> d_dom D' ! q = d_dom D ! q" for D' rest pdom' s
  proof (rule less.hyps [OF that(1)])
    have D': "d_insn_id D' = d_insn_id D" "length (d_dom D') = length (d_dom D)"
      using that(5) unfolding same_but_lasts_def
      by (metis dominator.select_convs(3) dominator.surjective dominator.update_convs(4), blast)
    show "clean_chain D' rest" using clean_other [OF D'(1) that(7,4)] that(3) by blast
    show "d_insn_id D' ! q < n" if "q < length (d_dom D')" for q using less.prems(3) that D' by simp
    show "stateno b < length (d_dom D')" if "b \<in> set rest" for b
      using less.prems(4) \<open>set rest \<subseteq> set brs\<close> that D' by auto
    show "Some s \<notin> Some ` stateno ` set rest" using that(4) by auto
  qed (rule that(6))
  consider "brs = []" | b where "brs = [b]" | b c rest where "brs = b # c # rest"
    by (metis list.exhaust)
  then show ?case
  proof cases
    case 1
    then show ?thesis using less.prems(2) by (simp add: collected_def)
  next
    case (2 b)
    show ?thesis
      unfolding 2
      by (rule collected_single [OF less.prems(2,3) refl])
        (use less.prems 2 in \<open>auto simp: collected_def\<close>)
  next
    case (3 b c rest)
    let ?s = "stateno b"
    have sb: "?s < length (d_dom D)" "prev \<noteq> Some ?s" using less.prems(4,5) 3 by auto
    show ?thesis
    proof (cases "stateno c = ?s")
      case True
      have cl: "0 < ?s" "length (d_dom D ! ?s) = 1"
        "\<not> impossible_path (brno (d_insn_id D ! ?s) (br_yes b)) (hd (d_dom D ! ?s))"
        "rest \<noteq> [] \<longrightarrow> stateno (hd rest) \<noteq> d_insn_id D ! ?s" "?s \<notin> stateno ` set rest" "clean_chain D rest"
        using less.prems(1) True by (simp_all add: 3 Let_def)
      show ?thesis
        unfolding 3
        by (rule collected_pair [OF less.prems(2,3) refl True sb cl(5,1,2,3,4)], assumption)
          (rule go [OF _ _ cl(6,5)], auto simp: 3)
    next
      case False
      have cl: "?s \<notin> stateno ` set (c # rest)" "clean_chain D (c # rest)"
        using less.prems(1) False by (auto simp: 3 Let_def)
      show ?thesis
        unfolding 3
        by (rule collected_single [OF less.prems(2,3) refl sb cl(1)], assumption)
          (rule go [OF _ _ cl(2,1)], auto simp: 3)
    qed
  qed
qed

section \<open>Lists the packet follows\<close>

lemma xor_one:
  assumes "(c :: int) XOR d = 1" shows "stateno c = stateno d" "br_yes c \<noteq> br_yes d"
proof -
  have "drop_bit 1 c XOR drop_bit 1 d = drop_bit 1 (1 :: int)" using assms by (metis drop_bit_xor)
  then have "drop_bit 1 c = drop_bit 1 d" by (simp add: drop_bit_eq_div) (metis xor.right_neutral xor.left_commute xor_self_eq)
  then show "stateno c = stateno d" by (simp add: stateno_def drop_bit_eq_div)
  have "odd (c XOR d)" using assms by simp
  then show "br_yes c \<noteq> br_yes d" by (simp add: br_yes_def even_xor_iff)
qed

lemma xor_small:
  assumes "(c :: int) XOR d \<le> 1" "0 \<le> c" "0 \<le> d" shows "stateno c = stateno d"
proof -
  have "0 \<le> c XOR d" using assms(2,3) by simp
  with assms(1) consider "c XOR d = 0" | "c XOR d = 1" by linarith
  then show ?thesis
  proof cases
    case 1
    then have "c = d" by (metis xor.right_neutral xor.left_commute xor_self_eq)
    then show ?thesis by simp
  qed (rule xor_one)
qed

definition all_taken :: "(insn \<Rightarrow> bool) \<Rightarrow> insn list \<Rightarrow> int list \<Rightarrow> bool" where
  "all_taken t P l \<longleftrightarrow> (\<forall>b \<in> set l. takes t P b)"

lemma taken_not_impossible:
  assumes "all_taken t P (butlast l)" "takes t P brid" shows "\<not> impossible_path brid l"
  using assms xor_one unfolding impossible_path_def all_taken_def takes_def by metis

text \<open>If the packet arrives over a branch of the chain, one of the collected lists is its own.\<close>

lemma clean_doms_taken:
  assumes "clean_chain D brs" "b \<in> set brs" "takes t P (brno (d_insn_id D ! stateno b) (br_yes b))"
    and "l \<in> set (d_dom D ! stateno b)" "all_taken t P (butlast l)"
  shows "\<exists>l' \<in> set (clean_doms D brs). all_taken t P l'"
  using assms
proof (induction D brs rule: clean_chain.induct)
  case (2 D c)
  then have "set_last (brno (d_insn_id D ! stateno b) (br_yes b)) l \<in> set (clean_doms D [c])"
    using taken_not_impossible by (auto simp: Let_def)
  moreover have "all_taken t P (set_last (brno (d_insn_id D ! stateno b) (br_yes b)) l)"
    using 2 by (auto simp: all_taken_def)
  ultimately show ?case by blast
next
  case (3 D c c' brs)
  show ?case
  proof (cases "stateno c' = stateno c")
    case True
    have cl: "length (d_dom D ! stateno c) = 1" "clean_chain D brs"
      using 3(3) True by (simp_all add: Let_def)
    show ?thesis
    proof (cases "b \<in> {c, c'}")
      case b: True
      then have "hd (d_dom D ! stateno c) = l"
        using 3(6) cl(1) True by (cases "d_dom D ! stateno c") auto
      then show ?thesis using 3(7) True by (simp add: Let_def)
    next
      case False
      then have "\<exists>l' \<in> set (clean_doms D brs). all_taken t P l'"
        using 3(1) [OF refl] True cl(2) 3(4-7) by auto
      then show ?thesis using True by (auto simp: Let_def)
    qed
  next
    case False
    then have cl: "clean_chain D (c' # brs)" using 3(3) by (simp add: Let_def)
    have eq: "clean_doms D (c # c' # brs) = map (set_last (brno (d_insn_id D ! stateno c) (br_yes c)))
        (filter (\<lambda>l. \<not> impossible_path (brno (d_insn_id D ! stateno c) (br_yes c)) l) (d_dom D ! stateno c))
        @ clean_doms D (c' # brs)"
      using False by (simp add: Let_def)
    show ?thesis
    proof (cases "b = c")
      case b: True
      have "set_last (brno (d_insn_id D ! stateno b) (br_yes b)) l \<in> set (clean_doms D (c # c' # brs))"
        unfolding eq using 3(5-7) b taken_not_impossible by auto
      moreover have "all_taken t P (set_last (brno (d_insn_id D ! stateno b) (br_yes b)) l)"
        using 3(5,7) by (auto simp: all_taken_def)
      ultimately show ?thesis by blast
    next
      case b: False
      then have "\<exists>l' \<in> set (clean_doms D (c' # brs)). all_taken t P l'"
        using 3(2) [OF refl False cl] 3(4-7) by auto
      then show ?thesis unfolding eq by auto
    qed
  qed
qed simp

lemma clean_doms_source:
  assumes "clean_chain D brs" "l \<in> set (clean_doms D brs)"
  shows "\<exists>b \<in> set brs. \<exists>l0 \<in> set (d_dom D ! stateno b).
    l = butlast l0 \<or> l = set_last (brno (d_insn_id D ! stateno b) (br_yes b)) l0"
  using assms
proof (induction D brs rule: clean_chain.induct)
  case (2 D b)
  then show ?case by (auto simp: Let_def)
next
  case (3 D b c brs)
  show ?case
  proof (cases "stateno c = stateno b")
    case True
    then have cl: "length (d_dom D ! stateno b) = 1" "clean_chain D brs" using 3(3) by (simp_all add: Let_def)
    then have "hd (d_dom D ! stateno b) \<in> set (d_dom D ! stateno b)" by (cases "d_dom D ! stateno b") auto
    moreover have "l = butlast (hd (d_dom D ! stateno b)) \<or> l \<in> set (clean_doms D brs)"
      using 3(4) True by (auto simp: Let_def)
    moreover have ?thesis if "l \<in> set (clean_doms D brs)" using 3(1) [OF refl True cl(2) that] by auto
    ultimately show ?thesis by auto
  next
    case False
    then have "clean_chain D (c # brs)" using 3(3) by (simp add: Let_def)
    moreover have "l \<in> set_last (brno (d_insn_id D ! stateno b) (br_yes b)) ` set (d_dom D ! stateno b)
        \<or> l \<in> set (clean_doms D (c # brs))"
      using 3(4) False by (auto simp: Let_def)
    moreover have ?thesis if "l \<in> set (clean_doms D (c # brs))" "clean_chain D (c # brs)"
      using 3(2) [OF refl False that(2,1)] by (meson list.set_intros(2))
    ultimately show ?thesis by auto
  qed
qed simp

lemma clean_doms_valid:
  assumes "doms_ok n D" "\<And>s. s < length (d_dom D) \<Longrightarrow> d_insn_id D ! s < n" "clean_chain D brs"
    and "\<And>b. b \<in> set brs \<Longrightarrow> stateno b < length (d_dom D)" "l \<in> set (clean_doms D brs)" "c \<in> set l"
  shows "0 \<le> c \<and> stateno c < n"
proof -
  obtain b l0 where b: "b \<in> set brs" "l0 \<in> set (d_dom D ! stateno b)"
    "l = butlast l0 \<or> l = set_last (brno (d_insn_id D ! stateno b) (br_yes b)) l0"
    using clean_doms_source [OF assms(3,5)] by blast
  have s: "stateno b < length (d_dom D)" by (rule assms(4) [OF b(1)])
  have "0 \<le> c \<and> stateno c < n" if "c \<in> set l0"
    using assms(1) s b(2) that by (auto simp: doms_ok_def lists_ok_def)
  moreover have "c \<in> set (butlast l0) \<or> c = brno (d_insn_id D ! stateno b) (br_yes b)"
    using b(3) assms(6) by auto
  ultimately show ?thesis using in_set_butlastD [of c l0] assms(2) [OF s] by auto
qed

text \<open>Dominator lists of a state made from those of its predecessors.\<close>

lemma kept_branches_subset: "set (kept_branches l) \<subseteq> set l"
  by (auto simp: kept_branches_def dest: in_set_butlastD)

lemma decided_branch_Some:
  "decided_branch mybr l = Some b \<Longrightarrow> b \<in> set l \<and> b XOR mybr \<le> 1"
  unfolding decided_branch_def by (auto simp: find_Some_iff) (metis length_rev nth_mem set_rev)

lemma extend_doms_fst:
  assumes "extend_doms mybr num ls = (doms, mybr', num')" "0 \<le> mybr" "\<And>l b. l \<in> set ls \<Longrightarrow> b \<in> set l \<Longrightarrow> 0 \<le> b"
  shows "length doms = length ls \<and>
    (\<forall>i < length ls. \<exists>m. doms ! i = kept_branches (ls ! i) @ [m] \<and> 0 \<le> m \<and> stateno m = stateno mybr)"
  using assms
proof (induction ls arbitrary: mybr num doms)
  case (Cons l ls)
  let ?k = "kept_branches l"
  obtain m n where mn: "(case decided_branch mybr ?k of None \<Rightarrow> (mybr, - 1)
      | Some b \<Rightarrow> if 0 \<le> num \<and> (num = 0 \<or> mybr = b) then (b, num + 1) else (mybr, - 1)) = (m, n)"
    by (cases "case decided_branch mybr ?k of None \<Rightarrow> (mybr, - 1)
      | Some b \<Rightarrow> if 0 \<le> num \<and> (num = 0 \<or> mybr = b) then (b, num + 1) else (mybr, - 1)")
  have m: "0 \<le> m \<and> stateno m = stateno mybr"
  proof (cases "decided_branch mybr ?k")
    case (Some b)
    have "b \<in> set l" "b XOR mybr \<le> 1"
      using decided_branch_Some [OF Some] kept_branches_subset by auto
    then have "0 \<le> b" "stateno b = stateno mybr" using Cons.prems(2,3) xor_small by auto
    then show ?thesis using mn Some Cons.prems(2) by (auto split: if_splits)
  qed (use mn Cons.prems(2) in simp)
  obtain ds where ds: "extend_doms m n ls = (ds, mybr', num')" "doms = (?k @ [m]) # ds"
    using Cons.prems(1) mn by (auto simp: Let_def split: prod.splits)
  have IH: "length ds = length ls"
    "\<forall>i < length ls. \<exists>m'. ds ! i = kept_branches (ls ! i) @ [m'] \<and> 0 \<le> m' \<and> stateno m' = stateno m"
    using Cons.IH [OF ds(1)] m Cons.prems(3) by auto
  have "\<exists>m. doms ! i = kept_branches ((l # ls) ! i) @ [m] \<and> 0 \<le> m \<and> stateno m = stateno mybr"
    if "i < length (l # ls)" for i
    using that ds(2) IH(2) m by (cases i) auto
  then show ?case using ds(2) IH(1) by simp
qed simp

lemma extend_doms_negative: "num < 0 \<Longrightarrow> extend_doms mybr num ls = (doms, m, n) \<Longrightarrow> n < 0"
proof (induction ls arbitrary: mybr num doms)
  case (Cons l ls)
  then obtain m' ds where "extend_doms m' (- 1) ls = (ds, m, n)"
    by (auto simp: Let_def split: prod.splits option.splits if_splits)
  then show ?case using Cons.IH [of "- 1"] by simp
qed simp

lemma extend_doms_decided:
  assumes "extend_doms mybr num ls = (doms, m, n)" "0 < n" "0 \<le> mybr" "\<And>l b. l \<in> set ls \<Longrightarrow> b \<in> set l \<Longrightarrow> 0 \<le> b"
    and "0 < num \<or> ls \<noteq> []"
  shows "(0 < num \<longrightarrow> m = mybr) \<and> stateno m = stateno mybr \<and> (\<forall>l \<in> set ls. m \<in> set l)"
  using assms
proof (induction ls arbitrary: mybr num doms)
  case (Cons l ls)
  let ?k = "kept_branches l"
  show ?case
  proof (cases "decided_branch mybr ?k")
    case None
    then obtain ds where "extend_doms mybr (- 1) ls = (ds, m, n)"
      using Cons.prems(1) by (auto simp: Let_def split: prod.splits)
    with extend_doms_negative [of "- 1"] Cons.prems(2) show ?thesis by fastforce
  next
    case (Some b)
    show ?thesis
    proof (cases "0 \<le> num \<and> (num = 0 \<or> mybr = b)")
      case False
      then obtain ds where "extend_doms mybr (- 1) ls = (ds, m, n)"
        using Cons.prems(1) Some by (auto simp: Let_def split: prod.splits)
      with extend_doms_negative [of "- 1"] Cons.prems(2) show ?thesis by fastforce
    next
      case True
      then obtain ds where ds: "extend_doms b (num + 1) ls = (ds, m, n)"
        using Cons.prems(1) Some by (auto simp: Let_def split: prod.splits)
      have b: "b \<in> set l" "b XOR mybr \<le> 1"
        using decided_branch_Some [OF Some] kept_branches_subset by auto
      then have b': "0 \<le> b" "stateno b = stateno mybr" using Cons.prems(3,4) xor_small by auto
      have "(0 < num + 1 \<longrightarrow> m = b) \<and> stateno m = stateno b \<and> (\<forall>l \<in> set ls. m \<in> set l)"
        by (rule Cons.IH [OF ds Cons.prems(2) b'(1)]) (use Cons.prems(4) True in auto)
      then show ?thesis using True b b' by auto
    qed
  qed
qed simp

section \<open>The dominators of a state\<close>

lemma graph_inv_cong:
  "graph_inv t P0 D \<Longrightarrow> d_insn D' = d_insn D \<Longrightarrow> d_pred D' = d_pred D \<Longrightarrow> d_insn_id D' = d_insn_id D \<Longrightarrow>
     graph_inv t P0 D'"
  by (simp add: graph_inv_def)

lemma graph_inv_test:
  assumes "graph_inv t P0 D" "jump_blind t" "i < length P0"
  shows "t (d_insn D ! i) = t (P0 ! i)" "t (P0 ! (d_insn_id D ! i)) = t (P0 ! i)" "d_insn_id D ! i < length P0"
proof -
  show "d_insn_id D ! i < length P0" using assms(1,3) by (simp add: graph_inv_def ids_ok_def)
  show "t (d_insn D ! i) = t (P0 ! i)"
    by (rule jump_blind_test_of [OF assms(2)]) (use assms(1,3) in \<open>simp add: graph_inv_def\<close>)
  show "t (P0 ! (d_insn_id D ! i)) = t (P0 ! i)"
    by (rule jump_blind_test_of [OF assms(2)]) (use assms(1,3) in \<open>simp add: graph_inv_def ids_ok_def\<close>)
qed

lemma takes_own_branch:
  assumes "graph_inv t P0 D" "jump_blind t" "i < length P0"
  shows "takes t P0 (brno (d_insn_id D ! i) k) \<longleftrightarrow> t (d_insn D ! i) = k"
  using graph_inv_test [OF assms] by (simp add: takes_def)

lemma on_path_pred:
  assumes "on_path t P s" "0 < s"
  obtains i where "on_path t P i" "i < length P" "jump (P ! i) (t (P ! i)) = int s"
  using assms by (cases rule: on_path.cases) auto

text \<open>The chain of a state that the packet reaches has the branch the packet takes.\<close>

lemma path_branch_in_chain:
  assumes "graph_inv t P0 D" "on_path t (d_insn D) s" "0 < s" "s < length P0"
  obtains i where "on_path t (d_insn D) i" "i < s" "brno i (t (d_insn D ! i)) \<in> set (d_pred D ! s)"
proof -
  note g = assms(1) [unfolded graph_inv_def]
  obtain i where i: "on_path t (d_insn D) i" "i < length (d_insn D)" "jump (d_insn D ! i) (t (d_insn D ! i)) = int s"
    by (rule on_path_pred [OF assms(2,3)])
  moreover have "i < s" using forward_jump [of "d_insn D" i "t (d_insn D ! i)"] g i assms(3) by simp
  moreover have "set (d_pred D ! s) = {b. \<exists>i k. b = brno i k \<and> i < length (d_insn D) \<and> jump (d_insn D ! i) k = int s \<and> 0 < s}"
    using g assms(4) unfolding pred_ok_def by simp
  ultimately show ?thesis using that assms(3) by auto
qed

lemma chain_states:
  assumes "graph_inv t P0 D" "s < length P0" "b \<in> set (d_pred D ! s)"
  shows "b = brno (stateno b) (br_yes b)" "stateno b < s" "jump (d_insn D ! stateno b) (br_yes b) = int s" "0 < s"
proof -
  note g = assms(1) [unfolded graph_inv_def]
  obtain i k where i: "b = brno i k" "i < length (d_insn D)" "jump (d_insn D ! i) k = int s" "0 < s"
    using g assms(2,3) unfolding pred_ok_def by auto
  then show "b = brno (stateno b) (br_yes b)" "jump (d_insn D ! stateno b) (br_yes b) = int s" "0 < s" by simp_all
  show "stateno b < s" using forward_jump [of "d_insn D" i k] g i by simp
qed

lemma redirect_preds_inv:
  assumes "graph_inv t P0 D" "lists_inv t P0 s D" "jump_blind t" "s < length P0"
    and "on_path t (d_insn D) s \<Longrightarrow> t (d_insn D ! s) = k" "j = jump (d_insn D ! s) k"
    and "\<And>b. b \<in> set brs \<Longrightarrow> stateno b < s \<and> jump (d_insn D ! stateno b) (br_yes b) = int s" "distinct (map (\<lambda>b. (stateno b, br_yes b)) brs)"
    and "\<And>i k. i < length P0 \<Longrightarrow> jump (d_insn D ! i) k = int s \<Longrightarrow> (i, k) \<in> (\<lambda>b. (stateno b, br_yes b)) ` set brs" "0 < s"
  shows "graph_inv t P0 (redirect_preds brs j D) \<and> lists_inv t P0 s (redirect_preds brs j D)
    \<and> \<not> on_path t (d_insn (redirect_preds brs j D)) s"
  using assms
proof (induction brs arbitrary: D)
  case Nil
  have "\<not> on_path t (d_insn D) s"
  proof
    assume "on_path t (d_insn D) s"
    then obtain i where "i < length (d_insn D)" "jump (d_insn D ! i) (t (d_insn D ! i)) = int s"
      using on_path_pred Nil.prems(10) by blast
    then show False using Nil.prems(9) [of i] Nil.prems(1) by (simp add: graph_inv_def)
  qed
  then show ?case using Nil by (simp add: redirect_preds_def)
next
  case (Cons b brs)
  note g = Cons.prems(1) [unfolded graph_inv_def]
  let ?D = "set_branch (stateno b) (br_yes b) j D"
  have b: "stateno b < s" "jump (d_insn D ! stateno b) (br_yes b) = int s" using Cons.prems(7) by auto
  have sj: "jump_ok (length P0) s j"
    using insn_ok_jump [OF forward_insn_ok, of "d_insn D" s k] g Cons.prems(4,6) by simp
  then have j: "jump_ok (length P0) (stateno b) j" "j \<le> 0 \<or> int s < j"
    using b(1) jump_ok_mono [of _ s j "stateno b"] by (auto simp: jump_ok_def)
  have d: "dest t (d_insn D) j = dest t (d_insn D) (int s)" if "on_path t (d_insn D) s"
    using dest_exec [of "int s" "d_insn D" t] Cons.prems(4,5,6,10) g that by simp
  have st: "on_path t (d_insn D) s" if "on_path t (d_insn D) (stateno b)" "t (d_insn D ! stateno b) = br_yes b"
    using on_path.step [OF that(1), of s] b that(2) Cons.prems(4,10) g by simp
  have g': "graph_inv t P0 ?D"
    by (rule graph_inv_set_branch [OF Cons.prems(1,3)]) (use b j d st Cons.prems(4) in auto)
  have l': "lists_inv t P0 s ?D"
    by (rule lists_inv_set_branch [OF Cons.prems(2) _ Cons.prems(3)]) (use g j in auto)
  have ns: "d_insn ?D ! s = d_insn D ! s" using b(1) by simp
  have "graph_inv t P0 (redirect_preds brs j ?D) \<and> lists_inv t P0 s (redirect_preds brs j ?D)
      \<and> \<not> on_path t (d_insn (redirect_preds brs j ?D)) s"
  proof (rule Cons.IH [OF g' l' Cons.prems(3,4)])
    show "t (d_insn ?D ! s) = k" if "on_path t (d_insn ?D) s"
    proof -
      have "on_path t (d_insn D) s"
        by (rule on_path_move_branch [of t "d_insn D" "stateno b" "br_yes b" j s s]) (use that g j Cons.prems(3) in auto)
      then show ?thesis using Cons.prems(5) ns by simp
    qed
    show "j = jump (d_insn ?D ! s) k" using ns Cons.prems(6) by simp
    show "stateno c < s \<and> jump (d_insn ?D ! stateno c) (br_yes c) = int s" if "c \<in> set brs" for c
      using Cons.prems(7) [of c] Cons.prems(8) that by (auto simp: nth_list_update_if)
    show "distinct (map (\<lambda>b. (stateno b, br_yes b)) brs)" using Cons.prems(8) by simp
    show "(i, k') \<in> (\<lambda>b. (stateno b, br_yes b)) ` set brs" if "i < length P0" "jump (d_insn ?D ! i) k' = int s" for i k'
    proof -
      have key: "jump (d_insn ?D ! i) k' = (if i = stateno b \<and> k' = br_yes b then j else jump (d_insn D ! i) k')"
        using that(1) g by (simp add: nth_list_update_if)
      have "j \<noteq> int s" using j(2) Cons.prems(10) by auto
      then have "\<not> (i = stateno b \<and> k' = br_yes b)" using key that(2) by metis
      moreover from this have "jump (d_insn D ! i) k' = int s" using key that(2) by metis
      ultimately show ?thesis using Cons.prems(9) [OF that(1)] by auto
    qed
  qed (rule Cons.prems(10))
  then show ?case by (simp add: redirect_preds_def)
qed

lemma lists_inv_append:
  assumes "lists_inv t P0 s D" "lists_ok (length P0) (d_insn_id D ! s) doms"
    and "on_path t (d_insn D) s \<Longrightarrow> \<exists>l \<in> set doms. all_taken t P0 (butlast l)"
  shows "lists_inv t P0 (Suc s) (D\<lparr>d_dom := d_dom D @ [doms]\<rparr>)"
  using assms by (auto simp: lists_inv_def less_Suc_eq nth_append all_taken_def)

lemma lists_inv_lasts:
  assumes "lists_inv t P0 s D" "same_but_lasts D D'" "doms_ok (length P0) D'"
  shows "lists_inv t P0 s D'"
proof -
  have D': "d_insn_id D' = d_insn_id D" "d_insn D' = d_insn D" "length (d_dom D') = length (d_dom D)"
    using assms(2) unfolding same_but_lasts_def
    by (metis dominator.select_convs dominator.surjective dominator.update_convs(4))+
  have "\<exists>l \<in> set (d_dom D' ! i). \<forall>b \<in> set (butlast l). takes t P0 b"
    if i: "i < s" "on_path t (d_insn D) i" for i
  proof -
    obtain l where "l \<in> set (d_dom D ! i)" "\<forall>b \<in> set (butlast l). takes t P0 b"
      using assms(1) i unfolding lists_inv_def by blast
    moreover have "butlast ` set (d_dom D' ! i) = butlast ` set (d_dom D ! i)"
      using assms(1,2) i(1) unfolding same_but_lasts_def lists_inv_def by (metis list.set_map)
    ultimately obtain l' where "l' \<in> set (d_dom D' ! i)" "butlast l' = butlast l" by (metis imageE imageI)
    with \<open>\<forall>b \<in> set (butlast l). takes t P0 b\<close> show ?thesis by (intro bexI [of _ l']) simp_all
  qed
  then show ?thesis using assms(1,3) D' by (simp add: lists_inv_def doms_ok_def)
qed

lemma graph_inv_lasts: "graph_inv t P0 D \<Longrightarrow> same_but_lasts D D' \<Longrightarrow> graph_inv t P0 D'"
  unfolding same_but_lasts_def
  by (erule graph_inv_cong) (metis dominator.select_convs dominator.surjective dominator.update_convs(4))+

lemma lists_ok_extend:
  assumes "extend_doms mybr 0 ls = (doms, m, num)" "0 \<le> mybr" "stateno mybr < n"
    and "\<And>l b. l \<in> set ls \<Longrightarrow> b \<in> set l \<Longrightarrow> 0 \<le> b \<and> stateno b < n"
  shows "lists_ok n (stateno mybr) doms" "l \<in> set ls \<Longrightarrow> all_taken t P l \<Longrightarrow> \<exists>d \<in> set doms. all_taken t P (butlast d)"
proof -
  have e: "length doms = length ls"
    "\<And>i. i < length ls \<Longrightarrow> \<exists>m. doms ! i = kept_branches (ls ! i) @ [m] \<and> 0 \<le> m \<and> stateno m = stateno mybr"
    using extend_doms_fst [OF assms(1,2)] assms(4) by blast+
  show "lists_ok n (stateno mybr) doms"
    unfolding lists_ok_def
  proof
    fix d assume "d \<in> set doms"
    then obtain i where i: "i < length ls" "d = doms ! i" using e(1) by (metis in_set_conv_nth)
    then obtain m where "d = kept_branches (ls ! i) @ [m]" "0 \<le> m" "stateno m = stateno mybr" using e(2) by blast
    then show "d \<noteq> [] \<and> stateno (last d) = stateno mybr \<and> (\<forall>b \<in> set d. 0 \<le> b \<and> stateno b < n)"
      using assms(3) assms(4) [of "ls ! i"] i(1) kept_branches_subset [of "ls ! i"] by auto
  qed
  show "\<exists>d \<in> set doms. all_taken t P (butlast d)" if l: "l \<in> set ls" "all_taken t P l"
  proof -
    obtain i where i: "i < length ls" "l = ls ! i" using l(1) by (metis in_set_conv_nth)
    then obtain m where "doms ! i = kept_branches l @ [m]" using e(2) by blast
    moreover have "doms ! i \<in> set doms" using i e(1) by simp
    ultimately show ?thesis using l(2) kept_branches_subset [of l]
      by (intro bexI [of _ "doms ! i"]) (auto simp: all_taken_def)
  qed
qed

lemma impossible_state_inv:
  assumes "graph_inv t P0 D" "lists_inv t P0 s D" "jump_blind t" "s < length P0"
    and "0 < s \<Longrightarrow> \<not> on_path t (d_insn D) s"
  shows "graph_inv t P0 (impossible_state s D) \<and> lists_inv t P0 (Suc s) (impossible_state s D)"
proof (cases "0 < s")
  case False
  then have "d_insn_id D ! s = 0" using assms(1,4) by (auto simp: graph_inv_def ids_ok_def)
  then have "lists_inv t P0 (Suc s) (D\<lparr>d_dom := d_dom D @ [[[brno s False]]]\<rparr>)"
    using lists_inv_append [OF assms(2), of "[[brno s False]]"] False assms(4)
    by (simp add: lists_ok_def all_taken_def)
  moreover have "impossible_state s D = D\<lparr>d_dom := d_dom D @ [[[brno s False]]]\<rparr>"
    using False by (simp add: impossible_state_def)
  ultimately show ?thesis using graph_inv_cong [OF assms(1)] by simp
next
  case True
  let ?D1 = "set_branch s False j_never D"
  let ?D2 = "set_branch s True j_never ?D1"
  have off: "\<not> on_path t (d_insn D) s" by (rule assms(5) [OF True])
  have fw: "forward (d_insn D)" using assms(1) by (simp add: graph_inv_def)
  have jn: "jump_ok n i j_never" "j_never \<le> 0" for n i by (simp_all add: jump_ok_def j_never_def)
  have g1: "graph_inv t P0 ?D1" by (rule graph_inv_set_branch [OF assms(1,3,4) jn(1)]) (use off in simp)
  have l1: "lists_inv t P0 s ?D1" by (rule lists_inv_set_branch [OF assms(2) fw assms(3)]) (use jn in simp)
  have off1: "\<not> on_path t (d_insn ?D1) s"
    using on_path_move_branch [of t "d_insn D" s False j_never s s] off fw assms(3) jn by auto
  have g2: "graph_inv t P0 ?D2" by (rule graph_inv_set_branch [OF g1 assms(3,4) jn(1)]) (use off1 in simp)
  have l2: "lists_inv t P0 s ?D2"
    by (rule lists_inv_set_branch [OF l1 _ assms(3)]) (use g1 jn in \<open>auto simp: graph_inv_def\<close>)
  have off2: "\<not> on_path t (d_insn ?D2) s"
    using on_path_move_branch [of t "d_insn ?D1" s True j_never s s] off1 g1 assms(3) jn by (auto simp: graph_inv_def)
  have "impossible_state s D = ?D2\<lparr>d_dom := d_dom ?D2 @ [[]]\<rparr>" using True by (simp add: impossible_state_def Let_def)
  then show ?thesis
    using graph_inv_cong [OF g2] lists_inv_append [OF l2, of "[]"] off2 by (simp add: lists_ok_def)
qed

lemma calculate_dom_inv:
  assumes g: "graph_inv t P0 D" and l: "lists_inv t P0 s D" and t: "jump_blind t" and s: "s < length P0"
    and c: "clean_chain D (d_pred D ! s)"
  obtains D' where "calculate_dom s D = Some D'" "graph_inv t P0 D'" "lists_inv t P0 (Suc s) D'"
proof -
  let ?brs = "d_pred D ! s" and ?n = "length P0" and ?id = "d_insn_id D ! s"
  define ls where "ls = clean_doms D ?brs"
  define mybr where "mybr = brno ?id False"
  have len: "length (d_dom D) = s" using l by (simp add: lists_inv_def)
  have ids: "d_insn_id D ! q < ?n" if "q < ?n" for q using graph_inv_test(3) [OF g t that] .
  have doms: "doms_ok ?n D" using l by (simp add: lists_inv_def doms_ok_def)
  have ch: "stateno b < length (d_dom D)" if "b \<in> set ?brs" for b using chain_states(2) [OF g s that] len by simp
  have "collected ?n D ?brs None []"
    by (rule collect_clean [OF c doms]) (use ids ch len s in auto)
  then obtain D1 new where D1: "collect_doms None ?brs [] D = Some (D1, new)" "same_but_lasts D D1" "doms_ok ?n D1"
    "map (dom_list D1) new = ls" "\<forall>(s, j, e) \<in> set new. s = 0 \<longrightarrow> 0 < e"
    unfolding collected_def ls_def by fastforce
  note g1 = graph_inv_lasts [OF g D1(2)] and l1 = lists_inv_lasts [OF l D1(2,3)]
  have e1: "d_insn_id D1 = d_insn_id D" "d_insn D1 = d_insn D"
    using D1(2) unfolding same_but_lasts_def
    by (metis dominator.select_convs dominator.surjective dominator.update_convs(4))+
  have valid: "0 \<le> b \<and> stateno b < ?n" if "x \<in> set ls" "b \<in> set x" for x b
    using clean_doms_valid [OF doms _ c ch] ids len s that unfolding ls_def by simp
  have mine: "\<exists>x \<in> set ls. all_taken t P0 x" if on: "on_path t (d_insn D) s" "0 < s"
  proof -
    obtain i where i: "on_path t (d_insn D) i" "i < s" "brno i (t (d_insn D ! i)) \<in> set ?brs"
      by (rule path_branch_in_chain [OF g on s])
    obtain x where x: "x \<in> set (d_dom D ! i)" "all_taken t P0 (butlast x)"
      using l i(1,2) unfolding lists_inv_def all_taken_def by blast
    have "takes t P0 (brno (d_insn_id D ! i) (t (d_insn D ! i)))"
      using takes_own_branch [OF g t] i(2) s by simp
    with clean_doms_taken [OF c i(3)] x show ?thesis unfolding ls_def by simp
  qed
  have id: "?id < ?n" by (rule ids [OF s])
  show ?thesis
  proof (cases "new = []")
    case True
    then have "ls = []" using D1(4) by simp
    then have "graph_inv t P0 (impossible_state s D1) \<and> lists_inv t P0 (Suc s) (impossible_state s D1)"
      using impossible_state_inv [OF g1 l1 t s] mine e1 by auto
    moreover have "calculate_dom s D = Some (impossible_state s D1)"
      using D1(1) True by (simp add: calculate_dom_def Let_def MAX_DOMLIST_def)
    ultimately show ?thesis using that by blast
  next
    case False
    then have ne: "ls \<noteq> []" using D1(4) by auto
    then obtain b where b: "b \<in> set ?brs" unfolding ls_def by (cases ?brs) auto
    have s0: "0 < s" by (rule chain_states(4) [OF g s b])
    show ?thesis
    proof (cases "MAX_DOMLIST < length new")
      case True
      have "calculate_dom s D = Some (D1\<lparr>d_dom := d_dom D1 @ [[intersect_lists ls @ [mybr]]]\<rparr>)"
        using D1(1,4) True by (simp add: calculate_dom_def Let_def mybr_def)
      moreover have "lists_ok ?n (d_insn_id D1 ! s) [intersect_lists ls @ [mybr]]"
      proof -
        have "0 \<le> b \<and> stateno b < ?n" if "b \<in> set (intersect_lists ls)" for b
          using valid [of "hd ls" b] intersect_lists_subset [OF that, of "hd ls"] ne by simp
        then show ?thesis using id by (auto simp: lists_ok_def mybr_def e1)
      qed
      moreover have "\<exists>x \<in> set [intersect_lists ls @ [mybr]]. all_taken t P0 (butlast x)" if "on_path t (d_insn D1) s"
        using mine that s0 intersect_lists_subset [of _ ls] by (auto simp: all_taken_def e1)
      ultimately show ?thesis
        using that graph_inv_cong [OF g1] lists_inv_append [OF l1] by simp
    next
      case small: False
      obtain ds m num where ex: "extend_doms mybr 0 ls = (ds, m, num)" by (cases "extend_doms mybr 0 ls") auto
      have no0: "\<not> (\<exists>(s, j, e) \<in> set new. s = 0 \<and> e = 0)" using D1(5) by fastforce
      show ?thesis
      proof (cases "0 < num")
        case True
        have dec: "stateno m = ?id" "\<forall>x \<in> set ls. m \<in> set x"
          using extend_doms_decided [OF ex True] valid ne by (auto simp: mybr_def)
        let ?R = "redirect_preds ?brs (jump (d_insn D1 ! s) (odd m)) D1"
        have dp: "d_pred D1 = d_pred D" using D1(2) unfolding same_but_lasts_def
          by (metis dominator.select_convs(5) dominator.surjective dominator.update_convs(4))
        have pk: "distinct ?brs" using g s by (simp add: graph_inv_def pred_ok_def)
        have R: "graph_inv t P0 ?R \<and> lists_inv t P0 s ?R \<and> \<not> on_path t (d_insn ?R) s"
        proof (rule redirect_preds_inv [OF g1 l1 t s _ refl])
          show "t (d_insn D1 ! s) = odd m" if op: "on_path t (d_insn D1) s"
          proof -
            obtain x where "x \<in> set ls" "all_taken t P0 x" using mine s0 op e1 by auto
            then have "takes t P0 m" using dec(2) by (auto simp: all_taken_def)
            then show ?thesis using graph_inv_test [OF g1 t s] dec(1) by (simp add: takes_def br_yes_def e1)
          qed
          show "stateno b < s \<and> jump (d_insn D1 ! stateno b) (br_yes b) = int s" if "b \<in> set ?brs" for b
            using chain_states [OF g s that] e1 by simp
          show "distinct (map (\<lambda>b. (stateno b, br_yes b)) ?brs)"
          proof -
            have "inj_on (\<lambda>b. (stateno b, br_yes b)) (set ?brs)"
            proof (rule inj_onI)
              fix b c assume "b \<in> set ?brs" "c \<in> set ?brs" "(stateno b, br_yes b) = (stateno c, br_yes c)"
              then show "b = c" using chain_states(1) [OF g s, of b] chain_states(1) [OF g s, of c] by simp
            qed
            then show ?thesis using pk by (simp add: distinct_map)
          qed
          show "(i, k) \<in> (\<lambda>b. (stateno b, br_yes b)) ` set ?brs" if "i < ?n" "jump (d_insn D1 ! i) k = int s" for i k
          proof -
            have "brno i k \<in> set ?brs" using g s s0 that e1 unfolding graph_inv_def pred_ok_def by auto
            then show ?thesis by (rule rev_image_eqI) simp
          qed
        qed (rule s0)
        have "calculate_dom s D = Some (impossible_state s ?R)"
          using D1(1,4) False small ex True no0 by (simp add: calculate_dom_def Let_def mybr_def)
        then show ?thesis using that impossible_state_inv [OF _ _ t s] R by blast
      next
        case num: False
        have "calculate_dom s D = Some (D1\<lparr>d_dom := d_dom D1 @ [ds]\<rparr>)"
          using D1(1,4) False small ex num no0 by (simp add: calculate_dom_def Let_def mybr_def)
        moreover have "lists_ok ?n (d_insn_id D1 ! s) ds"
          using lists_ok_extend(1) [OF ex] valid id by (simp add: mybr_def e1)
        moreover have "\<exists>x \<in> set ds. all_taken t P0 (butlast x)" if "on_path t (d_insn D1) s"
          using lists_ok_extend(2) [OF ex] mine that s0 valid id by (auto simp: mybr_def e1)
        ultimately show ?thesis
          using that graph_inv_cong [OF g1] lists_inv_append [OF l1] by simp
      qed
    qed
  qed
qed

section \<open>Moving branches\<close>

lemma graph_inv_masked:
  assumes "graph_inv t P0 D" "all_masked P0" "i < length P0"
  shows "value_masked (d_insn D ! i)"
proof -
  have "test_of (d_insn D ! i) = test_of (P0 ! i)" using assms(1,3) by (simp add: graph_inv_def)
  with all_masked_nth [OF assms(2,3)] show ?thesis by (simp add: value_masked_def test_of_def)
qed

lemma dom_next_sound:
  assumes "graph_inv (word_test W) P0 D" "all_masked P0" "q < length P0"
    and "dom_next D l q = Some j" "\<And>b. b \<in> set l \<Longrightarrow> stateno b < length P0"
  shows "\<exists>k. j = jump (d_insn D ! q) k \<and> (all_taken (word_test W) P0 l \<longrightarrow> k = word_test W (d_insn D ! q))"
proof -
  let ?t = "word_test W" and ?P = "d_insn D"
  obtain b where b: "find (\<lambda>b. br_implies D b q \<or> br_implies_not D b q) (rev l) = Some b"
    "j = jump (?P ! q) (br_implies D b q)"
    using assms(4) by (auto simp: dom_next_def)
  then have bl: "b \<in> set l" "br_implies D b q \<or> br_implies_not D b q"
    by (auto simp: find_Some_iff) (metis length_rev nth_mem set_rev)+
  have "br_implies D b q = ?t (?P ! q)" if "all_taken ?t P0 l"
  proof -
    have s: "stateno b < length P0" by (rule assms(5) [OF bl(1)])
    have "?t (?P ! stateno b) = br_yes b"
      using graph_inv_test(1) [OF assms(1) _ s] that bl(1) by (auto simp: all_taken_def takes_def)
    moreover note vm = graph_inv_masked [OF assms(1,2) s] graph_inv_masked [OF assms(1,2,3)]
    ultimately show ?thesis
    proof (cases "br_yes b")
      case True
      then show ?thesis
        using bl(2) \<open>?t (?P ! stateno b) = br_yes b\<close> vm
          insn_implies_sound [of "?P ! stateno b" "?P ! q" "d_known_length D ! stateno b" W]
          insn_implies_not_sound [of "?P ! stateno b" "?P ! q" "d_known_length D ! stateno b" W]
        by (auto simp: br_implies_def br_implies_not_def Let_def)
    next
      case False
      then show ?thesis
        using bl(2) \<open>?t (?P ! stateno b) = br_yes b\<close> vm
          insn_not_implies_sound [of "?P ! stateno b" "?P ! q" "d_known_length D ! stateno b" W]
          insn_not_implies_not_sound [of "?P ! stateno b" "?P ! q" "d_known_length D ! stateno b" W]
        by (auto simp: br_implies_def br_implies_not_def Let_def)
    qed
  qed
  with b(2) show ?thesis by blast
qed

lemma shift_path_sound:
  assumes "graph_inv (word_test W) P0 D" "all_masked P0" "\<And>b. b \<in> set l \<Longrightarrow> stateno b < length P0"
    and "jump_ok (length P0) s j"
  shows "\<exists>path. shift_path D l j = Some path \<and> path \<noteq> [] \<and> hd path = j
    \<and> (\<forall>z \<in> set path. jump_ok (length P0) s z)
    \<and> (all_taken (word_test W) P0 l \<longrightarrow>
         (\<forall>z \<in> set path. dest (word_test W) (d_insn D) z = dest (word_test W) (d_insn D) j))"
  using assms(4)
proof (induction "length P0 - nat j" arbitrary: j rule: less_induct)
  case less
  let ?t = "word_test W" and ?P = "d_insn D" and ?n = "length P0"
  note g = assms(1) [unfolded graph_inv_def]
  show ?case
  proof (cases "0 < j")
    case False
    then have "shift_path D l j = Some [j]" by (subst shift_path.simps) simp
    then show ?thesis using less.prems by simp
  next
    case True
    then have q: "nat j < ?n" "s < nat j" using less.prems by (auto simp: jump_ok_def)
    show ?thesis
    proof (cases "dom_next D l (nat j)")
      case None
      then have "shift_path D l j = Some [j]" using True q g by (subst shift_path.simps) simp
      then show ?thesis using less.prems by simp
    next
      case (Some j')
      obtain k where k: "j' = jump (?P ! nat j) k" "all_taken ?t P0 l \<longrightarrow> k = ?t (?P ! nat j)"
        using dom_next_sound [OF assms(1,2) q(1) Some assms(3)] by blast
      have ok: "jump_ok ?n (nat j) j'"
        using insn_ok_jump [OF forward_insn_ok, of ?P "nat j" k] g q(1) k(1) by simp
      then have ok': "jump_ok ?n s j'" using jump_ok_mono q(2) less_imp_le by blast
      have "?n - nat j' < ?n - nat j \<or> j' \<le> 0" using ok q(1) True by (auto simp: jump_ok_def)
      then have "\<exists>path. shift_path D l j' = Some path \<and> path \<noteq> [] \<and> hd path = j'
          \<and> (\<forall>z \<in> set path. jump_ok ?n s z) \<and> (all_taken ?t P0 l \<longrightarrow> (\<forall>z \<in> set path. dest ?t ?P z = dest ?t ?P j'))"
      proof
        assume "?n - nat j' < ?n - nat j"
        then show ?thesis by (rule less.hyps [OF _ ok'])
      next
        assume "j' \<le> 0"
        then have "shift_path D l j' = Some [j']" by (subst shift_path.simps) simp
        then show ?thesis using ok' by simp
      qed
      then obtain path where p: "shift_path D l j' = Some path" "path \<noteq> []" "hd path = j'"
        "\<forall>z \<in> set path. jump_ok ?n s z" "all_taken ?t P0 l \<longrightarrow> (\<forall>z \<in> set path. dest ?t ?P z = dest ?t ?P j')" by blast
      have "shift_path D l j = Some (j # path)" using True q g Some p(1) by (subst shift_path.simps) simp
      moreover have "all_taken ?t P0 l \<longrightarrow> dest ?t ?P j' = dest ?t ?P j"
        using k dest_exec [OF True, of ?P ?t] q(1) g by simp
      ultimately show ?thesis using p less.prems by auto
    qed
  qed
qed

lemma shift_paths_sound:
  assumes "graph_inv (word_test W) P0 D" "all_masked P0" "\<forall>l \<in> set ls. \<forall>b \<in> set l. stateno b < length P0"
    and "jump_ok (length P0) s j"
  shows "\<exists>paths. shift_paths D ls j = Some paths \<and> length paths = length ls
    \<and> (\<forall>p \<in> set paths. p \<noteq> [] \<and> hd p = j \<and> (\<forall>z \<in> set p. jump_ok (length P0) s z))
    \<and> (\<forall>l \<in> set ls. all_taken (word_test W) P0 l \<longrightarrow> (\<exists>p \<in> set paths.
         \<forall>z \<in> set p. dest (word_test W) (d_insn D) z = dest (word_test W) (d_insn D) j))"
  using assms(3)
proof (induction ls)
  case (Cons l ls)
  have "\<forall>l \<in> set ls. \<forall>b \<in> set l. stateno b < length P0" using Cons.prems by simp
  from Cons.IH [OF this] obtain ps where ps: "shift_paths D ls j = Some ps" "length ps = length ls"
    "\<forall>p \<in> set ps. p \<noteq> [] \<and> hd p = j \<and> (\<forall>z \<in> set p. jump_ok (length P0) s z)"
    "\<forall>l \<in> set ls. all_taken (word_test W) P0 l \<longrightarrow> (\<exists>p \<in> set ps.
         \<forall>z \<in> set p. dest (word_test W) (d_insn D) z = dest (word_test W) (d_insn D) j)"
    by blast
  have "stateno b < length P0" if "b \<in> set l" for b using Cons.prems that by simp
  from shift_path_sound [OF assms(1,2) this assms(4)] obtain p where p: "shift_path D l j = Some p" "p \<noteq> []" "hd p = j" "\<forall>z \<in> set p. jump_ok (length P0) s z"
    "all_taken (word_test W) P0 l \<longrightarrow>
         (\<forall>z \<in> set p. dest (word_test W) (d_insn D) z = dest (word_test W) (d_insn D) j)"
    by blast
  have "shift_paths D (l # ls) j = Some (p # ps)" using ps(1) p(1) by simp
  then show ?case using ps p by (intro exI [of _ "p # ps"]) auto
qed simp

lemma shift_branch_inv:
  assumes g: "graph_inv (word_test W) P0 D" and l: "lists_inv (word_test W) P0 (Suc s) D"
    and m: "all_masked P0" and s: "s < length P0"
  obtains D' where "shift_branch s k D = Some D'" "graph_inv (word_test W) P0 D'"
    "lists_inv (word_test W) P0 (Suc s) D'"
proof -
  let ?t = "word_test W" and ?n = "length P0" and ?j = "jump (d_insn D ! s) k" and ?doms = "d_dom D ! s"
  let ?id = "d_insn_id D ! s" and ?brid = "brno (d_insn_id D ! s) k"
  have len: "length (d_dom D) = Suc s" "doms_ok ?n D" using l by (simp_all add: lists_inv_def doms_ok_def)
  show ?thesis
  proof (cases "?doms = [] \<or> ?j \<le> 0")
    case True
    then have "shift_branch s k D = Some D" by (auto simp: shift_branch_def Let_def)
    then show ?thesis using that g l by blast
  next
    case False
    define doms' where "doms' = map (set_last ?brid) ?doms"
    define D1 where "D1 = D\<lparr>d_dom := (d_dom D)[s := doms']\<rparr>"
    have lok: "lists_ok ?n ?id ?doms" using len by (auto simp: doms_ok_def)
    have id: "?id < ?n" using graph_inv_test(3) [OF g _ s] by simp
    have valid: "stateno b < ?n" if "x \<in> set doms'" "b \<in> set x" for x b
      using that lok id in_set_butlastD [of b] by (fastforce simp: doms'_def lists_ok_def)
    have lok': "lists_ok ?n ?id doms'"
      using lok id in_set_butlastD by (fastforce simp: doms'_def lists_ok_def)
    have same: "same_but_lasts D D1"
      using len by (auto simp: same_but_lasts_def D1_def doms'_def nth_list_update_if)
    have "doms_ok ?n D1" using len lok' by (auto simp: doms_ok_def D1_def nth_list_update_if less_Suc_eq)
    note g1 = graph_inv_lasts [OF g same] and l1 = lists_inv_lasts [OF l same this]
    have jok: "jump_ok ?n s ?j"
      using insn_ok_jump [OF forward_insn_ok, of "d_insn D" s k] g s by (simp add: graph_inv_def)
    obtain paths where p: "shift_paths D1 doms' ?j = Some paths" "length paths = length doms'"
      "\<forall>p \<in> set paths. p \<noteq> [] \<and> hd p = ?j \<and> (\<forall>z \<in> set p. jump_ok ?n s z)"
      "\<forall>l \<in> set doms'. all_taken ?t P0 l \<longrightarrow> (\<exists>p \<in> set paths. \<forall>z \<in> set p. dest ?t (d_insn D1) z = dest ?t (d_insn D1) ?j)"
      using shift_paths_sound [OF g1 m _ jok, of doms'] valid by blast
    have pne: "paths \<noteq> []" using p(2) False by (auto simp: doms'_def)
    obtain z where z: "(if length doms' = 1 then Some (last (hd paths)) else last_common_state_in_lists paths) = Some z"
      "\<And>p. p \<in> set paths \<Longrightarrow> z \<in> set p"
    proof (cases "length doms' = 1")
      case True
      then obtain q where "paths = [q]" using p(2) by (auto simp: length_Suc_conv)
      then show ?thesis using that True p(3) by simp
    next
      case no: False
      obtain z where "last_common_state_in_lists paths = Some z" "\<And>p. p \<in> set paths \<Longrightarrow> z \<in> set p"
        using last_common_state [OF pne, of ?j] p(3) False by auto
      then show ?thesis using that no by simp
    qed
    have zok: "jump_ok ?n s z" using p(3) z(2) pne by (meson hd_in_set)
    have here: "shift_branch s k D = Some (if z = ?j then D1 else set_branch s k z D1)"
      using False lok p(1) z(1) by (auto simp: shift_branch_def Let_def lists_ok_def doms'_def [symmetric] D1_def [symmetric])
    have eq: "dest ?t (d_insn D1) z = dest ?t (d_insn D1) (jump (d_insn D1 ! s) k)"
      if on: "on_path ?t (d_insn D1) s" "?t (d_insn D1 ! s) = k"
    proof -
      obtain x where x: "x \<in> set ?doms" "\<forall>b \<in> set (butlast x). takes ?t P0 b"
        using l on(1) unfolding lists_inv_def D1_def by auto
      have "takes ?t P0 ?brid" using takes_own_branch [OF g _ s, of k] on(2) by (simp add: D1_def)
      then have "all_taken ?t P0 (set_last ?brid x)" using x(2) by (auto simp: all_taken_def)
      moreover have "set_last ?brid x \<in> set doms'" using x(1) by (simp add: doms'_def)
      ultimately show ?thesis using p(4) z(2) by (metis D1_def dominator.select_convs(1) dominator.surjective dominator.update_convs(4))
    qed
    have "graph_inv ?t P0 (set_branch s k z D1)"
      by (rule graph_inv_set_branch [OF g1 _ s zok]) (use eq in auto)
    moreover have "lists_inv ?t P0 (Suc s) (set_branch s k z D1)"
      by (rule lists_inv_set_branch [OF l1]) (use g1 zok in \<open>auto simp: graph_inv_def jump_ok_def\<close>)
    ultimately show ?thesis using that [OF here] g1 l1 by simp
  qed
qed

section \<open>The whole run\<close>

text \<open>
  Every chain is clean when its state is visited. This is what \<open>calculate_dom\<close> needs: it
  shortens only the last list it has taken when both branches of a state arrive.
\<close>

fun clean_run :: "nat list \<Rightarrow> dominator \<Rightarrow> bool" where
  "clean_run [] D = True"
| "clean_run (s # ss) D =
     (clean_chain D (d_pred D ! s)
      \<and> (case run_dominator s D of None \<Rightarrow> True | Some D' \<Rightarrow> clean_run ss D'))"

lemma run_dominator_inv:
  assumes "graph_inv (word_test W) P0 D" "lists_inv (word_test W) P0 s D" "all_masked P0"
    and "s < length P0" "clean_chain D (d_pred D ! s)"
  obtains D' where "run_dominator s D = Some D'" "graph_inv (word_test W) P0 D'"
    "lists_inv (word_test W) P0 (Suc s) D'"
proof -
  obtain D1 where 1: "calculate_dom s D = Some D1" "graph_inv (word_test W) P0 D1" "lists_inv (word_test W) P0 (Suc s) D1"
    using calculate_dom_inv [OF assms(1,2) jump_blind_tests(1) assms(4,5)] by blast
  obtain D2 where 2: "shift_branch s True D1 = Some D2" "graph_inv (word_test W) P0 D2" "lists_inv (word_test W) P0 (Suc s) D2"
    by (rule shift_branch_inv [OF 1(2,3) assms(3,4), of True])
  obtain D3 where 3: "shift_branch s False D2 = Some D3" "graph_inv (word_test W) P0 D3" "lists_inv (word_test W) P0 (Suc s) D3"
    by (rule shift_branch_inv [OF 2(2,3) assms(3,4), of False])
  have "run_dominator s D = Some D3" using 1(1) 2(1) 3(1) by (simp add: run_dominator_def)
  then show ?thesis using that 3(2,3) by blast
qed

lemma run_dominators_inv:
  assumes "graph_inv (word_test W) P0 D" "lists_inv (word_test W) P0 s D" "all_masked P0"
    and "clean_run [s..<length P0] D"
  shows "\<exists>D'. run_dominators [s..<length P0] D = Some D' \<and> graph_inv (word_test W) P0 D'"
  using assms
proof (induction "length P0 - s" arbitrary: s D)
  case 0
  then show ?case by simp
next
  case (Suc m)
  then have s: "s < length P0" by simp
  then have u: "[s..<length P0] = s # [Suc s..<length P0]" by (simp add: upt_conv_Cons)
  have "clean_chain D (d_pred D ! s)" using Suc.prems(4) by (simp add: u)
  then obtain D' where D': "run_dominator s D = Some D'" "graph_inv (word_test W) P0 D'"
    "lists_inv (word_test W) P0 (Suc s) D'"
    using run_dominator_inv [OF Suc.prems(1-3) s] by blast
  have "\<exists>D''. run_dominators [Suc s..<length P0] D' = Some D'' \<and> graph_inv (word_test W) P0 D''"
    by (rule Suc.hyps(1)) (use Suc.hyps(2) Suc.prems(3,4) D' u in auto)
  then show ?case using D'(1) by (simp add: u)
qed

lemma dominator_optimize_words:
  assumes "forward P" "all_masked P" "clean_run [0..<length P] (new_dominator P)"
  obtains Q where "dominator_optimize P = Some Q" "length Q = length P" "forward Q" "all_masked Q"
    "\<And>W. exec (word_test W) Q 0 = exec (word_test W) P 0"
proof -
  have "\<exists>D'. run_dominators [0..<length P] (new_dominator P) = Some D' \<and> graph_inv (word_test W) P D'" for W
    by (rule run_dominators_inv [OF new_dominator_inv [OF assms(1)] assms(2,3)])
  then obtain D' where D': "run_dominators [0..<length P] (new_dominator P) = Some D'"
    "\<And>W. graph_inv (word_test W) P D'" by (metis option.inject)
  have "all_masked (d_insn D')"
    using graph_inv_masked [OF D'(2) assms(2)] D'(2) by (auto simp: all_masked_def in_set_conv_nth graph_inv_def)
  moreover have "dominator_optimize P = Some (d_insn D')" using D'(1) by (simp add: dominator_optimize_def)
  ultimately show ?thesis using that D'(2) unfolding graph_inv_def by blast
qed

end
