(* ===== verification/Wordwise_Optimize.thy ===== *)
theory Wordwise_Optimize
  imports Wordwise_Prune Wordwise_Dominator_Run
begin

text \<open>
  \<open>Program::optimize\<close> of \<open>classification.cc\<close>: the sort, the dominator optimiser, the two
  special-case passes and the computation of the safe length, and what the optimised program
  does with packets. \<open>None\<close> stands for a failed assertion or a read outside an array in
  one of the passes.
\<close>

section \<open>Definitions\<close>

definition settle_output :: "program \<Rightarrow> program" where
  "settle_output p =
     (if p_insn p = [] \<and> p_output_everything p < 0 then p\<lparr>p_output_everything := - j_never\<rparr>
      else if 0 \<le> p_output_everything p then p\<lparr>p_insn := []\<rparr>
      else p)"

definition wider :: "insn \<Rightarrow> u32 \<Rightarrow> u32" where
  "wider x safe = (if safe < of_nat (required_length x) then of_nat (required_length x) else safe)"

definition calculate_safe_length :: "program \<Rightarrow> u32" where
  "calculate_safe_length p =
     fold wider (p_insn p) 0 - p_align_offset p"

definition optimize :: "(int \<times> int) list \<Rightarrow> int \<Rightarrow> program \<Rightarrow> program option" where
  "optimize offset_map last_offset p =
     Option.bind (bubble_sort_and_exprs offset_map last_offset (p_insn p)) (\<lambda>sorted.
     Option.bind (dominator_optimize sorted) (\<lambda>shifted.
     Option.bind (combine_compatible_states shifted) (\<lambda>combined.
       let q = settle_output (remove_unused_states (p\<lparr>p_insn := combined\<rparr>))
       in Some (q\<lparr>p_safe_length := calculate_safe_length q\<rparr>))))"

section \<open>The safe length\<close>

lemma unat_required_length: "unat (of_nat (required_length x) :: u32) = required_length x"
proof -
  have "unat (i_offset x) < 65536" using unsigned_less [of "i_offset x"] by simp
  then have "required_length x < 2 ^ 32" by (simp add: required_length_def)
  then show ?thesis by (simp add: unat_of_nat)
qed

lemma unat_wider: "unat (wider x safe) = max (unat safe) (required_length x)"
  by (simp add: wider_def word_less_nat_alt unat_required_length)

lemma fold_wider_mono: "unat a \<le> unat (fold wider P a)"
proof (induction P arbitrary: a)
  case (Cons x P)
  from Cons [of "wider x a"] show ?case by (simp add: unat_wider)
qed simp

lemma fold_wider_upper: "x \<in> set P \<Longrightarrow> required_length x \<le> unat (fold wider P a)"
proof (induction P arbitrary: a)
  case (Cons y P)
  then show ?case using fold_wider_mono [of "wider y a" P] by (auto simp: unat_wider)
qed simp

lemma minus_word_bound: "unat (a :: u32) \<le> unat (a - b) + unat b"
  by (metis diff_add_cancel unat_plus_simple unat_word_ariths(1) mod_less_eq_dividend)

lemma safe_length_holds:
  assumes "unat (calculate_safe_length q) \<le> n" "x \<in> set (p_insn q)"
  shows "required_length x \<le> n + unat (p_align_offset q)"
  using fold_wider_upper [OF assms(2), of 0] assms(1)
    minus_word_bound [of "fold wider (p_insn q) 0" "p_align_offset q"]
  by (simp add: calculate_safe_length_def)

section \<open>What optimisation keeps\<close>

lemma settle_output_exit:
  assumes "p_insn p = [] \<longleftrightarrow> 0 \<le> p_output_everything p"
  shows "settle_output p = p"
  using assms by (cases p) (auto simp: settle_output_def)

lemma masked_zero_succeeds: "all_masked P \<Longrightarrow> zero_succeeds (word_test W) P"
  by (auto simp: zero_succeeds_def all_masked_def intro: word_test_zero)

lemma all_masked_test_of:
  assumes "set (map test_of Q) = set (map test_of P)" "all_masked P"
  shows "all_masked Q"
proof (unfold all_masked_def, rule ballI)
  fix x assume "x \<in> set Q"
  then have "test_of x \<in> set (map test_of P)" unfolding assms(1) [symmetric] by simp
  then obtain y where "y \<in> set P" "test_of x = test_of y" by auto
  then show "value_masked x" using assms(2) by (auto simp: all_masked_def value_masked_def test_of_def)
qed

lemma optimize_words:
  assumes "forward (p_insn p)" "all_masked (p_insn p)" "p_insn p \<noteq> []"
    and "bubble_sort_and_exprs om lo (p_insn p) = Some S" "clean_run [0..<length S] (new_dominator S)"
  obtains q where "optimize om lo p = Some q" "forward (p_insn q)"
    "\<And>x. x \<in> set (p_insn q) \<Longrightarrow> i_yes x \<noteq> i_no x \<and> i_mask x \<noteq> 0"
    "p_insn q = [] \<longleftrightarrow> 0 \<le> p_output_everything q"
    "p_align_offset q = p_align_offset p" "p_safe_length q = calculate_safe_length q"
    "\<And>W. program_exit (word_test W) q = exec (word_test W) (p_insn p) 0"
proof -
  obtain S' where S': "bubble_sort_and_exprs om lo (p_insn p) = Some S'" "same_jumps (p_insn p) S'"
    "mset (map test_of S') = mset (map test_of (p_insn p))"
    "\<And>t. jump_blind t \<Longrightarrow> exec t S' 0 = exec t (p_insn p) 0"
    using bubble_sort_correct [OF assms(1), of om lo] by blast
  with assms(4) have S: "S' = S" by simp
  have fS: "forward S" using forward_same_jumps [OF assms(1) S'(2)] S by simp
  have "set (map test_of S) = set (map test_of (p_insn p))" using S'(3) S by (metis set_mset_mset)
  then have mS: "all_masked S" using assms(2) by (rule all_masked_test_of)
  obtain D where D: "dominator_optimize S = Some D" "length D = length S" "forward D" "all_masked D"
    "\<And>W. exec (word_test W) D 0 = exec (word_test W) S 0"
    using dominator_optimize_words [OF fS mS assms(5)] by blast
  obtain C where C: "combine_compatible_states D = Some C" "equiv_on_words D C"
    using combine_compatible_states_correct [OF D(3,4)] by blast
  have ne: "C \<noteq> []" using C(2) D(2) S'(2) S assms(3) by (auto simp: equiv_on_words_def same_jumps_def)
  have fC: "forward C" "all_masked C" using C(2) D(3,4) by (auto simp: equiv_on_words_def)
  have eC: "exec (word_test W) C 0 = exec (word_test W) (p_insn p) 0" for W
    using C(2) D(2-5) S'(2,4) S assms(3) by (auto simp: equiv_on_words_def same_jumps_def)
  let ?r = "remove_unused_states (p\<lparr>p_insn := C\<rparr>)"
  note r = remove_unused_states_correct [of "p\<lparr>p_insn := C\<rparr>" "word_test W" for W, simplified, OF fC(1) ne
      masked_zero_succeeds [OF fC(2)]]
  have s: "settle_output ?r = ?r" using r by (intro settle_output_exit) blast
  let ?q = "?r\<lparr>p_safe_length := calculate_safe_length ?r\<rparr>"
  have o: "optimize om lo p = Some ?q" using assms(4) D(1) C(1) s by (simp add: optimize_def Let_def)
  have "p_align_offset ?r = p_align_offset p"
    by (simp add: remove_unused_states_def Let_def split: prod.splits)
  then show ?thesis
    using r eC by (intro that [OF o]) (auto simp: program_exit_def calculate_safe_length_def)
qed


section \<open>Evaluation\<close>

declare exec.simps [code]
declare combine_loop.simps [code]
declare sort_loop.simps [code]
declare shift_path.simps [code]

lemma list_update_numeral: "(x # xs)[numeral k := v] = x # xs[pred_numeral k := v]"
  by (simp add: numeral_eq_Suc)

lemmas known_lengths_eval = known_lengths_def known_step_def lower_known_def new_insn_def
  required_length_def jump_def wbyte_def list_update_numeral j_never_def

lemmas match_eval = match_packet_def length_checked_match_def exec_step dest_def fast_test_def
  checked_test_def packet_word_def word_at_def set_wbyte_def wbyte_def new_insn_def

text \<open>
  The programs of three configurations, as \<open>Classifier::parse_program\<close> builds them:
  \<open>0/01 0/02, 4/02\<close>; \<open>4/01%01 !0/00%01, !4/02%02 4/01%01 !4/01%01, 4/01%01 !4/03%03, 0/01%03\<close>;
  and \<open>!12/80%80 12/01%01, -\<close>.
\<close>

definition prog_conflict :: "insn list" where
  "prog_conflict = [new_insn 0 1 0xFF 2 1 False, new_insn 0 2 0xFF 2 0 False,
     new_insn 4 2 0xFF j_never (- 1) False]"

definition prog_repeated :: "insn list" where
  "prog_repeated = [new_insn 4 1 1 2 1 False, new_insn 0 0 1 0 2 False, new_insn 4 2 2 3 5 False,
    new_insn 4 1 1 5 4 False, new_insn 4 1 1 (- 1) 5 False, new_insn 4 1 1 7 6 False,
    new_insn 4 3 3 (- 2) 7 False, new_insn 0 1 3 j_never (- 3) False]"

definition prog_short :: "insn list" where
  "prog_short = [new_insn 12 0x80 0x80 1 (- 1) False, new_insn 12 1 1 (- 1) 0 False]"

lemma known_lengths_examples:
  "known_lengths prog_conflict = [0, 1, 0]" "known_lengths prog_short = [0, 0]"
  "known_lengths prog_repeated = [0, 5, 0, 0, 5, 0, 5, 0]"
  by (simp_all add: known_lengths_eval prog_conflict_def prog_short_def prog_repeated_def)

lemma sorted_examples:
  "bubble_sort_and_exprs [] offset_max prog_conflict = Some prog_conflict"
  "bubble_sort_and_exprs [] offset_max prog_repeated = Some prog_repeated"
  "bubble_sort_and_exprs [] offset_max prog_short = Some prog_short"
  by code_simp+

definition shifted_repeated :: "insn list" where
  "shifted_repeated = [new_insn 4 1 1 2 1 False, new_insn 0 0 1 0 2 False, new_insn 4 2 2 5 5 False,
    new_insn 4 1 1 j_never j_never False, new_insn 4 1 1 j_never j_never False,
    new_insn 4 1 1 7 (- 2) False, new_insn 4 3 3 j_never j_never False,
    new_insn 0 1 3 j_never (- 3) False]"

lemma dominator_examples:
  "dominator_optimize prog_conflict = None"
  "dominator_optimize prog_repeated = Some shifted_repeated"
  "dominator_optimize prog_short = Some prog_short"
  unfolding dominator_optimize_def new_dominator_def known_lengths_examples by code_simp+

definition fewer_tests :: "insn list" where
  "fewer_tests = [new_insn 4 0 1 1 2 True, new_insn 0 0 1 0 2 False,
     new_insn 4 1 1 3 (- 2) False, new_insn 0 1 3 j_never (- 3) False]"

lemma combine_examples:
  "map_option (\<lambda>C. remove_unused_states ((new_program 0)\<lparr>p_insn := C\<rparr>))
     (combine_compatible_states shifted_repeated)
   = Some \<lparr>p_insn = fewer_tests, p_output_everything = - 1, p_safe_length = - 1, p_align_offset = 0\<rparr>"
  "map_option (\<lambda>C. remove_unused_states ((new_program 0)\<lparr>p_insn := C\<rparr>))
     (combine_compatible_states prog_short)
   = Some \<lparr>p_insn = [new_insn 12 0x01 0x81 (- 1) 0 True], p_output_everything = - 1,
       p_safe_length = - 1, p_align_offset = 0\<rparr>"
  by code_simp+

lemma optimize_match:
  assumes "forward (p_insn p)" "all_masked (p_insn p)" "p_insn p \<noteq> []"
    and "\<And>S. bubble_sort_and_exprs om lo (p_insn p) = Some S \<Longrightarrow> clean_run [0..<length S] (new_dominator S)"
  shows "\<exists>q. optimize om lo p = Some q
    \<and> (\<forall>v. (\<forall>x \<in> set (p_insn q). holds v (unat (p_align_offset p)) x) \<longrightarrow>
         match_packet q v = map_option uminus (exec (fast_test v (unat (p_align_offset p))) (p_insn p) 0))
    \<and> (\<forall>v. unat (p_safe_length q) \<le> v_length v \<longrightarrow>
         (\<forall>x \<in> set (p_insn q). holds v (unat (p_align_offset p)) x))
    \<and> (p_insn q = [] \<longleftrightarrow> 0 \<le> p_output_everything q)
    \<and> (\<forall>x \<in> set (p_insn q). i_yes x \<noteq> i_no x \<and> i_mask x \<noteq> 0)"
proof -
  obtain S where S: "bubble_sort_and_exprs om lo (p_insn p) = Some S"
    using bubble_sort_correct [OF assms(1), of om lo] by blast
  obtain q where q: "optimize om lo p = Some q" "forward (p_insn q)"
    "\<And>x. x \<in> set (p_insn q) \<Longrightarrow> i_yes x \<noteq> i_no x \<and> i_mask x \<noteq> 0"
    "p_insn q = [] \<longleftrightarrow> 0 \<le> p_output_everything q"
    "p_align_offset q = p_align_offset p" "p_safe_length q = calculate_safe_length q"
    "\<And>W. program_exit (word_test W) q = exec (word_test W) (p_insn p) 0"
    using optimize_words [OF assms(1-3) S assms(4) [OF S]] by blast
  let ?a = "unat (p_align_offset p)"
  have m: "match_packet q v = map_option uminus (exec (fast_test v ?a) (p_insn p) 0)"
    if h: "\<forall>x \<in> set (p_insn q). holds v ?a x" for v
  proof -
    have c: "exec (checked_test v ?a) (p_insn q) 0 = exec (fast_test v ?a) (p_insn q) 0" if "p_insn q \<noteq> []"
      by (rule exec_cong_test [OF q(2)]) (use that h q(3) in \<open>simp_all add: checked_test_holds\<close>)
    have e: "program_exit (fast_test v ?a) q = exec (fast_test v ?a) (p_insn p) 0"
      using q(7) by (simp add: fast_test_word)
    show ?thesis
      using c q(4,5) unfolding e [symmetric]
      by (auto simp: match_packet_def length_checked_match_def program_exit_def)
  qed
  have "holds v ?a x" if "unat (p_safe_length q) \<le> v_length v" "x \<in> set (p_insn q)" for v x
    using safe_length_holds [of q "v_length v" x] that q(5,6) by (simp add: holds_def)
  then show ?thesis using q m by blast
qed

section \<open>Properties\<close>

text \<open>
  C26: \<open>optimize\<close> turns a non-empty forward program whose values are masked, and on which the
  dominator optimiser never meets both branches of one state in a row, into a program that
  sends every packet holding the words its tests read where the original program sends it,
  by the length-checking matcher as well as by the fast one. A packet of the computed safe
  length holds all these words. The result has instructions exactly when it does not send
  every packet to one output, and each of them tests something.
\<close>

theorem optimize_correct:
  assumes "forward (p_insn p)" "all_masked (p_insn p)" "p_insn p \<noteq> []"
    and "\<And>S. bubble_sort_and_exprs om lo (p_insn p) = Some S \<Longrightarrow> clean_run [0..<length S] (new_dominator S)"
  shows "\<exists>q. optimize om lo p = Some q
    \<and> (\<forall>v. (\<forall>x \<in> set (p_insn q). holds v (unat (p_align_offset p)) x) \<longrightarrow>
         match_packet q v = map_option uminus (exec (fast_test v (unat (p_align_offset p))) (p_insn p) 0))
    \<and> (\<forall>v. unat (p_safe_length q) \<le> v_length v \<longrightarrow>
         (\<forall>x \<in> set (p_insn q). holds v (unat (p_align_offset p)) x))
    \<and> (p_insn q = [] \<longleftrightarrow> 0 \<le> p_output_everything q)
    \<and> (\<forall>x \<in> set (p_insn q). i_yes x \<noteq> i_no x \<and> i_mask x \<noteq> 0)"
  by (rule optimize_match [OF assms])

theorem optimize_correct_witness:
  "let p = (new_program 0)\<lparr>p_insn := prog_short\<rparr>; v = \<lparr>v_mem = (\<lambda>a. if a = 12 then 1 else 0), v_length = 16\<rparr>
   in \<exists>q. optimize [] offset_max p = Some q \<and> match_packet q v = Some 0"
proof -
  let ?p = "(new_program 0)\<lparr>p_insn := prog_short\<rparr>"
  let ?v = "\<lparr>v_mem = (\<lambda>a. if a = 12 then 1 else 0 :: byte), v_length = 16\<rparr>"
  have f: "forward prog_short" "all_masked prog_short" "prog_short \<noteq> []"
    by (simp_all add: prog_short_def forward_def insn_ok_def jump_ok_def new_insn_def less_Suc_eq
        all_masked_def value_masked_def)
  have c: "clean_run [0..<length prog_short] (new_dominator prog_short)"
    unfolding new_dominator_def known_lengths_examples by code_simp
  obtain q where q: "optimize [] offset_max ?p = Some q"
    "\<forall>v. (\<forall>x \<in> set (p_insn q). holds v 0 x) \<longrightarrow>
         match_packet q v = map_option uminus (exec (fast_test v 0) prog_short 0)"
    "\<forall>v. unat (p_safe_length q) \<le> v_length v \<longrightarrow> (\<forall>x \<in> set (p_insn q). holds v 0 x)"
    using optimize_correct [of ?p "[]" offset_max] f c sorted_examples by (auto simp: new_program_def)
  have "p_safe_length q = 13" 
    using q(1) combine_examples(2)
    by (auto simp: optimize_def sorted_examples dominator_examples settle_output_def
        calculate_safe_length_def wider_def new_insn_def required_length_def wbyte_def Let_def)
  then have "match_packet q ?v = map_option uminus (exec (fast_test ?v 0) prog_short 0)"
    using q(2,3) by simp
  also have "\<dots> = Some 0" by (simp add: match_eval prog_short_def)
  finally show ?thesis using q(1) by (simp add: Let_def)
qed

text \<open>
  A pattern that contradicts itself, followed by one that does not, makes the dominator
  optimiser read before the start of its table of lists: \<open>calculate_dom\<close> marks the state
  behind the contradiction as impossible and stores no list for it, and a later state takes
  the list of that state as its dominator. In a build with assertions the router aborts.
\<close>

theorem optimize_conflict_aborts:
  "optimize [] offset_max ((new_program 0)\<lparr>p_insn := prog_conflict\<rparr>) = None"
  by (simp add: optimize_def sorted_examples dominator_examples)

text \<open>
  C29: without the condition on the run, the dominator optimiser is wrong even for packets
  that hold every word: a configuration whose patterns repeat a test sends a packet that
  matches none of them to output 2.
\<close>

theorem optimize_repeated_wrong:
  "let v = \<lparr>v_mem = (\<lambda>a. if a = 4 then 3 else 0), v_length = 8\<rparr>
   in \<exists>q. optimize [] offset_max ((new_program 0)\<lparr>p_insn := prog_repeated\<rparr>) = Some q
        \<and> match_packet q v = Some 2 \<and> exec (fast_test v 0) prog_repeated 0 = Some j_never"
proof -
  let ?v = "\<lparr>v_mem = (\<lambda>a. if a = 4 then 3 else 0 :: byte), v_length = 8\<rparr>"
  let ?q = "\<lparr>p_insn = fewer_tests, p_output_everything = - 1, p_safe_length = 5, p_align_offset = 0\<rparr>"
  have "optimize [] offset_max ((new_program 0)\<lparr>p_insn := prog_repeated\<rparr>) = Some ?q"
    using combine_examples(1)
    by (auto simp: optimize_def sorted_examples dominator_examples settle_output_def fewer_tests_def
        calculate_safe_length_def wider_def new_insn_def required_length_def wbyte_def Let_def)
  moreover have "match_packet ?q ?v = Some 2"
    by (simp add: match_eval fewer_tests_def)
  moreover have "exec (fast_test ?v 0) prog_repeated 0 = Some j_never"
    by (simp add: match_eval prog_repeated_def j_never_def)
  ultimately show ?thesis by (simp add: Let_def)
qed

text \<open>
  \<open>combine_compatible_states\<close> merges a negated test with a following one although a packet
  that is too short answers them differently: with the configuration \<open>!12/80%80 12/01%01, -\<close>
  a packet of twelve bytes belongs to output 1, and the optimised program sends it to
  output 0.
\<close>

theorem optimize_short_packet_wrong:
  "let p = (new_program 0)\<lparr>p_insn := prog_short\<rparr>; v = \<lparr>v_mem = (\<lambda>_. 0), v_length = 12\<rparr>
   in \<exists>q. optimize [] offset_max p = Some q
        \<and> match_packet q v = Some 0 \<and> length_checked_match p v = Some 1"
proof -
  let ?v = "\<lparr>v_mem = (\<lambda>_. 0 :: byte), v_length = 12\<rparr>"
  let ?q = "\<lparr>p_insn = [new_insn 12 0x01 0x81 (- 1) 0 True], p_output_everything = - 1,
       p_safe_length = 13, p_align_offset = 0\<rparr>"
  have "optimize [] offset_max ((new_program 0)\<lparr>p_insn := prog_short\<rparr>) = Some ?q"
    using combine_examples(2)
    by (auto simp: optimize_def sorted_examples dominator_examples settle_output_def
        calculate_safe_length_def wider_def new_insn_def required_length_def wbyte_def Let_def)
  moreover have "match_packet ?q ?v = Some 0" by (simp add: match_eval)
  moreover have "length_checked_match ((new_program 0)\<lparr>p_insn := prog_short\<rparr>) ?v = Some 1"
    by (simp add: match_eval prog_short_def new_program_def)
  ultimately show ?thesis by (simp add: Let_def)
qed

end
