(* ===== verification/Pattern_Parser.thy ===== *)
theory Pattern_Parser
  imports Wordwise_Optimize
begin

text \<open>
  The pattern language of the classifier (\<open>src/classifier.cc\<close>): \<open>empty_program\<close>,
  \<open>update_value_mask\<close>, \<open>parse_program\<close> and \<open>configure\<close>. A configuration has one string per
  output; each is a sequence of clauses \<open>offset/value%mask\<close>, possibly negated.

  Strings are scanned by their remaining suffixes, which correspond to the positions of the
  code. \<open>None\<close> stands for overflow of the \<open>int\<close> offset, a read behind the end
  of the string, or a failure of the optimiser.
\<close>

section \<open>Definitions\<close>

text \<open>The answer of \<open>AlignmentInfo::query\<close>, if there is one: the chunk and the offset in it.\<close>

definition empty_program :: "(int \<times> int) option \<Rightarrow> program" where
  "empty_program query =
     new_program (case query of
         Some (c, o') \<Rightarrow> if 4 \<le> c then of_int ((4 - o' mod 4) mod 4) else 0
       | None \<Rightarrow> 0)"

definition isspace :: "char \<Rightarrow> bool" where
  "isspace c \<longleftrightarrow> (of_char c :: nat) \<in> {9, 10, 11, 12, 13, 32}"

definition isdigit :: "char \<Rightarrow> bool" where
  "isdigit c \<longleftrightarrow> 48 \<le> (of_char c :: nat) \<and> (of_char c :: nat) \<le> 57"

definition isxdigit :: "char \<Rightarrow> bool" where
  "isxdigit c \<longleftrightarrow> isdigit c
     \<or> 65 \<le> (of_char c :: nat) \<and> (of_char c :: nat) \<le> 70
     \<or> 97 \<le> (of_char c :: nat) \<and> (of_char c :: nat) \<le> 102"

definition update_value_mask :: "char \<Rightarrow> nat \<Rightarrow> byte \<times> byte \<Rightarrow> byte \<times> byte" where
  "update_value_mask c shift vm =
     (let n = of_char c :: nat;
          (v, m) = (if c = CHR ''?'' then (0, 0)
                    else if 48 \<le> n \<and> n \<le> 57 then (n - 48, 0xF)
                    else if 65 \<le> n \<and> n \<le> 70 then (n - 65 + 10, 0xF)
                    else if 97 \<le> n \<and> n \<le> 102 then (n - 97 + 10, 0xF)
                    else (0, 0xF :: nat))
      in (fst vm OR push_bit shift (of_nat v), snd vm OR push_bit shift (of_nat m)))"

definition hex_pair :: "char \<Rightarrow> char \<Rightarrow> byte \<times> byte" where
  "hex_pair hi lo = update_value_mask lo 0 (update_value_mask hi 4 (0, 0))"

datatype parse_error =
  Expected_digit nat | Expected_slash nat | Value_short nat | Value_odd nat | Mask_length nat bool

record clause =
  c_negated :: bool
  c_offset :: int
  c_bytes :: "(byte \<times> byte) list"

fun read_offset :: "int \<Rightarrow> string \<Rightarrow> (int \<times> string) option" where
  "read_offset offset (c # s) =
     (if isdigit c
      then let offset' = offset * 10 + (of_char c - 48)
           in if INT_MAX < offset' then None else read_offset offset' s
      else Some (offset, c # s))"
| "read_offset offset [] = Some (offset, [])"

definition scan_digits :: "string \<Rightarrow> nat" where
  "scan_digits s = length (takeWhile (\<lambda>c. isxdigit c \<or> c = CHR ''?'') s)"

text \<open>
  The checks on the numbers of digits of the value and of the mask, as the code applies them
  to \<open>value_end - value_pos\<close> and \<open>mask_end - mask_pos\<close>.
\<close>

definition check_lengths :: "nat \<Rightarrow> int \<Rightarrow> int option \<Rightarrow> int \<times> parse_error list" where
  "check_lengths slot nv nm =
     (let (nv, nm, e1) = (if nv < 2 then (0, map_option (\<lambda>_. 0) nm, [Value_short slot]) else (nv, nm, []));
          (nv, nm, e2) = (if nv mod 2 \<noteq> 0 then (nv - 1, map_option (\<lambda>n. n - 1) nm, e1 @ [Value_odd slot])
                          else (nv, nm, e1))
      in case nm of
           None \<Rightarrow> (nv, e2)
         | Some n \<Rightarrow> if n \<noteq> nv then (if nv < n then nv else n, e2 @ [Mask_length slot (nv < n)])
                     else (nv, e2))"

text \<open>The loop over the value: two characters of value, and of mask if there is one, for each byte.\<close>

fun byte_tests :: "int \<Rightarrow> string \<Rightarrow> string option \<Rightarrow> (byte \<times> byte) list option" where
  "byte_tests n value msk =
     (if n \<le> 0 then Some []
      else case value of
          hi # lo # value' \<Rightarrow>
            (let (v, m) = hex_pair hi lo in
             case msk of
               None \<Rightarrow> map_option (\<lambda>bs. (v AND m, m) # bs) (byte_tests (n - 2) value' None)
             | Some (mhi # mlo # msk') \<Rightarrow>
                 (let (mv, mm) = hex_pair mhi mlo; m' = m AND mv AND mm in
                  map_option (\<lambda>bs. (v AND m', m') # bs) (byte_tests (n - 2) value' (Some msk')))
             | Some _ \<Rightarrow> None)
        | _ \<Rightarrow> None)"

declare byte_tests.simps [simp del]

definition skip_spaces :: "string \<Rightarrow> string" where
  "skip_spaces s = dropWhile isspace s"

definition parse_clause ::
  "nat \<Rightarrow> string \<Rightarrow> (parse_error + clause \<times> parse_error list \<times> string) option" where
  "parse_clause slot s =
     (let negated = (s \<noteq> [] \<and> hd s = CHR ''!'');
          s1 = (if negated then skip_spaces (tl s) else s) in
      if s1 = [] \<or> \<not> isdigit (hd s1) then Some (Inl (Expected_digit slot))
      else case read_offset 0 s1 of
        None \<Rightarrow> None
      | Some (offset, s2) \<Rightarrow>
          if s2 = [] \<or> hd s2 \<noteq> CHR ''/'' then Some (Inl (Expected_slash slot))
          else let value = tl s2; nv = scan_digits value; s3 = drop nv value;
                   msk = (if s3 \<noteq> [] \<and> hd s3 = CHR ''%'' then Some (tl s3) else None);
                   rest = (case msk of None \<Rightarrow> s3 | Some ms \<Rightarrow> drop (scan_digits ms) ms);
                   (n, errs) = check_lengths slot (int nv) (map_option (\<lambda>ms. int (scan_digits ms)) msk)
               in map_option (\<lambda>bs. Inr (\<lparr>c_negated = negated, c_offset = offset, c_bytes = bs\<rparr>, errs, rest))
                    (byte_tests n value msk))"

lemma read_offset_shorter: "read_offset n s = Some (m, s') \<Longrightarrow> length s' \<le> length s"
  by (induction n s rule: read_offset.induct) (auto simp: Let_def split: if_splits)

lemma parse_clause_shorter:
  "parse_clause slot s = Some (Inr (c, errs, rest)) \<Longrightarrow> length rest < length s"
proof -
  assume p: "parse_clause slot s = Some (Inr (c, errs, rest))"
  let ?s1 = "if s \<noteq> [] \<and> hd s = CHR ''!'' then skip_spaces (tl s) else s"
  from p obtain offset s2 where s2: "read_offset 0 ?s1 = Some (offset, s2)" "s2 \<noteq> []"
    by (auto simp: parse_clause_def Let_def split: if_splits option.splits prod.splits)
  have "length rest \<le> length (tl s2)"
    using p s2 by (auto simp: parse_clause_def Let_def split: if_splits option.splits prod.splits)
  also have "\<dots> < length s2" using s2(2) by (cases s2) auto
  also have "\<dots> \<le> length ?s1" by (rule read_offset_shorter [OF s2(1)])
  also have "\<dots> \<le> length s"
    using length_dropWhile_le [of isspace "tl s"] by (auto simp: skip_spaces_def)
  finally show ?thesis .
qed

text \<open>The clauses of one slot; an error that ends the loop keeps the clauses before it.\<close>

function parse_clauses :: "nat \<Rightarrow> string \<Rightarrow> (clause list \<times> parse_error list) option" where
  "parse_clauses slot s =
     (let s1 = skip_spaces s in
      if s1 = [] then Some ([], [])
      else case parse_clause slot s1 of
        None \<Rightarrow> None
      | Some (Inl e) \<Rightarrow> Some ([], [e])
      | Some (Inr (c, errs, rest)) \<Rightarrow>
          map_option (\<lambda>(cs, es). (c # cs, errs @ es)) (parse_clauses slot rest))"
  by pat_completeness auto
termination
proof (relation "measure (\<lambda>(slot, s). length s)", simp)
  fix slot :: nat and s s1 x y c z errs rest
  assume "s1 = skip_spaces s" "parse_clause slot s1 = Some x" "x = Inr y" "(c, z) = y" "(errs, rest) = z"
  then have "length rest < length s1" using parse_clause_shorter [of slot s1 c errs rest] by auto
  moreover have "length s1 \<le> length s" using \<open>s1 = _\<close> by (simp add: skip_spaces_def length_dropWhile_le)
  ultimately show "((slot, rest), slot, s) \<in> measure (\<lambda>(slot, s). length s)" by simp
qed

declare parse_clauses.simps [simp del]

definition parse_slot :: "nat \<Rightarrow> string \<Rightarrow> (clause list \<times> parse_error list) option" where
  "parse_slot slot s = (if s = ''-'' then Some ([], []) else parse_clauses slot s)"

text \<open>Emission of the code for a clause: one instruction for each word that the bytes touch.\<close>

definition set_back :: "(insn \<Rightarrow> insn) \<Rightarrow> program \<Rightarrow> program" where
  "set_back f p = p\<lparr>p_insn := butlast (p_insn p) @ [f (last (p_insn p))]\<rparr>"

definition set_byte :: "nat \<Rightarrow> byte \<times> byte \<Rightarrow> insn \<Rightarrow> insn" where
  "set_byte k vm x = x\<lparr>i_mask := set_wbyte (i_mask x) k (snd vm), i_value := set_wbyte (i_value x) k (fst vm)\<rparr>"

fun emit_bytes ::
  "bool \<Rightarrow> int \<Rightarrow> (byte \<times> byte) list \<Rightarrow> program \<times> int list \<Rightarrow> program \<times> int list" where
  "emit_bytes first offset [] st = st"
| "emit_bytes first offset (vm # bs) (p, tree) =
     (let (p1, tree1) = (if first \<or> offset mod 4 = 0 then add_insn tree (offset div 4 * 4) 0 0 p
                         else (p, tree))
      in emit_bytes False (offset + 1) bs (set_back (set_byte (nat (offset mod 4)) vm) p1, tree1))"

definition emit_clause :: "clause \<Rightarrow> program \<times> int list \<Rightarrow> (program \<times> int list) option" where
  "emit_clause c st =
     (let (p, tree) = st; offset = c_offset c + uint (p_align_offset p) in
      if INT_MAX < offset + int (length (c_bytes c)) then None
      else let (p1, tree1) = emit_bytes True offset (c_bytes c) (p, start_subtree tree);
               (p2, tree2) = finish_subtree tree1 C_and j_success j_failure p1
           in Some (if c_negated c then negate_subtree tree2 False p2 else p2, tree2))"

fun emit_clauses :: "clause list \<Rightarrow> program \<times> int list \<Rightarrow> (program \<times> int list) option" where
  "emit_clauses [] st = Some st"
| "emit_clauses (c # cs) st = Option.bind (emit_clause c st) (emit_clauses cs)"

definition emit_slot :: "nat \<Rightarrow> clause list \<Rightarrow> program \<times> int list \<Rightarrow> (program \<times> int list) option" where
  "emit_slot slot cs st =
     map_option (\<lambda>(p, tree).
       let (p1, tree1) = (if \<forall>c \<in> set cs. c_bytes c = [] then add_insn tree 0 0 0 p else (p, tree))
       in finish_subtree tree1 C_and (- int slot) j_failure p1)
       (emit_clauses cs (fst st, start_subtree (snd st)))"

fun parse_slots ::
  "nat \<Rightarrow> string list \<Rightarrow> program \<times> int list \<Rightarrow> ((program \<times> int list) \<times> parse_error list) option" where
  "parse_slots slot [] st = Some (st, [])"
| "parse_slots slot (s # conf) st =
     Option.bind (parse_slot slot s) (\<lambda>(cs, errs).
     Option.bind (emit_slot slot cs st) (\<lambda>st'.
     map_option (\<lambda>(st'', errs'). (st'', errs @ errs')) (parse_slots (Suc slot) conf st')))"

definition build_program :: "string list \<Rightarrow> program \<Rightarrow> (program \<times> parse_error list) option" where
  "build_program conf prog =
     map_option (\<lambda>((p, tree), errs). (fst (finish_subtree tree C_or j_never j_never p), errs))
       (parse_slots 0 conf (prog, start_subtree (init_subtree prog)))"

definition parse_program :: "string list \<Rightarrow> program \<Rightarrow> (program \<times> parse_error list) option" where
  "parse_program conf prog =
     Option.bind (build_program conf prog) (\<lambda>(p, errs).
       map_option (\<lambda>q. (q, errs)) (optimize [] offset_max p))"

datatype configure_error = Need_arguments nat | Parse_errors "parse_error list"

text \<open>\<open>configure\<close>: the new program and the outputs warned about, or the errors.\<close>

definition configure ::
  "nat \<Rightarrow> (int \<times> int) option \<Rightarrow> string list \<Rightarrow> (configure_error + program \<times> nat list) option" where
  "configure noutputs query conf =
     (if length conf \<noteq> noutputs then Some (Inl (Need_arguments noutputs))
      else map_option (\<lambda>(q, errs). if errs = [] then Inr (q, warn_unused_outputs noutputs q)
                                   else Inl (Parse_errors errs))
             (parse_program conf (empty_program query)))"

section \<open>The instructions of a clause\<close>

text \<open>The instructions that \<open>emit_bytes\<close> appends, the last of them still open.\<close>

definition blank_insn :: "int \<Rightarrow> insn" where
  "blank_insn offset = new_insn (offset div 4 * 4) 0 0 j_failure j_success False"

fun word_insns :: "insn \<Rightarrow> int \<Rightarrow> (byte \<times> byte) list \<Rightarrow> insn list" where
  "word_insns x offset [] = [x]"
| "word_insns x offset (vm # bs) =
     (if offset mod 4 = 0 then x # word_insns (set_byte 0 vm (blank_insn offset)) (offset + 1) bs
      else word_insns (set_byte (nat (offset mod 4)) vm x) (offset + 1) bs)"

fun clause_insns :: "int \<Rightarrow> (byte \<times> byte) list \<Rightarrow> insn list" where
  "clause_insns offset [] = []"
| "clause_insns offset (vm # bs) =
     word_insns (set_byte (nat (offset mod 4)) vm (blank_insn offset)) (offset + 1) bs"

lemma word_insns_nonempty [simp]: "word_insns x offset bs \<noteq> []"
  by (induction x offset bs rule: word_insns.induct) auto

lemma set_back_snoc [simp]: "set_back f (p\<lparr>p_insn := P @ [x]\<rparr>) = p\<lparr>p_insn := P @ [f x]\<rparr>"
  by (simp add: set_back_def)

lemma emit_bytes_open:
  assumes "tree \<noteq> []"
  shows "emit_bytes False offset bs (p\<lparr>p_output_everything := - 1, p_insn := P @ [x]\<rparr>, tree)
    = (p\<lparr>p_output_everything := - 1, p_insn := P @ word_insns x offset bs\<rparr>,
       tree @ replicate (length (word_insns x offset bs) - 1) (tree ! 0))"
  using assms
proof (induction bs arbitrary: offset P x tree)
  case Nil
  then show ?case by simp
next
  case (Cons vm bs)
  show ?case
  proof (cases "offset mod 4 = 0")
    case True
    let ?y = "set_byte 0 vm (blank_insn offset)"
    have "emit_bytes False offset (vm # bs) (p\<lparr>p_output_everything := - 1, p_insn := P @ [x]\<rparr>, tree)
      = emit_bytes False (offset + 1) bs
          (p\<lparr>p_output_everything := - 1, p_insn := (P @ [x]) @ [?y]\<rparr>, tree @ [tree ! 0])"
      using True by (simp add: add_insn_def blank_insn_def set_back_def butlast_append)
    also have "\<dots> = (p\<lparr>p_output_everything := - 1, p_insn := (P @ [x]) @ word_insns ?y (offset + 1) bs\<rparr>,
       (tree @ [tree ! 0]) @ replicate (length (word_insns ?y (offset + 1) bs) - 1) (tree ! 0))"
      using Cons.prems Cons.IH [of "tree @ [tree ! 0]" "offset + 1" "P @ [x]" ?y] by (simp add: nth_append)
    finally show ?thesis
      using True by (cases "word_insns ?y (offset + 1) bs") auto
  next
    case False
    then show ?thesis using Cons by (simp add: Let_def set_back_def)
  qed
qed

lemma emit_bytes_insns:
  assumes "tree \<noteq> []" "bs \<noteq> []"
  shows "emit_bytes True offset bs (p, tree)
    = (p\<lparr>p_output_everything := - 1, p_insn := p_insn p @ clause_insns offset bs\<rparr>,
       tree @ replicate (length (clause_insns offset bs)) (tree ! 0))"
proof (cases bs)
  case (Cons vm bs')
  let ?y = "set_byte (nat (offset mod 4)) vm (blank_insn offset)"
  have "emit_bytes True offset bs (p, tree) = emit_bytes False (offset + 1) bs'
      (p\<lparr>p_output_everything := - 1, p_insn := p_insn p @ [?y]\<rparr>, tree @ [tree ! 0])"
    using Cons by (simp add: add_insn_def blank_insn_def set_back_def)
  also have "\<dots> = (p\<lparr>p_output_everything := - 1, p_insn := p_insn p @ word_insns ?y (offset + 1) bs'\<rparr>,
       (tree @ [tree ! 0]) @ replicate (length (word_insns ?y (offset + 1) bs') - 1) (tree ! 0))"
    using assms by (subst emit_bytes_open) (simp_all add: nth_append)
  finally show ?thesis using Cons by (cases "word_insns ?y (offset + 1) bs'") auto
qed (use assms in simp)

section \<open>What the instructions test\<close>

lemma wbyte_bit: "bit (wbyte u i) n \<longleftrightarrow> n < 8 \<and> bit u (8 * i + n)"
  by (auto simp: wbyte_def bit_ucast_iff bit_drop_bit_eq dest: bit_imp_le_length)

lemma bit_ff: "bit (0xFF :: u32) n \<longleftrightarrow> n < 8"
proof -
  have "(0xFF :: u32) = mask 8" by (simp add: mask_eq_exp_minus_1)
  then have "bit (0xFF :: u32) n = bit (mask 8 :: u32) n" by simp
  also have "\<dots> \<longleftrightarrow> n < 8" by (auto simp: bit_mask_iff)
  finally show ?thesis .
qed

lemma set_wbyte_bit:
  "bit (set_wbyte u i b) n \<longleftrightarrow> n < 32 \<and> (if 8 * i \<le> n \<and> n < 8 * i + 8 then bit b (n - 8 * i) else bit u n)"
proof (cases "n < 32")
  case True
  have "bit (set_wbyte u i b) n \<longleftrightarrow>
      bit u n \<and> \<not> (8 * i \<le> n \<and> n - 8 * i < 8) \<or> 8 * i \<le> n \<and> bit b (n - 8 * i)"
    using True unfolding set_wbyte_def
    by (auto simp: bit_or_iff bit_and_iff bit_not_iff bit_push_bit_iff bit_ucast_iff bit_ff
        simp del: bit_numeral_word_iff dest: bit_imp_le_length)
  then show ?thesis using True by (auto dest: bit_imp_le_length)
qed (auto dest: bit_imp_le_length)

lemma wbyte_set_wbyte: "i < 4 \<Longrightarrow> j < 4 \<Longrightarrow> wbyte (set_wbyte u i b) j = (if i = j then b else wbyte u j)"
  by (rule bit_eqI) (auto simp: wbyte_bit set_wbyte_bit dest: bit_imp_le_length)

lemma word_eq_bytes: "u = u' \<longleftrightarrow> (\<forall>k < 4. wbyte u k = wbyte u' k)"
proof (rule iffI)
  assume eq: "\<forall>k < 4. wbyte u k = wbyte u' k"
  show "u = u'"
  proof (rule bit_eqI)
    fix n assume "possible_bit TYPE(32 word) n"
    then have n: "n < 32" by simp
    have "bit w n \<longleftrightarrow> bit (wbyte w (n div 8)) (n mod 8)" for w :: u32
      by (simp add: wbyte_bit)
    moreover have "n div 8 < 4" using n by simp
    ultimately show "bit u n = bit u' n" using eq by simp
  qed
qed simp

lemma wbyte_and: "wbyte (u AND u') k = wbyte u k AND wbyte u' k"
  by (rule bit_eqI) (auto simp: wbyte_bit bit_and_iff)

lemma wbyte_word_at: "k < 4 \<Longrightarrow> wbyte (word_at v a) k = v_mem v (a + int k)"
  by (auto simp: word_at_def wbyte_set_wbyte less_Suc_eq numeral_eq_Suc)
text \<open>
  One byte test at a position counted from the aligned start of the packet: a byte outside
  the packet passes only if no bit of it is tested.
\<close>

definition byte_ok :: "packet_view \<Rightarrow> nat \<Rightarrow> int \<Rightarrow> byte \<times> byte \<Rightarrow> bool" where
  "byte_ok v al pos vm \<longleftrightarrow>
     (snd vm \<noteq> 0 \<longrightarrow> pos < int (v_length v + al) \<and> v_mem v (pos - int al) AND snd vm = fst vm)"

definition passes :: "packet_view \<Rightarrow> nat \<Rightarrow> insn \<Rightarrow> bool" where
  "passes v al x \<longleftrightarrow> uint (i_offset x) < int (v_length v + al)
     \<and> (\<forall>k < 4. byte_ok v al (uint (i_offset x) + int k) (wbyte (i_value x) k, wbyte (i_mask x) k))"

lemma fast_test_bytes:
  "fast_test v al x \<longleftrightarrow> (\<forall>k < 4. v_mem v (uint (i_offset x) + int k - int al) AND wbyte (i_mask x) k = wbyte (i_value x) k)"
  by (auto simp: fast_test_def word_eq_bytes [of "_ AND _"] wbyte_and packet_word_def wbyte_word_at algebra_simps)

lemma value_masked_bytes: "value_masked x \<Longrightarrow> wbyte (i_mask x) k = 0 \<Longrightarrow> wbyte (i_value x) k = 0"
  by (metis and_zero_eq value_masked_def wbyte_and)

lemma all_less_4: "(\<forall>k < (4::nat). P k) \<longleftrightarrow> P 0 \<and> P 1 \<and> P 2 \<and> P 3"
  by (auto simp: less_Suc_eq numeral_eq_Suc)

lemma checked_test_passes:
  assumes "value_masked x" "\<not> i_short x"
  shows "checked_test v al x = passes v al x"
proof -
  let ?off = "unat (i_offset x)" and ?len = "v_length v + al"
  let ?fits = "?off < ?len \<and> (\<forall>k < 4. wbyte (i_mask x) k \<noteq> 0 \<longrightarrow> ?off + k < ?len)"
  have "checked_test v al x = (?fits \<and> fast_test v al x)"
    using assms(2) by (auto simp: checked_test_def Let_def all_less_4)
  also have "\<dots> = passes v al x"
  proof -
    have u: "uint (i_offset x) = int ?off" by simp
    have "uint (i_offset x) + int k < int ?len \<longleftrightarrow> ?off + k < ?len" for k
      by (rule iffI) (use u in linarith)+
    from this this [of 0] show ?thesis
      using value_masked_bytes [OF assms(1)] by (auto simp: passes_def byte_ok_def fast_test_bytes)
  qed
  finally show ?thesis .
qed

text \<open>The instructions of a clause are new: symbolic jumps, and no answer for short packets.\<close>

definition fresh :: "insn \<Rightarrow> bool" where
  "fresh x \<longleftrightarrow> value_masked x \<and> \<not> i_short x \<and> i_no x = j_failure \<and> i_yes x = j_success"

definition masked_bytes :: "(byte \<times> byte) list \<Rightarrow> bool" where
  "masked_bytes bs \<longleftrightarrow> (\<forall>(v, m) \<in> set bs. v AND m = v)"

lemma fresh_blank [simp]: "fresh (blank_insn offset)"
  by (simp add: fresh_def blank_insn_def) (simp add: new_insn_def)

lemma fresh_set_byte: "fresh x \<Longrightarrow> k < 4 \<Longrightarrow> fst vm AND snd vm = fst vm \<Longrightarrow> fresh (set_byte k vm x)"
  by (auto simp: fresh_def set_byte_def value_masked_def word_eq_bytes [of "_ AND _"] wbyte_and wbyte_set_wbyte)

lemma fresh_word_insns:
  "fresh x \<Longrightarrow> masked_bytes bs \<Longrightarrow> 0 \<le> offset \<Longrightarrow> y \<in> set (word_insns x offset bs) \<Longrightarrow> fresh y"
proof (induction bs arbitrary: x offset)
  case (Cons vm bs)
  have "nat (offset mod 4) < 4" by simp
  moreover have "fst vm AND snd vm = fst vm" using Cons.prems(2) by (auto simp: masked_bytes_def)
  moreover have "masked_bytes bs" using Cons.prems(2) by (simp add: masked_bytes_def)
  ultimately show ?case
    using Cons.prems Cons.IH [of _ "offset + 1"] fresh_set_byte [of x _ vm] fresh_set_byte [of "blank_insn offset" 0 vm]
    by (auto split: if_splits)
qed simp

lemma fresh_clause_insns:
  assumes "masked_bytes bs" "0 \<le> offset" "y \<in> set (clause_insns offset bs)"
  shows "fresh y"
proof (cases bs)
  case (Cons vm bs')
  have "fresh (set_byte (nat (offset mod 4)) vm (blank_insn offset))"
    using assms(1) Cons by (intro fresh_set_byte) (auto simp: masked_bytes_def)
  then show ?thesis
    using fresh_word_insns [of _ bs' "offset + 1" y] assms Cons by (simp add: masked_bytes_def)
qed (use assms in simp)

text \<open>
  All instructions of a clause pass exactly if every byte passes and every word that holds
  one of them starts inside the packet.
\<close>

definition clause_bytes_ok :: "packet_view \<Rightarrow> nat \<Rightarrow> int \<Rightarrow> (byte \<times> byte) list \<Rightarrow> bool" where
  "clause_bytes_ok v al offset bs \<longleftrightarrow>
     (\<forall>i < length bs. byte_ok v al (offset + int i) (bs ! i)
        \<and> (offset + int i) div 4 * 4 < int (v_length v + al))"

lemma clause_bytes_ok_simps [simp]:
  "clause_bytes_ok v al offset []"
  "clause_bytes_ok v al offset (vm # bs) \<longleftrightarrow>
     byte_ok v al offset vm \<and> offset div 4 * 4 < int (v_length v + al) \<and> clause_bytes_ok v al (offset + 1) bs"
  by (auto simp: clause_bytes_ok_def nth_Cons All_less_Suc2 algebra_simps)

text \<open>An instruction under construction whose bytes from \<open>offset\<close> on are still open.\<close>

definition open_at :: "int \<Rightarrow> insn \<Rightarrow> bool" where
  "open_at offset x \<longleftrightarrow> (offset mod 4 \<noteq> 0 \<longrightarrow> uint (i_offset x) = offset div 4 * 4
     \<and> (\<forall>k < 4. offset mod 4 \<le> int k \<longrightarrow> wbyte (i_mask x) k = 0))"

lemma passes_set_byte:
  assumes "k < 4" "wbyte (i_mask x) k = 0"
  shows "passes v al (set_byte k vm x) \<longleftrightarrow> passes v al x \<and> byte_ok v al (uint (i_offset x) + int k) vm"
proof -
  have "(\<forall>j < 4. byte_ok v al (uint (i_offset x) + int j)
          (if k = j then fst vm else wbyte (i_value x) j, if k = j then snd vm else wbyte (i_mask x) j))
      \<longleftrightarrow> (\<forall>j < 4. byte_ok v al (uint (i_offset x) + int j) (wbyte (i_value x) j, wbyte (i_mask x) j))
        \<and> byte_ok v al (uint (i_offset x) + int k) vm"
    using assms by (auto simp: byte_ok_def split: if_splits)
  then show ?thesis
    using assms(1) by (simp add: passes_def set_byte_def wbyte_set_wbyte conj_assoc cong: conj_cong)
qed
lemma blank_insn_bytes [simp]:
  "0 \<le> offset \<Longrightarrow> offset < 65536 \<Longrightarrow> uint (i_offset (blank_insn offset)) = offset div 4 * 4"
  "i_mask (blank_insn offset) = 0" "i_value (blank_insn offset) = 0"
proof -
  assume "0 \<le> offset" "offset < 65536"
  then have "0 \<le> offset div 4 * 4" "offset div 4 * 4 < 65536" by simp_all
  then show "uint (i_offset (blank_insn offset)) = offset div 4 * 4"
    unfolding blank_insn_def new_insn_def by (simp del: of_int_mult add: uint_word_of_int)
qed (simp_all add: blank_insn_def new_insn_def)

lemma wbyte_0 [simp]: "wbyte 0 k = 0"
  by (simp add: wbyte_def)

lemma set_byte_fields [simp]: "i_offset (set_byte k vm x) = i_offset x"
  by (simp add: set_byte_def)

lemma passes_blank:
  assumes "0 \<le> offset" "offset < 65536"
  shows "passes v al (blank_insn offset) \<longleftrightarrow> offset div 4 * 4 < int (v_length v + al)"
  using assms by (simp add: passes_def byte_ok_def)

lemma open_at_blank: 
  assumes "0 \<le> offset" "offset < 65536"
  shows "open_at offset (blank_insn offset)"
  using assms by (simp add: open_at_def)

lemma open_at_set_byte:
  assumes "uint (i_offset x) = offset div 4 * 4"
    and "\<forall>k < 4. offset mod 4 \<le> int k \<longrightarrow> wbyte (i_mask x) k = 0"
  shows "open_at (offset + 1) (set_byte (nat (offset mod 4)) vm x)"
proof (unfold open_at_def, intro impI)
  assume "(offset + 1) mod 4 \<noteq> 0"
  then have d: "(offset + 1) div 4 = offset div 4" "(offset + 1) mod 4 = offset mod 4 + 1" by presburger+
  have "wbyte (i_mask (set_byte (nat (offset mod 4)) vm x)) k = 0" if "k < 4" "offset mod 4 + 1 \<le> int k" for k
    using that assms(2) by (auto simp: set_byte_def wbyte_set_wbyte)
  then show "uint (i_offset (set_byte (nat (offset mod 4)) vm x)) = (offset + 1) div 4 * 4 \<and>
     (\<forall>k<4. (offset + 1) mod 4 \<le> int k \<longrightarrow> wbyte (i_mask (set_byte (nat (offset mod 4)) vm x)) k = 0)"
    using d assms(1) by simp
qed

lemma passes_open_byte:
  assumes "uint (i_offset x) = offset div 4 * 4"
    and "\<forall>k < 4. offset mod 4 \<le> int k \<longrightarrow> wbyte (i_mask x) k = 0"
  shows "passes v al (set_byte (nat (offset mod 4)) vm x) \<longleftrightarrow>
    passes v al x \<and> byte_ok v al offset vm"
proof -
  have "uint (i_offset x) + int (nat (offset mod 4)) = offset" using assms(1) by simp
  then show ?thesis using passes_set_byte [of "nat (offset mod 4)" x v al vm] assms(2) by simp
qed

lemma word_insns_pass:
  assumes "open_at offset x" "0 \<le> offset" "offset + int (length bs) \<le> 65536"
  shows "(\<forall>y \<in> set (word_insns x offset bs). passes v al y) \<longleftrightarrow>
    passes v al x \<and> clause_bytes_ok v al offset bs"
  using assms
proof (induction bs arbitrary: x offset)
  case (Cons vm bs)
  have off: "0 \<le> offset" "offset < 65536" using Cons.prems by simp_all
  show ?case
  proof (cases "offset mod 4 = 0")
    case True
    let ?y = "set_byte (nat (offset mod 4)) vm (blank_insn offset)"
    have "open_at (offset + 1) ?y" by (rule open_at_set_byte) (use off in auto)
    then have "(\<forall>y \<in> set (word_insns ?y (offset + 1) bs). passes v al y)
        \<longleftrightarrow> passes v al ?y \<and> clause_bytes_ok v al (offset + 1) bs"
      using Cons.IH [of "offset + 1" ?y] Cons.prems by simp
    moreover have "passes v al ?y \<longleftrightarrow> offset div 4 * 4 < int (v_length v + al) \<and> byte_ok v al offset vm"
      using passes_open_byte [of "blank_insn offset" offset] passes_blank [OF off] off by simp
    ultimately show ?thesis using True by auto
  next
    case False
    let ?y = "set_byte (nat (offset mod 4)) vm x"
    have o: "uint (i_offset x) = offset div 4 * 4" "\<forall>k < 4. offset mod 4 \<le> int k \<longrightarrow> wbyte (i_mask x) k = 0"
      using Cons.prems(1) False by (auto simp: open_at_def)
    have "passes v al x \<Longrightarrow> offset div 4 * 4 < int (v_length v + al)"
      using o(1) by (simp add: passes_def)
    moreover have "(\<forall>y \<in> set (word_insns ?y (offset + 1) bs). passes v al y)
        \<longleftrightarrow> passes v al ?y \<and> clause_bytes_ok v al (offset + 1) bs"
      using Cons.IH [OF open_at_set_byte [OF o, of vm]] Cons.prems by simp
    ultimately show ?thesis using False passes_open_byte [OF o, of v al vm] by auto
  qed
qed simp

lemma clause_insns_pass:
  assumes "0 \<le> offset" "offset + int (length bs) \<le> 65536"
  shows "(\<forall>y \<in> set (clause_insns offset bs). passes v al y) \<longleftrightarrow> clause_bytes_ok v al offset bs"
proof (cases bs)
  case (Cons vm bs')
  have off: "offset < 65536" using assms Cons by simp
  let ?y = "set_byte (nat (offset mod 4)) vm (blank_insn offset)"
  have "open_at (offset + 1) ?y" by (rule open_at_set_byte) (use off assms in auto)
  then show ?thesis
    using word_insns_pass [of "offset + 1" ?y bs'] passes_open_byte [of "blank_insn offset" offset]
      passes_blank [OF assms(1) off] assms off Cons by auto
qed simp

section \<open>Building the program\<close>

definition exit_of :: "bool \<Rightarrow> int" where
  "exit_of ok = (if ok then j_success else j_failure)"

lemma builds_tree_nonempty: "builds base t tree P S \<Longrightarrow> tree \<noteq> []"
  by (auto simp: builds_def tree_rep_def)

lemma builds_adds:
  fixes p :: program
  assumes "builds base t tree (p_insn p) S" "S \<noteq> []" "\<forall>x \<in> set ws. fresh x"
  shows "builds base t (tree @ replicate (length ws) (tree ! 0)) (p_insn p @ ws)
    (butlast S @ [last S @ map (exit_of \<circ> t) ws])"
  using assms
proof (induction ws arbitrary: tree p S)
  case (Cons x ws)
  let ?p = "p\<lparr>p_output_everything := - 1, p_insn := p_insn p @ [x]\<rparr>"
  have ne: "tree \<noteq> []" by (rule builds_tree_nonempty [OF Cons.prems(1)])
  have "new_insn (uint (i_offset x)) (i_value x) (i_mask x) j_failure j_success False = x"
    using Cons.prems(3) by (cases x) (simp add: fresh_def value_masked_def new_insn_def)
  then have "add_insn tree (uint (i_offset x)) (i_value x) (i_mask x) p = (?p, tree @ [tree ! 0])"
    by (simp add: add_insn_def)
  from builds_add [OF Cons.prems(1,2) this]
  have "builds base t (tree @ [tree ! 0]) (p_insn ?p) (butlast S @ [last S @ [exit_of (t x)]])"
    by (simp add: put_exit_def exit_of_def)
  from Cons.IH [OF this] show ?case using ne Cons.prems(3) by (simp add: nth_append)
qed simp
lemma align_preserved [simp]:
  "p_align_offset (fst (finish_subtree tree c s f p)) = p_align_offset p"
  "p_align_offset (negate_subtree tree fl p) = p_align_offset p"
  "p_align_offset (fst (add_insn tree off vl m p)) = p_align_offset p"
  by (auto simp: finish_subtree_def negate_subtree_def add_insn_def Let_def split: option.splits)

lemma value_masked_map_jumps [simp]: "value_masked (map_jumps f x) = value_masked x"
  by (simp add: value_masked_def map_jumps_def)

lemma all_masked_map_range: "all_masked P \<Longrightarrow> all_masked (map_range (map_jumps f) a b P)"
  by (auto simp: all_masked_def in_set_conv_nth [of _ "map_range _ _ _ _"])

lemma all_masked_append [simp]: "all_masked (P @ Q) \<longleftrightarrow> all_masked P \<and> all_masked Q"
  by (auto simp: all_masked_def)

lemma all_masked_combine: "all_masked P \<Longrightarrow> all_masked (combine_subtrees c s f subs P)"
  by (induction c s f subs P rule: combine_subtrees.induct)
    (auto simp: redirect_subtree_def Let_def all_masked_map_range)

lemma masked_preserved:
  "all_masked (p_insn p) \<Longrightarrow> all_masked (p_insn (fst (finish_subtree tree c s f p)))"
  "all_masked (p_insn p) \<Longrightarrow> all_masked (p_insn (negate_subtree tree False p))"
  "all_masked (p_insn p) \<Longrightarrow> all_masked (p_insn (fst (add_insn tree off vl m p)))"
  by (auto simp: finish_subtree_def negate_subtree_def add_insn_def negate_insn_plain Let_def
      all_masked_combine all_masked_map_range all_masked_def [of "[_]"]
      split: option.splits)

text \<open>A clause as the parser delivers it when it reports no error, with offsets of 16 bits.\<close>

definition clause_fits :: "nat \<Rightarrow> clause \<Rightarrow> bool" where
  "clause_fits al c \<longleftrightarrow> 0 \<le> c_offset c \<and> c_offset c + int al + int (length (c_bytes c)) \<le> 65536
     \<and> masked_bytes (c_bytes c) \<and> c_bytes c \<noteq> []"

definition clause_ok :: "packet_view \<Rightarrow> nat \<Rightarrow> clause \<Rightarrow> bool" where
  "clause_ok v al c \<longleftrightarrow> clause_bytes_ok v al (c_offset c + int al) (c_bytes c) \<noteq> c_negated c"

lemma and_exit_tests:
  "and_exit s f (map (exit_of \<circ> t) ws) = (if \<forall>x \<in> set ws. t x then s else redirect s f j_failure)"
  by (induction ws) (auto simp: exit_of_def)

definition built :: "packet_view \<Rightarrow> nat \<Rightarrow> program \<times> int list \<Rightarrow> int list list \<Rightarrow> bool" where
  "built v al st S \<longleftrightarrow> builds 0 (checked_test v al) (snd st) (p_insn (fst st)) S
     \<and> uint (p_align_offset (fst st)) = int al \<and> all_masked (p_insn (fst st))"

lemma jump_blind_checked: "jump_blind (checked_test v al)"
  by simp

lemma emit_clause_built:
  assumes "built v al st S" "S \<noteq> []" "clause_fits al c"
  shows "\<exists>st'. emit_clause c st = Some st' \<and> built v al st' (put_exit (exit_of (clause_ok v al c)) S)"
proof -
  let ?t = "checked_test v al" and ?off = "c_offset c + int al"
  obtain p tree where st: "st = (p, tree)" by (cases st)
  let ?ws = "clause_insns ?off (c_bytes c)"
  note cf = assms(3) [unfolded clause_fits_def]
  have b: "builds 0 ?t (start_subtree tree) (p_insn p) (S @ [[]])"
    using builds_start [of 0 ?t tree] assms(1) st by (simp add: built_def push_level_def)
  have fr: "\<forall>x \<in> set ?ws. fresh x"
    using fresh_clause_insns [of "c_bytes c" ?off] cf by simp
  obtain p1 tree1 where 1: "emit_bytes True ?off (c_bytes c) (p, start_subtree tree) = (p1, tree1)"
    by (cases "emit_bytes True ?off (c_bytes c) (p, start_subtree tree)")
  then have p1: "p_insn p1 = p_insn p @ ?ws" "p_align_offset p1 = p_align_offset p"
    "tree1 = start_subtree tree @ replicate (length ?ws) (start_subtree tree ! 0)"
    using emit_bytes_insns [OF builds_tree_nonempty [OF b], of "c_bytes c" ?off p] cf by auto
  have b1: "builds 0 ?t tree1 (p_insn p1) (S @ [map (exit_of \<circ> ?t) ?ws])"
    using builds_adds [OF b _ fr] by (simp add: p1)
  obtain p2 tree2 where 2: "finish_subtree tree1 C_and j_success j_failure p1 = (p2, tree2)"
    by (cases "finish_subtree tree1 C_and j_success j_failure p1")
  have "?ws \<noteq> []" using cf by (cases "c_bytes c") auto
  moreover have "(\<forall>x \<in> set ?ws. ?t x) \<longleftrightarrow> clause_bytes_ok v al ?off (c_bytes c)"
    using clause_insns_pass [of ?off "c_bytes c" v al] cf fr by (simp add: fresh_def checked_test_passes)
  ultimately have "reduce_level C_and j_success j_failure (S @ [map (exit_of \<circ> ?t) ?ws])
      = put_exit (exit_of (clause_bytes_ok v al ?off (c_bytes c))) S"
    using assms(2) by (simp add: reduce_level_def and_exit_tests exit_of_def)
  with builds_finish [OF b1 _ _ _ _ 2] assms(2)
  have b2: "builds 0 ?t tree2 (p_insn p2) (put_exit (exit_of (clause_bytes_ok v al ?off (c_bytes c))) S)"
    by (cases S) auto
  have "all_masked (p_insn p1)" using assms(1) fr st by (simp add: p1(1) built_def) (simp add: all_masked_def fresh_def)
  then have m2: "all_masked (p_insn p2)" "p_align_offset p2 = p_align_offset p"
    using masked_preserved(1) [of p1 tree1 C_and j_success j_failure]
      align_preserved(1) [of tree1 C_and j_success j_failure p1] 2 p1(2) by simp_all
  have e: "emit_clause c st = Some (if c_negated c then negate_subtree tree2 False p2 else p2, tree2)"
    using cf 1 2 st assms(1) by (simp add: emit_clause_def built_def INT_MAX_def Let_def)
  show ?thesis
  proof (cases "c_negated c")
    case True
    have "builds 0 ?t tree2 (p_insn (negate_subtree tree2 False p2)) (put_exit (exit_of (clause_ok v al c)) S)"
      using builds_negate [OF b2] True
      by (auto simp: put_exit_def negate_last_def clause_ok_def exit_of_def negate_jump_def split: if_splits)
    then show ?thesis
      using e m2 masked_preserved(2) [of p2 tree2] True assms(1) st by (simp add: built_def)
  next
    case False
    then show ?thesis using e b2 m2 assms(1) st by (simp add: built_def clause_ok_def)
  qed
qed

lemma put_exit_last: "S \<noteq> [] \<Longrightarrow> put_exit r S \<noteq> []" "last (put_exit r S) = last S @ [r]" "butlast (put_exit r S) = butlast S"
  by (simp_all add: put_exit_def)

lemma emit_clauses_built:
  assumes "built v al st S" "S \<noteq> []" "\<forall>c \<in> set cs. clause_fits al c"
  shows "\<exists>st'. emit_clauses cs st = Some st'
    \<and> built v al st' (butlast S @ [last S @ map (\<lambda>c. exit_of (clause_ok v al c)) cs])"
  using assms
proof (induction cs arbitrary: st S)
  case (Cons c cs)
  obtain st1 where 1: "emit_clause c st = Some st1" "built v al st1 (put_exit (exit_of (clause_ok v al c)) S)"
    using emit_clause_built [OF Cons.prems(1,2), of c] Cons.prems(3) by auto
  from Cons.IH [OF 1(2)] Cons.prems(2,3) 1(1) show ?case by (simp add: put_exit_last)
qed simp

definition slot_ok :: "packet_view \<Rightarrow> nat \<Rightarrow> clause list \<Rightarrow> bool" where
  "slot_ok v al cs \<longleftrightarrow> (\<forall>c \<in> set cs. clause_ok v al c)"

definition slot_exit :: "packet_view \<Rightarrow> nat \<Rightarrow> nat \<Rightarrow> clause list \<Rightarrow> int" where
  "slot_exit v al slot cs = (if slot_ok v al cs then - int slot else j_failure)"

lemma built_start: "built v al (p, tree) S \<Longrightarrow> built v al (p, start_subtree tree) (S @ [[]])"
  using builds_start [of 0 "checked_test v al" tree "p_insn p" S] by (simp add: built_def push_level_def)

lemma built_finish:
  assumes "built v al (p, tree) (S @ [rs])" "S \<noteq> []" "rs \<noteq> []" "s \<le> 0" "f \<le> 0"
  shows "built v al (finish_subtree tree c s f p) (put_exit (combined_exit c s f rs) S)"
proof -
  obtain p' tree' where e: "finish_subtree tree c s f p = (p', tree')" by (cases "finish_subtree tree c s f p")
  have "2 \<le> length (S @ [rs])" using assms(2) by (cases S) auto
  with builds_finish [of 0 "checked_test v al" tree p "S @ [rs]" s f c p' tree'] e assms
  have "builds 0 (checked_test v al) tree' (p_insn p') (put_exit (combined_exit c s f rs) S)"
    by (simp add: built_def reduce_level_def)
  then show ?thesis
    using e assms(1) masked_preserved(1) [of p tree c s f] align_preserved(1) [of tree c s f p]
    by (simp add: built_def)
qed

lemma checked_blank: "0 < v_length v \<Longrightarrow> checked_test v al (new_insn 0 0 0 f s False)"
  by (simp add: checked_test_def fast_test_def new_insn_def wbyte_def Let_def)

lemma built_add_blank:
  assumes "built v al (p, tree) S" "S \<noteq> []" "0 < v_length v"
  shows "built v al (add_insn tree 0 0 0 p) (put_exit j_success S)"
proof -
  obtain p' tree' where e: "add_insn tree 0 0 0 p = (p', tree')" by (cases "add_insn tree 0 0 0 p")
  then have "last (p_insn p') = new_insn 0 0 0 j_failure j_success False" by (auto simp: add_insn_def)
  with builds_add [of 0 "checked_test v al" tree p S 0 0 0 p' tree'] assms e checked_blank [OF assms(3)]
  have "builds 0 (checked_test v al) tree' (p_insn p') (put_exit j_success S)" by (simp add: built_def)
  then show ?thesis
    using e assms(1) masked_preserved(3) [of p tree 0 0 0] align_preserved(3) [of tree 0 0 0 p]
    by (simp add: built_def)
qed

lemma emit_slot_built:
  assumes "built v al st S" "S \<noteq> []" "\<forall>c \<in> set cs. clause_fits al c" "0 < v_length v"
  shows "\<exists>st'. emit_slot slot cs st = Some st' \<and> built v al st' (put_exit (slot_exit v al slot cs) S)"
proof -
  let ?rs = "map (\<lambda>c. exit_of (clause_ok v al c)) cs"
  have "built v al (fst st, start_subtree (snd st)) (S @ [[]])" using built_start assms(1) by simp
  from emit_clauses_built [OF this _ assms(3)]
  obtain p tree where e: "emit_clauses cs (fst st, start_subtree (snd st)) = Some (p, tree)"
    and b: "built v al (p, tree) (S @ [?rs])" by auto
  have all: "(\<forall>c \<in> set cs. c_bytes c = []) \<longleftrightarrow> cs = []"
    using assms(3) by (cases cs) (auto simp: clause_fits_def)
  have ae: "and_exit (- int slot) j_failure ?rs = slot_exit v al slot cs"
    using and_exit_tests [of "- int slot" j_failure "clause_ok v al" cs]
    by (simp add: slot_exit_def slot_ok_def comp_def)
  show ?thesis
  proof (cases "cs = []")
    case True
    have "built v al (add_insn tree 0 0 0 p) (S @ [[j_success]])"
      using built_add_blank [OF b _ assms(4)] True by (simp add: put_exit_def)
    with built_finish [of v al _ _ S "[j_success]" "- int slot" j_failure C_and] assms(2) e all True ae
    show ?thesis by (cases "add_insn tree 0 0 0 p") (simp add: emit_slot_def slot_exit_def slot_ok_def)
  next
    case False
    with built_finish [OF b assms(2), of "- int slot" j_failure C_and] e all ae
    show ?thesis by (auto simp: emit_slot_def)
  qed
qed

lemma parse_slots_built:
  assumes "built v al st [rs]" "0 < v_length v" "length css = length conf"
    and "\<forall>k < length conf. parse_slot (slot + k) (conf ! k) = Some (css ! k, [])"
    and "\<forall>cs \<in> set css. \<forall>c \<in> set cs. clause_fits al c"
  shows "\<exists>st'. parse_slots slot conf st = Some (st', [])
    \<and> built v al st' [rs @ map (\<lambda>k. slot_exit v al (slot + k) (css ! k)) [0..<length conf]]"
  using assms
proof (induction conf arbitrary: slot css st rs)
  case (Cons s conf)
  then obtain cs css' where css: "css = cs # css'" by (cases css) auto
  have cs: "parse_slot slot s = Some (cs, [])" using Cons.prems(4) css by force
  obtain st1 where 1: "emit_slot slot cs st = Some st1" "built v al st1 [rs @ [slot_exit v al slot cs]]"
    using emit_slot_built [OF Cons.prems(1), of cs slot] Cons.prems(2,5) css by (auto simp: put_exit_def)
  have "\<forall>k < length conf. parse_slot (Suc slot + k) (conf ! k) = Some (css' ! k, [])"
    using Cons.prems(4) css by auto
  from Cons.IH [OF 1(2) Cons.prems(2) _ this] Cons.prems(3,5) css
  obtain st' where st': "parse_slots (Suc slot) conf st1 = Some (st', [])"
    "built v al st' [(rs @ [slot_exit v al slot cs]) @ map (\<lambda>k. slot_exit v al (Suc slot + k) (css' ! k)) [0..<length conf]]"
    by auto
  have "map (\<lambda>k. slot_exit v al (slot + k) (css ! k)) [0..<length (s # conf)]
      = slot_exit v al slot cs # map (\<lambda>k. slot_exit v al (Suc slot + k) (css' ! k)) [0..<length conf]"
    by (simp add: css upt_conv_Cons map_Suc_upt [symmetric] del: upt_Suc)
  then show ?case using st' 1(1) cs by simp
qed simp

text \<open>The first slot all of whose clauses hold.\<close>

definition first_slot :: "packet_view \<Rightarrow> nat \<Rightarrow> clause list list \<Rightarrow> nat option" where
  "first_slot v al css = find (\<lambda>k. slot_ok v al (css ! k)) [0..<length css]"

definition verdict_exit :: "nat option \<Rightarrow> int" where
  "verdict_exit k = (case k of Some k \<Rightarrow> - int k | None \<Rightarrow> j_never)"

lemma or_exit_find:
  assumes "\<forall>k \<in> set ks. int k < 2147483645"
  shows "or_exit j_never j_never (map (\<lambda>k. if P k then - int k else j_failure) ks) = verdict_exit (find P ks)"
  using assms by (induction ks) (auto simp: verdict_exit_def redirect_def j_failure_def j_success_def)

lemma build_program_exec:
  assumes "p_insn prog = []" "conf \<noteq> []" "int (length conf) < 2147483645" "length css = length conf"
    and "\<forall>k < length conf. parse_slot k (conf ! k) = Some (css ! k, [])"
    and "\<forall>cs \<in> set css. \<forall>c \<in> set cs. clause_fits (unat (p_align_offset prog)) c" "0 < v_length v"
  shows "\<exists>p. build_program conf prog = Some (p, []) \<and> p_align_offset p = p_align_offset prog
    \<and> forward (p_insn p) \<and> all_masked (p_insn p) \<and> p_insn p \<noteq> []
    \<and> exec (checked_test v (unat (p_align_offset prog))) (p_insn p) 0
      = Some (verdict_exit (first_slot v (unat (p_align_offset prog)) css))"
proof -
  let ?al = "unat (p_align_offset prog)"
  let ?rs = "map (\<lambda>k. slot_exit v ?al k (css ! k)) [0..<length conf]"
  have "builds 0 (checked_test v ?al) (init_subtree prog) (p_insn prog) []"
    using builds_init [of prog] assms(1) by simp
  then have "built v ?al (prog, start_subtree (init_subtree prog)) [[]]"
    using built_start [of v ?al prog "init_subtree prog" "[]"] assms(1) by (simp add: built_def all_masked_def)
  from parse_slots_built [OF this assms(7,4), of 0] assms(5,6)
  obtain p tree where p: "parse_slots 0 conf (prog, start_subtree (init_subtree prog)) = Some ((p, tree), [])"
    "built v ?al (p, tree) [?rs]" by auto
  obtain p' tree' where f: "finish_subtree tree C_or j_never j_never p = (p', tree')"
    by (cases "finish_subtree tree C_or j_never j_never p")
  have e: "exec (checked_test v ?al) (p_insn p') 0 = Some (or_exit j_never j_never ?rs)
      \<and> closed (p_insn p') 0 (length (p_insn p')) \<and> 0 < length (p_insn p')"
    using builds_finish_last [OF _ _ _ _ _ f, of 0 "checked_test v ?al" ?rs] p(2) assms(2)
    by (simp add: built_def j_never_def)
  have "or_exit j_never j_never ?rs = verdict_exit (first_slot v ?al css)"
    using or_exit_find [of "[0..<length conf]" "\<lambda>k. slot_ok v ?al (css ! k)"] assms(3,4)
    by (simp add: slot_exit_def first_slot_def)
  moreover have "all_masked (p_insn p')" "p_align_offset p' = p_align_offset prog"
    using masked_preserved(1) [of p tree C_or j_never j_never] align_preserved(1) [of tree C_or j_never j_never p]
      f p(2) by (simp_all add: built_def word_uint_eq_iff)
  moreover have "build_program conf prog = Some (p', [])" using p(1) f by (simp add: build_program_def)
  ultimately show ?thesis using e by (auto simp: closed_forward)
qed

section \<open>Printing and parsing\<close>

definition hex_text :: "('a \<Rightarrow> byte) \<Rightarrow> 'a list \<Rightarrow> string" where
  "hex_text f bs = concat (map (\<lambda>b. hex_byte (f b)) bs)"

lemma hex_text_simps [simp]: "hex_text f [] = []" "hex_text f (b # bs) = hex_byte (f b) @ hex_text f bs"
  by (simp_all add: hex_text_def)

lemma length_hex_text [simp]: "length (hex_text f bs) = 2 * length bs"
  by (induction bs) (auto simp: hex_byte_def)

definition test_text :: "clause \<Rightarrow> string" where
  "test_text c = to_string_nat (nat (c_offset c)) @ ''/''
     @ hex_text fst (c_bytes c) @ ''%'' @ hex_text snd (c_bytes c)"

definition print_clause :: "clause \<Rightarrow> string" where
  "print_clause c = (if c_negated c then ''!'' else []) @ test_text c"

definition print_slot :: "clause list \<Rightarrow> string" where
  "print_slot cs = concat (map (\<lambda>c. print_clause c @ '' '') cs)"

lemma isdigit_digit_char [simp]: "d < 10 \<Longrightarrow> isdigit (digit_char d)"
  by (simp add: isdigit_def)

lemma read_offset_digits:
  assumes "\<forall>c \<in> set ds. isdigit c" "rest \<noteq> [] \<Longrightarrow> \<not> isdigit (hd rest)"
    and "int (foldl (\<lambda>a c. 10 * a + (of_char c - 48)) a ds) \<le> INT_MAX"
  shows "read_offset (int a) (ds @ rest) = Some (int (foldl (\<lambda>a c. 10 * a + (of_char c - 48)) a ds), rest)"
  using assms
proof (induction ds arbitrary: a)
  case Nil
  then show ?case by (cases rest) auto
next
  case (Cons c ds)
  let ?a = "10 * a + (of_char c - 48)"
  have mono: "b \<le> foldl (\<lambda>a c. 10 * a + (of_char c - 48 :: nat)) b es" for b and es :: string
  proof (induction es arbitrary: b)
    case (Cons e es)
    from Cons [of "10 * b + (of_char e - 48)"] show ?case by simp
  qed simp
  have c: "isdigit c" "int a * 10 + (of_char c - 48) = int ?a"
    using Cons.prems(1) by (auto simp: isdigit_def of_nat_diff of_nat_of_char)
  have "int ?a \<le> INT_MAX" using mono [of ?a ds] Cons.prems(3) by simp
  then show ?case using Cons.IH [of ?a] Cons.prems c by (simp add: Let_def mult.commute)
qed

lemma read_offset_printed:
  assumes "0 \<le> n" "n \<le> INT_MAX"
  shows "read_offset 0 (to_string_nat (nat n) @ CHR ''/'' # rest) = Some (n, CHR ''/'' # rest)"
proof -
  have "int (dec_value (to_string_nat (nat n))) = n" using assms by (simp add: dec_value_to_string)
  moreover have "\<forall>c \<in> set (to_string_nat (nat n)). isdigit c" using to_string_nat_digits by fastforce
  moreover have "\<not> isdigit CHR ''/''" by code_simp
  ultimately show ?thesis
    using read_offset_digits [of "to_string_nat (nat n)" "CHR ''/'' # rest" 0] assms(2) by (simp add: dec_value_def)
qed

lemma hex_digit_xdigit: "n < 16 \<Longrightarrow> isxdigit (hex_digit n)"
  by (simp add: isxdigit_def hex_digit_def isdigit_def)

lemma update_hex_digit:
  assumes "n < 16"
  shows "update_value_mask (hex_digit n) shift vm
    = (fst vm OR push_bit shift (of_nat n), snd vm OR push_bit shift 0xF)"
proof -
  have "(of_char (hex_digit n) :: nat) = (if n < 10 then 48 + n else 87 + n)"
    using assms by (simp add: hex_digit_def)
  moreover have "hex_digit n \<noteq> CHR ''?''"
    using hex_digit_xdigit [OF assms] by (auto simp: isxdigit_def isdigit_def)
  ultimately show ?thesis using assms by (simp add: update_value_mask_def Let_def)
qed

lemma unat_lt_256: "unat (b :: byte) < 256"
  using unsigned_less [of b] by simp

lemma and_ff [simp]: "(b :: byte) AND 0xFF = b"
proof -
  have "(0xFF :: byte) = - 1" by simp
  then show ?thesis by (simp only: and.right_neutral)
qed

lemma hex_pair_byte: "hex_pair (hex_digit (unat b div 16)) (hex_digit (unat b mod 16)) = (b, 0xFF)"
proof -
  have "hex_pair (hex_digit (unat b div 16)) (hex_digit (unat b mod 16))
      = (push_bit 4 (of_nat (unat b div 16)) OR of_nat (unat b mod 16), push_bit 4 0xF OR 0xF)"
    using unat_lt_256 [of b] by (simp add: hex_pair_def update_hex_digit)
  also have "(of_nat (unat b div 16) :: byte) = drop_bit 4 b"
  proof -
    have "unat b div 16 = unat (drop_bit 4 b)" by (subst unat_drop_bit_eq) (simp add: drop_bit_eq_div)
    then show ?thesis by simp
  qed
  also have "(of_nat (unat b mod 16) :: byte) = take_bit 4 b"
  proof -
    have "unat b mod 16 = unat (take_bit 4 b)" by (subst unsigned_take_bit_eq) (simp add: take_bit_eq_mod)
    then show ?thesis by simp
  qed
  also have "push_bit 4 (drop_bit 4 b) OR take_bit 4 b = b"
    by (rule bit_eqI) (auto simp: bit_or_iff bit_push_bit_iff bit_drop_bit_eq bit_take_bit_iff)
  finally show ?thesis by simp
qed

lemma hex_byte_xdigits: "c \<in> set (hex_byte b) \<Longrightarrow> isxdigit c"
  using unat_lt_256 [of b] by (auto simp: hex_byte_def intro!: hex_digit_xdigit)

lemma scan_hex:
  assumes "rest = [] \<or> \<not> isxdigit (hd rest) \<and> hd rest \<noteq> CHR ''?''"
  shows "scan_digits (hex_text f bs @ rest) = 2 * length bs"
proof -
  have "\<forall>c \<in> set (hex_text f bs). isxdigit c" using hex_byte_xdigits by (auto simp: hex_text_def)
  moreover have "takeWhile (\<lambda>c. isxdigit c \<or> c = CHR ''?'') rest = []" using assms by (cases rest) auto
  ultimately show ?thesis
    unfolding scan_digits_def by (subst takeWhile_append2) auto
qed

lemma byte_tests_printed:
  assumes "masked_bytes bs"
  shows "byte_tests (int (2 * length bs)) (hex_text fst bs @ rest)
      (Some (hex_text snd bs @ rest')) = Some bs"
  using assms
proof (induction bs)
  case (Cons vm bs)
  obtain v m where vm: "vm = (v, m)" by (cases vm)
  have "(0xFF :: byte) AND m AND 0xFF = m" by (simp add: and.commute [of "0xFF"])
  moreover have "v AND m = v" "masked_bytes bs" using Cons.prems vm by (simp_all add: masked_bytes_def)
  ultimately show ?case
    using Cons.IH hex_pair_byte [of v] hex_pair_byte [of m]
    by (subst byte_tests.simps) (simp add: vm hex_byte_def [of v] hex_byte_def [of m] Let_def)
qed (simp add: byte_tests.simps)

definition printable :: "clause \<Rightarrow> bool" where
  "printable c \<longleftrightarrow> 0 \<le> c_offset c \<and> c_offset c \<le> INT_MAX \<and> masked_bytes (c_bytes c) \<and> c_bytes c \<noteq> []"

lemma check_lengths_equal: "2 \<le> n \<Longrightarrow> even n \<Longrightarrow> check_lengths slot n (Some n) = (n, [])"
  by (simp add: check_lengths_def even_iff_mod_2_eq_zero)

lemma printed_number: "to_string_nat n \<noteq> []" "isdigit (hd (to_string_nat n))"
proof -
  show "to_string_nat n \<noteq> []" by (subst to_string_nat.simps) simp
  then have "hd (to_string_nat n) \<in> set (to_string_nat n)" by simp
  from to_string_nat_digits [OF this] show "isdigit (hd (to_string_nat n))" by auto
qed

lemma isdigit_not: "\<not> isdigit CHR ''!''" "\<not> isspace CHR ''!''" "\<not> isxdigit CHR ''%''" "\<not> isxdigit CHR '' ''" "isspace CHR '' ''"
  by code_simp+

lemma isdigit_not_space: "isdigit c \<Longrightarrow> \<not> isspace c"
  by (auto simp: isdigit_def isspace_def)

lemma skip_spaces_stop: "s \<noteq> [] \<Longrightarrow> \<not> isspace (hd s) \<Longrightarrow> skip_spaces s = s"
  by (cases s) (auto simp: skip_spaces_def)

lemma test_text_start:
  "test_text c \<noteq> []" "isdigit (hd (test_text c))" "skip_spaces (test_text c @ s) = test_text c @ s"
  using printed_number [of "nat (c_offset c)"] skip_spaces_stop [of "test_text c @ s"]
  by (simp_all add: test_text_def isdigit_not_space)

lemma parse_clause_printed:
  assumes "printable c"
  shows "parse_clause slot (print_clause c @ '' '' @ rest) = Some (Inr (c, [], '' '' @ rest))"
proof -
  let ?bs = "c_bytes c"
  let ?rest = "hex_text fst ?bs @ ''%'' @ hex_text snd ?bs @ '' '' @ rest"
  have n: "read_offset 0 (test_text c @ '' '' @ rest) = Some (c_offset c, ''/'' @ ?rest)"
    using read_offset_printed [of "c_offset c" ?rest] assms by (simp add: printable_def test_text_def)
  have v: "scan_digits ?rest = 2 * length ?bs" by (rule scan_hex) (simp add: isdigit_not)
  have m: "scan_digits (hex_text snd ?bs @ '' '' @ rest) = 2 * length ?bs"
    by (rule scan_hex) (simp add: isdigit_not)
  have b: "byte_tests (int (2 * length ?bs)) ?rest (Some (hex_text snd ?bs @ '' '' @ rest)) = Some ?bs"
    by (rule byte_tests_printed) (use assms in \<open>simp add: printable_def\<close>)
  have l: "check_lengths slot (int (2 * length ?bs)) (Some (int (2 * length ?bs))) = (int (2 * length ?bs), [])"
    using assms by (intro check_lengths_equal) (cases ?bs; simp add: printable_def)+
  have d: "hd (test_text c @ '' '' @ rest) \<noteq> CHR ''!''" using test_text_start(1,2) [of c] isdigit_not(1) by auto
  have t: "test_text c @ '' '' @ rest \<noteq> []" "isdigit (hd (test_text c @ '' '' @ rest))"
    using test_text_start(1,2) [of c] by simp_all
  show ?thesis
    using d n v m b l t test_text_start(3) [of c "'' '' @ rest"]
    by (cases "c_negated c"; cases c; simp add: parse_clause_def print_clause_def Let_def)
qed

lemma parse_clauses_printed:
  assumes "\<forall>c \<in> set cs. printable c"
  shows "parse_clauses slot ('' '' @ print_slot cs) = Some (cs, []) \<and> parse_clauses slot (print_slot cs) = Some (cs, [])"
  using assms
proof (induction cs)
  case Nil
  show ?case by (simp add: parse_clauses.simps print_slot_def skip_spaces_def isdigit_not)
next
  case (Cons c cs)
  let ?s = "print_clause c @ '' '' @ print_slot cs"
  have s: "print_slot (c # cs) = ?s" by (simp add: print_slot_def)
  have "print_clause c \<noteq> []" "\<not> isspace (hd (print_clause c))"
    using test_text_start(1,2) [of c] isdigit_not(2) by (auto simp: print_clause_def isdigit_not_space)
  then have "skip_spaces ?s = ?s" "skip_spaces ('' '' @ ?s) = ?s" "?s \<noteq> []"
    using skip_spaces_stop [of ?s] by (simp_all add: skip_spaces_def isdigit_not)
  moreover have "parse_clause slot ?s = Some (Inr (c, [], '' '' @ print_slot cs))"
    by (rule parse_clause_printed) (use Cons.prems in simp)
  ultimately show ?case
    unfolding s using Cons by (simp add: parse_clauses.simps [of slot "_ @ _"] parse_clauses.simps [of slot "_ # _ @ _"])
qed

section \<open>Properties\<close>

text \<open>
  C24: every sequence of clauses with offsets that fit an \<open>int\<close> and with values inside their
  masks is printed to a string that the parser reads back to the same clauses, without an
  error.
\<close>

theorem parse_print_slot:
  assumes "\<forall>c \<in> set cs. printable c"
  shows "parse_slot slot (print_slot cs) = Some (cs, [])"
proof -
  have "print_slot cs \<noteq> ''-''"
    by (cases cs rule: rev_cases) (auto simp: print_slot_def)
  then show ?thesis using parse_clauses_printed [OF assms] by (simp add: parse_slot_def)
qed

theorem parse_print_slot_witness:
  "let cs = [\<lparr>c_negated = True, c_offset = 12, c_bytes = [(0x08, 0xFF), (0x00, 0x0F)]\<rparr>]
   in parse_slot 0 (print_slot cs) = Some (cs, []) \<and> print_slot cs = ''!12/0800%ff0f ''"
proof -
  let ?cs = "[\<lparr>c_negated = True, c_offset = 12, c_bytes = [(0x08, 0xFF), (0x00, 0x0F)]\<rparr>] :: clause list"
  have "parse_slot 0 (print_slot ?cs) = Some (?cs, [])"
    by (rule parse_print_slot) (simp add: printable_def masked_bytes_def INT_MAX_def)
  moreover have "print_slot ?cs = ''!12/0800%ff0f ''"
    by code_simp
  ultimately show ?thesis unfolding Let_def by blast
qed

text \<open>
  C23: the program that \<open>parse_program\<close> builds before optimising, for slots that parse without
  error and whose tests lie below offset 65536, sends every non-empty packet, short ones
  included, to the first slot all of whose clauses hold, and drops it if there is none. A
  clause holds if each byte with a tested bit is inside the packet and agrees, and if the
  words that hold its bytes start inside the packet; a negated clause holds if that fails.
\<close>

theorem build_program_correct:
  assumes "p_insn prog = []" "conf \<noteq> []" "int (length conf) < 2147483645" "length css = length conf"
    and "\<forall>k < length conf. parse_slot k (conf ! k) = Some (css ! k, [])"
    and "\<forall>cs \<in> set css. \<forall>c \<in> set cs. clause_fits (unat (p_align_offset prog)) c"
  shows "\<exists>p. build_program conf prog = Some (p, []) \<and> forward (p_insn p) \<and> all_masked (p_insn p)
    \<and> (\<forall>v. 0 < v_length v \<longrightarrow> exec (checked_test v (unat (p_align_offset prog))) (p_insn p) 0
         = Some (verdict_exit (first_slot v (unat (p_align_offset prog)) css)))"
proof -
  note all = build_program_exec [OF assms]
  obtain p where p: "build_program conf prog = Some (p, [])" "forward (p_insn p)" "all_masked (p_insn p)"
    using all [of "\<lparr>v_mem = (\<lambda>_. 0), v_length = 1\<rparr>"] by auto
  then show ?thesis using all by (intro exI [of _ p]) fastforce
qed

theorem build_program_correct_witness:
  "let v = \<lparr>v_mem = (\<lambda>a. if a = 12 then 8 else 0), v_length = 14\<rparr>
   in \<exists>p. build_program [''12/0806'', ''12/0800'', ''-''] (new_program 0) = Some (p, [])
        \<and> exec (checked_test v 0) (p_insn p) 0 = Some (- 1)"
proof -
  let ?conf = "[''12/0806'', ''12/0800'', ''-''] :: string list"
  let ?css = "[[\<lparr>c_negated = False, c_offset = 12, c_bytes = [(8, 0xFF), (6, 0xFF)]\<rparr>],
    [\<lparr>c_negated = False, c_offset = 12, c_bytes = [(8, 0xFF), (0, 0xFF)]\<rparr>], []] :: clause list list"
  let ?v = "\<lparr>v_mem = (\<lambda>a. if a = 12 then 8 else 0 :: byte), v_length = 14\<rparr>"
  have s: "parse_slot 0 (?conf ! 0) = Some (?css ! 0, [])" "parse_slot 1 (?conf ! 1) = Some (?css ! 1, [])"
    "parse_slot 2 (?conf ! 2) = Some (?css ! 2, [])"
    by code_simp+
  have "first_slot ?v 0 ?css = Some 1"
    by (simp add: first_slot_def slot_ok_def clause_ok_def byte_ok_def upt_conv_Cons)
  moreover have "\<forall>k < length ?conf. parse_slot k (?conf ! k) = Some (?css ! k, [])"
    using s by (simp add: less_Suc_eq numeral_eq_Suc)
  ultimately show ?thesis
    using build_program_correct [of "new_program 0" ?conf ?css]
    by (auto simp: new_program_def clause_fits_def masked_bytes_def verdict_exit_def Let_def)
qed

lemma covered_slots:
  assumes "\<forall>cs \<in> set css. \<forall>c \<in> set cs. c_offset c + int (length (c_bytes c)) \<le> int (v_length v)"
    and "v_length v \<le> v_length v'" "v_mem v' = v_mem v"
  shows "first_slot v' al css = first_slot v al css"
proof -
  have b: "clause_bytes_ok v' al (c_offset c + int al) (c_bytes c) = clause_bytes_ok v al (c_offset c + int al) (c_bytes c)"
    if "c_offset c + int (length (c_bytes c)) \<le> int (v_length v)" for c
  proof -
    have "c_offset c + int al + int i < int (v_length v + al)" if "i < length (c_bytes c)" for i
      using that \<open>c_offset c + _ \<le> _\<close> by simp
    moreover have "x div 4 * 4 \<le> x" for x :: int by simp
    ultimately show ?thesis
      using assms(2,3) unfolding clause_bytes_ok_def byte_ok_def by (smt (verit) of_nat_add of_nat_mono)
  qed
  have "slot_ok v' al cs = slot_ok v al cs" if "cs \<in> set css" for cs
    unfolding slot_ok_def clause_ok_def using b assms(1) that by (intro ball_cong) auto
  then show ?thesis
    unfolding first_slot_def by (intro find_cong) auto
qed

lemma checked_long:
  assumes "65540 \<le> v_length v"
  shows "checked_test v al = fast_test v al"
proof
  fix x :: insn
  have "unat (i_offset x) < 65536" using unsigned_less [of "i_offset x"] by simp
  then show "checked_test v al x = fast_test v al x" using assms by (simp add: checked_test_def Let_def)
qed

text \<open>
  C22: \<open>configure\<close> as a whole. For slots that parse without error, whose tests lie in the first 65536 bytes, and on which the dominator
  optimiser stays clean, it installs a program that sends every packet which reaches the end
  of all tests to the first slot whose clauses hold, or drops it if there is none; the
  packet only has to have the safe length the program asks for.
\<close>

theorem configure_correct:
  assumes "noutputs = length conf" "conf \<noteq> []" "int (length conf) < 2147483645" "length css = length conf"
    and "\<forall>k < length conf. parse_slot k (conf ! k) = Some (css ! k, [])"
    and "\<forall>cs \<in> set css. \<forall>c \<in> set cs. clause_fits (unat (p_align_offset (empty_program query))) c"
    and "\<And>p S. build_program conf (empty_program query) = Some (p, []) \<Longrightarrow>
       bubble_sort_and_exprs [] offset_max (p_insn p) = Some S \<Longrightarrow> clean_run [0..<length S] (new_dominator S)"
  shows "\<exists>q w. configure noutputs query conf = Some (Inr (q, w))
    \<and> (\<forall>v. unat (p_safe_length q) \<le> v_length v \<longrightarrow>
         (\<forall>cs \<in> set css. \<forall>c \<in> set cs. c_offset c + int (length (c_bytes c)) \<le> int (v_length v)) \<longrightarrow>
         match_packet q v = Some (- verdict_exit (first_slot v (unat (p_align_offset (empty_program query))) css)))"
proof -
  let ?e = "empty_program query"
  let ?al = "unat (p_align_offset ?e)"
  have e: "p_insn ?e = []" by (simp add: empty_program_def new_program_def)
  note built = build_program_exec [OF e assms(2-6)]
  obtain p where p: "build_program conf ?e = Some (p, [])" "p_align_offset p = p_align_offset ?e"
    "forward (p_insn p)" "all_masked (p_insn p)" "p_insn p \<noteq> []"
    using built [of "\<lparr>v_mem = (\<lambda>_. 0), v_length = 1\<rparr>"] by auto
  obtain q where q: "optimize [] offset_max p = Some q"
    "\<And>v. \<forall>x \<in> set (p_insn q). holds v ?al x \<Longrightarrow>
         match_packet q v = map_option uminus (exec (fast_test v ?al) (p_insn p) 0)"
    "\<And>v. unat (p_safe_length q) \<le> v_length v \<Longrightarrow> \<forall>x \<in> set (p_insn q). holds v ?al x"
    using optimize_match [OF p(3-5), of "[]" offset_max] assms(7) [OF p(1)] p(2) by auto
  have m: "match_packet q v = Some (- verdict_exit (first_slot v ?al css))"
    if safe: "unat (p_safe_length q) \<le> v_length v"
      and cover: "\<forall>cs \<in> set css. \<forall>c \<in> set cs. c_offset c + int (length (c_bytes c)) \<le> int (v_length v)" for v
  proof -
    let ?v = "v\<lparr>v_length := v_length v + 65540\<rparr>"
    have "exec (checked_test ?v ?al) (p_insn p) 0 = Some (verdict_exit (first_slot ?v ?al css))"
      using built [of ?v] p(1) by auto
    moreover have "checked_test ?v ?al = fast_test v ?al"
      using checked_long [of ?v ?al] by (simp add: fast_test_def fun_eq_iff packet_word_def word_at_def)
    moreover have "first_slot ?v ?al css = first_slot v ?al css" by (rule covered_slots [OF cover]) simp_all
    ultimately show ?thesis using q(2) [OF q(3) [OF safe]] by simp
  qed
  have "configure noutputs query conf = Some (Inr (q, warn_unused_outputs noutputs q))"
    using assms(1) p(1) q(1) by (simp add: configure_def parse_program_def)
  then show ?thesis using m by blast
qed

text \<open>The witness configuration \<open>12/0800, -\<close>, stage by stage.\<close>

definition conf_ip :: "string list" where
  "conf_ip = [''12/0800'', ''-'']"

definition prog_ip :: "insn list" where
  "prog_ip = [new_insn 12 8 0xFFFF 1 0 False, new_insn 0 0 0 j_never (- 1) False]"

definition shifted_ip :: "insn list" where
  "shifted_ip = [new_insn 12 8 0xFFFF (- 1) 0 False, new_insn 0 0 0 j_never j_never False]"

definition conf_ip_clauses :: "clause list list" where
  "conf_ip_clauses = [[\<lparr>c_negated = False, c_offset = 12, c_bytes = [(8, 0xFF), (0, 0xFF)]\<rparr>], []]"

lemma conf_ip_stages:
  "parse_slot 0 (conf_ip ! 0) = Some (conf_ip_clauses ! 0, [])"
  "parse_slot 1 (conf_ip ! 1) = Some (conf_ip_clauses ! 1, [])"
  "build_program conf_ip (empty_program None)
   = Some (\<lparr>p_insn = prog_ip, p_output_everything = - 1, p_safe_length = - 1, p_align_offset = 0\<rparr>, [])"
  "bubble_sort_and_exprs [] offset_max prog_ip = Some prog_ip"
  "map_option (\<lambda>C. remove_unused_states
     \<lparr>p_insn = C, p_output_everything = - 1, p_safe_length = - 1, p_align_offset = 0\<rparr>)
     (combine_compatible_states shifted_ip)
   = Some \<lparr>p_insn = [new_insn 12 8 0xFFFF (- 1) 0 False], p_output_everything = - 1,
       p_safe_length = - 1, p_align_offset = 0\<rparr>"
  by code_simp+

lemma conf_ip_known: "known_lengths prog_ip = [0, 0]"
  by (simp add: prog_ip_def known_lengths_eval)

lemma conf_ip_dominators:
  "clean_run [0..<length prog_ip] (new_dominator prog_ip)" "dominator_optimize prog_ip = Some shifted_ip"
  unfolding dominator_optimize_def new_dominator_def conf_ip_known by code_simp+

lemma conf_ip_safe_length:
  assumes "configure 2 None conf_ip = Some (Inr (q, w))"
  shows "p_safe_length q = 14"
proof -
  have "length conf_ip = 2" by (simp add: conf_ip_def)
  with assms conf_ip_stages(5) show ?thesis
    by (auto simp: configure_def parse_program_def conf_ip_stages(3,4) conf_ip_dominators optimize_def
        settle_output_def calculate_safe_length_def wider_def new_insn_def required_length_def wbyte_def Let_def)
qed

theorem configure_correct_witness:
  "let v = \<lparr>v_mem = (\<lambda>a. if a = 12 then 8 else 0), v_length = 60\<rparr>
   in \<exists>q w. configure 2 None conf_ip = Some (Inr (q, w)) \<and> match_packet q v = Some 0"
proof -
  let ?v = "\<lparr>v_mem = (\<lambda>a. if a = 12 then 8 else 0 :: byte), v_length = 60\<rparr>"
  have al: "p_align_offset (empty_program None) = 0" by (simp add: empty_program_def new_program_def)
  have "\<forall>k < length conf_ip. parse_slot k (conf_ip ! k) = Some (conf_ip_clauses ! k, [])"
    using conf_ip_stages(1,2) by (simp add: conf_ip_def less_Suc_eq)
  moreover have "clean_run [0..<length S] (new_dominator S)"
    if "build_program conf_ip (empty_program None) = Some (p, [])"
      "bubble_sort_and_exprs [] offset_max (p_insn p) = Some S" for p S
    using that conf_ip_stages(3,4) conf_ip_dominators(1) by auto
  ultimately obtain q w where q: "configure 2 None conf_ip = Some (Inr (q, w))"
    "unat (p_safe_length q) \<le> 60 \<longrightarrow> match_packet q ?v = Some (- verdict_exit (first_slot ?v 0 conf_ip_clauses))"
    using configure_correct [of 2 conf_ip conf_ip_clauses None]
    by (auto simp: al conf_ip_def conf_ip_clauses_def clause_fits_def masked_bytes_def)
  moreover have "first_slot ?v 0 conf_ip_clauses = Some 0"
    by (simp add: conf_ip_clauses_def first_slot_def slot_ok_def clause_ok_def byte_ok_def upt_conv_Cons)
  ultimately show ?thesis using conf_ip_safe_length [OF q(1)] by (auto simp: verdict_exit_def Let_def)
qed

text \<open>
  An offset of 65536 or more is reported nowhere: the instruction stores it in 16 bits, and
  the pattern \<open>65536/01\<close> accepts a packet of four bytes that starts with \<open>01\<close>.
\<close>

theorem offset_wraps:
  "\<exists>p. build_program [''65536/01''] (new_program 0) = Some (p, [])
     \<and> exec (checked_test \<lparr>v_mem = (\<lambda>_. 1), v_length = 4\<rparr> 0) (p_insn p) 0 = Some 0"
proof -
  have "build_program [''65536/01''] (new_program 0)
    = Some (\<lparr>p_insn = [new_insn 0 1 0xFF j_never 0 False], p_output_everything = - 1,
             p_safe_length = - 1, p_align_offset = 0\<rparr>, [])"
    by code_simp
  then show ?thesis by (simp add: match_eval)
qed

lemma scan_all:
  assumes "\<forall>c \<in> set ds. isxdigit c \<or> c = CHR ''?''"
    "rest = [] \<or> \<not> isxdigit (hd rest) \<and> hd rest \<noteq> CHR ''?''"
  shows "scan_digits (ds @ rest) = length ds"
proof -
  have "takeWhile (\<lambda>c. isxdigit c \<or> c = CHR ''?'') rest = []" using assms(2) by (cases rest) auto
  then show ?thesis unfolding scan_digits_def using assms(1) by (subst takeWhile_append2) auto
qed

lemma byte_tests_odd_mask: "odd (length ms) \<Longrightarrow> byte_tests (int (length ms)) value (Some ms) = None"
proof (induction ms arbitrary: "value" rule: induct_list012)
  case (2 c)
  show ?case by (simp add: byte_tests.simps split: list.splits prod.splits)
next
  case (3 hi lo ms)
  then have "byte_tests (int (length ms)) s (Some ms) = None" for s by simp
  then show ?case by (subst byte_tests.simps) (simp split: list.splits prod.splits)
qed simp

text \<open>
  C25: a mask with fewer digits than its value is an error, but the digits are used all the
  same, two for each byte. When the value has an even number of digits, and the mask has an odd
  number, smaller than that, and ends the pattern, the parser takes the last digit of the mask as
  the first half of a byte and reads the character behind it, outside the pattern.
\<close>

theorem short_mask_reads_past_end:
  assumes "int k \<le> INT_MAX" "\<forall>c \<in> set (vs @ ms). isxdigit c \<or> c = CHR ''?''"
    and "even (length vs)" "odd (length ms)" "length ms < length vs"
  shows "parse_slot slot (to_string_nat k @ ''/'' @ vs @ ''%'' @ ms) = None"
proof -
  let ?v = "vs @ ''%'' @ ms" and ?s = "to_string_nat k @ ''/'' @ vs @ ''%'' @ ms"
  have r: "read_offset 0 ?s = Some (int k, ''/'' @ ?v)" using read_offset_printed [of "int k" ?v] assms(1) by simp
  have v: "scan_digits ?v = length vs" by (rule scan_all) (use assms(2) isdigit_not(3) in auto)
  have m: "scan_digits ms = length ms" using scan_all [of ms "[]"] assms(2) by simp
  have "2 \<le> int (length vs)" using assms(3-5) by presburger
  then have l: "check_lengths slot (int (length vs)) (Some (int (length ms))) = (int (length ms), [Mask_length slot False])"
    using assms(3,5) by (simp add: check_lengths_def even_iff_mod_2_eq_zero [symmetric])
  have d: "?s \<noteq> []" "isdigit (hd ?s)" using printed_number [of k] by simp_all
  then have "hd ?s \<noteq> CHR ''!''" "skip_spaces ?s = ?s"
    using isdigit_not(1) skip_spaces_stop [of ?s] isdigit_not_space by auto
  moreover from this have "parse_clause slot ?s = None"
    using d r v m l byte_tests_odd_mask [OF assms(4), of ?v] by (simp add: parse_clause_def Let_def)
  ultimately show ?thesis using d(1) by (simp add: parse_slot_def parse_clauses.simps)
qed

theorem short_mask_reads_past_end_witness:
  "parse_slot 0 ''12/0102%ff?'' = None"
proof -
  have "to_string_nat 12 = ''12''" by code_simp
  moreover have "int 12 \<le> INT_MAX" by (simp add: INT_MAX_def)
  moreover have "\<forall>c \<in> set (''0102'' @ ''ff?''). isxdigit c \<or> c = CHR ''?''" by code_simp
  ultimately show ?thesis using short_mask_reads_past_end [of 12 "''0102''" "''ff?''" 0] by simp
qed

end
