(* ===== verification/Wordwise_Compress.thy ===== *)
theory Wordwise_Compress
  imports Wordwise_Exec "HOL-Library.Multiset"
begin

text \<open>
  Compressed programs: \<open>CompressedProgram::compile\<close> of \<open>classification.cc\<close> and the matchers that run
  its result, \<open>IPFilter::match\<close> (\<open>elements/ip/ipfilter.hh\<close>) and \<open>IPFilter::length_checked_match\<close>
  (\<open>elements/ip/ipfilter.cc\<close>). A compressed program is an array of 32-bit words. It joins
  alternatives on the same word of the packet into one test with several values, which
  are sorted and searched by bisection when there are many. \<open>None\<close> stands for an access outside
  of a vector and for a run that never stops.
\<close>

section \<open>Compilation\<close>

record compressed_program =
  z_prog :: "u32 list"
  z_output_everything :: int
  z_safe_length :: u32
  z_align_offset :: u32

text \<open>The number of branches that lead to each instruction from instructions that are reached.\<close>

definition want :: "int \<Rightarrow> nat list \<Rightarrow> nat list option" where
  "want j wanted =
     (if 0 < j
      then if nat j < length wanted then Some (wanted[nat j := wanted ! nat j + 1]) else None
      else Some wanted)"

fun count_wanted :: "insn list \<Rightarrow> nat \<Rightarrow> nat list \<Rightarrow> nat list option" where
  "count_wanted [] i wanted = Some wanted"
| "count_wanted (x # xs) i wanted =
     (if wanted ! i \<noteq> 0
      then (case want (i_no x) wanted of
              None \<Rightarrow> None
            | Some wanted \<Rightarrow> case want (i_yes x) wanted of None \<Rightarrow> None | Some wanted \<Rightarrow> count_wanted xs (Suc i) wanted)
      else count_wanted xs (Suc i) wanted)"

text \<open>The inner loop: alternatives that nothing else leads to are taken into the test of \<open>x\<close>.\<close>

definition same_test :: "insn \<Rightarrow> insn \<Rightarrow> bool" where
  "same_test x y \<longleftrightarrow> i_yes y = i_yes x \<and> i_offset y = i_offset x \<and> i_mask y = i_mask x"

function absorb :: "insn list \<Rightarrow> insn \<Rightarrow> int \<Rightarrow> u32 list \<Rightarrow> nat list \<Rightarrow> (int \<times> u32 list \<times> nat list) option" where
  "absorb P x no vs wanted =
     (if 0 < no
      then if nat no < length wanted
           then if wanted ! nat no = 1
                then if nat no < length P
                     then let y = P ! nat no
                          in if same_test x y then absorb P x (i_no y) (vs @ [i_value y]) (wanted[nat no := 0])
                             else Some (no, vs, wanted)
                     else None
                else Some (no, vs, wanted)
           else None
      else Some (no, vs, wanted))"
  by auto
termination
proof (relation "measure (\<lambda>(P, x, no, vs, wanted). count_list wanted 1)")
  fix P x no vs and wanted :: "nat list" and y
  assume "nat no < length wanted" "wanted ! nat no = 1"
  then have "count_list (wanted[nat no := 0]) 1 < count_list wanted 1"
    by (subst (2) id_take_nth_drop [of "nat no"]) (simp_all add: upd_conv_take_nth_drop)
  then show "((P, x, i_no y, vs @ [i_value y], wanted[nat no := 0]), P, x, no, vs, wanted)
      \<in> measure (\<lambda>(P, x, no, vs, wanted). count_list wanted 1)" by simp
qed simp

declare absorb.simps [simp del]

text \<open>The words of a test: the header, the two jumps, the mask and the values.\<close>

definition test_header :: "insn \<Rightarrow> nat \<Rightarrow> u32" where
  "test_header x n = ucast (i_offset x) + (if i_short x then 0x10000 else 0) + 0x20000 * of_nat n"

definition sort_values :: "bool \<Rightarrow> nat \<Rightarrow> nat \<Rightarrow> u32 list \<Rightarrow> u32 list" where
  "sort_values perform_binary_search min_binary_search n vs =
     (if perform_binary_search \<and> min_binary_search \<le> n then sort (take n vs) @ drop n vs else vs)"

definition test_words :: "bool \<Rightarrow> nat \<Rightarrow> insn \<Rightarrow> int \<Rightarrow> u32 list \<Rightarrow> u32 list" where
  "test_words perform_binary_search min_binary_search x no vs =
     (let h = test_header x (length vs)
      in [h, word_of_int no, word_of_int (i_yes x), i_mask x]
         @ sort_values perform_binary_search min_binary_search (unat (drop_bit 17 h)) vs)"

fun compile_tests ::
  "bool \<Rightarrow> nat \<Rightarrow> insn list \<Rightarrow> nat list \<Rightarrow> nat list \<Rightarrow> u32 list \<Rightarrow> nat list \<Rightarrow> (u32 list \<times> nat list) option" where
  "compile_tests bs mn P [] wanted z offsets = Some (z, offsets @ [length z])"
| "compile_tests bs mn P (i # is) wanted z offsets =
     (let off = length z; offsets = offsets @ [off]
      in if wanted ! i = 0 then compile_tests bs mn P is wanted z offsets
         else case absorb P (P ! i) (i_no (P ! i)) [i_value (P ! i)] wanted of
                None \<Rightarrow> None
              | Some (no, vs, wanted) \<Rightarrow> compile_tests bs mn P is wanted (z @ test_words bs mn (P ! i) no vs) offsets)"

text \<open>The last loop replaces the numbers of instructions by distances in the array.\<close>

definition link_jump :: "nat list \<Rightarrow> nat \<Rightarrow> nat \<Rightarrow> u32 list \<Rightarrow> u32 list option" where
  "link_jump offsets off k z =
     (if 0 < sint (z ! (off + k))
      then if unat (z ! (off + k)) < length offsets
           then Some (z[off + k := of_nat (offsets ! unat (z ! (off + k))) - of_nat off])
           else None
      else Some z)"

fun link_tests :: "nat list \<Rightarrow> nat list \<Rightarrow> u32 list \<Rightarrow> u32 list option" where
  "link_tests offsets [] z = Some z"
| "link_tests offsets (i # is) z =
     (if offsets ! i < length z \<and> offsets ! i < offsets ! (i + 1)
      then (case link_jump offsets (offsets ! i) 1 z of
              None \<Rightarrow> None
            | Some z \<Rightarrow> case link_jump offsets (offsets ! i) 2 z of None \<Rightarrow> None | Some z \<Rightarrow> link_tests offsets is z)
      else link_tests offsets is z)"

definition compile_program :: "bool \<Rightarrow> nat \<Rightarrow> program \<Rightarrow> compressed_program option" where
  "compile_program perform_binary_search min_binary_search p =
     (let P = p_insn p; n = length P
      in case count_wanted P 0 ((replicate (n + 1) 0)[0 := 1]) of
           None \<Rightarrow> None
         | Some wanted \<Rightarrow>
             case compile_tests perform_binary_search min_binary_search P [0..<n] wanted [] [] of
               None \<Rightarrow> None
             | Some (z, offsets) \<Rightarrow>
                 map_option (\<lambda>z. \<lparr>z_prog = z, z_output_everything = p_output_everything p, z_safe_length = p_safe_length p,
                     z_align_offset = p_align_offset p\<rparr>)
                   (link_tests offsets [0..<n] z))"

section \<open>Execution\<close>

fun linear_search :: "u32 list \<Rightarrow> u32 \<Rightarrow> nat \<Rightarrow> nat \<Rightarrow> bool" where
  "linear_search z data pp 0 = False"
| "linear_search z data pp (Suc n) = (if z ! pp = data then True else linear_search z data (Suc pp) n)"

function binary_search :: "u32 list \<Rightarrow> u32 \<Rightarrow> nat \<Rightarrow> nat \<Rightarrow> bool" where
  "binary_search z data pp px =
     (if pp < px
      then let pm = pp + (px - pp) div 2
           in if z ! pm = data then True
              else if z ! pm < data then binary_search z data (pm + 1) px
              else binary_search z data pp pm
      else False)"
  by auto
termination by (relation "measure (\<lambda>(z, data, pp, px). px - pp)") auto

declare binary_search.simps [simp del]

definition MIN_BINARY_SEARCH :: nat where "MIN_BINARY_SEARCH = 7"

text \<open>
  The loop of the matchers. \<open>D\<close> reads the word of the packet at an offset; \<open>L\<close> says for an offset
  and a mask whether the packet is long enough.
\<close>

definition values_match :: "u32 list \<Rightarrow> nat \<Rightarrow> u32 \<Rightarrow> bool" where
  "values_match z pr data =
     (let n = unat (drop_bit 17 (z ! pr))
      in if n < MIN_BINARY_SEARCH then linear_search z data (pr + 4) n else binary_search z data (pr + 4) (pr + 4 + n))"

partial_function (option) zexec :: "(u16 \<Rightarrow> u32 \<Rightarrow> bool) \<Rightarrow> (u16 \<Rightarrow> u32) \<Rightarrow> u32 list \<Rightarrow> nat \<Rightarrow> int option" where
  "zexec L D z pr =
     (if pr + 4 + unat (drop_bit 17 (z ! pr)) \<le> length z
      then let yes = (if L (ucast (z ! pr)) (z ! (pr + 3)) then values_match z pr (D (ucast (z ! pr)) AND z ! (pr + 3))
                      else z ! pr AND 0x10000 \<noteq> 0);
               j = sint (z ! (pr + (if yes then 2 else 1)))
           in if j \<le> 0 then Some (- j) else zexec L D z (pr + nat j)
      else None)"

text \<open>The three headers of the packet that \<open>IPFilter\<close> reads, and the lengths of the packet.\<close>

record ip_view =
  iv_mac :: "int \<Rightarrow> byte"
  iv_net :: "int \<Rightarrow> byte"
  iv_transp :: "int \<Rightarrow> byte"
  iv_network_length :: int
  iv_network_header_length :: int

definition offset_net :: int where "offset_net = 256"
definition offset_transp :: int where "offset_transp = 512"

definition ip_data :: "ip_view \<Rightarrow> u16 \<Rightarrow> u32" where
  "ip_data v off16 =
     (let off = sint off16; word = (\<lambda>m a. word_at \<lparr>v_mem = m, v_length = 0\<rparr> a)
      in if off \<ge> offset_transp then word (iv_transp v) (off - offset_transp)
         else if off \<ge> offset_net then word (iv_net v) (off - offset_net)
         else word (iv_mac v) (off - 2))"

definition ip_long :: "int \<Rightarrow> u16 \<Rightarrow> u32 \<Rightarrow> bool" where
  "ip_long packet_length off16 msk =
     (let off = sint off16
      in off + 4 \<le> packet_length
         \<or> off < packet_length
           \<and> \<not> (wbyte msk 3 \<noteq> 0 \<or> (wbyte msk 2 \<noteq> 0 \<and> packet_length - off \<le> 2) \<or> (wbyte msk 1 \<noteq> 0 \<and> packet_length - off = 1)))"

definition ip_packet_length :: "ip_view \<Rightarrow> int" where
  "ip_packet_length v =
     (if iv_network_length v > iv_network_header_length v
      then iv_network_length v + offset_transp - iv_network_header_length v
      else iv_network_length v + offset_net)"

definition ip_length_checked_match :: "compressed_program \<Rightarrow> ip_view \<Rightarrow> int \<Rightarrow> int option" where
  "ip_length_checked_match zp v packet_length = zexec (ip_long packet_length) (ip_data v) (z_prog zp) 0"

definition ip_match :: "compressed_program \<Rightarrow> ip_view \<Rightarrow> int option" where
  "ip_match zp v =
     (if 0 \<le> z_output_everything zp then Some (z_output_everything zp)
      else if ip_packet_length v < sint (z_safe_length zp) then ip_length_checked_match zp v (ip_packet_length v)
      else zexec (\<lambda>_ _. True) (ip_data v) (z_prog zp) 0)"

section \<open>Words\<close>

lemma sint_jump_word: "- (2 ^ 31) \<le> j \<Longrightarrow> j < 2 ^ 31 \<Longrightarrow> sint (word_of_int j :: u32) = j"
  by (simp add: int_word_sint)

lemma unat_offset_bound: "unat (i_offset x) < 65536"
  using unsigned_less [of "i_offset x", where ?'a = nat] by simp

lemma unat_test_header:
  assumes "n < 2 ^ 15"
  shows "unat (test_header x n) = unat (i_offset x) + 65536 * of_bool (i_short x) + 131072 * n"
proof -
  have "unat (ucast (i_offset x) :: u32) = unat (i_offset x)" using unat_offset_bound [of x] by (simp add: unsigned_ucast_eq take_bit_nat_eq_self_iff)
  moreover have "unat (0x20000 * of_nat n :: u32) = 131072 * n" using assms by (simp add: unat_word_ariths unat_of_nat)
  ultimately show ?thesis using assms unat_offset_bound [of x] by (simp add: test_header_def unat_word_ariths)
qed

lemma header_split: "unat (test_header x n) = unat (i_offset x) + 65536 * (of_bool (i_short x) + 2 * n)" if "n < 2 ^ 15"
  using unat_test_header [OF that, of x] by simp

lemma test_header_high: "n < 2 ^ 15 \<Longrightarrow> unat (test_header x n) div 65536 = of_bool (i_short x) + 2 * n"
  unfolding header_split using unat_offset_bound [of x] by (subst div_mult_self2) simp_all

lemma test_header_count:
  assumes "n < 2 ^ 15"
  shows "unat (drop_bit 17 (test_header x n)) = n"
proof -
  have "unat (drop_bit 17 (test_header x n)) = unat (test_header x n) div 131072"
    by (simp add: drop_bit_eq_div unat_div)
  also have "\<dots> = unat (test_header x n) div 65536 div 2" by (simp add: div_mult2_eq)
  also have "\<dots> = n" unfolding test_header_high [OF assms] by (cases "i_short x") simp_all
  finally show ?thesis .
qed

lemma test_header_offset:
  assumes "n < 2 ^ 15"
  shows "ucast (test_header x n) = i_offset x"
proof -
  have "unat (ucast (test_header x n) :: u16) = unat (test_header x n) mod 65536" by (simp add: unsigned_ucast_eq take_bit_eq_mod)
  also have "\<dots> = unat (i_offset x)" unfolding header_split [OF assms] mod_mult_self2 using unat_offset_bound [of x] by simp
  finally show ?thesis by (simp add: word_unat_eq_iff)
qed

lemma test_header_short:
  assumes "n < 2 ^ 15"
  shows "test_header x n AND 0x10000 \<noteq> 0 \<longleftrightarrow> i_short x"
proof -
  have "(0x10000 :: u32) = 2 ^ 16" by simp
  then have "test_header x n AND 0x10000 \<noteq> 0 \<longleftrightarrow> bit (test_header x n) 16" by (simp only: and_exp_eq_0_iff_not_bit) simp
  also have "\<dots> \<longleftrightarrow> bit (unat (test_header x n)) 16" by (simp add: bit_unsigned_iff)
  also have "\<dots> \<longleftrightarrow> odd (unat (test_header x n) div 65536)" by (simp only: bit_iff_odd) simp
  also have "\<dots> \<longleftrightarrow> i_short x" unfolding test_header_high [OF assms] by simp
  finally show ?thesis .
qed

section \<open>Searching\<close>

lemma linear_search_iff: "linear_search z data pp n \<longleftrightarrow> (\<exists>k. pp \<le> k \<and> k < pp + n \<and> z ! k = data)"
proof (induction n arbitrary: pp)
  case (Suc n)
  have "(\<exists>k. pp \<le> k \<and> k < pp + Suc n \<and> z ! k = data) \<longleftrightarrow> z ! pp = data \<or> (\<exists>k. Suc pp \<le> k \<and> k < Suc pp + n \<and> z ! k = data)"
  proof
    assume "\<exists>k. pp \<le> k \<and> k < pp + Suc n \<and> z ! k = data"
    then obtain k where "pp \<le> k" "k < pp + Suc n" "z ! k = data" by blast
    then show "z ! pp = data \<or> (\<exists>k. Suc pp \<le> k \<and> k < Suc pp + n \<and> z ! k = data)" by (cases "k = pp") (auto intro!: exI [of _ k])
  next
    assume "z ! pp = data \<or> (\<exists>k. Suc pp \<le> k \<and> k < Suc pp + n \<and> z ! k = data)"
    then show "\<exists>k. pp \<le> k \<and> k < pp + Suc n \<and> z ! k = data" by (elim disjE exE) (auto intro: exI [of _ pp] Suc_leD)
  qed
  then show ?case using Suc.IH [of "Suc pp"] by simp
qed simp

lemma restrict_range:
  assumes "\<And>k. a \<le> k \<Longrightarrow> k < b \<Longrightarrow> \<not> (c \<le> k \<and> k < d) \<Longrightarrow> \<not> Q k" "(a :: nat) \<le> c" "d \<le> b"
  shows "(\<exists>k. a \<le> k \<and> k < b \<and> Q k) \<longleftrightarrow> (\<exists>k. c \<le> k \<and> k < d \<and> Q k)"
  using assms by (meson order_trans order_less_le_trans)

lemma binary_search_iff:
  assumes "\<And>a b. pp \<le> a \<Longrightarrow> a \<le> b \<Longrightarrow> b < px \<Longrightarrow> z ! a \<le> z ! b"
  shows "binary_search z data pp px \<longleftrightarrow> (\<exists>k. pp \<le> k \<and> k < px \<and> z ! k = data)"
  using assms
proof (induction z data pp px rule: binary_search.induct)
  case (1 z data pp px)
  let ?pm = "pp + (px - pp) div 2"
  show ?case
  proof (cases "pp < px")
    case False
    then show ?thesis by (simp add: binary_search.simps)
  next
    case True
    then have pm: "pp \<le> ?pm" "?pm < px" by auto
    consider "z ! ?pm = data" | "z ! ?pm < data" | "data < z ! ?pm" by force
    then show ?thesis
    proof cases
      case 1
      then show ?thesis using True pm unfolding binary_search.simps [of z data pp px] Let_def by metis
    next
      case 2
      have "z ! k \<noteq> data" if "pp \<le> k" "k \<le> ?pm" for k using "1.prems" [OF that pm(2)] 2 by (auto simp: not_less)
      then have e: "(\<exists>k. pp \<le> k \<and> k < px \<and> z ! k = data) \<longleftrightarrow> (\<exists>k. ?pm + 1 \<le> k \<and> k < px \<and> z ! k = data)"
        by (rule restrict_range) (use pm in auto)
      have "binary_search z data pp px = binary_search z data (?pm + 1) px" using True 2 by (subst binary_search.simps) (auto simp: Let_def)
      also have "\<dots> \<longleftrightarrow> (\<exists>k. ?pm + 1 \<le> k \<and> k < px \<and> z ! k = data)" by (rule "1.IH"(1) [OF True refl]) (use 2 "1.prems" in auto)
      finally show ?thesis using e by simp
    next
      case 3
      have "z ! k \<noteq> data" if "?pm \<le> k" "k < px" for k using "1.prems" [OF pm(1) that] 3 by (auto simp: not_less)
      then have e: "(\<exists>k. pp \<le> k \<and> k < px \<and> z ! k = data) \<longleftrightarrow> (\<exists>k. pp \<le> k \<and> k < ?pm \<and> z ! k = data)"
        by (rule restrict_range) (use pm in auto)
      have "\<not> z ! ?pm < data" "z ! ?pm \<noteq> data" using 3 by auto
      then have "binary_search z data pp px = binary_search z data pp ?pm" using True by (subst binary_search.simps) (simp add: Let_def)
      also have "\<dots> \<longleftrightarrow> (\<exists>k. pp \<le> k \<and> k < ?pm \<and> z ! k = data)" by (rule "1.IH"(2) [OF True refl]) (use 3 pm "1.prems" in auto)
      finally show ?thesis using e by simp
    qed
  qed
qed

section \<open>Counting branches\<close>

definition branches_to :: "insn \<Rightarrow> nat \<Rightarrow> nat" where
  "branches_to x k = of_bool (0 < k \<and> i_no x = int k) + of_bool (0 < k \<and> i_yes x = int k)"

definition wanted_inv :: "insn list \<Rightarrow> nat \<Rightarrow> nat list \<Rightarrow> bool" where
  "wanted_inv P i w \<longleftrightarrow> length w = length P + 1
     \<and> (\<forall>k \<le> length P. w ! k = of_bool (k = 0) + (\<Sum>j < i. of_bool (0 < w ! j) * branches_to (P ! j) k))"

lemma want_ok:
  assumes "jump_ok n i j" "length w = n + 1"
  shows "\<exists>w'. want j w = Some w' \<and> length w' = n + 1 \<and> (\<forall>k \<le> n. w' ! k = w ! k + of_bool (0 < k \<and> j = int k))"
proof (cases "0 < j")
  case True
  then have "nat j < length w" using assms by (auto simp: jump_ok_def nat_less_iff)
  then show ?thesis using True assms(2) by (auto simp: want_def nth_list_update)
next
  case False
  then show ?thesis using assms(2) by (auto simp: want_def)
qed

lemma branches_to_before:
  assumes "insn_ok n i x" "k \<le> i"
  shows "branches_to x k = 0"
  using assms by (auto simp: branches_to_def insn_ok_def jump_ok_def)

lemma count_wanted_ok:
  assumes "forward P" "P = ys @ xs" "wanted_inv P (length ys) w"
  shows "\<exists>w'. count_wanted xs (length ys) w = Some w' \<and> wanted_inv P (length P) w'"
  using assms(2,3)
proof (induction xs arbitrary: ys w)
  case Nil
  then show ?case by simp
next
  case (Cons x xs)
  let ?i = "length ys"
  have i: "?i < length P" "P ! ?i = x" using Cons.prems(1) by simp_all
  have ok: "insn_ok (length P) ?i x" using forward_insn_ok [OF assms(1) i(1)] i(2) by simp
  have len: "length w = length P + 1" and val: "\<And>k. k \<le> length P \<Longrightarrow> w ! k = of_bool (k = 0) + (\<Sum>j < ?i. of_bool (0 < w ! j) * branches_to (P ! j) k)"
    using Cons.prems(2) by (simp_all add: wanted_inv_def)
  have next_i: "wanted_inv P (Suc ?i) w' \<Longrightarrow> \<exists>r. count_wanted xs (Suc ?i) w' = Some r \<and> wanted_inv P (length P) r" for w'
    using Cons.IH [of "ys @ [x]" w'] Cons.prems(1) by simp
  show ?case
  proof (cases "w ! ?i = 0")
    case True
    then have "wanted_inv P (Suc ?i) w" using len val by (simp add: wanted_inv_def)
    then show ?thesis using next_i True by simp
  next
    case False
    obtain w1 where w1: "want (i_no x) w = Some w1" "length w1 = length P + 1" "\<forall>k \<le> length P. w1 ! k = w ! k + of_bool (0 < k \<and> i_no x = int k)"
      using want_ok [of "length P" ?i "i_no x" w] ok len by (auto simp: insn_ok_def)
    obtain w2 where w2: "want (i_yes x) w1 = Some w2" "length w2 = length P + 1" "\<forall>k \<le> length P. w2 ! k = w1 ! k + of_bool (0 < k \<and> i_yes x = int k)"
      using want_ok [of "length P" ?i "i_yes x" w1] ok w1(2) by (auto simp: insn_ok_def)
    have e: "w2 ! k = w ! k + branches_to x k" if "k \<le> length P" for k using w1(3) w2(3) that by (simp add: branches_to_def)
    have s: "w2 ! j = w ! j" if "j \<le> ?i" for j using e [of j] branches_to_before [OF ok that] that i(1) by simp
    have "w2 ! k = of_bool (k = 0) + (\<Sum>j < Suc ?i. of_bool (0 < w2 ! j) * branches_to (P ! j) k)" if "k \<le> length P" for k
    proof -
      have "(\<Sum>j < ?i. of_bool (0 < w2 ! j) * branches_to (P ! j) k) = (\<Sum>j < ?i. of_bool (0 < w ! j) * branches_to (P ! j) k)"
        using s by (intro sum.cong) simp_all
      then show ?thesis using e [OF that] val [OF that] s [of ?i] False i(2) by simp
    qed
    then have "wanted_inv P (Suc ?i) w2" using w2(2) by (simp add: wanted_inv_def)
    then show ?thesis using next_i w1(1) w2(1) False by simp
  qed
qed

lemma count_wanted_start: "wanted_inv P 0 ((replicate (length P + 1) 0)[0 := 1])"
  by (auto simp: wanted_inv_def nth_Cons split: nat.split)

text \<open>What the compiler needs of the counts: every branch of an instruction that is wanted leads to
  a wanted instruction, and an instruction that is wanted once has one branch that leads to it.\<close>

definition live :: "insn list \<Rightarrow> nat list \<Rightarrow> bool" where
  "live P w \<longleftrightarrow> length w = length P + 1 \<and> w ! 0 = 1
     \<and> (\<forall>i b. i < length P \<and> 0 < w ! i \<and> 0 < jump (P ! i) b \<longrightarrow> 0 < w ! nat (jump (P ! i) b))
     \<and> (\<forall>k i i' b b'. 0 < k \<and> w ! k = 1 \<and> k \<le> length P \<and> i < length P \<and> i' < length P \<and> 0 < w ! i \<and> 0 < w ! i'
          \<and> jump (P ! i) b = int k \<and> jump (P ! i') b' = int k \<longrightarrow> i = i' \<and> b = b')"

lemma branches_to_jump: "0 < k \<Longrightarrow> jump x b = int k \<Longrightarrow> 0 < branches_to x k"
  by (auto simp: branches_to_def jump_def split: if_splits)

lemma wanted_live:
  assumes "forward P" "wanted_inv P (length P) w"
  shows "live P w"
proof -
  let ?f = "\<lambda>k j. of_bool (0 < w ! j) * branches_to (P ! j) k"
  have val: "w ! k = of_bool (k = 0) + (\<Sum>j < length P. ?f k j)" if "k \<le> length P" for k
    using assms(2) that unfolding wanted_inv_def by blast
  have ge: "?f k i \<le> w ! k" if "k \<le> length P" "i < length P" for k i
    using val [OF that(1)] member_le_sum [of i "{..<length P}" "?f k"] that(2) by simp
  have "0 < w ! nat (jump (P ! i) b)" if "i < length P" "0 < w ! i" "0 < jump (P ! i) b" for i b
  proof -
    let ?k = "nat (jump (P ! i) b)"
    have "?k \<le> length P" using forward_jump [OF assms(1) that(1,3)] by simp
    moreover have "0 < branches_to (P ! i) ?k" by (rule branches_to_jump) (use that(3) in simp_all)
    ultimately show ?thesis using ge [of ?k i] that(1,2) by simp
  qed
  moreover have "i = i' \<and> b = b'" if k: "0 < k" "w ! k = 1" "k \<le> length P" "i < length P" "i' < length P" "0 < w ! i" "0 < w ! i'"
      "jump (P ! i) b = int k" "jump (P ! i') b' = int k" for k i i' b b'
  proof -
    have b: "0 < branches_to (P ! i) k" "0 < branches_to (P ! i') k" using branches_to_jump k(1,8,9) by blast+
    have "i = i'"
    proof (rule ccontr)
      assume "i \<noteq> i'"
      then have "?f k i + ?f k i' = sum (?f k) {i, i'}" by simp
      also have "\<dots> \<le> sum (?f k) {..<length P}" by (rule sum_mono2) (use k(4,5) in auto)
      finally show False using val [OF k(3)] b k(2,6,7) by simp
    qed
    moreover have "b = b'"
    proof (rule ccontr)
      assume "b \<noteq> b'"
      then have "branches_to (P ! i) k = 2" using k(1,8,9) \<open>i = i'\<close> by (cases b; cases b') (simp_all add: branches_to_def jump_def)
      then show False using ge [OF k(3,4)] k(2,6) by simp
    qed
    ultimately show ?thesis by simp
  qed
  moreover have "w ! 0 = 1" using val [of 0] by (simp add: branches_to_def)
  ultimately show ?thesis using assms(2) unfolding live_def wanted_inv_def by blast
qed

section \<open>Groups of alternatives\<close>

text \<open>\<open>grp P i m no vs\<close>: the test of instruction \<open>i\<close> has taken in the alternatives up to instruction \<open>m\<close>,
  with the values \<open>vs\<close>, and \<open>no\<close> is where it goes when none of them matches.\<close>

inductive grp :: "insn list \<Rightarrow> nat \<Rightarrow> nat \<Rightarrow> int \<Rightarrow> u32 list \<Rightarrow> bool" for P i where
  grp_head: "grp P i i (i_no (P ! i)) [i_value (P ! i)]"
| grp_join: "grp P i m no vs \<Longrightarrow> 0 < no \<Longrightarrow> nat no < length P \<Longrightarrow> m < nat no \<Longrightarrow> same_test (P ! i) (P ! nat no) \<Longrightarrow>
     grp P i (nat no) (i_no (P ! nat no)) (vs @ [i_value (P ! nat no)])"

lemma grp_last: "grp P i m no vs \<Longrightarrow> no = i_no (P ! m) \<and> i + length vs \<le> Suc m \<and> (i < length P \<longrightarrow> m < length P)"
  by (induction rule: grp.induct) auto

definition packet_test :: "(u16 \<Rightarrow> u32 \<Rightarrow> bool) \<Rightarrow> (u16 \<Rightarrow> u32) \<Rightarrow> insn \<Rightarrow> bool" where
  "packet_test L D x = (if L (i_offset x) (i_mask x) then D (i_offset x) AND i_mask x = i_value x else i_short x)"

definition group_test :: "(u16 \<Rightarrow> u32 \<Rightarrow> bool) \<Rightarrow> (u16 \<Rightarrow> u32) \<Rightarrow> insn \<Rightarrow> u32 list \<Rightarrow> bool" where
  "group_test L D x vs = (if L (i_offset x) (i_mask x) then D (i_offset x) AND i_mask x \<in> set vs else i_short x)"

text \<open>Joined tests answer alike when the packet is too short.\<close>

definition shorts_agree :: "insn list \<Rightarrow> bool" where
  "shorts_agree P \<longleftrightarrow> (\<forall>x \<in> set P. \<forall>y \<in> set P. same_test x y \<longrightarrow> i_short x = i_short y)"

lemma group_outcome:
  assumes "grp P i m no vs" "i < length P" "(\<forall>x \<in> set P. L (i_offset x) (i_mask x)) \<or> shorts_agree P"
  shows "exec (packet_test L D) P i = dest (packet_test L D) P (if group_test L D (P ! i) vs then i_yes (P ! i) else no)"
  using assms(1)
proof induction
  case grp_head
  then show ?case using assms(2) by (simp add: exec_step jump_def group_test_def packet_test_def)
next
  case (grp_join m no vs)
  let ?y = "P ! nat no"
  have in_P: "P ! i \<in> set P" "?y \<in> set P" using assms(2) grp_join.hyps by simp_all
  have "dest (packet_test L D) P no = dest (packet_test L D) P (if packet_test L D ?y then i_yes ?y else i_no ?y)"
    using grp_join.hyps exec_step [of "nat no" P] by (simp add: dest_def jump_def)
  moreover have "i_yes ?y = i_yes (P ! i)" "i_offset ?y = i_offset (P ! i)" "i_mask ?y = i_mask (P ! i)"
    using grp_join.hyps by (simp_all add: same_test_def)
  moreover have "i_short ?y = i_short (P ! i)" if "\<not> L (i_offset (P ! i)) (i_mask (P ! i))"
    using assms(3) in_P that grp_join.hyps unfolding shorts_agree_def by metis
  moreover have "packet_test L D ?y \<longleftrightarrow> (if L (i_offset ?y) (i_mask ?y) then D (i_offset ?y) AND i_mask ?y = i_value ?y else i_short ?y)"
    by (simp add: packet_test_def)
  ultimately show ?case using grp_join.IH by (auto simp: group_test_def)
qed

text \<open>
  The counts while tests are emitted: \<open>E\<close> are the instructions that got a test of their own, \<open>A\<close>
  those that were taken into another test, and \<open>C\<close> those whose failure branch is inside a test.
\<close>

definition claimed :: "insn list \<Rightarrow> nat list \<Rightarrow> nat list \<Rightarrow> nat set \<Rightarrow> nat set \<Rightarrow> nat set \<Rightarrow> bool" where
  "claimed P w0 w E A C \<longleftrightarrow> length w = length P + 1 \<and> (\<forall>k \<le> length P. w ! k = (if k \<in> A then 0 else w0 ! k))
     \<and> (\<forall>k \<in> A. w0 ! k = 1 \<and> 0 < k \<and> (\<exists>m \<in> C. i_no (P ! m) = int k))
     \<and> C \<subseteq> E \<union> A \<and> (\<forall>m \<in> E \<union> A. m < length P \<and> 0 < w0 ! m)"

lemma claimed_join:
  assumes "claimed P w0 w E A C" "m \<in> E \<union> A" "i_no (P ! m) = int k" "0 < k" "k < length P" "w ! k = 1"
  shows "claimed P w0 (w[k := 0]) E (insert k A) (insert m C)" "k \<notin> A"
proof -
  show "k \<notin> A" using assms(1,5,6) by (auto simp: claimed_def)
  then have "w0 ! k = 1" using assms(1,5,6) by (auto simp: claimed_def)
  then show "claimed P w0 (w[k := 0]) E (insert k A) (insert m C)"
    using assms unfolding claimed_def by (auto simp: nth_list_update)
qed

lemma absorb_ok:
  assumes "forward P" "claimed P w0 w E A C" "E \<subseteq> {..i}" "i \<le> m" "grp P i m no vs" "m \<in> E \<union> A" "m \<notin> C" "ls \<inter> insert m C = {}" "ls \<subseteq> E \<union> A"
  shows "\<exists>no' vs' w' A' C' m'. absorb P (P ! i) no vs w = Some (no', vs', w') \<and> grp P i m' no' vs' \<and> claimed P w0 w' E A' C'
    \<and> m' \<in> E \<union> A' \<and> m' \<notin> C' \<and> ls \<inter> C' = {} \<and> A \<subseteq> A' \<and> A' - A \<subseteq> {i<..}"
  using assms(2-)
proof (induction "length P - m" arbitrary: A C m no vs w rule: less_induct)
  case less
  let ?k = "nat no" and ?x = "P ! i"
  have m: "m < length P" using less.prems(1,5) by (auto simp: claimed_def)
  have no: "no = i_no (P ! m)" using grp_last [OF less.prems(4)] by simp
  have len: "length w = length P + 1" using less.prems(1) by (simp add: claimed_def)
  have fwd: "m < ?k" "?k < length P" if "0 < no" using forward_jump [OF assms(1) m, of False] that no by (simp_all add: jump_def)
  show ?case
  proof (cases "0 < no \<and> w ! ?k = 1 \<and> same_test ?x (P ! ?k)")
    case True
    have k: "i_no (P ! m) = int ?k" "0 < ?k" using True no by simp_all
    have f: "m < ?k" "?k < length P" "w ! ?k = 1" using fwd True by simp_all
    note c = claimed_join [OF less.prems(1,5) k f(2,3)]
    have ab: "absorb P ?x no vs w = absorb P ?x (i_no (P ! ?k)) (vs @ [i_value (P ! ?k)]) (w[?k := 0])"
      using True f(2) len by (subst absorb.simps) (simp add: Let_def)
    have kE: "?k \<notin> E" using f(1) less.prems(2,3) by auto
    have meas: "length P - ?k < length P - m" using f m by simp
    have q1: "?k \<notin> insert m C" using less.prems(1) c(2) kE f(1) by (auto simp: claimed_def)
    have q2: "ls \<inter> insert ?k (insert m C) = {}" "ls \<subseteq> E \<union> insert ?k A" "i \<le> ?k" "?k \<in> E \<union> insert ?k A"
      using less.prems(3,7,8) c(2) kE f(1) by auto
    have q3: "grp P i ?k (i_no (P ! ?k)) (vs @ [i_value (P ! ?k)])" using grp_join [OF less.prems(4) _ f(2,1)] True by simp
    obtain no' vs' w' A' C' m' where r: "absorb P ?x (i_no (P ! ?k)) (vs @ [i_value (P ! ?k)]) (w[?k := 0]) = Some (no', vs', w')"
        "grp P i m' no' vs'" "claimed P w0 w' E A' C'" "m' \<in> E \<union> A'" "m' \<notin> C'" "ls \<inter> C' = {}" "insert ?k A \<subseteq> A'" "A' - insert ?k A \<subseteq> {i<..}"
      using less.hyps [OF meas c(1) less.prems(2) q2(3) q3 q2(4) q1 q2(1,2)] by (elim exE conjE)
    have "A' - A \<subseteq> {i<..}" using r(8) f(1) less.prems(3) by auto
    moreover have "A \<subseteq> A'" using r(7) by simp
    ultimately show ?thesis unfolding ab using r(1-6)
      by (intro exI [of _ no'] exI [of _ vs'] exI [of _ w'] exI [of _ A'] exI [of _ C'] exI [of _ m']) simp
  next
    case False
    then have "absorb P ?x no vs w = Some (no, vs, w)" using fwd(2) len by (subst absorb.simps) (auto simp: Let_def)
    then show ?thesis using less.prems
      by (intro exI [of _ no] exI [of _ vs] exI [of _ w] exI [of _ A] exI [of _ C] exI [of _ m]) auto
  qed
qed

section \<open>The layout of the array\<close>

lemma length_test_words [simp]: "length (test_words bs mn x no vs) = 4 + length vs"
  by (simp add: test_words_def sort_values_def Let_def min_def)

definition layout :: "nat list \<Rightarrow> nat set \<Rightarrow> (nat \<Rightarrow> u32 list) \<Rightarrow> nat \<Rightarrow> bool" where
  "layout offs E vs i \<longleftrightarrow> (\<forall>j < i. offs ! Suc j = offs ! j + (if j \<in> E then 4 + length (vs j) else 0))"

lemma layout_mono: "layout offs E vs i \<Longrightarrow> j \<le> k \<Longrightarrow> k \<le> i \<Longrightarrow> offs ! j \<le> offs ! k"
proof (induction "k - j" arbitrary: k)
  case (Suc d)
  then obtain k' where k': "k = Suc k'" by (cases k) auto
  then have "offs ! j \<le> offs ! k'" using Suc by simp
  moreover have "offs ! k' \<le> offs ! k" using Suc.prems k' by (simp add: layout_def)
  ultimately show ?case by simp
qed simp

lemma layout_block: "layout offs E vs i \<Longrightarrow> j \<in> E \<Longrightarrow> j < k \<Longrightarrow> k \<le> i \<Longrightarrow> offs ! j + 4 + length (vs j) \<le> offs ! k"
  using layout_mono [of offs E vs i "Suc j" k] by (simp add: layout_def)

lemma layout_snoc:
  assumes "layout (offs @ [a]) E vs i" "length offs = i" "\<And>j. j < i \<Longrightarrow> (j \<in> E' \<longleftrightarrow> j \<in> E) \<and> vs' j = vs j"
    "a' = a + (if i \<in> E' then 4 + length (vs' i) else 0)"
  shows "layout ((offs @ [a]) @ [a']) E' vs' (Suc i)"
  unfolding layout_def
proof (intro allI impI)
  fix j assume "j < Suc i"
  then consider "j = i" | "j < i" by linarith
  then show "((offs @ [a]) @ [a']) ! Suc j = ((offs @ [a]) @ [a']) ! j + (if j \<in> E' then 4 + length (vs' j) else 0)"
  proof cases
    case 1
    then show ?thesis using assms(2,4) by (simp add: nth_append)
  next
    case 2
    then have "(offs @ [a]) ! Suc j = (offs @ [a]) ! j + (if j \<in> E' then 4 + length (vs' j) else 0)"
      using assms(1) assms(3) [OF 2] by (simp add: layout_def)
    then show ?thesis using 2 assms(2) by (simp add: nth_append [of "offs @ [a]"] del: append_assoc)
  qed
qed

text \<open>The state of \<open>compile_tests\<close> before instruction \<open>i\<close>.\<close>

definition emitted ::
  "bool \<Rightarrow> nat \<Rightarrow> insn list \<Rightarrow> nat list \<Rightarrow> nat \<Rightarrow> nat list \<Rightarrow> u32 list \<Rightarrow> nat list \<Rightarrow> nat set \<Rightarrow> nat set \<Rightarrow> nat set
     \<Rightarrow> (nat \<Rightarrow> nat) \<Rightarrow> (nat \<Rightarrow> int) \<Rightarrow> (nat \<Rightarrow> u32 list) \<Rightarrow> bool" where
  "emitted bs mn P w0 i w z offs E A C lm no vs \<longleftrightarrow> claimed P w0 w E A C \<and> E = {k. k < i \<and> 0 < w0 ! k \<and> k \<notin> A} \<and> length offs = i
     \<and> (\<forall>j \<in> E. grp P j (lm j) (no j) (vs j) \<and> lm j \<in> E \<union> A \<and> lm j \<notin> C)
     \<and> layout (offs @ [length z]) E vs i \<and> (offs @ [length z]) ! 0 = 0
     \<and> (\<forall>j \<in> E. \<forall>q < 4 + length (vs j). z ! (offs ! j + q) = test_words bs mn (P ! j) (no j) (vs j) ! q)"

lemma emittedD:
  assumes "emitted bs mn P w0 i w z offs E A C lm no vs"
  shows "claimed P w0 w E A C" "E = {k. k < i \<and> 0 < w0 ! k \<and> k \<notin> A}" "length offs = i" "layout (offs @ [length z]) E vs i"
    "\<forall>j \<in> E. grp P j (lm j) (no j) (vs j) \<and> lm j \<in> E \<union> A \<and> lm j \<notin> C"
    "\<forall>j \<in> E. \<forall>q < 4 + length (vs j). z ! (offs ! j + q) = test_words bs mn (P ! j) (no j) (vs j) ! q"
    "(offs @ [length z]) ! 0 = 0"
  by (insert assms) (unfold emitted_def, (elim conjE, assumption)+)

lemma emitted_skip:
  assumes "emitted bs mn P w0 i w z offs E A C lm no vs" "i < length P" "w ! i = 0"
  shows "emitted bs mn P w0 (Suc i) w z (offs @ [length z]) E A C lm no vs"
proof -
  note c = emittedD [OF assms(1)]
  have "i \<in> A \<or> w0 ! i = 0" using c(1) assms(2,3) by (auto simp: claimed_def split: if_splits)
  then have E: "E = {k. k < Suc i \<and> 0 < w0 ! k \<and> k \<notin> A}" using c(2) by (auto simp: less_Suc_eq)
  have "i \<notin> E" using c(2) by simp
  then have "layout ((offs @ [length z]) @ [length z]) E vs (Suc i)" by (intro layout_snoc [OF c(4,3)]) simp_all
  moreover have "(offs @ [length z]) ! j = offs ! j" if "j \<in> E" for j using that c(2,3) by (auto simp: nth_append)
  moreover have "((offs @ [length z]) @ [length z]) ! 0 = 0" using c(7) by (cases offs) simp_all
  ultimately show ?thesis unfolding emitted_def using c(1,3,5,6) E by simp
qed

lemma emitted_add:
  assumes "forward P" "emitted bs mn P w0 i w z offs E A C lm no vs" "i < length P" "0 < w ! i"
  shows "\<exists>no' vs' w' A' C' m'. absorb P (P ! i) (i_no (P ! i)) [i_value (P ! i)] w = Some (no', vs', w')
    \<and> emitted bs mn P w0 (Suc i) w' (z @ test_words bs mn (P ! i) no' vs') (offs @ [length z]) (insert i E) A' C' (lm(i := m')) (no(i := no')) (vs(i := vs'))"
proof -
  note c = emittedD [OF assms(2)]
  have "w ! i = (if i \<in> A then 0 else w0 ! i)" "C \<subseteq> E \<union> A" using c(1) assms(3) by (simp_all add: claimed_def)
  then have i: "i \<notin> A" "0 < w0 ! i" "C \<subseteq> E \<union> A" using assms(4) by (simp_all split: if_splits)
  have "i \<notin> E" by (subst c(2)) simp
  then have iE: "i \<notin> E" "i \<notin> C" using i(1,3) by auto
  have cl: "claimed P w0 w (insert i E) A C" using c(1) i(2) assms(3) by (auto simp: claimed_def)
  have "E \<subseteq> {..i}" by (subst c(2)) auto
  then have "insert i E \<subseteq> {..i}" "i \<in> insert i E \<union> A" by simp_all
  moreover have "lm ` E \<inter> insert i C = {}" "lm ` E \<subseteq> insert i E \<union> A" using c(5) iE(1) i(1) by auto
  ultimately have ab0: "insert i E \<subseteq> {..i}" "i \<in> insert i E \<union> A" "lm ` E \<inter> insert i C = {}" "lm ` E \<subseteq> insert i E \<union> A" by blast+
  note ab = absorb_ok [OF assms(1) cl ab0(1) order_refl grp_head ab0(2) iE(2) ab0(3,4)]
  then obtain no' vs' w' A' C' m' where r: "absorb P (P ! i) (i_no (P ! i)) [i_value (P ! i)] w = Some (no', vs', w')" "grp P i m' no' vs'"
      "claimed P w0 w' (insert i E) A' C'" "m' \<in> insert i E \<union> A'" "m' \<notin> C'" "lm ` E \<inter> C' = {}" "A \<subseteq> A'" "A' - A \<subseteq> {i<..}"
    by (elim exE conjE)
  have E: "insert i E = {k. k < Suc i \<and> 0 < w0 ! k \<and> k \<notin> A'}"
    by (subst c(2)) (use i r(7,8) in \<open>auto simp: less_Suc_eq\<close>)
  let ?z = "z @ test_words bs mn (P ! i) no' vs'" and ?vs = "vs(i := vs')" and ?offs = "offs @ [length z]"
  have lay: "layout (?offs @ [length ?z]) (insert i E) ?vs (Suc i)"
    by (rule layout_snoc [OF c(4,3)]) simp_all
  have "?z ! (?offs ! j + q) = test_words bs mn (P ! j) ((no(i := no')) j) (?vs j) ! q" if "j \<in> insert i E" "q < 4 + length (?vs j)" for j q
  proof (cases "j = i")
    case True
    then show ?thesis using that(2) c(3) by (simp add: nth_append)
  next
    case False
    then have "j \<in> E" using that(1) by simp
    moreover from this have "j < i" by (subst (asm) c(2)) simp
    ultimately have j: "j \<in> E" "j < i" by simp_all
    then have "offs ! j + 4 + length (vs j) \<le> length z" using layout_block [OF c(4) j(1), of i] c(3) by (simp add: nth_append)
    moreover have "z ! (offs ! j + q) = test_words bs mn (P ! j) (no j) (vs j) ! q" using c(6) j(1) that(2) False by simp
    ultimately show ?thesis using False j(2) that(2) c(3) by (simp add: nth_append)
  qed
  moreover have "grp P j ((lm(i := m')) j) ((no(i := no')) j) (?vs j) \<and> (lm(i := m')) j \<in> insert i E \<union> A' \<and> (lm(i := m')) j \<notin> C'" if "j \<in> insert i E" for j
    using r(2,4,5,6,7) c(5) that by (cases "j = i") auto
  moreover have "(?offs @ [length ?z]) ! 0 = 0" using c(7) by (cases offs) simp_all
  ultimately have "emitted bs mn P w0 (Suc i) w' ?z ?offs (insert i E) A' C' (lm(i := m')) (no(i := no')) ?vs"
    unfolding emitted_def using r(3) E lay c(3) by simp
  then show ?thesis using r(1) by blast
qed

lemma compile_tests_ok:
  assumes "forward P" "emitted bs mn P w0 i w z offs E A C lm no vs" "i \<le> length P"
  shows "\<exists>z' offs' w' E' A' C' lm' no' vs'. compile_tests bs mn P [i..<length P] w z offs = Some (z', offs' @ [length z'])
    \<and> emitted bs mn P w0 (length P) w' z' offs' E' A' C' lm' no' vs'"
  using assms(2,3)
proof (induction "length P - i" arbitrary: i w z offs E A C lm no vs)
  case 0
  then show ?case by simp blast
next
  case (Suc d)
  then have i: "i < length P" "[i..<length P] = i # [Suc i..<length P]" "d = length P - Suc i" by (simp_all add: upt_conv_Cons)
  show ?case
  proof (cases "w ! i = 0")
    case True
    then show ?thesis using Suc.hyps(1) [OF i(3) emitted_skip [OF Suc.prems(1) i(1) True]] i by simp
  next
    case False
    then obtain no' vs' w' A' C' m' where r: "absorb P (P ! i) (i_no (P ! i)) [i_value (P ! i)] w = Some (no', vs', w')"
        "emitted bs mn P w0 (Suc i) w' (z @ test_words bs mn (P ! i) no' vs') (offs @ [length z]) (insert i E) A' C' (lm(i := m')) (no(i := no')) (vs(i := vs'))"
      using emitted_add [OF assms(1) Suc.prems(1) i(1)] by blast
    then show ?thesis using Suc.hyps(1) [OF i(3) r(2)] i False by (simp add: Let_def)
  qed
qed

lemma grp_nonempty: "grp P i m no vs \<Longrightarrow> vs \<noteq> []"
  by (induction rule: grp.induct) auto

lemma no_tests_emitted: "length w = length P + 1 \<Longrightarrow> emitted bs mn P w 0 w [] [] {} {} {} lm no vs"
  by (simp add: emitted_def claimed_def layout_def)

text \<open>The branches of the finished tests lead to tests.\<close>

lemma emitted_targets:
  assumes "forward P" "live P w0" "emitted bs mn P w0 (length P) w z offs E A C lm no vs" "j \<in> E" "jmp = i_yes (P ! j) \<or> jmp = no j" "0 < jmp"
  shows "nat jmp \<in> E" "j < nat jmp" "nat jmp < length P"
proof -
  note c = emittedD [OF assms(3)]
  have g: "grp P j (lm j) (no j) (vs j)" "lm j \<in> E \<union> A" "lm j \<notin> C" using c(5) assms(4) by auto
  have in_range: "\<forall>m \<in> E \<union> A. m < length P \<and> 0 < w0 ! m" and A: "\<forall>k \<in> A. w0 ! k = 1 \<and> 0 < k \<and> (\<exists>m \<in> C. i_no (P ! m) = int k)" and C: "C \<subseteq> E \<union> A"
    using c(1) by (simp_all add: claimed_def)
  have j: "j < length P" "0 < w0 ! j" "lm j < length P" "0 < w0 ! lm j" using in_range assms(4) g(2) by auto
  have last: "no j = i_no (P ! lm j)" "j \<le> lm j" using grp_last [OF g(1)] grp_nonempty [OF g(1)] by (auto simp: neq_Nil_conv)
  obtain m b where m: "jmp = jump (P ! m) b" "m < length P" "0 < w0 ! m" "j \<le> m" "b \<or> m = lm j"
  proof (cases "jmp = i_yes (P ! j)")
    case True
    then show ?thesis using that [of j True] j by (simp add: jump_def)
  next
    case False
    then show ?thesis using that [of "lm j" False] j last assms(5) by (simp add: jump_def)
  qed
  have k: "m < nat jmp" "nat jmp < length P" using forward_jump [OF assms(1) m(2), of b] assms(6) m(1) by simp_all
  then show "j < nat jmp" "nat jmp < length P" using m(4) by simp_all
  have "0 < w0 ! nat jmp" using assms(2,6) m(1-3) by (simp add: live_def)
  moreover have "nat jmp \<notin> A"
  proof
    assume "nat jmp \<in> A"
    then obtain m' where m': "w0 ! nat jmp = 1" "m' \<in> C" "i_no (P ! m') = int (nat jmp)" using A by blast
    then have "m' < length P" "0 < w0 ! m'" using C in_range by auto
    moreover have "jump (P ! m') False = int (nat jmp)" "jump (P ! m) b = int (nat jmp)" using m'(3) m(1) assms(6) by (simp_all add: jump_def)
    ultimately have "m = m' \<and> b = False" using assms(2,6) m'(1) m(2,3) k(2) unfolding live_def
      by (metis less_imp_le_nat zero_less_nat_eq)
    then show False using m(5) m'(2) g(3) by simp
  qed
  ultimately show "nat jmp \<in> E" using c(2) k(2) by simp
qed

section \<open>Linking\<close>

definition linked_word :: "nat list \<Rightarrow> nat \<Rightarrow> int \<Rightarrow> u32" where
  "linked_word offs j jmp = (if 0 < jmp then of_nat (offs ! nat jmp) - of_nat (offs ! j) else word_of_int jmp)"

definition linked_words :: "bool \<Rightarrow> nat \<Rightarrow> insn list \<Rightarrow> nat list \<Rightarrow> (nat \<Rightarrow> int) \<Rightarrow> (nat \<Rightarrow> u32 list) \<Rightarrow> nat \<Rightarrow> u32 list" where
  "linked_words bs mn P offs no vs j =
     (test_words bs mn (P ! j) (no j) (vs j))[1 := linked_word offs j (no j), 2 := linked_word offs j (i_yes (P ! j))]"

definition small_jumps :: "insn list \<Rightarrow> bool" where
  "small_jumps P \<longleftrightarrow> (\<forall>x \<in> set P. - (2 ^ 31) \<le> i_no x \<and> - (2 ^ 31) \<le> i_yes x)"

lemma test_words_head [simp]:
  "test_words bs mn x no vs ! 0 = test_header x (length vs)" "test_words bs mn x no vs ! 1 = word_of_int no"
  "test_words bs mn x no vs ! 2 = word_of_int (i_yes x)" "test_words bs mn x no vs ! 3 = i_mask x"
  "test_words bs mn x no vs ! Suc 0 = word_of_int no"
  by (simp_all add: test_words_def Let_def numeral_2_eq_2 numeral_3_eq_3)

lemma link_jump_ok:
  assumes "off + k < length z" "z ! (off + k) = word_of_int jmp" "- (2 ^ 31) \<le> jmp" "jmp < 2 ^ 31" "0 < jmp \<longrightarrow> nat jmp < length offs" "off = offs ! j"
  shows "link_jump offs off k z = Some (z[off + k := linked_word offs j jmp])"
proof -
  have s: "sint (z ! (off + k)) = jmp" using assms(2-4) by (simp add: sint_jump_word)
  show ?thesis
  proof (cases "0 < jmp")
    case True
    then have "unat (z ! (off + k)) = nat jmp" using assms(2,4) by (simp add: unsigned_of_int take_bit_int_eq_self_iff unat_eq_nat_uint take_bit_int_eq_self)
    then show ?thesis using True s assms(5,6) by (simp add: link_jump_def linked_word_def)
  next
    case False
    then show ?thesis using s assms(2) by (simp add: link_jump_def linked_word_def) (metis list_update_id)
  qed
qed

text \<open>The array when the tests before \<open>i\<close> are linked.\<close>

definition linked ::
  "bool \<Rightarrow> nat \<Rightarrow> insn list \<Rightarrow> nat list \<Rightarrow> nat set \<Rightarrow> (nat \<Rightarrow> int) \<Rightarrow> (nat \<Rightarrow> u32 list) \<Rightarrow> nat \<Rightarrow> u32 list \<Rightarrow> bool" where
  "linked bs mn P offs E no vs i z \<longleftrightarrow> length z = offs ! length P
     \<and> (\<forall>j \<in> E. \<forall>q < 4 + length (vs j). z ! (offs ! j + q) =
          (if j < i then linked_words bs mn P offs no vs j else test_words bs mn (P ! j) (no j) (vs j)) ! q)"

lemma linked_step:
  assumes "linked bs mn P offs E no vs i z" "layout offs E vs (length P)" "i \<in> E" "E \<subseteq> {..<length P}"
  shows "linked bs mn P offs E no vs (Suc i) (z[offs ! i + 1 := linked_word offs i (no i), offs ! i + 2 := linked_word offs i (i_yes (P ! i))])"
    (is "linked _ _ _ _ _ _ _ _ ?z")
  unfolding linked_def
proof (intro conjI ballI allI impI)
  show "length ?z = offs ! length P" using assms(1) by (simp add: linked_def)
  fix j q assume j: "j \<in> E" "q < 4 + length (vs j)"
  have le: "offs ! j' + 4 + length (vs j') \<le> offs ! k" if "j' \<in> E" "j' < k" "k \<le> length P" for j' k by (rule layout_block [OF assms(2) that])
  have len: "offs ! j' + 4 + length (vs j') \<le> length z" if "j' \<in> E" for j' using le [OF that, of "length P"] assms(1,4) that by (auto simp: linked_def)
  have old: "z ! (offs ! j + q) = (if j < i then linked_words bs mn P offs no vs j else test_words bs mn (P ! j) (no j) (vs j)) ! q"
    using assms(1) j by (simp add: linked_def)
  have bounds: "i \<le> length P" "j \<le> length P" using assms(3,4) j(1) by auto
  show "?z ! (offs ! j + q) = (if j < Suc i then linked_words bs mn P offs no vs j else test_words bs mn (P ! j) (no j) (vs j)) ! q"
  proof (cases "j = i")
    case True
    then show ?thesis using old len [OF assms(3)] j(2) by (simp add: linked_words_def nth_list_update)
  next
    case False
    then have "offs ! j + q \<noteq> offs ! i + 1 \<and> offs ! j + q \<noteq> offs ! i + 2"
      using le [OF j(1), of i] le [OF assms(3), of j] j(2) bounds by (cases "j < i") simp_all
    then show ?thesis using old False by simp
  qed
qed

lemma link_tests_ok:
  assumes "layout offs E vs (length P)" "E \<subseteq> {..<length P}" "length offs = length P + 1" "small_jumps P" "length P < 2 ^ 31"
    "\<And>j. j \<in> E \<Longrightarrow> (0 < no j \<longrightarrow> nat (no j) < length P) \<and> (0 < i_yes (P ! j) \<longrightarrow> nat (i_yes (P ! j)) < length P) \<and> - (2 ^ 31) \<le> no j"
    "linked bs mn P offs E no vs i z" "i \<le> length P"
  shows "\<exists>z'. link_tests offs [i..<length P] z = Some z' \<and> linked bs mn P offs E no vs (length P) z'"
  using assms(7,8)
proof (induction "length P - i" arbitrary: i z)
  case 0
  then show ?case by simp
next
  case (Suc d)
  then have i: "i < length P" "[i..<length P] = i # [Suc i..<length P]" "d = length P - Suc i" by (simp_all add: upt_conv_Cons)
  show ?case
  proof (cases "i \<in> E")
    case False
    then have "offs ! Suc i = offs ! i" using assms(1) i(1) by (simp add: layout_def)
    moreover have "linked bs mn P offs E no vs (Suc i) z" 
    proof -
      have "j < Suc i \<longleftrightarrow> j < i" if "j \<in> E" for j using that False by (auto simp: less_Suc_eq)
      then show ?thesis using Suc.prems(1) by (simp add: linked_def)
    qed
    ultimately show ?thesis using Suc.hyps(1) [OF i(3)] i by simp
  next
    case True
    let ?z1 = "z[offs ! i + 1 := linked_word offs i (no i)]"
    have b: "offs ! i + 4 + length (vs i) \<le> length z" "offs ! i < offs ! Suc i"
      using layout_block [OF assms(1) True i(1) order_refl] Suc.prems(1) layout_block [OF assms(1) True, of "Suc i"] i(1) by (simp_all add: linked_def)
    have w: "z ! (offs ! i + q) = test_words bs mn (P ! i) (no i) (vs i) ! q" if "q < 4" for q
      using Suc.prems(1) True that by (simp add: linked_def)
    have y: "- (2 ^ 31) \<le> i_yes (P ! i)" using assms(4) i(1) by (simp add: small_jumps_def)
    have t: "0 < no i \<longrightarrow> nat (no i) < length P" "0 < i_yes (P ! i) \<longrightarrow> nat (i_yes (P ! i)) < length P" "- (2 ^ 31) \<le> no i" using assms(6) [OF True] by simp_all
    have "link_jump offs (offs ! i) 1 z = Some ?z1"
      by (rule link_jump_ok) (use b w [of 1] t assms(3,5) in auto)
    moreover have "link_jump offs (offs ! i) 2 ?z1 = Some (?z1[offs ! i + 2 := linked_word offs i (i_yes (P ! i))])"
      by (rule link_jump_ok) (use b w [of 2] t y assms(3,5) in auto)
    moreover note linked_step [OF Suc.prems(1) assms(1) True assms(2)]
    ultimately show ?thesis using Suc.hyps(1) [OF i(3)] i b by simp
  qed
qed

section \<open>Running a compressed program\<close>

lemma sint_of_nat_small: "n < 2 ^ 31 \<Longrightarrow> sint (of_nat n :: u32) = int n"
  using sint_jump_word [of "int n"] by simp

lemma linked_word_sint:
  assumes "0 < jmp" "offs ! j \<le> offs ! nat jmp" "offs ! nat jmp < 2 ^ 31"
  shows "sint (linked_word offs j jmp) = int (offs ! nat jmp - offs ! j)"
proof -
  have "linked_word offs j jmp = of_nat (offs ! nat jmp - offs ! j)" using assms(1,2) by (simp add: linked_word_def of_nat_diff)
  then show ?thesis using sint_of_nat_small [of "offs ! nat jmp - offs ! j"] assms(3) by simp
qed

lemma layout_bound:
  assumes "layout offs E vs i" "\<And>j. j \<in> E \<Longrightarrow> length (vs j) \<le> n" "offs ! 0 = 0" "k \<le> i"
  shows "offs ! k \<le> k * (4 + n)"
  using assms(4)
proof (induction k)
  case (Suc k)
  have "offs ! Suc k \<le> offs ! k + (4 + n)" using assms(1) assms(2) [of k] Suc.prems by (simp add: layout_def)
  then show ?case using Suc by simp
qed (simp add: assms(3))

text \<open>The values of a test are found by either search.\<close>

lemma values_match_ok:
  assumes "z ! pr = test_header x (length vs)" "length vs < 2 ^ 15" "pr + 4 + length vs \<le> length z"
    "\<And>q. 4 \<le> q \<Longrightarrow> q < 4 + length vs \<Longrightarrow> z ! (pr + q) = test_words True MIN_BINARY_SEARCH x no vs ! q"
  shows "values_match z pr data \<longleftrightarrow> data \<in> set vs"
proof -
  let ?n = "length vs" and ?vs = "sort_values True MIN_BINARY_SEARCH (length vs) vs"
  have n: "unat (drop_bit 17 (z ! pr)) = ?n" unfolding assms(1) by (rule test_header_count [OF assms(2)])
  have l: "length ?vs = ?n" "set ?vs = set vs" by (simp_all add: sort_values_def)
  have w: "z ! (pr + 4 + q) = ?vs ! q" if "q < ?n" for q
    using assms(4) [of "4 + q"] that by (simp add: test_words_def Let_def test_header_count [OF assms(2)] ac_simps)
  have range: "(\<exists>k. pr + 4 \<le> k \<and> k < pr + 4 + ?n \<and> z ! k = data) \<longleftrightarrow> data \<in> set vs"
  proof -
    have "(\<exists>k. pr + 4 \<le> k \<and> k < pr + 4 + ?n \<and> z ! k = data) \<longleftrightarrow> (\<exists>q < ?n. ?vs ! q = data)"
      using w by (metis le_add1 le_add_diff_inverse nat_add_left_cancel_less)
    then show ?thesis using l by (metis in_set_conv_nth)
  qed
  have "z ! a \<le> z ! b" if "pr + 4 \<le> a" "a \<le> b" "b < pr + 4 + ?n" "MIN_BINARY_SEARCH \<le> ?n" for a b
  proof -
    have "sorted ?vs" using that(4) by (simp add: sort_values_def)
    then have "?vs ! (a - (pr + 4)) \<le> ?vs ! (b - (pr + 4))" using that l(1) by (intro sorted_nth_mono) auto
    then show ?thesis using w [of "a - (pr + 4)"] w [of "b - (pr + 4)"] that by simp
  qed
  then show ?thesis unfolding values_match_def n Let_def using linear_search_iff [of z data "pr + 4" ?n] binary_search_iff [of "pr + 4" "pr + 4 + ?n" z data] range
    by (simp add: not_less)
qed

lemma zexec_ok:
  assumes "forward P" "live P w0" "emitted True MIN_BINARY_SEARCH P w0 (length P) w z0 offs0 E A C lm no vs" "offs = offs0 @ [length z0]"
    "linked True MIN_BINARY_SEARCH P offs E no vs (length P) z" "length P < 2 ^ 15" "small_jumps P"
    "(\<forall>x \<in> set P. L (i_offset x) (i_mask x)) \<or> shorts_agree P" "j \<in> E"
  shows "zexec L D z (offs ! j) = map_option uminus (exec (packet_test L D) P j)"
  using assms(9)
proof (induction "length P - j" arbitrary: j rule: less_induct)
  case less
  note c = emittedD [OF assms(3)]
  let ?x = "P ! j" and ?vs = "vs j" and ?pr = "offs ! j" and ?W = "linked_words True MIN_BINARY_SEARCH P offs no vs j"
  have E: "E \<subseteq> {..<length P}" using c(1) by (auto simp: claimed_def)
  then have j: "j < length P" using less.prems by auto
  have vsl: "length (vs i) \<le> length P" if "i \<in> E" for i using c(5) that E grp_last [of P i "lm i" "no i" "vs i"] by fastforce
  have nv: "length ?vs < 2 ^ 15" using vsl [OF less.prems] assms(6) by simp
  have lay: "layout offs E vs (length P)" using c(4) assms(4) by simp
  have blk: "?pr + 4 + length ?vs \<le> length z" using layout_block [OF lay less.prems j order_refl] assms(5) by (simp add: linked_def)
  have ob: "offs ! k < 2 ^ 31" if "k \<le> length P" for k
  proof -
    have "offs ! k \<le> k * (4 + length P)" using layout_bound [OF lay vsl _ that] c(7) assms(4) by simp
    also have "\<dots> \<le> 32767 * 32771" using that assms(6) by (intro mult_mono) simp_all
    finally show ?thesis by simp
  qed
  have W: "z ! (?pr + q) = ?W ! q" if "q < 4 + length ?vs" for q using assms(5) less.prems j that by (simp add: linked_def)
  have w: "z ! ?pr = test_header ?x (length ?vs)" "z ! (?pr + 1) = linked_word offs j (no j)" "z ! (?pr + 2) = linked_word offs j (i_yes ?x)" "z ! (?pr + 3) = i_mask ?x"
    using W [of 0] W [of 1] W [of 2] W [of 3] by (simp_all add: linked_words_def)
  have vm: "values_match z ?pr data \<longleftrightarrow> data \<in> set ?vs" for data
    by (rule values_match_ok [OF w(1) nv blk]) (use W in \<open>simp add: linked_words_def\<close>)
  let ?yes = "group_test L D ?x ?vs"
  define jmp where "jmp = (if ?yes then i_yes ?x else no j)"
  have sj: "- (2 ^ 31) \<le> jmp"
    using assms(7) j grp_last [of P j "lm j" "no j" ?vs] c(5) less.prems by (auto simp: small_jumps_def jmp_def)
  have run: "zexec L D z ?pr = (let k = sint (linked_word offs j jmp) in if k \<le> 0 then Some (- k) else zexec L D z (?pr + nat k))"
    using blk by (subst zexec.simps)
      (simp add: w w(2,3) [simplified] vm test_header_count [OF nv] test_header_offset [OF nv] test_header_short [OF nv] group_test_def jmp_def Let_def cong: if_cong)
  have ex: "exec (packet_test L D) P j = dest (packet_test L D) P jmp"
    using group_outcome [OF _ j assms(8)] c(5) less.prems unfolding jmp_def by blast
  show ?case
  proof (cases "0 < jmp")
    case True
    have t: "nat jmp \<in> E" "j < nat jmp" "nat jmp < length P"
      using emitted_targets [OF assms(1-3) less.prems _ True] unfolding jmp_def by auto
    have mono: "?pr < offs ! nat jmp" using layout_block [OF lay less.prems t(2)] t(3) by simp
    define d where "d = offs ! nat jmp - ?pr"
    have d: "0 < d" "?pr + d = offs ! nat jmp" using mono by (simp_all add: d_def)
    have "sint (linked_word offs j jmp) = int d" unfolding d_def by (rule linked_word_sint [OF True]) (use mono ob [of "nat jmp"] t(3) in simp_all)
    then have "zexec L D z ?pr = zexec L D z (offs ! nat jmp)" using run d by (simp add: Let_def)
    also have "\<dots> = map_option uminus (exec (packet_test L D) P (nat jmp))" by (rule less.hyps) (use t in simp_all)
    finally show ?thesis using ex True by (simp add: dest_def)
  next
    case False
    then have "sint (linked_word offs j jmp) = jmp" using sint_jump_word [OF sj] by (simp add: linked_word_def)
    then show ?thesis using run ex False by (simp add: Let_def)
  qed
qed

section \<open>The compiler is correct\<close>

lemma compile_program_ok:
  assumes "forward (p_insn p)" "p_insn p \<noteq> []" "length (p_insn p) < 2 ^ 15" "small_jumps (p_insn p)"
  shows "\<exists>zp. compile_program True MIN_BINARY_SEARCH p = Some zp \<and> z_output_everything zp = p_output_everything p \<and> z_safe_length zp = p_safe_length p
    \<and> (\<forall>L D. (\<forall>x \<in> set (p_insn p). L (i_offset x) (i_mask x)) \<or> shorts_agree (p_insn p) \<longrightarrow>
         zexec L D (z_prog zp) 0 = map_option uminus (exec (packet_test L D) (p_insn p) 0))"
proof -
  let ?P = "p_insn p" and ?mn = MIN_BINARY_SEARCH
  obtain w0 where w0: "count_wanted ?P 0 ((replicate (length ?P + 1) 0)[0 := 1]) = Some w0" "wanted_inv ?P (length ?P) w0"
    using count_wanted_ok [OF assms(1), of "[]" ?P] count_wanted_start by auto
  have live: "live ?P w0" by (rule wanted_live [OF assms(1) w0(2)])
  have "length w0 = length ?P + 1" using live by (simp add: live_def)
  then obtain z0 offs0 w E A C lm no vs where b: "compile_tests True ?mn ?P [0..<length ?P] w0 [] [] = Some (z0, offs0 @ [length z0])"
      "emitted True ?mn ?P w0 (length ?P) w z0 offs0 E A C lm no vs"
    using compile_tests_ok [OF assms(1) no_tests_emitted [of w0 ?P True ?mn]] by blast
  note c = emittedD [OF b(2)]
  let ?offs = "offs0 @ [length z0]"
  have E: "E \<subseteq> {..<length ?P}" using c(1) by (auto simp: claimed_def)
  have "?offs ! j = offs0 ! j" if "j \<in> E" for j using that E c(3) by (auto simp: nth_append)
  then have start: "linked True ?mn ?P ?offs E no vs 0 z0" using c(3,6) by (simp add: linked_def nth_append)
  have tg: "(0 < no j \<longrightarrow> nat (no j) < length ?P) \<and> (0 < i_yes (?P ! j) \<longrightarrow> nat (i_yes (?P ! j)) < length ?P) \<and> - (2 ^ 31) \<le> no j" if "j \<in> E" for j
  proof -
    have "no j = i_no (?P ! lm j)" "lm j < length ?P" using grp_last c(5) that E by blast+
    then have "- (2 ^ 31) \<le> no j" using assms(4) by (simp add: small_jumps_def)
    then show ?thesis using emitted_targets(3) [OF assms(1) live b(2) that] by blast
  qed
  obtain z where z: "link_tests ?offs [0..<length ?P] z0 = Some z" "linked True ?mn ?P ?offs E no vs (length ?P) z"
    using link_tests_ok [OF c(4) E _ assms(4) _ tg start] c(3) assms(3) by auto
  let ?zp = "\<lparr>z_prog = z, z_output_everything = p_output_everything p, z_safe_length = p_safe_length p, z_align_offset = p_align_offset p\<rparr>"
  have "0 \<notin> A" "w0 ! 0 = 1" using c(1) live by (auto simp: claimed_def live_def)
  then have "0 \<in> E" using c(2) assms(2) by simp
  then have z0: "zexec L D z 0 = map_option uminus (exec (packet_test L D) ?P 0)" if "(\<forall>x \<in> set ?P. L (i_offset x) (i_mask x)) \<or> shorts_agree ?P" for L D
    using zexec_ok [OF assms(1) live b(2) refl z(2) assms(3,4) that, of 0 D] c(7) by simp
  have "compile_program True ?mn p = Some ?zp" using w0(1) b(1) z(1) by (simp add: compile_program_def Let_def)
  then show ?thesis using z0 by (intro exI [of _ ?zp]) simp
qed

text \<open>The program before compression, run on the same packet by a matcher like \<open>Program::match\<close>.\<close>

definition ip_reference_match :: "program \<Rightarrow> ip_view \<Rightarrow> int option" where
  "ip_reference_match p v =
     (if 0 \<le> p_output_everything p then Some (p_output_everything p)
      else map_option uminus
        (exec (packet_test (if ip_packet_length v < sint (p_safe_length p) then ip_long (ip_packet_length v) else (\<lambda>_ _. True)) (ip_data v))
          (p_insn p) 0))"

declare zexec.simps [code] exec.simps [code]

definition alternatives :: "bool \<Rightarrow> program" where
  "alternatives short_output = \<lparr>p_insn =
      [\<lparr>i_offset = 256, i_short = False, i_mask = 0xFFFFFFFF, i_value = 1, i_no = 1, i_yes = - 1\<rparr>,
       \<lparr>i_offset = 256, i_short = short_output, i_mask = 0xFFFFFFFF, i_value = 2, i_no = 0, i_yes = - 1\<rparr>],
     p_output_everything = - 1, p_safe_length = 1000, p_align_offset = 0\<rparr>"

text \<open>C15: compression does not change what \<open>IPFilter\<close> does. Every forward program of less than 32768
  instructions is compiled, and the compressed program, with its joined tests and the search by
  bisection, sends every packet where the program sends it, provided that tests that can
  be joined treat short packets alike or the packet is not short.\<close>

theorem compressed_program_correct:
  assumes "forward (p_insn p)" "p_insn p \<noteq> []" "length (p_insn p) < 2 ^ 15" "small_jumps (p_insn p)"
  shows "\<exists>zp. compile_program True MIN_BINARY_SEARCH p = Some zp
    \<and> (\<forall>v. shorts_agree (p_insn p) \<or> sint (p_safe_length p) \<le> ip_packet_length v \<longrightarrow> ip_match zp v = ip_reference_match p v)"
proof -
  obtain zp where zp: "compile_program True MIN_BINARY_SEARCH p = Some zp" "z_output_everything zp = p_output_everything p" "z_safe_length zp = p_safe_length p"
      "\<And>L D. (\<forall>x \<in> set (p_insn p). L (i_offset x) (i_mask x)) \<or> shorts_agree (p_insn p) \<Longrightarrow>
         zexec L D (z_prog zp) 0 = map_option uminus (exec (packet_test L D) (p_insn p) 0)"
    using compile_program_ok [OF assms] by blast
  then have "ip_match zp v = ip_reference_match p v" if "shorts_agree (p_insn p) \<or> sint (p_safe_length p) \<le> ip_packet_length v" for v
    using that by (auto simp: ip_match_def ip_reference_match_def ip_length_checked_match_def)
  then show ?thesis using zp(1) by blast
qed

theorem compressed_program_correct_witness:
  "\<exists>zp. compile_program True MIN_BINARY_SEARCH (alternatives False) = Some zp \<and> (\<forall>v. ip_match zp v = ip_reference_match (alternatives False) v)"
proof -
  have "forward (p_insn (alternatives False))" "small_jumps (p_insn (alternatives False))" "shorts_agree (p_insn (alternatives False))"
    by (auto simp: alternatives_def forward_def insn_ok_def jump_ok_def small_jumps_def shorts_agree_def less_Suc_eq)
  then show ?thesis using compressed_program_correct [of "alternatives False"] by (simp add: alternatives_def)
qed

text \<open>The condition on short packets is needed. \<open>compile\<close> joins two alternatives although they treat
  short packets differently, and keeps the answer of the first for both. Here a packet without
  payload goes to output 1 by the program and to output 0 after compression.\<close>

theorem compressed_short_packet_wrong:
  "\<exists>zp v. compile_program True MIN_BINARY_SEARCH (alternatives True) = Some zp \<and> ip_reference_match (alternatives True) v = Some 1
     \<and> ip_match zp v = Some 0"
proof -
  let ?v = "\<lparr>iv_mac = (\<lambda>_. 0), iv_net = (\<lambda>_. 0), iv_transp = (\<lambda>_. 0), iv_network_length = 0, iv_network_header_length = 0\<rparr>"
  have "Option.bind (compile_program True MIN_BINARY_SEARCH (alternatives True)) (\<lambda>zp. ip_match zp ?v) = Some 0" by code_simp
  moreover have "ip_reference_match (alternatives True) ?v = Some 1" by code_simp
  ultimately show ?thesis by (auto simp: bind_eq_Some_conv)
qed

end
