(* ===== verification/Click_DRR.thy ===== *)
theory Click_DRR
  imports Click_Sched Packet_Buffer
begin

text \<open>
  Deficit round robin: \<open>DRRSched\<close> (\<open>elements/standard/drr.{cc,hh}\<close>). Every visit of an input
  adds the quantum to its deficit, and a packet leaves when the deficit covers its length.
\<close>

section \<open>Definitions\<close>

record ('s, 'p) portinfo =
  pi_head :: "'p option"
  pi_deficit :: u32
  pi_input :: 's

record ('s, 'p) drr_sched =
  drr_quantum :: u32
  drr_ports :: "('s, 'p) portinfo list"
  drr_active :: bool
  drr_next :: nat

definition new_drr :: "u32 \<Rightarrow> 's list \<Rightarrow> ('s, 'p) drr_sched" where
  "new_drr quantum inputs = \<lparr>drr_quantum = quantum,
     drr_ports = map (\<lambda>s. \<lparr>pi_head = None, pi_deficit = 0, pi_input = s\<rparr>) inputs, drr_active = True, drr_next = 0\<rparr>"

text \<open>
  \<open>DRRSched::pull\<close>. \<open>drr_take\<close> is the packet the port has to offer, with the new port and
  whether its signal was on; \<open>len\<close> is \<open>p->length()\<close>.
\<close>

definition drr_take ::
  "('s \<Rightarrow> bool) \<Rightarrow> ('s, 'p) puller \<Rightarrow> ('s, 'p) portinfo \<Rightarrow> (('s, 'p) portinfo \<times> 'p option \<times> bool) option" where
  "drr_take sig pull po =
     (case pi_head po of
        Some p \<Rightarrow> Some (po\<lparr>pi_head := None\<rparr>, Some p, True)
      | None \<Rightarrow>
          (if sig (pi_input po) then map_option (\<lambda>(s, r). (po\<lparr>pi_input := s\<rparr>, r, True)) (pull (pi_input po))
           else Some (po, None, False)))"

text \<open>The end of an iteration: the port is left, and the next one is given the quantum.\<close>

definition drr_advance :: "('s, 'p) portinfo \<Rightarrow> ('s, 'p) drr_sched \<Rightarrow> ('s, 'p) drr_sched" where
  "drr_advance po d =
     (let k = drr_next d; ports = (drr_ports d)[k := po]; k' = (if length (drr_ports d) \<le> k + 1 then 0 else k + 1)
      in d\<lparr>drr_next := k', drr_ports := ports[k' := (ports ! k')\<lparr>pi_deficit := pi_deficit (ports ! k') + drr_quantum d\<rparr>]\<rparr>)"

fun drr_loop ::
  "('s \<Rightarrow> bool) \<Rightarrow> ('s, 'p) puller \<Rightarrow> ('p \<Rightarrow> u32) \<Rightarrow> nat \<Rightarrow> bool \<Rightarrow> ('s, 'p) drr_sched \<Rightarrow>
   (('s, 'p) drr_sched \<times> 'p option) option" where
  "drr_loop sig pull len 0 signals_on d = Some (d\<lparr>drr_active := signals_on\<rparr>, None)"
| "drr_loop sig pull len (Suc j) signals_on d =
     (case drr_take sig pull (drr_ports d ! drr_next d) of
        None \<Rightarrow> None
      | Some (po, None, on) \<Rightarrow> drr_loop sig pull len j (signals_on \<or> on) (drr_advance (po\<lparr>pi_deficit := 0\<rparr>) d)
      | Some (po, Some p, on) \<Rightarrow>
          (if len p \<le> pi_deficit po
           then Some (d\<lparr>drr_ports := (drr_ports d)[drr_next d := po\<lparr>pi_deficit := pi_deficit po - len p\<rparr>],
                        drr_active := True\<rparr>, Some p)
           else drr_loop sig pull len j (signals_on \<or> on) (drr_advance (po\<lparr>pi_head := Some p\<rparr>) d)))"

definition drr_pull ::
  "('s \<Rightarrow> bool) \<Rightarrow> ('s, 'p) puller \<Rightarrow> ('p \<Rightarrow> u32) \<Rightarrow> ('s, 'p) drr_sched \<Rightarrow> (('s, 'p) drr_sched \<times> 'p option) option" where
  "drr_pull sig pull len d = drr_loop sig pull len (length (drr_ports d)) False d"

definition drr_cleanup :: "('s, 'p) drr_sched \<Rightarrow> 'p list" where
  "drr_cleanup d = List.map_filter pi_head (drr_ports d)"

section \<open>One pull\<close>

text \<open>The packets upstream of a port, the one that waits in its head included.\<close>

definition port_items :: "('s \<Rightarrow> 'p list) \<Rightarrow> ('s, 'p) portinfo \<Rightarrow> 'p list" where
  "port_items items po = (case pi_head po of None \<Rightarrow> [] | Some p \<Rightarrow> [p]) @ items (pi_input po)"

lemma port_items_deficit [simp]: "port_items items (po\<lparr>pi_deficit := x\<rparr>) = port_items items po"
  by (simp add: port_items_def)

text \<open>How often a port has been given the quantum after \<open>a\<close> moves of the scheduler among \<open>n\<close> ports.\<close>

fun quanta :: "nat \<Rightarrow> nat \<Rightarrow> nat \<Rightarrow> nat" where
  "quanta n 0 k = 0"
| "quanta n (Suc a) k = quanta n a k + (if Suc a mod n = k then 1 else 0)"

lemma quanta_closed: "k < n \<Longrightarrow> quanta n a k = a div n + (if 0 < k \<and> k \<le> a mod n then 1 else 0)"
  by (induction a) (auto simp: div_Suc mod_Suc)

lemma quanta_close: "i < n \<Longrightarrow> k < n \<Longrightarrow> quanta n a i \<le> quanta n a k + 1"
  by (simp add: quanta_closed)

text \<open>
  The books of the scheduler after \<open>a\<close> moves: \<open>f k\<close> bytes have left from port \<open>k\<close>, and the
  ports of \<open>B\<close> have never been found empty. No packet is longer than \<open>M\<close>.
\<close>

text \<open>What leaves is charged to the port it leaves from.\<close>

definition charge :: "('p \<Rightarrow> u32) \<Rightarrow> ('s, 'p) drr_sched \<Rightarrow> 'p option \<Rightarrow> (nat \<Rightarrow> nat) \<Rightarrow> nat \<Rightarrow> nat" where
  "charge len d r f = (case r of None \<Rightarrow> f | Some p \<Rightarrow> f(drr_next d := f (drr_next d) + unat (len p)))"

locale drr_input = eager_source inv items sig pull
  for inv :: "'s \<Rightarrow> bool" and items :: "'s \<Rightarrow> 'p list" and sig :: "'s \<Rightarrow> bool" and pull :: "('s, 'p) puller" +
  fixes len :: "'p \<Rightarrow> u32"
begin

lemma drr_take_correct:
  assumes "inv (pi_input po)"
  obtains po' r on where "drr_take sig pull po = Some (po', r, on)" "inv (pi_input po')" "pi_head po' = None"
    "pi_deficit po' = pi_deficit po" "port_items items po = (case r of None \<Rightarrow> [] | Some p \<Rightarrow> [p]) @ items (pi_input po')"
    "r = None \<Longrightarrow> port_items items po = []"
proof (cases "pi_head po")
  case (Some p)
  then show thesis
    using assms by (intro that [of "po\<lparr>pi_head := None\<rparr>" "Some p" True]) (simp_all add: drr_take_def port_items_def)
next
  case None
  from assms show thesis
  proof (cases rule: eager_pull)
    case (empty s')
    then show thesis
      using None by (intro that [of "if sig (pi_input po) then po\<lparr>pi_input := s'\<rparr> else po" None "sig (pi_input po)"])
        (auto simp: drr_take_def port_items_def split: if_splits)
  next
    case (ready s' p)
    then show thesis
      using None by (intro that [of "po\<lparr>pi_input := s'\<rparr>" "Some p" True]) (auto simp: drr_take_def port_items_def split: if_splits)
  qed
qed

definition port_ok :: "nat \<Rightarrow> nat \<Rightarrow> ('s, 'p) portinfo \<Rightarrow> bool" where
  "port_ok M D po \<longleftrightarrow> inv (pi_input po) \<and> (\<forall>p \<in> set (port_items items po). unat (len p) \<le> M) \<and> unat (pi_deficit po) \<le> D"

definition drr_inv :: "nat \<Rightarrow> nat \<Rightarrow> nat \<Rightarrow> nat \<Rightarrow> (nat \<Rightarrow> nat) \<Rightarrow> nat set \<Rightarrow> ('s, 'p) drr_sched \<Rightarrow> bool" where
  "drr_inv n Q M a f B d \<longleftrightarrow>
     0 < n \<and> Q + M < 2 ^ 32 \<and> length (drr_ports d) = n \<and> unat (drr_quantum d) = Q \<and> drr_next d = a mod n
     \<and> (\<forall>k < n. port_ok M (if k = drr_next d then M + Q else M) (drr_ports d ! k)
          \<and> f k + unat (pi_deficit (drr_ports d ! k)) \<le> Q * quanta n a k
          \<and> (k \<in> B \<longrightarrow> f k + unat (pi_deficit (drr_ports d ! k)) = Q * quanta n a k))"

lemma drr_inv_active [simp]: "drr_inv n Q M a f B (d\<lparr>drr_active := on\<rparr>) = drr_inv n Q M a f B d"
  by (simp add: drr_inv_def)

lemma drr_advance_inv:
  assumes "drr_inv n Q M a f B d" "port_ok M M po" "port_items items po = port_items items (drr_ports d ! drr_next d)"
    "f (drr_next d) + unat (pi_deficit po) \<le> Q * quanta n a (drr_next d)"
    "drr_next d \<in> B \<longrightarrow> f (drr_next d) + unat (pi_deficit po) = Q * quanta n a (drr_next d)"
  shows "drr_inv n Q M (Suc a) f B (drr_advance po d)"
    "k < n \<Longrightarrow> port_items items (drr_ports (drr_advance po d) ! k) = port_items items (drr_ports d ! k)"
proof -
  let ?k = "drr_next d" and ?k' = "Suc a mod n" and ?ps = "(drr_ports d)[drr_next d := po]"
  let ?d = "drr_advance po d"
  note i = assms(1) [unfolded drr_inv_def]
  have k: "?k < n" "?k' < n" using i by auto
  have k': "(if length (drr_ports d) \<le> ?k + 1 then 0 else ?k + 1) = ?k'"
  proof -
    have "length (drr_ports d) = n" "?k = a mod n" using i by blast+
    then show ?thesis using k(1) by (simp add: mod_Suc)
  qed
  have d: "?d = d\<lparr>drr_next := ?k', drr_ports := ?ps[?k' := (?ps ! ?k')\<lparr>pi_deficit := pi_deficit (?ps ! ?k') + drr_quantum d\<rparr>]\<rparr>"
    unfolding drr_advance_def Let_def k' ..
  have ps: "port_ok M M (?ps ! k) \<and> f k + unat (pi_deficit (?ps ! k)) \<le> Q * quanta n a k
      \<and> (k \<in> B \<longrightarrow> f k + unat (pi_deficit (?ps ! k)) = Q * quanta n a k)" if "k < n" for k
    using i assms(2,4,5) that by (cases "k = ?k") auto
  have "unat (pi_deficit (?ps ! ?k')) + Q < 2 ^ 32" using ps [OF k(2)] i by (simp add: port_ok_def)
  then have q: "unat (pi_deficit (?ps ! ?k') + drr_quantum d) = unat (pi_deficit (?ps ! ?k')) + Q"
    using i by (simp add: unat_word_ariths)
  have "port_ok M (if k = ?k' then M + Q else M) (drr_ports ?d ! k)
          \<and> f k + unat (pi_deficit (drr_ports ?d ! k)) \<le> Q * quanta n (Suc a) k
          \<and> (k \<in> B \<longrightarrow> f k + unat (pi_deficit (drr_ports ?d ! k)) = Q * quanta n (Suc a) k)" if "k < n" for k
  proof (cases "k = ?k'")
    case True
    then show ?thesis using ps [OF k(2)] q i k by (simp add: d port_ok_def)
  next
    case False
    then show ?thesis using ps [OF that] i by (simp add: d)
  qed
  then show "drr_inv n Q M (Suc a) f B ?d" using i k(2) unfolding drr_inv_def by (simp add: d)
  show "port_items items (drr_ports ?d ! k) = port_items items (drr_ports d ! k)" if "k < n"
    using that i k assms(3) by (cases "k = ?k"; cases "k = ?k'") (simp_all add: d nth_list_update)
qed

text \<open>A pull keeps the books.\<close>

lemma drr_loop_inv:
  assumes "drr_inv n Q M a f B d" "\<forall>k \<in> B. k < n \<longrightarrow> port_items items (drr_ports d ! k) \<noteq> []"
  shows "\<exists>d' r a'. drr_loop sig pull len j on d = Some (d', r) \<and> drr_inv n Q M a' (charge len d' r f) B d'
    \<and> (\<forall>k < n. port_items items (drr_ports d ! k) =
          (case r of None \<Rightarrow> [] | Some p \<Rightarrow> if k = drr_next d' then [p] else []) @ port_items items (drr_ports d' ! k))"
  using assms
proof (induction j arbitrary: a d on)
  case 0
  then show ?case by (auto simp: charge_def)
next
  case (Suc j)
  let ?k = "drr_next d" and ?po = "drr_ports d ! drr_next d"
  have i: "0 < n" "Q + M < 2 ^ 32" "length (drr_ports d) = n" "unat (drr_quantum d) = Q" "?k = a mod n"
    and ports: "\<And>k. k < n \<Longrightarrow> port_ok M (if k = ?k then M + Q else M) (drr_ports d ! k)
          \<and> f k + unat (pi_deficit (drr_ports d ! k)) \<le> Q * quanta n a k
          \<and> (k \<in> B \<longrightarrow> f k + unat (pi_deficit (drr_ports d ! k)) = Q * quanta n a k)"
    using Suc.prems(1) unfolding drr_inv_def by blast+
  have k: "?k < n" using i(1,5) by simp
  have po: "inv (pi_input ?po)" "\<forall>p \<in> set (port_items items ?po). unat (len p) \<le> M" "unat (pi_deficit ?po) \<le> M + Q"
    using ports [OF k] by (simp_all add: port_ok_def)
  obtain po r on' where t: "drr_take sig pull ?po = Some (po, r, on')" "inv (pi_input po)" "pi_head po = None"
    "pi_deficit po = pi_deficit ?po" "port_items items ?po = (case r of None \<Rightarrow> [] | Some p \<Rightarrow> [p]) @ items (pi_input po)"
    "r = None \<Longrightarrow> port_items items ?po = []"
    using drr_take_correct [OF po(1)] by blast
  have again: ?case if e: "drr_loop sig pull len (Suc j) on d = drr_loop sig pull len j (on \<or> on') (drr_advance po1 d)"
    and p1: "port_ok M M po1" "port_items items po1 = port_items items ?po" "?k \<in> B \<longrightarrow> pi_deficit po1 = pi_deficit ?po"
      "unat (pi_deficit po1) \<le> unat (pi_deficit ?po)" for po1
  proof -
    have "f ?k + unat (pi_deficit po1) \<le> Q * quanta n a ?k" using ports [OF k] p1(4) by linarith
    moreover have "?k \<in> B \<longrightarrow> f ?k + unat (pi_deficit po1) = Q * quanta n a ?k" using ports [OF k] p1(3) by simp
    ultimately have adv: "drr_inv n Q M (Suc a) f B (drr_advance po1 d)"
      "k < n \<Longrightarrow> port_items items (drr_ports (drr_advance po1 d) ! k) = port_items items (drr_ports d ! k)" for k
      using drr_advance_inv [OF Suc.prems(1) p1(1,2)] by blast+
    have "\<forall>k \<in> B. k < n \<longrightarrow> port_items items (drr_ports (drr_advance po1 d) ! k) \<noteq> []"
      using Suc.prems(2) adv(2) by simp
    from Suc.IH [OF adv(1) this, of "on \<or> on'"] show ?case unfolding e using adv(2) by simp
  qed
  show ?case
  proof (cases r)
    case None
    then have "?k \<notin> B" using t(6) Suc.prems(2) k by auto
    moreover have "port_ok M M (po\<lparr>pi_deficit := 0\<rparr>)" "port_items items po = port_items items ?po"
      using t(2,3,5,6) None by (simp_all add: port_ok_def port_items_def)
    ultimately show ?thesis using again [of "po\<lparr>pi_deficit := 0\<rparr>"] t(1) None by simp
  next
    case (Some p)
    have p: "unat (len p) \<le> M" "\<forall>p \<in> set (items (pi_input po)). unat (len p) \<le> M" using po(2) t(5) Some by simp_all
    show ?thesis
    proof (cases "len p \<le> pi_deficit po")
      case False
      then have "unat (pi_deficit po) \<le> M" using p(1) by (simp add: word_le_nat_alt)
      then have "port_ok M M (po\<lparr>pi_head := Some p\<rparr>)" "port_items items (po\<lparr>pi_head := Some p\<rparr>) = port_items items ?po"
        using t(2,5) p Some by (simp_all add: port_ok_def port_items_def)
      then show ?thesis using again [of "po\<lparr>pi_head := Some p\<rparr>"] t(1,4) Some False by simp
    next
      case True
      let ?po1 = "po\<lparr>pi_deficit := pi_deficit po - len p\<rparr>"
      let ?d = "d\<lparr>drr_ports := (drr_ports d)[?k := ?po1], drr_active := True\<rparr>"
      have u: "unat (pi_deficit po - len p) + unat (len p) = unat (pi_deficit ?po)"
        using True t(4) by (simp add: unat_sub word_le_nat_alt)
      have it: "port_items items po = items (pi_input po)" using t(3) by (simp add: port_items_def)
      have "port_ok M (M + Q) ?po1" using t(2) p(2) u po(3) by (simp add: port_ok_def it)
      then have "port_ok M (if k = ?k then M + Q else M) (drr_ports ?d ! k)
          \<and> charge len ?d (Some p) f k + unat (pi_deficit (drr_ports ?d ! k)) \<le> Q * quanta n a k
          \<and> (k \<in> B \<longrightarrow> charge len ?d (Some p) f k + unat (pi_deficit (drr_ports ?d ! k)) = Q * quanta n a k)" if "k < n" for k
        using ports [OF that] u i(3) k by (cases "k = ?k") (simp_all add: charge_def add.assoc add.commute [of "unat (len p)"])
      then have "drr_inv n Q M a (charge len ?d (Some p) f) B ?d" using i unfolding drr_inv_def by simp
      moreover have "drr_loop sig pull len (Suc j) on d = Some (?d, Some p)" using t(1) Some True by simp
      moreover have "\<forall>k < n. port_items items (drr_ports d ! k) =
          (if k = drr_next ?d then [p] else []) @ port_items items (drr_ports ?d ! k)"
        using t(5) Some it i(3) by (simp add: nth_list_update)
      ultimately show ?thesis by (intro exI [of _ ?d] exI [of _ "Some p"] exI [of _ a]) (simp only: option.case simp_thms)
    qed
  qed
qed

text \<open>Fairness: no port runs far ahead of a port that always had a packet.\<close>

lemma drr_inv_fair:
  assumes "drr_inv n Q M a f B d" "i < n" "j < n" "j \<in> B"
  shows "f i \<le> f j + 2 * Q + M"
proof -
  note d = assms(1) [unfolded drr_inv_def]
  have "f i \<le> Q * quanta n a i" using d assms(2) by (meson add_leE)
  also have "\<dots> \<le> Q * (quanta n a j + 1)" by (rule mult_le_mono2) (rule quanta_close [OF assms(2,3)])
  also have "Q * quanta n a j = f j + unat (pi_deficit (drr_ports d ! j))" using d assms(3,4) by simp
  moreover have "unat (pi_deficit (drr_ports d ! j)) \<le> M + Q" using d assms(3) by (auto simp: port_ok_def split: if_splits)
  ultimately show ?thesis by simp
qed

lemma drr_inv_new:
  assumes "list_all (\<lambda>s. inv s \<and> (\<forall>p \<in> set (items s). unat (len p) \<le> M)) ss" "ss \<noteq> []" "unat Q + M < 2 ^ 32"
  shows "drr_inv (length ss) (unat Q) M 0 (\<lambda>k. 0) B (new_drr Q ss)"
  using assms by (auto simp: drr_inv_def new_drr_def port_ok_def port_items_def list_all_length)

lemma drr_inv_upstream:
  assumes "drr_inv n Q M a f B d" "k < n" "inv s" "\<forall>p \<in> set (items s). unat (len p) \<le> M"
  shows "drr_inv n Q M a f B (d\<lparr>drr_ports := (drr_ports d)[k := (drr_ports d ! k)\<lparr>pi_input := s\<rparr>]\<rparr>)"
proof -
  note d = assms(1) [unfolded drr_inv_def]
  let ?d = "d\<lparr>drr_ports := (drr_ports d)[k := (drr_ports d ! k)\<lparr>pi_input := s\<rparr>]\<rparr>"
  have "port_ok M D ((drr_ports d ! k)\<lparr>pi_input := s\<rparr>)" if "port_ok M D (drr_ports d ! k)" for D
    using that assms(3,4) by (auto simp: port_ok_def port_items_def)
  then have "port_ok M (if i = drr_next d then M + Q else M) (drr_ports ?d ! i)
      \<and> pi_deficit (drr_ports ?d ! i) = pi_deficit (drr_ports d ! i)" if "i < n" for i
    using d assms(2) that by (cases "i = k") auto
  then show ?thesis using d unfolding drr_inv_def by simp
qed

lemma drr_inv_subset: "drr_inv n Q M a f B d \<Longrightarrow> C \<subseteq> B \<Longrightarrow> drr_inv n Q M a f C d"
  unfolding drr_inv_def by blast

end

section \<open>The scheduler over queues\<close>

interpretation dq: drr_input note_inv queue_list nq_empty_note queue_pull plength
  by unfold_locales

text \<open>
  The histories of a scheduler over \<open>n\<close> queues whose packets have at most \<open>M\<close> bytes: pulls, and
  packets that arrive in between. \<open>f k\<close> bytes have left from input \<open>k\<close> so far, and \<open>B\<close> are the
  inputs that had a packet at every pull.
\<close>

inductive drr_history ::
  "u32 \<Rightarrow> nat \<Rightarrow> nat \<Rightarrow> (packet note_queue, packet) drr_sched \<Rightarrow> (nat \<Rightarrow> nat) \<Rightarrow> nat set \<Rightarrow> bool" for Q M n where
  drr_start: "length qs = n \<Longrightarrow> \<forall>q \<in> set qs. note_inv q \<and> (\<forall>p \<in> set (queue_list q). plen p \<le> M) \<Longrightarrow>
    drr_history Q M n (new_drr Q qs) (\<lambda>k. 0) UNIV"
| drr_pulled: "drr_history Q M n d f B \<Longrightarrow> drr_pull nq_empty_note queue_pull plength d = Some (d', r) \<Longrightarrow>
    drr_history Q M n d' (charge plength d' r f) {k \<in> B. port_items queue_list (drr_ports d ! k) \<noteq> []}"
| drr_arrival: "drr_history Q M n d f B \<Longrightarrow> k < n \<Longrightarrow> plen p \<le> M \<Longrightarrow>
    drr_history Q M n
      (d\<lparr>drr_ports := (drr_ports d)[k := (drr_ports d ! k)\<lparr>pi_input := fst (full_push p (pi_input (drr_ports d ! k)))\<rparr>]\<rparr>) f B"

lemma plength_le: "plen p \<le> M \<Longrightarrow> unat (plength p) \<le> M"
  using unat_of_nat [of "plen p", where ?'a = 32] mod_less_eq_dividend [of "plen p" "2 ^ LENGTH(32)"] unfolding plength_def by linarith

lemma drr_history_inv:
  assumes "drr_history Q M n d f B" "0 < n" "unat Q + M < 2 ^ 32"
  shows "\<exists>a. dq.drr_inv n (unat Q) M a f B d"
  using assms(1)
proof (induction rule: drr_history.induct)
  case (drr_start qs)
  then show ?case
    using dq.drr_inv_new [of M qs Q UNIV] assms(2,3) by (fastforce simp: list_all_iff dest: plength_le)
next
  case (drr_pulled d f B d' r)
  let ?B = "{k \<in> B. port_items queue_list (drr_ports d ! k) \<noteq> []}"
  from drr_pulled.IH obtain a where "dq.drr_inv n (unat Q) M a f B d" ..
  then have i: "dq.drr_inv n (unat Q) M a f ?B d" by (rule dq.drr_inv_subset) blast
  have "\<forall>k \<in> ?B. k < n \<longrightarrow> port_items queue_list (drr_ports d ! k) \<noteq> []" by simp
  from dq.drr_loop_inv [OF i this, of "length (drr_ports d)" False] show ?case
    using drr_pulled.hyps(2) unfolding drr_pull_def by auto
next
  case (drr_arrival d f B k p)
  then obtain a where a: "dq.drr_inv n (unat Q) M a f B d" by blast
  let ?q = "pi_input (drr_ports d ! k)"
  have q: "note_inv ?q" "\<forall>p \<in> set (queue_list ?q). unat (plength p) \<le> M"
    using a drr_arrival.hyps(2) by (auto simp: dq.drr_inv_def dq.port_ok_def port_items_def)
  then have "note_inv (fst (full_push p ?q))" "\<forall>p \<in> set (queue_list (fst (full_push p ?q))). unat (plength p) \<le> M"
    using full_push_correct [OF q(1), of p] plength_le [OF drr_arrival.hyps(3)] by auto
  then show ?case using dq.drr_inv_upstream [OF a drr_arrival.hyps(2)] by blast
qed

section \<open>Properties\<close>

text \<open>
  C32: \<open>DRRSched\<close> is fair in bytes. Whatever arrives and whenever it is pulled, no input has
  ever been served more than two quanta and one packet beyond an input that had a packet at
  every pull.
\<close>

theorem drr_fair:
  assumes "drr_history Q M n d f B" "unat Q + M < 2 ^ 32" "i < n" "j < n" "j \<in> B"
  shows "f i \<le> f j + 2 * unat Q + M"
proof -
  obtain a where "dq.drr_inv n (unat Q) M a f B d" using drr_history_inv [OF assms(1)] assms(2,3) by fastforce
  then show ?thesis by (rule dq.drr_inv_fair) (use assms(3-5) in simp_all)
qed

theorem drr_fair_witness:
  "let p = \<lparr>pbuf = replicate 60 0, plen = 60\<rparr>; q = fst (full_push p (fst (full_push p (new_note_queue 4))));
       pull = drr_pull nq_empty_note queue_pull plength; d0 = new_drr 100 [q, q]
   in (case pull d0 of Some (d1, r1) \<Rightarrow> r1 = Some p \<and> charge plength d1 r1 (\<lambda>k. 0) 1 \<le> charge plength d1 r1 (\<lambda>k. 0) 0 + 260 | None \<Rightarrow> False)"
proof -
  let ?p = "\<lparr>pbuf = replicate 60 0, plen = 60\<rparr>"
  let ?q1 = "fst (full_push ?p (new_note_queue 4))"
  let ?q = "fst (full_push ?p ?q1)"
  let ?d0 = "new_drr 100 [?q, ?q] :: (packet note_queue, packet) drr_sched"
  have n: "note_inv (new_note_queue 4 :: packet note_queue)" "queue_list (new_note_queue 4 :: packet note_queue) = []"
    using new_note_queue_inv [of 4, where ?'p = packet] by simp_all
  have n1: "note_inv ?q1" "set (queue_list ?q1) \<subseteq> {?p}"
    using full_push_correct [OF n(1), of ?p] n(2) by (auto split: if_splits)
  have "note_inv ?q" "set (queue_list ?q) \<subseteq> {?p}"
    using full_push_correct [OF n1(1), of ?p] n1(2) by (auto split: if_splits)
  then have h: "\<forall>q \<in> set [?q, ?q]. note_inv q \<and> (\<forall>p \<in> set (queue_list q). plen p \<le> 60)" by auto
  have s: "drr_history 100 60 2 ?d0 (\<lambda>k. 0) UNIV" by (rule drr_start [OF _ h]) simp
  have "map_option snd (drr_pull nq_empty_note queue_pull plength ?d0) = Some (Some ?p)" by code_simp
  then obtain d1 r1 where 1: "drr_pull nq_empty_note queue_pull plength ?d0 = Some (d1, r1)" "r1 = Some ?p" by auto
  have "drr_history 100 60 2 d1 (charge plength d1 r1 (\<lambda>k. 0)) {k \<in> UNIV. port_items queue_list (drr_ports ?d0 ! k) \<noteq> []}"
    by (rule drr_pulled [OF s 1(1)])
  moreover have "port_items queue_list (drr_ports ?d0 ! 0) \<noteq> []" by code_simp
  ultimately have "charge plength d1 r1 (\<lambda>k. 0) 1 \<le> charge plength d1 r1 (\<lambda>k. 0) 0 + 2 * unat (100 :: u32) + 60"
    by (intro drr_fair) auto
  then show ?thesis unfolding Let_def 1(1) by (simp add: 1(2))
qed

end
