(* ===== verification/Click_Stride.thy ===== *)
theory Click_Stride
  imports Click_Sched "HOL-Library.Signed_Division"
begin

text \<open>
  Stride scheduling: \<open>StrideSched\<close> and \<open>StrideSwitch\<close>
  (\<open>elements/standard/stridesched.{cc,hh}\<close>, \<open>strideswitch.cc\<close>). The clients are linked into a
  list ordered by pass through \<open>_next\<close> and \<open>_pprev\<close>, a pointer to the pointer that points to the
  client. The links are kept as the code has them: a \<open>Client *\<close> is an index into \<open>_all\<close>, and a
  \<open>Client **\<close> is the address of \<open>_list\<close> or of the \<open>_next\<close> of a client. \<open>None\<close> as the result of
  an operation is a null or stray pointer that is followed, or a loop that does not end.
\<close>

section \<open>Definitions\<close>

definition PASS_GT :: "u32 \<Rightarrow> u32 \<Rightarrow> bool" where
  "PASS_GT a b \<longleftrightarrow> 0 < sint (a - b)"

definition STRIDE1 :: int where
  "STRIDE1 = 65536"

definition MAX_TICKETS :: int where
  "MAX_TICKETS = 32768"

datatype slot = List_Head | Next_Of nat

record client =
  cl_pprev :: "slot option"
  cl_next :: "nat option"
  cl_pass :: u32
  cl_stride :: u32
  cl_tickets :: int

text \<open>\<open>_all\<close> is the empty list while it is a null pointer; an element has at least one port.\<close>

record stride_sched =
  ss_all :: "client list"
  ss_list :: "nat option"

definition new_client :: client where
  "new_client = \<lparr>cl_pprev = None, cl_next = None, cl_pass = 0, cl_stride = 0, cl_tickets = -1\<rparr>"

definition new_stride :: stride_sched where
  "new_stride = \<lparr>ss_all = [], ss_list = None\<rparr>"

definition client_set_tickets :: "int \<Rightarrow> client \<Rightarrow> client" where
  "client_set_tickets t c = c\<lparr>cl_tickets := t, cl_stride := (if t \<noteq> 0 then word_of_int (STRIDE1 sdiv t) else 0)\<rparr>"

definition client_stride :: "client \<Rightarrow> client" where
  "client_stride c = c\<lparr>cl_pass := cl_pass c + cl_stride c\<rparr>"

abbreviation set_client :: "nat \<Rightarrow> (client \<Rightarrow> client) \<Rightarrow> stride_sched \<Rightarrow> stride_sched" where
  "set_client i f s \<equiv> s\<lparr>ss_all := (ss_all s)[i := f (ss_all s ! i)]\<rparr>"

text \<open>Reading and writing through a \<open>Client **\<close>.\<close>

fun read_slot :: "stride_sched \<Rightarrow> slot \<Rightarrow> nat option option" where
  "read_slot s List_Head = Some (ss_list s)"
| "read_slot s (Next_Of i) = (if i < length (ss_all s) then Some (cl_next (ss_all s ! i)) else None)"

fun write_slot :: "slot \<Rightarrow> nat option \<Rightarrow> stride_sched \<Rightarrow> stride_sched option" where
  "write_slot List_Head v s = Some (s\<lparr>ss_list := v\<rparr>)"
| "write_slot (Next_Of i) v s =
     (if i < length (ss_all s) then Some (set_client i (cl_next_update (\<lambda>_. v)) s) else None)"

text \<open>\<open>Client::insert\<close>; the loop walks \<open>_pprev\<close> along the list and loads \<open>_next\<close> on the way.\<close>

partial_function (option) insert_find :: "nat \<Rightarrow> stride_sched \<Rightarrow> stride_sched option" where
  [code]: "insert_find i s =
     do { sl \<leftarrow> cl_pprev (ss_all s ! i);
          nx \<leftarrow> read_slot s sl;
          let s1 = set_client i (cl_next_update (\<lambda>_. nx)) s;
          (case nx of
             None \<Rightarrow> Some s1
           | Some j \<Rightarrow>
               if j < length (ss_all s1)
               then if PASS_GT (cl_pass (ss_all s1 ! i)) (cl_pass (ss_all s1 ! j))
                    then insert_find i (set_client i (cl_pprev_update (\<lambda>_. Some (Next_Of j))) s1)
                    else Some s1
               else None) }"

definition set_pprev :: "nat option \<Rightarrow> slot option \<Rightarrow> stride_sched \<Rightarrow> stride_sched" where
  "set_pprev c sl s = (case c of None \<Rightarrow> s | Some j \<Rightarrow> set_client j (cl_pprev_update (\<lambda>_. sl)) s)"

definition client_insert :: "nat \<Rightarrow> stride_sched \<Rightarrow> stride_sched option" where
  "client_insert i s =
     do { s1 \<leftarrow> insert_find i (set_client i (cl_pprev_update (\<lambda>_. Some List_Head)) s);
          sl \<leftarrow> cl_pprev (ss_all s1 ! i);
          s2 \<leftarrow> write_slot sl (Some i) s1;
          Some (set_pprev (cl_next (ss_all s2 ! i)) (Some (Next_Of i)) s2) }"

definition client_remove :: "nat \<Rightarrow> stride_sched \<Rightarrow> stride_sched option" where
  "client_remove i s =
     do { sl \<leftarrow> cl_pprev (ss_all s ! i);
          let nx = cl_next (ss_all s ! i);
          s1 \<leftarrow> write_slot sl nx s;
          Some (set_pprev nx (cl_pprev (ss_all s1 ! i)) s1) }"

text \<open>What is reported to the error handler.\<close>

datatype stride_msg =
    Need_Arguments nat
  | Not_An_Integer nat
  | Negative_Argument nat
  | Tickets_Reduced nat
  | Port_Out_Of_Range int
  | Negative_Tickets
  | Value_Not_An_Integer

fun msg_is_error :: "stride_msg \<Rightarrow> bool" where
  "msg_is_error (Tickets_Reduced i) = False"
| "msg_is_error _ = True"

text \<open>
  \<open>StrideSched::configure\<close> for \<open>n\<close> clients. An argument is given as the outcome of
  \<open>IntArg().parse\<close> on it. \<open>configure_args\<close> is the loop over the arguments from the \<open>i\<close>th on,
  \<open>configure_list\<close> the loop that builds the list from the client \<open>i - 1\<close> down.
\<close>

fun configure_args :: "bool \<Rightarrow> nat \<Rightarrow> int option list \<Rightarrow> client list \<Rightarrow> client list \<times> stride_msg list" where
  "configure_args first i [] cs = (cs, [])"
| "configure_args first i (a # conf) cs =
     (case a of
        None \<Rightarrow> apsnd (Cons (Not_An_Integer i)) (configure_args first (Suc i) conf cs)
      | Some v \<Rightarrow>
          if v < 0 then apsnd (Cons (Negative_Argument i)) (configure_args first (Suc i) conf cs)
          else (let w = (if MAX_TICKETS < v then MAX_TICKETS else v);
                    c = client_set_tickets w (cs ! i);
                    r = configure_args first (Suc i) conf (cs[i := if first then client_stride c else c])
                in if MAX_TICKETS < v then apsnd (Cons (Tickets_Reduced i)) r else r))"

fun configure_list :: "nat \<Rightarrow> stride_sched \<Rightarrow> stride_sched option" where
  "configure_list 0 s = Some s"
| "configure_list (Suc i) s =
     do { s1 \<leftarrow> (if cl_tickets (ss_all s ! i) \<noteq> 0 then client_insert i s else Some s);
          configure_list i s1 }"

definition stride_configure ::
  "nat \<Rightarrow> int option list \<Rightarrow> stride_sched \<Rightarrow> (stride_sched \<times> stride_msg list \<times> int) option" where
  "stride_configure n conf s =
     (if length conf \<noteq> n then Some (s, [Need_Arguments n], -1)
      else let first = (ss_all s = []);
               cs = (if first then replicate n new_client else ss_all s);
               (cs', msgs) = configure_args first 0 conf cs
           in map_option (\<lambda>s'. (s', msgs, if list_ex msg_is_error msgs then -1 else 0))
                (configure_list n \<lparr>ss_all = cs', ss_list = None\<rparr>))"

text \<open>
  \<open>StrideSched::pull\<close>: the loop over the list until a packet is found, and the loop that puts
  the stridden clients back. The result of the first is the new state, the client at which
  the loop stopped, and the packet.
\<close>

partial_function (option) stride_loop ::
  "('s \<Rightarrow> bool) \<Rightarrow> ('s, 'p) puller \<Rightarrow> nat option \<Rightarrow> stride_sched \<Rightarrow> 's list \<Rightarrow>
   (stride_sched \<times> 's list \<times> nat option \<times> 'p option) option" where
  [code]: "stride_loop sig pull c s ins =
     (case c of
        None \<Rightarrow> Some (s, ins, None, None)
      | Some i \<Rightarrow>
          if i < length (ss_all s) \<and> i < length ins
          then (case (if sig (ins ! i) then pull (ins ! i) else Some (ins ! i, None)) of
                  None \<Rightarrow> None
                | Some (q, r) \<Rightarrow>
                    let s1 = set_client i client_stride s; c1 = cl_next (ss_all s1 ! i); ins1 = ins[i := q]
                    in if r = None then stride_loop sig pull c1 s1 ins1 else Some (s1, ins1, c1, r))
          else None)"

partial_function (option) reinsert :: "nat option \<Rightarrow> nat option \<Rightarrow> stride_sched \<Rightarrow> stride_sched option" where
  [code]: "reinsert stridden c s =
     (if stridden = c then Some s
      else case stridden of
             None \<Rightarrow> None
           | Some i \<Rightarrow>
               if i < length (ss_all s)
               then do { let nx = cl_next (ss_all s ! i);
                         s1 \<leftarrow> client_insert i s;
                         reinsert nx c s1 }
               else None)"

definition stride_pull ::
  "('s \<Rightarrow> bool) \<Rightarrow> ('s, 'p) puller \<Rightarrow> stride_sched \<times> 's list \<Rightarrow> ((stride_sched \<times> 's list) \<times> 'p option) option" where
  "stride_pull sig pull = (\<lambda>(s, ins).
     do { (s1, ins1, c, p) \<leftarrow> stride_loop sig pull (ss_list s) s ins;
          s2 \<leftarrow> reinsert (ss_list s) c (set_pprev c (Some List_Head) (s1\<lparr>ss_list := c\<rparr>));
          Some ((s2, ins1), p) })"

text \<open>\<open>StrideSwitch::push\<close>: the output port the packet leaves by, none when it is killed.\<close>

definition switch_push :: "stride_sched \<Rightarrow> (stride_sched \<times> nat option) option" where
  "switch_push s =
     (case ss_list s of
        None \<Rightarrow> Some (s, None)
      | Some i \<Rightarrow>
          do { nx \<leftarrow> read_slot s (Next_Of i);
               let s1 = set_pprev nx (Some List_Head) (s\<lparr>ss_list := nx\<rparr>);
               s2 \<leftarrow> client_insert i (set_client i client_stride s1);
               Some (s2, Some i) })"

text \<open>The handlers. The guard compares the port as an unsigned number.\<close>

definition port_in_range :: "int \<Rightarrow> stride_sched \<Rightarrow> bool" where
  "port_in_range port s \<longleftrightarrow> (word_of_int port :: u32) < of_nat (length (ss_all s))"

definition tickets :: "int \<Rightarrow> stride_sched \<Rightarrow> int" where
  "tickets port s = (if port_in_range port s then cl_tickets (ss_all s ! nat port) else -1)"

text \<open>The end of \<open>set_tickets\<close>: the client \<open>i\<close>, which had \<open>old\<close> tickets, leaves or enters the list.\<close>

definition relink :: "nat \<Rightarrow> int \<Rightarrow> stride_sched \<Rightarrow> stride_sched option" where
  "relink i old s =
     (let c = ss_all s ! i; t = cl_tickets c
      in if t = 0 \<and> old \<noteq> 0 then client_remove i s
         else if t \<noteq> 0 \<and> old = 0
         then client_insert i
                (set_client i (cl_pass_update (\<lambda>_. case ss_list s of None \<Rightarrow> 0
                   | Some h \<Rightarrow> cl_pass (ss_all s ! h) + cl_stride c)) s)
         else Some s)"

definition set_tickets :: "int \<Rightarrow> int \<Rightarrow> stride_sched \<Rightarrow> (stride_sched \<times> stride_msg list \<times> int) option" where
  "set_tickets port t s =
     (if \<not> port_in_range port s then Some (s, [Port_Out_Of_Range port], -1)
      else if t < 0 then Some (s, [Negative_Tickets], -1)
      else let i = nat port;
               msgs = (if MAX_TICKETS < t then [Tickets_Reduced i] else []);
               t' = (if MAX_TICKETS < t then MAX_TICKETS else t);
               old = cl_tickets (ss_all s ! i)
           in map_option (\<lambda>s'. (s', msgs, 0)) (relink i old (set_client i (client_set_tickets t') s)))"

definition write_tickets_handler ::
  "int option \<Rightarrow> int \<Rightarrow> stride_sched \<Rightarrow> (stride_sched \<times> stride_msg list \<times> int) option" where
  "write_tickets_handler arg port s =
     (case arg of None \<Rightarrow> Some (s, [Value_Not_An_Integer], -1) | Some t \<Rightarrow> set_tickets port t s)"

definition read_tickets_handler :: "int \<Rightarrow> stride_sched \<Rightarrow> string" where
  "read_tickets_handler port s = to_string_int (tickets port s)"

fun config_tail :: "client list \<Rightarrow> string" where
  "config_tail [] = []"
| "config_tail (c # cs) = '', '' @ to_string_int (cl_tickets c) @ config_tail cs"

definition stride_read_handler :: "stride_sched \<Rightarrow> string" where
  "stride_read_handler s =
     (case ss_all s of [] \<Rightarrow> [] | c # cs \<Rightarrow> to_string_int (cl_tickets c) @ config_tail cs)"

section \<open>The linked list\<close>

text \<open>
  \<open>lseg cs sl v xs w\<close>: from the pointer \<open>v\<close>, stored at the address \<open>sl\<close>, the clients \<open>xs\<close> are
  linked in both directions, and the last of them points to \<open>w\<close>.
\<close>

fun lseg :: "client list \<Rightarrow> slot \<Rightarrow> nat option \<Rightarrow> nat list \<Rightarrow> nat option \<Rightarrow> bool" where
  "lseg cs sl v [] w \<longleftrightarrow> v = w"
| "lseg cs sl v (i # xs) w \<longleftrightarrow>
     v = Some i \<and> i < length cs \<and> cl_pprev (cs ! i) = Some sl \<and> lseg cs (Next_Of i) (cl_next (cs ! i)) xs w"

definition slot_end :: "slot \<Rightarrow> nat list \<Rightarrow> slot" where
  "slot_end sl xs = (if xs = [] then sl else Next_Of (last xs))"

definition head_of :: "nat list \<Rightarrow> nat option" where
  "head_of xs = (case xs of [] \<Rightarrow> None | i # _ \<Rightarrow> Some i)"

definition linked :: "stride_sched \<Rightarrow> nat list \<Rightarrow> bool" where
  "linked s xs \<longleftrightarrow> lseg (ss_all s) List_Head (ss_list s) xs None \<and> distinct xs"

definition client_data :: "client \<Rightarrow> u32 \<times> u32 \<times> int" where
  "client_data c = (cl_pass c, cl_stride c, cl_tickets c)"

lemma slot_end_simps [simp]: "slot_end sl [] = sl" "slot_end sl (i # xs) = slot_end (Next_Of i) xs"
  by (simp_all add: slot_end_def)

lemma head_of_simps [simp]: "head_of [] = None" "head_of (i # xs) = Some i"
  by (simp_all add: head_of_def)

lemma client_data_links [simp]:
  "client_data (c\<lparr>cl_next := n\<rparr>) = client_data c" "client_data (c\<lparr>cl_pprev := pp\<rparr>) = client_data c"
  by (simp_all add: client_data_def)

lemma client_data_eq [simp]:
  "client_data c = client_data c' \<longleftrightarrow> cl_pass c = cl_pass c' \<and> cl_stride c = cl_stride c' \<and> cl_tickets c = cl_tickets c'"
  by (simp add: client_data_def)

lemma nth_update_if: "xs[i := x] ! j = (if i = j \<and> i < length xs then x else xs ! j)"
  by (cases "i < length xs") (auto simp: not_less list_update_beyond)

lemma map_client_data_update: "client_data c = client_data (cs ! i) \<Longrightarrow> map client_data (cs[i := c]) = map client_data cs"
  by (rule nth_equalityI) (auto simp: nth_update_if)

lemma lseg_append [simp]:
  "lseg cs sl v (xs @ ys) w \<longleftrightarrow> (\<exists>u. lseg cs sl v xs u \<and> lseg cs (slot_end sl xs) u ys w)"
  by (induction xs arbitrary: sl v) auto

lemma lseg_bound: "lseg cs sl v xs w \<Longrightarrow> i \<in> set xs \<Longrightarrow> i < length cs"
  by (induction xs arbitrary: sl v) auto

lemma lseg_None [simp]: "lseg cs sl None xs w \<longleftrightarrow> xs = [] \<and> w = None"
  by (cases xs) auto

lemma lseg_head: "lseg cs sl v xs None \<Longrightarrow> v = head_of xs"
  by (cases xs) auto

lemma lseg_frame:
  assumes "lseg cs sl v xs w" "length cs' = length cs"
    "\<And>j. j \<in> set xs \<Longrightarrow> cl_pprev (cs' ! j) = cl_pprev (cs ! j) \<and> cl_next (cs' ! j) = cl_next (cs ! j)"
  shows "lseg cs' sl v xs w"
  using assms by (induction xs arbitrary: sl v) auto

lemma lseg_update [simp]: "i \<notin> set xs \<Longrightarrow> lseg (cs[i := c]) sl v xs w \<longleftrightarrow> lseg cs sl v xs w"
  by (induction xs arbitrary: sl v) auto

lemma lseg_update_data:
  "cl_pprev c = cl_pprev (cs ! i) \<Longrightarrow> cl_next c = cl_next (cs ! i) \<Longrightarrow> lseg (cs[i := c]) sl v xs w \<longleftrightarrow> lseg cs sl v xs w"
  by (induction xs arbitrary: sl v) (auto simp: nth_update_if)

text \<open>The end and the start of a segment are redirected.\<close>

lemma lseg_redirect_end:
  assumes "lseg cs sl v (xs @ [k]) u" "distinct (xs @ [k])"
  shows "lseg (cs[k := (cs ! k)\<lparr>cl_next := w\<rparr>]) sl v (xs @ [k]) w"
  using assms by auto

lemma lseg_redirect_start:
  assumes "lseg cs sl v (j # xs) w" "j \<notin> set xs"
  shows "lseg (cs[j := (cs ! j)\<lparr>cl_pprev := Some sl'\<rparr>]) sl' v (j # xs) w"
  using assms by auto

text \<open>What \<open>*sl = v\<close> does to the state, where \<open>sl\<close> ends the segment \<open>xs\<close> of the list.\<close>

lemma write_slot_end:
  assumes "lseg (ss_all s) List_Head (ss_list s) xs u" "distinct xs"
  obtains s' where "write_slot (slot_end List_Head xs) v s = Some s'"
    "lseg (ss_all s') List_Head (ss_list s') xs v" "length (ss_all s') = length (ss_all s)"
    "map client_data (ss_all s') = map client_data (ss_all s)"
    "\<forall>j. j \<notin> set xs \<longrightarrow> ss_all s' ! j = ss_all s ! j"
proof (cases xs rule: rev_cases)
  case Nil
  then show thesis by (intro that [of "s\<lparr>ss_list := v\<rparr>"]) simp_all
next
  case (snoc ys k)
  have k: "k < length (ss_all s)" using lseg_bound [OF assms(1), of k] snoc by simp
  let ?s = "set_client k (cl_next_update (\<lambda>_. v)) s"
  have "write_slot (slot_end List_Head xs) v s = Some ?s" using k snoc by (simp add: slot_end_def)
  moreover have "lseg (ss_all ?s) List_Head (ss_list ?s) xs v"
    using lseg_redirect_end [of "ss_all s" List_Head "ss_list s" ys k u v] assms snoc by simp
  moreover have "map client_data (ss_all ?s) = map client_data (ss_all s)"
    by (simp add: map_client_data_update)
  moreover have "\<forall>j. j \<notin> set xs \<longrightarrow> ss_all ?s ! j = ss_all s ! j" using snoc by (auto simp: nth_update_if)
  ultimately show thesis by (intro that [of ?s]) simp_all
qed

lemma set_pprev_start:
  assumes "lseg (ss_all s) sl v xs None" "distinct xs"
  shows "lseg (ss_all (set_pprev v (Some sl') s)) sl' v xs None" "ss_list (set_pprev v (Some sl') s) = ss_list s"
    "length (ss_all (set_pprev v (Some sl') s)) = length (ss_all s)"
    "map client_data (ss_all (set_pprev v (Some sl') s)) = map client_data (ss_all s)"
    "j \<notin> set xs \<Longrightarrow> ss_all (set_pprev v (Some sl') s) ! j = ss_all s ! j"
    "cl_next (ss_all (set_pprev v (Some sl') s) ! j) = cl_next (ss_all s ! j)"
proof -
  have "lseg (ss_all (set_pprev v (Some sl') s)) sl' v xs None \<and> ss_list (set_pprev v (Some sl') s) = ss_list s
    \<and> length (ss_all (set_pprev v (Some sl') s)) = length (ss_all s)
    \<and> map client_data (ss_all (set_pprev v (Some sl') s)) = map client_data (ss_all s)
    \<and> (j \<notin> set xs \<longrightarrow> ss_all (set_pprev v (Some sl') s) ! j = ss_all s ! j)
    \<and> cl_next (ss_all (set_pprev v (Some sl') s) ! j) = cl_next (ss_all s ! j)"
  proof (cases xs)
    case Nil
    then show ?thesis using assms by (simp add: set_pprev_def)
  next
    case (Cons i ys)
    then have v: "v = Some i" "i < length (ss_all s)" using assms(1) by simp_all
    show ?thesis
      using assms Cons v lseg_redirect_start [of "ss_all s" sl v i ys None sl']
      by (auto simp: set_pprev_def nth_update_if map_client_data_update)
  qed
  then show "lseg (ss_all (set_pprev v (Some sl') s)) sl' v xs None" "ss_list (set_pprev v (Some sl') s) = ss_list s"
    "length (ss_all (set_pprev v (Some sl') s)) = length (ss_all s)"
    "map client_data (ss_all (set_pprev v (Some sl') s)) = map client_data (ss_all s)"
    "j \<notin> set xs \<Longrightarrow> ss_all (set_pprev v (Some sl') s) ! j = ss_all s ! j"
    "cl_next (ss_all (set_pprev v (Some sl') s) ! j) = cl_next (ss_all s ! j)"
    by simp_all
qed

section \<open>Insertion and removal\<close>

text \<open>The list that \<open>Client::insert\<close> is to produce: the client before the first it does not exceed.\<close>

definition queue_insert :: "client list \<Rightarrow> nat \<Rightarrow> nat list \<Rightarrow> nat list" where
  "queue_insert cs i xs =
     takeWhile (\<lambda>j. PASS_GT (cl_pass (cs ! i)) (cl_pass (cs ! j))) xs
     @ i # dropWhile (\<lambda>j. PASS_GT (cl_pass (cs ! i)) (cl_pass (cs ! j))) xs"

lemma mset_queue_insert [simp]: "mset (queue_insert cs i xs) = add_mset i (mset xs)"
  by (simp add: queue_insert_def) (metis mset_append takeWhile_dropWhile_id)

lemma set_queue_insert [simp]: "set (queue_insert cs i xs) = insert i (set xs)"
  by (metis mset_queue_insert set_mset_add_mset_insert set_mset_mset)

lemma distinct_queue_insert [simp]: "distinct (queue_insert cs i xs) \<longleftrightarrow> i \<notin> set xs \<and> distinct xs"
proof -
  have "distinct (queue_insert cs i xs) \<longleftrightarrow> distinct (i # xs)"
    by (rule mset_eq_imp_distinct_iff) simp
  then show ?thesis by simp
qed

lemma data_pass: "map client_data cs' = map client_data cs \<Longrightarrow> i < length cs \<Longrightarrow>
    cl_pass (cs' ! i) = cl_pass (cs ! i) \<and> cl_stride (cs' ! i) = cl_stride (cs ! i) \<and> cl_tickets (cs' ! i) = cl_tickets (cs ! i)"
  by (metis client_data_eq length_map nth_map)

lemma queue_insert_data:
  assumes "map client_data cs' = map client_data cs" "i < length cs" "\<forall>j \<in> set xs. j < length cs"
  shows "queue_insert cs' i xs = queue_insert cs i xs"
proof -
  have "takeWhile (\<lambda>j. PASS_GT (cl_pass (cs' ! i)) (cl_pass (cs' ! j))) xs
      = takeWhile (\<lambda>j. PASS_GT (cl_pass (cs ! i)) (cl_pass (cs ! j))) xs"
    "dropWhile (\<lambda>j. PASS_GT (cl_pass (cs' ! i)) (cl_pass (cs' ! j))) xs
      = dropWhile (\<lambda>j. PASS_GT (cl_pass (cs ! i)) (cl_pass (cs ! j))) xs"
    using assms data_pass [OF assms(1)] by (auto intro!: takeWhile_cong dropWhile_cong)
  then show ?thesis by (simp add: queue_insert_def)
qed

lemma pprev_unchanged: "cl_pprev c = Some sl \<Longrightarrow> c\<lparr>cl_pprev := Some sl, cl_next := n\<rparr> = c\<lparr>cl_next := n\<rparr>"
  by (cases c) simp

text \<open>The walk stops at the right place, and has changed the two links of the client only.\<close>

lemma insert_find_walk:
  assumes "lseg (ss_all s) sl v xs None" "i \<notin> set xs" "i < length (ss_all s)"
    "cl_pprev (ss_all s ! i) = Some sl" "read_slot s sl = Some v" "sl \<noteq> Next_Of i"
  shows "insert_find i s = Some (set_client i (\<lambda>c. c\<lparr>
      cl_pprev := Some (slot_end sl (takeWhile (\<lambda>j. PASS_GT (cl_pass (ss_all s ! i)) (cl_pass (ss_all s ! j))) xs)),
      cl_next := head_of (dropWhile (\<lambda>j. PASS_GT (cl_pass (ss_all s ! i)) (cl_pass (ss_all s ! j))) xs)\<rparr>) s)"
  using assms
proof (induction xs arbitrary: s sl v)
  case Nil
  then show ?case by (subst insert_find.simps) (simp add: pprev_unchanged)
next
  case (Cons j xs)
  let ?s = "set_client i (\<lambda>c. c\<lparr>cl_next := Some j, cl_pprev := Some (Next_Of j)\<rparr>) s"
  have j: "v = Some j" "j < length (ss_all s)" "j \<noteq> i" "i \<notin> set xs"
    "lseg (ss_all s) (Next_Of j) (cl_next (ss_all s ! j)) xs None"
    using Cons.prems by auto
  have IH: "insert_find i ?s = Some (set_client i (\<lambda>c. c\<lparr>
      cl_pprev := Some (slot_end (Next_Of j) (takeWhile (\<lambda>k. PASS_GT (cl_pass (ss_all ?s ! i)) (cl_pass (ss_all ?s ! k))) xs)),
      cl_next := head_of (dropWhile (\<lambda>k. PASS_GT (cl_pass (ss_all ?s ! i)) (cl_pass (ss_all ?s ! k))) xs)\<rparr>) ?s)"
    using j Cons.prems(3) by (intro Cons.IH [of ?s "Next_Of j" "cl_next (ss_all s ! j)"]) simp_all
  have eq: "cl_pass (ss_all ?s ! k) = cl_pass (ss_all s ! k)" for k by (simp add: nth_update_if)
  show ?case
  proof (cases "PASS_GT (cl_pass (ss_all s ! i)) (cl_pass (ss_all s ! j))")
    case True
    then have "insert_find i s = insert_find i ?s"
      using j Cons.prems(3-5) by (subst insert_find.simps) simp
    then show ?thesis using True Cons.prems(3) by (simp only: IH eq) simp
  next
    case False
    then show ?thesis
      using j Cons.prems(3-5) by (subst insert_find.simps) (simp add: pprev_unchanged)
  qed
qed

lemma client_insert_linked:
  assumes "linked s xs" "i \<notin> set xs" "i < length (ss_all s)"
  obtains s' where "client_insert i s = Some s'" "linked s' (queue_insert (ss_all s) i xs)"
    "map client_data (ss_all s') = map client_data (ss_all s)"
    "\<And>j. j \<notin> set xs \<Longrightarrow> j \<noteq> i \<Longrightarrow> ss_all s' ! j = ss_all s ! j"
proof -
  let ?P = "\<lambda>j. PASS_GT (cl_pass (ss_all s ! i)) (cl_pass (ss_all s ! j))"
  obtain ys zs where q: "takeWhile ?P xs = ys" "dropWhile ?P xs = zs" "xs = ys @ zs" by (metis takeWhile_dropWhile_id)
  let ?s1 = "set_client i (\<lambda>c. c\<lparr>cl_pprev := Some (slot_end List_Head ys), cl_next := head_of zs\<rparr>) s"
  have d: "distinct (ys @ zs)" "i \<notin> set (ys @ zs)" and l: "lseg (ss_all s) List_Head (ss_list s) xs None"
    using assms(1,2) by (simp_all add: linked_def q(3))
  have dy: "distinct ys" and dz: "distinct zs" and yz: "\<And>j. j \<in> set zs \<Longrightarrow> j \<notin> set ys" "\<And>j. j \<in> set ys \<Longrightarrow> j \<notin> set zs"
    using d(1) unfolding distinct_append by blast+
  let ?s0 = "set_client i (cl_pprev_update (\<lambda>_. Some List_Head)) s"
  have eq: "cl_pass (ss_all ?s0 ! k) = cl_pass (ss_all s ! k)" for k by (simp add: nth_update_if)
  have w: "insert_find i ?s0 = Some ?s1"
    using insert_find_walk [of ?s0 List_Head "ss_list s" xs i, unfolded eq q(1,2)] l assms(2,3) by simp
  have "lseg (ss_all ?s1) List_Head (ss_list ?s1) (ys @ zs) None" using l assms(2) q(3) by simp
  then obtain u where u: "lseg (ss_all ?s1) List_Head (ss_list ?s1) ys u" "lseg (ss_all ?s1) (slot_end List_Head ys) u zs None"
    by (auto simp only: lseg_append)
  then have h: "u = head_of zs" using lseg_head by blast
  obtain s2 where s2: "write_slot (slot_end List_Head ys) (Some i) ?s1 = Some s2"
    "lseg (ss_all s2) List_Head (ss_list s2) ys (Some i)" "length (ss_all s2) = length (ss_all ?s1)"
    "map client_data (ss_all s2) = map client_data (ss_all ?s1)" "\<forall>j. j \<notin> set ys \<longrightarrow> ss_all s2 ! j = ss_all ?s1 ! j"
    by (rule write_slot_end [OF u(1) dy, of "Some i"], rule that)
  have iz: "i \<notin> set ys" "i \<notin> set zs" using d(2) unfolding set_append by blast+
  then have i2: "ss_all s2 ! i = ss_all ?s1 ! i" "i < length (ss_all s2)" using s2(3) s2(5) [rule_format, of i] assms(3) by simp_all
  have "lseg (ss_all s2) (slot_end List_Head ys) u zs None"
    by (rule lseg_frame [OF u(2) s2(3)]) (metis s2(5) yz(1))
  note s3 = set_pprev_start [where sl' = "Next_Of i", OF this dz]
  let ?s3 = "set_pprev u (Some (Next_Of i)) s2"
  have c: "client_insert i s = Some ?s3"
    using w s2(1) i2 h assms(3) by (simp add: client_insert_def)
  have i3: "ss_all ?s3 ! i = ss_all ?s1 ! i" using s3(5) [OF iz(2)] i2(1) by simp
  have "lseg (ss_all ?s3) List_Head (ss_list ?s3) ys (Some i)"
    unfolding s3(2) by (rule lseg_frame [OF s2(2) s3(3)]) (metis s3(5) yz(2))
  moreover have "lseg (ss_all ?s3) (slot_end List_Head ys) (Some i) (i # zs) None"
    using s3(1,3) i2(2) i3 h assms(3) by simp
  ultimately have "lseg (ss_all ?s3) List_Head (ss_list ?s3) (queue_insert (ss_all s) i xs) None"
    unfolding queue_insert_def q(1,2) lseg_append by blast
  then have "linked ?s3 (queue_insert (ss_all s) i xs)"
    using assms(1,2) by (simp add: linked_def)
  moreover have "map client_data (ss_all ?s3) = map client_data (ss_all s)"
    using s3(4) s2(4) by (simp add: map_client_data_update)
  moreover have "ss_all ?s3 ! j = ss_all s ! j" if "j \<notin> set xs" "j \<noteq> i" for j
    using s3(5) [of j] s2(5) [rule_format, of j] that q(3) by simp
  ultimately show thesis by (rule that [OF c])
qed

lemma client_remove_linked:
  assumes "linked s (ys @ i # zs)"
  obtains s' where "client_remove i s = Some s'" "linked s' (ys @ zs)"
    "map client_data (ss_all s') = map client_data (ss_all s)"
proof -
  have d: "distinct (ys @ i # zs)" and "lseg (ss_all s) List_Head (ss_list s) (ys @ i # zs) None"
    using assms by (simp_all add: linked_def)
  then have u: "lseg (ss_all s) List_Head (ss_list s) ys (Some i)" "cl_pprev (ss_all s ! i) = Some (slot_end List_Head ys)"
    "lseg (ss_all s) (Next_Of i) (cl_next (ss_all s ! i)) zs None" by auto
  have dy: "distinct ys" and dz: "distinct zs" and yz: "\<And>j. j \<in> set zs \<Longrightarrow> j \<notin> set ys" "\<And>j. j \<in> set ys \<Longrightarrow> j \<notin> set zs"
    using d by auto
  let ?nx = "cl_next (ss_all s ! i)" and ?sl = "slot_end List_Head ys"
  obtain s1 where s1: "write_slot ?sl ?nx s = Some s1" "lseg (ss_all s1) List_Head (ss_list s1) ys ?nx"
    "length (ss_all s1) = length (ss_all s)" "map client_data (ss_all s1) = map client_data (ss_all s)"
    "\<forall>j. j \<notin> set ys \<longrightarrow> ss_all s1 ! j = ss_all s ! j"
    by (rule write_slot_end [OF u(1) dy, of ?nx], rule that)
  have "lseg (ss_all s1) (Next_Of i) ?nx zs None"
    by (rule lseg_frame [OF u(3) s1(3)]) (simp add: s1(5) yz(1))
  note s2 = set_pprev_start [where sl' = ?sl, OF this dz]
  let ?s2 = "set_pprev ?nx (Some ?sl) s1"
  have "client_remove i s = Some ?s2"
    using u(2) s1(1) s1(5) [rule_format, of i] d by (simp add: client_remove_def)
  moreover have "lseg (ss_all ?s2) List_Head (ss_list ?s2) ys ?nx"
    unfolding s2(2) by (rule lseg_frame [OF s1(2) s2(3)]) (simp add: s2(5) yz(2))
  then have "linked ?s2 (ys @ zs)" using s2(1) d by (auto simp: linked_def)
  ultimately show thesis using that s2(4) s1(4) by simp
qed

section \<open>Pulling\<close>

text \<open>The clients of \<open>ys\<close> have taken a stride each.\<close>

definition strided :: "nat list \<Rightarrow> client list \<Rightarrow> client list" where
  "strided ys cs = fold (\<lambda>i cs. cs[i := client_stride (cs ! i)]) ys cs"

lemma strided_simps [simp]:
  "strided [] cs = cs" "strided (i # ys) cs = strided ys (cs[i := client_stride (cs ! i)])"
  by (simp_all add: strided_def)

lemma client_stride_links [simp]:
  "cl_pprev (client_stride c) = cl_pprev c" "cl_next (client_stride c) = cl_next c"
  "cl_stride (client_stride c) = cl_stride c" "cl_tickets (client_stride c) = cl_tickets c"
  "cl_pass (client_stride c) = cl_pass c + cl_stride c"
  by (simp_all add: client_stride_def)

lemma length_strided [simp]: "length (strided ys cs) = length cs"
  by (induction ys arbitrary: cs) simp_all

lemma nth_strided:
  "distinct ys \<Longrightarrow> j < length cs \<Longrightarrow> strided ys cs ! j = (if j \<in> set ys then client_stride (cs ! j) else cs ! j)"
  by (induction ys arbitrary: cs) (auto simp: nth_update_if)

lemma lseg_strided [simp]: "lseg (strided ys cs) sl v xs w \<longleftrightarrow> lseg cs sl v xs w"
  by (induction ys arbitrary: cs) (simp_all add: lseg_update_data)

text \<open>
  What the walk of a pull along the clients \<open>ys @ zs\<close> has done when it stopped before \<open>zs\<close>:
  the inputs of all clients but the last of \<open>ys\<close> were empty, and that one gave the packet.
\<close>

definition walk_outcome ::
  "('s \<Rightarrow> 'p list) \<Rightarrow> 's list \<Rightarrow> 's list \<Rightarrow> 'p option \<Rightarrow> nat list \<Rightarrow> nat list \<Rightarrow> bool" where
  "walk_outcome items ins ins' r ys zs \<longleftrightarrow>
     (case r of
        None \<Rightarrow> zs = [] \<and> (\<forall>i \<in> set ys. items (ins ! i) = []) \<and> map items ins' = map items ins
      | Some p \<Rightarrow> \<exists>us i. ys = us @ [i] \<and> (\<forall>j \<in> set us. items (ins ! j) = []) \<and> items (ins ! i) = p # items (ins' ! i)
          \<and> map items ins' = (map items ins)[i := items (ins' ! i)])"

lemma walk_outcome_Cons:
  assumes "walk_outcome items (ins[i := q]) ins' r ys zs" "items (ins ! i) = []" "items q = []"
  shows "walk_outcome items ins ins' r (i # ys) zs"
proof -
  have m: "map items (ins[i := q]) = map items ins"
    by (rule nth_equalityI) (auto simp: nth_update_if assms(2,3))
  have n: "items (ins[i := q] ! j) = items (ins ! j)" for j using assms(2,3) by (auto simp: nth_update_if)
  from assms(1) show ?thesis
    unfolding walk_outcome_def m n using assms(2)
    by (auto split: option.splits)
qed

context eager_source
begin

lemma stride_loop_walk:
  assumes "lseg (ss_all s) sl v xs None" "distinct xs" "list_all inv ins" "length ins = length (ss_all s)"
  shows "\<exists>ys zs ins' r. xs = ys @ zs \<and> stride_loop sig pull v s ins = Some (s\<lparr>ss_all := strided ys (ss_all s)\<rparr>, ins', head_of zs, r)
    \<and> list_all inv ins' \<and> length ins' = length ins \<and> walk_outcome items ins ins' r ys zs"
  using assms
proof (induction xs arbitrary: s sl v ins)
  case Nil
  then show ?case by (subst stride_loop.simps) (simp add: walk_outcome_def)
next
  case (Cons i xs)
  let ?s = "set_client i client_stride s"
  have i: "v = Some i" "i < length (ss_all s)" "i \<notin> set xs" "distinct xs" "lseg (ss_all s) (Next_Of i) (cl_next (ss_all s ! i)) xs None"
    using Cons.prems by auto
  have "inv (ins ! i)" using Cons.prems(3,4) i(2) by (simp add: list_all_length)
  then show ?case
  proof (cases rule: eager_pull)
    case (empty q)
    have ins: "list_all inv (ins[i := q])" using empty Cons.prems(3) by (simp add: list_all_update)
    have l: "lseg (ss_all ?s) (Next_Of i) (cl_next (ss_all ?s ! i)) xs None" using i by simp
    obtain ys zs ins' r where IH: "xs = ys @ zs"
      "stride_loop sig pull (cl_next (ss_all ?s ! i)) ?s (ins[i := q]) = Some (?s\<lparr>ss_all := strided ys (ss_all ?s)\<rparr>, ins', head_of zs, r)"
      "list_all inv ins'" "length ins' = length (ins[i := q])" "walk_outcome items (ins[i := q]) ins' r ys zs"
      using Cons.IH [OF l i(4) ins] Cons.prems(4) by auto
    have "stride_loop sig pull v s ins = stride_loop sig pull (cl_next (ss_all ?s ! i)) ?s (ins[i := q])"
      using i empty(1) Cons.prems(4) by (subst stride_loop.simps) (simp add: Let_def)
    then show ?thesis
      using IH walk_outcome_Cons [OF IH(5) empty(3,4)] by (intro exI [of _ "i # ys"] exI [of _ zs]) simp
  next
    case (ready q p)
    have "stride_loop sig pull v s ins = Some (?s, ins[i := q], head_of xs, Some p)"
      using i ready(1) Cons.prems(4) lseg_head [OF i(5)] by (subst stride_loop.simps) (simp add: Let_def)
    moreover have "walk_outcome items ins (ins[i := q]) (Some p) [i] xs"
      using i(2) Cons.prems(4) ready(3) by (auto simp: walk_outcome_def map_update)
    ultimately show ?thesis
      using ready(2) Cons.prems(3) by (intro exI [of _ "[i]"] exI [of _ xs]) (simp add: list_all_update)
  qed
qed

end

text \<open>The pointers from client to client, in one direction only.\<close>

fun npath :: "client list \<Rightarrow> nat option \<Rightarrow> nat list \<Rightarrow> nat option \<Rightarrow> bool" where
  "npath cs v [] w \<longleftrightarrow> v = w"
| "npath cs v (i # xs) w \<longleftrightarrow> v = Some i \<and> i < length cs \<and> npath cs (cl_next (cs ! i)) xs w"

lemma lseg_npath: "lseg cs sl v xs w \<Longrightarrow> npath cs v xs w"
  by (induction xs arbitrary: sl v) auto

lemma npath_bound: "npath cs v xs w \<Longrightarrow> j \<in> set xs \<Longrightarrow> j < length cs"
  by (induction xs arbitrary: v) auto

lemma linked_bound: "linked s xs \<Longrightarrow> j \<in> set xs \<Longrightarrow> j < length (ss_all s)"
  by (auto simp: linked_def dest: lseg_bound)

lemma npath_frame:
  assumes "npath cs v xs w" "length cs' = length cs" "\<And>j. j \<in> set xs \<Longrightarrow> cl_next (cs' ! j) = cl_next (cs ! j)"
  shows "npath cs' v xs w"
  using assms by (induction xs arbitrary: v) auto

definition queue_reinsert :: "client list \<Rightarrow> nat list \<Rightarrow> nat list \<Rightarrow> nat list" where
  "queue_reinsert cs ys zs = fold (queue_insert cs) ys zs"

lemma mset_queue_reinsert [simp]: "mset (queue_reinsert cs ys zs) = mset ys + mset zs"
  unfolding queue_reinsert_def by (induction ys arbitrary: zs) simp_all

lemma queue_reinsert_data:
  assumes "map client_data cs' = map client_data cs" "\<forall>j \<in> set ys \<union> set zs. j < length cs"
  shows "queue_reinsert cs' ys zs = queue_reinsert cs ys zs"
  using assms(2) unfolding queue_reinsert_def
  by (induction ys arbitrary: zs) (simp_all add: queue_insert_data [OF assms(1)])

lemma reinsert_linked:
  assumes "linked s zs" "npath (ss_all s) v ys w" "distinct ys" "set ys \<inter> set zs = {}" "\<forall>j \<in> set ys. w \<noteq> Some j"
  shows "\<exists>s'. reinsert v w s = Some s' \<and> linked s' (queue_reinsert (ss_all s) ys zs)
    \<and> map client_data (ss_all s') = map client_data (ss_all s)"
  using assms
proof (induction ys arbitrary: s v zs)
  case Nil
  then show ?case by (subst reinsert.simps) (simp add: queue_reinsert_def)
next
  case (Cons i ys)
  have i: "v = Some i" "i < length (ss_all s)" "i \<notin> set zs" "npath (ss_all s) (cl_next (ss_all s ! i)) ys w" "v \<noteq> w"
    using Cons.prems by auto
  obtain s1 where s1: "client_insert i s = Some s1" "linked s1 (queue_insert (ss_all s) i zs)"
    "map client_data (ss_all s1) = map client_data (ss_all s)" "\<And>j. j \<notin> set zs \<Longrightarrow> j \<noteq> i \<Longrightarrow> ss_all s1 ! j = ss_all s ! j"
    using client_insert_linked [OF Cons.prems(1) i(3,2)] by metis
  have len: "length (ss_all s1) = length (ss_all s)" using s1(3) by (metis length_map)
  have "npath (ss_all s1) (cl_next (ss_all s ! i)) ys w"
  proof (rule npath_frame [OF i(4) len])
    fix j assume "j \<in> set ys"
    then have "j \<notin> set zs" "j \<noteq> i" using Cons.prems(3,4) by auto
    then show "cl_next (ss_all s1 ! j) = cl_next (ss_all s ! j)" by (simp add: s1(4))
  qed
  then obtain s' where s': "reinsert (cl_next (ss_all s ! i)) w s1 = Some s'"
    "linked s' (queue_reinsert (ss_all s1) ys (queue_insert (ss_all s) i zs))" "map client_data (ss_all s') = map client_data (ss_all s1)"
    using Cons.IH [OF s1(2), of "cl_next (ss_all s ! i)"] Cons.prems(3-5) by auto
  have "\<forall>j \<in> set ys \<union> set (queue_insert (ss_all s) i zs). j < length (ss_all s)"
    using npath_bound [OF i(4)] i(2) linked_bound [OF Cons.prems(1)] by auto
  then have "queue_reinsert (ss_all s1) ys (queue_insert (ss_all s) i zs) = queue_reinsert (ss_all s) (i # ys) zs"
    by (subst queue_reinsert_data [OF s1(3)]) (simp_all add: queue_reinsert_def)
  then show ?case
    using i s1(1,3) s' by (subst reinsert.simps) simp
qed

text \<open>The clients \<open>ys\<close> at the front of the list take a stride each and are put back.\<close>

lemma move_front:
  assumes "linked s (ys @ zs)"
  obtains s' where "reinsert (ss_list s) (head_of zs)
      (set_pprev (head_of zs) (Some List_Head) (s\<lparr>ss_all := strided ys (ss_all s), ss_list := head_of zs\<rparr>)) = Some s'"
    "linked s' (queue_reinsert (strided ys (ss_all s)) ys zs)"
    "map client_data (ss_all s') = map client_data (strided ys (ss_all s))"
proof -
  have d: "distinct (ys @ zs)" and "lseg (strided ys (ss_all s)) List_Head (ss_list s) (ys @ zs) None"
    using assms by (simp_all only: linked_def lseg_strided)
  then obtain u where u: "lseg (strided ys (ss_all s)) List_Head (ss_list s) ys u"
    "lseg (strided ys (ss_all s)) (slot_end List_Head ys) u zs None" by (auto simp only: lseg_append)
  then have h: "u = head_of zs" using lseg_head by blast
  have dz: "distinct zs" and hz: "\<forall>j \<in> set ys. head_of zs \<noteq> Some j" using d by (auto simp: head_of_def split: list.splits)
  let ?s1 = "s\<lparr>ss_all := strided ys (ss_all s), ss_list := head_of zs\<rparr>" and ?s2 = "\<lambda>v s. set_pprev v (Some List_Head) s"
  have "lseg (ss_all ?s1) (slot_end List_Head ys) (head_of zs) zs None" using u(2) h by simp
  note p = set_pprev_start [where sl' = List_Head, OF this dz]
  have l: "linked (?s2 (head_of zs) ?s1) zs" using p(1,2) dz by (simp add: linked_def)
  have "npath (ss_all ?s1) (ss_list s) ys (head_of zs)" using lseg_npath [OF u(1)] h by simp
  then have n: "npath (ss_all (?s2 (head_of zs) ?s1)) (ss_list s) ys (head_of zs)"
    by (rule npath_frame [OF _ p(3)]) (rule p(6))
  have "\<forall>j \<in> set ys \<union> set zs. j < length (ss_all ?s1)" using linked_bound [OF assms] by auto
  then have "queue_reinsert (ss_all (?s2 (head_of zs) ?s1)) ys zs = queue_reinsert (strided ys (ss_all s)) ys zs"
    using queue_reinsert_data [OF p(4), of ys zs] by simp
  then show thesis using reinsert_linked [OF l n _ _ hz] d p(4) that by auto
qed

lemma reinsert_same: "reinsert v v = Some"
  by (rule ext) (subst reinsert.simps, simp)

text \<open>The front client takes a stride and is put back: \<open>StrideSwitch::push\<close>.\<close>

lemma switch_push_head:
  assumes "linked s (i # zs)"
  obtains s' where "switch_push s = Some (s', Some i)" "linked s' (queue_reinsert (strided [i] (ss_all s)) [i] zs)"
    "map client_data (ss_all s') = map client_data (strided [i] (ss_all s))"
proof -
  have h: "ss_list s = Some i" "i < length (ss_all s)" "cl_next (ss_all s ! i) = head_of zs" "distinct zs" "i \<notin> set zs"
    using assms lseg_head by (auto simp: linked_def)
  let ?s1 = "set_pprev (head_of zs) (Some List_Head) (s\<lparr>ss_list := head_of zs\<rparr>)"
  let ?s2 = "set_pprev (head_of zs) (Some List_Head) (s\<lparr>ss_all := strided [i] (ss_all s), ss_list := head_of zs\<rparr>)"
  obtain s' where s': "reinsert (ss_list s) (head_of zs) ?s2 = Some s'"
    "linked s' (queue_reinsert (strided [i] (ss_all s)) [i] zs)" "map client_data (ss_all s') = map client_data (strided [i] (ss_all s))"
    using move_front [of s "[i]" zs] assms by auto
  have i2: "head_of zs \<noteq> Some i" using h(5) by (cases zs) auto
  then have eq: "set_client i client_stride ?s1 = ?s2"
    by (auto simp: set_pprev_def list_update_swap split: option.split)
  have n: "i < length (ss_all ?s2)" "cl_next (ss_all ?s2 ! i) = head_of zs"
    using i2 h(2,3) by (auto simp: set_pprev_def split: option.split)
  have "reinsert (Some i) (head_of zs) ?s2 = client_insert i ?s2"
    using n i2 by (subst reinsert.simps) (simp add: reinsert_same)
  then have "switch_push s = Some (s', Some i)"
    using s'(1) h eq by (simp add: switch_push_def)
  then show thesis using that s' by blast
qed

context eager_source
begin

lemma stride_pull_walk:
  assumes "linked s xs" "list_all inv ins" "length ins = length (ss_all s)"
  obtains ys zs s' ins' r where "xs = ys @ zs" "stride_pull sig pull (s, ins) = Some ((s', ins'), r)"
    "linked s' (queue_reinsert (strided ys (ss_all s)) ys zs)"
    "map client_data (ss_all s') = map client_data (strided ys (ss_all s))"
    "list_all inv ins'" "length ins' = length ins" "walk_outcome items ins ins' r ys zs"
proof -
  have l: "lseg (ss_all s) List_Head (ss_list s) xs None" "distinct xs" using assms(1) by (simp_all add: linked_def)
  obtain ys zs ins' r where w: "xs = ys @ zs"
    "stride_loop sig pull (ss_list s) s ins = Some (s\<lparr>ss_all := strided ys (ss_all s)\<rparr>, ins', head_of zs, r)"
    "list_all inv ins'" "length ins' = length ins" "walk_outcome items ins ins' r ys zs"
    using stride_loop_walk [OF l assms(2,3)] by blast
  obtain s' where s': "reinsert (ss_list s) (head_of zs)
      (set_pprev (head_of zs) (Some List_Head) (s\<lparr>ss_all := strided ys (ss_all s), ss_list := head_of zs\<rparr>)) = Some s'"
    "linked s' (queue_reinsert (strided ys (ss_all s)) ys zs)" "map client_data (ss_all s') = map client_data (strided ys (ss_all s))"
    using move_front [of s ys zs] assms(1) w(1) by blast
  have "stride_pull sig pull (s, ins) = Some ((s', ins'), r)" using w(2) s'(1) by (simp add: stride_pull_def)
  then show thesis using that w s' by blast
qed

end

section \<open>The invariant\<close>

text \<open>The list holds exactly the clients that have tickets.\<close>

definition ticketed :: "client list \<Rightarrow> nat set" where
  "ticketed cs = {i. i < length cs \<and> cl_tickets (cs ! i) \<noteq> 0}"

definition stride_inv :: "stride_sched \<Rightarrow> nat list \<Rightarrow> bool" where
  "stride_inv s xs \<longleftrightarrow> linked s xs \<and> set xs = ticketed (ss_all s)"

lemma ticketed_data: "map client_data cs' = map client_data cs \<Longrightarrow> ticketed cs' = ticketed cs"
  using data_pass [of cs' cs] unfolding ticketed_def by (metis (no_types, lifting) length_map)

lemma ticketed_update: "cl_tickets c = cl_tickets (cs ! i) \<Longrightarrow> ticketed (cs[i := c]) = ticketed cs"
  by (auto simp: ticketed_def nth_update_if)

lemma ticketed_strided [simp]: "ticketed (strided ys cs) = ticketed cs"
  by (induction ys arbitrary: cs) (simp_all add: ticketed_update)

lemma stride_inv_insert:
  assumes "linked s xs" "i \<notin> set xs" "i < length (ss_all s)" "insert i (set xs) = ticketed (ss_all s)"
  obtains s' where "client_insert i s = Some s'" "stride_inv s' (queue_insert (ss_all s) i xs)"
    "map client_data (ss_all s') = map client_data (ss_all s)"
  using client_insert_linked [OF assms(1-3)] assms(4) ticketed_data by (metis set_queue_insert stride_inv_def)

lemma stride_inv_moved:
  assumes "stride_inv s (ys @ zs)" "linked s' (queue_reinsert (strided ys (ss_all s)) ys zs)"
    "map client_data (ss_all s') = map client_data (strided ys (ss_all s))"
  shows "stride_inv s' (queue_reinsert (strided ys (ss_all s)) ys zs)"
proof -
  have "set (queue_reinsert (strided ys (ss_all s)) ys zs) = set (ys @ zs)"
    by (metis mset_append mset_queue_reinsert set_mset_mset)
  then show ?thesis using assms ticketed_data [OF assms(3)] by (simp add: stride_inv_def)
qed

lemma switch_push_inv:
  assumes "stride_inv s xs"
  shows "\<exists>s' r xs'. switch_push s = Some (s', r) \<and> stride_inv s' xs' \<and> length (ss_all s') = length (ss_all s) \<and> r = head_of xs"
proof (cases xs)
  case Nil
  then have "ss_list s = None" using assms by (simp add: stride_inv_def linked_def)
  then show ?thesis using assms Nil by (auto simp: switch_push_def)
next
  case (Cons i zs)
  have l: "linked s (i # zs)" "stride_inv s ([i] @ zs)" using assms Cons by (simp_all add: stride_inv_def)
  obtain s' where s': "switch_push s = Some (s', Some i)" "linked s' (queue_reinsert (strided [i] (ss_all s)) [i] zs)"
    "map client_data (ss_all s') = map client_data (strided [i] (ss_all s))"
    by (rule switch_push_head [OF l(1)])
  have "length (ss_all s') = length (ss_all s)" using s'(3) by (metis length_map length_strided)
  then show ?thesis using stride_inv_moved [OF l(2) s'(2,3)] s'(1) Cons by auto
qed

context eager_source
begin

lemma stride_pull_inv:
  assumes "stride_inv s xs" "list_all inv ins" "length ins = length (ss_all s)"
  shows "\<exists>s' ins' r ys zs xs'. stride_pull sig pull (s, ins) = Some ((s', ins'), r) \<and> stride_inv s' xs'
    \<and> length (ss_all s') = length (ss_all s) \<and> list_all inv ins' \<and> length ins' = length ins
    \<and> xs = ys @ zs \<and> walk_outcome items ins ins' r ys zs"
proof -
  have "linked s xs" using assms(1) by (simp add: stride_inv_def)
  then obtain ys zs s' ins' r where w: "xs = ys @ zs" "stride_pull sig pull (s, ins) = Some ((s', ins'), r)"
    "linked s' (queue_reinsert (strided ys (ss_all s)) ys zs)"
    "map client_data (ss_all s') = map client_data (strided ys (ss_all s))"
    "list_all inv ins'" "length ins' = length ins" "walk_outcome items ins ins' r ys zs"
    using stride_pull_walk assms(2,3) by metis
  have "length (ss_all s') = length (ss_all s)" using w(4) by (metis length_map length_strided)
  then show ?thesis using stride_inv_moved [OF _ w(3,4)] assms(1) w by blast
qed

end

text \<open>Configuration links the clients that have tickets, whatever the list was before.\<close>

lemma length_configure_args [simp]: "length (fst (configure_args first i conf cs)) = length cs"
  by (induction conf arbitrary: i cs) (auto simp: Let_def split: option.splits)

text \<open>The order in which the list is built.\<close>

definition insertion_order :: "client list \<Rightarrow> nat \<Rightarrow> nat list" where
  "insertion_order cs n = rev (filter (\<lambda>j. cl_tickets (cs ! j) \<noteq> 0) [0..<n])"

lemma insertion_order_simps [simp]:
  "insertion_order cs 0 = []"
  "insertion_order cs (Suc i) = (if cl_tickets (cs ! i) = 0 then [] else [i]) @ insertion_order cs i"
  by (simp_all add: insertion_order_def)

lemma insertion_order_data:
  assumes "map client_data cs' = map client_data cs" "n \<le> length cs"
  shows "insertion_order cs' n = insertion_order cs n"
  unfolding insertion_order_def using assms(2) data_pass [OF assms(1)] by (auto intro!: arg_cong [of _ _ rev] filter_cong)

lemma set_insertion_order: "set (insertion_order cs (length cs)) = ticketed cs"
  by (auto simp: insertion_order_def ticketed_def)

lemma configure_list_linked:
  assumes "linked s xs" "i \<le> length (ss_all s)" "\<forall>j \<in> set xs. i \<le> j"
  shows "\<exists>s'. configure_list i s = Some s' \<and> linked s' (queue_reinsert (ss_all s) (insertion_order (ss_all s) i) xs)
    \<and> map client_data (ss_all s') = map client_data (ss_all s)"
  using assms
proof (induction i arbitrary: s xs)
  case 0
  then show ?case by (simp add: queue_reinsert_def)
next
  case (Suc i)
  have i: "i < length (ss_all s)" "i \<notin> set xs" using Suc.prems(2,3) by auto
  show ?case
  proof (cases "cl_tickets (ss_all s ! i) = 0")
    case True
    moreover have "\<forall>j \<in> set xs. i \<le> j" using Suc.prems(3) by auto
    ultimately show ?thesis using Suc.IH [OF Suc.prems(1)] i(1) by simp
  next
    case False
    obtain s1 where s1: "client_insert i s = Some s1" "linked s1 (queue_insert (ss_all s) i xs)"
      "map client_data (ss_all s1) = map client_data (ss_all s)"
      using client_insert_linked [OF Suc.prems(1) i(2,1)] by metis
    have n: "length (ss_all s1) = length (ss_all s)" using s1(3) by (metis length_map)
    have "\<forall>j \<in> set (queue_insert (ss_all s) i xs). i \<le> j" using Suc.prems(3) by auto
    then obtain s' where s': "configure_list i s1 = Some s'" "map client_data (ss_all s') = map client_data (ss_all s1)"
      "linked s' (queue_reinsert (ss_all s1) (insertion_order (ss_all s1) i) (queue_insert (ss_all s) i xs))"
      using Suc.IH [OF s1(2)] i(1) n by auto
    have "\<forall>j \<in> set (insertion_order (ss_all s) i) \<union> set (queue_insert (ss_all s) i xs). j < length (ss_all s)"
      using i(1) linked_bound [OF Suc.prems(1)] by (auto simp: insertion_order_def)
    then have "queue_reinsert (ss_all s1) (insertion_order (ss_all s1) i) (queue_insert (ss_all s) i xs)
        = queue_reinsert (ss_all s) (insertion_order (ss_all s) (Suc i)) xs"
      using queue_reinsert_data [OF s1(3)] insertion_order_data [OF s1(3), of i] i(1) False
      by (simp add: queue_reinsert_def)
    then show ?thesis using s' s1 False by simp
  qed
qed

definition configured :: "nat \<Rightarrow> int option list \<Rightarrow> stride_sched \<Rightarrow> client list \<times> stride_msg list" where
  "configured n conf s =
     configure_args (ss_all s = []) 0 conf (if ss_all s = [] then replicate n new_client else ss_all s)"

lemma stride_configure_inv:
  assumes "length conf = n" "ss_all s = [] \<or> length (ss_all s) = n"
  obtains s' where "stride_configure n conf s =
      Some (s', snd (configured n conf s), if list_ex msg_is_error (snd (configured n conf s)) then -1 else 0)"
    "stride_inv s' (queue_reinsert (fst (configured n conf s)) (insertion_order (fst (configured n conf s)) n) [])"
    "map client_data (ss_all s') = map client_data (fst (configured n conf s))" "length (ss_all s') = n"
proof -
  define r s1 where "r = configured n conf s" and "s1 = \<lparr>ss_all = fst r, ss_list = None\<rparr>"
  have n: "length (fst r) = n" using assms(2) by (auto simp: r_def configured_def)
  have "linked s1 []" by (simp add: linked_def s1_def)
  then obtain s' where s': "configure_list n s1 = Some s'" "map client_data (ss_all s') = map client_data (fst r)"
    "linked s' (queue_reinsert (fst r) (insertion_order (fst r) n) [])"
    using configure_list_linked [of s1 "[]" n] n by (auto simp: s1_def)
  have "set (queue_reinsert (fst r) (insertion_order (fst r) n) []) = set (insertion_order (fst r) n)"
    by (metis append_Nil2 mset_append mset_queue_reinsert set_mset_mset)
  then have "stride_inv s' (queue_reinsert (fst r) (insertion_order (fst r) n) [])"
    using s'(3) ticketed_data [OF s'(2)] set_insertion_order [of "fst r"] n by (simp add: stride_inv_def)
  moreover have "length (ss_all s') = n" using s'(2) n by (metis length_map)
  moreover have "stride_configure n conf s = Some (s', snd r, if list_ex msg_is_error (snd r) then -1 else 0)"
    using s'(1) assms(1) by (simp add: stride_configure_def configured_def r_def s1_def Let_def split_beta)
  ultimately show thesis using that s'(2) by (simp add: r_def)
qed

text \<open>The unsigned comparison of \<open>set_tickets\<close> accepts exactly the ports of the element.\<close>

lemma port_in_range_iff:
  assumes "- (2 ^ 31) \<le> port" "port < 2 ^ 31" "length (ss_all s) < 2 ^ 31"
  shows "port_in_range port s \<longleftrightarrow> 0 \<le> port \<and> nat port < length (ss_all s)"
proof -
  have u: "uint (of_nat (length (ss_all s)) :: u32) = int (length (ss_all s))"
    using assms(3) by (simp add: uint_nat unat_of_nat)
  show ?thesis
  proof (cases "0 \<le> port")
    case True
    then have "uint (word_of_int port :: u32) = port" using assms(2) by (simp add: uint_word_of_int)
    then show ?thesis using True u by (simp add: port_in_range_def word_less_def nat_less_iff)
  next
    case False
    then have "uint (word_of_int port :: u32) = port + 2 ^ 32"
      using assms(1) mod_pos_pos_trivial [of "port + 2 ^ 32" "2 ^ 32"] by (simp add: uint_word_of_int)
    then show ?thesis using False u assms by (simp add: port_in_range_def word_less_def)
  qed
qed

lemma linked_update_data:
  assumes "linked s xs" "cl_pprev (f (ss_all s ! i)) = cl_pprev (ss_all s ! i)" "cl_next (f (ss_all s ! i)) = cl_next (ss_all s ! i)"
  shows "linked (set_client i f s) xs"
  using assms by (simp add: linked_def lseg_update_data)

lemma client_set_tickets_simps [simp]:
  "cl_pprev (client_set_tickets t c) = cl_pprev c" "cl_next (client_set_tickets t c) = cl_next c"
  "cl_tickets (client_set_tickets t c) = t" "cl_pass (client_set_tickets t c) = cl_pass c"
  by (simp_all add: client_set_tickets_def)

lemma ticketed_set:
  "i < length cs \<Longrightarrow> ticketed (cs[i := c]) = (if cl_tickets c = 0 then ticketed cs - {i} else insert i (ticketed cs))"
  by (auto simp: ticketed_def nth_update_if split: if_splits)

lemma relink_inv:
  assumes "linked s xs" "i < length (ss_all s)" "set xs = (if old = 0 then ticketed (ss_all s) - {i} else insert i (ticketed (ss_all s)))"
  shows "\<exists>s' xs'. relink i old s = Some s' \<and> stride_inv s' xs' \<and> length (ss_all s') = length (ss_all s)"
proof -
  let ?t = "cl_tickets (ss_all s ! i)"
  have it: "i \<in> ticketed (ss_all s) \<longleftrightarrow> ?t \<noteq> 0" using assms(2) by (simp add: ticketed_def)
  consider (remove) "?t = 0" "old \<noteq> 0" | (insert) "?t \<noteq> 0" "old = 0" | (keep) "?t = 0 \<longleftrightarrow> old = 0" by blast
  then show ?thesis
  proof cases
    case remove
    then have "i \<in> set xs" using assms(3) by simp
    then obtain ys zs where yz: "xs = ys @ i # zs" by (meson split_list)
    obtain s' where s': "client_remove i s = Some s'" "linked s' (ys @ zs)" "map client_data (ss_all s') = map client_data (ss_all s)"
      using client_remove_linked [of s ys i zs] assms(1) yz by blast
    have "set (ys @ zs) = set xs - {i}" using assms(1) yz by (auto simp: linked_def)
    then have "set (ys @ zs) = ticketed (ss_all s)" using remove it assms(3) by simp
    then have "stride_inv s' (ys @ zs)" using s'(2) ticketed_data [OF s'(3)] by (simp add: stride_inv_def)
    moreover have "length (ss_all s') = length (ss_all s)" using s'(3) by (metis length_map)
    ultimately show ?thesis using remove s'(1) by (auto simp: relink_def)
  next
    case insert
    define pass where "pass = (case ss_list s of None \<Rightarrow> 0 | Some h \<Rightarrow> cl_pass (ss_all s ! h) + cl_stride (ss_all s ! i))"
    define s1 where "s1 = set_client i (cl_pass_update (\<lambda>_. pass)) s"
    have l: "linked s1 xs" unfolding s1_def by (rule linked_update_data [OF assms(1)]) simp_all
    have n: "length (ss_all s1) = length (ss_all s)" "ticketed (ss_all s1) = ticketed (ss_all s)"
      by (simp_all add: s1_def ticketed_update)
    have "i \<notin> set xs" "insert i (set xs) = ticketed (ss_all s1)" using insert assms(3) it n(2) by auto
    then obtain s' where s': "client_insert i s1 = Some s'" "stride_inv s' (queue_insert (ss_all s1) i xs)"
      "map client_data (ss_all s') = map client_data (ss_all s1)"
      using stride_inv_insert [OF l] n(1) assms(2) by metis
    have "length (ss_all s') = length (ss_all s)" using s'(3) n(1) by (metis length_map)
    moreover have "relink i old s = client_insert i s1" using insert by (simp add: relink_def s1_def pass_def Let_def)
    ultimately show ?thesis using s'(1,2) by auto
  next
    case keep
    then have "stride_inv s xs" using assms(1,3) it by (auto simp: stride_inv_def)
    then show ?thesis using keep by (auto simp: relink_def)
  qed
qed

lemma set_tickets_inv:
  assumes "stride_inv s xs" "- (2 ^ 31) \<le> port" "port < 2 ^ 31" "length (ss_all s) < 2 ^ 31"
  shows "\<exists>s' msgs rc xs'. set_tickets port t s = Some (s', msgs, rc) \<and> stride_inv s' xs' \<and> length (ss_all s') = length (ss_all s)"
proof (cases "port_in_range port s \<and> 0 \<le> t")
  case False
  then show ?thesis using assms(1) by (auto simp: set_tickets_def)
next
  case True
  define i t' where "i = nat port" and "t' = (if MAX_TICKETS < t then MAX_TICKETS else t)"
  define s1 where "s1 = set_client i (client_set_tickets t') s"
  have i: "i < length (ss_all s)" using True port_in_range_iff [OF assms(2-4)] by (simp add: i_def)
  have "linked s xs" and m: "set xs = ticketed (ss_all s)" using assms(1) by (simp_all add: stride_inv_def)
  then have l: "linked s1 xs" unfolding s1_def by (intro linked_update_data) simp_all
  have "i \<in> ticketed (ss_all s) \<longleftrightarrow> cl_tickets (ss_all s ! i) \<noteq> 0" using i by (simp add: ticketed_def)
  then have "set xs = (if cl_tickets (ss_all s ! i) = 0 then ticketed (ss_all s1) - {i} else insert i (ticketed (ss_all s1)))"
    using i m by (auto simp: s1_def ticketed_set)
  moreover have n: "length (ss_all s1) = length (ss_all s)" by (simp add: s1_def)
  ultimately obtain s' xs' where "relink i (cl_tickets (ss_all s ! i)) s1 = Some s'" "stride_inv s' xs'" "length (ss_all s') = length (ss_all s)"
    using relink_inv [OF l, of i] i by metis
  then show ?thesis
    using True unfolding set_tickets_def Let_def i_def [symmetric] t'_def [symmetric] s1_def by auto
qed

section \<open>Passes without wrap-around\<close>

text \<open>
  The 32-bit passes stand for unbounded numbers \<open>P\<close>. The comparison on words is the one on the
  numbers as long as these are close together.
\<close>

lemma sint_word_of_int_small: "- (2 ^ 31) \<le> x \<Longrightarrow> x < 2 ^ 31 \<Longrightarrow> sint (word_of_int x :: u32) = x"
  by (simp add: sint_sbintrunc' signed_take_bit_int_eq_self)

lemma PASS_GT_window:
  assumes "a \<le> b + 2 ^ 30" "b \<le> a + 2 ^ 30"
  shows "PASS_GT (of_nat a) (of_nat b) \<longleftrightarrow> b < a"
proof -
  have "(of_nat a - of_nat b :: u32) = word_of_int (int a - int b)" by simp
  moreover have "sint (word_of_int (int a - int b) :: u32) = int a - int b"
    using assms by (intro sint_word_of_int_small) simp_all
  ultimately show ?thesis unfolding PASS_GT_def by (simp only:) simp
qed

definition tracks :: "client list \<Rightarrow> (nat \<Rightarrow> nat) \<Rightarrow> (nat \<Rightarrow> nat) \<Rightarrow> nat set \<Rightarrow> bool" where
  "tracks cs P S A \<longleftrightarrow> (\<forall>i \<in> A. i < length cs \<and> cl_pass (cs ! i) = of_nat (P i) \<and> cl_stride (cs ! i) = of_nat (S i))"

lemma tracks_data: "tracks cs P S A \<Longrightarrow> map client_data cs' = map client_data cs \<Longrightarrow> tracks cs' P S A"
  unfolding tracks_def using data_pass [of cs' cs] by (metis length_map)

lemma tracks_strided: "tracks cs P S A \<Longrightarrow> tracks (strided [i] cs) (P(i := P i + S i)) S A"
  by (auto simp: tracks_def nth_update_if)

lemma sorted_map_insert:
  "sorted (map f zs) \<Longrightarrow> sorted (map f (takeWhile (\<lambda>j. f j < f i) zs @ i # dropWhile (\<lambda>j. f j < f i) zs))"
  for f :: "nat \<Rightarrow> nat"
proof (induction zs)
  case (Cons k zs)
  then show ?case by (fastforce simp: sorted_append dest: set_takeWhileD set_dropWhileD)
qed simp

lemma queue_insert_sorted:
  assumes "tracks cs P S A" "insert i (set xs) \<subseteq> A" "\<forall>j \<in> set xs. P i \<le> P j + 2 ^ 30 \<and> P j \<le> P i + 2 ^ 30" "sorted (map P xs)"
  shows "sorted (map P (queue_insert cs i xs))"
proof -
  have "PASS_GT (cl_pass (cs ! i)) (cl_pass (cs ! j)) \<longleftrightarrow> P j < P i" if "j \<in> set xs" for j
    using assms(1,2,3) that PASS_GT_window [of "P i" "P j"] by (auto simp: tracks_def)
  then have "queue_insert cs i xs = takeWhile (\<lambda>j. P j < P i) xs @ i # dropWhile (\<lambda>j. P j < P i) xs"
    unfolding queue_insert_def by (auto cong: takeWhile_cong dropWhile_cong)
  then show ?thesis using sorted_map_insert [OF assms(4)] by simp
qed

lemma queue_reinsert_sorted:
  assumes "tracks cs P S A" "set ys \<union> set zs \<subseteq> A" "\<forall>i \<in> A. \<forall>j \<in> A. P i \<le> P j + 2 ^ 30" "sorted (map P zs)"
  shows "sorted (map P (queue_reinsert cs ys zs))"
  using assms(2,4) unfolding queue_reinsert_def
proof (induction ys arbitrary: zs)
  case (Cons i ys)
  have "sorted (map P (queue_insert cs i zs))"
    using Cons.prems assms(3) by (intro queue_insert_sorted [OF assms(1)]) auto
  then show ?case using Cons.IH [of "queue_insert cs i zs"] Cons.prems(1) by simp
qed simp

text \<open>
  The list is ordered, and no client is further ahead of the first than its own stride. A move
  of the first client keeps this.
\<close>

definition ordered :: "(nat \<Rightarrow> nat) \<Rightarrow> (nat \<Rightarrow> nat) \<Rightarrow> nat list \<Rightarrow> bool" where
  "ordered P S xs \<longleftrightarrow> sorted (map P xs) \<and> (\<forall>i \<in> set xs. \<forall>j \<in> set xs. P i \<le> P j + S i) \<and> (\<forall>i \<in> set xs. S i \<le> 65536)"

lemma ordered_move:
  assumes "tracks (ss_all s) P S (set (i # zs))" "ordered P S (i # zs)" "i \<notin> set zs"
    "map client_data (ss_all s') = map client_data (strided [i] (ss_all s))"
  defines "xs \<equiv> queue_reinsert (strided [i] (ss_all s)) [i] zs" and "P' \<equiv> P(i := P i + S i)"
  shows "ordered P' S xs" "tracks (ss_all s') P' S (set xs)" "set xs = set (i # zs)"
proof -
  show set_xs: "set xs = set (i # zs)" by (simp add: xs_def queue_reinsert_def)
  have t: "tracks (strided [i] (ss_all s)) P' S (set (i # zs))" unfolding P'_def by (rule tracks_strided [OF assms(1)])
  then show "tracks (ss_all s') P' S (set xs)" unfolding set_xs by (rule tracks_data [OF _ assms(4)])
  have o: "\<forall>j \<in> set zs. P i \<le> P j" "sorted (map P zs)" "\<forall>a \<in> set (i # zs). \<forall>b \<in> set (i # zs). P a \<le> P b + S a"
    "\<forall>a \<in> set (i # zs). S a \<le> 65536"
    using assms(2) by (simp_all add: ordered_def)
  have P: "P a \<le> P' a" "P' a \<le> P a + S a" for a by (simp_all add: P'_def)
  have "map P' zs = map P zs" using assms(3) by (auto simp: P'_def)
  then have sz: "sorted (map P' zs)" using o(2) by metis
  have w: "P' a \<le> P' b + 2 ^ 30" if "a \<in> set (i # zs)" "b \<in> set (i # zs)" for a b
    using o(3,4) that P(2) [of a] P(1) [of b] by fastforce
  have "sorted (map P' xs)"
    unfolding xs_def by (rule queue_reinsert_sorted [OF t _ _ sz]) (use w in simp_all)
  moreover have "P' a \<le> P' b + S a" if "a \<in> set (i # zs)" "b \<in> set (i # zs)" for a b
  proof (cases "a = i")
    case True
    then have "P i \<le> P b" using o(1) that(2) by auto
    then show ?thesis using True P(1) [of b] by (simp add: P'_def)
  next
    case False
    then have "P' a = P a" by (simp add: P'_def)
    then show ?thesis using o(3) that P(1) [of b] by fastforce
  qed
  ultimately show "ordered P' S xs" unfolding ordered_def set_xs using o(4) by blast
qed

section \<open>Sequences of packets\<close>

fun switch_pushes :: "nat \<Rightarrow> stride_sched \<Rightarrow> (stride_sched \<times> nat option list) option" where
  "switch_pushes 0 s = Some (s, [])"
| "switch_pushes (Suc n) s =
     do { (s1, r) \<leftarrow> switch_push s;
          (s2, rs) \<leftarrow> switch_pushes n s1;
          Some (s2, r # rs) }"

fun stride_pulls ::
  "('s \<Rightarrow> bool) \<Rightarrow> ('s, 'p) puller \<Rightarrow> nat \<Rightarrow> stride_sched \<times> 's list \<Rightarrow> ((stride_sched \<times> 's list) \<times> 'p option list) option" where
  "stride_pulls sig pull 0 st = Some (st, [])"
| "stride_pulls sig pull (Suc n) st =
     do { (st1, r) \<leftarrow> stride_pull sig pull st;
          (st2, rs) \<leftarrow> stride_pulls sig pull n st1;
          Some (st2, r # rs) }"

text \<open>A state whose list \<open>xs\<close> is in order for the unbounded passes \<open>P\<close>.\<close>

definition in_order :: "stride_sched \<Rightarrow> (nat \<Rightarrow> nat) \<Rightarrow> (nat \<Rightarrow> nat) \<Rightarrow> nat list \<Rightarrow> bool" where
  "in_order s P S xs \<longleftrightarrow> linked s xs \<and> ordered P S xs \<and> tracks (ss_all s) P S (set xs)"

lemma in_order_move:
  assumes "in_order s P S (i # zs)" "linked s' (queue_reinsert (strided [i] (ss_all s)) [i] zs)"
    "map client_data (ss_all s') = map client_data (strided [i] (ss_all s))"
  shows "in_order s' (P(i := P i + S i)) S (queue_reinsert (strided [i] (ss_all s)) [i] zs)"
  using ordered_move [of s P S i zs s'] assms by (auto simp: in_order_def linked_def)

text \<open>Served in order, the clients' shares differ by at most one stride.\<close>

lemma in_order_fair:
  assumes "in_order s P S xs" "\<forall>k \<in> set xs. P k = S k + S k * c k" "i \<in> set xs" "j \<in> set xs"
  shows "c i * S i \<le> (c j + 1) * S j"
proof -
  have "S i + S i * c i \<le> S j + S j * c j + S i"
    using assms by (fastforce simp: in_order_def ordered_def)
  then show ?thesis by (simp add: algebra_simps)
qed

lemma switch_pushes_run:
  assumes "in_order s P S xs" "xs \<noteq> []"
  shows "\<exists>s' rs xs' P'. switch_pushes n s = Some (s', rs) \<and> length rs = n \<and> set rs \<subseteq> Some ` set xs \<and> set xs' = set xs
    \<and> in_order s' P' S xs' \<and> (\<forall>i \<in> set xs. P' i = P i + S i * count_list rs (Some i))"
  using assms
proof (induction n arbitrary: s P xs)
  case 0
  then show ?case by auto
next
  case (Suc n)
  then obtain i zs where xs: "xs = i # zs" by (cases xs) auto
  let ?xs = "queue_reinsert (strided [i] (ss_all s)) [i] zs" and ?P = "P(i := P i + S i)"
  have l: "linked s (i # zs)" using Suc.prems(1) xs by (simp add: in_order_def)
  obtain s1 where s1: "switch_push s = Some (s1, Some i)" "linked s1 ?xs" "map client_data (ss_all s1) = map client_data (strided [i] (ss_all s))"
    by (rule switch_push_head [OF l])
  have m: "set ?xs = set xs" by (simp add: xs queue_reinsert_def)
  have "in_order s1 ?P S ?xs" using in_order_move [OF _ s1(2,3)] Suc.prems(1) xs by simp
  moreover have "?xs \<noteq> []" using m xs by (metis list.set_intros(1) list.set(1) empty_iff)
  ultimately obtain s' rs xs' P' where r: "switch_pushes n s1 = Some (s', rs)" "length rs = n" "set rs \<subseteq> Some ` set xs" "set xs' = set xs"
    "in_order s' P' S xs'" "\<forall>k \<in> set xs. P' k = ?P k + S k * count_list rs (Some k)"
    using Suc.IH [of s1 ?P ?xs] unfolding m by blast
  then have "switch_pushes (Suc n) s = Some (s', Some i # rs)" using s1(1) by simp
  then show ?case
    using r xs by (intro exI [of _ s'] exI [of _ "Some i # rs"] exI [of _ xs'] exI [of _ P']) (auto simp: algebra_simps)
qed

context eager_source
begin

text \<open>A pull from a backlogged first client is a move of that client.\<close>

lemma stride_pull_first:
  assumes "linked s (i # zs)" "list_all inv ins" "length ins = length (ss_all s)" "items (ins ! i) \<noteq> []"
  obtains s' ins' p where "stride_pull sig pull (s, ins) = Some ((s', ins'), Some p)"
    "linked s' (queue_reinsert (strided [i] (ss_all s)) [i] zs)"
    "map client_data (ss_all s') = map client_data (strided [i] (ss_all s))"
    "list_all inv ins'" "length ins' = length ins" "items (ins ! i) = p # items (ins' ! i)"
    "map items ins' = (map items ins)[i := items (ins' ! i)]"
proof -
  obtain ys ws s' ins' r where w: "i # zs = ys @ ws" "stride_pull sig pull (s, ins) = Some ((s', ins'), r)"
    "linked s' (queue_reinsert (strided ys (ss_all s)) ys ws)"
    "map client_data (ss_all s') = map client_data (strided ys (ss_all s))"
    "list_all inv ins'" "length ins' = length ins" "walk_outcome items ins ins' r ys ws"
    by (rule stride_pull_walk [OF assms(1-3)])
  obtain p where r: "r = Some p" using w(1,7) assms(4) by (cases r) (auto simp: walk_outcome_def)
  then obtain us k where u: "ys = us @ [k]" "\<forall>j \<in> set us. items (ins ! j) = []" "items (ins ! k) = p # items (ins' ! k)"
    "map items ins' = (map items ins)[k := items (ins' ! k)]" using w(7) by (auto simp: walk_outcome_def)
  then have "us = []" "k = i" "ws = zs" using w(1) assms(4) by (cases us; auto)+
  then show thesis using that [of s' ins' p] w u r by simp
qed

lemma stride_pulls_run:
  assumes "in_order s P S xs" "xs \<noteq> []" "list_all inv ins" "length ins = length (ss_all s)" "\<forall>i \<in> set xs. n \<le> length (items (ins ! i))"
  shows "\<exists>s' ins' rs xs' P' c. stride_pulls sig pull n (s, ins) = Some ((s', ins'), rs) \<and> length rs = n \<and> None \<notin> set rs
    \<and> set xs' = set xs \<and> in_order s' P' S xs' \<and> length ins' = length ins \<and> (\<forall>i \<in> set xs. P' i = P i + S i * c i)
    \<and> (\<forall>i < length ins. items (ins' ! i) = drop (c i) (items (ins ! i)))
    \<and> (\<forall>i. i \<notin> set xs \<longrightarrow> c i = 0) \<and> (\<forall>i. c i \<le> n)"
  using assms
proof (induction n arbitrary: s P xs ins)
  case 0
  then show ?case by (intro exI [of _ s] exI [of _ ins] exI [of _ "[]"] exI [of _ xs] exI [of _ P] exI [of _ "\<lambda>_. 0"]) simp
next
  case (Suc n)
  then obtain i zs where xs: "xs = i # zs" by (cases xs) auto
  let ?xs = "queue_reinsert (strided [i] (ss_all s)) [i] zs" and ?P = "P(i := P i + S i)"
  have l: "linked s (i # zs)" and i: "i < length ins" "items (ins ! i) \<noteq> []"
    using Suc.prems linked_bound [of s xs i] xs by (auto simp: in_order_def)
  obtain s1 ins1 p where s1: "stride_pull sig pull (s, ins) = Some ((s1, ins1), Some p)"
    "linked s1 ?xs" "map client_data (ss_all s1) = map client_data (strided [i] (ss_all s))"
    "list_all inv ins1" "length ins1 = length ins" "items (ins ! i) = p # items (ins1 ! i)"
    "map items ins1 = (map items ins)[i := items (ins1 ! i)]"
    by (rule stride_pull_first [OF l Suc.prems(3,4) i(2)])
  have m: "set ?xs = set xs" by (simp add: xs queue_reinsert_def)
  have n: "length ins1 = length (ss_all s1)" using s1(3,5) Suc.prems(4) by (metis length_map length_strided)
  have it: "items (ins1 ! k) = (if k = i then tl (items (ins ! i)) else items (ins ! k))" if "k < length ins" for k
    using that s1(6) arg_cong [OF s1(7), of "\<lambda>l. l ! k"] s1(5) by (auto simp: nth_list_update)
  have b: "\<forall>k \<in> set xs. n \<le> length (items (ins1 ! k))"
  proof
    fix k assume k: "k \<in> set xs"
    then have "k < length ins" using linked_bound [of s xs k] l xs Suc.prems(4) by simp
    then show "n \<le> length (items (ins1 ! k))" using it [of k] Suc.prems(5) k by fastforce
  qed
  have "in_order s1 ?P S ?xs" using in_order_move [OF _ s1(2,3)] Suc.prems(1) xs by simp
  moreover have "?xs \<noteq> []" using m xs by (metis list.set_intros(1) list.set(1) empty_iff)
  ultimately obtain s' ins' rs xs' P' c where r: "stride_pulls sig pull n (s1, ins1) = Some ((s', ins'), rs)" "length rs = n" "None \<notin> set rs"
    "set xs' = set xs" "in_order s' P' S xs'" "length ins' = length ins1" "\<forall>k \<in> set xs. P' k = ?P k + S k * c k"
    "\<forall>k < length ins1. items (ins' ! k) = drop (c k) (items (ins1 ! k))" "\<forall>k. k \<notin> set xs \<longrightarrow> c k = 0" "\<forall>k. c k \<le> n"
    using Suc.IH [of s1 ?P ?xs ins1] s1(4) n b unfolding m by blast
  let ?c = "c(i := Suc (c i))"
  have "stride_pulls sig pull (Suc n) (s, ins) = Some ((s', ins'), Some p # rs)" using s1(1) r(1) by simp
  moreover have "\<forall>k < length ins. items (ins' ! k) = drop (?c k) (items (ins ! k))"
    using r(8) it s1(5) by (auto simp: drop_Suc)
  moreover have "\<forall>k \<in> set xs. P' k = P k + S k * ?c k" using r(7) by (auto simp: algebra_simps)
  moreover have "\<forall>k. k \<notin> set xs \<longrightarrow> ?c k = 0" using r(9) xs by auto
  moreover have "\<forall>k. ?c k \<le> Suc n" using r(10) by (simp add: le_SucI)
  ultimately show ?case
    using r(2-6) s1(5) by (intro exI [of _ s'] exI [of _ ins'] exI [of _ "Some p # rs"] exI [of _ xs'] exI [of _ P'] exI [of _ ?c]) simp
qed

end

section \<open>A fresh configuration\<close>

definition valid_tickets :: "int list \<Rightarrow> bool" where
  "valid_tickets ts \<longleftrightarrow> list_all (\<lambda>t. 0 \<le> t \<and> t \<le> MAX_TICKETS) ts \<and> list_ex (\<lambda>t. t \<noteq> 0) ts"

definition stride_of :: "int \<Rightarrow> nat" where
  "stride_of t = nat (STRIDE1 div t)"

abbreviation fresh_client :: "int \<Rightarrow> client" where
  "fresh_client t \<equiv> client_stride (client_set_tickets t new_client)"

lemma configure_args_fresh:
  assumes "list_all (\<lambda>t. 0 \<le> t \<and> t \<le> MAX_TICKETS) ts"
  shows "configure_args True (length us) (map Some ts) (us @ replicate (length ts) new_client) = (us @ map fresh_client ts, [])"
  using assms
proof (induction ts arbitrary: us)
  case (Cons t ts)
  then show ?case using Cons.IH [of "us @ [fresh_client t]"] by (simp add: list_update_append)
qed simp

lemma fresh_client_values:
  assumes "0 < t" "t \<le> MAX_TICKETS"
  shows "cl_stride (fresh_client t) = of_nat (stride_of t)" "cl_pass (fresh_client t) = of_nat (stride_of t)"
    "stride_of t \<le> 65536"
proof -
  have "STRIDE1 sdiv t = int (stride_of t)"
    using assms by (simp add: signed_divide_int_def stride_of_def STRIDE1_def pos_imp_zdiv_nonneg_iff)
  then show "cl_stride (fresh_client t) = of_nat (stride_of t)" "cl_pass (fresh_client t) = of_nat (stride_of t)"
    using assms(1) by (simp_all add: client_set_tickets_def new_client_def)
  have "65536 div t \<le> 65536 div 1" using assms(1) by (intro zdiv_mono2) simp_all
  then show "stride_of t \<le> 65536" by (simp add: stride_of_def STRIDE1_def)
qed

lemma configure_fresh:
  assumes "valid_tickets ts"
  defines "S \<equiv> \<lambda>i. stride_of (ts ! i)"
  obtains s xs where "stride_configure (length ts) (map Some ts) new_stride = Some (s, [], 0)" "in_order s S S xs"
    "length (ss_all s) = length ts" "set xs = {i. i < length ts \<and> ts ! i \<noteq> 0}" "xs \<noteq> []"
proof -
  let ?cs = "map fresh_client ts" and ?A = "{i. i < length ts \<and> ts ! i \<noteq> 0}"
  let ?xs = "queue_reinsert ?cs (insertion_order ?cs (length ts)) []"
  have v: "list_all (\<lambda>t. 0 \<le> t \<and> t \<le> MAX_TICKETS) ts" "list_ex (\<lambda>t. t \<noteq> 0) ts" using assms by (simp_all add: valid_tickets_def)
  have c: "configured (length ts) (map Some ts) new_stride = (?cs, [])"
    using configure_args_fresh [OF v(1), of "[]"] by (simp add: configured_def new_stride_def)
  obtain s where s: "stride_configure (length ts) (map Some ts) new_stride = Some (s, [], 0)" "stride_inv s ?xs"
    "map client_data (ss_all s) = map client_data ?cs" "length (ss_all s) = length ts"
    by (rule stride_configure_inv [of "map Some ts" "length ts" new_stride, unfolded c fst_conv snd_conv list_ex_Nil_iff if_False])
      (simp, simp add: new_stride_def, rule that)
  have k: "ticketed ?cs = ?A" by (auto simp: ticketed_def)
  have A: "set ?xs = ?A"
    using s(2) unfolding stride_inv_def ticketed_data [OF s(3)] k by blast
  have ts: "0 < ts ! i" "ts ! i \<le> MAX_TICKETS" if "i \<in> ?A" for i
    using v(1) that by (auto simp: list_all_length order_le_less)
  have f: "cl_stride (fresh_client (ts ! i)) = of_nat (S i)" "cl_pass (fresh_client (ts ! i)) = of_nat (S i)" "S i \<le> 65536"
    if "i \<in> ?A" for i unfolding S_def using fresh_client_values [OF ts [OF that]] by blast+
  have t: "tracks ?cs S S ?A" using f by (simp add: tracks_def)
  have "set (insertion_order ?cs (length ts)) = ?A"
    using set_insertion_order [of ?cs] k by simp
  moreover have "\<forall>i \<in> ?A. \<forall>j \<in> ?A. S i \<le> S j + 2 ^ 30" using f(3) by fastforce
  ultimately have "sorted (map S ?xs)" by (intro queue_reinsert_sorted [OF t]) simp_all
  then have "ordered S S ?xs" using f(3) A by (simp add: ordered_def)
  moreover have "linked s ?xs" using s(2) by (simp add: stride_inv_def)
  ultimately have "in_order s S S ?xs" using tracks_data [OF t s(3)] A by (simp add: in_order_def)
  moreover have "?A \<noteq> {}" using v(2) by (auto simp: list_ex_length)
  then have "?xs \<noteq> []" using A by (metis list.set(1))
  ultimately show thesis using that [of s ?xs] s(1,4) A by blast
qed

section \<open>An idle client\<close>

text \<open>
  Two clients, 0 with the stride \<open>a\<close> and 1 with the stride \<open>b\<close>, where 0 is the first of the list
  and not further behind than the comparison of passes can see.
\<close>

definition behind :: "stride_sched \<Rightarrow> nat \<Rightarrow> nat \<Rightarrow> nat \<Rightarrow> nat \<Rightarrow> bool" where
  "behind s x y a b \<longleftrightarrow> linked s [0, 1] \<and> tracks (ss_all s) (case_nat x (\<lambda>_. y)) (case_nat a (\<lambda>_. b)) {0, 1}
     \<and> x \<le> y \<and> y \<le> x + 2 ^ 30"

lemma case_nat_update [simp]: "(case_nat x (\<lambda>_. y))(0 := z) = case_nat z (\<lambda>_. y)"
  by (auto split: nat.split)

context eager_source
begin

lemma idle_pull:
  assumes "behind s x y a b" "y + b \<le> x + a + 2 ^ 30" "x + a < y + b" "list_all inv ins" "length ins = length (ss_all s)"
    "items (ins ! 0) = []" "items (ins ! 1) = p # ps"
  obtains s' ins' where "stride_pull sig pull (s, ins) = Some ((s', ins'), Some p)" "behind s' (x + a) (y + b) a b"
    "list_all inv ins'" "length ins' = length (ss_all s')" "length (ss_all s') = length (ss_all s)"
    "items (ins' ! 0) = []" "items (ins' ! 1) = ps"
proof -
  have l: "linked s [0, 1]" using assms(1) by (simp add: behind_def)
  obtain ys zs s' ins' r where w: "[0, 1] = ys @ zs" "stride_pull sig pull (s, ins) = Some ((s', ins'), r)"
    "linked s' (queue_reinsert (strided ys (ss_all s)) ys zs)"
    "map client_data (ss_all s') = map client_data (strided ys (ss_all s))"
    "list_all inv ins'" "length ins' = length ins" "walk_outcome items ins ins' r ys zs"
    by (rule stride_pull_walk [OF l assms(4,5)])
  have ys: "ys = [] \<and> zs = [0, 1] \<or> ys = [0] \<and> zs = [1] \<or> ys = [0, 1] \<and> zs = []"
    using w(1) by (cases ys; cases "tl ys") (auto simp: Cons_eq_append_conv)
  have n: "length (ss_all s') = length (ss_all s)" using w(4) by (metis length_map length_strided)
  obtain p' where r: "r = Some p'" using w(7) ys assms(7) by (cases r) (auto simp: walk_outcome_def)
  then obtain us i where u: "ys = us @ [i]" "items (ins ! i) = p' # items (ins' ! i)" "map items ins' = (map items ins)[i := items (ins' ! i)]"
    using w(7) by (auto simp: walk_outcome_def)
  then have y2: "ys = [0, 1]" "zs = []" "i = 1" using ys assms(6) by auto
  then have y3: "r = Some p" "items (ins' ! 1) = ps" using r u(2) assms(7) by simp_all
  have "0 < length ins" using linked_bound [OF l, of 0] assms(5) by simp
  moreover have "map items ins' ! 0 = map items ins ! 0" using u(3) y2(3) by simp
  ultimately have ins: "items (ins' ! 0) = []" using w(6) assms(6) by (simp only: nth_map)
  define cs where "cs = strided [0, 1] (ss_all s)"
  let ?P = "case_nat (x + a) (\<lambda>_. y + b)" and ?S = "case_nat a (\<lambda>_. b)"
  have t: "tracks cs ?P ?S {0, 1}" using assms(1) by (auto simp: behind_def tracks_def nth_update_if cs_def)
  have "PASS_GT (cl_pass (cs ! 1)) (cl_pass (cs ! 0))"
    using t PASS_GT_window [of "y + b" "x + a"] assms(2,3) by (simp add: tracks_def)
  then have "queue_reinsert cs [0, 1] [] = [0, 1]" by (simp add: queue_reinsert_def queue_insert_def)
  then have "behind s' (x + a) (y + b) a b"
    using w(3,4) [unfolded y2(1,2), folded cs_def] tracks_data [OF t, of "ss_all s'"] assms(2,3) by (simp add: behind_def)
  then show thesis using that [of s' ins'] w(2,5,6) y3 ins n assms(5) by simp
qed

lemma hoarding_pull:
  assumes "behind s x y a b" "x + a \<le> y" "list_all inv ins" "length ins = length (ss_all s)" "items (ins ! 0) = p # ps"
  obtains s' ins' where "stride_pull sig pull (s, ins) = Some ((s', ins'), Some p)" "behind s' (x + a) y a b"
    "list_all inv ins'" "length ins' = length (ss_all s')" "items (ins' ! 0) = ps" "items (ins' ! 1) = items (ins ! 1)"
proof -
  have l: "linked s [0, 1]" and t0: "tracks (ss_all s) (case_nat x (\<lambda>_. y)) (case_nat a (\<lambda>_. b)) {0, 1}"
    using assms(1) by (simp_all add: behind_def)
  have ne: "items (ins ! 0) \<noteq> []" using assms(5) by simp
  obtain s' ins' p' where m: "stride_pull sig pull (s, ins) = Some ((s', ins'), Some p')"
    "linked s' (queue_reinsert (strided [0] (ss_all s)) [0] [1])"
    "map client_data (ss_all s') = map client_data (strided [0] (ss_all s))"
    "list_all inv ins'" "length ins' = length ins" "items (ins ! 0) = p' # items (ins' ! 0)"
    "map items ins' = (map items ins)[0 := items (ins' ! 0)]"
    by (rule stride_pull_first [OF l assms(3,4) ne])
  let ?cs = "strided [0] (ss_all s)" and ?P = "case_nat (x + a) (\<lambda>_. y)" and ?S = "case_nat a (\<lambda>_. b)"
  have t: "tracks ?cs ?P ?S {0, 1}" using tracks_strided [OF t0, of 0] by simp
  have "\<not> PASS_GT (cl_pass (?cs ! 0)) (cl_pass (?cs ! 1))"
    using t PASS_GT_window [of "x + a" y] assms(1,2) by (simp add: tracks_def behind_def)
  then have "queue_reinsert ?cs [0] [1] = [0, 1]" by (simp add: queue_reinsert_def queue_insert_def)
  then have "behind s' (x + a) y a b"
    using m(2) tracks_data [OF t m(3)] assms(1,2) by (simp add: behind_def)
  moreover have "length ins' = length (ss_all s')" using m(3,5) assms(4) by (metis length_map length_strided)
  moreover have "1 < length ins" using linked_bound [OF l, of 1] assms(4) by simp
  then have "items (ins' ! 1) = items (ins ! 1)" using arg_cong [OF m(7), of "\<lambda>l. l ! 1"] m(5) by simp
  ultimately show thesis using that [of s' ins'] m(1,4,6) assms(5) by simp
qed

lemma idle_pulls:
  assumes "behind s x y a b" "y + n * b \<le> x + n * a + 2 ^ 30" "a < b" "list_all inv ins" "length ins = length (ss_all s)"
    "items (ins ! 0) = []" "n \<le> length (items (ins ! 1))"
  shows "\<exists>s' ins'. stride_pulls sig pull n (s, ins) = Some ((s', ins'), map Some (take n (items (ins ! 1))))
    \<and> behind s' (x + n * a) (y + n * b) a b \<and> list_all inv ins' \<and> length ins' = length (ss_all s')
    \<and> length (ss_all s') = length (ss_all s) \<and> items (ins' ! 1) = drop n (items (ins ! 1))"
  using assms
proof (induction n arbitrary: s x y ins)
  case 0
  then show ?case by simp
next
  case (Suc n)
  then obtain p ps where p: "items (ins ! 1) = p # ps" by (cases "items (ins ! 1)") auto
  have "n * a \<le> n * b" using Suc.prems(3) by (simp add: mult_le_mono2)
  then have w: "y + b \<le> x + a + 2 ^ 30" using Suc.prems(2) unfolding mult_Suc by linarith
  have v: "x + a < y + b" using Suc.prems(1,3) by (simp add: behind_def)
  obtain s1 ins1 where s1: "stride_pull sig pull (s, ins) = Some ((s1, ins1), Some p)" "behind s1 (x + a) (y + b) a b"
    "list_all inv ins1" "length ins1 = length (ss_all s1)" "length (ss_all s1) = length (ss_all s)"
    "items (ins1 ! 0) = []" "items (ins1 ! 1) = ps"
    by (rule idle_pull [OF Suc.prems(1) w v Suc.prems(4-6) p])
  then show ?case
    using Suc.IH [OF s1(2) _ Suc.prems(3) s1(3,4,6)] Suc.prems(2,7) p by (auto simp: algebra_simps)
qed

lemma hoarding_pulls:
  assumes "behind s x y a b" "x + n * a \<le> y" "list_all inv ins" "length ins = length (ss_all s)" "n \<le> length (items (ins ! 0))"
  shows "\<exists>s' ins'. stride_pulls sig pull n (s, ins) = Some ((s', ins'), map Some (take n (items (ins ! 0))))
    \<and> items (ins' ! 1) = items (ins ! 1)"
  using assms
proof (induction n arbitrary: s x ins)
  case 0
  then show ?case by simp
next
  case (Suc n)
  then obtain p ps where p: "items (ins ! 0) = p # ps" by (cases "items (ins ! 0)") auto
  have w: "x + a \<le> y" using Suc.prems(2) by simp
  obtain s1 ins1 where s1: "stride_pull sig pull (s, ins) = Some ((s1, ins1), Some p)" "behind s1 (x + a) y a b"
    "list_all inv ins1" "length ins1 = length (ss_all s1)" "items (ins1 ! 0) = ps" "items (ins1 ! 1) = items (ins ! 1)"
    by (rule hoarding_pull [OF Suc.prems(1) w Suc.prems(3,4) p])
  then show ?case
    using Suc.IH [OF s1(2) _ s1(3,4)] Suc.prems(2,5) p by (auto simp: algebra_simps)
qed

end

lemma behind_fresh:
  assumes "in_order s S S xs" "set xs = {0, 1}" "S 0 < S 1" "S 1 \<le> S 0 + 2 ^ 30"
  shows "behind s (S 0) (S 1) (S 0) (S 1)"
proof -
  have o: "linked s xs" "distinct xs" "sorted (map S xs)" "tracks (ss_all s) S S {0, 1}"
    using assms(1,2) by (simp_all add: in_order_def ordered_def linked_def)
  have "length xs = 2" using distinct_card [OF o(2)] assms(2) by simp
  then obtain a b where xs: "xs = [a, b]" by (auto simp: numeral_2_eq_2 length_Suc_conv)
  then have "a = 0 \<and> b = 1 \<or> a = 1 \<and> b = 0" using assms(2) by (simp add: doubleton_eq_iff)
  moreover have "S a \<le> S b" using o(3) xs by simp
  ultimately have "xs = [0, 1]" using xs assms(3) by (metis leD)
  then show ?thesis using o(1,4) assms(3,4) by (simp add: behind_def tracks_def)
qed

section \<open>Histories\<close>

text \<open>
  What can happen to a scheduler of \<open>n\<close> clients once it is configured: a new configuration, a
  write to a tickets handler, a pull, with the queues as they are at that time, and a push of
  a packet when the element is a \<open>StrideSwitch\<close>.
\<close>

datatype 'p stride_event =
    Reconfigure "int option list"
  | Write_Tickets "int option" int
  | Pull_From "'p note_queue list"
  | Push_Packet

fun event_ok :: "nat \<Rightarrow> 'p stride_event \<Rightarrow> bool" where
  "event_ok n (Reconfigure conf) \<longleftrightarrow> True"
| "event_ok n (Write_Tickets arg port) \<longleftrightarrow> - (2 ^ 31) \<le> port \<and> port < 2 ^ 31"
| "event_ok n (Pull_From ins) \<longleftrightarrow> length ins = n \<and> list_all note_inv ins"
| "event_ok n Push_Packet \<longleftrightarrow> True"

fun stride_step :: "nat \<Rightarrow> 'p stride_event \<Rightarrow> stride_sched \<Rightarrow> stride_sched option" where
  "stride_step n (Reconfigure conf) s = map_option fst (stride_configure n conf s)"
| "stride_step n (Write_Tickets arg port) s = map_option fst (write_tickets_handler arg port s)"
| "stride_step n (Pull_From ins) s = map_option (fst \<circ> fst) (stride_pull nq_empty_note queue_pull (s, ins))"
| "stride_step n Push_Packet s = map_option fst (switch_push s)"

inductive stride_reachable :: "nat \<Rightarrow> stride_sched \<Rightarrow> bool" where
  stride_start: "length conf = n \<Longrightarrow> stride_configure n conf new_stride = Some (s, r) \<Longrightarrow> stride_reachable n s"
| stride_next: "stride_reachable n s \<Longrightarrow> event_ok n (e :: nat stride_event) \<Longrightarrow> stride_step n e s = Some s' \<Longrightarrow> stride_reachable n s'"

lemma stride_step_inv:
  assumes "stride_inv s xs" "length (ss_all s) = n" "n < 2 ^ 31" "event_ok n e"
  shows "\<exists>s' xs'. stride_step n e s = Some s' \<and> stride_inv s' xs' \<and> length (ss_all s') = n"
proof (cases e)
  case (Reconfigure conf)
  show ?thesis
  proof (cases "length conf = n")
    case True
    then show ?thesis
      using stride_configure_inv [of conf n s] assms(2) Reconfigure by (metis fst_conv option.simps(9) stride_step.simps(1))
  next
    case False
    then show ?thesis using Reconfigure assms by (auto simp: stride_configure_def)
  qed
next
  case (Write_Tickets arg port)
  show ?thesis
  proof (cases arg)
    case None
    then show ?thesis using Write_Tickets assms by (auto simp: write_tickets_handler_def)
  next
    case (Some t)
    then show ?thesis
      using set_tickets_inv [OF assms(1), of port t] Write_Tickets assms by (auto simp: write_tickets_handler_def)
  qed
next
  case (Pull_From ins)
  then show ?thesis using qe.stride_pull_inv [OF assms(1), of ins] assms(2,4) by fastforce
next
  case Push_Packet
  then show ?thesis using switch_push_inv [OF assms(1)] assms(2) by fastforce
qed

lemma stride_reachable_inv:
  "stride_reachable n s \<Longrightarrow> n < 2 ^ 31 \<Longrightarrow> \<exists>xs. stride_inv s xs \<and> length (ss_all s) = n"
proof (induction rule: stride_reachable.induct)
  case (stride_start conf n s r)
  have e: "ss_all new_stride = [] \<or> length (ss_all new_stride) = n" by (simp add: new_stride_def)
  show ?case
    by (rule stride_configure_inv [OF stride_start(1) e]) (use stride_start(2) in auto)
next
  case (stride_next n s e s')
  then show ?case using stride_step_inv [of s _ n e] by auto
qed

text \<open>
  \<open>StrideSched\<close> over queues serves the first client of its list that has a packet and is
  work conserving: it returns nothing exactly when the queues of all clients with tickets are
  empty, and otherwise takes the oldest packet of one queue and leaves the others alone.
\<close>

lemma stride_pull_serves_first:
  assumes "stride_inv s xs" "\<forall>q \<in> set ins. note_inv q" "length ins = length (ss_all s)"
  shows "\<exists>s' ins' r xs'. stride_pull nq_empty_note queue_pull (s, ins) = Some ((s', ins'), r) \<and> stride_inv s' xs'
    \<and> (case r of
         None \<Rightarrow> (\<forall>i \<in> set xs. queue_list (ins ! i) = []) \<and> map queue_list ins' = map queue_list ins
       | Some p \<Rightarrow> \<exists>us i zs. xs = us @ i # zs \<and> (\<forall>j \<in> set us. queue_list (ins ! j) = [])
           \<and> queue_list (ins ! i) = p # queue_list (ins' ! i)
           \<and> map queue_list ins' = (map queue_list ins)[i := queue_list (ins' ! i)])"
proof -
  have "list_all note_inv ins" using assms(2) by (simp add: list_all_iff)
  then obtain s' ins' r ys zs xs' where 1: "stride_pull nq_empty_note queue_pull (s, ins) = Some ((s', ins'), r)" "stride_inv s' xs'"
    "xs = ys @ zs" "walk_outcome queue_list ins ins' r ys zs"
    using qe.stride_pull_inv [OF assms(1) _ assms(3)] by blast
  show ?thesis
  proof (cases r)
    case None
    then show ?thesis using 1 by (auto simp: walk_outcome_def)
  next
    case (Some p)
    then obtain us i where "ys = us @ [i]" "\<forall>j \<in> set us. queue_list (ins ! j) = []" "queue_list (ins ! i) = p # queue_list (ins' ! i)"
      "map queue_list ins' = (map queue_list ins)[i := queue_list (ins' ! i)]" using 1(4) by (auto simp: walk_outcome_def)
    then show ?thesis using 1(1-3) Some by fastforce
  qed
qed

section \<open>Properties\<close>

text \<open>
  C11: the links of the scheduler are sound. Whatever sequence of configurations, ticket
  changes, pulls and pushes a scheduler has seen, its list holds exactly the clients that have
  tickets, each once, with both links right; and whatever happens next, no null or stray
  pointer is followed and every loop ends.
\<close>

theorem stride_links_sound:
  assumes "stride_reachable n s" "n < 2 ^ 31"
  shows "(\<exists>xs. linked s xs \<and> distinct xs \<and> set xs = {i. i < n \<and> cl_tickets (ss_all s ! i) \<noteq> 0})
    \<and> (\<forall>e :: nat stride_event. event_ok n e \<longrightarrow> (\<exists>s'. stride_step n e s = Some s'))"
proof -
  obtain xs where xs: "stride_inv s xs" "length (ss_all s) = n" using stride_reachable_inv [OF assms] by blast
  then have "linked s xs \<and> distinct xs \<and> set xs = {i. i < n \<and> cl_tickets (ss_all s ! i) \<noteq> 0}"
    by (auto simp: stride_inv_def linked_def ticketed_def)
  then show ?thesis using stride_step_inv [OF xs assms(2)] by blast
qed

theorem stride_links_sound_witness:
  "\<exists>s. stride_configure 3 [Some 4, Some 0, Some 2] new_stride = Some (s, [], 0)
     \<and> (\<exists>s'. stride_step 3 (Write_Tickets (Some 0) 0 :: nat stride_event) s = Some s')"
proof -
  have "map_option snd (stride_configure 3 [Some 4, Some 0, Some 2] new_stride) = Some ([], 0)" by code_simp
  then obtain s where s: "stride_configure 3 [Some 4, Some 0, Some 2] new_stride = Some (s, [], 0)" by auto
  then have r: "stride_reachable 3 s" by (intro stride_start [of "[Some 4, Some 0, Some 2]" 3]) simp_all
  have "event_ok 3 (Write_Tickets (Some 0) 0 :: nat stride_event)" by simp
  moreover have "(3 :: nat) < 2 ^ 31" by simp
  ultimately have "\<exists>s'. stride_step 3 (Write_Tickets (Some 0) 0 :: nat stride_event) s = Some s'"
    using stride_links_sound [OF r] by blast
  with s show ?thesis by blast
qed

text \<open>
  C12: \<open>StrideSwitch\<close> is fair for ever, although the passes wrap around: of any number of
  packets, each output with tickets gets its share up to one packet, measured in strides, and
  an output without tickets gets none. No packet is dropped.
\<close>

theorem stride_switch_fair:
  assumes "valid_tickets ts"
  shows "\<exists>s s' rs. stride_configure (length ts) (map Some ts) new_stride = Some (s, [], 0)
    \<and> switch_pushes n s = Some (s', rs) \<and> length rs = n \<and> set rs \<subseteq> Some ` {i. i < length ts \<and> ts ! i \<noteq> 0}
    \<and> (\<forall>i < length ts. \<forall>j < length ts. ts ! i \<noteq> 0 \<longrightarrow> ts ! j \<noteq> 0 \<longrightarrow>
         count_list rs (Some i) * stride_of (ts ! i) \<le> (count_list rs (Some j) + 1) * stride_of (ts ! j))"
proof -
  let ?S = "\<lambda>i. stride_of (ts ! i)"
  obtain s xs where s: "stride_configure (length ts) (map Some ts) new_stride = Some (s, [], 0)" "in_order s ?S ?S xs"
    "length (ss_all s) = length ts" "set xs = {i. i < length ts \<and> ts ! i \<noteq> 0}" "xs \<noteq> []"
    by (rule configure_fresh [OF assms])
  obtain s' rs xs' P' where r: "switch_pushes n s = Some (s', rs)" "length rs = n" "set rs \<subseteq> Some ` set xs" "set xs' = set xs"
    "in_order s' P' ?S xs'" "\<forall>i \<in> set xs. P' i = ?S i + ?S i * count_list rs (Some i)"
    using switch_pushes_run [OF s(2,5)] by blast
  have "count_list rs (Some i) * ?S i \<le> (count_list rs (Some j) + 1) * ?S j" if "i \<in> set xs" "j \<in> set xs" for i j
    using in_order_fair [OF r(5), of "\<lambda>k. count_list rs (Some k)"] r(4,6) that by simp
  then show ?thesis using s(1,4) r(1-3) by auto
qed

theorem stride_switch_fair_witness:
  "valid_tickets [2, 1] \<and> (\<exists>s s' rs. stride_configure 2 [Some 2, Some 1] new_stride = Some (s, [], 0)
     \<and> switch_pushes 30 s = Some (s', rs) \<and> count_list rs (Some 0) * stride_of 2 \<le> (count_list rs (Some 1) + 1) * stride_of 1)"
proof -
  have v: "valid_tickets [2, 1]" by (simp add: valid_tickets_def MAX_TICKETS_def)
  let ?ts = "[2, 1] :: int list"
  obtain s s' rs where r: "stride_configure (length ?ts) (map Some ?ts) new_stride = Some (s, [], 0)" "switch_pushes 30 s = Some (s', rs)"
    "\<forall>i < length ?ts. \<forall>j < length ?ts. ?ts ! i \<noteq> 0 \<longrightarrow> ?ts ! j \<noteq> 0 \<longrightarrow>
       count_list rs (Some i) * stride_of (?ts ! i) \<le> (count_list rs (Some j) + 1) * stride_of (?ts ! j)"
    using stride_switch_fair [OF v, of 30] by blast
  have "count_list rs (Some 0) * stride_of 2 \<le> (count_list rs (Some 1) + 1) * stride_of 1"
    using r(3) [rule_format, of 0 1] by simp
  moreover have "stride_configure 2 [Some 2, Some 1] new_stride = Some (s, [], 0)" using r(1) by (simp add: numeral_2_eq_2)
  ultimately show ?thesis using v r(2) by blast
qed

text \<open>
  C39: \<open>StrideSched\<close> is fair among backlogged queues: while every queue that has tickets has
  packets, each pull returns one, and the queues with tickets are served in inverse proportion to
  their strides, which are 65536 divided by the tickets and rounded down, up to one packet; a queue
  without tickets is not served.
\<close>

theorem stride_sched_fair:
  assumes "valid_tickets ts" "length ins = length ts" "\<forall>q \<in> set ins. note_inv q"
    "\<forall>i < length ts. ts ! i \<noteq> 0 \<longrightarrow> n \<le> length (queue_list (ins ! i))"
  shows "\<exists>s s' ins' rs c. stride_configure (length ts) (map Some ts) new_stride = Some (s, [], 0)
    \<and> stride_pulls nq_empty_note queue_pull n (s, ins) = Some ((s', ins'), rs) \<and> length rs = n \<and> None \<notin> set rs
    \<and> (\<forall>i < length ts. queue_list (ins' ! i) = drop (c i) (queue_list (ins ! i)) \<and> c i \<le> n \<and> (ts ! i = 0 \<longrightarrow> c i = 0))
    \<and> (\<forall>i < length ts. \<forall>j < length ts. ts ! i \<noteq> 0 \<longrightarrow> ts ! j \<noteq> 0 \<longrightarrow>
         c i * stride_of (ts ! i) \<le> (c j + 1) * stride_of (ts ! j))"
proof -
  let ?S = "\<lambda>i. stride_of (ts ! i)"
  obtain s xs where s: "stride_configure (length ts) (map Some ts) new_stride = Some (s, [], 0)" "in_order s ?S ?S xs"
    "length (ss_all s) = length ts" "set xs = {i. i < length ts \<and> ts ! i \<noteq> 0}" "xs \<noteq> []"
    by (rule configure_fresh [OF assms(1)])
  have h: "list_all note_inv ins" "length ins = length (ss_all s)" "\<forall>i \<in> set xs. n \<le> length (queue_list (ins ! i))"
    using assms(2-4) s(3,4) by (simp_all add: list_all_iff)
  obtain s' ins' rs xs' P' c where r: "stride_pulls nq_empty_note queue_pull n (s, ins) = Some ((s', ins'), rs)" "length rs = n" "None \<notin> set rs"
    "set xs' = set xs" "in_order s' P' ?S xs'" "\<forall>i \<in> set xs. P' i = ?S i + ?S i * c i"
    "\<forall>i < length ins. queue_list (ins' ! i) = drop (c i) (queue_list (ins ! i))" "\<forall>i. i \<notin> set xs \<longrightarrow> c i = 0" "\<forall>i. c i \<le> n"
    using qe.stride_pulls_run [OF s(2,5) h] by (elim exE conjE) (rule that)
  have "c i * ?S i \<le> (c j + 1) * ?S j" if "i \<in> set xs" "j \<in> set xs" for i j
    using in_order_fair [OF r(5), of c] r(4,6) that by simp
  then have "\<forall>i < length ts. \<forall>j < length ts. ts ! i \<noteq> 0 \<longrightarrow> ts ! j \<noteq> 0 \<longrightarrow> c i * ?S i \<le> (c j + 1) * ?S j"
    unfolding s(4) by blast
  moreover have "\<forall>i < length ts. queue_list (ins' ! i) = drop (c i) (queue_list (ins ! i)) \<and> c i \<le> n \<and> (ts ! i = 0 \<longrightarrow> c i = 0)"
    using r(7-9) s(4) assms(2) by auto
  ultimately show ?thesis using s(1) r(1-3) by (intro exI conjI)
qed

theorem stride_sched_fair_witness:
  "let q = fst (full_push 8 (fst (full_push 7 (new_note_queue 4)))) :: nat note_queue
   in \<exists>s s' ins' rs. stride_configure 2 [Some 2, Some 1] new_stride = Some (s, [], 0)
      \<and> stride_pulls nq_empty_note queue_pull 2 (s, [q, q]) = Some ((s', ins'), rs) \<and> length rs = 2 \<and> None \<notin> set rs"
proof -
  let ?qa = "new_note_queue 4 :: nat note_queue"
  let ?qb = "fst (full_push 7 ?qa)"
  let ?q = "fst (full_push 8 ?qb)" and ?ts = "[2, 1] :: int list"
  have v: "valid_tickets ?ts" by (simp add: valid_tickets_def MAX_TICKETS_def)
  have n: "note_inv ?qa" using new_note_queue_inv [of 4, where ?'p = nat] by simp
  have n1: "note_inv ?qb" using full_push_correct [OF n, of 7] by simp
  have n2: "note_inv ?q" using full_push_correct [OF n1, of 8] by simp
  have "length (queue_list ?q) = 2" by code_simp
  then have "length [?q, ?q] = length ?ts" "\<forall>q \<in> set [?q, ?q]. note_inv q"
    "\<forall>i < length ?ts. ?ts ! i \<noteq> 0 \<longrightarrow> 2 \<le> length (queue_list ([?q, ?q] ! i))"
    using n2 by (simp_all add: less_Suc_eq)
  from stride_sched_fair [OF v this] obtain s s' ins' rs where
    r: "stride_configure (length ?ts) (map Some ?ts) new_stride = Some (s, [], 0)"
    "stride_pulls nq_empty_note queue_pull 2 (s, [?q, ?q]) = Some ((s', ins'), rs)" "length rs = 2" "None \<notin> set rs" by blast
  have "stride_configure 2 [Some 2, Some 1] new_stride = Some (s, [], 0)" using r(1) by (simp add: numeral_2_eq_2)
  then show ?thesis using r(2-4) unfolding Let_def by blast
qed

text \<open>
  C40: an idle input hoards credit. A pull lets the clients it finds idle stride by their own
  strides, so an idle client with the shorter stride \<open>a\<close> falls behind a busy one with stride \<open>b\<close>
  by \<open>b - a\<close> with every pull. After \<open>n\<close> such pulls, as long as the passes are close enough to be
  compared, the first input, once it is busy, is served \<open>(n + 1) * (b - a) div a\<close> times in a row,
  while the other input waits.
\<close>

theorem stride_idle_hoards_credit:
  assumes "a = stride_of t0" "b = stride_of t1"
    and "valid_tickets [t0, t1]" "t0 \<noteq> 0" "t1 \<noteq> 0" "a < b" "(n + 1) * (b - a) \<le> 2 ^ 30" "m * a \<le> (n + 1) * (b - a)"
    and "note_inv q0" "queue_list q0 = []" "note_inv q1" "n \<le> length (queue_list q1)"
    and "note_inv q0'" "m \<le> length (queue_list q0')"
  shows "\<exists>s s1 ins1 s2 ins2. stride_configure 2 [Some t0, Some t1] new_stride = Some (s, [], 0)
    \<and> stride_pulls nq_empty_note queue_pull n (s, [q0, q1]) = Some ((s1, ins1), map Some (take n (queue_list q1)))
    \<and> stride_pulls nq_empty_note queue_pull m (s1, [q0', ins1 ! 1]) = Some ((s2, ins2), map Some (take m (queue_list q0')))
    \<and> queue_list (ins2 ! 1) = drop n (queue_list q1)"
proof -
  let ?pulls = "stride_pulls nq_empty_note queue_pull" and ?ts = "[t0, t1]"
  let ?S = "\<lambda>i. stride_of (?ts ! i)"
  obtain s xs where s: "stride_configure (length ?ts) (map Some ?ts) new_stride = Some (s, [], 0)"
    "in_order s ?S ?S xs" "length (ss_all s) = length ?ts" "set xs = {i. i < length ?ts \<and> ?ts ! i \<noteq> 0}" "xs \<noteq> []"
    by (rule configure_fresh [OF assms(3)])
  have S: "?S 0 = a" "?S 1 = b" using assms(1,2) by simp_all
  have d: "(n + 1) * (b - a) + (a + n * a) = b + n * b"
  proof -
    have "(n + 1) * (b - a) + (n + 1) * a = (n + 1) * (b - a + a)" by (rule distrib_left [symmetric])
    then show ?thesis using assms(6) by simp
  qed
  have "1 * (b - a) \<le> (n + 1) * (b - a)" by (rule mult_le_mono1) simp
  then have "b \<le> a + 2 ^ 30" using assms(7) by linarith
  moreover have "set xs = {0, 1}" unfolding s(4) using assms(4,5) by (auto simp: less_Suc_eq)
  ultimately have be: "behind s a b a b" using behind_fresh [OF s(2)] assms(6) unfolding S by simp
  have i: "list_all note_inv [q0, q1]" "length [q0, q1] = length (ss_all s)" "queue_list ([q0, q1] ! 0) = []" "n \<le> length (queue_list ([q0, q1] ! 1))"
    using assms s(3) by simp_all
  have w: "b + n * b \<le> a + n * a + 2 ^ 30" using d assms(7) by linarith
  obtain s1 ins1 where s1: "?pulls n (s, [q0, q1]) = Some ((s1, ins1), map Some (take n (queue_list ([q0, q1] ! 1))))"
    "behind s1 (a + n * a) (b + n * b) a b" "list_all note_inv ins1" "length ins1 = length (ss_all s1)"
    "length (ss_all s1) = length (ss_all s)" "queue_list (ins1 ! 1) = drop n (queue_list ([q0, q1] ! 1))"
    using qe.idle_pulls [OF be w assms(6) i] by blast
  have j: "list_all note_inv [q0', ins1 ! 1]" "length [q0', ins1 ! 1] = length (ss_all s1)" "m \<le> length (queue_list ([q0', ins1 ! 1] ! 0))"
    using assms(13,14) s1(3-5) s(3) by (simp_all add: list_all_iff)
  have "a + n * a + m * a \<le> b + n * b" using d assms(8) by linarith
  from qe.hoarding_pulls [OF s1(2) this j] obtain s2 ins2 where
    "?pulls m (s1, [q0', ins1 ! 1]) = Some ((s2, ins2), map Some (take m (queue_list q0')))" "queue_list (ins2 ! 1) = queue_list (ins1 ! 1)"
    by auto
  moreover have "stride_configure 2 [Some t0, Some t1] new_stride = Some (s, [], 0)" using s(1) by (simp add: numeral_2_eq_2)
  ultimately show ?thesis using s1(1,6) by simp
qed

theorem stride_idle_hoards_credit_witness:
  "let q = new_note_queue 4 :: nat note_queue; q' = fst (full_push 8 (fst (full_push 7 q)))
   in \<exists>s s1 ins1 s2 ins2. stride_configure 2 [Some 32768, Some 1] new_stride = Some (s, [], 0)
      \<and> stride_pulls nq_empty_note queue_pull 1 (s, [q, q']) = Some ((s1, ins1), [Some 7])
      \<and> stride_pulls nq_empty_note queue_pull 2 (s1, [q', ins1 ! 1]) = Some ((s2, ins2), [Some 7, Some 8])
      \<and> queue_list (ins2 ! 1) = [8]"
proof -
  let ?e = "new_note_queue 4 :: nat note_queue"
  let ?h = "fst (full_push 7 ?e)"
  let ?f = "fst (full_push 8 ?h)"
  have n: "note_inv ?e" "queue_list ?e = []" using new_note_queue_inv [of 4, where ?'p = nat] by simp_all
  have n1: "note_inv ?h" using full_push_correct [OF n(1), of 7] by simp
  have n2: "note_inv ?f" using full_push_correct [OF n1, of 8] by simp
  have l: "queue_list ?f = [7, 8]" by code_simp
  have S: "stride_of 32768 = 2" "stride_of 1 = 65536" by (simp_all add: stride_of_def STRIDE1_def)
  have h: "valid_tickets [32768, 1]" "(32768 :: int) \<noteq> 0" "(1 :: int) \<noteq> 0" "stride_of 32768 < stride_of 1"
    "(1 + 1) * (stride_of 1 - stride_of 32768) \<le> 2 ^ 30" "2 * stride_of 32768 \<le> (1 + 1) * (stride_of 1 - stride_of 32768)"
    "1 \<le> length (queue_list ?f)" "2 \<le> length (queue_list ?f)"
    by (simp_all add: l S valid_tickets_def MAX_TICKETS_def)
  have t: "map Some (take 1 [7, 8 :: nat]) = [Some 7]" "map Some (take 2 [7, 8 :: nat]) = [Some 7, Some 8]" "drop 1 [7, 8 :: nat] = [8]"
    by simp_all
  show ?thesis
    unfolding Let_def using stride_idle_hoards_credit [OF refl refl h(1-6) n n2 h(7) n2 h(8), unfolded l t] .
qed

end
