(* ===== verification/Click_Integers.thy ===== *)
theory Click_Integers
  imports Cpp_Prelude
begin

text \<open>
  Integer helpers of Click: bit scans, integer square roots, full multiplication and floor
  division (\<open>lib/integers.cc\<close>, \<open>include/click/integers.hh\<close>). The portable definitions are
  modelled; the compiler intrinsics that replace them where they exist have the same
  contract. A division by zero, a shift by 32 or more of an \<open>int\<close> and a table read out of
  range are undefined, \<open>None\<close>.
\<close>

type_synonym u64 = "64 word"

section \<open>Definitions\<close>

definition msb_bvals :: "nat list" where
  "msb_bvals = [0, 4, 3, 3, 2, 2, 2, 2, 1, 1, 1, 1, 1, 1, 1, 1]"

definition lsb_bvals :: "nat list" where
  "lsb_bvals = [0, 1, 2, 1, 3, 1, 2, 1, 4, 1, 2, 1, 3, 1, 2, 1]"

definition ffs_msb :: "u32 \<Rightarrow> nat" where
  "ffs_msb x =
     (if x = 0 then 0
      else
        let (x, a) = (if x AND 0xFFFF0000 = 0 then (x, 16) else (drop_bit 16 x, 0));
            (x, a) = (if x AND 0xFF00 = 0 then (x, a + 8) else (drop_bit 8 x, a));
            (x, a) = (if x AND 0xF0 = 0 then (x, a + 4) else (drop_bit 4 x, a))
        in a + msb_bvals ! unat (x AND 0xF))"

definition ffs_msb64 :: "u64 \<Rightarrow> nat" where
  "ffs_msb64 x =
     (let hi = ucast (drop_bit 32 x) :: u32
      in if hi = 0 then let lo = ucast x :: u32 in if lo \<noteq> 0 then 32 + ffs_msb lo else 0
         else ffs_msb hi)"

definition ffs_lsb :: "u32 \<Rightarrow> nat" where
  "ffs_lsb x =
     (if x = 0 then 0
      else
        let (x, a) = (if x AND 0xFFFF = 0 then (drop_bit 16 x, 16) else (x, 0));
            (x, a) = (if x AND 0xFF = 0 then (drop_bit 8 x, a + 8) else (x, a));
            (x, a) = (if x AND 0xF = 0 then (drop_bit 4 x, a + 4) else (x, a))
        in a + lsb_bvals ! unat (x AND 0xF))"

definition ffs_lsb64 :: "u64 \<Rightarrow> nat" where
  "ffs_lsb64 x =
     (let lo = ucast x :: u32
      in if lo = 0 then let hi = ucast (drop_bit 32 x) :: u32 in if hi \<noteq> 0 then 32 + ffs_lsb hi else 0
         else ffs_lsb lo)"

text \<open>The two loops of \<open>int_sqrt\<close>: Newton's iteration and the final correction.\<close>

function newton :: "'a::len word \<Rightarrow> 'a word \<Rightarrow> 'a word option" where
  "newton x z = (if z = 0 then None else let y = (z + x div z) div 2 in if y < z then newton x y else Some y)"
  by auto
termination by (relation "measure (\<lambda>(x, z). unat z)") (auto simp: word_less_nat_alt)

function lower :: "'a::len word \<Rightarrow> 'a word \<Rightarrow> 'a word" where
  "lower x y = (if x < y * y then lower x (y - 1) else y)"
  by auto
termination
proof (relation "measure (\<lambda>(x, y). unat y)")
  fix x y :: "'a word"
  assume "x < y * y"
  then have "y \<noteq> 0" by auto
  then show "((x, y - 1), (x, y)) \<in> measure (\<lambda>(x, y). unat y)"
    by (simp add: unat_minus_one unat_gt_0)
qed simp

declare newton.simps [simp del] lower.simps [simp del]

definition int_sqrt :: "u32 \<Rightarrow> u32 option" where
  "int_sqrt x =
     (if x + 1 \<le> 1 then Some (if x \<noteq> 0 then 0xFFFF else 0)
      else map_option (lower x) (newton x (push_bit ((32 - ffs_msb x) div 2 + 1) 1)))"

text \<open>The 64-bit version shifts an \<open>int\<close>: the result is converted with its sign.\<close>

definition int_shift1 :: "nat \<Rightarrow> int option" where
  "int_shift1 k = (if k < 32 then Some (sint (push_bit k (1 :: u32))) else None)"

definition int_sqrt64 :: "u64 \<Rightarrow> u64 option" where
  "int_sqrt64 x =
     (if x + 1 \<le> 1 then Some (if x \<noteq> 0 then 0xFFFFFFFF else 0)
      else case int_shift1 ((64 - ffs_msb64 x) div 2 + 1) of
             None \<Rightarrow> None
           | Some y \<Rightarrow> map_option (lower x) (newton x (of_int y)))"

text \<open>Full multiplication by halves: the low and the high word of the product.\<close>

definition int_multiply :: "u32 \<Rightarrow> u32 \<Rightarrow> u32 \<times> u32" where
  "int_multiply a b =
     (let al = a AND 0xFFFF; ah = drop_bit 16 a; bl = b AND 0xFFFF; bh = drop_bit 16 b;
          r0 = al * bl; r3 = ah * bh; r1 = ah * bl; r2 = al * bh + drop_bit 16 r0 + r1;
          r3 = (if r2 < r1 then r3 + 0x10000 else r3)
      in (push_bit 16 r2 + (r0 AND 0xFFFF), r3 + drop_bit 16 r2))"

text \<open>Quotient and remainder, rounding towards minus infinity.\<close>

definition int_remainder :: "u32 \<Rightarrow> u32 \<Rightarrow> (u32 \<times> u32) option" where
  "int_remainder a b =
     (if b = 0 then None
      else let quot = (if sint a < 0 then - ((- (a + 1)) div b) - 1 else a div b) in Some (quot, a - quot * b))"

section \<open>Bit scans\<close>

lemma unat_less_iff_bits: "unat (x :: 'a::len word) < 2 ^ n \<longleftrightarrow> (\<forall>i \<ge> n. \<not> bit x i)"
proof -
  have "unat x < 2 ^ n \<longleftrightarrow> take_bit n x = x" by (simp add: word_unat_eq_iff unsigned_take_bit_eq take_bit_nat_eq_self_iff)
  also have "\<dots> \<longleftrightarrow> (\<forall>i \<ge> n. \<not> bit x i)" by (auto simp: bit_eq_iff bit_take_bit_iff dest: bit_imp_le_length) (meson bit_imp_le_length leD linorder_not_le)+
  finally show ?thesis .
qed

text \<open>A mask of \<open>k\<close> bits above \<open>k\<close> bits tells whether a number of \<open>2 * k\<close> bits fits into \<open>k\<close>.\<close>

lemma high_bits_zero:
  fixes x :: u32
  assumes "unat x < 2 ^ (2 * k)" "2 * k \<le> 32"
  shows "x AND push_bit k (mask k) = 0 \<longleftrightarrow> unat x < 2 ^ k"
proof -
  have "x AND push_bit k (mask k) = 0 \<longleftrightarrow> (\<forall>i. k \<le> i \<and> i < 2 * k \<longrightarrow> \<not> bit x i)"
  proof -
    have "bit (x AND push_bit k (mask k)) i \<longleftrightarrow> k \<le> i \<and> i < 2 * k \<and> bit x i" for i
      using assms(2) bit_imp_le_length [of x i] by (auto simp: bit_simps)
    then show ?thesis by (metis bit_0_eq bit_word_eqI bot_apply bot_bool_def)
  qed
  moreover have "\<forall>i \<ge> 2 * k. \<not> bit x i" using assms(1) unfolding unat_less_iff_bits .
  ultimately show ?thesis unfolding unat_less_iff_bits by (meson not_le)
qed

lemma drop_bit_range:
  fixes x :: u32
  assumes "\<not> unat x < 2 ^ k" "unat x < 2 ^ (2 * k)"
  shows "0 < unat (drop_bit k x)" "unat (drop_bit k x) < 2 ^ k" "unat (drop_bit k x) = unat x div 2 ^ k"
proof -
  show e: "unat (drop_bit k x) = unat x div 2 ^ k" unfolding unat_drop_bit_eq by (rule drop_bit_eq_div)
  show "unat (drop_bit k x) < 2 ^ k" using assms(2) by (simp add: e less_mult_imp_div_less mult_2 power_add)
  show "0 < unat (drop_bit k x)" using assms(1) by (simp add: e div_greater_zero_iff)
qed

text \<open>The position of the highest bit, counted from the top.\<close>

definition top_bit :: "nat \<Rightarrow> nat \<Rightarrow> nat \<Rightarrow> bool" where
  "top_bit w n v \<longleftrightarrow> 1 \<le> n \<and> n \<le> w \<and> 2 ^ (w - n) \<le> v \<and> v < 2 ^ (w - n + 1)"

text \<open>One halving step of the scan: a result for the half gives a result for the whole.\<close>

lemma top_bit_low: "top_bit k n v \<Longrightarrow> top_bit (2 * k) (n + k) v"
  by (auto simp: top_bit_def)

lemma top_bit_high:
  assumes "top_bit k n (v div 2 ^ k)"
  shows "top_bit (2 * k) n v"
proof -
  have n: "1 \<le> n" "n \<le> k" "2 ^ (k - n) \<le> v div 2 ^ k" "v div 2 ^ k < 2 ^ (k - n + 1)" using assms by (simp_all add: top_bit_def)
  have e: "2 ^ (2 * k - n) = 2 ^ (k - n) * (2 ^ k :: nat)" "2 ^ (2 * k - n + 1) = 2 ^ (k - n + 1) * (2 ^ k :: nat)"
    using n(2) by (simp_all flip: power_add)
  show ?thesis
    unfolding top_bit_def e using n by (simp add: less_eq_div_iff_mult_less_eq div_less_iff_less_mult)
qed

lemma msb_table: "0 < v \<Longrightarrow> v < 16 \<Longrightarrow> top_bit 4 (msb_bvals ! v) v"
  unfolding top_bit_def msb_bvals_def
  by (auto simp: less_Suc_eq numeral_eq_Suc)

definition scan_step :: "nat \<Rightarrow> u32 \<Rightarrow> nat \<Rightarrow> u32 \<times> nat" where
  "scan_step k x a = (if x AND push_bit k (mask k) = 0 then (x, a + k) else (drop_bit k x, a))"

lemma scan_step_top:
  assumes "scan_step k x a = (x', a')" "0 < unat x" "unat x < 2 ^ (2 * k)" "2 * k \<le> 32"
  shows "0 < unat x'" "unat x' < 2 ^ k" "top_bit k n (unat x') \<Longrightarrow> top_bit (2 * k) (n + (a' - a)) (unat x)" "a \<le> a'"
  using assms high_bits_zero [OF assms(3,4)] drop_bit_range [OF _ assms(3)] top_bit_low top_bit_high
  by (auto simp: scan_step_def split: if_splits)

lemma low_nibble: "unat (x :: u32) < 16 \<Longrightarrow> x AND 0xF = x"
proof -
  assume "unat x < 16"
  then have "\<forall>i \<ge> 4. \<not> bit x i" using unat_less_iff_bits [of x 4] by simp
  moreover have "(0xF :: u32) = mask 4" by (simp add: mask_eq_exp_minus_1)
  ultimately show ?thesis by (auto simp: bit_eq_iff bit_simps)
qed

lemma ffs_msb_top: "x \<noteq> 0 \<Longrightarrow> top_bit 32 (ffs_msb x) (unat x)"
proof -
  assume x: "x \<noteq> 0"
  obtain x1 a1 where 1: "scan_step 16 x 0 = (x1, a1)" by (cases "scan_step 16 x 0")
  obtain x2 a2 where 2: "scan_step 8 x1 a1 = (x2, a2)" by (cases "scan_step 8 x1 a1")
  obtain x3 a3 where 3: "scan_step 4 x2 a2 = (x3, a3)" by (cases "scan_step 4 x2 a2")
  have s1: "0 < unat x1" "unat x1 < 2 ^ 16" "\<And>n. top_bit 16 n (unat x1) \<Longrightarrow> top_bit 32 (n + a1) (unat x)"
    using scan_step_top [OF 1] x unsigned_less [of x] by (auto simp: unat_gt_0)
  have s2: "0 < unat x2" "unat x2 < 2 ^ 8" "\<And>n. top_bit 8 n (unat x2) \<Longrightarrow> top_bit 16 (n + (a2 - a1)) (unat x1)" "a1 \<le> a2"
    using scan_step_top [OF 2] s1 by auto
  have s3: "0 < unat x3" "unat x3 < 2 ^ 4" "\<And>n. top_bit 4 n (unat x3) \<Longrightarrow> top_bit 8 (n + (a3 - a2)) (unat x2)" "a2 \<le> a3"
    using scan_step_top [OF 3] s2 by auto
  have m: "push_bit 16 (mask 16) = (0xFFFF0000 :: u32)" "push_bit 8 (mask 8) = (0xFF00 :: u32)" "push_bit 4 (mask 4) = (0xF0 :: u32)"
    by (simp_all add: mask_eq_exp_minus_1 push_bit_eq_mult)
  have "ffs_msb x = a3 + msb_bvals ! unat (x3 AND 0xF)"
    using x 1 2 3 unfolding ffs_msb_def scan_step_def m by (auto simp: Let_def split: if_splits)
  also have "\<dots> = msb_bvals ! unat x3 + a3" using s3(2) by (simp add: low_nibble)
  finally have e: "ffs_msb x = msb_bvals ! unat x3 + (a3 - a2) + (a2 - a1) + a1" using s2(4) s3(4) by simp
  show ?thesis unfolding e by (rule s1(3), rule s2(3), rule s3(3), rule msb_table) (use s3(1,2) in simp_all)
qed

text \<open>The position of the lowest bit.\<close>

definition low_bit :: "nat \<Rightarrow> u32 \<Rightarrow> bool" where
  "low_bit n x \<longleftrightarrow> 1 \<le> n \<and> bit x (n - 1) \<and> (\<forall>i < n - 1. \<not> bit x i)"

definition lsb_step :: "nat \<Rightarrow> u32 \<Rightarrow> nat \<Rightarrow> u32 \<times> nat" where
  "lsb_step k x a = (if x AND mask k = 0 then (drop_bit k x, a + k) else (x, a))"

lemma low_bits_zero: "(x :: u32) AND mask k = 0 \<longleftrightarrow> (\<forall>i < k. \<not> bit x i)"
proof -
  have "bit (x AND mask k) i \<longleftrightarrow> i < k \<and> bit x i" for i using bit_imp_le_length [of x i] by (auto simp: bit_simps)
  then show ?thesis by (metis bit_0_eq bit_word_eqI bot_apply bot_bool_def)
qed

lemma lsb_step_low:
  assumes "lsb_step k x a = (x', a')" "x AND mask (2 * k) \<noteq> 0"
  shows "x' AND mask k \<noteq> 0" "low_bit n x' \<Longrightarrow> low_bit (n + (a' - a)) x" "a \<le> a'"
proof -
  show "x' AND mask k \<noteq> 0"
  proof (cases "x AND mask k = 0")
    case True
    obtain i where i: "i < 2 * k" "bit x i" using assms(2) low_bits_zero [of x "2 * k"] by blast
    then have "k \<le> i" using True low_bits_zero [of x k] by (meson not_le)
    then have "bit (drop_bit k x) (i - k)" "i - k < k" using i by (simp_all add: bit_drop_bit_eq)
    then show ?thesis using assms(1) True low_bits_zero [of x' k] by (auto simp: lsb_step_def)
  qed (use assms in \<open>simp add: lsb_step_def\<close>)
  show "low_bit (n + (a' - a)) x" if "low_bit n x'"
  proof (cases "x AND mask k = 0")
    case True
    then have x': "x' = drop_bit k x" "a' = a + k" using assms(1) by (simp_all add: lsb_step_def)
    have n: "1 \<le> n" "bit x (k + (n - 1))" "\<forall>i < n - 1. \<not> bit x (k + i)"
      using that unfolding low_bit_def x'(1) bit_drop_bit_eq o_def by blast+
    have "\<not> bit x i" if "i < n + k - 1" for i
      using n(3) True low_bits_zero [of x k] that n(1) by (cases "i < k") (auto dest: spec [of _ "i - k"])
    moreover have "n + k - 1 = k + (n - 1)" using n(1) by simp
    ultimately show ?thesis using n(1,2) unfolding low_bit_def x'(2) by simp
  qed (use that assms in \<open>simp add: lsb_step_def\<close>)
  show "a \<le> a'" using assms(1) by (auto simp: lsb_step_def split: if_splits)
qed

lemma lsb_table:
  assumes "0 < v" "v < 16"
  shows "1 \<le> lsb_bvals ! v \<and> lsb_bvals ! v \<le> 4 \<and> bit v (lsb_bvals ! v - 1) \<and> (\<forall>i < lsb_bvals ! v - 1. \<not> bit v i)"
proof -
  have "list_all (\<lambda>v. 1 \<le> lsb_bvals ! v \<and> lsb_bvals ! v \<le> 4 \<and> bit v (lsb_bvals ! v - 1)
      \<and> list_all (\<lambda>i. \<not> bit v i) [0..<lsb_bvals ! v - 1]) [1..<16]" by code_simp
  then show ?thesis using assms by (simp add: list_all_iff)
qed

lemma ffs_lsb_low: "x \<noteq> 0 \<Longrightarrow> low_bit (ffs_lsb x) x"
proof -
  assume x: "x \<noteq> 0"
  obtain x1 a1 where 1: "lsb_step 16 x 0 = (x1, a1)" by (cases "lsb_step 16 x 0")
  obtain x2 a2 where 2: "lsb_step 8 x1 a1 = (x2, a2)" by (cases "lsb_step 8 x1 a1")
  obtain x3 a3 where 3: "lsb_step 4 x2 a2 = (x3, a3)" by (cases "lsb_step 4 x2 a2")
  have "(mask 32 :: u32) = - 1" by (rule bit_word_eqI) (simp add: bit_simps)
  then have x0: "x AND mask (2 * 16) \<noteq> 0" using x by simp
  note s1 = lsb_step_low [OF 1 x0] 
  note s2 = lsb_step_low [OF 2, simplified, OF s1(1)]
  note s3 = lsb_step_low [OF 3, simplified, OF s2(1)]
  have m: "mask 16 = (0xFFFF :: u32)" "mask 8 = (0xFF :: u32)" "mask 4 = (0xF :: u32)" by (simp_all add: mask_eq_exp_minus_1)
  have e: "ffs_lsb x = lsb_bvals ! unat (x3 AND 0xF) + (a3 - a2) + (a2 - a1) + (a1 - 0)"
    using x 1 2 3 s1(3) s2(3) s3(3) unfolding ffs_lsb_def lsb_step_def m by (auto simp: Let_def split: if_splits)
  let ?v = "unat (x3 AND mask 4)"
  have b: "bit ?v i \<longleftrightarrow> i < 4 \<and> bit x3 i" for i
    using bit_imp_le_length [of x3 i] by (auto simp: bit_unsigned_iff bit_simps)
  have "0 < ?v" using s3(1) by (simp add: unat_gt_0)
  moreover have "?v < 2 ^ 4" unfolding unat_less_iff_bits by (simp add: bit_simps)
  ultimately have "low_bit (lsb_bvals ! ?v) x3" using lsb_table [of ?v] b by (auto simp: low_bit_def)
  then show ?thesis unfolding e using s1(2) s2(2) s3(2) m(3) by simp
qed

section \<open>Square roots\<close>

text \<open>Newton's step never falls below the root, and falls as long as it is above it.\<close>

lemma newton_lower:
  fixes x y s :: nat
  assumes "s * s \<le> x" "0 < y"
  shows "s \<le> (y + x div y) div 2"
proof -
  have "2 * s * y \<le> y * y + s * s"
    using zero_le_square [of "int y - int s"] by (simp add: algebra_simps flip: of_nat_mult of_nat_add)
  also have "\<dots> \<le> y * y + x" using assms(1) by simp
  finally have "(2 * s) * y \<le> y * y + x" by simp
  then have "(2 * s) * y div y \<le> (y * y + x) div y" by (rule div_le_mono)
  then have "2 * s \<le> y + x div y" using assms(2) by simp
  then show ?thesis by simp
qed

lemma newton_falls:
  fixes x y s :: nat
  assumes "x < (s + 1) * (s + 1)" "s < y"
  shows "(y + x div y) div 2 < y"
proof -
  have "(s + 1) * (s + 1) \<le> y * y" using assms(2) by (intro mult_mono) simp_all
  then have "x div y < y" using assms by (simp add: div_less_iff_less_mult)
  then show ?thesis by simp
qed

lemma div_root_bound:
  fixes x y s :: nat
  assumes "x < (s + 1) * (s + 1)" "s \<le> y" "0 < s"
  shows "x div y \<le> s + 2"
proof -
  have "x div y \<le> x div s" by (rule div_le_mono2) (use assms in simp_all)
  also have "x < (s + 3) * s" using assms(1,3) by (simp add: algebra_simps)
  then have "x div s \<le> s + 2" using assms(3) less_mult_imp_div_less [of x "s + 3" s] by simp
  finally show ?thesis .
qed

lemma newton_correct:
  fixes x z :: "'a::len word"
  assumes "s * s \<le> unat x" "unat x < (s + 1) * (s + 1)" "0 < s" "s \<le> unat z" "2 * (s + 3) \<le> 2 ^ LENGTH('a)"
    "unat z + s + 2 < 2 ^ LENGTH('a) \<or> unat x < unat z" "1 < LENGTH('a)"
  shows "\<exists>y. newton x z = Some y \<and> s \<le> unat y \<and> unat y \<le> s + 1 \<and> unat y \<le> (s + unat x div s) div 2"
  using assms
proof (induction x z rule: newton.induct)
  case (1 x z)
  have z: "0 < unat z" "z \<noteq> 0" using "1.prems"(3,4) by auto
  have "unat z + unat x div unat z < 2 ^ LENGTH('a)"
    using "1.prems"(6) div_root_bound [OF "1.prems"(2,4,3)] unsigned_less [of z] by (auto simp: div_less)
  then have u: "unat ((z + x div z) div 2) = (unat z + unat x div unat z) div 2"
    using "1.prems"(7) by (simp add: unat_div_distrib unat_word_ariths)
  show ?case
  proof (cases "s < unat z")
    case True
    have lt: "(z + x div z) div 2 < z" using newton_falls [OF "1.prems"(2) True] u by (simp add: word_less_nat_alt)
    have "unat ((z + x div z) div 2) + s + 2 < 2 ^ LENGTH('a)"
    proof (cases "unat x < unat z")
      case True
      then have "2 * unat ((z + x div z) div 2) \<le> unat z" using u by simp
      moreover have "2 * a \<le> b \<Longrightarrow> b < P \<Longrightarrow> 2 * (s + 3) \<le> P \<Longrightarrow> a + s + 2 < P" for a b P :: nat by arith
      ultimately show ?thesis using "1.prems"(5) unsigned_less [of z, where ?'a = nat] by blast
    next
      case False
      moreover have "a < b \<Longrightarrow> b + s + 2 < P \<Longrightarrow> a + s + 2 < P" for a b P :: nat by arith
      ultimately show ?thesis using "1.prems"(6) lt unfolding word_less_nat_alt by blast
    qed
    then show ?thesis
      using "1.IH" [OF z(2) refl lt] "1.prems"(1-3,5,7) newton_lower [OF "1.prems"(1) z(1)] u lt z(2) newton.simps [of x z] by simp
  next
    case False
    then have "unat z = s" using "1.prems"(4) by simp
    then have "\<not> (z + x div z) div 2 < z" using newton_lower [OF "1.prems"(1) z(1)] u by (simp add: word_less_nat_alt)
    then have "newton x z = Some ((z + x div z) div 2)" using z(2) newton.simps [of x z] by simp
    then show ?thesis
      using newton_lower [OF "1.prems"(1) z(1)] u \<open>unat z = s\<close> div_root_bound [OF "1.prems"(2) order_refl "1.prems"(3)] by simp
  qed
qed

lemma lower_correct:
  fixes x y :: "'a::len word"
  assumes "s * s \<le> unat x" "unat x < (s + 1) * (s + 1)" "s \<le> unat y" "unat y \<le> s + 1" "unat y * unat y < 2 ^ LENGTH('a)"
  shows "unat (lower x y) = s"
proof (cases "unat y = s")
  case True
  then have "\<not> x < y * y" using assms(1,5) by (simp add: word_less_nat_alt unat_word_ariths)
  then show ?thesis using True lower.simps [of x y] by simp
next
  case False
  then have y: "unat y = s + 1" using assms(3,4) by simp
  then have lt: "x < y * y" using assms(2,5) by (simp add: word_less_nat_alt unat_word_ariths)
  have "y \<noteq> 0" using y by auto
  then have y1: "unat (y - 1) = s" using y by (simp add: unat_minus_one)
  have "s * s < 2 ^ LENGTH('a)" using assms(1) unsigned_less [of x] by (rule le_less_trans)
  then have "\<not> x < (y - 1) * (y - 1)" using assms(1) y1 by (simp add: word_less_nat_alt unat_word_ariths)
  then show ?thesis using lt y1 lower.simps [of x y] lower.simps [of x "y - 1"] by simp
qed

lemma root_exists: "\<exists>s. s * s \<le> x \<and> x < (s + 1) * (s + 1)" for x :: nat
proof (induction x)
  case (Suc x)
  then obtain s where s: "s * s \<le> x" "x < (s + 1) * (s + 1)" by blast
  show ?case
  proof (cases "Suc x < (s + 1) * (s + 1)")
    case True
    then show ?thesis using s(1) by (intro exI [of _ s]) simp
  next
    case False
    then have "Suc x = (s + 1) * (s + 1)" using s(2) by simp
    then show ?thesis by (intro exI [of _ "s + 1"]) simp
  qed
qed simp

text \<open>Both loops together, from any start above the root.\<close>

lemma sqrt_loops:
  fixes x z :: "'a::len word"
  assumes "s * s \<le> unat x" "unat x < (s + 1) * (s + 1)" "0 < s" "s \<le> unat z" "2 * (s + 3) \<le> 2 ^ LENGTH('a)"
    "unat z + s + 2 < 2 ^ LENGTH('a) \<or> unat x < unat z" "1 < LENGTH('a)" "(s + 1) * (s + 1) < 2 ^ LENGTH('a) \<or> unat x < s * (s + 2)"
  shows "map_option unat (map_option (lower x) (newton x z)) = Some s"
proof -
  obtain y where y: "newton x z = Some y" "s \<le> unat y" "unat y \<le> s + 1" "unat y \<le> (s + unat x div s) div 2"
    using newton_correct [OF assms(1-7)] by blast
  have "unat y * unat y < 2 ^ LENGTH('a)"
  proof (cases "(s + 1) * (s + 1) < 2 ^ LENGTH('a)")
    case True
    have "unat y * unat y \<le> (s + 1) * (s + 1)" using y(3) by (rule mult_le_mono) (rule y(3))
    then show ?thesis using True by linarith
  next
    case False
    then have "unat x div s < s + 2" using assms(3,8) less_mult_imp_div_less [of "unat x" "s + 2" s] by (simp add: mult.commute)
    then have "unat y = s" using y(2,4) by simp
    then show ?thesis using le_less_trans [OF assms(1) unsigned_less] by simp
  qed
  then show ?thesis using lower_correct [OF assms(1,2) y(2,3)] y(1) by simp
qed

lemma root_below:
  fixes s x k :: nat
  assumes "s * s \<le> x" "x < 2 ^ k * 2 ^ k"
  shows "s < 2 ^ k"
proof (rule ccontr)
  assume "\<not> s < 2 ^ k"
  then have "2 ^ k * 2 ^ k \<le> s * s" by (intro mult_le_mono) simp_all
  then show False using assms by simp
qed

text \<open>The start of the iteration is above the root.\<close>

lemma sqrt_start:
  assumes "top_bit w n x" "s * s \<le> x"
  shows "s < 2 ^ ((w - n) div 2 + 1)"
proof (rule root_below [OF assms(2)])
  have "x < 2 ^ (w - n + 1)" using assms(1) by (simp add: top_bit_def)
  also have "(2 :: nat) ^ (w - n + 1) \<le> 2 ^ ((w - n) div 2 + 1 + ((w - n) div 2 + 1))" by (rule power_increasing) simp_all
  finally show "x < 2 ^ ((w - n) div 2 + 1) * 2 ^ ((w - n) div 2 + 1)" by (simp add: power_add)
qed

lemma special_case: "x + 1 \<le> (1 :: 'a::len word) \<longleftrightarrow> x = 0 \<or> x = - 1"
proof -
  have "x + 1 \<le> 1 \<longleftrightarrow> x + 1 = 0 \<or> x + 1 = 1" 
    by (auto simp: word_le_nat_alt le_Suc_eq word_unat_eq_iff)
  then show ?thesis by (simp add: eq_neg_iff_add_eq_0 disj_commute)
qed

lemma unat_push_bit_1: "k < LENGTH('a) \<Longrightarrow> unat (push_bit k (1 :: 'a::len word)) = 2 ^ k"
proof -
  assume "k < LENGTH('a)"
  then have "(2 :: nat) ^ k mod 2 ^ LENGTH('a) = 2 ^ k" by simp
  then show ?thesis using unat_of_nat [of "2 ^ k", where ?'a = 'a] by (simp add: push_bit_eq_mult)
qed

lemma int_sqrt_root:
  assumes "s * s \<le> unat x" "unat x < (s + 1) * (s + 1)"
  shows "map_option unat (int_sqrt x) = Some s"
proof (cases "x + 1 \<le> 1")
  case True
  then consider "x = 0" | "x = - 1" using special_case by blast
  then show ?thesis
  proof cases
    case 1
    then have "s = 0" using assms(1) by simp
    then show ?thesis using 1 by (simp add: int_sqrt_def)
  next
    case 2
    have "unat (- 1 :: u32) = 4294967295" by (simp add: unsigned_minus_1_eq_mask mask_eq_exp_minus_1)
    then have x: "s * s < 2 ^ 16 * 2 ^ 16" "65535 * 65535 < (s + 1) * (s + 1)" using assms 2 by simp_all
    have "s < 2 ^ 16" by (rule root_below [OF order_refl x(1)])
    moreover have "65535 < s + 1" using x(2) by (metis mult_le_mono not_le)
    ultimately have "s = 65535" by simp
    then show ?thesis using True 2 by (simp add: int_sqrt_def)
  qed
next
  case False
  then have x: "x \<noteq> 0" "x \<noteq> - 1" using special_case by blast+
  have m1: "unat x = 4294967295 \<Longrightarrow> x = - 1" by (simp add: word_unat_eq_iff unsigned_minus_1_eq_mask mask_eq_exp_minus_1)
  let ?k = "(32 - ffs_msb x) div 2 + 1"
  note t = ffs_msb_top [OF x(1)]
  have "1 \<le> ffs_msb x" using t by (simp add: top_bit_def)
  then have k: "?k \<le> 16" by arith
  then have z: "unat (push_bit ?k (1 :: u32)) = 2 ^ ?k" by (intro unat_push_bit_1) simp
  have x32: "unat x < 2 ^ 16 * 2 ^ 16" using unsigned_less [of x, where ?'a = nat] by simp
  have s: "s < 2 ^ 16" by (rule root_below [OF assms(1) x32])
  have "0 < s" using assms(2) x(1) by (cases s) (auto simp: unat_eq_zero)
  moreover have "s \<le> unat (push_bit ?k (1 :: u32))" using sqrt_start [OF t assms(1)] z by simp
  moreover have "unat (push_bit ?k (1 :: u32)) \<le> 2 ^ 16" unfolding z using k by (intro power_increasing) simp_all
  moreover have "(s + 1) * (s + 1) < 2 ^ 32 \<or> unat x < s * (s + 2)"
  proof (cases "s < 65535")
    case True
    then have "(s + 1) * (s + 1) \<le> 65535 * 65535" by (intro mult_le_mono) simp_all
    then show ?thesis by simp
  next
    case False
    then have "s = 65535" using s by simp
    moreover have "unat x \<noteq> 4294967295" using x(2) by (metis m1)
    ultimately show ?thesis using x32 by simp
  qed
  ultimately have "map_option unat (map_option (lower x) (newton x (push_bit ?k 1))) = Some s"
    using s by (intro sqrt_loops [OF assms]) simp_all
  then show ?thesis using False by (simp add: int_sqrt_def)
qed

text \<open>\<open>int_sqrt\<close> returns, for every 32-bit number, the largest number whose square is at
  most the argument: neither loop runs forever, divides by zero or overflows.\<close>

theorem int_sqrt_correct:
  "\<exists>y. int_sqrt x = Some y \<and> unat y * unat y \<le> unat x \<and> unat x < (unat y + 1) * (unat y + 1)"
proof -
  obtain s where "s * s \<le> unat x" "unat x < (s + 1) * (s + 1)" using root_exists by blast
  then show ?thesis using int_sqrt_root [of s x] by (auto simp: map_option_case split: option.splits)
qed

lemma top_bit_unique:
  assumes "top_bit w n v" "2 ^ m \<le> v" "v < 2 ^ (m + 1)" "m < w"
  shows "n = w - m"
proof -
  have n: "1 \<le> n" "n \<le> w" "2 ^ (w - n) \<le> v" "v < 2 ^ (w - n + 1)" using assms(1) by (simp_all add: top_bit_def)
  have "(2 :: nat) ^ (w - n) < 2 ^ (m + 1)" "(2 :: nat) ^ m < 2 ^ (w - n + 1)"
    using n(3,4) assms(2,3) by (metis le_less_trans)+
  then have "w - n < m + 1" "m < w - n + 1" by (metis one_less_numeral_iff power_less_imp_less_exp semiring_norm(76))+
  then show ?thesis using n(2) by simp
qed

lemma ffs_msb64_top:
  assumes "x \<noteq> 0"
  shows "top_bit 64 (ffs_msb64 x) (unat x)"
proof -
  let ?hi = "ucast (drop_bit 32 x) :: u32" and ?lo = "ucast x :: u32"
  have d: "unat (drop_bit 32 x) = unat x div 2 ^ 32" unfolding unat_drop_bit_eq by (rule drop_bit_eq_div)
  have x: "unat x < 2 ^ 64" using unsigned_less [of x, where ?'a = nat] by simp
  then have "unat x div 2 ^ 32 < 2 ^ 32" by (simp add: div_less_iff_less_mult)
  then have hi: "unat ?hi = unat x div 2 ^ 32" using d by (simp add: unsigned_ucast_eq take_bit_nat_eq_self)
  show ?thesis
  proof (cases "?hi = 0")
    case True
    then have "unat x < 2 ^ 32" using hi by (simp add: div_eq_0_iff)
    then have lo: "unat ?lo = unat x" by (simp add: unsigned_ucast_eq take_bit_nat_eq_self)
    then have "?lo \<noteq> 0" using assms by (metis unat_eq_zero)
    then show ?thesis using True top_bit_low [of 32 _ "unat x"] ffs_msb_top [of ?lo] lo by (simp add: ffs_msb64_def Let_def add.commute)
  next
    case False
    then show ?thesis using top_bit_high [of 32 _ "unat x"] ffs_msb_top [OF False] hi by (simp add: ffs_msb64_def)
  qed
qed

lemma int_shift1_cases:
  "k < 31 \<Longrightarrow> int_shift1 k = Some (2 ^ k)" "int_shift1 31 = Some (- 2147483648)" "32 \<le> k \<Longrightarrow> int_shift1 k = None"
proof -
  show "int_shift1 k = Some (2 ^ k)" if "k < 31"
  proof -
    have "(2 :: int) ^ k < 2 ^ 31" using that by (intro power_strict_increasing) simp_all
    moreover have "- (2 ^ 31) \<le> (2 :: int) ^ k" by (rule order_trans [of _ 0]) simp_all
    ultimately have "signed_take_bit 31 ((2 :: int) ^ k) = 2 ^ k" by (intro signed_take_bit_int_eq_self)
    then have "sint (word_of_int (2 ^ k) :: u32) = 2 ^ k" by (simp only: sint_sbintrunc') simp
    then show ?thesis using that by (simp add: int_shift1_def push_bit_eq_mult)
  qed
qed (simp_all add: int_shift1_def push_bit_eq_mult)

text \<open>The 64-bit root is right up to the largest argument whose start the shift can express.\<close>

lemma int_sqrt64_root:
  assumes "s * s \<le> unat x" "unat x < (s + 1) * (s + 1)" "unat x < 2 ^ 62" "x \<noteq> 0"
  shows "map_option unat (int_sqrt64 x) = Some s"
proof -
  note t = ffs_msb64_top [OF assms(4)]
  let ?k = "(64 - ffs_msb64 x) div 2 + 1"
  have "unat (- 1 :: u64) = 18446744073709551615" by (simp add: unsigned_minus_1_eq_mask mask_eq_exp_minus_1)
  then have "x \<noteq> - 1" using assms(3) by auto
  then have ne: "\<not> x + 1 \<le> 1" using assms(4) special_case by blast
  have "(2 :: nat) ^ (64 - ffs_msb64 x) < 2 ^ 62" using t assms(3) unfolding top_bit_def by linarith
  then have "64 - ffs_msb64 x < 62" by (metis one_less_numeral_iff power_less_imp_less_exp semiring_norm(76))
  then have k: "?k \<le> 31" by arith
  have s: "s < 2 ^ 31" using root_below [OF assms(1), of 31] assms(3) by simp
  then have s1: "(s + 1) * (s + 1) \<le> 2147483648 * 2147483648" by (intro mult_le_mono) simp_all
  have s0: "0 < s" using assms(2,4) by (cases s) (auto simp: unat_eq_zero)
  have "\<exists>z. int_shift1 ?k = Some z \<and> s \<le> unat (of_int z :: u64) \<and> (unat (of_int z :: u64) + s + 2 < 2 ^ 64 \<or> unat x < unat (of_int z :: u64))"
  proof (cases "?k = 31")
    case True
    have "unat (of_int (- 2147483648) :: u64) = 18446744071562067968" by simp
    then show ?thesis using True int_shift1_cases(2) s assms(3) by simp
  next
    case False
    then have "?k < 31" using k by simp
    moreover have "unat (of_int (2 ^ ?k) :: u64) = 2 ^ ?k" using unat_push_bit_1 [of ?k, where ?'a = 64] k by (simp add: push_bit_eq_mult)
    moreover have "(2 :: nat) ^ ?k \<le> 2 ^ 31" using k by (intro power_increasing) simp_all
    ultimately show ?thesis using int_shift1_cases(1) [of ?k] sqrt_start [OF t assms(1)] s by simp
  qed
  then obtain z where z: "int_shift1 ?k = Some z" "s \<le> unat (of_int z :: u64)"
    "unat (of_int z :: u64) + s + 2 < 2 ^ 64 \<or> unat x < unat (of_int z :: u64)" by blast
  have "map_option unat (map_option (lower x) (newton x (of_int z))) = Some s"
    by (rule sqrt_loops [OF assms(1,2) s0 z(2)]) (use s s1 z(3) in simp_all)
  then show ?thesis using ne z(1) by (simp add: int_sqrt64_def)
qed

lemma int_sqrt64_undefined:
  assumes "2 ^ 62 \<le> unat x" "x \<noteq> - 1"
  shows "int_sqrt64 x = None"
proof -
  have "x \<noteq> 0" using assms(1) by auto
  then have ne: "\<not> x + 1 \<le> 1" and t: "top_bit 64 (ffs_msb64 x) (unat x)" using assms(2) special_case ffs_msb64_top by blast+
  have "(2 :: nat) ^ 62 < 2 ^ (64 - ffs_msb64 x + 1)" using t assms(1) unfolding top_bit_def by linarith
  then have "62 < 64 - ffs_msb64 x + 1" by (metis one_less_numeral_iff power_less_imp_less_exp semiring_norm(76))
  then have "32 \<le> (64 - ffs_msb64 x) div 2 + 1" by arith
  then show ?thesis using ne int_shift1_cases(3) by (simp add: int_sqrt64_def)
qed

text \<open>\<open>int_sqrt\<close> on 64-bit numbers returns the integer square root for every argument below
  \<open>2\<^sup>6\<^sup>2\<close>, and has no defined result for any larger one but the largest: its start is an
  \<open>int\<close> shifted by 32.\<close>

theorem int_sqrt64_behavior:
  "if x = - 1 then int_sqrt64 x = Some 0xFFFFFFFF
   else if unat x < 2 ^ 62
        then \<exists>y. int_sqrt64 x = Some y \<and> unat y * unat y \<le> unat x \<and> unat x < (unat y + 1) * (unat y + 1)
        else int_sqrt64 x = None"
proof -
  obtain s where s: "s * s \<le> unat x" "unat x < (s + 1) * (s + 1)" using root_exists by blast
  show ?thesis
  proof (cases "x = 0 \<or> x = - 1")
    case True
    then show ?thesis by (auto simp: int_sqrt64_def)
  next
    case False
    then show ?thesis using int_sqrt64_root [OF s] s int_sqrt64_undefined [of x]
      by (auto simp: map_option_case split: option.splits)
  qed
qed

section \<open>Multiplication and division\<close>

lemma word_halves:
  fixes a :: u32
  defines "l \<equiv> unat (a AND 0xFFFF)" and "h \<equiv> unat (drop_bit 16 a)"
  shows "l = unat a mod 65536" "h = unat a div 65536" "l < 65536" "h < 65536" "unat a = l + 65536 * h"
proof -
  have m: "(0xFFFF :: u32) = mask 16" by (simp add: mask_eq_exp_minus_1)
  show l: "l = unat a mod 65536" unfolding l_def m take_bit_eq_mask [symmetric] unsigned_take_bit_eq by (simp add: take_bit_eq_mod)
  have "h = unat a div 2 ^ 16" unfolding h_def unat_drop_bit_eq by (rule drop_bit_eq_div)
  then show h: "h = unat a div 65536" by simp
  show "l < 65536" "unat a = l + 65536 * h" unfolding l h by simp_all
  show "h < 65536" unfolding h using unsigned_less [of a, where ?'a = nat] by (simp add: div_less_iff_less_mult)
qed

lemma half_product: "l < 65536 \<Longrightarrow> h < 65536 \<Longrightarrow> l * h \<le> 4294836225" for l h :: nat
  using mult_le_mono [of l 65535 h 65535] by simp

lemma unat_half_product:
  fixes a b :: u32
  assumes "unat a < 65536" "unat b < 65536"
  shows "unat (a * b) = unat a * unat b"
  using half_product [OF assms] by (simp add: unat_word_ariths)

lemma high_part: "l + 4294967296 * h = p \<Longrightarrow> p < 4294967296 * 4294967296 \<Longrightarrow> h < 4294967296" for l h p :: nat
  by simp

lemma carry_sum:
  fixes d m :: nat
  assumes "d * 65536 + m = p00" "d' * 65536 + m' + 4294967296 * c = p01 + d + p10"
  shows "m' * 65536 + m + 4294967296 * (p11 + 65536 * c + d') = p00 + 65536 * (p10 + p01) + 4294967296 * p11"
proof -
  have "65536 * (d' * 65536 + m' + 4294967296 * c) = 65536 * (p01 + d + p10)" unfolding assms(2) ..
  then show ?thesis unfolding assms(1) [symmetric] by simp
qed

text \<open>The carries of the multiplication by halves, on the four partial products.\<close>

lemma halves_carry:
  fixes p00 p01 p10 p11 :: nat
  assumes "p00 \<le> 4294836225" "p01 \<le> 4294836225" "p10 \<le> 4294836225" "p11 \<le> 4294836225"
  defines "r2 \<equiv> (p01 + p00 div 65536 + p10) mod 4294967296"
  defines "r3 \<equiv> (if r2 < p10 then p11 + 65536 else p11)"
  shows "r2 mod 65536 * 65536 + p00 mod 65536 + 4294967296 * (r3 + r2 div 65536) = p00 + 65536 * (p10 + p01) + 4294967296 * p11"
proof (cases "p01 + p00 div 65536 + p10 < 4294967296")
  case True
  then have "r2 = p01 + p00 div 65536 + p10" "r3 = p11" unfolding r2_def r3_def by simp_all
  then show ?thesis using carry_sum [OF div_mult_mod_eq, of "r2 div 65536" "r2 mod 65536" 0 p01 p00 p10 p11] by simp
next
  case False
  have "p00 div 65536 \<le> 4294836225 div 65536" using assms(1) by (rule div_le_mono)
  then have lt: "p01 + p00 div 65536 < 4294967296" using assms(2) by simp
  then have "(p01 + p00 div 65536 + p10) div 4294967296 = 1" using False assms(3) by simp
  then have "r2 + 4294967296 = p01 + p00 div 65536 + p10" unfolding r2_def
    using div_mult_mod_eq [of "p01 + p00 div 65536 + p10" 4294967296] by simp
  moreover from this have "r3 = p11 + 65536" unfolding r3_def using lt by simp
  ultimately show ?thesis using carry_sum [OF div_mult_mod_eq, of "r2 div 65536" "r2 mod 65536" 1 p01 p00 p10 p11] by simp
qed

lemma unat_add_small: "unat x + unat y < 4294967296 \<Longrightarrow> unat (x + y) = unat x + unat y" for x y :: u32
  by (simp add: unat_word_ariths)

text \<open>The last two lines: putting the halves together.\<close>

lemma join_halves:
  fixes r0 r2 r3 :: u32
  assumes "unat r3 + unat r2 div 65536 < 4294967296"
  shows "unat (push_bit 16 r2 + (r0 AND 0xFFFF)) = unat r2 mod 65536 * 65536 + unat r0 mod 65536"
    "unat (r3 + drop_bit 16 r2) = unat r3 + unat r2 div 65536"
proof -
  have p: "unat (push_bit 16 r2) = unat r2 mod 65536 * 65536"
    using mult_mod_right [of 65536 "unat r2" 65536] by (simp add: push_bit_eq_mult unat_word_ariths mult.commute)
  have "unat r2 mod 65536 * 65536 + unat r0 mod 65536 < 4294967296"
    using mod_less_divisor [of 65536 "unat r2"] mod_less_divisor [of 65536 "unat r0"] by linarith
  then show "unat (push_bit 16 r2 + (r0 AND 0xFFFF)) = unat r2 mod 65536 * 65536 + unat r0 mod 65536"
    using unat_add_small [of "push_bit 16 r2" "r0 AND 0xFFFF"] p word_halves(1) [of r0] by simp
  show "unat (r3 + drop_bit 16 r2) = unat r3 + unat r2 div 65536"
    using unat_add_small [of r3 "drop_bit 16 r2"] assms word_halves(2) [of r2] by simp
qed

lemma int_multiply_product:
  assumes "int_multiply a b = (lo, hi)"
  shows "unat lo + 4294967296 * unat hi = unat a * unat b"
proof -
  define al ah bl bh where d: "al = a AND 0xFFFF" "ah = drop_bit 16 a" "bl = b AND 0xFFFF" "bh = drop_bit 16 b"
  note A = word_halves [of a, folded d] and B = word_halves [of b, folded d]
  note p = half_product [OF A(3) B(3)] half_product [OF A(3) B(4)] half_product [OF A(4) B(3)] half_product [OF A(4) B(4)]
  note u = unat_half_product [OF A(3) B(3)] unat_half_product [OF A(3) B(4)] unat_half_product [OF A(4) B(3)] unat_half_product [OF A(4) B(4)]
  define r2 where r2_def: "r2 = al * bh + drop_bit 16 (al * bl) + ah * bl"
  define r3 where r3_def: "r3 = (if r2 < ah * bl then ah * bh + 0x10000 else ah * bh)"
  have r2: "unat r2 = (unat al * unat bh + unat al * unat bl div 65536 + unat ah * unat bl) mod 4294967296"
    unfolding r2_def unat_word_ariths(1) word_halves(2) u by (simp add: mod_simps)
  have "unat (ah * bh + 0x10000) = unat ah * unat bh + 65536" using unat_add_small [of "ah * bh" "0x10000"] u(4) p(4) by simp
  then have r3: "unat r3 = (if unat r2 < unat ah * unat bl then unat ah * unat bh + 65536 else unat ah * unat bh)"
    unfolding r3_def word_less_nat_alt by (simp add: u)
  have e: "lo = push_bit 16 r2 + (al * bl AND 0xFFFF)" "hi = r3 + drop_bit 16 r2"
    using assms unfolding int_multiply_def Let_def r3_def r2_def d by simp_all
  have "unat a * unat b = unat al * unat bl + 65536 * (unat ah * unat bl + unat al * unat bh) + 4294967296 * (unat ah * unat bh)"
    unfolding A(5) B(5) by (simp add: algebra_simps)
  then have eq: "unat r2 mod 65536 * 65536 + unat al * unat bl mod 65536 + 4294967296 * (unat r3 + unat r2 div 65536) = unat a * unat b"
    using halves_carry [OF p, folded r2, folded r3] by (rule trans [OF _ sym, rotated])
  have "unat a * unat b < 4294967296 * 4294967296"
    using unsigned_less [of a, where ?'a = nat] unsigned_less [of b, where ?'a = nat] by (intro mult_strict_mono) simp_all
  then have hi: "unat r3 + unat r2 div 65536 < 4294967296" by (rule high_part [OF eq])
  show ?thesis unfolding e join_halves [OF hi] u by (rule eq)
qed

text \<open>Floor division of a signed dividend: the quotient rounds towards minus infinity and the
  remainder is that of the mathematical division.\<close>

lemma floor_div_neg: "a < 0 \<Longrightarrow> 0 < b \<Longrightarrow> - ((- (a + 1)) div b) - 1 = a div b" for a b :: int
proof -
  assume ab: "a < 0" "0 < b"
  define q where "q = (- (a + 1)) div b"
  have "- (a + 1) = q * b + (- (a + 1)) mod b" unfolding q_def by simp
  moreover have "0 \<le> (- (a + 1)) mod b" "(- (a + 1)) mod b < b" using ab by simp_all
  ultimately have "a div b = - q - 1"
    by (intro int_div_pos_eq [of a b "- q - 1" "a + (q + 1) * b"]) (simp_all add: algebra_simps)
  then show ?thesis by (simp add: q_def)
qed

lemma div_le_dividend_int: "0 \<le> a \<Longrightarrow> 0 < b \<Longrightarrow> a div b \<le> a" for a b :: int
  using zdiv_mono2 [of a 1 b] by simp

lemma div_s32_range: "- 2147483648 \<le> a \<Longrightarrow> a < 2147483648 \<Longrightarrow> 0 < b \<Longrightarrow> - 2147483648 \<le> a div b \<and> a div b < 2147483648" for a b :: int
proof (cases "a < 0")
  case True
  assume "- 2147483648 \<le> a" "0 < b"
  then have "a \<le> a div b" using True by (metis div_by_1 int_one_le_iff_zero_less less_imp_le zdiv_mono2_neg zero_less_one)
  moreover have "a div b < 0" using True \<open>0 < b\<close> by (metis pos_imp_zdiv_neg_iff)
  ultimately show ?thesis using \<open>- 2147483648 \<le> a\<close> by linarith
next
  case False
  assume "a < 2147483648" "0 < b"
  then have "0 \<le> a div b" "a div b \<le> a" using False div_le_dividend_int [of a b] by (simp_all add: pos_imp_zdiv_nonneg_iff)
  then show ?thesis using \<open>a < 2147483648\<close> by linarith
qed

lemma uint_of_int_small: "0 \<le> k \<Longrightarrow> k < 4294967296 \<Longrightarrow> uint (word_of_int k :: u32) = k"
  by (simp add: unsigned_of_int take_bit_int_eq_self)

lemma sint_of_int_small: "- 2147483648 \<le> k \<Longrightarrow> k < 2147483648 \<Longrightarrow> sint (word_of_int k :: u32) = k"
  by (simp add: sint_sbintrunc' signed_take_bit_int_eq_self)

lemma int_remainder_floor:
  assumes "b \<noteq> 0"
  shows "\<exists>q rem. int_remainder a b = Some (q, rem) \<and> sint q = sint a div uint b \<and> uint rem = sint a mod uint b"
proof -
  let ?A = "sint a" and ?B = "uint b"
  have A: "- 2147483648 \<le> ?A" "?A < 2147483648" using sint_ge [of a] sint_lt [of a] by simp_all
  have B: "0 < ?B" "?B < 4294967296" using assms unsigned_less [of b, where ?'a = int] by (simp_all add: order_less_le uint_0_iff)
  define q where "q = (if sint a < 0 then - ((- (a + 1)) div b) - 1 else a div b)"
  have q: "q = word_of_int (?A div ?B)"
  proof (cases "?A < 0")
    case True
    have "uint (- (a + 1)) = - (?A + 1)"
      using A True uint_of_int_small [of "- (?A + 1)"] by simp
    then have "(- (a + 1)) div b = word_of_int ((- (?A + 1)) div ?B)" by (simp add: word_div_def)
    then show ?thesis using True floor_div_neg [OF True B(1)] by (simp add: q_def flip: floor_div_neg [OF True B(1)])
  next
    case False
    then have "uint a = ?A" using A uint_of_int_small [of ?A] by simp
    then show ?thesis using False by (simp add: q_def word_div_def)
  qed
  have "sint q = ?A div ?B" unfolding q using div_s32_range [OF A B(1)] sint_of_int_small by blast
  moreover have "uint (a - q * b) = ?A mod ?B"
  proof -
    have "a - q * b = word_of_int (?A - ?A div ?B * ?B)" unfolding q by simp
    also have "?A - ?A div ?B * ?B = ?A mod ?B" by (simp add: minus_div_mult_eq_mod)
    finally show ?thesis using uint_of_int_small [of "?A mod ?B"] B pos_mod_bound [OF B(1), of ?A] by simp
  qed
  ultimately show ?thesis using assms unfolding int_remainder_def Let_def q_def by simp
qed

end
