(* ===== verification/Click_Bigint.thy ===== *)
theory Click_Bigint
  imports Click_Integers
begin

text \<open>
  Multi-limb integers (\<open>include/click/bigint.hh\<close>) with the 32-bit limbs of \<open>bigint\<close>. An
  array of limbs is a list, least significant limb first; the pointers \<open>x\<close> and \<open>a\<close> of an
  operation are equal or do not overlap, so an operation is a function from the old
  contents to the new ones. A count of zero limbs in a \<open>do\<close>-\<open>while\<close> loop and a division by
  zero are undefined, \<open>None\<close>. The theorems show that every operation computes what its
  comment promises on the numbers the limbs stand for.
\<close>

section \<open>Definitions\<close>

type_synonym limb = u32

definition limb_high_bit :: limb where
  "limb_high_bit = 0x80000000"

definition low :: "limb \<Rightarrow> limb" where
  "low x = x AND 0xFFFF"

definition high :: "limb \<Rightarrow> limb" where
  "high x = drop_bit 16 x"

text \<open>Two-limb results are pairs (most significant limb, least significant limb).\<close>

definition bigint_add :: "limb \<Rightarrow> limb \<Rightarrow> limb \<Rightarrow> limb \<Rightarrow> limb \<times> limb" where
  "bigint_add a1 a0 b1 b0 = (let x0 = a0 + b0 in (a1 + b1 + (if x0 < a0 then 1 else 0), x0))"

definition bigint_multiply2 :: "limb \<Rightarrow> limb \<Rightarrow> limb \<times> limb" where
  "bigint_multiply2 a b = (let (x0, x1) = int_multiply a b in (x1, x0))"

definition bigint_multiply_half2 :: "limb \<Rightarrow> limb \<Rightarrow> limb \<times> limb" where
  "bigint_multiply_half2 a b =
     (let al = low a; ah = high a; r0 = al * b; r1 = ah * b; r2 = high r0 + r1
      in ((if r2 < r1 then 0x10000 else 0) + high r2, push_bit 16 r2 + low r0))"

text \<open>
  One half of \<open>inverse\<close>: divides the number with the high part \<open>y\<close> and the next half limb
  \<open>h\<close> by \<open>x\<close>. The source subtracts \<open>m\<close> only after the first half; the second remainder is
  not used.
\<close>

definition inverse_half :: "limb \<Rightarrow> limb \<Rightarrow> limb \<Rightarrow> limb \<times> limb" where
  "inverse_half x y h =
     (let x1 = high x; x0 = low x; q = y div x1; r = y - q * x1; m = q * x0; r = r * 0x10000 OR h;
          (q, r) = (if r < m
                    then let q = q - 1; r = r + x
                         in if x \<le> r \<and> r < m then (q - 1, r + x) else (q, r)
                    else (q, r))
      in (q, r - m))"

definition bigint_inverse :: "limb \<Rightarrow> limb option" where
  "bigint_inverse x =
     (if high x = 0 then None
      else let y1 = NOT x; y0 = NOT 0;
               (q1, r1) = inverse_half x y1 (high y0);
               (q0, r0) = inverse_half x r1 (low y0)
           in Some (q1 * 0x10000 OR q0))"

definition preinverted_divide :: "limb \<Rightarrow> limb \<Rightarrow> limb \<Rightarrow> limb \<Rightarrow> limb \<times> limb" where
  "preinverted_divide a1 a0 b b_inverse =
     (let a0_mask = (if a0 AND limb_high_bit \<noteq> 0 then NOT 0 else 0);
          a0_adjusted = a0 + (b AND a0_mask);
          (x1, x0) = bigint_multiply2 b_inverse (a1 - a0_mask);
          (x1, x0) = bigint_add x1 x0 a1 a0_adjusted;
          q1 = NOT x1;
          (x1, x0) = bigint_multiply2 q1 b;
          (x1, x0) = bigint_add x1 x0 a1 a0;
          x1 = x1 - b
      in (x1 - q1, x0 + (b AND x1)))"

text \<open>Storing a 64-bit number into \<open>n\<close> limbs; the rest of the number is returned.\<close>

fun bigint_set :: "nat \<Rightarrow> u64 \<Rightarrow> limb list \<times> u64" where
  "bigint_set 0 b = ([], b)"
| "bigint_set (Suc n) b = (let (xs, c) = bigint_set n (drop_bit 32 b) in (ucast b # xs, c))"

fun multiply_add_loop :: "limb list \<Rightarrow> limb list \<Rightarrow> limb \<Rightarrow> limb \<Rightarrow> limb list \<times> limb" where
  "multiply_add_loop (x # xs) (a # as) b carry =
     (let (x1, x0) = bigint_multiply2 a b;
          x0 = x0 + carry; carry = (if x0 < carry then 1 else 0) + x1;
          x0 = x0 + x; carry = carry + (if x0 < x then 1 else 0);
          (ys, c) = multiply_add_loop xs as b carry
      in (x0 # ys, c))"
| "multiply_add_loop _ _ b carry = ([], carry)"

definition bigint_multiply_add :: "limb list \<Rightarrow> limb list \<Rightarrow> limb \<Rightarrow> (limb list \<times> limb) option" where
  "bigint_multiply_add x a b =
     (if a = [] \<or> length x \<noteq> length a then None else Some (multiply_add_loop x a b 0))"

fun multiply_loop :: "(limb \<Rightarrow> limb \<Rightarrow> limb \<times> limb) \<Rightarrow> limb list \<Rightarrow> limb \<Rightarrow> limb \<Rightarrow> limb list \<times> limb" where
  "multiply_loop mul [] b carry = ([], carry)"
| "multiply_loop mul (a # as) b carry =
     (let (x1, x0) = mul a b; x0 = x0 + carry; carry = (if x0 < carry then 1 else 0) + x1;
          (ys, c) = multiply_loop mul as b carry
      in (x0 # ys, c))"

definition bigint_multiply :: "limb list \<Rightarrow> limb \<Rightarrow> limb \<Rightarrow> (limb list \<times> limb) option" where
  "bigint_multiply a b carry = (if a = [] then None else Some (multiply_loop bigint_multiply2 a b carry))"

text \<open>The multiplier of \<open>multiply_half\<close> has type \<open>half_limb_type\<close>.\<close>

definition bigint_multiply_half :: "limb list \<Rightarrow> limb \<Rightarrow> limb \<Rightarrow> (limb list \<times> limb) option" where
  "bigint_multiply_half a b carry =
     (if a = [] \<or> \<not> unat b < 2 ^ 16 then None else Some (multiply_loop bigint_multiply_half2 a b carry))"

text \<open>The loops of \<open>divide\<close> run from the most significant limb down; so do these lists.\<close>

fun divide_norm :: "limb list \<Rightarrow> limb \<Rightarrow> limb \<Rightarrow> limb \<Rightarrow> limb list \<times> limb" where
  "divide_norm [] r b b_inverse = ([], r)"
| "divide_norm (a # as) r b b_inverse =
     (let (q, r) = preinverted_divide r a b b_inverse; (qs, r) = divide_norm as r b b_inverse in (q # qs, r))"

fun divide_shift :: "limb list \<Rightarrow> limb \<Rightarrow> nat \<Rightarrow> limb \<Rightarrow> limb \<Rightarrow> limb \<Rightarrow> limb list \<times> limb" where
  "divide_shift [] a1 nbits r b b_inverse = (let (q, r) = preinverted_divide r (push_bit nbits a1) b b_inverse in ([q], r))"
| "divide_shift (a0 # as) a1 nbits r b b_inverse =
     (let (q, r) = preinverted_divide r (push_bit nbits a1 OR drop_bit (32 - nbits) a0) b b_inverse;
          (qs, r) = divide_shift as a0 nbits r b b_inverse
      in (q # qs, r))"

definition divide_msb :: "limb list \<Rightarrow> limb \<Rightarrow> (limb list \<times> limb) option" where
  "divide_msb a b =
     (case a of
        [] \<Rightarrow> None
      | a1 # as \<Rightarrow>
          if b AND limb_high_bit \<noteq> 0
          then let x = (if b \<le> a1 then 1 else 0); r = a1 - (b AND (- x))
               in map_option (\<lambda>b_inverse. let (qs, r) = divide_norm as r b b_inverse in (x # qs, r)) (bigint_inverse b)
          else
            let (x, r, a) = (if a1 < b then ([0], a1, as) else ([], 0, a1 # as))
            in case a of
                 [] \<Rightarrow> Some (x, r)
               | a1 # as \<Rightarrow>
                   if b = 0 then None
                   else let nbits = ffs_msb b - 1; b = push_bit nbits b; r = push_bit nbits r
                        in map_option
                             (\<lambda>b_inverse. let r = r OR drop_bit (32 - nbits) a1;
                                              (qs, r) = divide_shift as a1 nbits r b b_inverse
                                          in (x @ qs, drop_bit nbits r))
                             (bigint_inverse b))"

definition bigint_divide :: "limb list \<Rightarrow> limb \<Rightarrow> (limb list \<times> limb) option" where
  "bigint_divide a b = map_option (map_prod rev id) (divide_msb (rev a) b)"

text \<open>
  Printing divides the array in place until it is zero and writes the digits into a buffer
  from its end; a digit before the start of the buffer is undefined. \<open>trim_zeros\<close> is the
  inner loop that drops the zero limbs at the top.
\<close>

definition trim_zeros :: "limb list \<Rightarrow> limb list" where
  "trim_zeros x = rev (dropWhile ((=) 0) (rev x))"

definition digit_char :: "bool \<Rightarrow> limb \<Rightarrow> char" where
  "digit_char uppercase r =
     (if r \<le> 9 then char_of (48 + unat r)
      else if uppercase then char_of (65 + unat r - 10) else char_of (97 + unat r - 10))"

function unparse_loop :: "limb \<Rightarrow> bool \<Rightarrow> nat \<Rightarrow> limb list \<Rightarrow> string \<Rightarrow> string option" where
  "unparse_loop base uppercase cap x acc =
     (let x = trim_zeros x
      in if x = [] then Some acc
         else case bigint_divide x base of
                None \<Rightarrow> None
              | Some (x, r) \<Rightarrow>
                  if cap \<le> length acc then None
                  else unparse_loop base uppercase cap x (digit_char uppercase r # acc))"
  by auto
termination by (relation "measure (\<lambda>(base, uppercase, cap, x, acc). cap - length acc)") auto

declare unparse_loop.simps [simp del]

definition unparse_clear :: "limb list \<Rightarrow> limb \<Rightarrow> bool \<Rightarrow> string option" where
  "unparse_clear x base uppercase =
     (let bits = (if 16 \<le> base then 4 else if 8 \<le> base then 3 else 1); cap = length x * 32 div bits + 1
      in if 2 \<le> base \<and> base \<le> 36
         then map_option (\<lambda>s. if s = [] then ''0'' else s) (unparse_loop base uppercase cap x [])
         else None)"

section \<open>Values\<close>

text \<open>The number a list of limbs stands for, least significant limb first.\<close>

fun limbs_val :: "limb list \<Rightarrow> nat" where
  "limbs_val [] = 0"
| "limbs_val (x # xs) = unat x + 4294967296 * limbs_val xs"

lemma limbs_val_append: "limbs_val (xs @ ys) = limbs_val xs + 4294967296 ^ length xs * limbs_val ys"
  by (induction xs) (simp_all add: algebra_simps)

lemma limbs_val_less: "limbs_val xs < 4294967296 ^ length xs"
proof (induction xs)
  case (Cons x xs)
  have "unat x < 4294967296" using unsigned_less [of x, where ?'a = nat] by simp
  then show ?case using Cons.IH by simp
qed simp

lemma limb_less [simp]: "unat (x :: limb) < 4294967296"
  using unsigned_less [of x, where ?'a = nat] by simp

text \<open>A sum of two limbs and its carry.\<close>

lemma add_carry:
  fixes x y :: limb
  shows "unat (x + y) + 4294967296 * (if x + y < x then 1 else 0) = unat x + unat y"
proof (cases "unat x + unat y < 4294967296")
  case True
  then show ?thesis using unat_add_small [of x y] by (simp add: word_less_nat_alt)
next
  case False
  have "unat x + unat y - 4294967296 < 4294967296" using limb_less [of x] limb_less [of y] by linarith
  then have "(unat x + unat y) mod 4294967296 = unat x + unat y - 4294967296" using False by (simp add: le_mod_geq)
  then have "unat (x + y) = unat x + unat y - 4294967296" by (simp add: unat_word_ariths)
  moreover from this have "x + y < x" unfolding word_less_nat_alt using False limb_less [of y] by linarith
  ultimately show ?thesis using False by simp
qed

lemma add_carry': "unat (x + y) + 4294967296 * (if x + y < y then 1 else 0) = unat x + unat y" for x y :: limb
  using add_carry [of y x] by (simp add: add.commute)

definition pair_val :: "limb \<times> limb \<Rightarrow> nat" where
  "pair_val p = unat (snd p) + 4294967296 * unat (fst p)"

lemma pair_val_less: "pair_val p < 18446744073709551616"
  using limb_less [of "fst p"] limb_less [of "snd p"] unfolding pair_val_def by linarith

lemma bigint_multiply2_val: "pair_val (bigint_multiply2 a b) = unat a * unat b"
  using int_multiply_product [of a b] by (simp add: bigint_multiply2_def pair_val_def split: prod.splits)

lemma mod_two_limbs: "l < 4294967296 \<Longrightarrow> (l + 4294967296 * s) mod (4294967296 * 4294967296) = l + 4294967296 * (s mod 4294967296)" for l s :: nat
  unfolding mod_mult2_eq by simp

lemma bigint_add_val:
  "pair_val (bigint_add a1 a0 b1 b0) = (pair_val (a1, a0) + pair_val (b1, b0)) mod 18446744073709551616"
proof -
  define c :: limb where "c = (if a0 + b0 < a0 then 1 else 0)"
  have c: "unat (a0 + b0) + 4294967296 * unat c = unat a0 + unat b0" using add_carry [of a0 b0] unfolding c_def by (cases "a0 + b0 < a0") simp_all
  let ?s = "unat a1 + unat b1 + unat c"
  have h: "unat (a1 + b1 + c) = ?s mod 4294967296" by (simp add: unat_word_ariths mod_simps)
  have "pair_val (a1, a0) + pair_val (b1, b0) = unat (a0 + b0) + 4294967296 * ?s"
    using c by (simp add: pair_val_def)
  also have "(unat (a0 + b0) + 4294967296 * ?s) mod (4294967296 * 4294967296) = unat (a0 + b0) + 4294967296 * (?s mod 4294967296)"
    by (rule mod_two_limbs) simp
  finally show ?thesis using h unfolding bigint_add_def Let_def pair_val_def c_def [symmetric] by simp
qed

lemma bigint_multiply_half2_val:
  assumes "unat b < 65536"
  shows "pair_val (bigint_multiply_half2 a b) = unat a * unat b"
proof -
  define al ah where d: "al = low a" "ah = high a"
  note A = word_halves [of a, folded low_def high_def, folded d]
  note p = half_product [OF A(3) assms] half_product [OF A(4) assms]
  note u = unat_half_product [OF A(3) assms] unat_half_product [OF A(4) assms]
  define r2 where r2_def: "r2 = high (al * b) + ah * b"
  define r3 :: limb where r3_def: "r3 = (if r2 < ah * b then 0x10000 else 0)"
  have r2: "unat r2 = (0 + unat al * unat b div 65536 + unat ah * unat b) mod 4294967296"
    unfolding r2_def high_def unat_word_ariths(1) word_halves(2) u by simp
  have r3: "unat r3 = (if unat r2 < unat ah * unat b then 0 + 65536 else 0)"
    unfolding r3_def word_less_nat_alt by (simp add: u)
  have e: "bigint_multiply_half2 a b = (r3 + drop_bit 16 r2, push_bit 16 r2 + (al * b AND 0xFFFF))"
    unfolding bigint_multiply_half2_def Let_def r3_def r2_def d high_def low_def ..
  have "unat a * unat b = unat al * unat b + 65536 * (unat ah * unat b + 0) + 4294967296 * 0"
    unfolding A(5) by (simp add: algebra_simps)
  then have eq: "unat r2 mod 65536 * 65536 + unat al * unat b mod 65536 + 4294967296 * (unat r3 + unat r2 div 65536) = unat a * unat b"
    using halves_carry [OF p(1) le0 p(2) le0, folded r2, folded r3] by (rule trans [OF _ sym, rotated])
  have "unat a * unat b < 4294967296 * 4294967296"
    using limb_less [of a] limb_less [of b] by (intro mult_strict_mono) simp_all
  then have hi: "unat r3 + unat r2 div 65536 < 4294967296" by (rule high_part [OF eq])
  show ?thesis unfolding e pair_val_def fst_conv snd_conv join_halves [OF hi] u by (rule eq)
qed

section \<open>Multiplication\<close>

text \<open>One round of the loops: product, carry and addend fit into two limbs.\<close>

lemma carry_round:
  fixes x1 x0 carry :: limb
  assumes "pair_val (x1, x0) \<le> 4294967295 * 4294967295"
  shows "unat (x0 + carry) + 4294967296 * unat ((if x0 + carry < carry then 1 else 0) + x1) = pair_val (x1, x0) + unat carry"
proof -
  have "unat x1 \<le> 4294967294" using assms by (simp add: pair_val_def)
  then have "unat ((if x0 + carry < carry then 1 else 0) + x1) = (if x0 + carry < carry then 1 else 0) + unat x1"
    using unat_add_small [of 1 x1] by simp
  then show ?thesis using add_carry' [of x0 carry] by (simp add: pair_val_def split: if_splits)
qed

lemma product_bound: "unat (a :: limb) * unat (b :: limb) \<le> 4294967295 * 4294967295"
  by (intro mult_le_mono) (use limb_less [of a] limb_less [of b] in linarith)+

lemma multiply_loop_val:
  assumes "\<And>a. pair_val (mul a b) = unat a * unat b" "multiply_loop mul as b carry = (ys, c)"
  shows "limbs_val ys + 4294967296 ^ length as * unat c = limbs_val as * unat b + unat carry \<and> length ys = length as"
  using assms(2)
proof (induction as arbitrary: carry ys)
  case (Cons a as)
  obtain x1 x0 where m: "mul a b = (x1, x0)" by (cases "mul a b")
  define carry' where "carry' = (if x0 + carry < carry then 1 else 0) + x1"
  obtain zs where zs: "multiply_loop mul as b carry' = (zs, c)" "ys = (x0 + carry) # zs"
    using Cons.prems m by (auto simp: carry'_def Let_def split: prod.splits)
  have "unat (x0 + carry) + 4294967296 * unat carry' = unat a * unat b + unat carry"
    using carry_round [of x1 x0 carry] assms(1) [of a] product_bound [of a b] m unfolding carry'_def by simp
  then show ?case using Cons.IH [OF zs(1)] unfolding zs(2) by (simp add: algebra_simps)
qed simp

lemma carry_fits:
  fixes s s' :: nat
  assumes "s + 4294967296 * c = p + k" "s' + 4294967296 * i = s + x" "p \<le> 4294967295 * 4294967295" "k < 4294967296" "x < 4294967296"
  shows "c + i < 4294967296"
  using assms by simp

lemma multiply_add_loop_val:
  assumes "multiply_add_loop xs as b carry = (ys, c)" "length xs = length as"
  shows "limbs_val ys + 4294967296 ^ length as * unat c = limbs_val xs + limbs_val as * unat b + unat carry \<and> length ys = length as"
  using assms
proof (induction xs as b carry arbitrary: ys rule: multiply_add_loop.induct)
  case (1 x xs a as b carry)
  obtain x1 x0 where m: "bigint_multiply2 a b = (x1, x0)" by (cases "bigint_multiply2 a b")
  define carry1 where "carry1 = (if x0 + carry < carry then 1 else 0) + x1"
  define carry2 where "carry2 = carry1 + (if x0 + carry + x < x then 1 else 0)"
  obtain zs where zs: "multiply_add_loop xs as b carry2 = (zs, c)" "ys = (x0 + carry + x) # zs"
    using "1.prems"(1) m by (auto simp: carry1_def carry2_def Let_def split: prod.splits)
  have p: "pair_val (x1, x0) = unat a * unat b" using bigint_multiply2_val [of a b] m by simp
  then have c1: "unat (x0 + carry) + 4294967296 * unat carry1 = unat a * unat b + unat carry"
    using carry_round [of x1 x0 carry] product_bound [of a b] unfolding carry1_def by simp
  have "unat carry1 + (if x0 + carry + x < x then 1 else 0) < 4294967296"
    by (rule carry_fits [OF c1 add_carry' product_bound]) simp_all
  then have "unat carry2 = unat carry1 + (if x0 + carry + x < x then 1 else 0)"
    unfolding carry2_def using unat_add_small [of carry1 1] by (simp split: if_splits)
  then have "unat (x0 + carry + x) + 4294967296 * unat carry2 = unat x + unat a * unat b + unat carry"
    using c1 add_carry' [of "x0 + carry" x] by (simp split: if_splits)
  moreover have "limbs_val zs + 4294967296 ^ length as * unat c = limbs_val xs + limbs_val as * unat b + unat carry2 \<and> length zs = length as"
    using "1.IH" [OF refl m [symmetric] refl carry1_def refl carry2_def] zs(1) "1.prems"(2) by simp
  ultimately show ?case unfolding zs(2) by (simp add: algebra_simps)
qed auto

section \<open>The inverse of a limb\<close>

text \<open>Schoolbook division by halves: the estimate is too large by at most two.\<close>

lemma unat_of_nat_small: "k < 4294967296 \<Longrightarrow> unat (of_nat k :: limb) = k"
  by (simp add: unat_of_nat)

lemma or_halves:
  fixes r h :: limb
  assumes "unat r < 65536" "unat h < 65536"
  shows "r * 0x10000 OR h = of_nat (unat r * 65536 + unat h)"
proof -
  have h: "\<not> bit h i" if "16 \<le> i" for i using unat_less_iff_bits [of h 16] assms(2) that by simp
  have "r * 0x10000 = push_bit 16 r" by (simp add: push_bit_eq_mult)
  moreover have "push_bit 16 r OR h = push_bit 16 r + h"
    by (rule disjunctive_add [symmetric]) (use h in \<open>auto simp: bit_push_bit_iff not_le\<close>)
  ultimately show ?thesis by (simp add: push_bit_eq_mult mult.commute)
qed

lemma half_step_nat:
  fixes Y X1 X0 H :: nat
  assumes "0 < X1"
  shows "Y * 65536 + H + (Y div X1) * X0 = (Y div X1) * (X1 * 65536 + X0) + (Y mod X1 * 65536 + H)"
proof -
  have "Y * 65536 = (Y div X1 * X1 + Y mod X1) * 65536" by simp
  then show ?thesis by (simp only: add_mult_distrib add_mult_distrib2 mult.assoc)
qed

text \<open>The correction of an estimate \<open>q\<close> with the remainder \<open>r - m\<close>.\<close>

definition inverse_fix :: "limb \<Rightarrow> limb \<Rightarrow> limb \<Rightarrow> limb \<Rightarrow> limb \<times> limb" where
  "inverse_fix x q r m =
     (let (q, r) = (if r < m
                    then let q = q - 1; r = r + x
                         in if x \<le> r \<and> r < m then (q - 1, r + x) else (q, r)
                    else (q, r))
      in (q, r - m))"

lemma inverse_fix_cases:
  assumes "R' < unat x" "M < 4294967296" "2147483648 \<le> unat x"
  shows "\<exists>k. inverse_fix x (of_nat Q) (of_nat R') (of_nat M) = (of_nat Q - of_nat k, of_nat (R' + k * unat x) - of_nat M)
    \<and> M \<le> R' + k * unat x \<and> R' + k * unat x < M + unat x \<and> k \<le> 2 \<and> (k = 0 \<or> R' + (k - 1) * unat x < M)"
proof -
  have R'N: "R' < 4294967296" using assms(1) limb_less [of x] by linarith
  have lt: "(of_nat R' :: limb) < of_nat M \<longleftrightarrow> R' < M" 
    using R'N assms(2) by (simp add: word_less_nat_alt unat_of_nat_small)
  have x: "of_nat R' + x = of_nat (R' + unat x)" by simp
  show ?thesis
  proof (cases "R' < M")
    case False
    then show ?thesis using assms(1) lt by (intro exI [of _ 0]) (simp add: inverse_fix_def)
  next
    case True
    have c: "(x \<le> of_nat R' + x \<and> of_nat R' + x < of_nat M) \<longleftrightarrow> R' + unat x < M"
    proof (cases "R' + unat x < 4294967296")
      case True
      then show ?thesis unfolding x word_le_nat_alt word_less_nat_alt using assms(2) by (simp only: unat_of_nat_small) simp
    next
      case False
      have "R' + unat x - 4294967296 < unat x" using R'N False by linarith
      moreover have "R' + unat x - 4294967296 < 4294967296" using R'N limb_less [of x] by linarith
      then have "(R' + unat x) mod 4294967296 = R' + unat x - 4294967296" using False by (simp add: le_mod_geq)
      ultimately have "\<not> x \<le> of_nat R' + x" unfolding x word_le_nat_alt unat_of_nat by simp
      then show ?thesis using False assms(2) by simp
    qed
    show ?thesis
    proof (cases "R' + unat x < M")
      case True
      then show ?thesis using \<open>R' < M\<close> lt c assms by (intro exI [of _ 2]) (simp add: inverse_fix_def Let_def algebra_simps)
    next
      case False
      then show ?thesis using \<open>R' < M\<close> lt c assms by (intro exI [of _ 1]) (simp add: inverse_fix_def Let_def)
    qed
  qed
qed

lemma inverse_half_val:
  assumes "2147483648 \<le> unat x" "y < x" "unat h < 65536" "inverse_half x y h = (q, r)"
  shows "unat y * 65536 + unat h = unat q * unat x + unat r \<and> unat r < unat x"
proof -
  define x1 x0 where d: "x1 = high x" "x0 = low x"
  note X = word_halves [of x, folded low_def high_def, folded d]
  have x1: "32768 \<le> unat x1" using assms(1) X(3,5) by simp
  define Q R M R' where n: "Q = unat y div unat x1" "R = unat y mod unat x1" "M = Q * unat x0" "R' = R * 65536 + unat h"
  have yx: "unat y < unat x" using assms(2) by (simp add: word_less_nat_alt)
  have Q: "Q \<le> 65537"
  proof -
    have "unat y < 65538 * unat x1" using yx X(3,5) x1 by simp
    then show ?thesis unfolding n using less_mult_imp_div_less [of "unat y" 65538 "unat x1"] by simp
  qed
  have M: "M < 4294967296" using mult_le_mono [OF Q, of "unat x0" 65535] X(3) by (simp add: n)
  have R: "R < unat x1" using x1 by (simp add: n)
  have R': "R' < unat x" using R assms(3) X(5) unfolding n(4) by simp
  have eq: "unat y * 65536 + unat h + M = Q * unat x + R'"
    using half_step_nat [of "unat x1" "unat y" "unat h" "unat x0"] x1 X(5) by (simp add: n algebra_simps)
  have w: "y div x1 = of_nat Q" "of_nat Q * x0 = of_nat M" "y - of_nat Q * x1 = of_nat R"
  proof -
    show "y div x1 = of_nat Q" unfolding n by (rule word_arith_nat_div)
    show "of_nat Q * x0 = of_nat M" unfolding n by simp
    have "of_nat (unat y) = (of_nat (Q * unat x1 + R) :: limb)" unfolding n by simp
    then show "y - of_nat Q * x1 = of_nat R" by simp
  qed
  have "R < 65536" using R X(4) by simp
  then have r0: "(y - y div x1 * x1) * 0x10000 OR h = of_nat R'"
    using or_halves [of "of_nat R" h] assms(3) by (simp add: w n(4) unat_of_nat_small)
  have "inverse_half x y h = inverse_fix x (y div x1) ((y - y div x1 * x1) * 0x10000 OR h) (y div x1 * x0)"
    unfolding inverse_half_def Let_def inverse_fix_def d ..
  then have "(q, r) = inverse_fix x (of_nat Q) (of_nat R') (of_nat M)" unfolding assms(4) r0 unfolding w(1,2) .
  then obtain k where k: "q = of_nat Q - of_nat k" "r = of_nat (R' + k * unat x) - of_nat M" "M \<le> R' + k * unat x" "R' + k * unat x < M + unat x"
    "k \<le> 2" "k = 0 \<or> R' + (k - 1) * unat x < M"
    using inverse_fix_cases [OF R' M assms(1), of Q] by auto
  have kQ: "k \<le> Q"
  proof (rule ccontr)
    assume "\<not> k \<le> Q"
    then have "Q \<le> k - 1" "k \<noteq> 0" by simp_all
    then have "M \<le> (k - 1) * unat x" unfolding n(3) using X(5) by (intro mult_le_mono) simp_all
    then show False using k(6) \<open>k \<noteq> 0\<close> by simp
  qed
  have q: "unat q = Q - k" unfolding k(1) using kQ Q unat_of_nat_small [of "Q - k"] by (simp add: of_nat_diff)
  have r: "unat r = R' + k * unat x - M"
  proof -
    have "r = of_nat (R' + k * unat x - M)" unfolding k(2) using k(3) by (simp only: of_nat_diff)
    moreover have "R' + k * unat x - M < 4294967296" using k(3,4) limb_less [of x] by linarith
    ultimately show ?thesis by (simp only: unat_of_nat_small)
  qed
  have "Q * unat x = (Q - k) * unat x + k * unat x" using kQ by (simp add: diff_mult_distrib mult_le_mono1)
  then show ?thesis unfolding q r using eq k(3,4) by (intro conjI) linarith+
qed

lemma unat_not: "unat (NOT x) = 4294967295 - unat x" for x :: limb
proof -
  have le: "unat x \<le> 4294967295" using limb_less [of x] by linarith
  have "NOT x = (4294967295 - x)" by (simp add: not_eq_complement)
  also have "\<dots> = of_nat (4294967295 - unat x)" using le by (simp add: of_nat_diff)
  finally show ?thesis using unat_of_nat_small [of "4294967295 - unat x"] by simp
qed

lemma quotient_half: "y * 65536 + h = q * x + r \<Longrightarrow> y < x \<Longrightarrow> h < 65536 \<Longrightarrow> q < 65536" for y h q x r :: nat
proof (rule ccontr)
  assume a: "y * 65536 + h = q * x + r" "y < x" "h < 65536" "\<not> q < 65536"
  then have "65536 * x \<le> q * x" by (intro mult_le_mono1) simp
  then show False using a(1-3) by linarith
qed

lemma two_halves:
  fixes y x :: nat
  assumes "y = 4294967295 - x" "x \<le> 4294967295" "y * 65536 + 65535 = q1 * x + r1" "r1 * 65536 + 65535 = q0 * x + r0"
  shows "(q1 * 65536 + q0 + 4294967296) * x + r0 = 18446744073709551615"
proof -
  have "65536 * (y * 65536 + 65535) + 65535 + 65536 * r1 = 65536 * (q1 * x + r1) + (q0 * x + r0 - 65536 * r1) + 65536 * r1"
    using assms(3,4) by simp
  then have "y * 4294967296 + 4294967295 = 65536 * (q1 * x) + (q0 * x + r0)" using assms(4) by simp
  then show ?thesis using assms(1,2) by (simp add: algebra_simps)
qed

text \<open>\<open>inverse\<close> of a normalised limb, in both directions.\<close>

lemma bigint_inverse_val:
  assumes "2147483648 \<le> unat x"
  shows "\<exists>v r. bigint_inverse x = Some v \<and> (unat v + 4294967296) * unat x + r = 18446744073709551615 \<and> r < unat x"
proof -
  have hx: "high x \<noteq> 0" using word_halves(2) [of x] assms by (auto simp: high_def unat_eq_zero)
  have y1: "unat (NOT x) = 4294967295 - unat x" by (rule unat_not)
  obtain q1 r1 where 1: "inverse_half x (NOT x) (high (NOT 0)) = (q1, r1)" by (cases "inverse_half x (NOT x) (high (NOT 0))")
  obtain q0 r0 where 2: "inverse_half x r1 (low (NOT 0)) = (q0, r0)" by (cases "inverse_half x r1 (low (NOT 0))")
  have hl: "high (NOT 0) = 0xFFFF" "low (NOT 0) = 0xFFFF" by (simp_all add: high_def low_def mask_eq_exp_minus_1)
  have "NOT x < x" unfolding word_less_nat_alt y1 using assms by linarith
  then have s1: "unat (NOT x) * 65536 + 65535 = unat q1 * unat x + unat r1" "unat r1 < unat x"
    using inverse_half_val [OF assms _ _ 1] unfolding hl by simp_all
  then have s0: "unat r1 * 65536 + 65535 = unat q0 * unat x + unat r0" "unat r0 < unat x"
    using inverse_half_val [OF assms _ _ 2] unfolding hl by (simp_all add: word_less_nat_alt)
  have q: "unat q1 < 65536" "unat q0 < 65536"
    using quotient_half [OF s1(1)] quotient_half [OF s0(1) s1(2)] \<open>NOT x < x\<close> by (simp_all add: word_less_nat_alt)
  have "q1 * 0x10000 OR q0 = of_nat (unat q1 * 65536 + unat q0)" using q by (rule or_halves)
  moreover have "unat q1 * 65536 + unat q0 < 4294967296" using q by simp
  ultimately have v: "unat (q1 * 0x10000 OR q0) = unat q1 * 65536 + unat q0" by (simp only: unat_of_nat_small)
  have "(unat q1 * 65536 + unat q0 + 4294967296) * unat x + unat r0 = 18446744073709551615"
    by (rule two_halves [OF y1 _ s1(1) s0(1)]) (use limb_less [of x] in linarith)
  then show ?thesis using hx 1 2 s0(2) v unfolding bigint_inverse_def Let_def by auto
qed

section \<open>Division of two limbs by one\<close>

text \<open>
  The estimate of \<open>preinverted_divide\<close>, on integers: \<open>b\<close> is the base, \<open>d\<close> the normalised
  divisor, \<open>m\<close> its full inverse, \<open>n1\<close> the highest bit of the low limb and \<open>n0\<close> its other
  bits. The high limb of \<open>s\<close> is the quotient or one less.
\<close>

lemma estimate:
  fixes d m a1 n1 n0 s h :: int
  assumes "m * d \<le> (2 * h) * (2 * h) - 1" "(2 * h) * (2 * h) - d \<le> m * d" "h \<le> d" "d \<le> 2 * h" "0 \<le> n0" "n0 < h"
    "n1 = 0 \<or> n1 = 1" "0 \<le> a1" "a1 < d" "0 < h"
    and s: "s = m * (a1 + n1) + n0 + n1 * (d - 3 * h)"
    and q: "q * (2 * h) \<le> s" "s < (q + 1) * (2 * h)"
  shows "q * d \<le> a1 * (2 * h) + n1 * h + n0" "a1 * (2 * h) + n1 * h + n0 < (q + 2) * d"
proof -
  have sd: "s * d = m * d * (a1 + n1) + d * n0 + n1 * d * (d - 3 * h)" unfolding s by (simp add: algebra_simps)
  have a: "0 \<le> a1 + n1" using assms(7,8) by auto
  have "m * d * (a1 + n1) \<le> ((2 * h) * (2 * h)) * (a1 + n1)" by (rule mult_right_mono) (use assms(1) a in simp_all)
  moreover have "0 \<le> n0 * (2 * h - d)" using assms(4,5) by simp
  moreover have "0 \<le> n1 * ((2 * h - d) * (d - h))" using assms(3,4,7) by auto
  ultimately have "s * d \<le> (a1 * (2 * h) + n1 * h + n0) * (2 * h)" unfolding sd by (simp add: algebra_simps)
  moreover have "q * d * (2 * h) \<le> s * d" using mult_right_mono [OF q(1), of d] assms(3,10) by (simp add: algebra_simps)
  ultimately have "(q * d) * (2 * h) \<le> (a1 * (2 * h) + n1 * h + n0) * (2 * h)" by simp
  then show "q * d \<le> a1 * (2 * h) + n1 * h + n0" using assms(10) by (simp add: mult_le_cancel_right)
  have "((2 * h) * (2 * h) - d) * (a1 + n1) \<le> m * d * (a1 + n1)" by (rule mult_right_mono) (use assms(2) a in simp_all)
  moreover have "d * (a1 + n1) \<le> d * (d - 1 + n1)" by (rule mult_left_mono) (use assms in simp_all)
  moreover have "0 < (2 * h - d) * (d - (n0 + n1 * (d - h))) + d * (2 - n1)"
    using assms(3,4,5,6,7,10) by (auto intro: add_nonneg_pos)
  ultimately have "(a1 * (2 * h) + n1 * h + n0) * (2 * h) < (s + 1 + 2 * h) * d"
    unfolding distrib_right [of _ _ d] sd by (simp add: algebra_simps)
  also have "\<dots> \<le> ((q + 2) * (2 * h)) * d" by (rule mult_right_mono) (use q(2) assms(3,10) in \<open>simp_all add: algebra_simps\<close>)
  finally have "(a1 * (2 * h) + n1 * h + n0) * (2 * h) < ((q + 2) * d) * (2 * h)" by (simp add: algebra_simps)
  then show "a1 * (2 * h) + n1 * h + n0 < (q + 2) * d" using assms(10) by (simp add: mult_less_cancel_right)
qed

lemma high_bit_iff: "x AND limb_high_bit \<noteq> 0 \<longleftrightarrow> 2147483648 \<le> unat x"
proof -
  have h: "limb_high_bit = push_bit 31 1" by (simp add: limb_high_bit_def push_bit_eq_mult)
  have e: "bit (x AND limb_high_bit) i \<longleftrightarrow> i = 31 \<and> bit x 31" for i
    unfolding h bit_and_iff bit_push_bit_iff bit_1_iff by auto
  have x32: "LENGTH(32) = Suc 31" by simp
  have "x AND limb_high_bit = 0 \<longleftrightarrow> \<not> bit x 31"
  proof
    assume "x AND limb_high_bit = 0"
    then show "\<not> bit x 31" using e [of 31] by simp
  qed (rule bit_word_eqI, use e in simp)
  also have "\<dots> \<longleftrightarrow> (\<forall>i \<ge> 31. \<not> bit x i)" proof
    assume "\<not> bit x 31"
    then show "\<forall>i \<ge> 31. \<not> bit x i" using bit_imp_le_length [of x] by (metis le_neq_implies_less x32 linorder_not_le Suc_leI)
  qed simp
  also have "\<dots> \<longleftrightarrow> unat x < 2 ^ 31" using unat_less_iff_bits [of x 31] ..
  finally show ?thesis by auto
qed

lemma pair_val_eqI:
  assumes "pair_val p = l + 4294967296 * h" "l < 4294967296"
  shows "unat (snd p) = l" "unat (fst p) = h"
proof -
  have e: "unat (snd p) + 4294967296 * unat (fst p) = l + 4294967296 * h" using assms(1) by (simp add: pair_val_def)
  have "(unat (snd p) + 4294967296 * unat (fst p)) mod 4294967296 = (l + 4294967296 * h) mod 4294967296" unfolding e ..
  then show l: "unat (snd p) = l" using assms(2) by simp
  show "unat (fst p) = h" using e l by simp
qed

lemma finish_low:
  fixes Q D n :: nat
  assumes "Q * D \<le> n" "n < Q * D + D" "D < 4294967296" "Q \<le> 4294967295"
  defines "l \<equiv> 4294967296 + n - Q * D - D"
  shows "(4294967295 - Q) * D + n = l + 4294967296 * (D - 1)" "l < 4294967296" "l + 4294967296 * (D - 1) < 18446744073709551616"
proof -
  have A: "Q * D \<le> 4294967295 * D" "(4294967295 - Q) * D = 4294967295 * D - Q * D"
    using assms(4) by (simp_all add: diff_mult_distrib mult_le_mono1)
  have D: "4294967296 * (D - 1) = 4294967296 * D - 4294967296" "0 < D" using assms(1,2) by (simp_all add: diff_mult_distrib2)
  then show "(4294967295 - Q) * D + n = l + 4294967296 * (D - 1)" unfolding A(2) D(1) l_def using A(1) assms(1-3) by linarith
  show l: "l < 4294967296" unfolding l_def using assms(1-3) by linarith
  then show "l + 4294967296 * (D - 1) < 18446744073709551616" using assms(3) D(2) by linarith
qed

lemma finish_high:
  fixes Q D n :: nat
  assumes "Q * D + D \<le> n" "n < Q * D + 2 * D" "D < 4294967296" "Q \<le> 4294967295"
  defines "l \<equiv> n - Q * D - D"
  shows "(4294967295 - Q) * D + n = l + 4294967296 * D" "l < 4294967296" "l + 4294967296 * D < 18446744073709551616"
proof -
  have A: "Q * D \<le> 4294967295 * D" "(4294967295 - Q) * D = 4294967295 * D - Q * D"
    using assms(4) by (simp_all add: diff_mult_distrib mult_le_mono1)
  show "(4294967295 - Q) * D + n = l + 4294967296 * D" unfolding A(2) l_def using A(1) assms(1-3) by linarith
  show l: "l < 4294967296" unfolding l_def using assms(1-3) by linarith
  then show "l + 4294967296 * D < 18446744073709551616" using assms(3) by linarith
qed

text \<open>The second half of \<open>preinverted_divide\<close>: subtract, and correct by one.\<close>

lemma preinverted_finish:
  fixes x1 a1 a0 b :: limb
  defines "p \<equiv> (let (y1, y0) = bigint_multiply2 (NOT x1) b; (y1, y0) = bigint_add y1 y0 a1 a0; y1 = y1 - b
                 in (y1 - NOT x1, y0 + (b AND y1)))"
  assumes "a1 < b" "unat x1 * unat b \<le> pair_val (a1, a0)" "pair_val (a1, a0) < (unat x1 + 2) * unat b"
  shows "pair_val (a1, a0) = unat (fst p) * unat b + unat (snd p) \<and> unat (snd p) < unat b"
proof -
  let ?D = "unat b" and ?Q = "unat x1" and ?n = "pair_val (a1, a0)"
  obtain y1 y0 where y: "bigint_multiply2 (NOT x1) b = (y1, y0)" by (cases "bigint_multiply2 (NOT x1) b")
  obtain z1 z0 where z: "bigint_add y1 y0 a1 a0 = (z1, z0)" by (cases "bigint_add y1 y0 a1 a0")
  have p: "p = (z1 - b - NOT x1, z0 + (b AND (z1 - b)))" unfolding p_def using y z by (simp add: Let_def)
  have "unat a1 < ?D" using assms(2) by (simp add: word_less_nat_alt)
  then have nD: "?n < 4294967296 * ?D" using limb_less [of a0] unfolding pair_val_def fst_conv snd_conv by linarith
  have v: "pair_val (z1, z0) = ((4294967295 - ?Q) * ?D + ?n) mod 18446744073709551616"
    using bigint_add_val [of y1 y0 a1 a0] bigint_multiply2_val [of "NOT x1" b] y z unat_not [of x1] by simp
  have D: "?D < 4294967296" "?Q \<le> 4294967295" using limb_less [of x1] limb_less [of b] by linarith+
  have d1: "0 < ?D" using \<open>unat a1 < ?D\<close> by simp
  show ?thesis
  proof (cases "?n < (?Q + 1) * ?D")
    case True
    then have lt: "?n < ?Q * ?D + ?D" by simp
    let ?l = "4294967296 + ?n - ?Q * ?D - ?D"
    have "(4294967295 - ?Q) * ?D + ?n = ?l + 4294967296 * (?D - 1)" "?l < 4294967296" "?l + 4294967296 * (?D - 1) < 18446744073709551616"
      using finish_low [OF assms(3) lt D] by blast+
    then have z01: "unat z0 = ?l" "unat z1 = ?D - 1" using v pair_val_eqI [of "(z1, z0)" ?l "?D - 1"] by simp_all
    have "z1 = b - 1" using z01(2) d1 by (simp add: word_unat_eq_iff unat_minus_one)
    then have pv: "p = (x1, z0 + b)" unfolding p by (simp add: not_eq_complement)
    have "unat z0 + ?D = ?n - ?Q * ?D + 4294967296" using z01(1) lt assms(3) D by linarith
    moreover have "?n - ?Q * ?D < 4294967296" using lt D(1) assms(3) by linarith
    ultimately have "unat (z0 + b) = ?n - ?Q * ?D" unfolding unat_word_ariths(1) by simp
    then show ?thesis using lt assms(3) unfolding pv by simp
  next
    case False
    then have le: "?Q * ?D + ?D \<le> ?n" "?n < ?Q * ?D + 2 * ?D" using assms(4) by simp_all
    let ?l = "?n - ?Q * ?D - ?D"
    have "(4294967295 - ?Q) * ?D + ?n = ?l + 4294967296 * ?D" "?l < 4294967296" "?l + 4294967296 * ?D < 18446744073709551616"
      using finish_high [OF le D] by blast+
    then have z01: "unat z0 = ?l" "unat z1 = ?D" using v pair_val_eqI [of "(z1, z0)" ?l ?D] by simp_all
    then have "z1 = b" by (simp add: word_unat_eq_iff)
    then have pv: "p = (x1 + 1, z0)" unfolding p by (simp add: not_eq_complement)
    have "(?Q + 1) * ?D < 4294967296 * ?D" by (rule le_less_trans [OF _ nD]) (use le(1) in simp)
    then have "?Q + 1 < 4294967296" by (rule mult_less_cancel2 [THEN iffD1, THEN conjunct2])
    then have "unat (x1 + 1) = ?Q + 1" using unat_add_small [of x1 1] by simp
    then show ?thesis using le z01(1) unfolding pv by simp
  qed
qed

lemma adjusted_val:
  fixes a0 b :: limb
  assumes "n1 = (if 2147483648 \<le> unat a0 then 1 else 0)" "n0 = unat a0 - n1 * 2147483648" "2147483648 \<le> unat b"
  shows "int (unat (a0 + (b AND (if 2147483648 \<le> unat a0 then NOT 0 else 0)))) = int n0 + int n1 * (int (unat b) - 2147483648)"
proof (cases "2147483648 \<le> unat a0")
  case True
  have "unat a0 + unat b - 4294967296 < 4294967296" using limb_less [of a0] limb_less [of b] by linarith
  then have "unat (a0 + b) = unat a0 + unat b - 4294967296" unfolding unat_word_ariths(1) using True assms(3) by (simp add: le_mod_geq)
  then show ?thesis using True assms by (simp add: of_nat_diff)
qed (use assms in simp)

lemma estimate_nat:
  fixes v d a1 n0 n1 S r0 :: nat
  assumes "2147483648 \<le> d" "(v + 4294967296) * d + r0 = 18446744073709551615" "r0 < d" "a1 < d" "n0 < 2147483648" "n1 = 0 \<or> n1 = 1"
    and S: "S = v * (a1 + n1) + (adj + 4294967296 * a1)" "int adj = int n0 + int n1 * (int d - 2147483648)"
  shows "(S div 4294967296) * d \<le> n0 + n1 * 2147483648 + 4294967296 * a1"
    "n0 + n1 * 2147483648 + 4294967296 * a1 < (S div 4294967296 + 2) * d"
proof -
  have "v * d + 4294967296 * d + r0 = 18446744073709551615" using assms(2) by (simp only: add_mult_distrib)
  then have dN: "d \<le> 4294967295" by linarith
  have m: "(int v + 4294967296) * int d + int r0 = 18446744073709551615" using arg_cong [OF assms(2), of int] by simp
  have s: "int S = (int v + 4294967296) * (int a1 + int n1) + int n0 + int n1 * (int d - 3 * 2147483648)"
    unfolding S(1) using S(2) by (simp add: algebra_simps)
  define Q where "Q = S div 4294967296"
  have "Q * 4294967296 \<le> S" "S < (Q + 1) * 4294967296" unfolding Q_def using dividend_less_div_times [of 4294967296 S] by simp_all
  then have "int (Q * 4294967296) \<le> int S" "int S < int ((Q + 1) * 4294967296)" by (simp_all only: of_nat_le_iff of_nat_less_iff)
  then have q: "int Q * (2 * 2147483648) \<le> int S" "int S < (int Q + 1) * (2 * 2147483648)" by simp_all
  have "int Q * int d \<le> int a1 * (2 * 2147483648) + int n1 * 2147483648 + int n0"
      "int a1 * (2 * 2147483648) + int n1 * 2147483648 + int n0 < (int Q + 2) * int d"
    by (rule estimate [OF _ _ _ _ _ _ _ _ _ _ s q]; use m assms(1,3-6) dN in \<open>simp; fail\<close>)+
  then have "int (Q * d) \<le> int (n0 + n1 * 2147483648 + 4294967296 * a1)" "int (n0 + n1 * 2147483648 + 4294967296 * a1) < int ((Q + 2) * d)"
    by (simp_all add: algebra_simps)
  then show "(S div 4294967296) * d \<le> n0 + n1 * 2147483648 + 4294967296 * a1"
    "n0 + n1 * 2147483648 + 4294967296 * a1 < (S div 4294967296 + 2) * d" unfolding Q_def by (simp_all only: of_nat_le_iff of_nat_less_iff)
qed

lemma preinverted_divide_val:
  assumes "2147483648 \<le> unat b" "(unat v + 4294967296) * unat b + r0 = 18446744073709551615" "r0 < unat b" "a1 < b"
    "preinverted_divide a1 a0 b v = (q, r)"
  shows "pair_val (a1, a0) = unat q * unat b + unat r \<and> unat r < unat b"
proof -
  define n1 :: nat where "n1 = (if 2147483648 \<le> unat a0 then 1 else 0)"
  define n0 where "n0 = unat a0 - n1 * 2147483648"
  have n0: "n0 < 2147483648" "unat a0 = n0 + n1 * 2147483648" by (cases "2147483648 \<le> unat a0"; use limb_less [of a0] in \<open>simp add: n0_def n1_def less_diff_conv2 del: limb_less\<close>)+
  let ?mask = "if a0 AND limb_high_bit \<noteq> 0 then NOT 0 else 0 :: limb"
  obtain y1 y0 where y: "bigint_multiply2 v (a1 - ?mask) = (y1, y0)" by (cases "bigint_multiply2 v (a1 - ?mask)")
  obtain x1 x0 where x: "bigint_add y1 y0 a1 (a0 + (b AND ?mask)) = (x1, x0)" by (cases "bigint_add y1 y0 a1 (a0 + (b AND ?mask))")
  have a1: "unat a1 < unat b" using assms(4) by (simp add: word_less_nat_alt)
  have "unat (a1 - ?mask) = unat a1 + n1" 
    unfolding high_bit_iff n1_def using unat_add_small [of a1 1] a1 limb_less [of b] by (simp del: limb_less)
  then have yv: "pair_val (y1, y0) = unat v * (unat a1 + n1)" using bigint_multiply2_val [of v "a1 - ?mask"] y by simp
  have adj: "int (unat (a0 + (b AND ?mask))) = int n0 + int n1 * (int (unat b) - 2147483648)"
    unfolding high_bit_iff by (rule adjusted_val [OF n1_def n0_def assms(1)])
  define S where "S = unat v * (unat a1 + n1) + (unat (a0 + (b AND ?mask)) + 4294967296 * unat a1)"
  have xv: "pair_val (x1, x0) = S mod 18446744073709551616"
    using bigint_add_val [of y1 y0 a1 "a0 + (b AND ?mask)"] unfolding x yv S_def pair_val_def [of "(a1, _)"] fst_conv snd_conv .
  have est: "(S div 4294967296) * unat b \<le> pair_val (a1, a0)" "pair_val (a1, a0) < (S div 4294967296 + 2) * unat b"
    using estimate_nat [OF assms(1-3) a1 n0(1) _ S_def adj] n0(2) unfolding pair_val_def n1_def by auto
  have "pair_val (a1, a0) < 4294967296 * unat b" using a1 limb_less [of a0] unfolding pair_val_def fst_conv snd_conv by linarith
  then have "(S div 4294967296) * unat b < 4294967296 * unat b" by (rule le_less_trans [OF est(1)])
  then have "S div 4294967296 < 4294967296" by (rule mult_less_cancel2 [THEN iffD1, THEN conjunct2])
  then have "S < 18446744073709551616" by simp
  then have "unat x1 = S div 4294967296" using pair_val_eqI(2) [of "(x1, x0)" "S mod 4294967296" "S div 4294967296"] xv by simp
  then show ?thesis using preinverted_finish [of a1 b x1 a0] assms(4,5) est x y
    unfolding preinverted_divide_def Let_def by auto
qed

section \<open>Division of a number by a limb\<close>

abbreviation msb_val :: "limb list \<Rightarrow> nat" where
  "msb_val xs \<equiv> limbs_val (rev xs)"

lemma msb_val_Cons [simp]: "limbs_val (rev xs @ [x]) = 4294967296 ^ length xs * unat x + msb_val xs"
  by (simp add: limbs_val_append)

text \<open>A divisor that has its highest bit set, with its inverse.\<close>

definition good_inverse :: "limb \<Rightarrow> limb \<Rightarrow> bool" where
  "good_inverse b v \<longleftrightarrow> 2147483648 \<le> unat b \<and>
     (\<exists>r. (unat v + 4294967296) * unat b + r = 18446744073709551615 \<and> r < unat b)"

lemma inverse_good: "2147483648 \<le> unat b \<Longrightarrow> \<exists>v. bigint_inverse b = Some v \<and> good_inverse b v"
  using bigint_inverse_val [of b] unfolding good_inverse_def by blast

lemma preinverted_good:
  assumes "good_inverse b v" "unat a1 < unat b" "preinverted_divide a1 a0 b v = (q, r)"
  shows "unat a0 + 4294967296 * unat a1 = unat q * unat b + unat r" "unat r < unat b"
  using assms preinverted_divide_val [of b v _ a1 a0 q r]
  by (auto simp: good_inverse_def pair_val_def word_less_nat_alt)

lemma divide_norm_val:
  assumes "good_inverse b v" "unat r < unat b" "divide_norm as r b v = (qs, r')"
  shows "4294967296 ^ length as * unat r + msb_val as = msb_val qs * unat b + unat r' \<and> unat r' < unat b \<and> length qs = length as"
  using assms(2,3)
proof (induction as arbitrary: r qs)
  case (Cons a as)
  obtain q s where q: "preinverted_divide r a b v = (q, s)" by (cases "preinverted_divide r a b v")
  then obtain qs' where qs: "divide_norm as s b v = (qs', r')" "qs = q # qs'"
    using Cons.prems(2) by (auto split: prod.splits)
  note p = preinverted_good [OF assms(1) Cons.prems(1) q]
  have "4294967296 ^ length as * (unat a + 4294967296 * unat r) = 4294967296 ^ length as * (unat q * unat b + unat s)"
    unfolding p(1) ..
  then show ?case using Cons.IH [OF p(2) qs(1)] unfolding qs(2) by (simp add: algebra_simps)
qed simp

lemma shift_in:
  fixes a c :: limb
  assumes "n \<le> 32"
  shows "unat (push_bit n a) = 2 ^ n * (unat a mod 2 ^ (32 - n))"
    "unat (drop_bit (32 - n) c) = unat c div 2 ^ (32 - n)"
    "unat (push_bit n a OR drop_bit (32 - n) c) = 2 ^ n * (unat a mod 2 ^ (32 - n)) + unat c div 2 ^ (32 - n)"
proof -
  have N: "(4294967296 :: nat) = 2 ^ n * 2 ^ (32 - n)" using assms by (simp flip: power_add)
  show p: "unat (push_bit n a) = 2 ^ n * (unat a mod 2 ^ (32 - n))"
  proof -
    have "unat (push_bit n a) = take_bit 32 (push_bit n (unat a))" by (simp add: unsigned_push_bit_eq)
    also have "\<dots> = (2 ^ n * unat a) mod (2 ^ n * 2 ^ (32 - n))" unfolding take_bit_eq_mod push_bit_eq_mult N [symmetric] by (simp add: mult.commute)
    finally show ?thesis by (simp only: mult_mod_right)
  qed
  show d: "unat (drop_bit (32 - n) c) = unat c div 2 ^ (32 - n)" unfolding unat_drop_bit_eq by (rule drop_bit_eq_div)
  have "bit (drop_bit (32 - n) c) i \<Longrightarrow> i < n" for i using bit_imp_le_length [of c "32 - n + i"] assms by (auto simp: bit_drop_bit_eq)
  then have or: "push_bit n a OR drop_bit (32 - n) c = push_bit n a + drop_bit (32 - n) c"
    by (intro disjunctive_add [symmetric]) (auto simp: bit_push_bit_iff not_le)
  have "unat c div 2 ^ (32 - n) < 2 ^ n" using limb_less [of c] unfolding N by (metis less_mult_imp_div_less)
  moreover have "unat a mod 2 ^ (32 - n) \<le> 2 ^ (32 - n) - 1" using mod_less_divisor [of "2 ^ (32 - n)" "unat a"] by (metis Suc_leI diff_Suc_1 diff_le_mono less_Suc_eq_le pos2 zero_less_power Suc_pred' One_nat_def)
  then have "2 ^ n * (unat a mod 2 ^ (32 - n)) \<le> 2 ^ n * (2 ^ (32 - n) - 1)" by (rule mult_le_mono2)
  then have "2 ^ n * (unat a mod 2 ^ (32 - n)) \<le> 4294967296 - 2 ^ n" unfolding N by (simp add: diff_mult_distrib2)
  moreover have "(2 :: nat) ^ n \<le> 4294967296" unfolding N by simp
  ultimately have "unat (push_bit n a) + unat (drop_bit (32 - n) c) < 4294967296" unfolding p d by linarith
  then show "unat (push_bit n a OR drop_bit (32 - n) c) = 2 ^ n * (unat a mod 2 ^ (32 - n)) + unat c div 2 ^ (32 - n)"
    unfolding or using unat_add_small p d by simp
qed

text \<open>The loop for a divisor that had to be shifted: the dividend is shifted on the fly.\<close>

lemma shifted_limb:
  fixes a n :: nat
  assumes "n \<le> 32"
  shows "2 ^ n * a = 4294967296 * (a div 2 ^ (32 - n)) + 2 ^ n * (a mod 2 ^ (32 - n))"
proof -
  let ?K = "2 ^ (32 - n) :: nat"
  have N: "(4294967296 :: nat) = 2 ^ n * ?K" using assms by (simp flip: power_add)
  have "2 ^ n * (?K * (a div ?K) + a mod ?K) = 4294967296 * (a div ?K) + 2 ^ n * (a mod ?K)"
    unfolding N by (simp only: distrib_left mult.assoc)
  then show ?thesis by simp
qed

lemma shift_combine:
  fixes N P c :: nat
  assumes "c * ma + d0 + N * R = Q * B + S" "c * A0 = N * d0 + c * m0" "N * P * S + c * (P * m0 + mv) = qv * B + r"
  shows "N * (N * P) * R + c * (N * P * ma + (P * A0 + mv)) = (N * P * Q + qv) * B + r"
proof -
  have "N * P * (c * ma + d0 + N * R) = N * P * (Q * B + S)" "P * (c * A0) = P * (N * d0 + c * m0)" unfolding assms(1,2) by simp_all
  then show ?thesis using assms(3) by (simp add: algebra_simps)
qed

lemma divide_shift_val:
  assumes "good_inverse b v" "n \<le> 32" "unat r < unat b" "divide_shift as a1 n r b v = (qs, r')"
  shows "4294967296 ^ (length as + 1) * unat r + 2 ^ n * (4294967296 ^ length as * (unat a1 mod 2 ^ (32 - n)) + msb_val as)
      = msb_val qs * unat b + unat r' \<and> unat r' < unat b \<and> length qs = length as + 1"
  using assms(3,4)
proof (induction as arbitrary: a1 r qs)
  case Nil
  obtain q s where q: "preinverted_divide r (push_bit n a1) b v = (q, s)" by (cases "preinverted_divide r (push_bit n a1) b v")
  then have "qs = [q]" "r' = s" using Nil.prems(2) by simp_all
  then show ?case using preinverted_good [OF assms(1) Nil.prems(1) q] shift_in(1) [OF assms(2), of a1] by simp
next
  case (Cons a0 as)
  let ?w = "push_bit n a1 OR drop_bit (32 - n) a0"
  obtain q s where q: "preinverted_divide r ?w b v = (q, s)" by (cases "preinverted_divide r ?w b v")
  then obtain qs' where qs: "divide_shift as a0 n s b v = (qs', r')" "qs = q # qs'"
    using Cons.prems(2) by (auto split: prod.splits)
  note p = preinverted_good [OF assms(1) Cons.prems(1) q]
  let ?P = "4294967296 ^ length as :: nat" and ?K = "2 ^ (32 - n) :: nat"
  note a0 = shifted_limb [OF assms(2), of "unat a0"]
  have w: "2 ^ n * (unat a1 mod ?K) + unat a0 div ?K + 4294967296 * unat r = unat q * unat b + unat s"
    using p(1) shift_in(3) [OF assms(2), of a1 a0] by simp
  have i: "4294967296 * ?P * unat s + 2 ^ n * (?P * (unat a0 mod ?K) + msb_val as) = msb_val qs' * unat b + unat r' \<and> unat r' < unat b \<and> length qs' = length as + 1"
    using Cons.IH [OF p(2) qs(1)] by simp
  show ?case using i shift_combine [OF w a0 conjunct1 [OF i]] unfolding qs(2) by (simp add: mult.assoc)
qed

lemma unshift:
  fixes c t q b r :: nat
  assumes "c * t = q * (b * c) + r" "r < b * c" "0 < c"
  shows "t = q * b + r div c" "r div c < b"
proof -
  have "c * (q * b) + r = c * t" using assms(1) by (simp add: ac_simps)
  then have "(c * (q * b) + r) div c = t" using assms(3) by simp
  then show "t = q * b + r div c" using assms(3) by simp
  show "r div c < b" using assms(2) by (rule less_mult_imp_div_less)
qed

text \<open>The unnormalised branch of \<open>divide\<close>, with \<open>r\<close> carried in from a skipped limb.\<close>

lemma divide_unnormalised:
  assumes "b \<noteq> 0" "unat b < 2147483648" "unat r < unat b"
  defines "n \<equiv> ffs_msb b - 1"
  shows "\<exists>v qs s. bigint_inverse (push_bit n b) = Some v
      \<and> divide_shift as a1 n (push_bit n r OR drop_bit (32 - n) a1) (push_bit n b) v = (qs, s)
      \<and> 4294967296 ^ (length as + 1) * unat r + (4294967296 ^ length as * unat a1 + msb_val as) = msb_val qs * unat b + unat (drop_bit n s)
      \<and> unat (drop_bit n s) < unat b \<and> length qs = length as + 1"
proof -
  have t: "top_bit 32 (ffs_msb b) (unat b)" by (rule ffs_msb_top [OF assms(1)])
  then have n: "n \<le> 32" "32 - ffs_msb b = 31 - n" "n \<le> 31" unfolding n_def top_bit_def by arith+
  have "32 - n = Suc (31 - n)" using n(3) by simp
  then have bb: "2 ^ (31 - n) \<le> unat b" "unat b < 2 ^ (32 - n)" using t n(2) by (simp_all add: top_bit_def)
  have c: "(4294967296 :: nat) = 2 ^ (32 - n) * 2 ^ n" "(2147483648 :: nat) = 2 ^ (31 - n) * 2 ^ n" using n by (simp_all flip: power_add)
  have B: "unat (push_bit n b) = unat b * 2 ^ n" using shift_in(1) [OF n(1), of b] bb(2) by simp
  have B31: "2147483648 \<le> unat (push_bit n b)" unfolding B c(2) using bb(1) by simp
  obtain v where v: "bigint_inverse (push_bit n b) = Some v" "good_inverse (push_bit n b) v" using inverse_good [OF B31] by blast
  let ?r = "push_bit n r OR drop_bit (32 - n) a1"
  have "unat r < 2 ^ (32 - n)" using assms(3) bb(2) by simp
  then have r: "unat ?r = unat r * 2 ^ n + unat a1 div 2 ^ (32 - n)" using shift_in(3) [OF n(1), of r a1] by (simp add: mult.commute)
  have "unat a1 div 2 ^ (32 - n) < 2 ^ n" using limb_less [of a1] unfolding c(1) by (metis less_mult_imp_div_less mult.commute)
  moreover have "(unat r + 1) * 2 ^ n \<le> unat b * 2 ^ n" using assms(3) by (intro mult_le_mono1) simp
  ultimately have rb: "unat ?r < unat (push_bit n b)" unfolding r B by simp
  obtain qs s where q: "divide_shift as a1 n ?r (push_bit n b) v = (qs, s)" by (cases "divide_shift as a1 n ?r (push_bit n b) v")
  let ?P = "4294967296 ^ length as :: nat" and ?K = "2 ^ (32 - n) :: nat"
  note d = divide_shift_val [OF v(2) n(1) rb q]
  note a1 = shifted_limb [OF n(1), of "unat a1"]
  have "2 ^ n * (4294967296 * ?P * unat r + (?P * unat a1 + msb_val as)) = 4294967296 * ?P * unat ?r + 2 ^ n * (?P * (unat a1 mod ?K) + msb_val as)"
    unfolding r using arg_cong [OF a1, of "(*) ?P"] by (simp add: algebra_simps)
  also have "\<dots> = msb_val qs * (unat b * 2 ^ n) + unat s" using d unfolding B by simp
  finally have e: "2 ^ n * (4294967296 * ?P * unat r + (?P * unat a1 + msb_val as)) = msb_val qs * (unat b * 2 ^ n) + unat s" .
  have s: "unat (drop_bit n s) = unat s div 2 ^ n" unfolding unat_drop_bit_eq by (rule drop_bit_eq_div)
  have "unat s < unat b * 2 ^ n" using d unfolding B by simp
  then show ?thesis using v(1) q unshift [OF e] d s by simp
qed

lemma divide_msb_val:
  assumes "a \<noteq> []" "b \<noteq> 0"
  shows "\<exists>qs r. divide_msb a b = Some (qs, r) \<and> msb_val a = msb_val qs * unat b + unat r \<and> unat r < unat b \<and> length qs = length a"
proof -
  obtain a1 as where a: "a = a1 # as" using assms(1) by (cases a) auto
  show ?thesis
  proof (cases "b AND limb_high_bit \<noteq> 0")
    case True
    then obtain v where v: "bigint_inverse b = Some v" "good_inverse b v" using inverse_good [of b] high_bit_iff [of b] by blast
    have b: "2147483648 \<le> unat b" using True high_bit_iff [of b] by blast
    define x :: limb where "x = (if b \<le> a1 then 1 else 0)"
    define r where "r = a1 - (b AND - x)"
    have r: "unat a1 = unat x * unat b + unat r \<and> unat r < unat b"
    proof (cases "b \<le> a1")
      case True
      then have "unat r = unat a1 - unat b" "unat b \<le> unat a1" by (simp_all add: r_def x_def unat_sub word_le_nat_alt)
      moreover have "unat a1 < 2 * unat b" using b limb_less [of a1] by linarith
      ultimately show ?thesis using True by (simp add: x_def)
    qed (simp add: r_def x_def word_le_nat_alt)
    obtain qs s where q: "divide_norm as r b v = (qs, s)" by (cases "divide_norm as r b v")
    have "divide_msb a b = Some (x # qs, s)"
      unfolding a divide_msb_def list.case if_P [OF True] Let_def x_def [symmetric] r_def [symmetric] v(1) using q by simp
    then show ?thesis using divide_norm_val [OF v(2) conjunct2 [OF r] q] r unfolding a by (simp add: algebra_simps)
  next
    case False
    then have b: "unat b < 2147483648" using high_bit_iff [of b] by simp
    note u = divide_unnormalised [OF assms(2) b]
    show ?thesis
    proof (cases "a1 < b")
      case True
      show ?thesis
      proof (cases as)
        case Nil
        then show ?thesis using False True by (simp add: a divide_msb_def word_less_nat_alt)
      next
        case (Cons a2 as')
        then show ?thesis using False True u [of a1 as' a2] assms(2)
          by (auto simp: a divide_msb_def Let_def word_less_nat_alt limbs_val_append algebra_simps)
      qed
    next
      case False
      have "unat (0 :: limb) < unat b" using assms(2) by (simp add: unat_gt_0)
      then show ?thesis using False \<open>\<not> b AND limb_high_bit \<noteq> 0\<close> u [of 0 as a1] assms(2)
        by (auto simp: a divide_msb_def Let_def)
    qed
  qed
qed

lemma divide_exact:
  assumes "a \<noteq> []" "b \<noteq> 0"
  shows "\<exists>x r. bigint_divide a b = Some (x, r) \<and> length x = length a \<and> limbs_val x = limbs_val a div unat b \<and> unat r = limbs_val a mod unat b"
proof -
  obtain qs r where d: "divide_msb (rev a) b = Some (qs, r)" "limbs_val a = msb_val qs * unat b + unat r" "unat r < unat b" "length qs = length a"
    using divide_msb_val [of "rev a" b] assms by auto
  then show ?thesis by (auto simp: bigint_divide_def)
qed

text \<open>C14: \<open>divide\<close> divides exactly: for every dividend of at least one limb and every divisor
  but zero it returns the quotient in as many limbs and the remainder, although it never
  divides two limbs by one: it multiplies by an approximate inverse of the normalised
  divisor and corrects the estimate.\<close>

theorem bigint_divide_exact:
  assumes "a \<noteq> []" "b \<noteq> 0"
  shows "\<exists>x r. bigint_divide a b = Some (x, r) \<and> length x = length a \<and> limbs_val x = limbs_val a div unat b \<and> unat r = limbs_val a mod unat b"
  using assms by (rule divide_exact)

theorem bigint_divide_exact_witness:
  "([0x12345678, 0x9ABCDEF0, 7] :: limb list) \<noteq> [] \<and> (1000 :: limb) \<noteq> 0 \<and>
   (\<exists>x r. bigint_divide [0x12345678, 0x9ABCDEF0, 7] 1000 = Some (x, r) \<and> length x = Suc (Suc (Suc 0)) \<and> limbs_val x = 140277240416108303 \<and> unat r = 992)"
  using bigint_divide_exact [of "[0x12345678, 0x9ABCDEF0, 7]" 1000] by simp

section \<open>Multiplication of numbers\<close>

lemma bigint_set_val:
  "bigint_set n b = (xs, c) \<Longrightarrow> limbs_val xs + 4294967296 ^ n * unat c = unat b \<and> length xs = n"
proof (induction n arbitrary: b xs)
  case (Suc n)
  obtain ys where ys: "bigint_set n (drop_bit 32 b) = (ys, c)" "xs = ucast b # ys" using Suc.prems by (auto split: prod.splits)
  have d: "unat (drop_bit 32 b) = unat b div 2 ^ 32" unfolding unat_drop_bit_eq by (rule drop_bit_eq_div)
  have l: "unat (ucast b :: limb) = unat b mod 2 ^ 32" by (simp add: unsigned_ucast_eq take_bit_eq_mod)
  have "4294967296 * (limbs_val ys + 4294967296 ^ n * unat c) + unat b mod 4294967296 = unat b" using Suc.IH [OF ys(1)] d by simp
  then show ?case using Suc.IH [OF ys(1)] l unfolding ys(2) by (simp add: algebra_simps)
qed simp

lemma bigint_multiply_add_val:
  assumes "a \<noteq> []" "length x = length a"
  shows "\<exists>y c. bigint_multiply_add x a b = Some (y, c) \<and> length y = length a
      \<and> limbs_val y + 4294967296 ^ length a * unat c = limbs_val x + limbs_val a * unat b"
proof -
  obtain y c where "multiply_add_loop x a b 0 = (y, c)" by (cases "multiply_add_loop x a b 0")
  then show ?thesis using multiply_add_loop_val [of x a b 0 y c] assms by (simp add: bigint_multiply_add_def)
qed

lemma bigint_multiply_val:
  assumes "a \<noteq> []"
  shows "\<exists>y c. bigint_multiply a b carry = Some (y, c) \<and> length y = length a
      \<and> limbs_val y + 4294967296 ^ length a * unat c = limbs_val a * unat b + unat carry"
proof -
  obtain y c where "multiply_loop bigint_multiply2 a b carry = (y, c)" by (cases "multiply_loop bigint_multiply2 a b carry")
  then show ?thesis using multiply_loop_val [of bigint_multiply2 b, OF bigint_multiply2_val] assms by (auto simp: bigint_multiply_def)
qed

lemma pair_val_inj:
  assumes "pair_val p = pair_val q"
  shows "p = q"
proof -
  note e = pair_val_eqI [OF trans [OF assms pair_val_def] limb_less]
  then have "snd p = snd q" "fst p = fst q" by (simp_all only: word_unat_eq_iff)
  then show ?thesis by (simp add: prod_eq_iff)
qed

text \<open>The half-limb multiplication is the general one, on the multipliers it is defined for.\<close>

lemma bigint_multiply_half_eq:
  assumes "unat b < 65536"
  shows "bigint_multiply_half a b carry = bigint_multiply a b carry"
proof -
  have "bigint_multiply_half2 a b = bigint_multiply2 a b" for a
    using bigint_multiply_half2_val [OF assms, of a] bigint_multiply2_val [of a b] pair_val_inj by metis
  then have "multiply_loop bigint_multiply_half2 a b carry = multiply_loop bigint_multiply2 a b carry" for a
    by (induction a arbitrary: carry) simp_all
  then show ?thesis using assms by (simp add: bigint_multiply_half_def bigint_multiply_def)
qed

section \<open>Printing\<close>

fun digit_value :: "char \<Rightarrow> nat" where
  "digit_value c = (let k = of_char c :: nat in if k < 65 then k - 48 else if k < 97 then k - 55 else k - 87)"

fun numeral_value :: "nat \<Rightarrow> string \<Rightarrow> nat" where
  "numeral_value base [] = 0"
| "numeral_value base (c # cs) = digit_value c * base ^ length cs + numeral_value base cs"

lemma digit_value_char: "unat r < 36 \<Longrightarrow> digit_value (digit_char uppercase r) = unat r"
  by (auto simp: digit_char_def Let_def word_le_nat_alt take_bit_nat_eq_self)

lemma digit_value_zero: "digit_value (CHR ''0'') = 0"
  by code_simp

lemma limbs_val_trim: "limbs_val (trim_zeros x) = limbs_val x"
proof -
  have "limbs_val (rev (dropWhile ((=) 0) y)) = limbs_val (rev y)" for y
    by (induction y) (auto simp: limbs_val_append)
  from this [of "rev x"] show ?thesis by (simp add: trim_zeros_def)
qed

lemma trim_zero_iff: "trim_zeros x = [] \<longleftrightarrow> limbs_val x = 0"
proof
  assume "trim_zeros x = []"
  then show "limbs_val x = 0" using limbs_val_trim [of x] by simp
next
  assume z: "limbs_val x = 0"
  have "limbs_val y = 0 \<Longrightarrow> dropWhile ((=) 0) (rev y) = []" for y :: "limb list"
    by (induction y) (auto simp: unat_eq_zero)
  then show "trim_zeros x = []" using z by (simp add: trim_zeros_def)
qed

lemma numeral_value_append: "numeral_value b (xs @ ys) = numeral_value b xs * b ^ length ys + numeral_value b ys"
  by (induction xs) (simp_all add: power_add algebra_simps)

lemma unparse_loop_val:
  assumes "limbs_val x < unat base ^ (cap - length acc)" "2 \<le> unat base" "unat base \<le> 36"
  shows "\<exists>ds. unparse_loop base uppercase cap x acc = Some (ds @ acc) \<and> length (ds @ acc) \<le> max cap (length acc)
      \<and> numeral_value (unat base) ds = limbs_val x \<and> (ds = [] \<longleftrightarrow> limbs_val x = 0) \<and> (ds \<noteq> [] \<longrightarrow> 0 < digit_value (hd ds))"
  using assms
proof (induction base uppercase cap x acc rule: unparse_loop.induct)
  case (1 base uppercase cap x acc)
  show ?case
  proof (cases "limbs_val x = 0")
    case True
    then show ?thesis using trim_zero_iff [of x] by (simp add: unparse_loop.simps)
  next
    case False
    then have t: "trim_zeros x \<noteq> []" by (simp add: trim_zero_iff)
    have b0: "base \<noteq> 0" using "1.prems"(2) by auto
    obtain y d where y: "bigint_divide (trim_zeros x) base = Some (y, d)"
        "limbs_val y = limbs_val x div unat base" "unat d = limbs_val x mod unat base"
      using divide_exact [OF t b0] limbs_val_trim [of x] by auto
    have lt: "length acc < cap" using "1.prems"(1) False by (rule_tac ccontr) simp
    then have e: "cap - length acc = Suc (cap - length (digit_char uppercase d # acc))" by simp
    have dv: "digit_value (digit_char uppercase d) = unat d" using digit_value_char [of d] y(3) "1.prems"(2,3)
      by (metis le_less_trans less_le_trans mod_less_divisor not_le order_less_imp_le zero_less_numeral)
    have "limbs_val y < unat base ^ (cap - length (digit_char uppercase d # acc))"
      using "1.prems"(1) unfolding e power_Suc2 y(2) by (rule less_mult_imp_div_less)
    then obtain ds where ds: "unparse_loop base uppercase cap y (digit_char uppercase d # acc) = Some (ds @ digit_char uppercase d # acc)"
      "length (ds @ digit_char uppercase d # acc) \<le> max cap (length (digit_char uppercase d # acc))"
      "numeral_value (unat base) ds = limbs_val y" "ds = [] \<longleftrightarrow> limbs_val y = 0" "ds \<noteq> [] \<longrightarrow> 0 < digit_value (hd ds)"
      using "1.IH" [OF refl t y(1) refl _ _ "1.prems"(2,3)] lt by (auto simp: not_le)
    have "unparse_loop base uppercase cap x acc = Some ((ds @ [digit_char uppercase d]) @ acc)"
      using t y(1) lt ds(1) unparse_loop.simps [of base uppercase cap x acc] by simp
    moreover have "numeral_value (unat base) (ds @ [digit_char uppercase d]) = limbs_val x"
      using ds(3) y(2,3) dv by (simp add: numeral_value_append)
    moreover have "0 < digit_value (hd (ds @ [digit_char uppercase d]))"
      using ds(4,5) y(2,3) dv False by (cases ds) (auto simp del: digit_value.simps simp: div_eq_0_iff)
    ultimately show ?thesis using ds(2) lt False by (intro exI [of _ "ds @ [digit_char uppercase d]"]) simp
  qed
qed

text \<open>C36: \<open>unparse_clear\<close> prints every number in every base from 2 to 36: its buffer is large
  enough, the digits denote the number, and there is no leading zero.\<close>

theorem unparse_clear_value:
  assumes "2 \<le> unat base" "unat base \<le> 36"
  shows "\<exists>s. unparse_clear x base uppercase = Some s \<and> numeral_value (unat base) s = limbs_val x
    \<and> (s = ''0'' \<or> s \<noteq> [] \<and> 0 < digit_value (hd s))"
proof -
  let ?bits = "if 16 \<le> base then 4 else if 8 \<le> base then 3 else 1 :: nat"
  let ?cap = "length x * 32 div ?bits + 1"
  have k: "(2 :: nat) ^ ?bits \<le> unat base" using assms(1) by (simp add: word_le_nat_alt)
  have "length x * 32 \<le> ?bits * ?cap" by (simp add: word_le_nat_alt) arith
  then have "(2 :: nat) ^ (length x * 32) \<le> 2 ^ (?bits * ?cap)" by (intro power_increasing) simp_all
  also have "\<dots> \<le> unat base ^ ?cap" unfolding power_mult using k by (intro power_mono) simp_all
  also have "(2 :: nat) ^ (length x * 32) = 4294967296 ^ length x" unfolding mult.commute [of "length x"] power_mult by simp
  finally have "limbs_val x < unat base ^ (?cap - length ([] :: string))" using limbs_val_less [of x] by simp
  then obtain ds where "unparse_loop base uppercase ?cap x [] = Some ds" "numeral_value (unat base) ds = limbs_val x"
    "ds = [] \<longleftrightarrow> limbs_val x = 0" "ds \<noteq> [] \<longrightarrow> 0 < digit_value (hd ds)"
    using unparse_loop_val [OF _ assms, of x ?cap "[]" uppercase] by auto
  moreover have "2 \<le> base \<and> base \<le> 36" using assms by (simp add: word_le_nat_alt)
  ultimately show ?thesis by (auto simp: unparse_clear_def Let_def digit_value_zero simp del: digit_value.simps)
qed

theorem unparse_clear_value_witness:
  "2 \<le> unat (10 :: limb) \<and> unat (10 :: limb) \<le> 36 \<and>
   (\<exists>s. unparse_clear [0, 1] 10 False = Some s \<and> numeral_value 10 s = 4294967296 \<and> (s = ''0'' \<or> s \<noteq> [] \<and> 0 < digit_value (hd s)))"
  using unparse_clear_value [of 10 "[0, 1]" False] by simp

end
