(* ===== verification/Click_Token_Bucket.thy ===== *)
theory Click_Token_Bucket
  imports Click_Bigint
begin

text \<open>
  Token buckets (\<open>include/click/tokenbucket.hh\<close>) with the jiffy parameters of the user-level
  driver: 32-bit tokens and ticks, 1000 ticks per second. A bucket is a rate (\<open>TokenRateX\<close>)
  and a counter (\<open>TokenCounterX\<close>); the counter holds a fraction of the capacity, scaled so that
  the full bucket is \<open>max_tokens\<close>. The current time \<open>P::now()\<close> is an argument. A failed
  assertion and a division by zero are \<open>None\<close>. The theorems show that the scaled wrap-around
  arithmetic is that of a bucket of unbounded numbers that is cut off at its capacity, and
  that \<open>time_until_contains\<close> is exact.
\<close>

section \<open>Rates\<close>

record token_rate =
  tokens_per_tick :: u32
  token_scale :: u32
  time_until_full :: u32

definition max_tokens :: u32 where
  "max_tokens = - 1"

definition CLICK_HZ :: u32 where
  "CLICK_HZ = 1000"

definition rate_assign_special :: "bool \<Rightarrow> token_rate" where
  "rate_assign_special unlimited =
     \<lparr> tokens_per_tick = (if unlimited then max_tokens else 0), token_scale = 1,
       time_until_full = (if unlimited then 0 else - 1) \<rparr>"

definition rate_assign :: "u32 \<Rightarrow> u32 \<Rightarrow> token_rate option" where
  "rate_assign rate capacity =
     (let (rate, capacity) = (if capacity = 0 then (0, max_tokens) else (rate, capacity));
          frequency = CLICK_HZ;
          capacity = (if rate \<noteq> 0
                      then let min_capacity = (rate - 1) div frequency + 1
                           in if capacity < min_capacity then min_capacity else capacity
                      else capacity);
          scale = max_tokens div capacity
      in case bigint_multiply_add [0, 0] [rate, 0] scale of
           None \<Rightarrow> None
         | Some (l, _) \<Rightarrow>
             (case bigint_divide l frequency of
                None \<Rightarrow> None
              | Some (l, _) \<Rightarrow>
                  if l ! 1 \<noteq> 0 then None
                  else if rate \<noteq> 0
                  then let tpt = (if l ! 0 \<noteq> 0 then l ! 0 else 1)
                       in Some \<lparr> tokens_per_tick = tpt, token_scale = scale, time_until_full = (max_tokens - 1) div tpt + 1 \<rparr>
                  else Some \<lparr> tokens_per_tick = 0, token_scale = scale, time_until_full = - 1 \<rparr>))"

definition rate_unlimited :: "token_rate \<Rightarrow> bool" where
  "rate_unlimited r \<longleftrightarrow> time_until_full r = 0"

definition rate_idle :: "token_rate \<Rightarrow> bool" where
  "rate_idle r \<longleftrightarrow> tokens_per_tick r = 0"

definition rate_rate :: "token_rate \<Rightarrow> u32 option" where
  "rate_rate r =
     (case bigint_multiply_add [tokens_per_tick r div 2, 0] [tokens_per_tick r, 0] CLICK_HZ of
        None \<Rightarrow> None
      | Some (l, _) \<Rightarrow>
          (case bigint_divide l (token_scale r) of
             None \<Rightarrow> None
           | Some (l, _) \<Rightarrow> Some (if l ! 1 \<noteq> 0 then max_tokens else l ! 0)))"

definition rate_capacity :: "token_rate \<Rightarrow> u32" where
  "rate_capacity r = max_tokens div token_scale r"

definition time_monotonic_difference :: "u32 \<Rightarrow> u32 \<Rightarrow> u32" where
  "time_monotonic_difference a b = (if a \<le> b then b - a else 0)"

text \<open>
  Scaling a count of tokens: the version for machines with a fast \<open>int_multiply\<close>, used by the
  counter, and the portable one. The flag tells whether the count is within the capacity.
\<close>

definition cvt_fast :: "token_rate \<Rightarrow> u32 \<Rightarrow> bool \<times> u32" where
  "cvt_fast rate t =
     (let (t, high) = int_multiply t (token_scale rate); t = (if high \<noteq> 0 then max_tokens else t)
      in (high = 0, t))"

definition cvt_slow :: "token_rate \<Rightarrow> u32 \<Rightarrow> bool \<times> u32" where
  "cvt_slow rate t = (if t \<le> rate_capacity rate then (True, t * token_scale rate) else (False, max_tokens))"

section \<open>Counters\<close>

record token_counter =
  tokens :: u32
  time_point :: u32

definition new_counter :: "bool \<Rightarrow> token_counter" where
  "new_counter full = \<lparr> tokens = (if full then max_tokens else 0), time_point = 0 \<rparr>"

definition counter_size :: "token_rate \<Rightarrow> token_counter \<Rightarrow> u32" where
  "counter_size rate c = tokens c div token_scale rate"

definition contains_fraction :: "token_counter \<Rightarrow> u32 \<Rightarrow> bool" where
  "contains_fraction c f \<longleftrightarrow> f \<le> tokens c"

definition counter_contains :: "token_rate \<Rightarrow> token_counter \<Rightarrow> u32 \<Rightarrow> bool" where
  "counter_contains rate c t = (let (ok, t) = cvt_fast rate t in ok \<and> contains_fraction c t)"

definition counter_clear :: "token_counter \<Rightarrow> token_counter" where
  "counter_clear c = c\<lparr>tokens := 0\<rparr>"

definition counter_set_full :: "token_counter \<Rightarrow> token_counter" where
  "counter_set_full c = c\<lparr>tokens := max_tokens\<rparr>"

definition counter_set :: "token_rate \<Rightarrow> u32 \<Rightarrow> token_counter \<Rightarrow> token_counter" where
  "counter_set rate t c = c\<lparr>tokens := snd (cvt_fast rate t)\<rparr>"

definition set_fraction :: "u32 \<Rightarrow> token_counter \<Rightarrow> token_counter" where
  "set_fraction f c = c\<lparr>tokens := f\<rparr>"

definition counter_adjust :: "token_rate \<Rightarrow> token_rate \<Rightarrow> token_counter \<Rightarrow> token_counter option" where
  "counter_adjust old_rate new_rate c =
     (if token_scale old_rate \<noteq> token_scale new_rate
      then case bigint_multiply_add [0, 0] [tokens c, 0] (token_scale new_rate) of
             None \<Rightarrow> None
           | Some (l, _) \<Rightarrow>
               (case bigint_divide l (token_scale old_rate) of
                  None \<Rightarrow> None
                | Some (l, _) \<Rightarrow> Some (c\<lparr>tokens := if l ! 1 \<noteq> 0 then max_tokens else l ! 0\<rparr>))
      else Some c)"

definition refill :: "token_rate \<Rightarrow> u32 \<Rightarrow> token_counter \<Rightarrow> token_counter" where
  "refill rate time c =
     (let diff = time_monotonic_difference (time_point c) time;
          c = (if time_until_full rate \<le> diff then c\<lparr>tokens := max_tokens\<rparr>
               else if 0 < diff
               then let new_tokens = tokens c + diff * tokens_per_tick rate
                    in c\<lparr>tokens := if new_tokens < tokens c then max_tokens else new_tokens\<rparr>
               else c)
      in c\<lparr>time_point := time\<rparr>)"

definition set_time_point :: "u32 \<Rightarrow> token_counter \<Rightarrow> token_counter" where
  "set_time_point time c = c\<lparr>time_point := time\<rparr>"

definition remove_fraction :: "u32 \<Rightarrow> token_counter \<Rightarrow> token_counter" where
  "remove_fraction f c = c\<lparr>tokens := if f \<le> tokens c then tokens c - f else 0\<rparr>"

definition remove_fraction_if :: "u32 \<Rightarrow> token_counter \<Rightarrow> bool \<times> token_counter" where
  "remove_fraction_if f c = (if f \<le> tokens c then (True, c\<lparr>tokens := tokens c - f\<rparr>) else (False, c))"

definition counter_remove :: "token_rate \<Rightarrow> u32 \<Rightarrow> token_counter \<Rightarrow> token_counter" where
  "counter_remove rate t c = remove_fraction (snd (cvt_fast rate t)) c"

definition counter_remove_if :: "token_rate \<Rightarrow> u32 \<Rightarrow> token_counter \<Rightarrow> bool \<times> token_counter" where
  "counter_remove_if rate t c = (let (ok, t) = cvt_fast rate t in if ok then remove_fraction_if t c else (False, c))"

definition time_until_contains_fraction :: "token_rate \<Rightarrow> token_counter \<Rightarrow> u32 \<Rightarrow> u32" where
  "time_until_contains_fraction rate c f =
     (if f \<le> tokens c \<or> time_until_full rate = 0 then 0
      else if tokens_per_tick rate = 0 then - 1
      else (f - tokens c - 1) div tokens_per_tick rate + 1)"

definition time_until_contains :: "token_rate \<Rightarrow> token_counter \<Rightarrow> u32 \<Rightarrow> u32" where
  "time_until_contains rate c t =
     (let (ok, t) = cvt_fast rate t in if ok then time_until_contains_fraction rate c t else - 1)"

section \<open>Buckets\<close>

record token_bucket =
  tb_rate :: token_rate
  tb_counter :: token_counter

definition new_bucket_special :: "bool \<Rightarrow> token_bucket" where
  "new_bucket_special unlimited = \<lparr> tb_rate = rate_assign_special unlimited, tb_counter = new_counter unlimited \<rparr>"

definition new_bucket :: "u32 \<Rightarrow> u32 \<Rightarrow> token_bucket option" where
  "new_bucket rate capacity =
     map_option (\<lambda>r. \<lparr> tb_rate = r, tb_counter = new_counter (rate \<noteq> 0 \<and> capacity \<noteq> 0) \<rparr>) (rate_assign rate capacity)"

definition tb_assign :: "u32 \<Rightarrow> u32 \<Rightarrow> token_bucket \<Rightarrow> token_bucket option" where
  "tb_assign rate capacity tb = map_option (\<lambda>r. tb\<lparr>tb_rate := r\<rparr>) (rate_assign rate capacity)"

definition tb_assign_adjust :: "u32 \<Rightarrow> u32 \<Rightarrow> token_bucket \<Rightarrow> token_bucket option" where
  "tb_assign_adjust rate capacity tb =
     (case rate_assign rate capacity of
        None \<Rightarrow> None
      | Some r \<Rightarrow> map_option (\<lambda>c. \<lparr> tb_rate = r, tb_counter = c \<rparr>) (counter_adjust (tb_rate tb) r (tb_counter tb)))"

definition tb_assign_special :: "bool \<Rightarrow> token_bucket \<Rightarrow> token_bucket" where
  "tb_assign_special unlimited tb = tb\<lparr>tb_rate := rate_assign_special unlimited\<rparr>"

definition tb_size :: "token_bucket \<Rightarrow> u32" where
  "tb_size tb = counter_size (tb_rate tb) (tb_counter tb)"

definition tb_clear :: "token_bucket \<Rightarrow> token_bucket" where
  "tb_clear tb = tb\<lparr>tb_counter := counter_clear (tb_counter tb)\<rparr>"

definition tb_set_full :: "token_bucket \<Rightarrow> token_bucket" where
  "tb_set_full tb = tb\<lparr>tb_counter := counter_set_full (tb_counter tb)\<rparr>"

definition tb_set :: "u32 \<Rightarrow> token_bucket \<Rightarrow> token_bucket" where
  "tb_set t tb = tb\<lparr>tb_counter := counter_set (tb_rate tb) t (tb_counter tb)\<rparr>"

definition tb_set_fraction :: "u32 \<Rightarrow> token_bucket \<Rightarrow> token_bucket" where
  "tb_set_fraction f tb = tb\<lparr>tb_counter := set_fraction f (tb_counter tb)\<rparr>"

definition tb_set_time_point :: "u32 \<Rightarrow> token_bucket \<Rightarrow> token_bucket" where
  "tb_set_time_point time tb = tb\<lparr>tb_counter := set_time_point time (tb_counter tb)\<rparr>"

definition tb_remove_fraction :: "u32 \<Rightarrow> token_bucket \<Rightarrow> token_bucket" where
  "tb_remove_fraction f tb = tb\<lparr>tb_counter := remove_fraction f (tb_counter tb)\<rparr>"

definition tb_remove_fraction_if :: "u32 \<Rightarrow> token_bucket \<Rightarrow> bool \<times> token_bucket" where
  "tb_remove_fraction_if f tb = map_prod id (\<lambda>c. tb\<lparr>tb_counter := c\<rparr>) (remove_fraction_if f (tb_counter tb))"

definition tb_contains :: "u32 \<Rightarrow> token_bucket \<Rightarrow> bool" where
  "tb_contains t tb = counter_contains (tb_rate tb) (tb_counter tb) t"

definition tb_refill :: "u32 \<Rightarrow> token_bucket \<Rightarrow> token_bucket" where
  "tb_refill time tb = tb\<lparr>tb_counter := refill (tb_rate tb) time (tb_counter tb)\<rparr>"

definition tb_remove :: "u32 \<Rightarrow> token_bucket \<Rightarrow> token_bucket" where
  "tb_remove t tb = tb\<lparr>tb_counter := counter_remove (tb_rate tb) t (tb_counter tb)\<rparr>"

definition tb_remove_if :: "u32 \<Rightarrow> token_bucket \<Rightarrow> bool \<times> token_bucket" where
  "tb_remove_if t tb = map_prod id (\<lambda>c. tb\<lparr>tb_counter := c\<rparr>) (counter_remove_if (tb_rate tb) t (tb_counter tb))"

definition tb_time_until_contains :: "u32 \<Rightarrow> token_bucket \<Rightarrow> u32" where
  "tb_time_until_contains t tb = time_until_contains (tb_rate tb) (tb_counter tb) t"

section \<open>Rates\<close>

declare limb_less [simp del]

abbreviation MAX_TOKENS :: nat where
  "MAX_TOKENS \<equiv> 4294967295"

lemma unat_max_tokens [simp]: "unat max_tokens = MAX_TOKENS"
  by (simp add: max_tokens_def unsigned_minus_1_eq_mask mask_eq_exp_minus_1)

lemma max_tokens_ge [simp]: "x \<le> max_tokens"
  by (simp add: max_tokens_def)

lemma token_le_max: "unat (x :: u32) \<le> MAX_TOKENS"
  using limb_less [of x] by linarith

text \<open>The two-limb computation \<open>(x + a * b) / d\<close>, which no intermediate value overflows.\<close>

lemma muldiv:
  assumes "d \<noteq> 0"
  shows "\<exists>l c y r. bigint_multiply_add [x, 0] [a, 0] b = Some (l, c) \<and> bigint_divide l d = Some (y, r)
      \<and> unat (y ! 0) + 4294967296 * unat (y ! 1) = (unat x + unat a * unat b) div unat d"
proof -
  obtain l c where l: "bigint_multiply_add [x, 0] [a, 0] b = Some (l, c)" "length l = 2"
      "limbs_val l + 4294967296 ^ 2 * unat c = unat x + unat a * unat b"
    using bigint_multiply_add_val [of "[a, 0]" "[x, 0]" b] by (auto simp: numeral_2_eq_2)
  have "unat c = 0" using l(3) product_bound [of a b] limb_less [of x] by simp
  then have v: "limbs_val l = unat x + unat a * unat b" using l(3) by simp
  have "l \<noteq> []" using l(2) by auto
  then obtain y r where y: "bigint_divide l d = Some (y, r)" "length y = 2" "limbs_val y = limbs_val l div unat d"
    using divide_exact [OF _ assms, of l] l(2) by auto
  obtain y0 y1 where "y = [y0, y1]" using y(2) by (auto simp: numeral_2_eq_2 length_Suc_conv)
  then show ?thesis using l(1) y v by auto
qed

lemma muldiv_saturated:
  assumes "unat y0 + 4294967296 * unat (y1 :: limb) = v"
  shows "unat (if y1 \<noteq> 0 then max_tokens else y0) = min MAX_TOKENS v"
proof (cases "y1 = 0")
  case True
  then show ?thesis using assms token_le_max [of y0] by simp
next
  case False
  then have "0 < unat y1" by (simp add: unat_gt_0)
  then have "MAX_TOKENS \<le> v" using assms by linarith
  then show ?thesis using False by simp
qed

definition token_rate_ok :: "token_rate \<Rightarrow> bool" where
  "token_rate_ok r \<longleftrightarrow> token_scale r \<noteq> 0 \<and>
     (if tokens_per_tick r = 0 then time_until_full r = - 1
      else time_until_full r = 0 \<or> unat (time_until_full r) = (MAX_TOKENS - 1) div unat (tokens_per_tick r) + 1)"

lemma token_rate_ok_special: "token_rate_ok (rate_assign_special b)"
  by (simp add: token_rate_ok_def rate_assign_special_def max_tokens_def)

text \<open>The capacity that \<open>assign\<close> works with, and what it sets up.\<close>

definition effective_capacity :: "nat \<Rightarrow> nat \<Rightarrow> nat" where
  "effective_capacity rate capacity = max capacity ((rate + 999) div 1000)"

lemma ceil_div: "rate \<noteq> 0 \<Longrightarrow> unat ((rate - 1) div CLICK_HZ + 1) = (unat rate + 999) div 1000"
proof -
  assume r: "rate \<noteq> 0"
  then have u: "unat (rate - 1) = unat rate - 1" "0 < unat rate" by (simp_all add: unat_minus_one unat_gt_0)
  have "unat ((rate - 1) div CLICK_HZ) = (unat rate - 1) div 1000" using u by (simp add: CLICK_HZ_def unat_div_distrib)
  moreover have "(unat rate - 1) div 1000 + 1 = (unat rate + 999) div 1000" using u(2) by simp
  moreover have "(unat rate + 999) div 1000 < 4294967296" using limb_less [of rate] by simp
  ultimately show ?thesis using unat_add_small [of "(rate - 1) div CLICK_HZ" 1] by simp
qed

lemma scale_fits:
  fixes rate cap :: nat
  assumes "rate \<le> cap * 1000"
  shows "rate * (MAX_TOKENS div cap) div 1000 \<le> MAX_TOKENS"
proof -
  have "rate * (MAX_TOKENS div cap) \<le> (cap * 1000) * (MAX_TOKENS div cap)" using assms by (rule mult_le_mono1)
  also have "\<dots> = 1000 * (cap * (MAX_TOKENS div cap))" by simp
  also have "\<dots> \<le> 1000 * MAX_TOKENS" by (intro mult_le_mono2) simp
  finally show ?thesis using div_le_mono [of _ "1000 * MAX_TOKENS" 1000] by simp
qed

lemma until_full_val: "t \<noteq> 0 \<Longrightarrow> unat ((max_tokens - 1) div t + 1) = (MAX_TOKENS - 1) div unat t + 1"
proof -
  assume "t \<noteq> 0"
  have m: "unat (max_tokens - 1) = MAX_TOKENS - 1" by (simp add: max_tokens_def)
  have "(MAX_TOKENS - 1) div unat t \<le> MAX_TOKENS - 1" by (rule div_le_dividend)
  then have "(MAX_TOKENS - 1) div unat t < MAX_TOKENS" by linarith
  then show ?thesis using unat_add_small [of "(max_tokens - 1) div t" 1] by (simp add: unat_div_distrib m)
qed

lemma until_full_nonzero: "t \<noteq> 0 \<Longrightarrow> (max_tokens - 1) div t + 1 \<noteq> 0"
proof
  assume "t \<noteq> 0" "(max_tokens - 1) div t + 1 = 0"
  then have "unat ((max_tokens - 1) div t + 1) = 0" by (simp only: unat_0)
  then show False using until_full_val [OF \<open>t \<noteq> 0\<close>] by linarith
qed

lemma rate_assign_val:
  assumes "capacity \<noteq> 0"
  shows "\<exists>r. rate_assign rate capacity = Some r \<and> token_rate_ok r
    \<and> unat (token_scale r) = MAX_TOKENS div effective_capacity (unat rate) (unat capacity)
    \<and> unat (tokens_per_tick r) = (if rate = 0 then 0 else max 1 (unat rate * unat (token_scale r) div 1000))
    \<and> time_until_full r \<noteq> 0"
proof -
  define cap where "cap = (if rate \<noteq> 0 then let min_capacity = (rate - 1) div CLICK_HZ + 1 in if capacity < min_capacity then min_capacity else capacity else capacity)"
  have cap: "unat cap = effective_capacity (unat rate) (unat capacity)"
    using ceil_div [of rate] unfolding cap_def effective_capacity_def Let_def by (auto simp: word_less_nat_alt)
  have cap0: "0 < unat cap" using assms unfolding cap effective_capacity_def by (simp add: unat_gt_0 less_max_iff_disj)
  define scale where "scale = max_tokens div cap"
  have scale: "unat scale = MAX_TOKENS div unat cap" by (simp add: scale_def unat_div_distrib)
  have s0: "scale \<noteq> 0" using cap0 token_le_max [of cap] by (auto simp: scale word_unat_eq_iff div_eq_0_iff)
  have hz: "CLICK_HZ \<noteq> 0" "unat CLICK_HZ = 1000" by (simp_all add: CLICK_HZ_def)
  obtain l c y r where m: "bigint_multiply_add [0, 0] [rate, 0] scale = Some (l, c)" "bigint_divide l CLICK_HZ = Some (y, r)"
      "unat (y ! 0) + 4294967296 * unat (y ! 1) = unat rate * unat scale div 1000"
    using muldiv [OF hz(1), of 0 rate scale] hz(2) by auto
  have "unat rate \<le> unat cap * 1000" unfolding cap effective_capacity_def by (simp add: max_def) arith
  then have "unat rate * unat scale div 1000 \<le> MAX_TOKENS" unfolding scale by (rule scale_fits)
  then have y1: "y ! 1 = 0" using m(3) by (simp add: word_unat_eq_iff)
  then have y0: "unat (y ! 0) = unat rate * unat scale div 1000" using m(3) by simp
  define tpt where "tpt = (if y ! 0 \<noteq> 0 then y ! 0 else 1)"
  have tpt: "unat tpt = max 1 (unat rate * unat scale div 1000)" "tpt \<noteq> 0"
    using y0 unat_gt_0 [of "y ! 0"] unfolding tpt_def by (auto simp: max_def)
  note tuf = until_full_val [OF tpt(2)]
  let ?r = "if rate \<noteq> 0 then \<lparr> tokens_per_tick = tpt, token_scale = scale, time_until_full = (max_tokens - 1) div tpt + 1 \<rparr>
    else \<lparr> tokens_per_tick = 0, token_scale = scale, time_until_full = - 1 \<rparr>"
  have "rate_assign rate capacity = Some ?r"
    using assms m(1,2) y1 unfolding rate_assign_def if_not_P [OF assms] Let_def prod.case cap_def [unfolded Let_def, symmetric] scale_def [symmetric] tpt_def by simp
  moreover have "token_rate_ok ?r" using s0 tpt(2) tuf by (simp add: token_rate_ok_def)
  moreover have "time_until_full ?r \<noteq> 0" using until_full_nonzero [OF tpt(2)] by (cases "rate = 0") simp_all
  ultimately show ?thesis using scale cap tpt(1) by simp
qed

text \<open>\<open>TokenRateX::assign\<close> never fails its assertion, keeps the invariant of rates and gives
  a bucket that is at least as large as was asked for. The refill per tick is that of the
  configured rate, rounded down to the scale, but never zero.\<close>

theorem rate_assign_total:
  assumes "capacity \<noteq> 0"
  shows "\<exists>r. rate_assign rate capacity = Some r \<and> token_rate_ok r \<and> \<not> rate_unlimited r \<and> (rate_idle r \<longleftrightarrow> rate = 0)
    \<and> capacity \<le> rate_capacity r
    \<and> unat (tokens_per_tick r) = (if rate = 0 then 0 else max 1 (unat rate * unat (token_scale r) div unat CLICK_HZ))"
proof -
  obtain r where r: "rate_assign rate capacity = Some r" "token_rate_ok r" "unat (token_scale r) = MAX_TOKENS div effective_capacity (unat rate) (unat capacity)"
    "unat (tokens_per_tick r) = (if rate = 0 then 0 else max 1 (unat rate * unat (token_scale r) div 1000))" "time_until_full r \<noteq> 0"
    using rate_assign_val [OF assms] by blast
  let ?e = "effective_capacity (unat rate) (unat capacity)"
  have "token_scale r \<noteq> 0" using r(2) by (simp add: token_rate_ok_def)
  then have s: "0 < MAX_TOKENS div ?e" using r(3) by (simp add: unat_gt_0 flip: r(3))
  have "?e * (MAX_TOKENS div ?e) \<le> MAX_TOKENS" by simp
  then have "?e \<le> MAX_TOKENS div (MAX_TOKENS div ?e)" using s by (simp add: less_eq_div_iff_mult_less_eq)
  moreover have "unat capacity \<le> ?e" by (simp add: effective_capacity_def)
  ultimately have "capacity \<le> rate_capacity r" by (simp add: word_le_nat_alt rate_capacity_def unat_div_distrib r(3))
  moreover have "rate_idle r \<longleftrightarrow> rate = 0" using r(4) by (auto simp: rate_idle_def word_unat_eq_iff)
  ultimately show ?thesis using r by (simp add: rate_unlimited_def CLICK_HZ_def)
qed

theorem rate_assign_total_witness:
  "(25131072 :: u32) \<noteq> 0 \<and>
   (\<exists>r. rate_assign 1250000 25131072 = Some r \<and> token_rate_ok r \<and> \<not> rate_unlimited r \<and> (rate_idle r \<longleftrightarrow> (1250000 :: u32) = 0)
    \<and> 25131072 \<le> rate_capacity r
    \<and> unat (tokens_per_tick r) = (if (1250000 :: u32) = 0 then 0 else max 1 (unat (1250000 :: u32) * unat (token_scale r) div unat CLICK_HZ)))"
  using rate_assign_total [of 25131072 1250000] by simp

section \<open>Counters\<close>

text \<open>The two ways to scale a token count agree: the multiplication that looks at the high
  word of the product, and the portable comparison with the capacity.\<close>

lemma cvt_fast_val:
  "fst (cvt_fast r t) \<longleftrightarrow> unat t * unat (token_scale r) \<le> MAX_TOKENS"
  "unat (snd (cvt_fast r t)) = min MAX_TOKENS (unat t * unat (token_scale r))"
proof -
  obtain lo hi where m: "int_multiply t (token_scale r) = (lo, hi)" by (cases "int_multiply t (token_scale r)")
  note p = int_multiply_product [OF m]
  have c: "cvt_fast r t = (hi = 0, if hi \<noteq> 0 then max_tokens else lo)" by (simp add: cvt_fast_def m)
  show "unat (snd (cvt_fast r t)) = min MAX_TOKENS (unat t * unat (token_scale r))" using muldiv_saturated [OF p] by (simp add: c)
  show "fst (cvt_fast r t) \<longleftrightarrow> unat t * unat (token_scale r) \<le> MAX_TOKENS"
  proof (cases "hi = 0")
    case True
    then show ?thesis using p token_le_max [of lo] by (simp add: c)
  next
    case False
    then have "0 < unat hi" by (simp add: unat_gt_0)
    then show ?thesis using p False by (simp add: c)
  qed
qed

lemma cvt_agree:
  assumes "token_scale r \<noteq> 0"
  shows "cvt_fast r t = cvt_slow r t"
proof -
  have s: "0 < unat (token_scale r)" using assms by (simp add: unat_gt_0)
  have le: "t \<le> rate_capacity r \<longleftrightarrow> unat t * unat (token_scale r) \<le> MAX_TOKENS"
    using s by (simp add: word_le_nat_alt rate_capacity_def unat_div_distrib less_eq_div_iff_mult_less_eq)
  have "snd (cvt_fast r t) = snd (cvt_slow r t)"
  proof (cases "t \<le> rate_capacity r")
    case True
    then have "unat (snd (cvt_fast r t)) = unat t * unat (token_scale r)" using cvt_fast_val(2) [of r t] le by simp
    moreover have "unat (t * token_scale r) = unat t * unat (token_scale r)" using True le by (simp add: unat_word_ariths)
    ultimately show ?thesis using True by (simp add: cvt_slow_def word_unat_eq_iff)
  next
    case False
    then have "unat (snd (cvt_fast r t)) = MAX_TOKENS" using cvt_fast_val(2) [of r t] le by simp
    then show ?thesis using False by (simp add: cvt_slow_def word_unat_eq_iff)
  qed
  moreover have "fst (cvt_fast r t) = fst (cvt_slow r t)" using cvt_fast_val(1) [of r t] le by (simp add: cvt_slow_def)
  ultimately show ?thesis by (simp add: prod_eq_iff)
qed

text \<open>
  The abstract bucket: a number that grows by \<open>tpt\<close> per tick and is cut off at the capacity.
\<close>

definition fill :: "token_rate \<Rightarrow> u32 \<Rightarrow> nat \<Rightarrow> nat" where
  "fill r d level =
     (if rate_unlimited r \<or> d = - 1 then MAX_TOKENS else min MAX_TOKENS (level + unat d * unat (tokens_per_tick r)))"

lemma refill_no_wrap:
  fixes d t :: nat
  assumes "d \<le> (MAX_TOKENS - 1) div t"
  shows "d * t < 4294967296"
proof -
  have "d * t \<le> (MAX_TOKENS - 1) div t * t" using assms by (rule mult_le_mono1)
  also have "\<dots> \<le> MAX_TOKENS - 1" by (rule div_times_less_eq_dividend)
  finally show ?thesis by simp
qed

lemma saturated_add:
  fixes x y :: u32
  shows "unat (if x + y < x then max_tokens else x + y) = min MAX_TOKENS (unat x + unat y)"
proof (cases "x + y < x")
  case True
  then have "unat (x + y) + 4294967296 = unat x + unat y" using add_carry [of x y] by simp
  then show ?thesis using True by simp
next
  case False
  then have "unat (x + y) = unat x + unat y" using add_carry [of x y] by simp
  then show ?thesis using False token_le_max [of "x + y"] by simp
qed

lemma refill_full:
  "time_until_full r \<le> time_monotonic_difference (time_point c) time \<Longrightarrow> unat (tokens (refill r time c)) = MAX_TOKENS"
  by (simp add: refill_def Let_def)

lemma refill_step:
  assumes "d = time_monotonic_difference (time_point c) time" "d < time_until_full r" "unat d * unat (tokens_per_tick r) < 4294967296"
  shows "unat (tokens (refill r time c)) = min MAX_TOKENS (unat (tokens c) + unat d * unat (tokens_per_tick r))"
proof -
  have e: "unat (d * tokens_per_tick r) = unat d * unat (tokens_per_tick r)" using assms(3) by (simp add: unat_word_ariths)
  show ?thesis
  proof (cases "0 < d")
    case True
    then show ?thesis using assms(2) saturated_add [of "tokens c" "d * tokens_per_tick r"]
      by (simp add: refill_def Let_def assms(1) [symmetric] e not_le [symmetric])
  next
    case False
    then have "d = 0" by (simp add: word_neq_0_conv [symmetric])
    then show ?thesis using assms(2) token_le_max [of "tokens c"] by (simp add: refill_def Let_def assms(1) [symmetric] not_le [symmetric])
  qed
qed

lemma token_rate_ok_cases:
  assumes "token_rate_ok r"
  obtains (unlimited) "time_until_full r = 0"
    | (idle) "unat (tokens_per_tick r) = 0" "time_until_full r = - 1"
    | (normal) "0 < unat (tokens_per_tick r)" "time_until_full r \<noteq> 0"
        "unat (time_until_full r) = (MAX_TOKENS - 1) div unat (tokens_per_tick r) + 1"
  using assms by (auto simp: token_rate_ok_def unat_gt_0 unat_eq_zero split: if_splits)

lemma refill_tokens:
  assumes "token_rate_ok r"
  shows "unat (tokens (refill r time c)) = fill r (time_monotonic_difference (time_point c) time) (unat (tokens c))"
proof -
  define d where "d = time_monotonic_difference (time_point c) time"
  note full = refill_full [of r c time, folded d_def] and step = refill_step [OF d_def]
  let ?t = "unat (tokens_per_tick r)"
  from assms have "unat (tokens (refill r time c)) = fill r d (unat (tokens c))"
  proof (cases rule: token_rate_ok_cases)
    case unlimited
    then show ?thesis using full by (simp add: fill_def rate_unlimited_def)
  next
    case idle
    show ?thesis
    proof (cases "d = - 1")
      case False
      then have "d < time_until_full r" unfolding idle(2) using word_n1_ge [of d] by (rule order.not_eq_order_implies_strict)
      then show ?thesis using step idle False by (simp add: fill_def rate_unlimited_def)
    qed (use full idle in \<open>simp add: fill_def\<close>)
  next
    case normal
    show ?thesis
    proof (cases "time_until_full r \<le> d")
      case True
      then have "(MAX_TOKENS - 1) div ?t + 1 \<le> unat d" using normal(3) by (simp add: word_le_nat_alt)
      then have "((MAX_TOKENS - 1) div ?t + 1) * ?t \<le> unat d * ?t" by (rule mult_le_mono1)
      moreover have "MAX_TOKENS - 1 < ((MAX_TOKENS - 1) div ?t + 1) * ?t" using dividend_less_div_times [OF normal(1), of "MAX_TOKENS - 1"] by simp
      ultimately show ?thesis using full [OF True] by (simp add: fill_def)
    next
      case False
      then have lt: "unat d \<le> (MAX_TOKENS - 1) div ?t" "d < time_until_full r" using normal(3) by (simp_all add: word_le_nat_alt word_less_nat_alt not_le)
      moreover have "d \<noteq> - 1" using False by auto
      ultimately show ?thesis using step refill_no_wrap [OF lt(1)] normal(2) by (simp add: fill_def rate_unlimited_def)
    qed
  qed
  then show ?thesis by (simp add: d_def)
qed

lemma contains_iff: "counter_contains r c t \<longleftrightarrow> unat t * unat (token_scale r) \<le> unat (tokens c)"
proof -
  have "counter_contains r c t \<longleftrightarrow> fst (cvt_fast r t) \<and> snd (cvt_fast r t) \<le> tokens c"
    by (simp add: counter_contains_def contains_fraction_def split: prod.splits)
  then show ?thesis using cvt_fast_val [of r t] token_le_max [of "tokens c"] by (auto simp: word_le_nat_alt)
qed

lemma ceil_div_le: "0 < t \<Longrightarrow> 0 < n \<Longrightarrow> (n - 1) div t + 1 \<le> d \<longleftrightarrow> n \<le> d * t" for n t d :: nat
  using div_less_iff_less_mult [of t "n - 1" d] by auto

lemma ticks_needed_val:
  fixes f x t :: u32
  assumes "unat x < unat f"
  shows "unat ((f - x - 1) div t + 1) = (unat f - unat x - 1) div unat t + 1"
proof -
  have "unat (f - x) = unat f - unat x" using assms by (intro unat_sub) (simp add: word_le_nat_alt)
  moreover from this have "f - x \<noteq> 0" using assms by auto
  ultimately have u: "unat (f - x - 1) = unat f - unat x - 1" by (simp add: unat_minus_one)
  have "(unat f - unat x - 1) div unat t \<le> unat f - unat x - 1" by (rule div_le_dividend)
  then have "(unat f - unat x - 1) div unat t + 1 < 4294967296" using limb_less [of f] assms by linarith
  then show ?thesis using unat_add_small [of "(f - x - 1) div t" 1] u by (simp add: unat_div_distrib)
qed

text \<open>The scaled request is either out of reach or an exact number.\<close>

lemma time_until_contains_val:
  assumes "token_rate_ok r"
  shows "time_until_contains r c t \<le> d \<longleftrightarrow>
    d = - 1 \<or> unat t * unat (token_scale r) \<le> MAX_TOKENS
      \<and> (rate_unlimited r \<or> unat t * unat (token_scale r) \<le> unat (tokens c) + unat d * unat (tokens_per_tick r))"
proof -
  define f where "f = snd (cvt_fast r t)"
  have e: "time_until_contains r c t = (if unat t * unat (token_scale r) \<le> MAX_TOKENS then time_until_contains_fraction r c f else - 1)"
    using cvt_fast_val(1) [of r t] by (simp add: time_until_contains_def f_def case_prod_beta)
  have m1: "- 1 \<le> d \<longleftrightarrow> d = - 1" using word_n1_ge [of d] by (auto intro: antisym)
  have f: "unat f = unat t * unat (token_scale r)" if "unat t * unat (token_scale r) \<le> MAX_TOKENS"
    using cvt_fast_val(2) [of r t] that by (simp add: f_def)
  have "time_until_contains_fraction r c f \<le> d \<longleftrightarrow> d = - 1 \<or> rate_unlimited r \<or> unat f \<le> unat (tokens c) + unat d * unat (tokens_per_tick r)"
  proof (cases "f \<le> tokens c \<or> rate_unlimited r")
    case True
    then show ?thesis by (auto simp: time_until_contains_fraction_def rate_unlimited_def word_le_nat_alt)
  next
    case False
    then have lt: "unat (tokens c) < unat f" by (simp add: word_le_nat_alt)
    show ?thesis
    proof (cases "tokens_per_tick r = 0")
      case True
      then show ?thesis using False lt m1 by (simp add: time_until_contains_fraction_def rate_unlimited_def)
    next
      case t: False
      have v: "unat ((f - tokens c - 1) div tokens_per_tick r + 1) = (unat f - unat (tokens c) - 1) div unat (tokens_per_tick r) + 1"
        by (rule ticks_needed_val [OF lt])
      have "(unat f - unat (tokens c) - 1) div unat (tokens_per_tick r) \<le> unat f - unat (tokens c) - 1" by (rule div_le_dividend)
      then have "(unat f - unat (tokens c) - 1) div unat (tokens_per_tick r) + 1 \<le> MAX_TOKENS" using lt token_le_max [of f] by linarith
      then have max: "d = - 1 \<Longrightarrow> (unat f - unat (tokens c) - 1) div unat (tokens_per_tick r) + 1 \<le> unat d"
        using unat_max_tokens [unfolded max_tokens_def] by simp
      have "(unat f - unat (tokens c) - 1) div unat (tokens_per_tick r) + 1 \<le> unat d \<longleftrightarrow> unat f \<le> unat (tokens c) + unat d * unat (tokens_per_tick r)"
        using ceil_div_le [of "unat (tokens_per_tick r)" "unat f - unat (tokens c)" "unat d"] lt t by (auto simp: unat_gt_0)
      then show ?thesis using False t max v by (auto simp: time_until_contains_fraction_def rate_unlimited_def word_le_nat_alt [of _ d])
    qed
  qed
  then show ?thesis using e f m1 by auto
qed

lemma contains_after_refill:
  assumes "token_rate_ok r" "unat (time_point c) + unat d < 2 ^ 32" "d \<noteq> - 1"
  shows "counter_contains r (refill r (time_point c + d) c) t \<longleftrightarrow> time_until_contains r c t \<le> d"
proof -
  have u: "unat (time_point c + d) = unat (time_point c) + unat d" using assms(2) by (intro unat_add_small) simp
  then have "time_point c \<le> time_point c + d" by (simp add: word_le_nat_alt)
  then have "time_monotonic_difference (time_point c) (time_point c + d) = d" by (simp add: time_monotonic_difference_def)
  then show ?thesis using assms(3) unfolding contains_iff refill_tokens [OF assms(1)] time_until_contains_val [OF assms(1)] fill_def by auto
qed

text \<open>C35: \<open>time_until_contains\<close> is exact: after a refill that many ticks later, or any number of
  ticks more, the bucket contains the tokens, and one tick earlier it does not.\<close>

theorem time_until_contains_exact:
  assumes "token_rate_ok r" "unat (time_point c) + unat d < 2 ^ 32" "d \<noteq> - 1"
  shows "counter_contains r (refill r (time_point c + d) c) t \<longleftrightarrow> time_until_contains r c t \<le> d"
  using assms by (rule contains_after_refill)

theorem time_until_contains_exact_witness:
  "let r = \<lparr> tokens_per_tick = 100, token_scale = 1000, time_until_full = 42949673 \<rparr>; c = \<lparr> tokens = 50, time_point = 7 \<rparr>
   in token_rate_ok r \<and> unat (time_point c) + unat (20 :: u32) < 2 ^ 32 \<and> (20 :: u32) \<noteq> - 1
      \<and> counter_contains r (refill r (time_point c + 20) c) 2 = (time_until_contains r c 2 \<le> 20) \<and> time_until_contains r c 2 = 20"
proof -
  let ?r = "\<lparr> tokens_per_tick = 100, token_scale = 1000, time_until_full = 42949673 \<rparr>" and ?c = "\<lparr> tokens = 50, time_point = 7 \<rparr>"
  have ok: "token_rate_ok ?r" by (simp add: token_rate_ok_def)
  have "time_until_contains ?r ?c 2 = 20" by code_simp
  then show ?thesis using time_until_contains_exact [OF ok, of ?c 20 2] ok by simp
qed

section \<open>Changing and reading the rate\<close>

text \<open>\<open>adjust\<close> keeps the number of tokens: it scales the fraction, cut off at the capacity.\<close>

lemma counter_adjust_val:
  assumes "token_scale old \<noteq> 0"
  shows "\<exists>c'. counter_adjust old new c = Some c' \<and> time_point c' = time_point c
    \<and> unat (tokens c') = min MAX_TOKENS (unat (tokens c) * unat (token_scale new) div unat (token_scale old))"
proof (cases "token_scale old = token_scale new")
  case True
  then show ?thesis using assms token_le_max [of "tokens c"] by (simp add: counter_adjust_def unat_eq_zero)
next
  case False
  obtain l k y r where "bigint_multiply_add [0, 0] [tokens c, 0] (token_scale new) = Some (l, k)" "bigint_divide l (token_scale old) = Some (y, r)"
    and v: "unat (y ! 0) + 4294967296 * unat (y ! 1) = unat (tokens c) * unat (token_scale new) div unat (token_scale old)"
    using muldiv [OF assms, of 0 "tokens c" "token_scale new"] by auto
  then show ?thesis using False muldiv_saturated [OF v] by (simp add: counter_adjust_def)
qed

text \<open>
  \<open>rate\<close> is meant to undo the division of \<open>assign\<close>, but rounds with half the tokens per tick
  where half the scale is needed: it reports about a two-thousandth too much.
\<close>

lemma rate_rate_val:
  assumes "token_scale r \<noteq> 0"
  shows "\<exists>v. rate_rate r = Some v \<and> unat v = min MAX_TOKENS
    ((unat (tokens_per_tick r) div 2 + unat (tokens_per_tick r) * 1000) div unat (token_scale r))"
proof -
  have h: "unat (tokens_per_tick r div 2) = unat (tokens_per_tick r) div 2" by (simp add: unat_div_distrib)
  obtain l k y q where "bigint_multiply_add [tokens_per_tick r div 2, 0] [tokens_per_tick r, 0] CLICK_HZ = Some (l, k)"
      "bigint_divide l (token_scale r) = Some (y, q)"
    and v: "unat (y ! 0) + 4294967296 * unat (y ! 1) = (unat (tokens_per_tick r) div 2 + unat (tokens_per_tick r) * 1000) div unat (token_scale r)"
    using muldiv [OF assms, of "tokens_per_tick r div 2" "tokens_per_tick r" CLICK_HZ] h by (auto simp: CLICK_HZ_def)
  then show ?thesis using muldiv_saturated [OF v] by (simp add: rate_rate_def)
qed

lemma rate_reported_too_high:
  "\<exists>r. rate_assign 2000 2 = Some r \<and> rate_rate r = Some 2001"
proof -
  obtain r where r: "rate_assign 2000 2 = Some r" "token_rate_ok r" "unat (token_scale r) = MAX_TOKENS div effective_capacity 2000 2"
    "unat (tokens_per_tick r) = max 1 (2000 * unat (token_scale r) div 1000)"
    using rate_assign_val [of 2 2000] by auto
  have s: "unat (token_scale r) = 2147483647" using r(3) by (simp add: effective_capacity_def)
  have "token_scale r \<noteq> 0" using r(2) by (simp add: token_rate_ok_def)
  then obtain v where v: "rate_rate r = Some v" "unat v = 2001"
    using rate_rate_val [of r] r(4) s by auto
  have "v = 2001" using v(2) by (simp add: word_unat_eq_iff)
  then show ?thesis using r(1) v(1) by simp
qed

section \<open>Reachable buckets\<close>

text \<open>
  Every bucket that the constructors and the operations can produce, in any order. The size
  reported for a bucket never exceeds its capacity, and \<open>set\<close> followed by \<open>size\<close> gives back the
  number of tokens, or the capacity.
\<close>

inductive reachable_bucket :: "token_bucket \<Rightarrow> bool" where
  init_special: "reachable_bucket (new_bucket_special b)"
| init: "new_bucket r c = Some tb \<Longrightarrow> reachable_bucket tb"
| assign_special: "reachable_bucket tb \<Longrightarrow> reachable_bucket (tb_assign_special b tb)"
| assign: "reachable_bucket tb \<Longrightarrow> tb_assign r c tb = Some tb' \<Longrightarrow> reachable_bucket tb'"
| assign_adjust: "reachable_bucket tb \<Longrightarrow> tb_assign_adjust r c tb = Some tb' \<Longrightarrow> reachable_bucket tb'"
| clear: "reachable_bucket tb \<Longrightarrow> reachable_bucket (tb_clear tb)"
| set_full: "reachable_bucket tb \<Longrightarrow> reachable_bucket (tb_set_full tb)"
| set: "reachable_bucket tb \<Longrightarrow> reachable_bucket (tb_set t tb)"
| set_fraction: "reachable_bucket tb \<Longrightarrow> reachable_bucket (tb_set_fraction f tb)"
| set_time_point: "reachable_bucket tb \<Longrightarrow> reachable_bucket (tb_set_time_point time tb)"
| refill: "reachable_bucket tb \<Longrightarrow> reachable_bucket (tb_refill time tb)"
| remove: "reachable_bucket tb \<Longrightarrow> reachable_bucket (tb_remove t tb)"
| remove_if: "reachable_bucket tb \<Longrightarrow> reachable_bucket (snd (tb_remove_if t tb))"
| remove_fraction: "reachable_bucket tb \<Longrightarrow> reachable_bucket (tb_remove_fraction f tb)"
| remove_fraction_if: "reachable_bucket tb \<Longrightarrow> reachable_bucket (snd (tb_remove_fraction_if f tb))"

lemma rate_assign_total_ok: "\<exists>r. rate_assign rate capacity = Some r \<and> token_rate_ok r"
proof (cases "capacity = 0")
  case True
  then have "rate_assign rate capacity = rate_assign 0 max_tokens" by (simp add: rate_assign_def Let_def max_tokens_def)
  then show ?thesis using rate_assign_val [of max_tokens 0] by (auto simp: max_tokens_def)
qed (use rate_assign_val in blast)

lemma rate_assign_ok: "rate_assign rate capacity = Some r \<Longrightarrow> token_rate_ok r"
  using rate_assign_total_ok [of rate capacity] by auto

lemmas tb_defs = tb_assign_special_def tb_clear_def tb_set_full_def tb_set_def tb_set_fraction_def tb_set_time_point_def
  tb_refill_def tb_remove_def tb_remove_if_def tb_remove_fraction_def tb_remove_fraction_if_def

lemma reachable_rate_ok: "reachable_bucket tb \<Longrightarrow> token_rate_ok (tb_rate tb)"
  by (induction rule: reachable_bucket.induct)
     (auto simp: new_bucket_special_def new_bucket_def tb_assign_def tb_assign_adjust_def tb_defs token_rate_ok_special
       dest: rate_assign_ok split: option.splits)

lemma size_bound: "tb_size tb \<le> rate_capacity (tb_rate tb)"
  using token_le_max [of "tokens (tb_counter tb)"]
  by (simp add: tb_size_def counter_size_def rate_capacity_def word_le_nat_alt unat_div_distrib div_le_mono)

lemma set_size:
  assumes "token_rate_ok (tb_rate tb)"
  shows "unat (tb_size (tb_set t tb)) = min (unat t) (unat (rate_capacity (tb_rate tb)))"
proof -
  let ?s = "unat (token_scale (tb_rate tb))"
  have s: "0 < ?s" using assms by (simp add: token_rate_ok_def unat_gt_0)
  have "unat (tb_size (tb_set t tb)) = min MAX_TOKENS (unat t * ?s) div ?s"
    using cvt_fast_val(2) [of "tb_rate tb" t] by (simp add: tb_size_def tb_set_def counter_size_def counter_set_def unat_div_distrib)
  also have "\<dots> = min (unat t) (MAX_TOKENS div ?s)" using s
    by (simp add: min_def less_eq_div_iff_mult_less_eq)
  finally show ?thesis by (simp add: rate_capacity_def unat_div_distrib)
qed

text \<open>In every reachable bucket the rate is well formed, so that no division by zero and no
  failed assertion is possible: every change of rate succeeds, before and after.\<close>

theorem bucket_always_defined:
  assumes "reachable_bucket tb"
  shows "token_rate_ok (tb_rate tb) \<and> tb_size tb \<le> rate_capacity (tb_rate tb)
    \<and> (\<exists>v. rate_rate (tb_rate tb) = Some v) \<and> (\<exists>tb'. tb_assign r c tb = Some tb') \<and> (\<exists>tb'. tb_assign_adjust r c tb = Some tb')"
proof -
  have ok: "token_rate_ok (tb_rate tb)" by (rule reachable_rate_ok [OF assms])
  then have s: "token_scale (tb_rate tb) \<noteq> 0" by (simp add: token_rate_ok_def)
  obtain rt where rt: "rate_assign r c = Some rt" using rate_assign_total_ok [of r c] by blast
  have "\<exists>tb'. tb_assign_adjust r c tb = Some tb'" using counter_adjust_val [OF s, of rt "tb_counter tb"] rt by (auto simp: tb_assign_adjust_def)
  then show ?thesis using ok size_bound rate_rate_val [OF s] rt by (auto simp: tb_assign_def)
qed

theorem bucket_always_defined_witness:
  "reachable_bucket (new_bucket_special True) \<and> token_rate_ok (tb_rate (new_bucket_special True))
   \<and> tb_size (new_bucket_special True) \<le> rate_capacity (tb_rate (new_bucket_special True))
   \<and> (\<exists>v. rate_rate (tb_rate (new_bucket_special True)) = Some v) \<and> (\<exists>tb'. tb_assign 2000 2 (new_bucket_special True) = Some tb')
   \<and> (\<exists>tb'. tb_assign_adjust 2000 2 (new_bucket_special True) = Some tb')"
  using bucket_always_defined [OF reachable_bucket.init_special [of True], of 2000 2] reachable_bucket.init_special [of True] by simp

end
