(* ===== verification/Click_Rated.thy ===== *)
theory Click_Rated
  imports Click_Token_Bucket Packet_Buffer
begin

text \<open>
  The elements that move packets at the pace of a token bucket: \<open>RatedUnqueue\<close>,
  \<open>BandwidthRatedUnqueue\<close>, \<open>RatedSplitter\<close> and \<open>BandwidthRatedSplitter\<close>
  (\<open>elements/standard\<close>). The element upstream is a function \<open>pull\<close> on its own state with a
  predicate for the notifier signal, and the current jiffy is an argument. A run of the task
  ends in one of three ways: rescheduled at once, woken by the timer after some ticks, or
  not rescheduled until the notifier wakes it. The theorems bound what leaves the element by
  what the bucket was filled with, and show that the timer is set to the right moment.
\<close>

section \<open>Configuration\<close>

definition tb_bandwidth_thresh :: u32 where
  "tb_bandwidth_thresh = 131072"

text \<open>
  \<open>configure_helper\<close> after its arguments are read: the rate, the burst duration in
  milliseconds and the burst size, where the last two may be missing.
\<close>

definition configure_helper ::
  "bool \<Rightarrow> u32 \<Rightarrow> u32 option \<Rightarrow> u32 option \<Rightarrow> token_bucket \<Rightarrow> (string + token_bucket) option" where
  "configure_helper is_bandwidth r duration burst tb =
     (let dur_msec = (case duration of Some d \<Rightarrow> d | None \<Rightarrow> 20)
      in if duration \<noteq> None \<and> burst \<noteq> None
         then Some (Inl ''cannot specify both BURST_DURATION and BURST_SIZE'')
         else
           case (case burst of
                   Some s \<Rightarrow> Some s
                 | None \<Rightarrow>
                     (let (res1, res0) = bigint_multiply2 r dur_msec
                      in map_option (\<lambda>(res, _). if res ! 1 \<noteq> 0 then - 1 else res ! 0) (bigint_divide [res0, res1] 1000))) of
             None \<Rightarrow> None
           | Some toks \<Rightarrow>
               (let toks = (if is_bandwidth
                              then let new_tokens = toks + tb_bandwidth_thresh
                                   in if toks < new_tokens then new_tokens else - 1
                              else toks)
                in map_option Inr (tb_assign r (if toks \<noteq> 0 then toks else 1) tb)))"

section \<open>Unqueues\<close>

record 's rated_unqueue =
  ru_tb :: token_bucket
  ru_runs :: u32
  ru_pushes :: u32
  ru_failed_pulls :: u32
  ru_empty_runs :: u32
  ru_active :: bool
  ru_input :: 's

datatype task_end = Reschedule | Timer u32 | Sleep

definition new_rated_unqueue :: "'s \<Rightarrow> 's rated_unqueue" where
  "new_rated_unqueue s =
     \<lparr> ru_tb = new_bucket_special False, ru_runs = 0, ru_pushes = 0, ru_failed_pulls = 0, ru_empty_runs = 0,
       ru_active = True, ru_input = s \<rparr>"

text \<open>The result: the new state, the value of \<open>run_task\<close>, the packet pushed and how the run ended.\<close>

definition rated_run_task ::
  "('s \<Rightarrow> 's \<times> 'p option) \<Rightarrow> ('s \<Rightarrow> bool) \<Rightarrow> u32 \<Rightarrow> 's rated_unqueue \<Rightarrow> 's rated_unqueue \<times> bool \<times> 'p option \<times> task_end" where
  "rated_run_task pull signal now ru =
     (let ru = ru\<lparr>ru_runs := ru_runs ru + 1\<rparr>
      in if \<not> ru_active ru then (ru, False, None, Sleep)
         else
           let ru = ru\<lparr>ru_tb := tb_refill now (ru_tb ru)\<rparr>
           in if tb_contains 1 (ru_tb ru)
              then case pull (ru_input ru) of
                     (s, Some p) \<Rightarrow>
                       (ru\<lparr>ru_input := s, ru_tb := tb_remove 1 (ru_tb ru), ru_pushes := ru_pushes ru + 1\<rparr>, True, Some p, Reschedule)
                   | (s, None) \<Rightarrow>
                       let ru = ru\<lparr>ru_input := s, ru_failed_pulls := ru_failed_pulls ru + 1\<rparr>
                       in if \<not> signal s then (ru, False, None, Sleep)
                          else (ru\<lparr>ru_empty_runs := ru_empty_runs ru + 1\<rparr>, False, None, Reschedule)
              else (ru\<lparr>ru_empty_runs := ru_empty_runs ru + 1\<rparr>, False, None, Timer (tb_time_until_contains 1 (ru_tb ru))))"

definition bw_rated_run_task ::
  "('s \<Rightarrow> 's \<times> packet option) \<Rightarrow> ('s \<Rightarrow> bool) \<Rightarrow> u32 \<Rightarrow> 's rated_unqueue \<Rightarrow> 's rated_unqueue \<times> bool \<times> packet option \<times> task_end" where
  "bw_rated_run_task pull signal now ru =
     (let ru = ru\<lparr>ru_runs := ru_runs ru + 1\<rparr>
      in if \<not> ru_active ru then (ru, False, None, Sleep)
         else
           let ru = ru\<lparr>ru_tb := tb_refill now (ru_tb ru)\<rparr>
           in if tb_contains tb_bandwidth_thresh (ru_tb ru)
              then case pull (ru_input ru) of
                     (s, Some p) \<Rightarrow>
                       (ru\<lparr>ru_input := s, ru_tb := tb_remove (plength p) (ru_tb ru), ru_pushes := ru_pushes ru + 1\<rparr>, True, Some p, Reschedule)
                   | (s, None) \<Rightarrow>
                       let ru = ru\<lparr>ru_input := s, ru_failed_pulls := ru_failed_pulls ru + 1\<rparr>
                       in if \<not> signal s then (ru, False, None, Sleep)
                          else (ru\<lparr>ru_empty_runs := ru_empty_runs ru + 1\<rparr>, False, None, Reschedule)
              else (ru\<lparr>ru_empty_runs := ru_empty_runs ru + 1\<rparr>, False, None, Timer (tb_time_until_contains tb_bandwidth_thresh (ru_tb ru))))"

section \<open>Splitters\<close>

text \<open>The output port that the packet leaves on: 0 while the bucket lasts, 1 after that.\<close>

definition splitter_push :: "u32 \<Rightarrow> token_bucket \<Rightarrow> token_bucket \<times> nat" where
  "splitter_push now tb =
     (let (ok, tb) = tb_remove_if 1 (tb_refill now tb) in (tb, if ok then 0 else 1))"

definition bw_splitter_push :: "u32 \<Rightarrow> packet \<Rightarrow> token_bucket \<Rightarrow> token_bucket \<times> nat" where
  "bw_splitter_push now p tb =
     (let tb = tb_refill now tb
      in if tb_contains tb_bandwidth_thresh tb then (tb_remove (plength p) tb, 0) else (tb, 1))"

section \<open>The contract of a metered task\<close>

text \<open>
  A task that takes packets from upstream while its bucket contains \<open>thr\<close> tokens and pays
  \<open>cost p\<close> tokens for a packet \<open>p\<close>. In a sequence of runs, each run finds the upstream
  element in a state of its own: packets arrive and leave in between.
\<close>

fun task_runs ::
  "('s \<Rightarrow> 's \<times> 'p option) \<Rightarrow> ('s \<Rightarrow> bool) \<Rightarrow>
   (('s \<Rightarrow> 's \<times> 'p option) \<Rightarrow> ('s \<Rightarrow> bool) \<Rightarrow> u32 \<Rightarrow> 's rated_unqueue \<Rightarrow> 's rated_unqueue \<times> bool \<times> 'p option \<times> task_end) \<Rightarrow>
   (u32 \<times> 's) list \<Rightarrow> 's rated_unqueue \<Rightarrow> 's rated_unqueue \<times> 'p list" where
  "task_runs pull signal run [] ru = (ru, [])"
| "task_runs pull signal run ((now, s) # evs) ru =
     (let (ru, _, po, _) = run pull signal now (ru\<lparr>ru_input := s\<rparr>); (ru, out) = task_runs pull signal run evs ru
      in (ru, case po of None \<Rightarrow> out | Some p \<Rightarrow> p # out))"

abbreviation level :: "token_bucket \<Rightarrow> nat" where
  "level tb \<equiv> unat (tokens (tb_counter tb))"

abbreviation clock :: "token_bucket \<Rightarrow> u32" where
  "clock tb \<equiv> time_point (tb_counter tb)"

definition tb_limited :: "token_bucket \<Rightarrow> bool" where
  "tb_limited tb \<longleftrightarrow> token_rate_ok (tb_rate tb) \<and> \<not> rate_unlimited (tb_rate tb)"

text \<open>What the bucket can still hand out until the time \<open>e\<close>.\<close>

definition potential :: "nat \<Rightarrow> token_bucket \<Rightarrow> nat" where
  "potential e tb = level tb + (e - unat (clock tb)) * unat (tokens_per_tick (tb_rate tb))"

lemma tb_refill_simps [simp]: "tb_rate (tb_refill now tb) = tb_rate tb" "clock (tb_refill now tb) = now"
  by (simp_all add: tb_refill_def refill_def Let_def)

lemma tb_remove_simps [simp]: "tb_rate (tb_remove t tb) = tb_rate tb" "clock (tb_remove t tb) = clock tb"
  by (simp_all add: tb_remove_def counter_remove_def remove_fraction_def)

lemma tb_limited_simps [simp]: "tb_limited (tb_refill now tb) = tb_limited tb" "tb_limited (tb_remove t tb) = tb_limited tb"
  by (simp_all add: tb_limited_def)

lemma level_remove: "level (tb_remove t tb) = level tb - unat t * unat (token_scale (tb_rate tb))"
proof -
  let ?c = "tb_counter tb" and ?f = "snd (cvt_fast (tb_rate tb) t)"
  have f: "unat ?f = min MAX_TOKENS (unat t * unat (token_scale (tb_rate tb)))" by (rule cvt_fast_val)
  have "level (tb_remove t tb) = unat (tokens ?c) - unat ?f"
  proof (cases "?f \<le> tokens ?c")
    case True
    then show ?thesis by (simp add: tb_remove_def counter_remove_def remove_fraction_def unat_sub)
  next
    case False
    then show ?thesis by (simp add: tb_remove_def counter_remove_def remove_fraction_def word_le_nat_alt)
  qed
  then show ?thesis using f token_le_max [of "tokens ?c"] by (simp add: min_def)
qed

lemma level_refill:
  assumes "tb_limited tb" "clock tb \<le> now" "now \<noteq> - 1"
  shows "level (tb_refill now tb) = min MAX_TOKENS (level tb + (unat now - unat (clock tb)) * unat (tokens_per_tick (tb_rate tb)))"
proof -
  have d: "unat (now - clock tb) = unat now - unat (clock tb)" using assms(2) by (rule unat_sub)
  have "unat now \<noteq> MAX_TOKENS" using assms(3) unat_max_tokens by (simp add: word_unat_eq_iff max_tokens_def)
  then have "unat (now - clock tb) < MAX_TOKENS" unfolding d using token_le_max [of now] by linarith
  then have "now - clock tb \<noteq> - 1" using unat_max_tokens [unfolded max_tokens_def] by auto
  then show ?thesis using assms(1,2) refill_tokens [of "tb_rate tb" now "tb_counter tb"] d
    by (simp add: tb_limited_def tb_refill_def fill_def time_monotonic_difference_def)
qed

lemma potential_refill:
  assumes "tb_limited tb" "clock tb \<le> now" "now \<noteq> - 1" "unat now \<le> e"
  shows "potential e (tb_refill now tb) \<le> potential e tb"
proof -
  let ?t = "unat (tokens_per_tick (tb_rate tb))"
  have "e - unat (clock tb) = (unat now - unat (clock tb)) + (e - unat now)" using assms(2,4) by (simp add: word_le_nat_alt)
  then have "potential e tb = level tb + (unat now - unat (clock tb)) * ?t + (e - unat now) * ?t"
    by (simp add: potential_def add_mult_distrib)
  then show ?thesis using level_refill [OF assms(1-3)] by (simp add: potential_def)
qed

locale metered_task =
  fixes run :: "('s \<Rightarrow> 's \<times> 'p option) \<Rightarrow> ('s \<Rightarrow> bool) \<Rightarrow> u32 \<Rightarrow> 's rated_unqueue \<Rightarrow> 's rated_unqueue \<times> bool \<times> 'p option \<times> task_end"
    and thr :: u32
    and cost :: "'p \<Rightarrow> u32"
  assumes run_inactive: "\<not> ru_active ru \<Longrightarrow> run pull signal now ru = (ru', w, po, e) \<Longrightarrow> ru_tb ru' = ru_tb ru \<and> po = None \<and> e = Sleep"
    and run_take: "ru_active ru \<Longrightarrow> tb_contains thr (tb_refill now (ru_tb ru)) \<Longrightarrow> run pull signal now ru = (ru', w, po, e) \<Longrightarrow>
          po = snd (pull (ru_input ru)) \<and> w = (po \<noteq> None) \<and> (\<forall>d. e \<noteq> Timer d) \<and>
          ru_tb ru' = (case po of None \<Rightarrow> tb_refill now (ru_tb ru) | Some p \<Rightarrow> tb_remove (cost p) (tb_refill now (ru_tb ru)))"
    and run_wait: "ru_active ru \<Longrightarrow> \<not> tb_contains thr (tb_refill now (ru_tb ru)) \<Longrightarrow> run pull signal now ru = (ru', w, po, e) \<Longrightarrow>
          po = None \<and> \<not> w \<and> ru_tb ru' = tb_refill now (ru_tb ru) \<and> ru_input ru' = ru_input ru
          \<and> e = Timer (tb_time_until_contains thr (ru_tb ru'))"
    and run_active: "run pull signal now ru = (ru', w, po, e) \<Longrightarrow> ru_active ru' = ru_active ru"
begin

lemma run_tb:
  assumes "run pull signal now ru = (ru', w, po, e)"
  shows "ru_tb ru' = ru_tb ru \<or> ru_tb ru' = tb_refill now (ru_tb ru) \<or> (\<exists>t. ru_tb ru' = tb_remove t (tb_refill now (ru_tb ru)))"
proof (cases "ru_active ru")
  case True
  then show ?thesis using run_take [OF True _ assms] run_wait [OF True _ assms]
    by (cases "tb_contains thr (tb_refill now (ru_tb ru))") (auto split: option.splits)
qed (use run_inactive [OF _ assms] in simp)

lemma run_limited:
  assumes "run pull signal now ru = (ru', w, po, e)" "tb_limited (ru_tb ru)"
  shows "tb_limited (ru_tb ru')" "tb_rate (ru_tb ru') = tb_rate (ru_tb ru)" "clock (ru_tb ru') = clock (ru_tb ru) \<or> clock (ru_tb ru') = now"
  using run_tb [OF assms(1)] assms(2) by auto

text \<open>One run pays for its packet out of the potential.\<close>

lemma run_potential:
  assumes "run pull signal now ru = (ru', w, po, en)" "tb_limited (ru_tb ru)" "clock (ru_tb ru) \<le> now" "now \<noteq> - 1" "unat now \<le> e"
    "\<forall>p. po = Some p \<longrightarrow> cost p \<le> thr"
  shows "potential e (ru_tb ru') + (case po of None \<Rightarrow> 0 | Some p \<Rightarrow> unat (cost p) * unat (token_scale (tb_rate (ru_tb ru)))) \<le> potential e (ru_tb ru)"
proof -
  let ?tb = "tb_refill now (ru_tb ru)"
  note r = potential_refill [OF assms(2-5)]
  consider (off) "\<not> ru_active ru" | (wait) "ru_active ru" "\<not> tb_contains thr ?tb" | (none) "ru_active ru" "tb_contains thr ?tb" "po = None"
    | (some) p where "ru_active ru" "tb_contains thr ?tb" "po = Some p" by (cases po) auto
  then show ?thesis
  proof cases
    case off
    then show ?thesis using run_inactive [OF off assms(1)] by simp
  next
    case wait
    then show ?thesis using run_wait [OF wait assms(1)] r by simp
  next
    case none
    then show ?thesis using run_take [OF none(1,2) assms(1)] r by simp
  next
    case some
    let ?s = "unat (token_scale (tb_rate (ru_tb ru)))"
    have "cost p \<le> thr" using assms(6) some(3) by simp
    then have "unat (cost p) * ?s \<le> unat thr * ?s" by (simp add: word_le_nat_alt)
    also have "\<dots> \<le> level ?tb" using some(2) by (simp add: tb_contains_def contains_iff)
    finally have "potential e (tb_remove (cost p) ?tb) + unat (cost p) * ?s = potential e ?tb"
      by (simp add: potential_def level_remove)
    moreover have "ru_tb ru' = tb_remove (cost p) ?tb" using run_take [OF some(1,2) assms(1)] some(3) by simp
    ultimately show ?thesis using r some(3) by simp
  qed
qed

lemma runs_limit:
  assumes "task_runs pull signal run evs ru = (ru', out)" "tb_limited (ru_tb ru)"
    "sorted (clock (ru_tb ru) # map fst evs)" "\<forall>now \<in> fst ` set evs. now \<noteq> - 1 \<and> unat now \<le> e" "\<forall>p \<in> set out. cost p \<le> thr"
  shows "potential e (ru_tb ru') + (\<Sum>p \<leftarrow> out. unat (cost p)) * unat (token_scale (tb_rate (ru_tb ru))) \<le> potential e (ru_tb ru)"
  using assms
proof (induction evs arbitrary: ru out)
  case (Cons ev evs)
  obtain now s where ev: "ev = (now, s)" by (cases ev)
  let ?ru = "ru\<lparr>ru_input := s\<rparr>"
  obtain ru1 w po en where 1: "run pull signal now ?ru = (ru1, w, po, en)" by (metis prod.exhaust)
  obtain out1 where 2: "task_runs pull signal run evs ru1 = (ru', out1)" "out = (case po of None \<Rightarrow> out1 | Some p \<Rightarrow> p # out1)"
    using Cons.prems(1) 1 unfolding ev by (auto split: prod.splits)
  have now: "clock (ru_tb ?ru) \<le> now" "now \<noteq> - 1" "unat now \<le> e" using Cons.prems(3,4) unfolding ev by simp_all
  have l: "tb_limited (ru_tb ?ru)" using Cons.prems(2) by simp
  note lim = run_limited [OF 1 l]
  have "\<forall>p. po = Some p \<longrightarrow> cost p \<le> thr" using Cons.prems(5) 2(2) by auto
  note p = run_potential [OF 1 l now this]
  have "sorted (clock (ru_tb ru1) # map fst evs)" using lim(3) Cons.prems(3) unfolding ev by auto
  then have "potential e (ru_tb ru') + (\<Sum>p \<leftarrow> out1. unat (cost p)) * unat (token_scale (tb_rate (ru_tb ru))) \<le> potential e (ru_tb ru1)"
    using Cons.IH [OF 2(1) lim(1)] lim(2) Cons.prems(4,5) 2(2) by (cases po) simp_all
  then show ?case using p 2(2) by (cases po) (simp_all add: add_mult_distrib)
qed simp

text \<open>A run that is woken by its timer finds the tokens it waited for, and an earlier one does not.\<close>

lemma run_woken:
  assumes "token_rate_ok (tb_rate (ru_tb ru))" "run pull signal now ru = (ru', w, po, Timer d)" "unat now + unat e < 2 ^ 32" "e \<noteq> - 1"
    "run pull signal (now + e) ru' = (ru'', w', po', en)"
  shows "po' = (if d \<le> e then snd (pull (ru_input ru)) else None)"
proof -
  have act: "ru_active ru" using run_inactive [OF _ assms(2)] by auto
  have nc: "\<not> tb_contains thr (tb_refill now (ru_tb ru))" using run_take [OF act _ assms(2)] by auto
  note wt = run_wait [OF act nc assms(2)]
  have act': "ru_active ru'" using run_active [OF assms(2)] act by simp
  have c: "clock (ru_tb ru') = now" "token_rate_ok (tb_rate (ru_tb ru'))" "d = tb_time_until_contains thr (ru_tb ru')" "ru_input ru' = ru_input ru"
    using wt assms(1) by simp_all
  have "tb_contains thr (tb_refill (now + e) (ru_tb ru')) \<longleftrightarrow> d \<le> e"
    using contains_after_refill [OF c(2), of "tb_counter (ru_tb ru')" e thr] assms(3,4) c(1,3)
    by (simp add: tb_contains_def tb_refill_def tb_time_until_contains_def)
  then show ?thesis using run_take [OF act' _ assms(5)] run_wait [OF act' _ assms(5)] c(4) by auto
qed

end

interpretation ru: metered_task rated_run_task 1 "\<lambda>_. 1"
  by unfold_locales (auto simp: rated_run_task_def Let_def split: if_splits prod.splits option.splits)

interpretation bw: metered_task bw_rated_run_task tb_bandwidth_thresh plength
  by unfold_locales (auto simp: bw_rated_run_task_def Let_def split: if_splits prod.splits option.splits)

section \<open>Properties\<close>

text \<open>C16: whatever the element upstream holds and at whatever times, in order, the task runs, the packets that leave
  \<open>RatedUnqueue\<close>, each at its price of one token, are paid for by what was in the bucket and
  what was refilled since, and never by an arithmetic overflow.\<close>

theorem rated_unqueue_limit:
  assumes "task_runs pull signal rated_run_task evs ru = (ru', out)" "tb_limited (ru_tb ru)"
    "sorted (clock (ru_tb ru) # map fst evs)" "\<forall>now \<in> fst ` set evs. now \<noteq> - 1 \<and> unat now \<le> e"
  shows "length out * unat (token_scale (tb_rate (ru_tb ru)))
    \<le> level (ru_tb ru) + (e - unat (clock (ru_tb ru))) * unat (tokens_per_tick (tb_rate (ru_tb ru)))"
proof -
  have "(\<Sum>p \<leftarrow> out. unat (1 :: u32)) = length out" by (induction out) simp_all
  then show ?thesis using ru.runs_limit [OF assms] unfolding potential_def by simp
qed

text \<open>The same in bytes for \<open>BandwidthRatedUnqueue\<close>, for packets of at most 128 kB.\<close>

lemma bw_rated_unqueue_limit:
  assumes "task_runs pull signal bw_rated_run_task evs ru = (ru', out)" "tb_limited (ru_tb ru)"
    "sorted (clock (ru_tb ru) # map fst evs)" "\<forall>now \<in> fst ` set evs. now \<noteq> - 1 \<and> unat now \<le> e" "\<forall>p \<in> set out. plength p \<le> tb_bandwidth_thresh"
  shows "(\<Sum>p \<leftarrow> out. unat (plength p)) * unat (token_scale (tb_rate (ru_tb ru)))
    \<le> level (ru_tb ru) + (e - unat (clock (ru_tb ru))) * unat (tokens_per_tick (tb_rate (ru_tb ru)))"
  using bw.runs_limit [OF assms] unfolding potential_def by simp

text \<open>C34: the timer of \<open>RatedUnqueue\<close> is exact: a run that finds too few tokens sets the timer to
  the first tick at which a packet will be taken; a run at that tick or later takes it, and a
  run before that takes none.\<close>

theorem rated_unqueue_wakes:
  assumes "token_rate_ok (tb_rate (ru_tb ru))" "rated_run_task pull signal now ru = (ru', w, po, Timer d)"
    "unat now + unat e < 2 ^ 32" "e \<noteq> - 1" "rated_run_task pull signal (now + e) ru' = (ru'', w', po', en)"
  shows "po' = (if d \<le> e then snd (pull (ru_input ru)) else None)"
  using assms by (rule ru.run_woken)

lemma even_not_max: "2 * k * n \<noteq> MAX_TOKENS" for k n :: nat
proof
  assume "2 * k * n = MAX_TOKENS"
  then have "(2 * (k * n)) mod 2 = MAX_TOKENS mod 2" by (simp only: mult.assoc)
  then show False by simp
qed

lemma assigned_bucket:
  assumes "c \<noteq> 0" "thr \<le> c" "thr = 1 \<or> thr = tb_bandwidth_thresh"
  shows "\<exists>tb'. tb_assign r c tb = Some tb' \<and> tb_limited tb' \<and> tb_counter tb' = tb_counter tb \<and> (rate_idle (tb_rate tb') \<longleftrightarrow> r = 0)
    \<and> (r \<noteq> 0 \<longrightarrow> tb_time_until_contains thr tb' \<noteq> - 1)"
proof -
  let ?e = "effective_capacity (unat r) (unat c)"
  obtain tr where tr: "rate_assign r c = Some tr" "token_rate_ok tr" "unat (token_scale tr) = MAX_TOKENS div ?e"
    "unat (tokens_per_tick tr) = (if r = 0 then 0 else max 1 (unat r * unat (token_scale tr) div 1000))" "time_until_full tr \<noteq> 0"
    using rate_assign_val [OF assms(1), of r] by blast
  have "tb_time_until_contains thr (tb\<lparr>tb_rate := tr\<rparr>) \<noteq> - 1" if "r \<noteq> 0"
  proof -
    have "unat thr \<le> ?e" using assms(2) by (simp add: effective_capacity_def word_le_nat_alt)
    then have "unat thr * (MAX_TOKENS div ?e) \<le> ?e * (MAX_TOKENS div ?e)" by (rule mult_le_mono1)
    also have "\<dots> \<le> MAX_TOKENS" by simp
    finally have f: "unat thr * unat (token_scale tr) \<le> MAX_TOKENS" unfolding tr(3) .
    have m2: "unat (- 2 :: u32) = MAX_TOKENS - 1" "(- 2 :: u32) \<noteq> - 1" by simp_all
    have "unat thr * unat (token_scale tr) \<le> (MAX_TOKENS - 1) * unat (tokens_per_tick tr)"
    proof (cases "unat thr * unat (token_scale tr) = MAX_TOKENS")
      case True
      then have "thr \<noteq> tb_bandwidth_thresh" using even_not_max [of 65536 "unat (token_scale tr)"] by (auto simp: tb_bandwidth_thresh_def)
      then have "unat (token_scale tr) = MAX_TOKENS" using assms(3) True by simp
      moreover have "1 \<le> unat r" using that by (simp add: Suc_le_eq unat_gt_0)
      then have "4294967295 div 1000 \<le> unat r * 4294967295 div 1000" by (intro div_le_mono) simp
      ultimately have "2 \<le> unat (tokens_per_tick tr)" using that tr(4) by simp
      then have "(MAX_TOKENS - 1) * 2 \<le> (MAX_TOKENS - 1) * unat (tokens_per_tick tr)" by (rule mult_le_mono2)
      then show ?thesis unfolding True by simp
    next
      case False
      have "1 \<le> unat (tokens_per_tick tr)" using that tr(4) by simp
      then have "(MAX_TOKENS - 1) * 1 \<le> (MAX_TOKENS - 1) * unat (tokens_per_tick tr)" by (rule mult_le_mono2)
      then show ?thesis using False f by linarith
    qed
    then have "tb_time_until_contains thr (tb\<lparr>tb_rate := tr\<rparr>) \<le> - 2"
      using time_until_contains_val [OF tr(2), of "tb_counter tb" thr "- 2"] f m2 by (simp add: tb_time_until_contains_def)
    moreover have "\<not> (- 1 :: u32) \<le> - 2" using m2(2) word_n1_ge [of "- 2 :: u32"] by (metis order_antisym)
    ultimately show ?thesis by auto
  qed
  moreover have "rate_idle tr \<longleftrightarrow> r = 0" using tr(4) by (auto simp: rate_idle_def word_unat_eq_iff)
  ultimately show ?thesis using tr by (simp add: tb_assign_def tb_limited_def rate_unlimited_def)
qed

text \<open>\<open>configure_helper\<close> always has a defined outcome: the error when both burst parameters
  are given, and otherwise a bucket that works: with a positive rate it is neither idle nor
  unlimited, and it will contain the tokens the element waits for after finitely many ticks.\<close>

theorem configure_helper_total:
  "if duration \<noteq> None \<and> burst \<noteq> None
   then configure_helper is_bandwidth r duration burst tb = Some (Inl ''cannot specify both BURST_DURATION and BURST_SIZE'')
   else \<exists>tb'. configure_helper is_bandwidth r duration burst tb = Some (Inr tb') \<and> tb_limited tb' \<and> tb_counter tb' = tb_counter tb
     \<and> (if r = 0 then rate_idle (tb_rate tb')
         else \<not> rate_idle (tb_rate tb') \<and> tb_time_until_contains (if is_bandwidth then tb_bandwidth_thresh else 1) tb' \<noteq> - 1)"
proof (cases "duration \<noteq> None \<and> burst \<noteq> None")
  case True
  then show ?thesis by (simp add: configure_helper_def Let_def)
next
  case False
  let ?toks = "case burst of Some s \<Rightarrow> Some s
    | None \<Rightarrow> (let (res1, res0) = bigint_multiply2 r (case duration of Some d \<Rightarrow> d | None \<Rightarrow> 20)
               in map_option (\<lambda>(res, _). if res ! 1 \<noteq> 0 then - 1 else res ! 0) (bigint_divide [res0, res1] 1000))"
  obtain res1 res0 where m: "bigint_multiply2 r (case duration of Some d \<Rightarrow> d | None \<Rightarrow> 20) = (res1, res0)"
    by (cases "bigint_multiply2 r (case duration of Some d \<Rightarrow> d | None \<Rightarrow> 20)")
  obtain x q where "bigint_divide [res0, res1] 1000 = Some (x, q)" using divide_exact [of "[res0, res1]" 1000] by auto
  then obtain toks where toks: "?toks = Some toks" using m by (cases burst) simp_all
  let ?thr = "if is_bandwidth then tb_bandwidth_thresh else 1"
  define c where "c = (if is_bandwidth then let new_tokens = toks + tb_bandwidth_thresh in if toks < new_tokens then new_tokens else - 1 else toks)"
  let ?c = "if c \<noteq> 0 then c else 1"
  have "?thr \<le> ?c"
  proof (cases is_bandwidth)
    case True
    have "unat toks + 131072 = unat (toks + tb_bandwidth_thresh)" if "toks < toks + tb_bandwidth_thresh"
      using add_carry [of toks tb_bandwidth_thresh] order_less_not_sym [OF that] by (simp add: tb_bandwidth_thresh_def)
    then have "tb_bandwidth_thresh \<le> c" using True by (auto simp: c_def Let_def word_le_nat_alt tb_bandwidth_thresh_def unsigned_minus_1_eq_mask mask_eq_exp_minus_1)
    then show ?thesis using True by (auto simp: tb_bandwidth_thresh_def)
  next
    case False
    have "c \<noteq> 0 \<Longrightarrow> 1 \<le> c" by (simp add: word_le_nat_alt Suc_le_eq unat_gt_0)
    then show ?thesis using False by simp
  qed
  moreover have "configure_helper is_bandwidth r duration burst tb = map_option Inr (tb_assign r ?c tb)"
    unfolding configure_helper_def Let_def if_not_P [OF False] toks [unfolded Let_def] option.case c_def by simp
  ultimately show ?thesis using assigned_bucket [of ?c ?thr r tb] False by auto
qed

text \<open>The splitters pay for the packets of their first output, and for no others.\<close>

lemma remove_if_cases:
  "tb_remove_if t tb = (if tb_contains t tb then (True, tb_remove t tb) else (False, tb))"
proof -
  obtain ok f where c: "cvt_fast (tb_rate tb) t = (ok, f)" by (cases "cvt_fast (tb_rate tb) t")
  show ?thesis
    by (auto simp: tb_remove_if_def counter_remove_if_def remove_fraction_if_def tb_contains_def counter_contains_def
        contains_fraction_def tb_remove_def counter_remove_def remove_fraction_def c)
qed

lemma splitter_pays:
  assumes "splitter_push now tb = (tb', port)"
  shows "if port = 0 then level tb' + unat (token_scale (tb_rate tb)) = level (tb_refill now tb)
         else port = 1 \<and> tb' = tb_refill now tb \<and> level tb' < unat (token_scale (tb_rate tb))"
proof (cases "tb_contains 1 (tb_refill now tb)")
  case True
  then have "unat (token_scale (tb_rate tb)) \<le> level (tb_refill now tb)" by (simp add: tb_contains_def contains_iff)
  then show ?thesis using assms True by (auto simp: splitter_push_def remove_if_cases level_remove)
next
  case False
  then show ?thesis using assms by (auto simp: splitter_push_def remove_if_cases tb_contains_def contains_iff)
qed

lemma bw_splitter_pays:
  assumes "bw_splitter_push now p tb = (tb', port)"
  shows "if port = 0 then tb_contains tb_bandwidth_thresh (tb_refill now tb) \<and>
           level tb' = level (tb_refill now tb) - unat (plength p) * unat (token_scale (tb_rate tb))
         else port = 1 \<and> tb' = tb_refill now tb"
  using assms by (auto simp: bw_splitter_push_def Let_def level_remove split: if_splits)

section \<open>Witnesses\<close>

text \<open>A packet source that always has the same packet, at ten packets per second.\<close>

definition steady :: "unit \<Rightarrow> unit \<times> nat option" where
  "steady s = (s, Some 7)"

definition demo_unqueue :: "unit rated_unqueue" where
  "demo_unqueue = (new_rated_unqueue ())\<lparr>ru_tb :=
     \<lparr> tb_rate = \<lparr> tokens_per_tick = 42949672, token_scale = 4294967295, time_until_full = 101 \<rparr>,
       tb_counter = \<lparr> tokens = 0, time_point = 5 \<rparr> \<rparr>\<rparr>"

lemma demo_limited: "tb_limited (ru_tb demo_unqueue)"
  by (simp add: demo_unqueue_def tb_limited_def token_rate_ok_def rate_unlimited_def)

theorem rated_unqueue_limit_witness:
  "\<exists>ru' out. task_runs steady (\<lambda>_. True) rated_run_task [(50, ()), (200, ())] demo_unqueue = (ru', out)
    \<and> tb_limited (ru_tb demo_unqueue) \<and> sorted (clock (ru_tb demo_unqueue) # [50, 200])
    \<and> length out * unat (token_scale (tb_rate (ru_tb demo_unqueue)))
      \<le> level (ru_tb demo_unqueue) + (200 - unat (clock (ru_tb demo_unqueue))) * unat (tokens_per_tick (tb_rate (ru_tb demo_unqueue)))"
proof -
  obtain ru' out where r: "task_runs steady (\<lambda>_. True) rated_run_task [(50, ()), (200, ())] demo_unqueue = (ru', out)"
    by (metis prod.exhaust)
  have s: "sorted (clock (ru_tb demo_unqueue) # [50, 200])" by (simp add: demo_unqueue_def)
  show ?thesis using rated_unqueue_limit [OF r demo_limited, of 200] s r demo_limited by simp
qed

lemma demo_waits: "snd (rated_run_task steady (\<lambda>_. True) 50 demo_unqueue) = (False, None, Timer 56)"
  by code_simp

theorem rated_unqueue_wakes_witness:
  "\<exists>ru' ru'' w' en. rated_run_task steady (\<lambda>_. True) 50 demo_unqueue = (ru', False, None, Timer 56)
    \<and> token_rate_ok (tb_rate (ru_tb demo_unqueue)) \<and> unat (50 :: u32) + unat (56 :: u32) < 2 ^ 32 \<and> (56 :: u32) \<noteq> - 1
    \<and> rated_run_task steady (\<lambda>_. True) (50 + 56) ru' = (ru'', w', Some 7, en)"
proof -
  obtain ru' where 1: "rated_run_task steady (\<lambda>_. True) 50 demo_unqueue = (ru', False, None, Timer 56)"
    using demo_waits by (cases "rated_run_task steady (\<lambda>_. True) 50 demo_unqueue") auto
  obtain ru'' w' po' en where 2: "rated_run_task steady (\<lambda>_. True) (50 + 56) ru' = (ru'', w', po', en)" by (metis prod.exhaust)
  have ok: "token_rate_ok (tb_rate (ru_tb demo_unqueue))" using demo_limited by (simp add: tb_limited_def)
  have "po' = Some 7" using rated_unqueue_wakes [OF ok 1 _ _ 2] by (simp add: steady_def)
  then show ?thesis using 1 2 ok by simp
qed

end
