(* ===== verification/Click_Heap.thy ===== *)
theory Click_Heap
  imports Cpp_Prelude "HOL-Library.Multiset"
begin

text \<open>
  Array heaps (\<open>include/click/heap.hh\<close>). The header has the operations twice, for binary heaps
  and for a larger arity given as a template parameter, with different layouts: the root of a
  binary heap has the children 1 and 2, the root of a heap of arity \<open>a\<close> has the \<open>a - 1\<close> children
  \<open>1, \<dots>, a - 1\<close> and every other node \<open>i\<close> has \<open>i * a, \<dots>, i * a + a - 1\<close>. Both are one
  definition here, with the arity as an argument; arity 2 selects the binary layout. The
  placement callback is a function on a state of the caller. A failed assertion is \<open>None\<close>.
\<close>

section \<open>Definitions\<close>

definition heap_parent :: "nat \<Rightarrow> nat \<Rightarrow> nat" where
  "heap_parent a i = (if a = 2 then (i - 1) div 2 else i div a)"

text \<open>The children of a node in the order in which the loops look at them.\<close>

definition heap_children :: "nat \<Rightarrow> nat \<Rightarrow> nat \<Rightarrow> nat list" where
  "heap_children a i n =
     (if a = 2 then filter (\<lambda>j. j < n) [i * 2 + 1, i * 2 + 2]
      else let trial = (if i \<noteq> 0 then i * a else 1); end_trial = (if i \<noteq> 0 then trial + a else a)
           in [trial ..< (if end_trial < n then end_trial else n)])"

definition click_swap :: "'a list \<Rightarrow> nat \<Rightarrow> nat \<Rightarrow> 'a list" where
  "click_swap xs i j = xs[i := xs ! j, j := xs ! i]"

definition smallest_child :: "('a \<Rightarrow> 'a \<Rightarrow> bool) \<Rightarrow> 'a list \<Rightarrow> nat \<Rightarrow> nat list \<Rightarrow> nat" where
  "smallest_child lt xs i js = foldl (\<lambda>smallest trial. if lt (xs ! trial) (xs ! smallest) then trial else smallest) i js"

lemma smallest_child_in: "smallest_child lt xs i js = i \<or> smallest_child lt xs i js \<in> set js"
  unfolding smallest_child_def by (induction js arbitrary: i) (auto split: if_splits)

lemma heap_parent_less: "2 \<le> a \<Longrightarrow> 0 < i \<Longrightarrow> heap_parent a i < i"
  by (auto simp: heap_parent_def)

lemma heap_children_iff:
  assumes "2 \<le> a"
  shows "j \<in> set (heap_children a i n) \<longleftrightarrow> 0 < j \<and> j < n \<and> heap_parent a j = i"
proof (cases "a = 2")
  case True
  then show ?thesis by (auto simp: heap_children_def heap_parent_def)
next
  case False
  have "j div a = i \<longleftrightarrow> i * a \<le> j \<and> j < i * a + a"
    using assms div_nat_eqI [of a i j] div_times_less_eq_dividend [of j a] dividend_less_div_times [of a j] by (auto simp: ac_simps)
  then show ?thesis using False assms by (cases "j = 0") (auto simp: heap_children_def heap_parent_def Let_def)
qed

lemma heap_children_range: "2 \<le> a \<Longrightarrow> j \<in> set (heap_children a i n) \<Longrightarrow> i < j \<and> j < n"
  using heap_parent_less [of a j] by (auto simp: heap_children_iff)

text \<open>The two loops. The arities below 2 are excluded by a static assertion.\<close>

function sift_up ::
  "nat \<Rightarrow> ('a \<Rightarrow> 'a \<Rightarrow> bool) \<Rightarrow> ('a list \<Rightarrow> nat \<Rightarrow> 's \<Rightarrow> 's) \<Rightarrow> 'a list \<Rightarrow> nat \<Rightarrow> 's \<Rightarrow> 'a list \<times> nat \<times> 's" where
  "sift_up a lt place xs i s =
     (if 2 \<le> a \<and> 0 < i \<and> lt (xs ! i) (xs ! heap_parent a i)
      then let npos = heap_parent a i; xs = click_swap xs i npos in sift_up a lt place xs npos (place xs i s)
      else (xs, i, s))"
  by auto
termination by (relation "measure (\<lambda>(a, lt, place, xs, i, s). i)") (auto simp: heap_parent_less)

function sift_down ::
  "nat \<Rightarrow> ('a \<Rightarrow> 'a \<Rightarrow> bool) \<Rightarrow> ('a list \<Rightarrow> nat \<Rightarrow> 's \<Rightarrow> 's) \<Rightarrow> nat \<Rightarrow> 'a list \<Rightarrow> nat \<Rightarrow> 's \<Rightarrow> 'a list \<times> nat \<times> 's" where
  "sift_down a lt place n xs i s =
     (let smallest = smallest_child lt xs i (heap_children a i n)
      in if a < 2 \<or> smallest = i then (xs, i, s)
         else let xs = click_swap xs i smallest in sift_down a lt place n xs smallest (place xs i s))"
  by auto
termination
proof (relation "measure (\<lambda>(a, lt, place, n, xs, i, s). n - i)")
  fix a :: nat and lt :: "'a \<Rightarrow> 'a \<Rightarrow> bool" and place :: "'a list \<Rightarrow> nat \<Rightarrow> 's \<Rightarrow> 's" and n xs i s k ys
  assume "k = smallest_child lt xs i (heap_children a i n)" "\<not> (a < 2 \<or> k = i)"
  then have "i < k \<and> k < n" using smallest_child_in [of lt xs i "heap_children a i n"] heap_children_range [of a k i n] by auto
  then have "n - k < n - i" by arith
  then show "((a, lt, place, n, ys, k, place ys i s), (a, lt, place, n, xs, i, s)) \<in> measure (\<lambda>(a, lt, place, n, xs, i, s). n - i)"
    by simp
qed simp

declare sift_up.simps [simp del] sift_down.simps [simp del]

text \<open>The heap is \<open>[begin, end)\<close>, the first \<open>n\<close> elements of the array.\<close>

definition push_heap ::
  "nat \<Rightarrow> ('a \<Rightarrow> 'a \<Rightarrow> bool) \<Rightarrow> ('a list \<Rightarrow> nat \<Rightarrow> 's \<Rightarrow> 's) \<Rightarrow> nat \<Rightarrow> 'a list \<Rightarrow> 's \<Rightarrow> ('a list \<times> 's) option" where
  "push_heap a lt place n xs s =
     (if 0 < n then let (xs, i, s) = sift_up a lt place xs (n - 1) s in Some (xs, place xs i s) else None)"

definition change_heap ::
  "nat \<Rightarrow> ('a \<Rightarrow> 'a \<Rightarrow> bool) \<Rightarrow> ('a list \<Rightarrow> nat \<Rightarrow> 's \<Rightarrow> 's) \<Rightarrow> nat \<Rightarrow> 'a list \<Rightarrow> nat \<Rightarrow> 's \<Rightarrow> ('a list \<times> nat \<times> 's) option" where
  "change_heap a lt place n xs element s =
     (if element < n
      then let (xs, i, s) = sift_up a lt place xs element s; (xs, i, s) = sift_down a lt place n xs i s
           in Some (xs, i, if i \<noteq> element then place xs i s else s)
      else None)"

definition remove_heap ::
  "nat \<Rightarrow> ('a \<Rightarrow> 'a \<Rightarrow> bool) \<Rightarrow> ('a list \<Rightarrow> nat \<Rightarrow> 's \<Rightarrow> 's) \<Rightarrow> nat \<Rightarrow> 'a list \<Rightarrow> nat \<Rightarrow> 's \<Rightarrow> ('a list \<times> 's) option" where
  "remove_heap a lt place n xs element s =
     (if element < n
      then if element + 1 \<noteq> n
           then let xs = click_swap xs element (n - 1)
                in map_option (\<lambda>(xs, i, s). (xs, s)) (change_heap a lt place (n - 1) xs element (place xs element s))
           else Some (xs, s)
      else None)"

definition pop_heap ::
  "nat \<Rightarrow> ('a \<Rightarrow> 'a \<Rightarrow> bool) \<Rightarrow> ('a list \<Rightarrow> nat \<Rightarrow> 's \<Rightarrow> 's) \<Rightarrow> nat \<Rightarrow> 'a list \<Rightarrow> 's \<Rightarrow> ('a list \<times> 's) option" where
  "pop_heap a lt place n xs s = remove_heap a lt place n xs 0 s"

section \<open>Order and positions\<close>

definition is_heap :: "nat \<Rightarrow> ('a \<Rightarrow> 'a \<Rightarrow> bool) \<Rightarrow> nat \<Rightarrow> 'a list \<Rightarrow> bool" where
  "is_heap a lt n xs \<longleftrightarrow> (\<forall>j. 0 < j \<and> j < n \<longrightarrow> \<not> lt (xs ! j) (xs ! heap_parent a j))"

text \<open>
  A heap but for the element at \<open>i\<close>, which may be too small for its parent or too large for
  its children; its children are in order with its parent.
\<close>

definition heap_but :: "nat \<Rightarrow> ('a \<Rightarrow> 'a \<Rightarrow> bool) \<Rightarrow> nat \<Rightarrow> 'a list \<Rightarrow> nat \<Rightarrow> bool" where
  "heap_but a lt n xs i \<longleftrightarrow>
     (\<forall>j. 0 < j \<and> j < n \<and> j \<noteq> i \<and> heap_parent a j \<noteq> i \<longrightarrow> \<not> lt (xs ! j) (xs ! heap_parent a j)) \<and>
     (\<forall>j. 0 < i \<and> 0 < j \<and> j < n \<and> heap_parent a j = i \<longrightarrow> \<not> lt (xs ! j) (xs ! heap_parent a i))"

lemma swap_length [simp]: "length (click_swap xs i j) = length xs"
  by (simp add: click_swap_def)

lemma swap_nth: "i < length xs \<Longrightarrow> j < length xs \<Longrightarrow> k < length xs \<Longrightarrow>
    click_swap xs i j ! k = (if k = i then xs ! j else if k = j then xs ! i else xs ! k)"
  by (auto simp: click_swap_def nth_list_update)

lemma swap_mset: "i < length xs \<Longrightarrow> j < length xs \<Longrightarrow> mset (click_swap xs i j) = mset xs"
  by (simp add: click_swap_def mset_swap)

locale heap_order =
  fixes lt :: "'a \<Rightarrow> 'a \<Rightarrow> bool"
  assumes lt_irrefl: "\<not> lt x x"
    and lt_asym: "lt x y \<Longrightarrow> \<not> lt y x"
    and not_lt_trans: "\<not> lt y x \<Longrightarrow> \<not> lt z y \<Longrightarrow> \<not> lt z x"
begin

text \<open>The first element of a heap is a smallest one.\<close>

lemma heap_root:
  assumes "2 \<le> a" "is_heap a lt n xs" "j < n"
  shows "\<not> lt (xs ! j) (xs ! 0)"
  using assms(3)
proof (induction j rule: less_induct)
  case (less j)
  show ?case
  proof (cases "j = 0")
    case True
    then show ?thesis by (simp add: lt_irrefl)
  next
    case False
    then have p: "heap_parent a j < j" using heap_parent_less [OF assms(1)] by simp
    then have "\<not> lt (xs ! heap_parent a j) (xs ! 0)" using less by simp
    moreover have "\<not> lt (xs ! j) (xs ! heap_parent a j)" using assms(2) False less.prems by (simp add: is_heap_def)
    ultimately show ?thesis by (rule not_lt_trans)
  qed
qed

lemma smallest_child_least:
  assumes "j \<in> set (i # js)"
  shows "\<not> lt (xs ! j) (xs ! smallest_child lt xs i js)"
  using assms
proof (induction js arbitrary: i j)
  case Nil
  then show ?case by (simp add: smallest_child_def lt_irrefl)
next
  case (Cons k js)
  let ?i = "if lt (xs ! k) (xs ! i) then k else i"
  have e: "smallest_child lt xs i (k # js) = smallest_child lt xs ?i js" by (simp add: smallest_child_def)
  have i: "\<not> lt (xs ! ?i) (xs ! smallest_child lt xs ?i js)" by (rule Cons.IH) simp
  show ?case
  proof (cases "j \<in> set js")
    case True
    then show ?thesis unfolding e by (intro Cons.IH) simp
  next
    case False
    then have "\<not> lt (xs ! j) (xs ! ?i)" using Cons.prems lt_irrefl lt_asym by auto
    then show ?thesis unfolding e using i by (metis not_lt_trans)
  qed
qed

lemma heap_but_up:
  assumes "2 \<le> a" "heap_but a lt n xs i" "0 < i" "i < n" "n \<le> length xs" "lt (xs ! i) (xs ! heap_parent a i)"
  shows "heap_but a lt n (click_swap xs i (heap_parent a i)) (heap_parent a i)"
proof -
  let ?p = "heap_parent a i"
  have p: "?p < i" by (rule heap_parent_less [OF assms(1,3)])
  note nth = swap_nth [of i xs ?p]
  have old: "\<not> lt (xs ! j) (xs ! heap_parent a j)" if "0 < j" "j < n" "j \<noteq> i" "heap_parent a j \<noteq> i" for j
    using assms(2) that by (simp add: heap_but_def)
  have kids: "\<not> lt (xs ! j) (xs ! ?p)" if "0 < j" "j < n" "heap_parent a j = i" for j
    using assms(2,3) that by (simp add: heap_but_def)
  have par: "heap_parent a j < n" if "0 < j" "j < n" for j using heap_parent_less [OF assms(1) that(1)] that(2) by simp
  have "\<not> lt (click_swap xs i ?p ! j) (click_swap xs i ?p ! heap_parent a j)" if "0 < j" "j < n" "j \<noteq> ?p" "heap_parent a j \<noteq> ?p" for j
    using that old [of j] kids [of j] par [of j] p assms(4,5) nth [of j] nth [of "heap_parent a j"] by (cases "heap_parent a j = i") auto
  moreover have "\<not> lt (click_swap xs i ?p ! j) (click_swap xs i ?p ! heap_parent a ?p)" if "0 < ?p" "0 < j" "j < n" "heap_parent a j = ?p" for j
  proof -
    have pp: "heap_parent a ?p < ?p" by (rule heap_parent_less [OF assms(1) that(1)])
    have up: "\<not> lt (xs ! ?p) (xs ! heap_parent a ?p)" using old [of ?p] that(1) p pp assms(4) by simp
    have jp: "j \<noteq> ?p" using heap_parent_less [OF assms(1) that(2)] that(4) by simp
    have "\<not> lt (xs ! j) (xs ! heap_parent a ?p)" if "j \<noteq> i"
    proof -
      have "\<not> lt (xs ! j) (xs ! ?p)" using old [of j] \<open>0 < j\<close> \<open>j < n\<close> that \<open>heap_parent a j = ?p\<close> p by simp
      then show ?thesis using up by (metis not_lt_trans)
    qed
    then show ?thesis using up jp pp p that(3) assms(4,5) nth [of j] nth [of "heap_parent a ?p"] by auto
  qed
  ultimately show ?thesis by (simp add: heap_but_def)
qed

end

context heap_order
begin

lemma heap_but_down:
  assumes "2 \<le> a" "heap_but a lt n xs i" "i = 0 \<or> \<not> lt (xs ! i) (xs ! heap_parent a i)" "i < n" "n \<le> length xs"
  defines "k \<equiv> smallest_child lt xs i (heap_children a i n)"
  assumes "k \<noteq> i"
  shows "heap_but a lt n (click_swap xs i k) k" "\<not> lt (click_swap xs i k ! k) (click_swap xs i k ! heap_parent a k)" "k < n" "0 < k"
proof -
  have kin: "k \<in> set (heap_children a i n)" using smallest_child_in [of lt xs i "heap_children a i n"] assms(7) unfolding k_def by blast
  then have k: "0 < k" "k < n" "heap_parent a k = i" using heap_children_iff [OF assms(1), of k i n] by blast+
  have k4: "i < k" using heap_children_range [OF assms(1) kin] by blast
  note k = k k4
  then show "k < n" "0 < k" by simp_all
  have sw: "click_swap xs i k ! j = (if j = i then xs ! k else if j = k then xs ! i else xs ! j)" if "j < n" for j
    using swap_nth [of i xs k j] that k(2) assms(4,5) by simp
  have least: "\<not> lt (xs ! j) (xs ! k)" if "j = i \<or> 0 < j \<and> j < n \<and> heap_parent a j = i" for j
    unfolding k_def by (rule smallest_child_least) (use that heap_children_iff [OF assms(1), of j i n] in auto)
  have ki: "\<not> lt (xs ! i) (xs ! k)" by (rule least) simp
  have old: "\<not> lt (xs ! j) (xs ! heap_parent a j)" if "0 < j" "j < n" "heap_parent a j \<noteq> i" for j
    using assms(2,3) that by (cases "j = i") (auto simp: heap_but_def)
  have par: "heap_parent a j < j" "heap_parent a j < n" if "0 < j" "j < n" for j using heap_parent_less [OF assms(1) that(1)] that(2) by simp_all
  show "\<not> lt (click_swap xs i k ! k) (click_swap xs i k ! heap_parent a k)" using ki k(3,4) sw [OF k(2)] sw [OF assms(4)] by simp
  have "\<not> lt (click_swap xs i k ! j) (click_swap xs i k ! heap_parent a j)" if j: "0 < j" "j < n" "j \<noteq> k" "heap_parent a j \<noteq> k" for j
  proof (cases "j = i")
    case True
    then have "\<not> lt (xs ! k) (xs ! heap_parent a i)" using assms(2) j k by (simp add: heap_but_def)
    then show ?thesis using True par [OF j(1,2)] sw [OF j(2)] sw [OF par(2) [OF j(1,2)]] j(4) by simp
  next
    case False
    then have e: "click_swap xs i k ! j = xs ! j" "click_swap xs i k ! heap_parent a j = (if heap_parent a j = i then xs ! k else xs ! heap_parent a j)"
      using sw [OF j(2)] sw [OF par(2) [OF j(1,2)]] j(3,4) by simp_all
    show ?thesis unfolding e using old [OF j(1,2)] least [of j] j(1,2) by simp
  qed
  moreover have "\<not> lt (click_swap xs i k ! j) (click_swap xs i k ! heap_parent a k)" if j: "0 < j" "j < n" "heap_parent a j = k" for j
    using old [OF j(1,2)] j(3) k(3,4) par(1) [OF j(1,2)] sw [OF j(2)] sw [OF assms(4)] by simp
  ultimately show "heap_but a lt n (click_swap xs i k) k" by (simp add: heap_but_def)
qed

lemma heap_but_done:
  assumes "2 \<le> a" "heap_but a lt n xs i" "i = 0 \<or> \<not> lt (xs ! i) (xs ! heap_parent a i)" "smallest_child lt xs i (heap_children a i n) = i"
  shows "is_heap a lt n xs"
  unfolding is_heap_def
proof (intro allI impI)
  fix j assume j: "0 < j \<and> j < n"
  have "\<not> lt (xs ! j) (xs ! i)" if "heap_parent a j = i"
    using smallest_child_least [of j i "heap_children a i n" xs] assms(4) heap_children_iff [OF assms(1)] that j by auto
  then show "\<not> lt (xs ! j) (xs ! heap_parent a j)" using assms(2,3) j by (cases "j = i"; cases "heap_parent a j = i") (auto simp: heap_but_def)
qed

lemma sift_up_order:
  assumes "2 \<le> a" "heap_but a lt n xs i" "i < n" "n \<le> length xs" "sift_up a lt place xs i s = (ys, k, s')"
  shows "heap_but a lt n ys k \<and> (k = 0 \<or> \<not> lt (ys ! k) (ys ! heap_parent a k)) \<and> k \<le> i"
  using assms(2-)
proof (induction i arbitrary: xs s rule: less_induct)
  case (less i)
  show ?case
  proof (cases "0 < i \<and> lt (xs ! i) (xs ! heap_parent a i)")
    case True
    let ?p = "heap_parent a i"
    have p: "?p < i" using heap_parent_less [OF assms(1)] True by simp
    have "heap_but a lt n (click_swap xs i ?p) ?p" using heap_but_up [OF assms(1) less.prems(1)] True less.prems(2,3) by simp
    moreover have "sift_up a lt place (click_swap xs i ?p) ?p (place (click_swap xs i ?p) i s) = (ys, k, s')"
      using less.prems(4) True assms(1) sift_up.simps [of a lt place xs i s] by (simp add: Let_def)
    ultimately show ?thesis using less.IH [OF p] p less.prems(2,3) by fastforce
  next
    case False
    then have "ys = xs" "k = i" using less.prems(4) sift_up.simps [of a lt place xs i s] by auto
    then show ?thesis using False less.prems(1) by auto
  qed
qed

lemma sift_down_order:
  assumes "2 \<le> a" "heap_but a lt n xs i" "i = 0 \<or> \<not> lt (xs ! i) (xs ! heap_parent a i)" "i < n" "n \<le> length xs"
    "sift_down a lt place n xs i s = (ys, k, s')"
  shows "is_heap a lt n ys \<and> k < n"
  using assms(2-)
proof (induction "n - i" arbitrary: i xs s rule: less_induct)
  case less
  let ?k = "smallest_child lt xs i (heap_children a i n)"
  show ?case
  proof (cases "?k = i")
    case True
    then have "ys = xs" "k = i" using less.prems(5) sift_down.simps [of a lt place n xs i s] by auto
    then show ?thesis using heap_but_done [OF assms(1) less.prems(1,2) True] less.prems(3) by simp
  next
    case False
    note d = heap_but_down [OF assms(1) less.prems(1-4) False]
    have "i < ?k" using smallest_child_in [of lt xs i "heap_children a i n"] heap_children_range [OF assms(1)] False by blast
    then have "n - ?k < n - i" using d(3) by arith
    moreover have "sift_down a lt place n (click_swap xs i ?k) ?k (place (click_swap xs i ?k) i s) = (ys, k, s')"
      using less.prems(5) False assms(1) sift_down.simps [of a lt place n xs i s] by (simp add: Let_def)
    ultimately show ?thesis using less.hyps d less.prems(4) by simp
  qed
qed

end

section \<open>Moves of the floating element\<close>

text \<open>Both loops are sequences of hops: the element at \<open>i\<close> changes places with the one at \<open>j\<close>.\<close>

inductive hop :: "('a list \<Rightarrow> nat \<Rightarrow> 's \<Rightarrow> 's) \<Rightarrow> nat \<Rightarrow> 'a list \<times> nat \<times> 's \<Rightarrow> 'a list \<times> nat \<times> 's \<Rightarrow> bool" where
  "i < n \<Longrightarrow> j < n \<Longrightarrow> i \<noteq> j \<Longrightarrow> hop place n (xs, i, s) (click_swap xs i j, j, place (click_swap xs i j) i s)"

lemma sift_up_hops: "i < n \<Longrightarrow> (hop place n)\<^sup>*\<^sup>* (xs, i, s) (sift_up a lt place xs i s)"
proof (induction a lt place xs i s rule: sift_up.induct)
  case (1 a lt place xs i s)
  show ?case
  proof (cases "2 \<le> a \<and> 0 < i \<and> lt (xs ! i) (xs ! heap_parent a i)")
    case True
    let ?p = "heap_parent a i"
    have p: "?p < i" using True heap_parent_less by blast
    then have "hop place n (xs, i, s) (click_swap xs i ?p, ?p, place (click_swap xs i ?p) i s)" using "1.prems" by (intro hop.intros) simp_all
    then show ?thesis using "1.IH" [OF True refl refl] p "1.prems" True sift_up.simps [of a lt place xs i s]
      by (simp add: Let_def)
  next
    case False
    then have "sift_up a lt place xs i s = (xs, i, s)" using sift_up.simps [of a lt place xs i s] by auto
    then show ?thesis by simp
  qed
qed

lemma sift_down_hops: "i < n \<Longrightarrow> (hop place n)\<^sup>*\<^sup>* (xs, i, s) (sift_down a lt place n xs i s)"
proof (induction a lt place n xs i s rule: sift_down.induct)
  case (1 a lt place n xs i s)
  let ?k = "smallest_child lt xs i (heap_children a i n)"
  show ?case
  proof (cases "a < 2 \<or> ?k = i")
    case True
    then show ?thesis unfolding sift_down.simps [of a lt place n xs i s] by (simp add: Let_def)
  next
    case False
    then have k: "i < ?k" "?k < n" using smallest_child_in [of lt xs i "heap_children a i n"] heap_children_range [of a ?k i n] by auto
    then have "hop place n (xs, i, s) (click_swap xs i ?k, ?k, place (click_swap xs i ?k) i s)" using "1.prems" by (intro hop.intros) simp_all
    then show ?thesis using "1.IH" [OF refl False refl] k(2) False sift_down.simps [of a lt place n xs i s]
      by (simp add: Let_def)
  qed
qed

lemma hops_content:
  assumes "(hop place n)\<^sup>*\<^sup>* st st'" "fst (snd st) < n" "n \<le> length (fst st)"
  shows "fst (snd st') < n \<and> length (fst st') = length (fst st) \<and> mset (fst st') = mset (fst st) \<and> drop n (fst st') = drop n (fst st)
    \<and> fst st' ! fst (snd st') = fst st ! fst (snd st)"
  using assms(1)
proof induction
  case base
  then show ?case using assms by simp
next
  case (step st1 st2)
  from step.hyps(2) obtain xs i s j where h: "st1 = (xs, i, s)" "st2 = (click_swap xs i j, j, place (click_swap xs i j) i s)" "i < n" "j < n" "i \<noteq> j"
    by (cases rule: hop.cases) auto
  have "drop n (click_swap xs i j) = drop n xs" using h(3,4) by (simp add: click_swap_def)
  then show ?case using step.IH assms(3) h swap_mset [of i xs j] swap_nth [of i xs j j] by simp
qed

text \<open>The callback that stores the position of every element, as the timers have it.\<close>

definition place_at :: "('a \<Rightarrow> 'k) \<Rightarrow> (nat \<Rightarrow> 'p) \<Rightarrow> 'a list \<Rightarrow> nat \<Rightarrow> ('k \<Rightarrow> 'p) \<Rightarrow> 'k \<Rightarrow> 'p" where
  "place_at ident pos xs j s = s(ident (xs ! j) := pos j)"

definition placed_but :: "('a \<Rightarrow> 'k) \<Rightarrow> (nat \<Rightarrow> 'p) \<Rightarrow> nat \<Rightarrow> 'a list \<Rightarrow> nat \<Rightarrow> ('k \<Rightarrow> 'p) \<Rightarrow> bool" where
  "placed_but ident pos n xs i s \<longleftrightarrow> (\<forall>j < n. j \<noteq> i \<longrightarrow> s (ident (xs ! j)) = pos j)"

lemma hops_placed:
  assumes "(hop (place_at ident pos) n)\<^sup>*\<^sup>* st st'" "fst (snd st) < n" "n \<le> length (fst st)" "distinct (map ident (fst st))"
    "placed_but ident pos n (fst st) (fst (snd st)) (snd (snd st))"
  shows "placed_but ident pos n (fst st') (fst (snd st')) (snd (snd st'))
    \<and> (\<forall>t. t \<notin> ident ` set (take n (fst st)) \<or> t = ident (fst st ! fst (snd st)) \<longrightarrow> snd (snd st') t = snd (snd st) t)"
  using assms(1)
proof induction
  case base
  then show ?case using assms by simp
next
  case (step st1 st2)
  from step.hyps(2) obtain xs i s j where h: "st1 = (xs, i, s)" "st2 = (click_swap xs i j, j, place_at ident pos (click_swap xs i j) i s)" "i < n" "j < n" "i \<noteq> j"
    by (cases rule: hop.cases) auto
  note c = hops_content [OF step.hyps(1) assms(2,3), unfolded h(1) fst_conv snd_conv]
  have "mset (map ident xs) = mset (map ident (fst st))" using c by simp
  then have d: "distinct (map ident xs)" using assms(4) mset_eq_imp_distinct_iff by blast
  have n: "n \<le> length xs" using c assms(3) by simp
  have inj: "ident (xs ! k) = ident (xs ! l) \<longleftrightarrow> k = l" if "k < n" "l < n" for k l
    using d that n by (simp add: distinct_conv_nth) (metis length_map nth_map order_less_le_trans)
  have "mset (take n xs) = mset (take n (fst st))"
  proof -
    have "mset (take n xs) + mset (drop n xs) = mset (take n (fst st)) + mset (drop n (fst st))" using c by (metis append_take_drop_id mset_append)
    then show ?thesis using c by simp
  qed
  then have tk: "set (take n xs) = set (take n (fst st))" by (rule mset_eq_setD)
  have sw: "click_swap xs i j ! k = (if k = i then xs ! j else if k = j then xs ! i else xs ! k)" if "k < n" for k
    using swap_nth [of i xs j k] h(3,4) n that by simp
  have "ident (xs ! j) \<in> ident ` set (take n (fst st))" using h(4) n unfolding tk [symmetric] by (auto simp: in_set_conv_nth intro!: imageI exI [of _ j])
  moreover have "ident (xs ! j) \<noteq> ident (fst st ! fst (snd st))" using c inj [of j i] h(3-5) by auto
  ultimately show ?case using step.IH inj sw h(3-5) unfolding h(1,2) fst_conv snd_conv placed_but_def place_at_def by auto
qed

section \<open>The operations\<close>

text \<open>What an operation keeps: the elements, those behind the heap in place, and every position.\<close>

definition placed :: "('a \<Rightarrow> 'k) \<Rightarrow> (nat \<Rightarrow> 'p) \<Rightarrow> nat \<Rightarrow> 'a list \<Rightarrow> ('k \<Rightarrow> 'p) \<Rightarrow> bool" where
  "placed ident pos n xs s \<longleftrightarrow> (\<forall>j < n. s (ident (xs ! j)) = pos j)"

lemma change_heap_content:
  assumes "i < n" "n \<le> length xs"
  shows "\<exists>ys k s'. change_heap a lt place n xs i s = Some (ys, k, s') \<and> k < n \<and> length ys = length xs \<and> mset ys = mset xs
    \<and> drop n ys = drop n xs \<and> ys ! k = xs ! i"
proof -
  obtain ys k s1 where 1: "sift_up a lt place xs i s = (ys, k, s1)" by (metis prod.exhaust)
  obtain zs l s2 where 2: "sift_down a lt place n ys k s1 = (zs, l, s2)" by (metis prod.exhaust)
  have c1: "k < n \<and> length ys = length xs \<and> mset ys = mset xs \<and> drop n ys = drop n xs \<and> ys ! k = xs ! i"
    using hops_content [OF sift_up_hops [OF assms(1), of place xs s a lt]] assms unfolding 1 by simp
  have "l < n \<and> length zs = length ys \<and> mset zs = mset ys \<and> drop n zs = drop n ys \<and> zs ! l = ys ! k"
    using hops_content [OF sift_down_hops [of k n place ys s1 a lt]] c1 assms(2) unfolding 2 by simp
  then show ?thesis using 1 2 c1 assms(1) by (simp add: change_heap_def)
qed

lemma change_heap_placed:
  assumes "i < n" "n \<le> length xs" "distinct (map ident xs)" "placed ident pos n xs s" "change_heap a lt (place_at ident pos) n xs i s = Some (ys, k, s')"
  shows "placed ident pos n ys s' \<and> (\<forall>t. t \<notin> ident ` set (take n xs) \<longrightarrow> s' t = s t)"
proof -
  let ?place = "place_at ident pos"
  obtain ys1 k1 s1 where 1: "sift_up a lt ?place xs i s = (ys1, k1, s1)" by (metis prod.exhaust)
  obtain zs l s2 where 2: "sift_down a lt ?place n ys1 k1 s1 = (zs, l, s2)" by (metis prod.exhaust)
  have r: "ys = zs" "k = l" "s' = (if l \<noteq> i then ?place zs l s2 else s2)" using assms(1,5) 1 2 by (auto simp: change_heap_def)
  have h1: "(hop ?place n)\<^sup>*\<^sup>* (xs, i, s) (ys1, k1, s1)" using sift_up_hops [OF assms(1), of ?place xs s a lt] unfolding 1 .
  have "k1 < n" using hops_content [OF h1] assms(1,2) by simp
  then have h: "(hop ?place n)\<^sup>*\<^sup>* (xs, i, s) (zs, l, s2)" using h1 sift_down_hops [of k1 n ?place ys1 s1 a lt] unfolding 2 by simp
  have b: "placed_but ident pos n xs i s" using assms(4) by (simp add: placed_def placed_but_def)
  note c = hops_content [OF h] and p = hops_placed [OF h]
  have p1: "placed_but ident pos n zs l s2" and fr: "\<And>t. t \<notin> ident ` set (take n xs) \<or> t = ident (xs ! i) \<Longrightarrow> s2 t = s t"
    using p assms(1-3) b by simp_all
  have c1: "l < n" "zs ! l = xs ! i" using c assms(1,2) by simp_all
  have "ident (xs ! i) \<in> ident ` set (take n xs)" using assms(1,2) by (auto simp: in_set_conv_nth intro!: imageI exI [of _ i])
  moreover have "s2 (ident (zs ! l)) = pos i" using fr [of "ident (xs ! i)"] assms(1,4) c1 by (simp add: placed_def)
  moreover have "ident (zs ! j) \<noteq> ident (zs ! l)" if "j < n" "j \<noteq> l" for j
  proof -
    have "mset (map ident zs) = mset (map ident xs)" using c assms(1,2) by simp
    then have "distinct (map ident zs)" using assms(3) mset_eq_imp_distinct_iff by blast
    moreover have "j < length zs" "l < length zs" using that(1) c c1(1) assms(1,2) by simp_all
    ultimately show ?thesis using nth_eq_iff_index_eq [of "map ident zs" j l] that(2) by simp
  qed
  ultimately show ?thesis using p1 fr c1 unfolding r placed_def placed_but_def place_at_def by auto
qed

context heap_order
begin

lemma change_heap_order:
  assumes "2 \<le> a" "heap_but a lt n xs i" "i < n" "n \<le> length xs" "change_heap a lt place n xs i s = Some (ys, k, s')"
  shows "is_heap a lt n ys"
proof -
  obtain ys1 k1 s1 where 1: "sift_up a lt place xs i s = (ys1, k1, s1)" by (metis prod.exhaust)
  obtain zs l s2 where 2: "sift_down a lt place n ys1 k1 s1 = (zs, l, s2)" by (metis prod.exhaust)
  note u = sift_up_order [OF assms(1-4) 1]
  have "length ys1 = length xs" using hops_content [OF sift_up_hops [OF assms(3), of place xs s a lt]] assms(3,4) unfolding 1 by simp
  then have "is_heap a lt n zs" using sift_down_order [OF assms(1) _ _ _ _ 2] u assms(3,4) by simp
  then show ?thesis using assms(3,5) 1 2 by (simp add: change_heap_def)
qed

end

section \<open>Adding and removing\<close>

text \<open>Removing the element at \<open>i\<close>: what is left of the array, with the removed element behind it.\<close>

lemma remove_heap_content:
  assumes "i < n" "n \<le> length xs"
  shows "\<exists>ys s'. remove_heap a lt place n xs i s = Some (ys, s') \<and> length ys = length xs \<and> mset ys = mset xs \<and> ys ! (n - 1) = xs ! i
    \<and> drop n ys = drop n xs"
proof (cases "i + 1 = n")
  case True
  then show ?thesis using assms by (auto simp: remove_heap_def)
next
  case False
  let ?xs = "click_swap xs i (n - 1)"
  have i: "i < n - 1" "n - 1 \<le> length ?xs" "n - 1 < length xs" "i < length xs" using False assms by simp_all
  obtain ys k s' where c: "change_heap a lt place (n - 1) ?xs i (place ?xs i s) = Some (ys, k, s')" "length ys = length ?xs" "mset ys = mset ?xs"
      "drop (n - 1) ys = drop (n - 1) ?xs"
    using change_heap_content [OF i(1,2), of a lt place "place ?xs i s"] by blast
  have "ys ! (n - 1) = ?xs ! (n - 1)" using c(2,4) i(3) by (metis hd_drop_conv_nth swap_length)
  also have "\<dots> = xs ! i" using swap_nth [of i xs "n - 1" "n - 1"] i by auto
  finally have l: "ys ! (n - 1) = xs ! i" .
  have "drop n ys = drop n ?xs" using arg_cong [OF c(4), of "drop 1"] assms(1) by simp
  then have "drop n ys = drop n xs" using assms(1) i(1) by (simp add: click_swap_def)
  then show ?thesis using c l swap_mset [of i xs "n - 1"] i False assms by (simp add: remove_heap_def Let_def)
qed

lemma heap_but_edge:
  "heap_but a lt n xs i \<Longrightarrow> 0 < j \<Longrightarrow> j < n \<Longrightarrow> j \<noteq> i \<Longrightarrow> heap_parent a j \<noteq> i \<Longrightarrow> \<not> lt (xs ! j) (xs ! heap_parent a j)"
  unfolding heap_but_def by blast

lemma heap_but_kids:
  "heap_but a lt n xs i \<Longrightarrow> 0 < i \<Longrightarrow> 0 < j \<Longrightarrow> j < n \<Longrightarrow> heap_parent a j = i \<Longrightarrow> \<not> lt (xs ! j) (xs ! heap_parent a i)"
  unfolding heap_but_def by blast

lemma is_heap_but: "2 \<le> a \<Longrightarrow> heap_order lt \<Longrightarrow> is_heap a lt n xs \<Longrightarrow> i < n \<Longrightarrow> heap_but a lt n xs i"
  unfolding heap_but_def is_heap_def using heap_order.not_lt_trans [of lt] by blast

context heap_order
begin

lemma remove_heap_order:
  assumes "2 \<le> a" "heap_but a lt n xs i" "i < n" "n \<le> length xs" "remove_heap a lt place n xs i s = Some (ys, s')"
  shows "is_heap a lt (n - 1) ys"
proof (cases "i + 1 = n")
  case True
  then have "ys = xs" using assms(3,5) by (simp add: remove_heap_def)
  moreover have "heap_parent a j \<noteq> i" if "0 < j" "j < n - 1" for j using heap_parent_less [OF assms(1) that(1)] that(2) True by simp
  ultimately show ?thesis using assms(2) True by (auto simp: is_heap_def heap_but_def)
next
  case False
  let ?xs = "click_swap xs i (n - 1)"
  have i: "i < n - 1" "n - 1 \<le> length ?xs" using False assms(3,4) by simp_all
  have sw: "?xs ! j = xs ! j" if "j < n - 1" "j \<noteq> i" for j using swap_nth [of i xs "n - 1" j] that i assms(3,4) by simp
  have par: "heap_parent a j < j" if "0 < j" for j by (rule heap_parent_less [OF assms(1) that])
  have "heap_but a lt (n - 1) ?xs i"
    unfolding heap_but_def
  proof (intro conjI allI impI)
    fix j assume j: "0 < j \<and> j < n - 1 \<and> j \<noteq> i \<and> heap_parent a j \<noteq> i"
    then have "\<not> lt (xs ! j) (xs ! heap_parent a j)" by (intro heap_but_edge [OF assms(2)]) auto
    then show "\<not> lt (?xs ! j) (?xs ! heap_parent a j)" using j sw [of j] sw [of "heap_parent a j"] par [of j] by simp
  next
    fix j assume j: "0 < i \<and> 0 < j \<and> j < n - 1 \<and> heap_parent a j = i"
    then have "\<not> lt (xs ! j) (xs ! heap_parent a i)" by (intro heap_but_kids [OF assms(2)]) auto
    then show "\<not> lt (?xs ! j) (?xs ! heap_parent a i)" using j sw [of j] sw [of "heap_parent a i"] par [of j] par [of i] i(1) by simp
  qed
  moreover obtain k where "change_heap a lt place (n - 1) ?xs i (place ?xs i s) = Some (ys, k, s')"
    using assms(3,5) False by (auto simp: remove_heap_def Let_def)
  ultimately show ?thesis by (rule change_heap_order [OF assms(1) _ i])
qed

text \<open>A new element comes from a leaf, so that nothing below it is ever smaller.\<close>

lemma sift_up_leaf:
  assumes "2 \<le> a" "heap_but a lt n xs i" "\<forall>j. 0 < j \<and> j < n \<and> heap_parent a j = i \<longrightarrow> \<not> lt (xs ! j) (xs ! i)" "i < n" "n \<le> length xs"
    "sift_up a lt place xs i s = (ys, k, s')"
  shows "is_heap a lt n ys"
  using assms(2-)
proof (induction i arbitrary: xs s rule: less_induct)
  case (less i)
  show ?case
  proof (cases "0 < i \<and> lt (xs ! i) (xs ! heap_parent a i)")
    case True
    let ?p = "heap_parent a i" and ?xs = "click_swap xs i (heap_parent a i)"
    have p: "?p < i" using heap_parent_less [OF assms(1)] True by simp
    have sw: "?xs ! j = (if j = i then xs ! ?p else if j = ?p then xs ! i else xs ! j)" if "j < n" for j
      using swap_nth [of i xs ?p j] that p less.prems(3,4) by simp
    have down: "\<not> lt (xs ! ?p) (xs ! i)" using True lt_asym by blast
    have "\<not> lt (?xs ! j) (?xs ! ?p)" if j: "0 < j" "j < n" "heap_parent a j = ?p" for j
    proof -
      have jp: "j \<noteq> ?p" using heap_parent_less [OF assms(1) j(1)] j(3) by simp
      have "\<not> lt (xs ! j) (xs ! i)" if "j \<noteq> i"
      proof -
        have "\<not> lt (xs ! j) (xs ! ?p)" using heap_but_edge [OF less.prems(1) j(1,2) that] j(3) p by simp
        then show ?thesis using down by (metis not_lt_trans)
      qed
      then show ?thesis using down jp sw [OF j(2)] sw [of ?p] p less.prems(3) by simp
    qed
    moreover have "heap_but a lt n ?xs ?p" using heap_but_up [OF assms(1) less.prems(1)] True less.prems(3,4) by simp
    moreover have "sift_up a lt place ?xs ?p (place ?xs i s) = (ys, k, s')"
      using less.prems(5) True assms(1) sift_up.simps [of a lt place xs i s] by (simp add: Let_def)
    ultimately show ?thesis using less.IH [OF p] p less.prems(3,4) by simp
  next
    case False
    then have "ys = xs" using less.prems(5) sift_up.simps [of a lt place xs i s] by auto
    then show ?thesis using False less.prems(1,2) unfolding is_heap_def heap_but_def by blast
  qed
qed

lemma push_heap_order:
  assumes "2 \<le> a" "is_heap a lt (n - 1) xs" "0 < n" "n \<le> length xs" "push_heap a lt place n xs s = Some (ys, s')"
  shows "is_heap a lt n ys"
proof -
  obtain zs k s1 where u: "sift_up a lt place xs (n - 1) s = (zs, k, s1)" by (metis prod.exhaust)
  have leaf: "heap_parent a j \<noteq> n - 1" if "0 < j" "j < n" for j using heap_parent_less [OF assms(1) that(1)] that(2) by simp
  have "heap_but a lt n xs (n - 1)" using assms(2) leaf by (auto simp: heap_but_def is_heap_def)
  moreover have "\<forall>j. 0 < j \<and> j < n \<and> heap_parent a j = n - 1 \<longrightarrow> \<not> lt (xs ! j) (xs ! (n - 1))" using leaf by blast
  ultimately have "is_heap a lt n zs" using sift_up_leaf [OF assms(1) _ _ _ assms(4) u] assms(3) by simp
  then show ?thesis using assms(3,5) u by (auto simp: push_heap_def)
qed

end

lemma remove_heap_placed:
  assumes "i < n" "n \<le> length xs" "distinct (map ident xs)" "placed ident pos n xs s" "remove_heap a lt (place_at ident pos) n xs i s = Some (ys, s')"
  shows "placed ident pos (n - 1) ys s' \<and> (\<forall>t. t \<notin> ident ` set (take n xs) \<longrightarrow> s' t = s t)"
proof (cases "i + 1 = n")
  case True
  then show ?thesis using assms(1,4,5) by (auto simp: remove_heap_def placed_def)
next
  case False
  let ?xs = "click_swap xs i (n - 1)" and ?place = "place_at ident pos"
  have i: "i < n - 1" "n - 1 \<le> length ?xs" "i < length xs" "n - 1 < length xs" using False assms(1,2) by simp_all
  have sw: "?xs ! j = (if j = i then xs ! (n - 1) else xs ! j)" if "j < n - 1" for j using swap_nth [OF i(3,4), of j] that i(4) by simp
  have d: "distinct (map ident ?xs)"
  proof -
    have "mset (map ident ?xs) = mset (map ident xs)" using swap_mset [OF i(3,4)] by simp
    then show ?thesis using assms(3) mset_eq_imp_distinct_iff by blast
  qed
  have "placed ident pos (n - 1) ?xs (?place ?xs i s)"
    unfolding placed_def
  proof (intro allI impI)
    fix j assume j: "j < n - 1"
    have "ident (?xs ! j) \<noteq> ident (?xs ! i)" if "j \<noteq> i"
      using nth_eq_iff_index_eq [OF d, of j i] that i j by simp
    then show "?place ?xs i s (ident (?xs ! j)) = pos j" using assms(4) sw [OF j] j by (auto simp: place_at_def placed_def)
  qed
  moreover obtain k where c: "change_heap a lt ?place (n - 1) ?xs i (?place ?xs i s) = Some (ys, k, s')"
    using assms(1,5) False by (auto simp: remove_heap_def Let_def)
  ultimately have p: "placed ident pos (n - 1) ys s'" "\<And>t. t \<notin> ident ` set (take (n - 1) ?xs) \<Longrightarrow> s' t = ?place ?xs i s t"
    using change_heap_placed [OF i(1,2) d _ c] by blast+
  have sub: "set (take (n - 1) ?xs) \<subseteq> set (take n xs)"
  proof
    fix x assume "x \<in> set (take (n - 1) ?xs)"
    then obtain j where "j < n - 1" "x = ?xs ! j" using i by (auto simp: in_set_conv_nth)
    then have "x = xs ! (if j = i then n - 1 else j)" "(if j = i then n - 1 else j) < n" using sw [of j] assms(1) by auto
    then show "x \<in> set (take n xs)" using assms(2) by (metis in_set_conv_nth length_take min.absorb2 nth_take)
  qed
  have "?xs ! i \<in> set (take (n - 1) ?xs)" using i by (metis in_set_conv_nth length_take min.absorb2 nth_take)
  then show ?thesis using p sub by (auto simp: place_at_def image_iff)
qed

interpretation keyed: heap_order "\<lambda>x y. key x < (key y :: 'k::linorder)" for key
  by unfold_locales auto

lemma change_heap_whole:
  fixes key :: "'a \<Rightarrow> 'k::linorder"
  assumes "2 \<le> a" "heap_but a (\<lambda>x y. key x < key y) (length xs) xs i" "i < length xs"
    "distinct (map ident xs)" "placed ident pos (length xs) xs s"
  shows "\<exists>ys k s'. change_heap a (\<lambda>x y. key x < key y) (place_at ident pos) (length xs) xs i s = Some (ys, k, s')
    \<and> is_heap a (\<lambda>x y. key x < key y) (length ys) ys \<and> mset ys = mset xs \<and> k < length ys \<and> ys ! k = xs ! i \<and> placed ident pos (length ys) ys s'
    \<and> (\<forall>t. t \<notin> ident ` set xs \<longrightarrow> s' t = s t)"
  using change_heap_content [OF assms(3) order_refl, of a "\<lambda>x y. key x < key y" "place_at ident pos" s]
    keyed.change_heap_order [OF assms(1-3) order_refl] change_heap_placed [OF assms(3) order_refl assms(4,5)]
  by (metis take_all order_refl)

lemma remove_heap_whole:
  fixes key :: "'a \<Rightarrow> 'k::linorder"
  assumes "2 \<le> a" "heap_but a (\<lambda>x y. key x < key y) (length xs) xs i" "i < length xs"
    "distinct (map ident xs)" "placed ident pos (length xs) xs s"
  shows "\<exists>ys s'. remove_heap a (\<lambda>x y. key x < key y) (place_at ident pos) (length xs) xs i s = Some (ys @ [xs ! i], s')
    \<and> is_heap a (\<lambda>x y. key x < key y) (length ys) ys \<and> mset xs = add_mset (xs ! i) (mset ys) \<and> placed ident pos (length ys) ys s'
    \<and> (\<forall>t. t \<notin> ident ` set xs \<longrightarrow> s' t = s t)"
proof -
  let ?lt = "\<lambda>x y. key x < key y" and ?n = "length xs"
  obtain zs s' where z: "remove_heap a ?lt (place_at ident pos) ?n xs i s = Some (zs, s')" "length zs = ?n" "mset zs = mset xs" "zs ! (?n - 1) = xs ! i"
    using remove_heap_content [OF assms(3) order_refl, of a ?lt "place_at ident pos" s] by auto
  let ?ys = "take (?n - 1) zs"
  have "zs \<noteq> []" using z(2) assms(3) by auto
  then have "zs = butlast zs @ [last zs]" by simp
  then have e: "zs = ?ys @ [xs ! i]" using z(2,4) \<open>zs \<noteq> []\<close> by (simp add: last_conv_nth butlast_conv_take)
  have "is_heap a ?lt (?n - 1) zs" by (rule keyed.remove_heap_order [OF assms(1-3) order_refl z(1)])
  moreover have "heap_parent a j < ?n - 1" if "0 < j" "j < ?n - 1" for j using heap_parent_less [OF assms(1) that(1)] that(2) by simp
  ultimately have "is_heap a ?lt (length ?ys) ?ys" using z(2) by (simp add: is_heap_def)
  moreover have "placed ident pos (length ?ys) ?ys s'" "\<forall>t. t \<notin> ident ` set xs \<longrightarrow> s' t = s t"
    using remove_heap_placed [OF assms(3) order_refl assms(4,5) z(1)] z(2) by (simp_all add: placed_def)
  moreover have "mset xs = add_mset (xs ! i) (mset ?ys)" using z(3) by (subst (asm) e) simp
  ultimately show ?thesis using z(1) e by metis
qed

text \<open>C37: for both layouts, \<open>change_heap\<close> and \<open>remove_heap\<close> repair a heap in which one element is out
  of place, keep the elements, hand the removed element to the end of the array, and report
  every change of place to the callback, so that elements always know where they are.\<close>

theorem heap_operations_correct:
  fixes key :: "'a \<Rightarrow> 'k::linorder"
  assumes "2 \<le> a" "heap_but a (\<lambda>x y. key x < key y) (length xs) xs i" "i < length xs"
    "distinct (map ident xs)" "placed ident pos (length xs) xs s"
  shows "(\<exists>ys k s'. change_heap a (\<lambda>x y. key x < key y) (place_at ident pos) (length xs) xs i s = Some (ys, k, s')
        \<and> is_heap a (\<lambda>x y. key x < key y) (length ys) ys \<and> mset ys = mset xs \<and> ys ! k = xs ! i \<and> placed ident pos (length ys) ys s')
    \<and> (\<exists>ys s'. remove_heap a (\<lambda>x y. key x < key y) (place_at ident pos) (length xs) xs i s = Some (ys @ [xs ! i], s')
        \<and> is_heap a (\<lambda>x y. key x < key y) (length ys) ys \<and> mset xs = add_mset (xs ! i) (mset ys) \<and> placed ident pos (length ys) ys s')"
  using change_heap_whole [OF assms] remove_heap_whole [OF assms] by blast

theorem heap_operations_correct_witness:
  "\<exists>ys s'. remove_heap 4 (\<lambda>x y. id x < id y) (place_at id int) (length [0, 1, 2 :: nat]) [0, 1, 2] 0 int = Some (ys @ [0], s')
     \<and> is_heap 4 (\<lambda>x y. id x < id y) (length ys) ys \<and> mset [0, 1, 2] = add_mset 0 (mset ys)"
proof -
  let ?xs = "[0, 1, 2 :: nat]"
  have "heap_but 4 (\<lambda>x y. id x < id y) (length ?xs) ?xs 0"
    by (auto simp: heap_but_def heap_parent_def)
  moreover have "placed id int (length ?xs) ?xs int"
    by (auto simp: placed_def less_Suc_eq)
  ultimately have "\<exists>ys s'. remove_heap 4 (\<lambda>x y. id x < id y) (place_at id int) (length ?xs) ?xs 0 int = Some (ys @ [?xs ! 0], s')
     \<and> is_heap 4 (\<lambda>x y. id x < id y) (length ys) ys \<and> mset ?xs = add_mset (?xs ! 0) (mset ys) \<and> placed id int (length ys) ys s'"
    by (intro conjunct2 [OF heap_operations_correct]) simp_all
  then show ?thesis unfolding nth_Cons_0 by blast
qed

end
