(* ===== verification/Click_Timer.thy ===== *)
theory Click_Timer
  imports Click_Heap
begin

text \<open>
  Timers (\<open>lib/timer.cc\<close>, \<open>include/click/timer.hh\<close>) and the timer set of a thread
  (\<open>lib/timerset.cc\<close>, \<open>include/click/timerset.hh\<close>): the 4-ary heap of the scheduled timers,
  the chunk of expired timers that \<open>run_timers\<close> takes out of the heap when it falls behind,
  and the positions that the timers keep of themselves in both. Timers are numbers, and one
  record holds their fields and those of the timer set. A timestamp is its number of
  microseconds. The owner of a timer is represented by its router. Timer callbacks are
  lists of the calls they make on timers; they depend on the timer and on how many
  callbacks have run before. A failed assertion and an access outside of a vector are \<open>None\<close>.
  The lock of the set is held throughout an operation; the operations are those of one thread.
\<close>

section \<open>Definitions\<close>

type_synonym heap_element = "int \<times> nat"

record timers =
  ts_expiry :: int
  ts_max_stride :: u32
  ts_stride :: u32
  ts_count :: u32
  ts_heap :: "heap_element list"
  ts_runchunk :: "nat option list"
  ts_check :: int
  ts_check_reports :: u32
  tm_schedpos1 :: "nat \<Rightarrow> int"
  tm_expiry :: "nat \<Rightarrow> int"
  tm_owner :: "nat \<Rightarrow> nat option"
  th_stop :: bool
  th_woken :: bool
  ts_ran :: "heap_element list"

text \<open>\<open>th_stop\<close> is the stop flag of the thread, \<open>th_woken\<close> records a call of \<open>RouterThread::wake\<close>,
  and \<open>ts_ran\<close> is the history of the callbacks: the expiry and the timer of each.\<close>

definition subsec_per_sec :: int where "subsec_per_sec = 1000000"
definition behind_sec :: int where "behind_sec = 1"
definition adjustment :: int where "adjustment = 500"

definition heap_less :: "heap_element \<Rightarrow> heap_element \<Rightarrow> bool" where
  "heap_less x y \<longleftrightarrow> fst x < fst y"

definition heap_place :: "heap_element list \<Rightarrow> nat \<Rightarrow> (nat \<Rightarrow> int) \<Rightarrow> nat \<Rightarrow> int" where
  "heap_place = place_at snd (\<lambda>j. int j + 1)"

definition new_timer_set :: "int \<Rightarrow> timers" where
  "new_timer_set now = \<lparr>ts_expiry = 0, ts_max_stride = 32, ts_stride = 32, ts_count = 0, ts_heap = [], ts_runchunk = [], ts_check = now,
     ts_check_reports = 0, tm_schedpos1 = (\<lambda>t. 0), tm_expiry = (\<lambda>t. 0), tm_owner = (\<lambda>t. None), th_stop = False, th_woken = False,
     ts_ran = []\<rparr>"

definition set_timer_expiry :: "timers \<Rightarrow> timers" where
  "set_timer_expiry s = s\<lparr>ts_expiry := (if length (ts_heap s) \<noteq> 0 then fst (ts_heap s ! 0) else 0)\<rparr>"

definition timer_expiry_steady_adjusted :: "timers \<Rightarrow> int" where
  "timer_expiry_steady_adjusted s =
     (let e = ts_expiry s
      in if ts_stride s \<ge> 8 \<or> e = 0 then e
         else if ts_stride s \<ge> 4 then e - adjustment
         else e - (adjustment + adjustment))"

definition next_timer :: "timers \<Rightarrow> nat option" where
  "next_timer s = (if ts_heap s = [] then None else Some (snd (ts_heap s ! 0)))"

definition set_max_timer_stride :: "u32 \<Rightarrow> timers \<Rightarrow> timers" where
  "set_max_timer_stride stride s =
     (let s = s\<lparr>ts_max_stride := stride\<rparr>
      in if ts_stride s > ts_max_stride s then s\<lparr>ts_stride := ts_max_stride s\<rparr> else s)"

definition check_timer_expiry :: "nat \<Rightarrow> timers \<Rightarrow> timers" where
  "check_timer_expiry t s =
     (if tm_expiry s t div subsec_per_sec + behind_sec < ts_check s div subsec_per_sec
      then let s = (if ts_check_reports s > 0 then s\<lparr>ts_check_reports := ts_check_reports s - 1\<rparr> else s)
           in s\<lparr>tm_expiry := (tm_expiry s)(t := ts_check s)\<rparr>
      else s)"

definition timer_initialize :: "nat \<Rightarrow> nat \<Rightarrow> timers \<Rightarrow> timers option" where
  "timer_initialize t router s =
     (if tm_owner s t = None \<or> tm_owner s t = Some router then Some (s\<lparr>tm_owner := (tm_owner s)(t := Some router)\<rparr>) else None)"

text \<open>\<open>Timer::schedule_at_steady\<close>: the timer is put at the end of the heap, or gets its new
  key where it is; then the heap is repaired.\<close>

definition schedule_enter :: "nat \<Rightarrow> timers \<Rightarrow> timers option" where
  "schedule_enter t s =
     (let pos = tm_schedpos1 s t
      in if pos < 0 \<and> nat (- pos - 1) \<ge> length (ts_runchunk s) then None
         else if pos \<le> 0
         then Some (s\<lparr>ts_runchunk := (if pos < 0 then (ts_runchunk s)[nat (- pos - 1) := None] else ts_runchunk s),
                      tm_schedpos1 := (tm_schedpos1 s)(t := int (length (ts_heap s)) + 1),
                      ts_heap := ts_heap s @ [(tm_expiry s t, t)]\<rparr>)
         else if nat (pos - 1) \<ge> length (ts_heap s) then None
         else Some (s\<lparr>ts_heap := (ts_heap s)[nat (pos - 1) := (tm_expiry s t, snd (ts_heap s ! nat (pos - 1)))]\<rparr>))"

definition schedule_repair :: "int \<Rightarrow> nat \<Rightarrow> timers \<Rightarrow> timers option" where
  "schedule_repair old_schedpos1 t s =
     (case change_heap 4 heap_less heap_place (length (ts_heap s)) (ts_heap s) (nat (tm_schedpos1 s t - 1)) (tm_schedpos1 s) of
        None \<Rightarrow> None
      | Some (h, i, pos) \<Rightarrow>
          let s = s\<lparr>ts_heap := h, tm_schedpos1 := pos\<rparr>;
              s = (if old_schedpos1 = 1 \<or> tm_schedpos1 s t = 1 then set_timer_expiry s else s)
          in Some (if tm_schedpos1 s t = 1 then s\<lparr>th_woken := True\<rparr> else s))"

definition schedule_at_steady :: "nat \<Rightarrow> int \<Rightarrow> timers \<Rightarrow> timers option" where
  "schedule_at_steady t when s =
     (if tm_owner s t = None then None
      else let s = check_timer_expiry t (s\<lparr>tm_expiry := (tm_expiry s)(t := if when \<noteq> 0 then when else 1)\<rparr>)
           in case schedule_enter t s of None \<Rightarrow> None | Some s' \<Rightarrow> schedule_repair (tm_schedpos1 s t) t s')"

definition schedule_after :: "nat \<Rightarrow> int \<Rightarrow> int \<Rightarrow> timers \<Rightarrow> timers option" where
  "schedule_after t now delta s = schedule_at_steady t (now + delta) s"

definition reschedule_after :: "nat \<Rightarrow> int \<Rightarrow> timers \<Rightarrow> timers option" where
  "reschedule_after t delta s = schedule_at_steady t (tm_expiry s t + delta) s"

text \<open>\<open>remove_heap\<close> and \<open>pop_back\<close>, as the three callers have them.\<close>

definition heap_take :: "nat \<Rightarrow> timers \<Rightarrow> timers option" where
  "heap_take i s =
     (case remove_heap 4 heap_less heap_place (length (ts_heap s)) (ts_heap s) i (tm_schedpos1 s) of
        None \<Rightarrow> None
      | Some (h, pos) \<Rightarrow> Some (s\<lparr>ts_heap := butlast h, tm_schedpos1 := pos\<rparr>))"

definition set_schedpos1 :: "nat \<Rightarrow> int \<Rightarrow> timers \<Rightarrow> timers" where
  "set_schedpos1 t pos s = s\<lparr>tm_schedpos1 := (tm_schedpos1 s)(t := pos)\<rparr>"

definition unschedule :: "nat \<Rightarrow> timers \<Rightarrow> timers option" where
  "unschedule t s =
     (let pos = tm_schedpos1 s t
      in if pos = 0 then Some s
         else if pos > 0
         then (case heap_take (nat (pos - 1)) s of
                 None \<Rightarrow> None
               | Some s \<Rightarrow> Some (set_schedpos1 t 0 (if pos = 1 then set_timer_expiry s else s)))
         else if nat (- pos - 1) \<ge> length (ts_runchunk s) then None
         else Some (set_schedpos1 t 0 (s\<lparr>ts_runchunk := (ts_runchunk s)[nat (- pos - 1) := None]\<rparr>)))"

definition timer_clear :: "nat \<Rightarrow> timers \<Rightarrow> timers option" where
  "timer_clear t s = map_option (\<lambda>s. s\<lparr>tm_expiry := (tm_expiry s)(t := 0)\<rparr>) (unschedule t s)"

text \<open>\<open>TimerSet::kill_router\<close>: the loop visits the places of the heap from the last to the first.\<close>

fun kill_router_loop :: "nat \<Rightarrow> nat \<Rightarrow> timers \<Rightarrow> timers option" where
  "kill_router_loop router 0 s = Some s"
| "kill_router_loop router (Suc thp) s =
     (if thp \<ge> length (ts_heap s) then None
      else let t = snd (ts_heap s ! thp)
           in case tm_owner s t of
                None \<Rightarrow> None
              | Some r \<Rightarrow>
                  if r = router
                  then (case heap_take thp s of
                          None \<Rightarrow> None
                        | Some s \<Rightarrow> kill_router_loop router thp (set_schedpos1 t 0 (s\<lparr>tm_owner := (tm_owner s)(t := None)\<rparr>)))
                  else kill_router_loop router thp s)"

definition kill_router :: "nat \<Rightarrow> timers \<Rightarrow> timers option" where
  "kill_router router s =
     (if length (ts_runchunk s) \<noteq> 0 then None
      else map_option set_timer_expiry (kill_router_loop router (length (ts_heap s)) s))"

subsection \<open>Running timers\<close>

datatype timer_call = Schedule_at nat int | Unschedule nat | Clear nat | Stop_thread

type_synonym timer_hook = "nat \<Rightarrow> nat \<Rightarrow> timer_call list"

fun timer_do :: "timer_call \<Rightarrow> timers \<Rightarrow> timers option" where
  "timer_do (Schedule_at t when) s = schedule_at_steady t when s"
| "timer_do (Unschedule t) s = unschedule t s"
| "timer_do (Clear t) s = timer_clear t s"
| "timer_do Stop_thread s = Some (s\<lparr>th_stop := True\<rparr>)"

fun timer_do_all :: "timer_call list \<Rightarrow> timers \<Rightarrow> timers option" where
  "timer_do_all [] s = Some s"
| "timer_do_all (c # cs) s = (case timer_do c s of None \<Rightarrow> None | Some s \<Rightarrow> timer_do_all cs s)"

definition run_one_timer :: "timer_hook \<Rightarrow> nat \<Rightarrow> timers \<Rightarrow> timers option" where
  "run_one_timer hook t s = timer_do_all (hook (length (ts_ran s)) t) (s\<lparr>ts_ran := ts_ran s @ [(tm_expiry s t, t)]\<rparr>)"

definition root_expired :: "timers \<Rightarrow> bool" where
  "root_expired s \<longleftrightarrow> ts_heap s \<noteq> [] \<and> fst (ts_heap s ! 0) \<le> ts_check s"

definition adjust_stride :: "timers \<Rightarrow> timers" where
  "adjust_stride s =
     (if fst (ts_heap s ! 0) + adjustment \<le> ts_check s
      then let s = s\<lparr>ts_count := 0\<rparr> in if ts_stride s > 1 then s\<lparr>ts_stride := ts_stride s * 4 div 5\<rparr> else s
      else let s = s\<lparr>ts_count := ts_count s + 1\<rparr>
           in if ts_count s \<ge> 12
              then let s = s\<lparr>ts_count := 0, ts_stride := ts_stride s + 1\<rparr>
                   in if ts_stride s \<ge> ts_max_stride s then s\<lparr>ts_stride := ts_max_stride s\<rparr> else s
              else s)"

definition run_first :: "timer_hook \<Rightarrow> timers \<Rightarrow> timers option" where
  "run_first hook s =
     (let (e, t) = ts_heap s ! 0
      in if tm_expiry s t \<noteq> e then None
         else case heap_take 0 s of
                None \<Rightarrow> None
              | Some s \<Rightarrow> run_one_timer hook t (set_schedpos1 t 0 (set_timer_expiry s)))"

text \<open>The first loop; \<open>m\<close> is \<open>max_timers\<close>, and the flag of the result says that it went below zero.\<close>

fun run_some :: "timer_hook \<Rightarrow> nat \<Rightarrow> timers \<Rightarrow> (bool \<times> timers) option" where
  "run_some hook m s =
     (case run_first hook s of
        None \<Rightarrow> None
      | Some s \<Rightarrow>
          if ts_heap s \<noteq> [] \<and> \<not> th_stop s \<and> root_expired s
          then (case m of 0 \<Rightarrow> Some (True, s) | Suc m \<Rightarrow> run_some hook m s)
          else Some (False, s))"

text \<open>The loop that moves all expired timers to the chunk; every step makes the heap shorter, and
  the argument is the length of the heap at the start.\<close>

fun take_expired :: "nat \<Rightarrow> timers \<Rightarrow> timers option" where
  "take_expired 0 s = Some s"
| "take_expired (Suc n) s =
     (let t = snd (ts_heap s ! 0)
      in case heap_take 0 s of
           None \<Rightarrow> None
         | Some s \<Rightarrow>
             let s = set_schedpos1 t (- int (length (ts_runchunk s)) - 1) s;
                 s = s\<lparr>ts_runchunk := ts_runchunk s @ [Some t]\<rparr>
             in if root_expired s then take_expired n s else Some s)"

text \<open>The loops over the chunk; the number of places that are left is their measure.\<close>

fun run_chunk :: "timer_hook \<Rightarrow> nat \<Rightarrow> nat \<Rightarrow> timers \<Rightarrow> (nat \<times> timers) option" where
  "run_chunk hook 0 i s = Some (i, s)"
| "run_chunk hook (Suc n) i s =
     (if th_stop s then Some (i, s)
      else case ts_runchunk s ! i of
             None \<Rightarrow> run_chunk hook n (Suc i) s
           | Some t \<Rightarrow>
               case run_one_timer hook t (set_schedpos1 t 0 s) of
                 None \<Rightarrow> None
               | Some s \<Rightarrow> run_chunk hook n (Suc i) s)"

fun resched_chunk :: "nat \<Rightarrow> nat \<Rightarrow> timers \<Rightarrow> timers option" where
  "resched_chunk 0 i s = Some s"
| "resched_chunk (Suc n) i s =
     (case ts_runchunk s ! i of
        None \<Rightarrow> resched_chunk n (Suc i) s
      | Some t \<Rightarrow>
          case schedule_at_steady t (tm_expiry s t) (set_schedpos1 t 0 s) of
            None \<Rightarrow> None
          | Some s \<Rightarrow> resched_chunk n (Suc i) s)"

definition run_all_expired :: "timer_hook \<Rightarrow> timers \<Rightarrow> timers option" where
  "run_all_expired hook s =
     (case take_expired (length (ts_heap s)) s of
        None \<Rightarrow> None
      | Some s \<Rightarrow>
          case run_chunk hook (length (ts_runchunk s)) 0 (set_timer_expiry s) of
            None \<Rightarrow> None
          | Some (i, s) \<Rightarrow>
              map_option (\<lambda>s. s\<lparr>ts_runchunk := []\<rparr>) (resched_chunk (length (ts_runchunk s) - i) i s))"

definition run_timers :: "timer_hook \<Rightarrow> int \<Rightarrow> bool \<Rightarrow> bool \<Rightarrow> timers \<Rightarrow> timers option" where
  "run_timers hook now locked paused s =
     (if locked \<or> paused \<or> ts_heap s = [] \<or> th_stop s then Some s
      else let s = s\<lparr>ts_check := now\<rparr>
           in if fst (ts_heap s ! 0) \<le> ts_check s
              then (case run_some hook 64 (adjust_stride s) of
                      None \<Rightarrow> None
                    | Some (out, s) \<Rightarrow> if out \<and> \<not> th_stop s then run_all_expired hook s else Some s)
              else Some s)"

section \<open>The state of the timer set\<close>

text \<open>Everything but the order of the heap: the timers know their places, every timer with a
  place in the heap is there, with its expiry.\<close>

definition heap_frame :: "timers \<Rightarrow> bool" where
  "heap_frame s \<longleftrightarrow> distinct (map snd (ts_heap s)) \<and> placed snd (\<lambda>j. int j + 1) (length (ts_heap s)) (ts_heap s) (tm_schedpos1 s)
     \<and> (\<forall>t. 0 < tm_schedpos1 s t \<longrightarrow> t \<in> snd ` set (ts_heap s))
     \<and> (\<forall>x \<in> set (ts_heap s). tm_expiry s (snd x) = fst x \<and> tm_owner s (snd x) \<noteq> None)"

definition heap_ok :: "timers \<Rightarrow> bool" where
  "heap_ok s \<longleftrightarrow> is_heap 4 heap_less (length (ts_heap s)) (ts_heap s) \<and> heap_frame s"

text \<open>The places of the chunk before \<open>c\<close> have been visited.\<close>

definition chunk_ok :: "nat \<Rightarrow> timers \<Rightarrow> bool" where
  "chunk_ok c s \<longleftrightarrow>
     (\<forall>k t. c \<le> k \<and> k < length (ts_runchunk s) \<and> ts_runchunk s ! k = Some t \<longrightarrow>
        tm_schedpos1 s t = - int k - 1 \<and> tm_owner s t \<noteq> None \<and> tm_expiry s t \<le> ts_check s)
     \<and> (\<forall>t. tm_schedpos1 s t < 0 \<longrightarrow>
        c \<le> nat (- tm_schedpos1 s t - 1) \<and> nat (- tm_schedpos1 s t - 1) < length (ts_runchunk s) \<and> ts_runchunk s ! nat (- tm_schedpos1 s t - 1) = Some t)"

definition min_ok :: "timers \<Rightarrow> bool" where
  "min_ok s \<longleftrightarrow> ts_expiry s = (if ts_heap s = [] then 0 else fst (ts_heap s ! 0))"

definition timers_ok :: "nat \<Rightarrow> timers \<Rightarrow> bool" where
  "timers_ok c s \<longleftrightarrow> heap_ok s \<and> chunk_ok c s \<and> min_ok s"

text \<open>What an operation on timer \<open>t\<close> leaves as it was.\<close>

definition timers_frame :: "nat \<Rightarrow> timers \<Rightarrow> timers \<Rightarrow> bool" where
  "timers_frame t s s' \<longleftrightarrow> (\<forall>u. u \<noteq> t \<longrightarrow> sgn (tm_schedpos1 s' u) = sgn (tm_schedpos1 s u) \<and> tm_expiry s' u = tm_expiry s u)
     \<and> tm_owner s' = tm_owner s \<and> ts_check s' = ts_check s \<and> ts_ran s' = ts_ran s \<and> th_stop s' = th_stop s
     \<and> length (ts_runchunk s') = length (ts_runchunk s)"

lemma heap_ok_other [simp]:
  "heap_ok (s\<lparr>th_woken := b\<rparr>) = heap_ok s" "heap_ok (s\<lparr>th_stop := b\<rparr>) = heap_ok s" "heap_ok (s\<lparr>ts_ran := l\<rparr>) = heap_ok s"
  "heap_ok (s\<lparr>ts_stride := n\<rparr>) = heap_ok s" "heap_ok (s\<lparr>ts_max_stride := n\<rparr>) = heap_ok s" "heap_ok (s\<lparr>ts_count := n\<rparr>) = heap_ok s"
  "heap_ok (s\<lparr>ts_check_reports := n\<rparr>) = heap_ok s" "heap_ok (s\<lparr>ts_check := now\<rparr>) = heap_ok s" "heap_ok (s\<lparr>ts_runchunk := rc\<rparr>) = heap_ok s"
  "heap_ok (s\<lparr>ts_expiry := e\<rparr>) = heap_ok s"
  by (simp_all add: heap_ok_def heap_frame_def)

lemma timers_ok_other [simp]:
  "timers_ok c (s\<lparr>th_woken := b\<rparr>) = timers_ok c s" "timers_ok c (s\<lparr>th_stop := b\<rparr>) = timers_ok c s" "timers_ok c (s\<lparr>ts_ran := l\<rparr>) = timers_ok c s"
  "timers_ok c (s\<lparr>ts_stride := n\<rparr>) = timers_ok c s" "timers_ok c (s\<lparr>ts_max_stride := n\<rparr>) = timers_ok c s" "timers_ok c (s\<lparr>ts_count := n\<rparr>) = timers_ok c s"
  "timers_ok c (s\<lparr>ts_check_reports := n\<rparr>) = timers_ok c s"
  by (simp_all add: timers_ok_def chunk_ok_def min_ok_def)

lemma heap_less_key: "heap_less = (\<lambda>x y. fst x < fst y)"
  by (auto simp: heap_less_def fun_eq_iff)

interpretation by_expiry: heap_order heap_less
  unfolding heap_less_key by (rule keyed.heap_order_axioms)

lemma heap_frame_nth:
  "heap_frame s \<Longrightarrow> j < length (ts_heap s) \<Longrightarrow>
     tm_schedpos1 s (snd (ts_heap s ! j)) = int j + 1 \<and> tm_expiry s (snd (ts_heap s ! j)) = fst (ts_heap s ! j)"
  by (simp add: heap_frame_def placed_def)

lemma heap_frame_pos:
  assumes "heap_frame s" "0 < tm_schedpos1 s t"
  shows "nat (tm_schedpos1 s t - 1) < length (ts_heap s) \<and> ts_heap s ! nat (tm_schedpos1 s t - 1) = (tm_expiry s t, t)"
proof -
  obtain j where j: "j < length (ts_heap s)" "snd (ts_heap s ! j) = t"
    using assms by (fastforce simp: heap_frame_def in_set_conv_nth)
  then have "tm_schedpos1 s t = int j + 1" "tm_expiry s t = fst (ts_heap s ! j)" using heap_frame_nth [OF assms(1) j(1)] by simp_all
  then show ?thesis using j by (simp add: prod_eq_iff)
qed

lemma heap_frame_mem: "heap_frame s \<Longrightarrow> t \<in> snd ` set (ts_heap s) \<longleftrightarrow> 0 < tm_schedpos1 s t"
  using heap_frame_nth [of s] by (fastforce simp: heap_frame_def in_set_conv_nth)

lemma heap_ok_root: "heap_ok s \<Longrightarrow> x \<in> set (ts_heap s) \<Longrightarrow> fst (ts_heap s ! 0) \<le> fst x"
  using by_expiry.heap_root [of 4 "length (ts_heap s)" "ts_heap s"]
  by (auto simp: heap_ok_def in_set_conv_nth heap_less_def not_less)

lemma frame_of_heap: "heap_ok s \<Longrightarrow> heap_frame s"
  by (simp add: heap_ok_def)

lemma chunk_ok_pos: "chunk_ok c s \<Longrightarrow> tm_schedpos1 s t < 0 \<Longrightarrow> nat (- tm_schedpos1 s t - 1) < length (ts_runchunk s)"
  by (simp add: chunk_ok_def)

lemma chunk_ok_slot:
  "chunk_ok c s \<Longrightarrow> c \<le> k \<Longrightarrow> k < length (ts_runchunk s) \<Longrightarrow> ts_runchunk s ! k = Some t \<Longrightarrow>
     tm_schedpos1 s t = - int k - 1 \<and> tm_owner s t \<noteq> None \<and> tm_expiry s t \<le> ts_check s"
  by (simp add: chunk_ok_def)

lemma chunk_ok_place:
  "chunk_ok c s \<Longrightarrow> tm_schedpos1 s t < 0 \<Longrightarrow> c \<le> nat (- tm_schedpos1 s t - 1) \<and> nat (- tm_schedpos1 s t - 1) < length (ts_runchunk s)
     \<and> ts_runchunk s ! nat (- tm_schedpos1 s t - 1) = Some t"
  by (simp add: chunk_ok_def)

lemma nth_update_None: "k < length xs \<Longrightarrow> xs[j := None] ! k = Some u \<longleftrightarrow> k \<noteq> j \<and> xs ! k = Some u"
  by (cases "k = j") simp_all

text \<open>A timer leaves the chunk.\<close>

lemma chunk_ok_leave:
  assumes "chunk_ok c s" "ts_runchunk s' = (if tm_schedpos1 s t < 0 then (ts_runchunk s)[nat (- tm_schedpos1 s t - 1) := None] else ts_runchunk s)"
    "\<And>u. u \<noteq> t \<Longrightarrow> (tm_schedpos1 s u < 0 \<or> tm_schedpos1 s' u < 0 \<longrightarrow> tm_schedpos1 s' u = tm_schedpos1 s u) \<and> tm_expiry s' u = tm_expiry s u"
    "0 \<le> tm_schedpos1 s' t" "tm_owner s' = tm_owner s" "ts_check s' = ts_check s"
  shows "chunk_ok c s'"
  unfolding chunk_ok_def assms(5,6)
proof (intro conjI allI impI)
  let ?k = "nat (- tm_schedpos1 s t - 1)"
  fix k u assume k: "c \<le> k \<and> k < length (ts_runchunk s') \<and> ts_runchunk s' ! k = Some u"
  then have u: "ts_runchunk s ! k = Some u" "tm_schedpos1 s t < 0 \<longrightarrow> k \<noteq> ?k" "k < length (ts_runchunk s)"
    by (auto simp: assms(2) nth_update_None split: if_splits)
  then have v: "tm_schedpos1 s u = - int k - 1 \<and> tm_owner s u \<noteq> None \<and> tm_expiry s u \<le> ts_check s"
    using k by (intro chunk_ok_slot [OF assms(1)]) simp_all
  moreover have "u \<noteq> t" using v u(2) by auto
  ultimately show "tm_schedpos1 s' u = - int k - 1" "tm_owner s u \<noteq> None" "tm_expiry s' u \<le> ts_check s" using assms(3) [of u] by simp_all
next
  let ?k = "nat (- tm_schedpos1 s t - 1)"
  fix u assume u: "tm_schedpos1 s' u < 0"
  then have "u \<noteq> t" using assms(4) by auto
  then have ut: "u \<noteq> t" "tm_schedpos1 s' u = tm_schedpos1 s u" using assms(3) [of u] u by simp_all
  let ?j = "nat (- tm_schedpos1 s u - 1)"
  have j: "c \<le> ?j" "?j < length (ts_runchunk s)" "ts_runchunk s ! ?j = Some u" using chunk_ok_place [OF assms(1)] u ut(2) by simp_all
  moreover have "?j \<noteq> ?k" if "tm_schedpos1 s t < 0"
    using chunk_ok_place [OF assms(1) that] ut(1) j(3) by auto
  ultimately show "c \<le> nat (- tm_schedpos1 s' u - 1)" "nat (- tm_schedpos1 s' u - 1) < length (ts_runchunk s')"
    "ts_runchunk s' ! nat (- tm_schedpos1 s' u - 1) = Some u" unfolding ut(2) assms(2) by (simp_all add: nth_update_None)
qed

text \<open>The chunk depends on the negative positions only.\<close>

lemma chunk_ok_cong:
  assumes "chunk_ok c s" "\<And>t. tm_schedpos1 s t < 0 \<or> tm_schedpos1 s' t < 0 \<Longrightarrow> tm_schedpos1 s' t = tm_schedpos1 s t \<and> tm_expiry s' t = tm_expiry s t"
    "ts_runchunk s' = ts_runchunk s" "tm_owner s' = tm_owner s" "ts_check s' = ts_check s"
  shows "chunk_ok c s'"
  unfolding chunk_ok_def assms(3-5)
proof (intro conjI allI impI)
  fix k t assume k: "c \<le> k \<and> k < length (ts_runchunk s) \<and> ts_runchunk s ! k = Some t"
  then have "tm_schedpos1 s t = - int k - 1 \<and> tm_owner s t \<noteq> None \<and> tm_expiry s t \<le> ts_check s" by (intro chunk_ok_slot [OF assms(1)]) simp_all
  then show "tm_schedpos1 s' t = - int k - 1" "tm_owner s t \<noteq> None" "tm_expiry s' t \<le> ts_check s" using assms(2) [of t] by simp_all
next
  fix t assume "tm_schedpos1 s' t < 0"
  then have "tm_schedpos1 s' t = tm_schedpos1 s t" "tm_schedpos1 s t < 0" using assms(2) [of t] by simp_all
  then show "c \<le> nat (- tm_schedpos1 s' t - 1)" "nat (- tm_schedpos1 s' t - 1) < length (ts_runchunk s)"
    "ts_runchunk s ! nat (- tm_schedpos1 s' t - 1) = Some t" using chunk_ok_place [OF assms(1)] by simp_all
qed

lemma new_timer_set_ok: "timers_ok 0 (new_timer_set now)"
  by (simp add: timers_ok_def heap_ok_def heap_frame_def chunk_ok_def min_ok_def new_timer_set_def is_heap_def placed_def)

lemma set_expiry_ok: "heap_ok s \<Longrightarrow> chunk_ok c s \<Longrightarrow> timers_ok c (set_timer_expiry s)"
  by (simp add: timers_ok_def set_timer_expiry_def heap_ok_def heap_frame_def chunk_ok_def min_ok_def)

lemma heap_take_ok:
  assumes "heap_ok s" "i < length (ts_heap s)"
  defines "t \<equiv> snd (ts_heap s ! i)"
  shows "\<exists>h pos. heap_take i s = Some (s\<lparr>ts_heap := h, tm_schedpos1 := pos\<rparr>) \<and> mset (ts_heap s) = add_mset (ts_heap s ! i) (mset h)
    \<and> (\<forall>p \<le> 0. heap_ok (s\<lparr>ts_heap := h, tm_schedpos1 := pos(t := p)\<rparr>))
    \<and> (\<forall>u. u \<noteq> t \<longrightarrow> sgn (pos u) = sgn (tm_schedpos1 s u) \<and> (tm_schedpos1 s u \<le> 0 \<longrightarrow> pos u = tm_schedpos1 s u))"
proof -
  let ?h = "ts_heap s"
  have fr: "heap_frame s" by (rule frame_of_heap [OF assms(1)])
  then have d: "distinct (map snd ?h)" "placed snd (\<lambda>j. int j + 1) (length ?h) ?h (tm_schedpos1 s)" by (simp_all add: heap_frame_def)
  have "heap_but 4 heap_less (length ?h) ?h i"
    by (rule is_heap_but) (use assms(1,2) by_expiry.heap_order_axioms in \<open>simp_all add: heap_ok_def\<close>)
  then obtain h pos where r: "remove_heap 4 heap_less heap_place (length ?h) ?h i (tm_schedpos1 s) = Some (h @ [?h ! i], pos)"
      "is_heap 4 heap_less (length h) h" "mset ?h = add_mset (?h ! i) (mset h)" "placed snd (\<lambda>j. int j + 1) (length h) h pos"
      "\<forall>t. t \<notin> snd ` set ?h \<longrightarrow> pos t = tm_schedpos1 s t"
    using remove_heap_whole [of 4 fst ?h i snd "\<lambda>j. int j + 1" "tm_schedpos1 s"] assms(2) d unfolding heap_less_key heap_place_def by auto
  have st: "set ?h = insert (?h ! i) (set h)" using r(3) by (metis set_mset_mset set_mset_add_mset_insert)
  have "mset (map snd ?h) = add_mset t (mset (map snd h))" using r(3) by (simp add: t_def)
  then have d': "distinct (map snd h)" "t \<notin> snd ` set h"
    using d(1) by (metis distinct.simps(2) mset.simps(2) mset_eq_imp_distinct_iff list.set_map)+
  have off: "snd (h ! j) \<noteq> t" if "j < length h" for j using d'(2) nth_mem [OF that] by blast
  have mem: "pos u = tm_schedpos1 s u \<and> tm_schedpos1 s u \<le> 0 \<or> u \<in> snd ` set h \<and> 0 < pos u \<and> 0 < tm_schedpos1 s u" if "u \<noteq> t" for u
  proof (cases "u \<in> snd ` set h")
    case True
    then obtain j where "j < length h" "u = snd (h ! j)" by (auto simp: in_set_conv_nth)
    then have "0 < pos u" using r(4) by (simp add: placed_def)
    moreover have "0 < tm_schedpos1 s u" using True st heap_frame_mem [OF fr, of u] by auto
    ultimately show ?thesis using True by simp
  next
    case False
    then have "u \<notin> snd ` set ?h" using st that by (auto simp: t_def)
    then show ?thesis using r(5) heap_frame_mem [OF fr, of u] by simp
  qed
  have mem': "u \<in> snd ` set h" if "u \<noteq> t" "0 < pos u" for u using mem [OF that(1)] that(2) by auto
  have "heap_ok (s\<lparr>ts_heap := h, tm_schedpos1 := pos(t := p)\<rparr>)" if "p \<le> 0" for p
    unfolding heap_ok_def heap_frame_def using r(2,4) d'(1) off that mem' fr st by (auto simp: placed_def heap_frame_def)
  moreover have "\<forall>u. u \<noteq> t \<longrightarrow> sgn (pos u) = sgn (tm_schedpos1 s u) \<and> (tm_schedpos1 s u \<le> 0 \<longrightarrow> pos u = tm_schedpos1 s u)"
    using mem by fastforce
  ultimately show ?thesis using r(1,3) by (intro exI [of _ h] exI [of _ pos]) (simp add: heap_take_def)
qed

lemma heap_but_update: "2 \<le> a \<Longrightarrow> heap_but a lt n xs i \<Longrightarrow> heap_but a lt n (xs[i := v]) i"
proof -
  assume a: "2 \<le> a" "heap_but a lt n xs i"
  have p: "heap_parent a j \<noteq> j" if "0 < j" for j using heap_parent_less [OF a(1) that] by simp
  have "j \<noteq> i" if "0 < j" "heap_parent a j = i" for j using p [OF that(1)] that(2) by auto
  then have "xs[i := v] ! j = xs ! j" if "0 < j" "heap_parent a j = i" for j using that by (metis nth_list_update_neq)
  moreover have "xs[i := v] ! heap_parent a i = xs ! heap_parent a i" if "0 < i" using p [OF that] by simp
  ultimately show ?thesis using a(2) by (simp add: heap_but_def)
qed

lemma heap_but_snoc:
  assumes "2 \<le> a" "is_heap a lt (length xs) xs"
  shows "heap_but a lt (Suc (length xs)) (xs @ [x]) (length xs)"
proof -
  have p: "heap_parent a j < j" if "0 < j" for j by (rule heap_parent_less [OF assms(1) that])
  have "\<not> lt ((xs @ [x]) ! j) ((xs @ [x]) ! heap_parent a j)" if "0 < j" "j < length xs" for j
    using assms(2) p [OF that(1)] that by (simp add: is_heap_def nth_append)
  moreover have "heap_parent a j \<noteq> length xs" if "0 < j" "j < Suc (length xs)" for j using p [OF that(1)] that(2) by simp
  ultimately show ?thesis by (auto simp: heap_but_def less_Suc_eq)
qed

text \<open>The state between the two steps of \<open>schedule_at_steady\<close>.\<close>

definition entered :: "nat \<Rightarrow> nat \<Rightarrow> int \<Rightarrow> timers \<Rightarrow> timers \<Rightarrow> bool" where
  "entered c t e s s' \<longleftrightarrow> heap_frame s' \<and> chunk_ok c s' \<and> timers_frame t s s' \<and> 0 < tm_schedpos1 s' t \<and> tm_expiry s' t = e
     \<and> heap_but 4 heap_less (length (ts_heap s')) (ts_heap s') (nat (tm_schedpos1 s' t - 1)) \<and> ts_expiry s' = ts_expiry s
     \<and> (\<forall>x. snd x \<noteq> t \<longrightarrow> x \<in> set (ts_heap s') \<longleftrightarrow> x \<in> set (ts_heap s))"

lemma schedule_enter_in_heap:
  assumes "heap_ok s" "chunk_ok c s" "tm_owner s t \<noteq> None" "0 < tm_schedpos1 s t"
  shows "\<exists>s'. schedule_enter t (s\<lparr>tm_expiry := (tm_expiry s)(t := e)\<rparr>) = Some s' \<and> entered c t e s s'"
proof -
  let ?i = "nat (tm_schedpos1 s t - 1)" and ?h = "ts_heap s"
  let ?h' = "?h[?i := (e, t)]"
  let ?s = "s\<lparr>tm_expiry := (tm_expiry s)(t := e), ts_heap := ?h'\<rparr>"
  note fr = frame_of_heap [OF assms(1)]
  have p: "?i < length ?h" "?h ! ?i = (tm_expiry s t, t)" using heap_frame_pos [OF fr assms(4)] by simp_all
  have sn: "map snd ?h' = map snd ?h" using p by (simp add: map_update list_update_same_conv)
  then have sn': "snd ` set ?h' = snd ` set ?h" by (metis list.set_map)
  have nt: "snd (?h' ! j) = snd (?h ! j)" if "j < length ?h" for j using sn that by (metis length_list_update nth_map)
  have st: "x \<in> set ?h' \<longleftrightarrow> x = (e, t) \<or> x \<in> set ?h \<and> snd x \<noteq> t" for x
  proof -
    have "distinct ?h" using fr by (simp add: heap_frame_def distinct_map)
    then have "set ?h' = insert (e, t) (set ?h - {?h ! ?i})" using p(1) by (rule set_update_distinct)
    moreover have "y = ?h ! ?i \<longleftrightarrow> snd y = t" if "y \<in> set ?h" for y using fr that p(2) by (auto simp: heap_frame_def prod_eq_iff)
    ultimately show ?thesis by blast
  qed
  have "heap_but 4 heap_less (length ?h') ?h' ?i"
    using is_heap_but [of 4 heap_less "length ?h" ?h ?i] assms(1) p(1) by_expiry.heap_order_axioms by (simp add: heap_but_update heap_ok_def)
  moreover have "heap_frame ?s"
    using fr assms(3) sn sn' nt st by (auto simp: heap_frame_def placed_def)
  moreover have "chunk_ok c ?s" by (rule chunk_ok_cong [OF assms(2)]) (use assms(4) in auto)
  moreover have "timers_frame t s ?s" by (simp add: timers_frame_def)
  ultimately have "entered c t e s ?s" using assms(4) st by (simp add: entered_def)
  moreover have "schedule_enter t (s\<lparr>tm_expiry := (tm_expiry s)(t := e)\<rparr>) = Some ?s"
    using assms(4) p by (simp add: schedule_enter_def)
  ultimately show ?thesis by blast
qed

lemma schedule_enter_new:
  assumes "heap_ok s" "chunk_ok c s" "tm_owner s t \<noteq> None" "tm_schedpos1 s t \<le> 0"
  shows "\<exists>s'. schedule_enter t (s\<lparr>tm_expiry := (tm_expiry s)(t := e)\<rparr>) = Some s' \<and> entered c t e s s'"
proof -
  let ?h = "ts_heap s" and ?k = "nat (- tm_schedpos1 s t - 1)"
  let ?rc = "if tm_schedpos1 s t < 0 then (ts_runchunk s)[?k := None] else ts_runchunk s"
  let ?s = "s\<lparr>tm_expiry := (tm_expiry s)(t := e), ts_runchunk := ?rc, tm_schedpos1 := (tm_schedpos1 s)(t := int (length ?h) + 1), ts_heap := ?h @ [(e, t)]\<rparr>"
  note fr = frame_of_heap [OF assms(1)]
  have new: "t \<notin> snd ` set ?h" using heap_frame_mem [OF fr, of t] assms(4) by simp
  then have ot: "snd (?h ! j) \<noteq> t" if "j < length ?h" for j using that nth_mem [of j ?h] by blast
  have "heap_but 4 heap_less (length (?h @ [(e, t)])) (?h @ [(e, t)]) (length ?h)"
    using heap_but_snoc [of 4 heap_less ?h] assms(1) by (simp add: heap_ok_def)
  moreover have "heap_frame ?s"
    unfolding heap_frame_def using fr new ot assms(3) by (auto simp: heap_frame_def placed_def nth_append less_Suc_eq)
  moreover have "chunk_ok c ?s" by (rule chunk_ok_leave [OF assms(2), where t = t]) simp_all
  moreover have "timers_frame t s ?s" by (simp add: timers_frame_def)
  ultimately have "entered c t e s ?s" by (simp add: entered_def)
  moreover have "schedule_enter t (s\<lparr>tm_expiry := (tm_expiry s)(t := e)\<rparr>) = Some ?s"
    using assms(4) chunk_ok_pos [OF assms(2), of t] by (auto simp: schedule_enter_def Let_def)
  ultimately show ?thesis by blast
qed

lemma timers_frame_trans: "timers_frame t s s' \<Longrightarrow> timers_frame t s' s'' \<Longrightarrow> timers_frame t s s''"
  by (simp add: timers_frame_def)

text \<open>The new root of the heap, when the timer neither was nor is the root.\<close>

lemma entered_min:
  assumes "heap_ok s" "min_ok s" "entered c t e s s'" "set h = set (ts_heap s')" "is_heap 4 heap_less (length h) h"
    "tm_schedpos1 s t \<noteq> 1" "h \<noteq> []" "snd (h ! 0) \<noteq> t"
  shows "ts_expiry s' = fst (h ! 0)"
proof -
  have root: "fst (h ! 0) \<le> fst x" if "x \<in> set h" for x
    using by_expiry.heap_root [of 4 "length h" h] assms(5) that by (auto simp: in_set_conv_nth heap_less_def not_less)
  have other: "x \<in> set h \<longleftrightarrow> x \<in> set (ts_heap s)" if "snd x \<noteq> t" for x using assms(3,4) that unfolding entered_def by blast
  have h0: "h ! 0 \<in> set (ts_heap s)" using other [of "h ! 0"] assms(7,8) by simp
  then have ne: "ts_heap s \<noteq> []" by auto
  have "snd (ts_heap s ! 0) \<noteq> t" using heap_frame_nth [OF frame_of_heap [OF assms(1)], of 0] ne assms(6) by auto
  then have "ts_heap s ! 0 \<in> set h" using other [of "ts_heap s ! 0"] ne by simp
  then have "fst (h ! 0) = fst (ts_heap s ! 0)" using root heap_ok_root [OF assms(1) h0] by (simp add: antisym)
  then show ?thesis using assms(2,3) ne by (simp add: min_ok_def entered_def)
qed

lemma schedule_repair_ok:
  assumes "heap_ok s" "min_ok s" "entered c t e s s'"
  shows "\<exists>r. schedule_repair (tm_schedpos1 s t) t s' = Some r \<and> timers_ok c r \<and> timers_frame t s r \<and> 0 < tm_schedpos1 r t \<and> tm_expiry r t = e"
proof -
  let ?h = "ts_heap s'" and ?i = "nat (tm_schedpos1 s' t - 1)"
  have fr: "heap_frame s'" and e: "0 < tm_schedpos1 s' t" "tm_expiry s' t = e" "heap_but 4 heap_less (length ?h) ?h ?i" "chunk_ok c s'" "timers_frame t s s'"
    using assms(3) by (simp_all add: entered_def)
  have i: "?i < length ?h" "?h ! ?i = (tm_expiry s' t, t)" using heap_frame_pos [OF fr e(1)] by simp_all
  have d: "distinct (map snd ?h)" "placed snd (\<lambda>j. int j + 1) (length ?h) ?h (tm_schedpos1 s')" using fr by (simp_all add: heap_frame_def)
  obtain h k pos where c: "change_heap 4 heap_less heap_place (length ?h) ?h ?i (tm_schedpos1 s') = Some (h, k, pos)"
      "is_heap 4 heap_less (length h) h" "mset h = mset ?h" "k < length h" "h ! k = ?h ! ?i" "placed snd (\<lambda>j. int j + 1) (length h) h pos"
      "\<forall>t. t \<notin> snd ` set ?h \<longrightarrow> pos t = tm_schedpos1 s' t"
    using change_heap_whole [of 4 fst ?h ?i snd "\<lambda>j. int j + 1" "tm_schedpos1 s'"] i d e(3) unfolding heap_less_key heap_place_def by auto
  have st: "set h = set ?h" "distinct (map snd h)" using c(3) d(1) by (metis set_mset_mset, metis mset_eq_imp_distinct_iff mset_map)
  have sg: "0 < pos u \<and> 0 < tm_schedpos1 s' u \<and> u \<in> snd ` set ?h \<or> pos u = tm_schedpos1 s' u \<and> u \<notin> snd ` set ?h" for u
  proof (cases "u \<in> snd ` set ?h")
    case True
    then obtain j where "j < length h" "u = snd (h ! j)" unfolding st(1) [symmetric] by (auto simp: in_set_conv_nth)
    then show ?thesis using c(6) True heap_frame_mem [OF fr, of u] by (simp add: placed_def)
  next
    case False
    then show ?thesis using c(7) by simp
  qed
  let ?r = "s'\<lparr>ts_heap := h, tm_schedpos1 := pos\<rparr>"
  let ?first = "\<lambda>r. if tm_schedpos1 s t = 1 \<or> pos t = 1 then set_timer_expiry r else r"
    and ?woken = "\<lambda>r. if pos t = 1 then r\<lparr>th_woken := True\<rparr> else r"
  have t: "pos t = int k + 1" "0 < pos t" using c(4-6) i(2) by (auto simp: placed_def)
  have "u \<in> snd ` set ?h" if "0 < pos u" for u using sg [of u] that heap_frame_mem [OF fr, of u] by auto
  then have "heap_frame ?r" using fr st c(6) by (auto simp: heap_frame_def)
  then have hr: "heap_ok ?r" using c(2) by (simp add: heap_ok_def)
  have "pos u = tm_schedpos1 s' u" if "tm_schedpos1 s' u < 0 \<or> pos u < 0" for u using sg [of u] that by auto
  then have cr: "chunk_ok c ?r" by (intro chunk_ok_cong [OF e(4)]) simp_all
  have "sgn (pos u) = sgn (tm_schedpos1 s' u)" for u using sg [of u] by auto
  then have "timers_frame t s' ?r" by (simp add: timers_frame_def)
  then have tf: "timers_frame t s ?r" by (rule timers_frame_trans [OF e(5)])
  have "min_ok ?r" if "tm_schedpos1 s t \<noteq> 1" "pos t \<noteq> 1"
  proof -
    have "h \<noteq> []" using c(4) by auto
    moreover have "pos (snd (h ! 0)) = int 0 + 1" using c(6) \<open>h \<noteq> []\<close> unfolding placed_def by blast
    ultimately have "h \<noteq> []" "snd (h ! 0) \<noteq> t" using that(2) by auto
    then show ?thesis using entered_min [OF assms(1-3) st(1) c(2) that(1)] by (simp add: min_ok_def)
  qed
  then have "timers_ok c (?first ?r)"
    using set_expiry_ok [OF hr cr] hr cr by (simp add: timers_ok_def)
  then have "timers_ok c (?woken (?first ?r))" by (cases "pos t = 1"; cases "tm_schedpos1 s t = 1") simp_all
  moreover have "timers_frame t s (?woken (?first ?r))" using tf by (simp add: timers_frame_def set_timer_expiry_def)
  moreover have "tm_schedpos1 (?first ?r) t = pos t" by (simp add: set_timer_expiry_def)
  then have "schedule_repair (tm_schedpos1 s t) t s' = Some (?woken (?first ?r))" using c(1) by (simp add: schedule_repair_def Let_def)
  moreover have "0 < tm_schedpos1 (?woken (?first ?r)) t" "tm_expiry (?woken (?first ?r)) t = e"
    using t(2) e(2) by (simp_all add: set_timer_expiry_def)
  ultimately show ?thesis by blast
qed

definition effective :: "timers \<Rightarrow> int \<Rightarrow> int" where
  "effective s when =
     (let e = (if when \<noteq> 0 then when else 1)
      in if e div subsec_per_sec + behind_sec < ts_check s div subsec_per_sec then ts_check s else e)"

lemma check_timer_expiry_effective:
  "\<exists>n. check_timer_expiry t (s\<lparr>tm_expiry := (tm_expiry s)(t := if when \<noteq> 0 then when else 1)\<rparr>)
     = s\<lparr>ts_check_reports := n, tm_expiry := (tm_expiry s)(t := effective s when)\<rparr>"
  by (cases "ts_check_reports s > 0")
    (auto simp: check_timer_expiry_def effective_def Let_def intro: exI [of _ "ts_check_reports s"] exI [of _ "ts_check_reports s - 1"])

lemma schedule_at_steady_ok:
  assumes "timers_ok c s" "tm_owner s t \<noteq> None"
  shows "\<exists>r. schedule_at_steady t when s = Some r \<and> timers_ok c r \<and> timers_frame t s r \<and> 0 < tm_schedpos1 r t \<and> tm_expiry r t = effective s when"
proof -
  obtain n where n: "check_timer_expiry t (s\<lparr>tm_expiry := (tm_expiry s)(t := if when \<noteq> 0 then when else 1)\<rparr>)
     = s\<lparr>ts_check_reports := n, tm_expiry := (tm_expiry s)(t := effective s when)\<rparr>" using check_timer_expiry_effective by blast
  let ?s = "s\<lparr>ts_check_reports := n\<rparr>"
  have ok: "heap_ok ?s" "chunk_ok c ?s" "min_ok ?s" "tm_owner ?s t \<noteq> None" using assms by (simp_all add: timers_ok_def chunk_ok_def min_ok_def)
  obtain s' where s': "schedule_enter t (?s\<lparr>tm_expiry := (tm_expiry ?s)(t := effective s when)\<rparr>) = Some s'" "entered c t (effective s when) ?s s'"
    using schedule_enter_in_heap [OF ok(1,2,4)] schedule_enter_new [OF ok(1,2,4)] by (metis not_less)
  obtain r where r: "schedule_repair (tm_schedpos1 ?s t) t s' = Some r" "timers_ok c r" "timers_frame t ?s r" "0 < tm_schedpos1 r t"
      "tm_expiry r t = effective s when" using schedule_repair_ok [OF ok(1,3) s'(2)] by blast
  have "schedule_at_steady t when s = Some r" using assms(2) n s'(1) r(1) by (simp add: schedule_at_steady_def Let_def)
  moreover have "timers_frame t s r" using r(3) by (simp add: timers_frame_def)
  ultimately show ?thesis using r by blast
qed

lemma set_schedpos1_update: "set_schedpos1 t p (s\<lparr>ts_heap := h, tm_schedpos1 := pos\<rparr>) = s\<lparr>ts_heap := h, tm_schedpos1 := pos(t := p)\<rparr>"
  by (simp add: set_schedpos1_def)

text \<open>Taking a timer that is not the first leaves the earliest expiry.\<close>

lemma take_min:
  assumes "heap_ok s" "min_ok s" "0 < i" "i < length (ts_heap s)" "heap_ok s'" "mset (ts_heap s) = add_mset (ts_heap s ! i) (mset (ts_heap s'))"
    "ts_expiry s' = ts_expiry s"
  shows "min_ok s'"
proof -
  have st: "set (ts_heap s) = insert (ts_heap s ! i) (set (ts_heap s'))" using assms(6) by (metis set_mset_mset set_mset_add_mset_insert)
  have d: "distinct (ts_heap s)" using frame_of_heap [OF assms(1)] by (simp add: heap_frame_def distinct_map)
  then have "ts_heap s ! 0 \<noteq> ts_heap s ! i" using assms(3,4) nth_eq_iff_index_eq [OF d, of 0 i] by (metis less_trans less_irrefl)
  moreover have "ts_heap s ! 0 \<in> set (ts_heap s)" by (rule nth_mem) (use assms(3,4) in linarith)
  ultimately have z: "ts_heap s ! 0 \<in> set (ts_heap s')" using st by blast
  then have ne: "ts_heap s' \<noteq> []" by auto
  then have "fst (ts_heap s' ! 0) = fst (ts_heap s ! 0)"
    using heap_ok_root [OF assms(5) z] heap_ok_root [OF assms(1), of "ts_heap s' ! 0"] st by (simp add: antisym)
  moreover have "ts_heap s \<noteq> []" using assms(4) by auto
  ultimately show ?thesis using assms(2,7) ne by (simp add: min_ok_def)
qed

lemma unschedule_ok:
  assumes "timers_ok c s"
  shows "\<exists>r. unschedule t s = Some r \<and> timers_ok c r \<and> timers_frame t s r \<and> tm_schedpos1 r t = 0 \<and> tm_expiry r t = tm_expiry s t"
proof (cases "tm_schedpos1 s t" "0 :: int" rule: linorder_cases)
  case equal
  then show ?thesis using assms by (simp add: unschedule_def timers_frame_def)
next
  case less
  let ?k = "nat (- tm_schedpos1 s t - 1)"
  let ?r = "set_schedpos1 t 0 (s\<lparr>ts_runchunk := (ts_runchunk s)[?k := None]\<rparr>)"
  have ok: "heap_ok s" "chunk_ok c s" "min_ok s" using assms by (simp_all add: timers_ok_def)
  have "heap_ok ?r" using frame_of_heap [OF ok(1)] ok(1) less heap_frame_mem [OF frame_of_heap [OF ok(1)], of t]
    by (auto simp: heap_ok_def heap_frame_def set_schedpos1_def placed_def)
  moreover have "chunk_ok c ?r" by (rule chunk_ok_leave [OF ok(2), where t = t]) (use less in \<open>simp_all add: set_schedpos1_def\<close>)
  moreover have "min_ok ?r" using ok(3) by (simp add: min_ok_def set_schedpos1_def)
  moreover have "timers_frame t s ?r" by (simp add: timers_frame_def set_schedpos1_def)
  ultimately show ?thesis using less chunk_ok_pos [OF ok(2) less] by (simp add: unschedule_def timers_ok_def Let_def set_schedpos1_def)
next
  case greater
  let ?i = "nat (tm_schedpos1 s t - 1)"
  have ok: "heap_ok s" "chunk_ok c s" "min_ok s" using assms by (simp_all add: timers_ok_def)
  have i: "?i < length (ts_heap s)" "ts_heap s ! ?i = (tm_expiry s t, t)" using heap_frame_pos [OF frame_of_heap [OF ok(1)] greater] by simp_all
  obtain h pos where t: "heap_take ?i s = Some (s\<lparr>ts_heap := h, tm_schedpos1 := pos\<rparr>)" "mset (ts_heap s) = add_mset (ts_heap s ! ?i) (mset h)"
      "\<forall>p \<le> 0. heap_ok (s\<lparr>ts_heap := h, tm_schedpos1 := pos(t := p)\<rparr>)"
      "\<forall>u. u \<noteq> t \<longrightarrow> sgn (pos u) = sgn (tm_schedpos1 s u) \<and> (tm_schedpos1 s u \<le> 0 \<longrightarrow> pos u = tm_schedpos1 s u)"
    using heap_take_ok [OF ok(1) i(1)] i(2) by auto
  let ?r = "s\<lparr>ts_heap := h, tm_schedpos1 := pos(t := 0)\<rparr>"
  have hr: "heap_ok ?r" using t(3) by simp
  have "pos u = tm_schedpos1 s u" if "u \<noteq> t" "tm_schedpos1 s u < 0 \<or> pos u < 0" for u using t(4) that by (metis sgn_less order_less_imp_le)
  then have cr: "chunk_ok c ?r" by (intro chunk_ok_leave [OF ok(2), where t = t]) (use greater in simp_all)
  have "min_ok ?r" if "tm_schedpos1 s t \<noteq> 1"
    by (rule take_min [OF ok(1,3) _ i(1) hr]) (use that greater t(2) in simp_all)
  then have "timers_ok c (if tm_schedpos1 s t = 1 then set_timer_expiry ?r else ?r)"
    using set_expiry_ok [OF hr cr] hr cr by (simp add: timers_ok_def)
  moreover have "set_schedpos1 t 0 (if tm_schedpos1 s t = 1 then set_timer_expiry (s\<lparr>ts_heap := h, tm_schedpos1 := pos\<rparr>) else s\<lparr>ts_heap := h, tm_schedpos1 := pos\<rparr>)
      = (if tm_schedpos1 s t = 1 then set_timer_expiry ?r else ?r)" by (simp add: set_schedpos1_def set_timer_expiry_def)
  moreover have "timers_frame t s (if tm_schedpos1 s t = 1 then set_timer_expiry ?r else ?r)"
    using t(4) by (simp add: timers_frame_def set_timer_expiry_def)
  ultimately show ?thesis using greater t(1) by (simp add: unschedule_def Let_def set_timer_expiry_def)
qed

section \<open>Callbacks\<close>

lemma timers_ok_expiry: "timers_ok c s \<Longrightarrow> tm_schedpos1 s t = 0 \<Longrightarrow> timers_ok c (s\<lparr>tm_expiry := (tm_expiry s)(t := e)\<rparr>)"
  using heap_frame_mem [of s t] chunk_ok_slot [of c s _ t]
  by (auto simp: timers_ok_def heap_ok_def heap_frame_def chunk_ok_def min_ok_def)

lemma timer_clear_ok:
  assumes "timers_ok c s"
  shows "\<exists>r. timer_clear t s = Some r \<and> timers_ok c r \<and> timers_frame t s r \<and> tm_schedpos1 r t = 0"
proof -
  obtain r where "unschedule t s = Some r" "timers_ok c r" "timers_frame t s r" "tm_schedpos1 r t = 0" using unschedule_ok [OF assms] by blast
  then show ?thesis using timers_ok_expiry [of c r t 0] by (simp add: timer_clear_def timers_frame_def)
qed

fun call_targets :: "timer_call \<Rightarrow> nat set" where
  "call_targets (Schedule_at t when) = {t}"
| "call_targets (Unschedule t) = {t}"
| "call_targets (Clear t) = {t}"
| "call_targets Stop_thread = {}"

fun call_allowed :: "(nat \<Rightarrow> nat option) \<Rightarrow> timer_call \<Rightarrow> bool" where
  "call_allowed own (Schedule_at t when) = (own t \<noteq> None)"
| "call_allowed own call = True"

text \<open>A state after calls on the timers of \<open>U\<close>.\<close>

definition timers_step :: "nat set \<Rightarrow> timers \<Rightarrow> timers \<Rightarrow> bool" where
  "timers_step U s s' \<longleftrightarrow> (\<forall>u. u \<notin> U \<longrightarrow> sgn (tm_schedpos1 s' u) = sgn (tm_schedpos1 s u) \<and> tm_expiry s' u = tm_expiry s u)
     \<and> tm_owner s' = tm_owner s \<and> ts_check s' = ts_check s \<and> ts_ran s' = ts_ran s \<and> (th_stop s \<longrightarrow> th_stop s')
     \<and> length (ts_runchunk s') = length (ts_runchunk s)"

lemma frame_step: "timers_frame t s s' \<Longrightarrow> timers_step {t} s s'"
  by (simp add: timers_frame_def timers_step_def)

lemma timers_step_trans: "timers_step U s s' \<Longrightarrow> timers_step V s' s'' \<Longrightarrow> timers_step (U \<union> V) s s''"
  by (simp add: timers_step_def)

lemma timer_do_ok:
  assumes "timers_ok c s" "call_allowed (tm_owner s) call"
  shows "\<exists>r. timer_do call s = Some r \<and> timers_ok c r \<and> timers_step (call_targets call) s r"
proof (cases call)
  case (Schedule_at t e)
  then show ?thesis using schedule_at_steady_ok [OF assms(1), of t e] assms(2) frame_step by auto
next
  case (Unschedule t)
  then show ?thesis using unschedule_ok [OF assms(1), of t] frame_step by auto
next
  case (Clear t)
  then show ?thesis using timer_clear_ok [OF assms(1), of t] frame_step by auto
next
  case Stop_thread
  then show ?thesis using assms(1) by (simp add: timers_step_def)
qed

lemma timer_do_all_ok:
  assumes "timers_ok c s" "\<forall>call \<in> set calls. call_allowed (tm_owner s) call"
  shows "\<exists>r. timer_do_all calls s = Some r \<and> timers_ok c r \<and> timers_step (\<Union> (call_targets ` set calls)) s r"
  using assms
proof (induction calls arbitrary: s)
  case Nil
  then show ?case by (simp add: timers_step_def)
next
  case (Cons call calls)
  obtain s' where s': "timer_do call s = Some s'" "timers_ok c s'" "timers_step (call_targets call) s s'"
    using timer_do_ok [OF Cons.prems(1)] Cons.prems(2) by auto
  have "tm_owner s' = tm_owner s" using s'(3) by (simp add: timers_step_def)
  then obtain r where r: "timer_do_all calls s' = Some r" "timers_ok c r" "timers_step (\<Union> (call_targets ` set calls)) s' r"
    using Cons.IH [OF s'(2)] Cons.prems(2) by auto
  then show ?case using s'(1) timers_step_trans [OF s'(3) r(3)] by simp
qed

text \<open>A callback only schedules timers that have an owner, and leaves the other timers of \<open>T\<close> alone.\<close>

definition hook_ok :: "(nat \<Rightarrow> nat option) \<Rightarrow> nat set \<Rightarrow> timer_hook \<Rightarrow> bool" where
  "hook_ok own T hook \<longleftrightarrow> (\<forall>n t. \<forall>call \<in> set (hook n t). call_allowed own call \<and> call_targets call \<inter> T \<subseteq> {t})"

text \<open>The history of a run: the callbacks since \<open>base\<close> were due, and every timer of \<open>T\<close> has had
  its callback or satisfies \<open>P\<close>.\<close>

definition log_inv ::
  "(int \<Rightarrow> int \<Rightarrow> bool) \<Rightarrow> nat set \<Rightarrow> heap_element list \<Rightarrow> (nat \<Rightarrow> nat option) \<Rightarrow> int \<Rightarrow> timers \<Rightarrow> bool" where
  "log_inv P T base own now s \<longleftrightarrow> ts_check s = now \<and> tm_owner s = own \<and>
     (\<exists>new. ts_ran s = base @ new \<and> (\<forall>x \<in> set new. fst x \<le> now)
        \<and> (\<forall>t \<in> T. t \<in> snd ` set new \<or> P (sgn (tm_schedpos1 s t)) (tm_expiry s t)))"

lemma log_inv_step: "log_inv P T base own now s \<Longrightarrow> timers_step U s r \<Longrightarrow> U \<inter> T = {} \<Longrightarrow> log_inv P T base own now r"
  unfolding log_inv_def timers_step_def by (metis disjoint_iff)

lemma run_one_timer_ok:
  assumes "timers_ok c s" "log_inv P (T - {t}) base own now s" "hook_ok own T hook" "tm_expiry s t \<le> now"
  shows "\<exists>r. run_one_timer hook t s = Some r \<and> timers_ok c r \<and> log_inv P T base own now r \<and> (th_stop s \<longrightarrow> th_stop r)
    \<and> length (ts_runchunk r) = length (ts_runchunk s)"
proof -
  let ?s = "s\<lparr>ts_ran := ts_ran s @ [(tm_expiry s t, t)]\<rparr>" and ?calls = "hook (length (ts_ran s)) t"
  have own: "tm_owner s = own" using assms(2) by (simp add: log_inv_def)
  have "\<forall>call \<in> set ?calls. call_allowed (tm_owner ?s) call" using assms(3) own by (simp add: hook_ok_def)
  then obtain r where r: "timer_do_all ?calls ?s = Some r" "timers_ok c r" "timers_step (\<Union> (call_targets ` set ?calls)) ?s r"
    using timer_do_all_ok [of c ?s ?calls] assms(1) by auto
  have off: "u \<notin> \<Union> (call_targets ` set ?calls)" if "u \<in> T - {t}" for u using assms(3) that unfolding hook_ok_def by blast
  obtain new where new: "ts_ran s = base @ new" "\<forall>x \<in> set new. fst x \<le> now"
      "\<forall>u \<in> T - {t}. u \<in> snd ` set new \<or> P (sgn (tm_schedpos1 s u)) (tm_expiry s u)"
    using assms(2) by (auto simp: log_inv_def)
  have "ts_ran r = base @ (new @ [(tm_expiry s t, t)])" "ts_check r = now" "tm_owner r = own"
    using r(3) new(1) assms(2) by (simp_all add: timers_step_def log_inv_def)
  moreover have "u \<in> snd ` set (new @ [(tm_expiry s t, t)]) \<or> P (sgn (tm_schedpos1 r u)) (tm_expiry r u)" if "u \<in> T" for u
  proof (cases "u = t")
    case False
    then have "u \<in> T - {t}" using that by simp
    then show ?thesis using new(3) off [of u] r(3) by (auto simp: timers_step_def)
  qed simp
  moreover have "\<forall>x \<in> set (new @ [(tm_expiry s t, t)]). fst x \<le> now" using new(2) assms(4) by simp
  ultimately have "log_inv P T base own now r" unfolding log_inv_def by blast
  moreover have "run_one_timer hook t s = Some r" using r(1) by (simp add: run_one_timer_def)
  ultimately show ?thesis using r(2,3) by (simp add: timers_step_def)
qed

section \<open>The loops of run\_timers\<close>

lemma log_inv_mono:
  assumes "log_inv P T base own now s" "ts_ran r = ts_ran s" "tm_owner r = tm_owner s" "ts_check r = ts_check s" "T' \<subseteq> T"
    "\<And>u. u \<in> T' \<Longrightarrow> P (sgn (tm_schedpos1 s u)) (tm_expiry s u) \<Longrightarrow> Q (sgn (tm_schedpos1 r u)) (tm_expiry r u)"
  shows "log_inv Q T' base own now r"
  using assms unfolding log_inv_def by (metis subsetD)

lemma heap_ok_pos: "heap_ok s \<Longrightarrow> tm_schedpos1 s t \<le> 0 \<Longrightarrow> p \<le> 0 \<Longrightarrow> heap_ok (set_schedpos1 t p s)"
  using heap_frame_mem [of s t] by (auto simp: heap_ok_def heap_frame_def set_schedpos1_def placed_def)

lemma chunk_ok_skip: "chunk_ok i s \<Longrightarrow> ts_runchunk s ! i = None \<Longrightarrow> chunk_ok (Suc i) s"
  unfolding chunk_ok_def by (metis Suc_leD Suc_leI le_neq_implies_less option.distinct(1))

lemma chunk_ok_visit:
  assumes "chunk_ok i s" "i < length (ts_runchunk s)" "ts_runchunk s ! i = Some t"
  shows "chunk_ok (Suc i) (set_schedpos1 t 0 s)"
  unfolding chunk_ok_def
proof (intro conjI allI impI)
  have t: "tm_schedpos1 s t = - int i - 1" using chunk_ok_slot [OF assms(1) _ assms(2,3)] by simp
  fix k u assume k: "Suc i \<le> k \<and> k < length (ts_runchunk (set_schedpos1 t 0 s)) \<and> ts_runchunk (set_schedpos1 t 0 s) ! k = Some u"
  then have u: "tm_schedpos1 s u = - int k - 1 \<and> tm_owner s u \<noteq> None \<and> tm_expiry s u \<le> ts_check s"
    by (intro chunk_ok_slot [OF assms(1)]) (simp_all add: set_schedpos1_def)
  moreover have "u \<noteq> t" using u t k by auto
  ultimately show "tm_schedpos1 (set_schedpos1 t 0 s) u = - int k - 1" "tm_owner (set_schedpos1 t 0 s) u \<noteq> None"
    "tm_expiry (set_schedpos1 t 0 s) u \<le> ts_check (set_schedpos1 t 0 s)" by (simp_all add: set_schedpos1_def)
next
  fix u assume u: "tm_schedpos1 (set_schedpos1 t 0 s) u < 0"
  then have "u \<noteq> t" by (auto simp: set_schedpos1_def)
  moreover have "tm_schedpos1 s u < 0" using u \<open>u \<noteq> t\<close> by (simp add: set_schedpos1_def)
  note p = chunk_ok_place [OF assms(1) this]
  ultimately have "nat (- tm_schedpos1 s u - 1) \<noteq> i" using assms(3) by auto
  then show "Suc i \<le> nat (- tm_schedpos1 (set_schedpos1 t 0 s) u - 1)" "nat (- tm_schedpos1 (set_schedpos1 t 0 s) u - 1) < length (ts_runchunk (set_schedpos1 t 0 s))"
    "ts_runchunk (set_schedpos1 t 0 s) ! nat (- tm_schedpos1 (set_schedpos1 t 0 s) u - 1) = Some u"
    using p \<open>u \<noteq> t\<close> by (simp_all add: set_schedpos1_def)
qed

text \<open>The first timer of the heap, taken out and given the position \<open>p\<close>.\<close>

lemma take_root:
  assumes "heap_ok s" "root_expired s"
  defines "t \<equiv> snd (ts_heap s ! 0)"
  shows "\<exists>s'. heap_take 0 s = Some s' \<and> length (ts_heap s) = Suc (length (ts_heap s')) \<and> (\<forall>p \<le> 0. heap_ok (set_schedpos1 t p s'))
    \<and> (\<forall>u. u \<noteq> t \<longrightarrow> sgn (tm_schedpos1 s' u) = sgn (tm_schedpos1 s u) \<and> (tm_schedpos1 s u \<le> 0 \<longrightarrow> tm_schedpos1 s' u = tm_schedpos1 s u))
    \<and> tm_expiry s' = tm_expiry s \<and> tm_owner s' = tm_owner s \<and> ts_check s' = ts_check s \<and> ts_ran s' = ts_ran s \<and> th_stop s' = th_stop s
    \<and> ts_runchunk s' = ts_runchunk s \<and> 0 < tm_schedpos1 s t \<and> tm_expiry s t = fst (ts_heap s ! 0) \<and> tm_owner s t \<noteq> None \<and> tm_expiry s t \<le> ts_check s"
proof -
  have ne: "0 < length (ts_heap s)" using assms(2) by (simp add: root_expired_def)
  obtain h pos where h: "heap_take 0 s = Some (s\<lparr>ts_heap := h, tm_schedpos1 := pos\<rparr>)" "mset (ts_heap s) = add_mset (ts_heap s ! 0) (mset h)"
      "\<forall>p \<le> 0. heap_ok (s\<lparr>ts_heap := h, tm_schedpos1 := pos(t := p)\<rparr>)"
      "\<forall>u. u \<noteq> t \<longrightarrow> sgn (pos u) = sgn (tm_schedpos1 s u) \<and> (tm_schedpos1 s u \<le> 0 \<longrightarrow> pos u = tm_schedpos1 s u)"
    using heap_take_ok [OF assms(1) ne] by (auto simp: t_def)
  have "length (ts_heap s) = Suc (length h)" using h(2) by (metis size_mset size_add_mset)
  moreover have "tm_owner s t \<noteq> None"
    using frame_of_heap [OF assms(1)] nth_mem [OF ne] by (auto simp: heap_frame_def t_def)
  moreover have "tm_schedpos1 s t = 1" "tm_expiry s t = fst (ts_heap s ! 0)"
    using heap_frame_nth [OF frame_of_heap [OF assms(1)] ne] by (simp_all add: t_def)
  ultimately show ?thesis using h assms(2) by (simp add: set_schedpos1_update root_expired_def)
qed

lemma set_schedpos1_expiry: "set_schedpos1 t p (set_timer_expiry s) = set_timer_expiry (set_schedpos1 t p s)"
  by (cases s) (simp add: set_schedpos1_def set_timer_expiry_def)

text \<open>With an empty chunk there are no negative positions.\<close>

lemma chunk_ok_empty: "ts_runchunk s = [] \<Longrightarrow> chunk_ok 0 s \<longleftrightarrow> (\<forall>t. 0 \<le> tm_schedpos1 s t)"
  by (auto simp: chunk_ok_def not_less)

lemma run_first_ok:
  assumes "timers_ok 0 s" "ts_runchunk s = []" "root_expired s" "log_inv P T base own now s" "hook_ok own T hook"
  shows "\<exists>r. run_first hook s = Some r \<and> timers_ok 0 r \<and> ts_runchunk r = [] \<and> log_inv P T base own now r \<and> (th_stop s \<longrightarrow> th_stop r)"
proof -
  let ?t = "snd (ts_heap s ! 0)"
  have hs: "heap_ok s" "chunk_ok 0 s" using assms(1) by (simp_all add: timers_ok_def)
  obtain s' where s': "heap_take 0 s = Some s'" "heap_ok (set_schedpos1 ?t 0 s')" "tm_expiry s ?t = fst (ts_heap s ! 0)" "tm_expiry s ?t \<le> ts_check s"
      "\<forall>u. u \<noteq> ?t \<longrightarrow> sgn (tm_schedpos1 s' u) = sgn (tm_schedpos1 s u)" "\<forall>u. u \<noteq> ?t \<longrightarrow> tm_schedpos1 s u \<le> 0 \<longrightarrow> tm_schedpos1 s' u = tm_schedpos1 s u"
      "tm_expiry s' = tm_expiry s" "tm_owner s' = tm_owner s" "ts_check s' = ts_check s" "ts_ran s' = ts_ran s" "th_stop s' = th_stop s" "ts_runchunk s' = []"
    using take_root [OF hs(1) assms(3)] assms(2) by auto
  let ?s = "set_schedpos1 ?t 0 (set_timer_expiry s')"
  have "0 \<le> tm_schedpos1 s' u" if "u \<noteq> ?t" for u
    using s'(5) that chunk_ok_empty [OF assms(2)] hs(2) by (metis sgn_less not_less)
  then have "chunk_ok 0 (set_schedpos1 ?t 0 s')" by (subst chunk_ok_empty) (simp_all add: set_schedpos1_def s'(12))
  then have "timers_ok 0 (set_timer_expiry (set_schedpos1 ?t 0 s'))" by (rule set_expiry_ok [OF s'(2)])
  then have ok: "timers_ok 0 ?s" by (simp add: set_schedpos1_expiry)
  have "log_inv P (T - {?t}) base own now ?s"
    by (rule log_inv_mono [OF assms(4)]) (use s'(5,7-10) in \<open>auto simp: set_schedpos1_def set_timer_expiry_def\<close>)
  moreover have "tm_expiry ?s ?t \<le> now" using s'(4,7) assms(4) by (simp add: log_inv_def set_schedpos1_def set_timer_expiry_def)
  ultimately obtain r where "run_one_timer hook ?t ?s = Some r" "timers_ok 0 r" "log_inv P T base own now r" "th_stop ?s \<longrightarrow> th_stop r"
      "length (ts_runchunk r) = length (ts_runchunk ?s)"
    using run_one_timer_ok [OF ok _ assms(5)] by blast
  then show ?thesis using s'(1,3,11,12) by (auto simp: run_first_def set_schedpos1_def set_timer_expiry_def split: prod.split)
qed

lemma run_some_ok:
  assumes "timers_ok 0 s" "ts_runchunk s = []" "root_expired s" "log_inv P T base own now s" "hook_ok own T hook"
  shows "\<exists>out r. run_some hook m s = Some (out, r) \<and> timers_ok 0 r \<and> ts_runchunk r = [] \<and> log_inv P T base own now r
    \<and> (out \<longrightarrow> root_expired r) \<and> (\<not> out \<longrightarrow> th_stop r \<or> \<not> root_expired r)"
  using assms(1-4)
proof (induction m arbitrary: s)
  case 0
  obtain s' where s': "run_first hook s = Some s'" "timers_ok 0 s'" "ts_runchunk s' = []" "log_inv P T base own now s'"
    using run_first_ok [OF 0 assms(5)] by blast
  let ?out = "ts_heap s' \<noteq> [] \<and> \<not> th_stop s' \<and> root_expired s'"
  have "run_some hook 0 s = Some (?out, s')" using s'(1) by auto
  then show ?case using s' by (intro exI [of _ ?out] exI [of _ s']) (auto simp: root_expired_def)
next
  case (Suc m)
  obtain s' where s': "run_first hook s = Some s'" "timers_ok 0 s'" "ts_runchunk s' = []" "log_inv P T base own now s'"
    using run_first_ok [OF Suc.prems assms(5)] by blast
  show ?case
  proof (cases "ts_heap s' \<noteq> [] \<and> \<not> th_stop s' \<and> root_expired s'")
    case True
    then show ?thesis using Suc.IH [OF s'(2,3) _ s'(4)] s'(1) by simp
  next
    case False
    then have "run_some hook (Suc m) s = Some (False, s')" using s'(1) by auto
    then show ?thesis using s' False by (auto simp: root_expired_def)
  qed
qed

lemma chunk_ok_push:
  assumes "chunk_ok 0 s" "tm_owner s t \<noteq> None" "tm_expiry s t \<le> ts_check s" "0 \<le> tm_schedpos1 s t"
    "\<And>u. u \<noteq> t \<Longrightarrow> tm_schedpos1 s u < 0 \<or> tm_schedpos1 s' u < 0 \<Longrightarrow> tm_schedpos1 s' u = tm_schedpos1 s u"
    "tm_schedpos1 s' t = - int (length (ts_runchunk s)) - 1" "ts_runchunk s' = ts_runchunk s @ [Some t]"
    "tm_expiry s' = tm_expiry s" "tm_owner s' = tm_owner s" "ts_check s' = ts_check s"
  shows "chunk_ok 0 s'"
  unfolding chunk_ok_def assms(7-10)
proof (intro conjI allI impI)
  let ?n = "length (ts_runchunk s)"
  fix k u assume k: "0 \<le> k \<and> k < length (ts_runchunk s @ [Some t]) \<and> (ts_runchunk s @ [Some t]) ! k = Some u"
  have old: "tm_schedpos1 s' u = - int k - 1 \<and> tm_owner s u \<noteq> None \<and> tm_expiry s u \<le> ts_check s" if "k < ?n"
  proof -
    have u: "tm_schedpos1 s u = - int k - 1 \<and> tm_owner s u \<noteq> None \<and> tm_expiry s u \<le> ts_check s"
      by (rule chunk_ok_slot [OF assms(1)]) (use k that in \<open>simp_all add: nth_append\<close>)
    moreover have "u \<noteq> t" using u assms(4) by auto
    ultimately show ?thesis using assms(5) [of u] by simp
  qed
  then show "tm_schedpos1 s' u = - int k - 1" "tm_owner s u \<noteq> None" "tm_expiry s u \<le> ts_check s"
    using k assms(2,3,6) by (cases "k = ?n"; auto simp: nth_append)+
next
  fix u assume u: "tm_schedpos1 s' u < 0"
  let ?j = "nat (- tm_schedpos1 s' u - 1)"
  have "?j < length (ts_runchunk s) \<and> ts_runchunk s ! ?j = Some u" if "u \<noteq> t"
    using chunk_ok_place [OF assms(1), of u] assms(5) [OF that] u by simp
  then show "0 \<le> ?j" "?j < length (ts_runchunk s @ [Some t])" "(ts_runchunk s @ [Some t]) ! ?j = Some u"
    using assms(6) by (cases "u = t"; auto simp: nth_append)+
qed

lemma take_expired_ok:
  assumes "heap_ok s" "chunk_ok 0 s" "root_expired s" "log_inv (\<lambda>p e. p \<noteq> 0 \<and> e \<le> now) T base own now s" "length (ts_heap s) = n"
  shows "\<exists>r. take_expired n s = Some r \<and> heap_ok r \<and> chunk_ok 0 r \<and> \<not> root_expired r \<and> log_inv (\<lambda>p e. p \<noteq> 0 \<and> e \<le> now) T base own now r \<and> th_stop r = th_stop s"
  using assms
proof (induction n arbitrary: s)
  case 0
  then show ?case by (simp add: root_expired_def)
next
  case (Suc n)
  let ?t = "snd (ts_heap s ! 0)"
  obtain s' where s': "heap_take 0 s = Some s'" "length (ts_heap s) = Suc (length (ts_heap s'))" "\<forall>p \<le> 0. heap_ok (set_schedpos1 ?t p s')"
      "\<forall>u. u \<noteq> ?t \<longrightarrow> sgn (tm_schedpos1 s' u) = sgn (tm_schedpos1 s u)" "\<forall>u. u \<noteq> ?t \<longrightarrow> tm_schedpos1 s u \<le> 0 \<longrightarrow> tm_schedpos1 s' u = tm_schedpos1 s u"
      "tm_expiry s' = tm_expiry s" "tm_owner s' = tm_owner s" "ts_check s' = ts_check s" "ts_ran s' = ts_ran s" "th_stop s' = th_stop s" "ts_runchunk s' = ts_runchunk s"
      "0 < tm_schedpos1 s ?t" "tm_owner s ?t \<noteq> None" "tm_expiry s ?t \<le> ts_check s"
    using take_root [OF Suc.prems(1,3)] by blast
  let ?s1 = "set_schedpos1 ?t (- int (length (ts_runchunk s')) - 1) s'"
  let ?s = "?s1\<lparr>ts_runchunk := ts_runchunk ?s1 @ [Some ?t]\<rparr>"
  have h: "heap_ok ?s" using s'(3) by simp
  have neg: "tm_schedpos1 s' u = tm_schedpos1 s u" if "u \<noteq> ?t" "tm_schedpos1 s u < 0 \<or> tm_schedpos1 s' u < 0" for u
    using s'(4,5) that by (metis sgn_less order_less_imp_le)
  have c: "chunk_ok 0 ?s"
    by (rule chunk_ok_push [OF Suc.prems(2) s'(13,14)]) (use s'(12) neg in \<open>simp_all add: set_schedpos1_def s'(6-11)\<close>)
  have l: "log_inv (\<lambda>p e. p \<noteq> 0 \<and> e \<le> now) T base own now ?s"
  proof (rule log_inv_mono [OF Suc.prems(4)])
    fix u assume "sgn (tm_schedpos1 s u) \<noteq> 0 \<and> tm_expiry s u \<le> now"
    then show "sgn (tm_schedpos1 ?s u) \<noteq> 0 \<and> tm_expiry ?s u \<le> now"
      using s'(4,6) by (cases "u = ?t") (auto simp: set_schedpos1_def)
  qed (use s'(7-9) in \<open>simp_all add: set_schedpos1_def\<close>)
  have n: "length (ts_heap ?s) = n" using s'(2) Suc.prems(5) by (simp add: set_schedpos1_def)
  have st: "th_stop ?s = th_stop s" using s'(10) by (simp add: set_schedpos1_def)
  show ?case
  proof (cases "root_expired ?s")
    case True
    then show ?thesis using Suc.IH [OF h c True l n] s'(1) st by (simp add: Let_def)
  next
    case False
    then show ?thesis using h c l s'(1) st by (simp add: Let_def)
  qed
qed

lemma run_chunk_ok:
  assumes "timers_ok i s" "i + n = length (ts_runchunk s)" "log_inv P T base own now s" "hook_ok own T hook"
  shows "\<exists>j r. run_chunk hook n i s = Some (j, r) \<and> timers_ok j r \<and> j \<le> length (ts_runchunk r) \<and> log_inv P T base own now r
    \<and> (\<not> th_stop r \<longrightarrow> j = length (ts_runchunk r))"
  using assms(1-3)
proof (induction n arbitrary: i s)
  case 0
  then show ?case by simp
next
  case (Suc n)
  have ok: "heap_ok s" "chunk_ok i s" "min_ok s" using Suc.prems(1) by (simp_all add: timers_ok_def)
  show ?case
  proof (cases "th_stop s")
    case True
    then show ?thesis using Suc.prems by simp
  next
    case run: False
    show ?thesis
    proof (cases "ts_runchunk s ! i")
      case None
      have "timers_ok (Suc i) s" using ok chunk_ok_skip [OF ok(2) None] by (simp add: timers_ok_def)
      then show ?thesis using Suc.IH [of "Suc i" s] Suc.prems(2,3) None run by simp
    next
      case (Some t)
      let ?s = "set_schedpos1 t 0 s"
      have i: "i < length (ts_runchunk s)" using Suc.prems(2) by simp
      have t: "tm_schedpos1 s t \<le> 0" "tm_expiry s t \<le> now" using chunk_ok_slot [OF ok(2) _ i Some] Suc.prems(3) by (simp_all add: log_inv_def)
      have "timers_ok (Suc i) ?s" using heap_ok_pos [OF ok(1) t(1)] chunk_ok_visit [OF ok(2) i Some] ok(3)
        by (simp add: timers_ok_def min_ok_def set_schedpos1_def)
      moreover have "log_inv P (T - {t}) base own now ?s" by (rule log_inv_mono [OF Suc.prems(3)]) (auto simp: set_schedpos1_def)
      ultimately obtain r where "run_one_timer hook t ?s = Some r" "timers_ok (Suc i) r" "log_inv P T base own now r" "length (ts_runchunk r) = length (ts_runchunk s)"
        using run_one_timer_ok [OF _ _ assms(4), of "Suc i" ?s P t base now] t(2) by (auto simp: set_schedpos1_def)
      then show ?thesis using Suc.IH [of "Suc i" r] Suc.prems(2) Some run by simp
    qed
  qed
qed

lemma resched_chunk_ok:
  assumes "timers_ok i s" "i + n = length (ts_runchunk s)" "log_inv (\<lambda>p e. p \<noteq> 0) T base own now s"
  shows "\<exists>r. resched_chunk n i s = Some r \<and> timers_ok (length (ts_runchunk r)) r \<and> log_inv (\<lambda>p e. p \<noteq> 0) T base own now r \<and> th_stop r = th_stop s"
  using assms
proof (induction n arbitrary: i s)
  case 0
  then show ?case by simp
next
  case (Suc n)
  have ok: "heap_ok s" "chunk_ok i s" "min_ok s" using Suc.prems(1) by (simp_all add: timers_ok_def)
  show ?case
  proof (cases "ts_runchunk s ! i")
    case None
    have "timers_ok (Suc i) s" using ok chunk_ok_skip [OF ok(2) None] by (simp add: timers_ok_def)
    then show ?thesis using Suc.IH [of "Suc i" s] Suc.prems(2,3) None by simp
  next
    case (Some t)
    let ?s = "set_schedpos1 t 0 s"
    have i: "i < length (ts_runchunk s)" using Suc.prems(2) by simp
    have t: "tm_schedpos1 s t \<le> 0" "tm_owner s t \<noteq> None" using chunk_ok_slot [OF ok(2) _ i Some] by simp_all
    have "timers_ok (Suc i) ?s" using heap_ok_pos [OF ok(1) t(1)] chunk_ok_visit [OF ok(2) i Some] ok(3)
      by (simp add: timers_ok_def min_ok_def set_schedpos1_def)
    then obtain r where r: "schedule_at_steady t (tm_expiry s t) ?s = Some r" "timers_ok (Suc i) r" "timers_frame t ?s r" "0 < tm_schedpos1 r t"
      using schedule_at_steady_ok [of "Suc i" ?s t "tm_expiry s t"] t(2) by (auto simp: set_schedpos1_def)
    have "log_inv (\<lambda>p e. p \<noteq> 0) T base own now r"
    proof (rule log_inv_mono [OF Suc.prems(3)])
      fix u assume "sgn (tm_schedpos1 s u) \<noteq> 0"
      then show "sgn (tm_schedpos1 r u) \<noteq> 0" using r(3,4) by (cases "u = t") (auto simp: timers_frame_def set_schedpos1_def)
    qed (use r(3) in \<open>simp_all add: timers_frame_def set_schedpos1_def\<close>)
    moreover have "length (ts_runchunk r) = length (ts_runchunk s)" "th_stop r = th_stop s" using r(3) by (simp_all add: timers_frame_def set_schedpos1_def)
    ultimately show ?thesis using Suc.IH [of "Suc i" r] Suc.prems(2) Some r(1,2) by simp
  qed
qed

text \<open>Timers that are due are not behind the root of the heap.\<close>

lemma not_due_in_heap:
  assumes "heap_ok s" "\<not> root_expired s" "0 < tm_schedpos1 s t"
  shows "ts_check s < tm_expiry s t"
proof -
  have "ts_heap s ! nat (tm_schedpos1 s t - 1) \<in> set (ts_heap s)" "fst (ts_heap s ! nat (tm_schedpos1 s t - 1)) = tm_expiry s t"
    using heap_frame_pos [OF frame_of_heap [OF assms(1)] assms(3)] nth_mem [of "nat (tm_schedpos1 s t - 1)" "ts_heap s"] by simp_all
  then show ?thesis using heap_ok_root [OF assms(1)] assms(2) by (fastforce simp: root_expired_def)
qed

lemma run_all_expired_ok:
  assumes "heap_ok s" "ts_runchunk s = []" "chunk_ok 0 s" "root_expired s" "log_inv (\<lambda>p e. p \<noteq> 0 \<and> e \<le> now) T base own now s" "hook_ok own T hook"
  shows "\<exists>r. run_all_expired hook s = Some r \<and> timers_ok 0 r \<and> ts_runchunk r = [] \<and> log_inv (\<lambda>p e. p \<noteq> 0) T base own now r
    \<and> (\<not> th_stop r \<longrightarrow> log_inv (\<lambda>p e. False) T base own now r)"
proof -
  obtain a where a: "take_expired (length (ts_heap s)) s = Some a" "heap_ok a" "chunk_ok 0 a" "\<not> root_expired a"
      "log_inv (\<lambda>p e. p \<noteq> 0 \<and> e \<le> now) T base own now a"
    using take_expired_ok [OF assms(1,3,4,5) refl] by blast
  have "sgn (tm_schedpos1 a u) = - 1" if "sgn (tm_schedpos1 a u) \<noteq> 0 \<and> tm_expiry a u \<le> now" for u
    using not_due_in_heap [OF a(2,4), of u] that a(5) by (auto simp: log_inv_def sgn_if)
  then have "log_inv (\<lambda>p e. p = - 1) T base own now (set_timer_expiry a)"
    by (intro log_inv_mono [OF a(5)]) (simp_all add: set_timer_expiry_def)
  moreover have "0 + length (ts_runchunk a) = length (ts_runchunk (set_timer_expiry a))" by (simp add: set_timer_expiry_def)
  ultimately obtain j b where b: "run_chunk hook (length (ts_runchunk a)) 0 (set_timer_expiry a) = Some (j, b)" "timers_ok j b" "j \<le> length (ts_runchunk b)"
      "log_inv (\<lambda>p e. p = - 1) T base own now b" "\<not> th_stop b \<longrightarrow> j = length (ts_runchunk b)"
    using run_chunk_ok [OF set_expiry_ok [OF a(2,3)] _ _ assms(6)] by blast
  have "log_inv (\<lambda>p e. p \<noteq> 0) T base own now b" by (rule log_inv_mono [OF b(4)]) simp_all
  then obtain d where d: "resched_chunk (length (ts_runchunk b) - j) j b = Some d" "timers_ok (length (ts_runchunk d)) d"
      "log_inv (\<lambda>p e. p \<noteq> 0) T base own now d" "th_stop d = th_stop b"
    using resched_chunk_ok [OF b(2), of "length (ts_runchunk b) - j" T base own now] b(3) by auto
  let ?r = "d\<lparr>ts_runchunk := []\<rparr>"
  have pos: "0 \<le> tm_schedpos1 d u" for u
    using d(2) chunk_ok_place [of "length (ts_runchunk d)" d u] unfolding timers_ok_def by (meson leD not_less)
  have "timers_ok 0 ?r" using d(2) pos by (simp add: timers_ok_def chunk_ok_empty min_ok_def)
  moreover have "log_inv (\<lambda>p e. p \<noteq> 0) T base own now ?r" by (rule log_inv_mono [OF d(3)]) simp_all
  moreover have "log_inv (\<lambda>p e. False) T base own now ?r" if "\<not> th_stop ?r"
  proof -
    have "j = length (ts_runchunk b)" using that d(4) b(5) by simp
    then have db: "d = b" using d(1) by simp
    have "sgn (tm_schedpos1 b u) \<noteq> - 1" for u using pos [of u] db by (simp add: sgn_if)
    then show ?thesis unfolding db by (intro log_inv_mono [OF b(4)]) simp_all
  qed
  moreover have "run_all_expired hook s = Some ?r" using a(1) b(1) d(1) by (simp add: run_all_expired_def)
  ultimately show ?thesis by auto
qed

lemma adjust_stride_same:
  "ts_heap (adjust_stride s) = ts_heap s" "ts_runchunk (adjust_stride s) = ts_runchunk s" "ts_check (adjust_stride s) = ts_check s"
  "tm_schedpos1 (adjust_stride s) = tm_schedpos1 s" "tm_expiry (adjust_stride s) = tm_expiry s" "tm_owner (adjust_stride s) = tm_owner s"
  "ts_ran (adjust_stride s) = ts_ran s" "th_stop (adjust_stride s) = th_stop s" "timers_ok c (adjust_stride s) = timers_ok c s"
  by (simp_all add: adjust_stride_def Let_def)

lemma run_timers_due:
  assumes "timers_ok 0 s" "ts_runchunk s = []" "ts_check s = now" "hook_ok (tm_owner s) T hook" "\<forall>t \<in> T. tm_schedpos1 s t \<noteq> 0 \<and> tm_expiry s t \<le> now"
    "root_expired s"
  shows "\<exists>r. (case run_some hook 64 (adjust_stride s) of
                      None \<Rightarrow> None
                    | Some (out, s) \<Rightarrow> if out \<and> \<not> th_stop s then run_all_expired hook s else Some s) = Some r \<and> timers_ok 0 r \<and> ts_runchunk r = []
     \<and> log_inv (\<lambda>p e. p \<noteq> 0) T (ts_ran s) (tm_owner s) now r \<and> (\<not> th_stop r \<longrightarrow> log_inv (\<lambda>p e. False) T (ts_ran s) (tm_owner s) now r)"
proof -
  let ?inv = "\<lambda>P. log_inv P T (ts_ran s) (tm_owner s) now"
  have "?inv (\<lambda>p e. p \<noteq> 0 \<and> e \<le> now) (adjust_stride s)"
    using assms(3,5) by (simp add: log_inv_def adjust_stride_same sgn_0_0)
  moreover have "root_expired (adjust_stride s)" using assms(6) by (simp add: root_expired_def adjust_stride_same)
  ultimately obtain out a where a: "run_some hook 64 (adjust_stride s) = Some (out, a)" "timers_ok 0 a" "ts_runchunk a = []" "?inv (\<lambda>p e. p \<noteq> 0 \<and> e \<le> now) a"
      "out \<longrightarrow> root_expired a" "\<not> out \<longrightarrow> th_stop a \<or> \<not> root_expired a"
    using run_some_ok [of "adjust_stride s" _ T _ _ _ hook 64] assms(1,2,4) adjust_stride_same by (metis (no_types, lifting))
  have ok: "heap_ok a" "chunk_ok 0 a" using a(2) by (simp_all add: timers_ok_def)
  show ?thesis
  proof (cases "out \<and> \<not> th_stop a")
    case True
    then show ?thesis using run_all_expired_ok [OF ok(1) a(3) ok(2) _ a(4) assms(4)] a(1,5) by auto
  next
    case False
    have "?inv (\<lambda>p e. p \<noteq> 0) a" by (rule log_inv_mono [OF a(4)]) simp_all
    moreover have "?inv (\<lambda>p e. False) a" if "\<not> th_stop a"
    proof (rule log_inv_mono [OF a(4)])
      fix u assume u: "sgn (tm_schedpos1 a u) \<noteq> 0 \<and> tm_expiry a u \<le> now"
      moreover have "0 \<le> tm_schedpos1 a u" using ok(2) chunk_ok_empty [OF a(3)] by simp
      ultimately have "ts_check a < tm_expiry a u" using not_due_in_heap [OF ok(1), of u] a(6) that False by (auto simp: sgn_0_0)
      then show False using u a(4) by (simp add: log_inv_def)
    qed simp_all
    ultimately show ?thesis using a(1-3) False by auto
  qed
qed

lemma run_timers_ok:
  assumes "timers_ok 0 s" "ts_runchunk s = []" "hook_ok (tm_owner s) T hook" "\<forall>t \<in> T. tm_schedpos1 s t \<noteq> 0 \<and> tm_expiry s t \<le> now"
  shows "\<exists>r new. run_timers hook now locked paused s = Some r \<and> timers_ok 0 r \<and> ts_runchunk r = [] \<and> ts_ran r = ts_ran s @ new
    \<and> (\<forall>x \<in> set new. fst x \<le> now) \<and> (\<forall>t \<in> T. t \<in> snd ` set new \<or> tm_schedpos1 r t \<noteq> 0)
    \<and> (\<not> locked \<and> \<not> paused \<and> \<not> th_stop r \<longrightarrow> T \<subseteq> snd ` set new)"
proof -
  let ?s = "s\<lparr>ts_check := now\<rparr>"
  have ok: "heap_ok s" "chunk_ok 0 s" "min_ok s" using assms(1) by (simp_all add: timers_ok_def)
  have ok': "timers_ok 0 ?s" using ok assms(2) by (simp add: timers_ok_def chunk_ok_empty min_ok_def)
  have T: "0 < tm_schedpos1 s t" if "t \<in> T" for t using assms(4) that ok(2) chunk_ok_empty [OF assms(2)] by (metis order_le_less)
  have none: "T = {}" if "\<not> root_expired ?s"
    using not_due_in_heap [OF _ that] T assms(4) ok(1) by force
  show ?thesis
  proof (cases "locked \<or> paused \<or> ts_heap s = [] \<or> th_stop s")
    case True
    then have "run_timers hook now locked paused s = Some s" by (simp add: run_timers_def)
    moreover have "T = {}" if "ts_heap s = []" using that none by (simp add: root_expired_def)
    ultimately show ?thesis using True assms(1,2,4) by auto
  next
    case go: False
    show ?thesis
    proof (cases "root_expired ?s")
      case True
      obtain r where "run_timers hook now locked paused s = Some r" "timers_ok 0 r" "ts_runchunk r = []"
          "log_inv (\<lambda>p e. p \<noteq> 0) T (ts_ran s) (tm_owner s) now r" "\<not> th_stop r \<longrightarrow> log_inv (\<lambda>p e. False) T (ts_ran s) (tm_owner s) now r"
        using run_timers_due [OF ok' _ _ _ _ True, of now T hook] assms(2-4) go True by (auto simp: run_timers_def Let_def root_expired_def)
      then show ?thesis by (fastforce simp: log_inv_def sgn_0_0)
    next
      case False
      then have "run_timers hook now locked paused s = Some ?s" using go by (simp add: run_timers_def root_expired_def Let_def)
      then show ?thesis using ok' none [OF False] assms(2) by auto
    qed
  qed
qed

section \<open>Killing a router\<close>

text \<open>The pending timers, as a map.\<close>

definition pending :: "timers \<Rightarrow> nat \<Rightarrow> int option" where
  "pending s t = (if tm_schedpos1 s t \<noteq> 0 then Some (tm_expiry s t) else None)"

lemma pending_frame: "timers_frame t s r \<Longrightarrow> pending r = (pending s)(t := pending r t)"
  by (auto simp: pending_def timers_frame_def fun_eq_iff) (metis sgn_0_0)+

lemma heap_ok_owner: "heap_ok s \<Longrightarrow> tm_schedpos1 s t \<le> 0 \<Longrightarrow> heap_ok (s\<lparr>tm_owner := (tm_owner s)(t := None)\<rparr>)"
  using heap_frame_mem [of s t] by (auto simp: heap_ok_def heap_frame_def)

lemma kill_one_ok:
  assumes "heap_ok s" "chunk_ok 0 s" "ts_runchunk s = []" "i < length (ts_heap s)"
  defines "t \<equiv> snd (ts_heap s ! i)"
  shows "\<exists>a r. heap_take i s = Some a \<and> set_schedpos1 t 0 (a\<lparr>tm_owner := (tm_owner a)(t := None)\<rparr>) = r \<and> heap_ok r \<and> chunk_ok 0 r
    \<and> ts_runchunk r = [] \<and> length (ts_heap s) = Suc (length (ts_heap r)) \<and> set (ts_heap r) \<subseteq> set (ts_heap s) \<and> t \<notin> snd ` set (ts_heap r)
    \<and> pending r = (pending s)(t := None) \<and> tm_owner r = (tm_owner s)(t := None)"
proof -
  obtain h pos where h: "heap_take i s = Some (s\<lparr>ts_heap := h, tm_schedpos1 := pos\<rparr>)" "mset (ts_heap s) = add_mset (ts_heap s ! i) (mset h)"
      "\<forall>p \<le> 0. heap_ok (s\<lparr>ts_heap := h, tm_schedpos1 := pos(t := p)\<rparr>)"
      "\<forall>u. u \<noteq> t \<longrightarrow> sgn (pos u) = sgn (tm_schedpos1 s u) \<and> (tm_schedpos1 s u \<le> 0 \<longrightarrow> pos u = tm_schedpos1 s u)"
    using heap_take_ok [OF assms(1,4)] by (auto simp: t_def)
  let ?a = "s\<lparr>ts_heap := h, tm_schedpos1 := pos\<rparr>"
  let ?b = "set_schedpos1 t 0 ?a"
  let ?r = "set_schedpos1 t 0 (?a\<lparr>tm_owner := (tm_owner ?a)(t := None)\<rparr>)"
  have r: "?r = ?b\<lparr>tm_owner := (tm_owner ?b)(t := None)\<rparr>" by (cases s) (simp add: set_schedpos1_def)
  have b: "heap_ok ?b" "tm_schedpos1 ?b t = 0" using h(3) by (simp_all add: set_schedpos1_update set_schedpos1_def)
  have "heap_ok ?r" unfolding r by (rule heap_ok_owner [OF b(1)]) (simp add: b(2))
  moreover have "0 \<le> pos u" if "u \<noteq> t" for u using h(4) that assms(2) chunk_ok_empty [OF assms(3)] by (metis sgn_less not_less)
  then have "chunk_ok 0 ?r" by (subst chunk_ok_empty) (simp_all add: set_schedpos1_def assms(3))
  moreover have "length (ts_heap s) = Suc (length h)" using h(2) by (metis size_mset size_add_mset)
  moreover have "set (ts_heap s) = insert (ts_heap s ! i) (set h)" using h(2) by (metis set_mset_mset set_mset_add_mset_insert)
  moreover have "t \<notin> snd ` set (ts_heap ?r)" using heap_frame_mem [OF frame_of_heap [OF b(1)], of t] b(2) by (simp add: set_schedpos1_def)
  moreover have "pos u = 0 \<longleftrightarrow> tm_schedpos1 s u = 0" if "u \<noteq> t" for u using h(4) that by (metis sgn_0_0)
  then have "pending ?r = (pending s)(t := None)" by (auto simp: pending_def set_schedpos1_def fun_eq_iff)
  ultimately show ?thesis using h(1) assms(3) by (simp add: set_schedpos1_def subset_insertI)
qed

lemma kill_router_loop_ok:
  assumes "heap_ok s" "chunk_ok 0 s" "ts_runchunk s = []" "n \<le> length (ts_heap s)"
  shows "\<exists>r. kill_router_loop router n s = Some r \<and> heap_ok r \<and> chunk_ok 0 r \<and> ts_runchunk r = []
    \<and> (\<forall>u. pending r u = pending s u \<and> tm_owner r u = tm_owner s u \<or> tm_owner s u = Some router \<and> pending r u = None \<and> tm_owner r u = None)
    \<and> ((\<forall>x \<in> set (ts_heap s). tm_owner s (snd x) = Some router) \<and> length (ts_heap s) = n \<longrightarrow> ts_heap r = [])"
  using assms
proof (induction n arbitrary: s)
  case 0
  then show ?case by simp
next
  case (Suc n)
  let ?t = "snd (ts_heap s ! n)"
  have n: "n < length (ts_heap s)" using Suc.prems(4) by simp
  have m: "ts_heap s ! n \<in> set (ts_heap s)" by (rule nth_mem [OF n])
  then obtain o' where o': "tm_owner s ?t = Some o'" using frame_of_heap [OF Suc.prems(1)] by (auto simp: heap_frame_def)
  show ?case
  proof (cases "o' = router")
    case True
    obtain a b where b: "heap_take n s = Some a" "set_schedpos1 ?t 0 (a\<lparr>tm_owner := (tm_owner a)(?t := None)\<rparr>) = b" "heap_ok b" "chunk_ok 0 b"
        "ts_runchunk b = []" "length (ts_heap s) = Suc (length (ts_heap b))" "set (ts_heap b) \<subseteq> set (ts_heap s)" "?t \<notin> snd ` set (ts_heap b)"
        "pending b = (pending s)(?t := None)" "tm_owner b = (tm_owner s)(?t := None)"
      using kill_one_ok [OF Suc.prems(1-3) n] by blast
    obtain r where r: "kill_router_loop router n b = Some r" "heap_ok r" "chunk_ok 0 r" "ts_runchunk r = []"
        "\<And>u. pending r u = pending b u \<and> tm_owner r u = tm_owner b u \<or> tm_owner b u = Some router \<and> pending r u = None \<and> tm_owner r u = None"
        "(\<forall>x \<in> set (ts_heap b). tm_owner b (snd x) = Some router) \<and> length (ts_heap b) = n \<longrightarrow> ts_heap r = []"
      using Suc.IH [OF b(3-5)] b(6) n by auto
    have "kill_router_loop router (Suc n) s = Some r" using n o' True b(1,2) r(1) by simp
    moreover have "pending r u = pending s u \<and> tm_owner r u = tm_owner s u \<or> tm_owner s u = Some router \<and> pending r u = None \<and> tm_owner r u = None" for u
      using r(5) [of u] b(9,10) o' True by (cases "u = ?t") auto
    moreover have "ts_heap r = []" if all: "\<forall>x \<in> set (ts_heap s). tm_owner s (snd x) = Some router" "length (ts_heap s) = Suc n"
    proof -
      have "tm_owner b (snd x) = Some router" if x: "x \<in> set (ts_heap b)" for x
      proof -
        have "snd x \<noteq> ?t" using b(8) x by (metis imageI)
        then show ?thesis using all x b(7,10) by auto
      qed
      then show ?thesis using r(6) b(6) that(2) by simp
    qed
    ultimately show ?thesis using r(2-4) by blast
  next
    case False
    then have "kill_router_loop router (Suc n) s = kill_router_loop router n s" using n o' by simp
    moreover have "\<not> (\<forall>x \<in> set (ts_heap s). tm_owner s (snd x) = Some router)" using m o' False by (metis option.inject)
    ultimately show ?thesis using Suc.IH [OF Suc.prems(1-3)] n by auto
  qed
qed

lemma owned_set_ok: "timers_ok 0 ((new_timer_set now)\<lparr>tm_owner := (\<lambda>t. Some (own t))\<rparr>)"
  by (simp add: timers_ok_def heap_ok_def heap_frame_def chunk_ok_def min_ok_def new_timer_set_def is_heap_def placed_def)

lemma next_timer_ok:
  assumes "timers_ok c s" "ts_runchunk s = []"
  shows "case next_timer s of
          None \<Rightarrow> pending s = Map.empty \<and> ts_expiry s = 0
        | Some u \<Rightarrow> pending s u = Some (ts_expiry s) \<and> (\<forall>v e. pending s v = Some e \<longrightarrow> ts_expiry s \<le> e)"
proof -
  have ok: "heap_ok s" "chunk_ok c s" "min_ok s" using assms(1) by (simp_all add: timers_ok_def)
  have pos: "0 < tm_schedpos1 s v" if "pending s v = Some e" for v e
    using that chunk_ok_pos [OF ok(2), of v] assms(2) by (cases "tm_schedpos1 s v" "0 :: int" rule: linorder_cases) (auto simp: pending_def)
  note fr = frame_of_heap [OF ok(1)]
  show ?thesis
  proof (cases "ts_heap s = []")
    case True
    then have "pending s v = None" for v using pos [of v] heap_frame_pos [OF fr, of v] by (cases "pending s v") auto
    then show ?thesis using True ok(3) by (auto simp: next_timer_def min_ok_def)
  next
    case False
    have "ts_expiry s \<le> e" if "pending s v = Some e" for v e
    proof -
      have "(e, v) \<in> set (ts_heap s)" using heap_frame_pos [OF fr pos [OF that]] that nth_mem [of "nat (tm_schedpos1 s v - 1)" "ts_heap s"]
        by (auto simp: pending_def split: if_splits)
      then show ?thesis using heap_ok_root [OF ok(1)] ok(3) False by (auto simp: min_ok_def)
    qed
    then show ?thesis using False ok(3) heap_frame_nth [OF fr, of 0] by (auto simp: next_timer_def min_ok_def pending_def)
  qed
qed

section \<open>Properties\<close>

text \<open>C10: the heap of timers implements a map of pending expiries. From a consistent state, scheduling
  a timer that has an owner succeeds and sets its entry, to the time asked for but never to zero and
  never to more than a second behind the last check of the clock, whether the timer was idle, in the
  heap or in the chunk; unscheduling removes its entry. No other entry changes, the state stays
  consistent, and between runs the timer that the set announces next is a pending one with the
  least expiry.\<close>

theorem timer_set_refines_map:
  assumes "timers_ok c s" "tm_owner s t \<noteq> None"
  shows "(\<exists>r. schedule_at_steady t when s = Some r \<and> timers_ok c r \<and> pending r = (pending s)(t \<mapsto> effective s when))
    \<and> (\<exists>r. unschedule t s = Some r \<and> timers_ok c r \<and> pending r = (pending s)(t := None))
    \<and> (ts_runchunk s = [] \<longrightarrow> (case next_timer s of
          None \<Rightarrow> pending s = Map.empty \<and> ts_expiry s = 0
        | Some u \<Rightarrow> pending s u = Some (ts_expiry s) \<and> (\<forall>v e. pending s v = Some e \<longrightarrow> ts_expiry s \<le> e)))"
  (is "?sched \<and> ?unsched \<and> ?next")
proof (intro conjI)
  show ?sched using schedule_at_steady_ok [OF assms, of "when"] pending_frame by (force simp: pending_def)
  show ?unsched using unschedule_ok [OF assms(1), of t] pending_frame by (force simp: pending_def)
  show ?next using next_timer_ok [OF assms(1)] by blast
qed

theorem timer_set_refines_map_witness:
  "\<exists>r. schedule_at_steady 3 9 ((new_timer_set 0)\<lparr>tm_owner := (\<lambda>t. Some 0)\<rparr>) = Some r \<and> timers_ok 0 r
     \<and> pending r = [3 \<mapsto> effective ((new_timer_set 0)\<lparr>tm_owner := (\<lambda>t. Some 0)\<rparr>) 9]"
proof -
  let ?s = "(new_timer_set 0)\<lparr>tm_owner := (\<lambda>t. Some 0)\<rparr>"
  have "timers_ok 0 ?s" by (rule owned_set_ok)
  then have "\<exists>r. schedule_at_steady 3 9 ?s = Some r \<and> timers_ok 0 r \<and> pending r = (pending ?s)(3 \<mapsto> effective ?s 9)"
    using timer_set_refines_map [of 0 ?s 3 9] by simp
  moreover have "pending ?s = Map.empty" by (simp add: pending_def new_timer_set_def fun_eq_iff)
  ultimately show ?thesis by simp
qed

text \<open>C9: \<open>run_timers\<close> always comes to an end without a failed assertion, whatever the callbacks do to
  timers with owners. Only timers whose time has come are run. A timer that is due when the run
  starts and that no other timer's callback touches is run, in the first 65 or in the chunk; if
  the thread is stopped in the middle it has been run or is still scheduled. Afterwards the chunk
  is empty and the set is consistent.\<close>

theorem run_timers_no_starvation:
  assumes "timers_ok 0 s" "ts_runchunk s = []" "hook_ok (tm_owner s) T hook" "\<forall>t \<in> T. \<exists>e \<le> now. pending s t = Some e"
  shows "\<exists>r new. run_timers hook now locked paused s = Some r \<and> timers_ok 0 r \<and> ts_runchunk r = [] \<and> ts_ran r = ts_ran s @ new
    \<and> (\<forall>x \<in> set new. fst x \<le> now) \<and> (\<forall>t \<in> T. t \<in> snd ` set new \<or> pending r t \<noteq> None)
    \<and> (\<not> locked \<and> \<not> paused \<and> \<not> th_stop r \<longrightarrow> T \<subseteq> snd ` set new)"
proof -
  have "\<forall>t \<in> T. tm_schedpos1 s t \<noteq> 0 \<and> tm_expiry s t \<le> now" using assms(4) by (auto simp: pending_def split: if_splits)
  from run_timers_ok [OF assms(1-3) this, of locked paused] show ?thesis by (auto simp: pending_def)
qed

theorem run_timers_no_starvation_witness:
  "\<exists>s r new. schedule_at_steady 3 9 ((new_timer_set 0)\<lparr>tm_owner := (\<lambda>t. Some 0)\<rparr>) = Some s
     \<and> run_timers (\<lambda>n t. [Schedule_at t 15, Unschedule 8]) 10 False False s = Some r \<and> ts_ran r = ts_ran s @ new
     \<and> (\<not> th_stop r \<longrightarrow> {3} \<subseteq> snd ` set new)"
proof -
  let ?s = "(new_timer_set 0)\<lparr>tm_owner := (\<lambda>t. Some 0)\<rparr>" and ?hook = "\<lambda>n t. [Schedule_at t 15, Unschedule 8]"
  obtain s where s: "schedule_at_steady 3 9 ?s = Some s" "timers_ok 0 s" "timers_frame 3 ?s s" "0 < tm_schedpos1 s 3" "tm_expiry s 3 = effective ?s 9"
    using schedule_at_steady_ok [OF owned_set_ok [of "\<lambda>t. 0" 0], of 3 9] by auto
  have "effective ?s 9 = 9" by (simp add: effective_def new_timer_set_def subsec_per_sec_def behind_sec_def)
  then have "\<forall>t \<in> {3}. \<exists>e \<le> 10. pending s t = Some e" using s(4,5) by (simp add: pending_def)
  moreover have "hook_ok (tm_owner s) {3} ?hook" "ts_runchunk s = []" using s(3) by (auto simp: hook_ok_def timers_frame_def new_timer_set_def)
  ultimately obtain r new where "run_timers ?hook 10 False False s = Some r" "ts_ran r = ts_ran s @ new" "\<not> th_stop r \<longrightarrow> {3} \<subseteq> snd ` set new"
    using run_timers_no_starvation [OF s(2), of "{3}" ?hook 10 False False] by auto
  then show ?thesis using s(1) by blast
qed

text \<open>\<open>kill_router\<close> keeps the set consistent and touches no timer of another router; a timer of the
  router is either gone, without owner, or as before. If all timers in the heap belong to the
  router, the heap is empty afterwards.\<close>

theorem kill_router_spares_others:
  assumes "timers_ok 0 s" "ts_runchunk s = []"
  shows "\<exists>r. kill_router router s = Some r \<and> timers_ok 0 r \<and> ts_runchunk r = []
    \<and> (\<forall>t. pending r t = pending s t \<and> tm_owner r t = tm_owner s t \<or> tm_owner s t = Some router \<and> pending r t = None \<and> tm_owner r t = None)
    \<and> ((\<forall>t. pending s t \<noteq> None \<longrightarrow> tm_owner s t = Some router) \<longrightarrow> ts_heap r = [])"
proof -
  have ok: "heap_ok s" "chunk_ok 0 s" using assms(1) by (simp_all add: timers_ok_def)
  have "tm_owner s (snd x) = Some router" if "x \<in> set (ts_heap s)" "\<forall>t. pending s t \<noteq> None \<longrightarrow> tm_owner s t = Some router" for x
  proof -
    have "snd x \<in> snd ` set (ts_heap s)" using that(1) by simp
    then have "0 < tm_schedpos1 s (snd x)" using heap_frame_mem [OF frame_of_heap [OF ok(1)]] by blast
    then show ?thesis using that(2) by (simp add: pending_def)
  qed
  moreover obtain r where r: "kill_router_loop router (length (ts_heap s)) s = Some r" "heap_ok r" "chunk_ok 0 r" "ts_runchunk r = []"
      "\<forall>u. pending r u = pending s u \<and> tm_owner r u = tm_owner s u \<or> tm_owner s u = Some router \<and> pending r u = None \<and> tm_owner r u = None"
      "(\<forall>x \<in> set (ts_heap s). tm_owner s (snd x) = Some router) \<longrightarrow> ts_heap r = []"
    using kill_router_loop_ok [OF ok assms(2) order_refl, of router] by auto
  moreover have "pending (set_timer_expiry r) = pending r" by (simp add: pending_def set_timer_expiry_def fun_eq_iff)
  ultimately show ?thesis using set_expiry_ok [OF r(2,3)] assms(2)
    by (intro exI [of _ "set_timer_expiry r"]) (simp add: kill_router_def set_timer_expiry_def)
qed

theorem kill_router_spares_others_witness:
  "\<exists>r. kill_router 7 ((new_timer_set 0)\<lparr>tm_owner := (\<lambda>t. Some 0)\<rparr>) = Some r \<and> timers_ok 0 r \<and> tm_owner r 5 = Some 0"
  using kill_router_spares_others [OF owned_set_ok [of "\<lambda>t. 0" 0], of 7] by (auto simp: new_timer_set_def)

text \<open>C38: \<open>kill_router\<close> can leave a timer of the killed router in the heap. When it removes a timer, the last
  timer of the heap takes its place and may rise, which moves a parent that has not been looked
  at down into the place that has; the loop goes on to the places before it and never sees that
  timer. Here nine timers are scheduled, timers 1 and 4 belong to router 7; after the call timer 1
  is still in the heap and still has its owner, so it would be run after the router is gone.\<close>

theorem kill_router_misses_timer:
  "\<exists>s r. timer_do_all (map (\<lambda>(t, e). Schedule_at t e) [(0, 1), (1, 10), (2, 2), (3, 5), (4, 20), (5, 21), (6, 22), (7, 23), (8, 3)])
       ((new_timer_set 0)\<lparr>tm_owner := (\<lambda>t. Some (if t = 1 \<or> t = 4 then 7 else 0))\<rparr>) = Some s
     \<and> timers_ok 0 s \<and> kill_router 7 s = Some r \<and> (10, 1) \<in> set (ts_heap r) \<and> tm_owner r 1 = Some 7"
proof -
  let ?calls = "map (\<lambda>(t, e). Schedule_at t e) [(0, 1), (1, 10), (2, 2), (3, 5), (4, 20), (5, 21), (6, 22), (7, 23), (8, 3)]"
    and ?s = "(new_timer_set 0)\<lparr>tm_owner := (\<lambda>t. Some (if t = 1 \<or> t = 4 then 7 else 0))\<rparr>"
  have "map_option (\<lambda>s. ((10, 1) \<in> set (ts_heap s), tm_owner s 1)) (Option.bind (timer_do_all ?calls ?s) (kill_router 7)) = Some (True, Some 7)"
    by code_simp
  then obtain s r where "timer_do_all ?calls ?s = Some s" "kill_router 7 s = Some r" "(10, 1) \<in> set (ts_heap r)" "tm_owner r 1 = Some 7"
    by (auto simp: bind_eq_Some_conv)
  moreover have "timers_ok 0 s"
    using timer_do_all_ok [OF owned_set_ok [of "\<lambda>t. if t = 1 \<or> t = 4 then 7 else 0" 0], of ?calls] calculation(1) by simp
  ultimately show ?thesis by blast
qed

end
