(* ===== verification/Spec2Isabelle.thy ===== *)
theory Spec2Isabelle
  imports Ersa_Pipeline Pattern_Parser Wordwise_Optimize Wordwise_Compress Click_DRR Click_Stride Click_Rated Click_Timer
begin

text \<open>
  \<^bold>\<open>The program.\<close> The repository is the test bed of a study of bandwidth measurement tools
  behind a provider that favours them. It consists of the Click modular router
  (\<open>src/click\<close>) with one replaced element, the \<open>Classifier\<close> of \<open>src/classifier.{cc,hh}\<close>, and
  of the router configuration \<open>src/sandbox_tester.click\<close>. The classifier looks at every packet, decides
  whether it belongs to a measurement tool, and sends it to output 1 if it does and to output 0
  if not. In the configuration output 0 leads through a queue and a \<open>BandwidthShaper\<close> of 10 Mbit/s,
  output 1 through a queue only; a \<open>PrioSched\<close> takes packets from both and prefers the second.
  Two such paths serve the two directions of the link. Their classifiers share one table of
  flagged flows.

  \<^bold>\<open>Conventions.\<close> C++ integers are words of their width where they can wrap, and \<open>int\<close> or \<open>nat\<close>
  where an invariant or the surrounding code bounds them; undefined behaviour (reads outside a
  buffer, signed overflow, division by zero, failed assertions) is the value \<open>None\<close>. Objects are records, operations
  take and return them. Readings of the clock, results of \<open>AlignmentInfo\<close> and the
  element upstream of a pull are arguments. Printing is a list of effects. Contracts between
  components are locales, interpreted on the definitions of the component that provides them.

  \<^bold>\<open>The theories.\<close>

  \<^item> \<open>Cpp_Prelude\<close>: machine types, short-circuit conditions with undefined operands,
    \<open>std::to_string\<close>, the contract \<open>cpp_map\<close> of the standard containers with its instances for
    \<open>unordered_map\<close> and \<open>map\<close>, floating point rounding. \<open>Packet_Buffer\<close>: the bytes and the length of
    a packet, \<open>memmem\<close>.

  \<^item> \<open>Ersa_Classifier\<close> (\<open>src/classifier.{cc,hh}\<close>, \<open>Classifier::push\<close> and what it calls): the state of the element,
    the shared flag table, the burst profile with its observation window, the checks on
    addresses, ports and TLS handshakes. The verdict is specified independently of the order of
    checks, and \<open>push\<close> is shown to deliver it; a flow that was once unthrottled stays unthrottled in
    both directions in all classifiers that are not in a slow phase, until an observation ends; every push counts its packet once; the keys of the flag
    table identify flows; the invariant of the classifiers holds in every reachable state
    of the router; and \<open>push\<close> is defined on packets whose buffers cover the fields it reads. The
    search for host names in TLS handshakes is not: it can leave the buffer.

  \<^item> \<open>Ersa_Pipeline\<close> (\<open>src/sandbox_tester.click\<close>): one direction of the link, as a composition of the
    models of its elements. For every sequence of arrivals and pulls of the device, the packets of each class
    that find room in its queue leave in order and the others are lost, tool packets have
    priority, and the throttled class keeps the rate of 10 Mbit/s, to 383 bytes and the packet that leaves.

  \<^item> \<open>Pattern_Parser\<close> (\<open>src/classifier.cc\<close>, \<open>empty_program\<close>, \<open>parse_program\<close>, \<open>configure\<close>): the pattern
    language, from the text to the installed program, with its errors and warnings. Printed
    clauses parse back to themselves; the program that is built, and the optimised one under the
    condition below, sends a packet to the first slot whose clauses hold.

  \<^item> \<open>Wordwise_Insn\<close>, \<open>Wordwise_Exec\<close>, \<open>Wordwise_Program\<close>, \<open>Wordwise_Sort\<close>, \<open>Wordwise_Combine\<close>, \<open>Wordwise_Prune\<close>,
    \<open>Wordwise_Dominator\<close>, \<open>Wordwise_Dominator_Correct\<close>, \<open>Wordwise_Dominator_Run\<close>, \<open>Wordwise_Optimize\<close>
    (\<open>src/click/elements/standard/classification.{cc,hh}\<close>): decision programs for packets. Instructions
    and their relations; the two matchers, as \<open>partial_function\<close>s that are proved to return on
    forward programs; construction by subtrees, proved against stacks of outcomes; and the optimiser pass by
    pass: each pass ends, and keeps the output of every packet that holds the words the tests
    read. For the dominator pass this needs the condition that the run stays \<open>clean\<close>, which
    excludes two defects that are proved to exist. The flat vectors of that pass are
    lists of lists, the chains of predecessors are lists.

  \<^item> \<open>Wordwise_Compress\<close> (\<open>CompressedProgram::compile\<close> in \<open>classification.cc\<close>, and the matchers of \<open>elements/ip/ipfilter.{cc,hh}\<close>): the
    compiler from programs to arrays of words with joined tests, sorted values and relative jumps, and the
    matchers that interpret the array. A compressed program behaves like the program, except
    for short packets when tests with different answers for them were joined.

  \<^item> \<open>Fifo_Interface\<close>, \<open>Click_Storage\<close>, \<open>Click_Note_Queue\<close> (\<open>include/click/standard/storage.hh\<close>,
    \<open>elements/standard/simplequeue.{cc,hh}\<close>, \<open>notifierqueue.{cc,hh}\<close>, \<open>fullnotequeue.{cc,hh}\<close>): ring buffers and the
    queues with notification, including reconfiguration, take-over of state and handlers. They
    are instances of the contract \<open>bounded_fifo\<close>. Signals are sound in every reachable state, idle
    queues sleep after ten failed pulls and wake with the next packet.

  \<^item> \<open>Click_Rate\<close> (\<open>include/click/gaprate.hh\<close>, \<open>elements/standard/{shaper,bandwidthshaper}.cc\<close>): the rate
    limiter, over any source that keeps the contract \<open>packet_source\<close>: what leaves is bounded by the
    configured rate, up to the packet that leaves and a rounding allowance.

  \<^item> \<open>Click_Sched\<close>, \<open>Click_DRR\<close> (\<open>elements/standard/{priosched,rrsched,drr}.cc\<close>): schedulers over inputs that
    keep the contracts \<open>pull_source\<close>, \<open>eager_source\<close> and \<open>drr_input\<close>: strict priority, no starvation, fairness in bytes.

  \<^item> \<open>Click_Stride\<close> (\<open>elements/standard/{stridesched,strideswitch}.{cc,hh}\<close>, \<open>PASS_GT\<close> of \<open>include/click/task.hh\<close>): stride scheduling.
    The clients are linked by the pointers of the code, \<open>_pprev\<close> being the address of a pointer; list segments relate the
    links to lists of clients. The links are sound after any sequence of operations, \<open>StrideSwitch\<close> is fair to its
    outputs for any number of packets and \<open>StrideSched\<close> to backlogged queues, in terms of their strides, although the 32-bit
    passes wrap around. A queue with many tickets that is idle collects credit that grows with its idle time, within the range in
    which passes can be compared.

  \<^item> \<open>Click_Integers\<close>, \<open>Click_Bigint\<close> (\<open>lib/integers.cc\<close>, \<open>include/click/{integers,bigint}.hh\<close>): bit scans, square
    roots, full multiplication, and multi-limb arithmetic with the division by an
    approximate inverse, shown equal to the mathematical operations.

  \<^item> \<open>Click_Token_Bucket\<close>, \<open>Click_Rated\<close> (\<open>include/click/tokenbucket.hh\<close>,
    \<open>elements/standard/{ratedunqueue,bwratedunqueue,ratedsplitter,bwratedsplitter}.cc\<close>): token buckets and the
    elements that move packets at their pace, through the contract \<open>metered_task\<close>: what leaves is paid
    for, and the timer of an idle element fires at the first tick at which it can go on.

  \<^item> \<open>Click_Heap\<close>, \<open>Click_Timer\<close> (\<open>include/click/{heap,timer,timerset}.hh\<close>, \<open>lib/{timer,timerset}.cc\<close>): array heaps of
    any arity with the callback that tells elements their places, over the contract \<open>heap_order\<close>;
    timers in such a heap as an implementation of a map from timers to expiries; \<open>run_timers\<close> with its
    bounded first phase and the chunk of its second phase, against arbitrary callbacks. Every timer that is due is
    run. \<open>kill_router\<close> can leave a timer of the killed router behind.

  \<^bold>\<open>Bounds and fuel.\<close> Loops are recursive functions with a measure, or recursion over a counter
    of the code: the 64 timers of \<open>run_timers\<close>; the number of places left in the chunk, whose length no
    callback changes; the length of the heap, which shrinks in every step of the loop that fills the
    chunk. The loop that empties a queue on \<open>reset\<close> runs over the number of stored packets, and the printer of multi-limb numbers over
    the size of its buffer. The matchers may run for ever on programs with cycles, which
    is \<open>None\<close>; forward programs are proved to give a result. In the same way the loops along the links of the
    stride scheduler are \<open>None\<close> on a cyclic list, and are proved to end in every reachable state.

  \<^bold>\<open>Defects.\<close> The development proves some defects of the code as theorems or lemmas: the search
    past the end of a packet in \<open>push\<close>, a read past the end of a pattern in the parser, wrap-around of large
    offsets, the dominator pass (a wrong output and a read before a table), short packets after merged or compressed tests, the merge
    of a program that never matches, the binary search of the offset map, square roots of numbers from \<open>2^62\<close>
    on, the division by zero of a \<open>GapRate\<close> with a rate above its maximum, rates read back from a token bucket,
    \<open>kill_router\<close>, and the credit of idle clients of \<open>StrideSched\<close>.

  \<^bold>\<open>Not modelled.\<close> The configuration language with its lexer and the construction of the element graph,
    which run once before any packet; tasks, threads and the locks between threads, whose
    effects depend on the operating system and on interleavings that the sources only constrain through
    primitives outside of them; device elements, drivers and kernel modules; the analysis tool, the data and the scripts of the evaluation;
    the expression language of \<open>IPFilter\<close>; and the other elements of Click, which the test bed does not use.
\<close>

end
